(* ===== verification/Prelude.thy ===== *)
theory Prelude
  imports Main "HOL-Library.Word" "HOL-Library.Multiset"
begin

text \<open>
  Shared vocabulary of the development: the machine integers of the Ceres target (32-bit
  \<open>unsigned int\<close> and \<open>size_t\<close>), the outcomes of allocations, buffers of element slots with the C memory
  primitives on them, comparators (\<open>int (*cmp)(const void*, const void*)\<close>) with the contract the
  containers and the sorts rely on, and the generic lemmas the component theories share.
\<close>

unbundle bit_operations_syntax

section \<open>Machine integers\<close>

type_synonym u8 = "8 word"
type_synonym u16 = "16 word"
type_synonym u32 = "32 word"
type_synonym u64 = "64 word"

text \<open>The bound of \<open>unsigned int\<close>; index arithmetic on \<open>nat\<close> writes the wrap-around with it.\<close>

abbreviation U32 :: nat where
  "U32 \<equiv> 2 ^ 32"

abbreviation UINT_MAX :: nat where
  "UINT_MAX \<equiv> 2 ^ 32 - 1"

text \<open>\<open>unsigned int\<close> arithmetic on \<open>nat\<close>: the sum, product and difference wrap at 2^32.\<close>

definition add32 :: "nat \<Rightarrow> nat \<Rightarrow> nat" where
  "add32 a b = (a + b) mod U32"

definition mul32 :: "nat \<Rightarrow> nat \<Rightarrow> nat" where
  "mul32 a b = (a * b) mod U32"

definition sub32 :: "nat \<Rightarrow> nat \<Rightarrow> nat" where
  "sub32 a b = (a + U32 - b) mod U32"

lemma add32_exact [simp]: "a + b < U32 \<Longrightarrow> add32 a b = a + b"
  by (simp add: add32_def)

lemma mul32_exact [simp]: "a * b < U32 \<Longrightarrow> mul32 a b = a * b"
  by (simp add: mul32_def)

lemma sub32_exact [simp]: "b \<le> a \<Longrightarrow> a < U32 \<Longrightarrow> sub32 a b = a - b"
  by (simp add: sub32_def mod_if)

lemma mul32_double: "mul32 a 2 = (if a < 2 ^ 31 then 2 * a else (2 * a) mod U32)"
  by (simp add: mul32_def mult.commute)

text \<open>A doubling that wrapped is smaller than what was doubled: the test the containers make.\<close>

lemma mul32_double_wraps: "a < U32 \<Longrightarrow> 2 ^ 31 \<le> a \<Longrightarrow> mul32 a 2 < a"
  by (simp add: mul32_def mod_if) linarith

section \<open>Masks and powers of two\<close>

lemma unat_of_nat_u32 [simp]: "n < U32 \<Longrightarrow> unat (of_nat n :: u32) = n"
  by (simp add: unsigned_of_nat take_bit_nat_eq_self)

lemma unat_u32_less [simp]: "unat (x :: u32) < 4294967296"
  using unsigned_less [of x] by simp

lemma unat_u8_less [simp]: "unat (x :: u8) < 256"
  using unsigned_less [where ?'a = nat and w = x] by simp

lemma unat_u8_le: "unat (x :: u8) \<le> 255"
  using unat_u8_less [of x] by linarith

lemma unat_u16_less [simp]: "unat (x :: u16) < 65536"
  using unsigned_less [where ?'a = nat and w = x] by simp

lemma unat_ucast_u8_u32 [simp]: "unat (ucast (x :: u8) :: u32) = unat x"
  using unat_u8_less [of x] by (simp add: unsigned_ucast_eq take_bit_nat_eq_self order_less_le_trans del: unat_u8_less)

lemma unat_pow2_less: "k < 32 \<Longrightarrow> unat (2 ^ k :: u32) = 2 ^ k"
proof -
  assume k: "k < 32"
  have "(2::nat) ^ k < 2 ^ 32" by (rule power_strict_increasing [OF k]) simp
  from unat_of_nat_u32 [OF this] show ?thesis by (simp only: of_nat_power of_nat_numeral)
qed

lemma unat_and_mask:
  fixes x m :: u32
  assumes "m + 1 = 2 ^ k" and "k < 32"
  shows "unat (x AND m) = unat x mod 2 ^ k"
proof -
  have "m = 2 ^ k - 1" using assms(1) by (metis add_diff_cancel_right')
  then have "m = mask k" by (simp add: mask_eq_exp_minus_1)
  then have "x AND m = take_bit k x" by (simp add: take_bit_eq_mask)
  then show ?thesis using assms(2) by (simp add: take_bit_eq_mod unat_mod_distrib unat_pow2_less)
qed

lemma nat_and_pow2_minus_1: "(n::nat) AND (2 ^ k - 1) = n mod 2 ^ k"
proof -
  have "n AND (2 ^ k - 1) = n AND mask k" by (simp add: mask_nat_def)
  then show ?thesis by (simp add: take_bit_eq_mask [symmetric] take_bit_eq_mod)
qed

lemma nat_or_add: "x < 2 ^ k \<Longrightarrow> (c * 2 ^ k) OR x = c * 2 ^ k + (x :: nat)"
proof -
  assume x: "x < 2 ^ k"
  have "(c * 2 ^ k) AND x = 0"
  proof (rule bit_eqI)
    fix n
    have "bit x n \<Longrightarrow> n < k"
      using x take_bit_nat_eq_self [of x k] bit_take_bit_iff [of k x n] by auto
    moreover have "bit (c * 2 ^ k) n \<Longrightarrow> k \<le> n"
      using bit_push_bit_iff [of k c n] by (simp add: push_bit_eq_mult)
    ultimately show "bit ((c * 2 ^ k) AND x) n = bit (0 :: nat) n" by (auto simp: bit_and_iff)
  qed
  then show ?thesis by (simp add: disjunctive_add_eq_or)
qed

section \<open>Allocation outcomes\<close>

text \<open>
  Every operation that can reach \<open>malloc\<close>, \<open>calloc\<close> or \<open>realloc\<close> takes the outcomes as an argument: \<open>al i\<close> tells whether
  the \<open>i\<close>-th allocation the operation asks for succeeds. The theorems quantify over \<open>al\<close>, so
  they hold whatever the state of the heap makes of each request.
\<close>

type_synonym allocs = "nat \<Rightarrow> bool"

definition al_drop :: "nat \<Rightarrow> allocs \<Rightarrow> allocs" where
  "al_drop n al = (\<lambda>i. al (n + i))"

section \<open>Buffers of element slots\<close>

text \<open>
  A heap or caller-provided buffer is a list of slots, one per element; \<open>None\<close> is a slot that was
  allocated and never written. \<open>slots_put\<close> is \<open>memcpy\<close> of a run of elements into a buffer and
  \<open>slots_move\<close> is \<open>memmove\<close> inside one.
\<close>

type_synonym 'a slots = "'a option list"

definition slots_fresh :: "nat \<Rightarrow> 'a slots" where
  "slots_fresh n = replicate n None"

definition slots_put :: "'a slots \<Rightarrow> nat \<Rightarrow> 'a slots \<Rightarrow> 'a slots" where
  "slots_put d at xs = take at d @ xs @ drop (at + length xs) d"

definition slots_move :: "'a slots \<Rightarrow> nat \<Rightarrow> nat \<Rightarrow> nat \<Rightarrow> 'a slots" where
  "slots_move d dst src n = slots_put d dst (take n (drop src d))"

text \<open>\<open>realloc\<close> keeps what the old block held, and the rest of the larger one is not written.\<close>

definition slots_resize :: "'a slots \<Rightarrow> nat \<Rightarrow> 'a slots" where
  "slots_resize d n = take n d @ replicate (n - length d) None"

text \<open>What the first \<open>n\<close> slots hold, read as elements.\<close>

definition live :: "'a slots \<Rightarrow> nat \<Rightarrow> 'a list" where
  "live d n = map the (take n d)"

definition all_written :: "'a slots \<Rightarrow> nat \<Rightarrow> bool" where
  "all_written d n \<longleftrightarrow> n \<le> length d \<and> (\<forall>i < n. d ! i \<noteq> None)"

lemma length_slots_fresh [simp]: "length (slots_fresh n) = n"
  by (simp add: slots_fresh_def)

lemma length_slots_put [simp]:
  "at + length xs \<le> length d \<Longrightarrow> length (slots_put d at xs) = length d"
  by (simp add: slots_put_def)

lemma length_slots_resize [simp]: "length (slots_resize d n) = n"
  by (simp add: slots_resize_def)

lemma length_slots_move [simp]:
  "src + n \<le> length d \<Longrightarrow> dst + n \<le> length d \<Longrightarrow> length (slots_move d dst src n) = length d"
  by (simp add: slots_move_def)

lemma length_live [simp]: "n \<le> length d \<Longrightarrow> length (live d n) = n"
  by (simp add: live_def)

lemma live_0 [simp]: "live d 0 = []"
  by (simp add: live_def)

lemma nth_live [simp]: "i < n \<Longrightarrow> n \<le> length d \<Longrightarrow> live d n ! i = the (d ! i)"
  by (simp add: live_def)

lemma take_slots_resize: "m \<le> length d \<Longrightarrow> m \<le> n \<Longrightarrow> take m (slots_resize d n) = take m d"
  by (simp add: slots_resize_def)

lemma live_slots_resize [simp]:
  "m \<le> length d \<Longrightarrow> m \<le> n \<Longrightarrow> live (slots_resize d n) m = live d m"
  by (simp add: live_def take_slots_resize)

lemma all_written_slots_resize:
  "all_written d m \<Longrightarrow> m \<le> n \<Longrightarrow> all_written (slots_resize d n) m"
  by (auto simp: all_written_def slots_resize_def nth_append)

lemma all_written_le: "all_written d n \<Longrightarrow> m \<le> n \<Longrightarrow> all_written d m"
  by (auto simp: all_written_def)

lemma all_written_nth: "all_written d n \<Longrightarrow> i < n \<Longrightarrow> d ! i = Some (live d n ! i)"
  by (auto simp: all_written_def)

lemma slots_eq_live: "all_written d n \<Longrightarrow> take n d = map Some (live d n)"
  by (rule nth_equalityI) (auto simp: all_written_def live_def)

lemma all_written_conv: "all_written d n \<longleftrightarrow> (n \<le> length d \<and> (\<exists>xs. take n d = map Some xs))"
proof
  assume "all_written d n"
  then show "n \<le> length d \<and> (\<exists>xs. take n d = map Some xs)"
    using slots_eq_live [of d n] by (auto simp: all_written_def)
next
  assume "n \<le> length d \<and> (\<exists>xs. take n d = map Some xs)"
  then obtain xs where n: "n \<le> length d" and xs: "take n d = map Some xs" by blast
  have "d ! i \<noteq> None" if "i < n" for i
  proof -
    have "take n d ! i = d ! i" using that by simp
    moreover have "i < length xs"
      using that n xs by (metis length_map length_take min.absorb2)
    ultimately show ?thesis using xs by (metis nth_map option.distinct(1))
  qed
  then show "all_written d n" using n by (simp add: all_written_def)
qed

lemma live_all_writtenI:
  assumes "n \<le> length d" "take n d = map Some xs"
  shows "live d n = xs" and "all_written d n"
  using assms by (auto simp: live_def comp_def all_written_conv)

section \<open>Stores into an array\<close>

text \<open>\<open>a[i] = x\<close> for an array the caller supplies: \<open>None\<close> is a store outside it.\<close>

definition mem_set :: "'a list \<Rightarrow> nat \<Rightarrow> 'a \<Rightarrow> 'a list option" where
  "mem_set a i x = (if i < length a then Some (a[i := x]) else None)"

text \<open>\<open>memcpy\<close> into it at index \<open>i\<close>.\<close>

fun mem_put :: "'a list \<Rightarrow> nat \<Rightarrow> 'a list \<Rightarrow> 'a list option" where
  "mem_put a i [] = Some a"
| "mem_put a i (x # xs) = (case mem_set a i x of None \<Rightarrow> None | Some a \<Rightarrow> mem_put a (i + 1) xs)"

lemma mem_set_in [simp]: "i < length a \<Longrightarrow> mem_set a i x = Some (a[i := x])"
  by (simp add: mem_set_def)

lemma mem_put_prefix:
  "i \<le> length a \<Longrightarrow> i + length xs \<le> length a \<Longrightarrow>
   mem_put a i xs = Some (take i a @ xs @ drop (i + length xs) a)"
proof (induction a i xs rule: mem_put.induct)
  case (2 a i x xs)
  have e: "take (Suc i) (a[i := x]) = take i a @ [x]" "drop (Suc (i + length xs)) (a[i := x]) = drop (Suc (i + length xs)) a"
    using 2(3) by (simp_all add: take_Suc_conv_app_nth)
  show ?case using 2(1) [of "a[i := x]"] 2(2,3) e by simp
qed simp

section \<open>Strings\<close>

text \<open>What a string function reads of an array: the bytes before the first zero.\<close>

fun cstr_body :: "u8 list \<Rightarrow> u8 list" where
  "cstr_body [] = []"
| "cstr_body (x # xs) = (if x = 0 then [] else x # cstr_body xs)"

lemma cstr_body_no_nul: "0 \<notin> set (cstr_body s)"
  by (induction s) auto

lemma cstr_body_id: "0 \<notin> set s \<Longrightarrow> cstr_body s = s"
  by (induction s) auto

section \<open>Comparators\<close>

text \<open>
  A comparator returns a negative, zero or positive \<open>int\<close>. The containers and sorts rely on it being
  a consistent total preorder; that is the contract of this locale, and the comparators the library
  itself supplies are shown to satisfy it where they are defined.
\<close>

type_synonym 'a comparator = "'a \<Rightarrow> 'a \<Rightarrow> int"

locale total_cmp =
  fixes cmp :: "'a comparator"
  assumes cmp_sym: "cmp x y < 0 \<longleftrightarrow> 0 < cmp y x"
    and cmp_trans: "cmp x y \<le> 0 \<Longrightarrow> cmp y z \<le> 0 \<Longrightarrow> cmp x z \<le> 0"
begin

lemma cmp_refl [simp]: "cmp x x = 0"
  using cmp_sym [of x x] by linarith

lemma cmp_total: "cmp x y \<le> 0 \<or> cmp y x \<le> 0"
  using cmp_sym [of x y] by linarith

lemma cmp_le_iff: "cmp x y \<le> 0 \<longleftrightarrow> 0 \<le> cmp y x"
  using cmp_sym [of y x] by linarith

lemma cmp_eq_sym: "cmp x y = 0 \<longleftrightarrow> cmp y x = 0"
  using cmp_sym [of x y] cmp_sym [of y x] by linarith

lemma cmp_less_trans: "cmp x y < 0 \<Longrightarrow> cmp y z \<le> 0 \<Longrightarrow> cmp x z < 0"
  using cmp_trans [of y z x] cmp_sym [of x z] cmp_sym [of x y] cmp_le_iff [of z x]
  by linarith

lemma cmp_le_less_trans: "cmp x y \<le> 0 \<Longrightarrow> cmp y z < 0 \<Longrightarrow> cmp x z < 0"
  using cmp_trans [of z x y] cmp_sym [of x z] cmp_sym [of y z] cmp_le_iff [of z x]
  by linarith

lemma cmp_less_less_trans: "cmp x y < 0 \<Longrightarrow> cmp y z < 0 \<Longrightarrow> cmp x z < 0"
  using cmp_less_trans [of x y z] by linarith

lemma cmp_eq_trans: "cmp x y = 0 \<Longrightarrow> cmp y z = 0 \<Longrightarrow> cmp x z = 0"
  using cmp_trans [of x y z] cmp_trans [of z y x] cmp_eq_sym [of x y] cmp_eq_sym [of y z]
    cmp_le_iff [of z x] by linarith

lemma cmp_eq_less_cong: "cmp x y = 0 \<Longrightarrow> cmp x z < 0 \<longleftrightarrow> cmp y z < 0"
  using cmp_le_less_trans [of x y z] cmp_le_less_trans [of y x z] cmp_eq_sym [of x y] by auto

lemma cmp_eq_eq_cong: "cmp x y = 0 \<Longrightarrow> cmp x z = 0 \<longleftrightarrow> cmp y z = 0"
  by (meson cmp_eq_sym cmp_eq_trans)

lemma cmp_eq_less_cong2: "cmp x y = 0 \<Longrightarrow> cmp z x < 0 \<longleftrightarrow> cmp z y < 0"
  using cmp_less_trans [of z x y] cmp_less_trans [of z y x] cmp_eq_sym [of x y] by auto

end

definition cmp_sorted :: "'a comparator \<Rightarrow> 'a list \<Rightarrow> bool" where
  "cmp_sorted cmp xs \<longleftrightarrow> sorted_wrt (\<lambda>x y. cmp x y \<le> 0) xs"

lemma cmp_sorted_Nil [simp]: "cmp_sorted cmp []"
  by (simp add: cmp_sorted_def)

lemma cmp_sorted_Cons [simp]:
  "cmp_sorted cmp (x # xs) \<longleftrightarrow> (\<forall>y \<in> set xs. cmp x y \<le> 0) \<and> cmp_sorted cmp xs"
  by (simp add: cmp_sorted_def)

lemma cmp_sorted_append:
  "cmp_sorted cmp (xs @ ys) \<longleftrightarrow>
     cmp_sorted cmp xs \<and> cmp_sorted cmp ys \<and> (\<forall>x \<in> set xs. \<forall>y \<in> set ys. cmp x y \<le> 0)"
  by (simp add: cmp_sorted_def sorted_wrt_append)

section \<open>Lists\<close>

lemma mset_swap2: "i < length xs \<Longrightarrow> j < length xs \<Longrightarrow> mset (xs[i := xs ! j, j := xs ! i]) = mset xs"
  using mset_swap [of j xs i] by simp

lemma take_update_append:
  "n \<le> i \<Longrightarrow> take n (xs[i := x]) = take n xs"
  by simp

lemma take_Suc_update: "n < length xs \<Longrightarrow> take (Suc n) (xs[n := x]) = take n xs @ [x]"
  by (simp add: take_Suc_conv_app_nth)

end
