(* ===== verification/Bits.thy ===== *)
theory Bits
  imports Prelude
begin

text \<open>
  \<open>include/ceres/bits.h\<close> and \<open>include/ceres/endian.h\<close>: the bit instructions the library uses as
  functions on 32-bit words, the power-of-two helpers built on them, and the little- and big-endian
  loads and stores of a byte buffer. A C shift by the word's width or more is undefined, so the one
  helper that can ask for such a shift returns an option.
\<close>

section \<open>Bit instructions\<close>

fun clz_below :: "nat \<Rightarrow> u32 \<Rightarrow> nat" where
  "clz_below 0 x = 0"
| "clz_below (Suc n) x = (if bit x n then 0 else Suc (clz_below n x))"

definition bit_clz :: "u32 \<Rightarrow> nat" where
  "bit_clz x = clz_below 32 x"

fun ctz_from :: "nat \<Rightarrow> nat \<Rightarrow> u32 \<Rightarrow> nat" where
  "ctz_from 0 i x = 0"
| "ctz_from (Suc n) i x = (if bit x i then 0 else Suc (ctz_from n (Suc i) x))"

definition bit_ctz :: "u32 \<Rightarrow> nat" where
  "bit_ctz x = ctz_from 32 0 x"

definition bit_popcount :: "u32 \<Rightarrow> nat" where
  "bit_popcount x = length (filter (bit x) [0..<32])"

definition bit_rotl :: "u32 \<Rightarrow> nat \<Rightarrow> u32" where
  "bit_rotl x n = word_rotl (n mod 32) x"

definition bit_is_pow2 :: "u32 \<Rightarrow> bool" where
  "bit_is_pow2 x \<longleftrightarrow> x \<noteq> 0 \<and> x AND (x - 1) = 0"

text \<open>\<open>x << n\<close>, undefined from the word's width on.\<close>

definition shl32 :: "u32 \<Rightarrow> nat \<Rightarrow> u32 option" where
  "shl32 x n = (if n < 32 then Some (push_bit n x) else None)"

definition bit_next_pow2 :: "u32 \<Rightarrow> u32 option" where
  "bit_next_pow2 x = (if x \<le> 1 then Some 1 else shl32 1 (32 - bit_clz (x - 1)))"

definition bit_log2 :: "u32 \<Rightarrow> nat" where
  "bit_log2 x = sub32 31 (bit_clz x)"

definition align_up :: "u32 \<Rightarrow> u32 \<Rightarrow> u32" where
  "align_up x a = (x + a - 1) AND NOT (a - 1)"

definition align_down :: "u32 \<Rightarrow> u32 \<Rightarrow> u32" where
  "align_down x a = x AND NOT (a - 1)"

section \<open>Loads and stores of a byte buffer\<close>

definition le16 :: "u8 list \<Rightarrow> nat \<Rightarrow> u32" where
  "le16 p i = ucast (p ! i) OR push_bit 8 (ucast (p ! (i + 1)))"

definition le32 :: "u8 list \<Rightarrow> nat \<Rightarrow> u32" where
  "le32 p i = le16 p i OR push_bit 16 (le16 p (i + 2))"

definition put_le16 :: "u8 list \<Rightarrow> nat \<Rightarrow> u32 \<Rightarrow> u8 list" where
  "put_le16 p i v = p[i := ucast v, i + 1 := ucast (drop_bit 8 v)]"

definition put_le32 :: "u8 list \<Rightarrow> nat \<Rightarrow> u32 \<Rightarrow> u8 list" where
  "put_le32 p i v = put_le16 (put_le16 p i v) (i + 2) (drop_bit 16 v)"

definition be16 :: "u8 list \<Rightarrow> nat \<Rightarrow> u32" where
  "be16 p i = push_bit 8 (ucast (p ! i)) OR ucast (p ! (i + 1))"

definition be32 :: "u8 list \<Rightarrow> nat \<Rightarrow> u32" where
  "be32 p i = push_bit 16 (be16 p i) OR be16 p (i + 2)"

section \<open>Leading and trailing zeros\<close>

lemma clz_below_le: "clz_below n x \<le> n"
  by (induction n) auto

lemma clz_below_zeros: "n - clz_below n x \<le> m \<Longrightarrow> m < n \<Longrightarrow> \<not> bit x m"
  by (induction n) (auto simp: less_Suc_eq split: if_splits)

lemma clz_below_bit: "clz_below n x < n \<Longrightarrow> bit x (n - 1 - clz_below n x)"
  by (induction n) auto

lemma bit_clz_le: "bit_clz x \<le> 32"
  by (simp add: bit_clz_def clz_below_le)

lemma bit_clz_zeros: "32 - bit_clz x \<le> m \<Longrightarrow> \<not> bit x m"
  using clz_below_zeros [of 32 x m] bit_imp_le_length [of x m] by (fastforce simp: bit_clz_def)

lemma bit_clz_bit: "bit_clz x < 32 \<Longrightarrow> bit x (31 - bit_clz x)"
  using clz_below_bit [of 32 x] by (simp add: bit_clz_def)

lemma bit_clz_eq_32_iff: "bit_clz x = 32 \<longleftrightarrow> x = 0"
proof
  assume "bit_clz x = 32"
  then have "\<not> bit x m" for m using bit_clz_zeros [of x m] by simp
  then show "x = 0" by (simp add: bit_eq_iff)
next
  assume "x = 0"
  then show "bit_clz x = 32" using bit_clz_bit [of x] bit_clz_le [of x] by fastforce
qed

lemma bit_imp_pow2_le: "bit (x :: u32) n \<Longrightarrow> 2 ^ n \<le> unat x"
proof -
  assume "bit x n"
  then have "bit (unat x) n" by (simp add: bit_unsigned_iff)
  then have "odd (unat x div 2 ^ n)" by (simp add: bit_iff_odd)
  then have "0 < unat x div 2 ^ n" by (rule odd_pos)
  then show ?thesis by (simp add: div_greater_zero_iff)
qed

lemma no_bits_imp_less: "(\<And>m. n \<le> m \<Longrightarrow> \<not> bit (x :: u32) m) \<Longrightarrow> unat x < 2 ^ n"
proof -
  assume *: "\<And>m. n \<le> m \<Longrightarrow> \<not> bit x m"
  have "take_bit n (unat x) = unat x"
    by (rule bit_eqI) (use * not_less in \<open>auto simp: bit_take_bit_iff bit_unsigned_iff\<close>)
  then show ?thesis by (simp add: take_bit_nat_eq_self_iff)
qed

text \<open>The number of leading zeros pins the value between two powers of two.\<close>

lemma bit_clz_bounds:
  assumes "x \<noteq> 0"
  shows "2 ^ (31 - bit_clz x) \<le> unat x" and "unat x < 2 ^ (32 - bit_clz x)" and "bit_clz x < 32"
proof -
  show lt: "bit_clz x < 32" using bit_clz_le [of x] bit_clz_eq_32_iff [of x] assms by linarith
  show "2 ^ (31 - bit_clz x) \<le> unat x" by (rule bit_imp_pow2_le) (rule bit_clz_bit [OF lt])
  show "unat x < 2 ^ (32 - bit_clz x)" by (rule no_bits_imp_less) (rule bit_clz_zeros)
qed

lemma bit_log2_bounds:
  assumes "x \<noteq> 0"
  shows "2 ^ bit_log2 x \<le> unat x" and "unat x < 2 * 2 ^ bit_log2 x" and "bit_log2 x < 32"
proof -
  have eq: "bit_log2 x = 31 - bit_clz x"
    using bit_clz_bounds(3) [OF assms] by (simp add: bit_log2_def)
  show "2 ^ bit_log2 x \<le> unat x" using bit_clz_bounds(1) [OF assms] by (simp add: eq)
  have "32 - bit_clz x = Suc (31 - bit_clz x)" using bit_clz_bounds(3) [OF assms] by simp
  then show "unat x < 2 * 2 ^ bit_log2 x"
    using bit_clz_bounds(2) [OF assms] by (simp add: eq)
  show "bit_log2 x < 32" by (simp add: eq)
qed

lemma bit_log2_unique:
  assumes "2 ^ n \<le> unat x" "unat x < 2 * 2 ^ n"
  shows "bit_log2 x = n"
proof -
  have "0 < unat x" using assms(1) by (rule less_le_trans [rotated]) simp
  then have "x \<noteq> 0" by auto
  note b = bit_log2_bounds(1,2) [OF this]
  have "(2::nat) ^ bit_log2 x < 2 ^ Suc n" using b(1) assms(2) by (simp only: power_Suc)
  moreover have "(2::nat) ^ n < 2 ^ Suc (bit_log2 x)" using b(2) assms(1) by (simp only: power_Suc)
  ultimately have "bit_log2 x < Suc n" "n < Suc (bit_log2 x)"
    by (simp_all only: power_strict_increasing_iff one_less_numeral_iff semiring_norm)
  then show ?thesis by simp
qed

text \<open>\<open>bit_next_pow2\<close> is the least power of two that is not below its argument, up to 2^31.\<close>

lemma bit_next_pow2_spec:
  assumes "unat x \<le> 2 ^ 31"
  shows "\<exists>k < 32. bit_next_pow2 x = Some (2 ^ k) \<and> unat x \<le> 2 ^ k \<and>
    (\<forall>j. unat x \<le> 2 ^ j \<longrightarrow> k \<le> j)"
proof (cases "x \<le> 1")
  case True
  then have "unat x \<le> 1" by (simp add: word_le_nat_alt)
  then show ?thesis using True by (intro exI [of _ 0]) (simp add: bit_next_pow2_def)
next
  case False
  then have gt: "1 < unat x" by (simp add: word_le_nat_alt)
  let ?y = "x - 1" and ?k = "32 - bit_clz (x - 1)"
  have y: "unat ?y = unat x - 1" using gt by (subst unat_minus_one) auto
  then have y0: "?y \<noteq> 0" using gt by (metis diff_is_0_eq' not_less unat_0 less_irrefl zero_less_diff)
  note b = bit_clz_bounds [OF y0]
  have k: "?k = Suc (31 - bit_clz ?y)" using b(3) by simp
  have "(2::nat) ^ (31 - bit_clz ?y) < 2 ^ 31" using b(1) y assms gt by linarith
  then have "31 - bit_clz ?y < 31" by (rule power_less_imp_less_exp [rotated]) simp
  then have klt: "?k < 32" using k by simp
  have "unat x \<le> 2 ^ ?k" using b(2) y gt by linarith
  moreover have "?k \<le> j" if "unat x \<le> 2 ^ j" for j
  proof -
    have "(2::nat) ^ (31 - bit_clz ?y) < 2 ^ j" using b(1) y gt that by linarith
    then have "31 - bit_clz ?y < j" by (rule power_less_imp_less_exp [rotated]) simp
    then show ?thesis using k by simp
  qed
  moreover have "bit_next_pow2 x = Some (2 ^ ?k)"
    using False klt by (simp add: bit_next_pow2_def shl32_def push_bit_eq_mult)
  ultimately show ?thesis using klt by blast
qed

lemma ctz_from_le: "ctz_from n i x \<le> n"
  by (induction n arbitrary: i) auto

lemma ctz_from_zeros: "m < ctz_from n i x \<Longrightarrow> \<not> bit x (i + m)"
proof (induction n arbitrary: i m)
  case (Suc n)
  then show ?case by (cases m) (fastforce split: if_splits)+
qed simp

lemma ctz_from_bit: "ctz_from n i x < n \<Longrightarrow> bit x (i + ctz_from n i x)"
proof (induction n arbitrary: i)
  case (Suc n)
  then show ?case using Suc.IH [of "Suc i"] by (auto split: if_splits)
qed simp

lemma bit_ctz_zeros: "m < bit_ctz x \<Longrightarrow> \<not> bit x m"
  using ctz_from_zeros [of m 32 0 x] by (simp add: bit_ctz_def)

lemma bit_ctz_bit: "x \<noteq> 0 \<Longrightarrow> bit_ctz x < 32 \<and> bit x (bit_ctz x)"
proof -
  assume "x \<noteq> 0"
  then obtain m where m: "bit x m" by (auto simp: bit_eq_iff)
  then have "m < 32" using bit_imp_le_length [of x m] by simp
  moreover have "\<not> m < bit_ctz x" using bit_ctz_zeros m by blast
  ultimately have "bit_ctz x < 32" by simp
  then show ?thesis using ctz_from_bit [of 32 0 x] by (simp add: bit_ctz_def)
qed

lemma bit_popcount_card: "bit_popcount x = card {i. bit x i}"
proof -
  have "{i. bit x i} = set (filter (bit x) [0..<32])"
    using bit_imp_le_length [of x] by auto
  moreover have "distinct (filter (bit x) [0..<32])" by simp
  ultimately show ?thesis using distinct_card by (metis bit_popcount_def)
qed

section \<open>Byte order\<close>

lemma put_le16_length [simp]: "length (put_le16 p i v) = length p"
  by (simp add: put_le16_def)

lemma put_le32_length [simp]: "length (put_le32 p i v) = length p"
  by (simp add: put_le32_def)

lemma le16_put_le16: "i + 1 < length p \<Longrightarrow> le16 (put_le16 p i v) i = take_bit 16 v"
  by (rule bit_word_eqI) (auto simp: le16_def put_le16_def bit_simps)

lemma le32_put_le32: "i + 3 < length p \<Longrightarrow> le32 (put_le32 p i v) i = v"
proof (rule bit_word_eqI)
  fix n
  assume "i + 3 < length p" and "n < LENGTH(32)"
  then show "bit (le32 (put_le32 p i v) i) n = bit v n"
    by (cases "n < 8"; cases "n < 16"; cases "n < 24")
      (auto simp: le32_def le16_def put_le32_def put_le16_def bit_simps nth_list_update)
qed

lemma ucast_le32:
  fixes p :: "u8 list"
  shows "(ucast (le32 p i) :: u8) = p ! i"
    and "(ucast (drop_bit 8 (le32 p i)) :: u8) = p ! (i + 1)"
    and "(ucast (drop_bit 16 (le32 p i)) :: u8) = p ! (i + 2)"
    and "(ucast (drop_bit 24 (le32 p i)) :: u8) = p ! (i + 3)"
  by (rule bit_word_eqI,
      auto simp: le32_def le16_def bit_simps numeral_3_eq_3 dest: bit_imp_le_length)+

lemma put_le32_le32: "i + 3 < length p \<Longrightarrow> put_le32 p i (le32 p i) = p"
  using ucast_le32 [of p i]
  by (simp add: put_le32_def put_le16_def numeral_3_eq_3 numeral_2_eq_2)

lemma bit_next_pow2_none:
  assumes "2 ^ 31 < unat x"
  shows "bit_next_pow2 x = None"
proof -
  have n1: "\<not> x \<le> 1" using assms by (simp add: word_le_nat_alt)
  have "unat (x - 1) = unat x - 1" using assms by (intro unat_minus_one) auto
  then have ge: "2 ^ 31 \<le> unat (x - 1)" using assms by simp
  then have nz: "x - 1 \<noteq> 0" by auto
  have "bit_clz (x - 1) = 0"
  proof (rule ccontr)
    assume "bit_clz (x - 1) \<noteq> 0"
    then have "(2::nat) ^ (32 - bit_clz (x - 1)) \<le> 2 ^ 31" by (intro power_increasing) auto
    then show False using bit_clz_bounds(2) [OF nz] ge by linarith
  qed
  then show ?thesis using n1 by (simp add: bit_next_pow2_def shl32_def)
qed

section \<open>Properties\<close>

text \<open>
  C1: for up to 2^31, \<open>bit_next_pow2\<close> is the least power of two not below its argument and \<open>bit_log2\<close>
  the position of the leading bit; above 2^31 the former has no result, the shift by 32 that its
  expression makes being undefined.
\<close>

theorem bit_next_pow2_exact:
  "(if unat x \<le> 2 ^ 31
    then \<exists>k < 32. bit_next_pow2 x = Some (2 ^ k) \<and> unat x \<le> 2 ^ k \<and> (\<forall>j. unat x \<le> 2 ^ j \<longrightarrow> k \<le> j)
    else bit_next_pow2 x = None) \<and>
   (if x = 0 then bit_clz x = 32 else 2 ^ bit_log2 x \<le> unat x \<and> unat x < 2 * 2 ^ bit_log2 x)"
proof (intro conjI)
  show "if unat x \<le> 2 ^ 31
    then \<exists>k < 32. bit_next_pow2 x = Some (2 ^ k) \<and> unat x \<le> 2 ^ k \<and> (\<forall>j. unat x \<le> 2 ^ j \<longrightarrow> k \<le> j)
    else bit_next_pow2 x = None"
  proof (cases "unat x \<le> 2 ^ 31")
    case True
    then show ?thesis using bit_next_pow2_spec [OF True] by simp
  next
    case False
    then show ?thesis using bit_next_pow2_none [of x] by simp
  qed
  show "if x = 0 then bit_clz x = 32 else 2 ^ bit_log2 x \<le> unat x \<and> unat x < 2 * 2 ^ bit_log2 x"
    using bit_log2_bounds [of x] bit_clz_eq_32_iff [of x] by auto
qed

theorem bit_next_pow2_exact_witness:
  "bit_next_pow2 0x80000001 = None \<and> 2 ^ bit_log2 0x80000001 \<le> unat (0x80000001 :: u32)"
  using bit_next_pow2_exact [of "0x80000001"] by simp

text \<open>
  C2: storing a 32-bit word in little-endian order and loading it gives the word back, loading one and
  storing it changes no byte, and the big-endian load is the little-endian one of the bytes reversed.
\<close>

theorem endian_roundtrip:
  assumes "i + 3 < length p"
  shows "le32 (put_le32 p i v) i = v \<and> put_le32 p i (le32 p i) = p \<and>
    be32 p i = le32 (rev (take 4 (drop i p))) 0"
proof (intro conjI)
  have "take 4 (drop i p) = [p ! i, p ! (i + 1), p ! (i + 2), p ! (i + 3)]"
    using assms by (simp add: take_Suc_conv_app_nth eval_nat_numeral Cons_nth_drop_Suc [symmetric] ac_simps)
  then show "be32 p i = le32 (rev (take 4 (drop i p))) 0"
    by (simp add: be32_def be16_def le32_def le16_def push_bit_or ac_simps numeral_3_eq_3)
qed (use assms le32_put_le32 put_le32_le32 in simp_all)

theorem endian_roundtrip_witness:
  "le32 (put_le32 [0, 0, 0, 0] 0 0xDEADBEEF) 0 = 0xDEADBEEF"
  using endian_roundtrip [of 0 "[0, 0, 0, 0]" "0xDEADBEEF"] by simp

end
