(* ===== verification/Cqueue.thy ===== *)
theory Cqueue
  imports Prelude Bits
begin

text \<open>
  \<open>src/ceres/ds/cqueue.c\<close>: the fixed-capacity circular queue with free-running 32-bit indices, and
  \<open>src/ceres/ds/ringbuf.c\<close>, the byte FIFO built on it. The first half shows that each call refines
  a bounded FIFO; the second splits a call into its single memory accesses and interleaves one
  producer with one consumer (an interrupt handler and the program it interrupts), to show that the
  order in which the code publishes its indices is what makes that safe.
\<close>

section \<open>The queue\<close>

record 'a cqueue =
  cq_buf :: "'a slots"
  cq_elem :: nat
  cq_mask :: u32
  cq_head :: u32
  cq_tail :: u32

definition cq_init :: "'a slots \<Rightarrow> nat \<Rightarrow> u32 \<Rightarrow> 'a cqueue" where
  "cq_init storage elem_size cnt =
     (let pow2 = (if 1 < cnt then push_bit (bit_log2 cnt) 1 else 1)
      in \<lparr>cq_buf = storage, cq_elem = (if elem_size = 0 then 1 else elem_size),
          cq_mask = pow2 - 1, cq_head = 0, cq_tail = 0\<rparr>)"

definition cq_count :: "'a cqueue \<Rightarrow> u32" where
  "cq_count q = cq_head q - cq_tail q"

definition cq_space :: "'a cqueue \<Rightarrow> u32" where
  "cq_space q = cq_mask q + 1 - cq_count q"

definition cq_put :: "'a cqueue \<Rightarrow> 'a \<Rightarrow> 'a cqueue \<times> int" where
  "cq_put q item =
     (let head = cq_head q
      in if cq_mask q < head - cq_tail q then (q, -1)
         else (q\<lparr>cq_buf := (cq_buf q)[unat (head AND cq_mask q) := Some item],
                 cq_head := head + 1\<rparr>, 0))"

text \<open>
  \<open>cq_get\<close> and \<open>cq_peek\<close> return the code and what is copied to \<open>*out\<close>; \<open>None\<close> there is an \<open>*out\<close> left
  untouched, or a slot nothing was ever written to.
\<close>

definition cq_get :: "'a cqueue \<Rightarrow> 'a cqueue \<times> int \<times> 'a option" where
  "cq_get q =
     (let tail = cq_tail q
      in if cq_head q = tail then (q, -1, None)
         else (q\<lparr>cq_tail := tail + 1\<rparr>, 0, cq_buf q ! unat (tail AND cq_mask q)))"

definition cq_peek :: "'a cqueue \<Rightarrow> int \<times> 'a option" where
  "cq_peek q =
     (let tail = cq_tail q
      in if cq_head q = tail then (-1, None)
         else (0, cq_buf q ! unat (tail AND cq_mask q)))"

definition cq_clear :: "'a cqueue \<Rightarrow> 'a cqueue" where
  "cq_clear q = q\<lparr>cq_tail := cq_head q\<rparr>"

section \<open>Representation\<close>

definition cq_cap :: "'a cqueue \<Rightarrow> nat" where
  "cq_cap q = unat (cq_mask q) + 1"

definition cq_slot :: "'a cqueue \<Rightarrow> nat \<Rightarrow> 'a option" where
  "cq_slot q i = cq_buf q ! unat ((cq_tail q + of_nat i) AND cq_mask q)"

definition cq_list :: "'a cqueue \<Rightarrow> 'a list" where
  "cq_list q = map (\<lambda>i. the (cq_slot q i)) [0..<unat (cq_count q)]"

definition pow2_mask :: "u32 \<Rightarrow> bool" where
  "pow2_mask m \<longleftrightarrow> (\<exists>k < 32. m + 1 = 2 ^ k)"

definition cq_wf :: "'a cqueue \<Rightarrow> bool" where
  "cq_wf q \<longleftrightarrow> pow2_mask (cq_mask q) \<and> cq_cap q \<le> length (cq_buf q) \<and>
     unat (cq_count q) \<le> cq_cap q \<and> (\<forall>i < unat (cq_count q). cq_slot q i \<noteq> None)"

lemma pow2_maskE:
  assumes "pow2_mask m"
  obtains k where "k < 32" "m + 1 = 2 ^ k" "unat m + 1 = 2 ^ k"
proof -
  from assms obtain k where k: "k < 32" "m + 1 = 2 ^ k" by (auto simp: pow2_mask_def)
  then have eq: "unat (m + 1) = 2 ^ k" by (simp add: unat_pow2_less)
  then have "m + 1 \<noteq> 0" by (metis power_not_zero unat_0 zero_neq_numeral)
  then have "unat (1 + m) = Suc (unat m)" by (intro unatSuc) (simp add: add.commute)
  then show ?thesis using that k eq by (simp add: add.commute)
qed

lemma index_mod:
  assumes "pow2_mask m"
  shows "unat ((t + of_nat i) AND m) = (unat t + i) mod (unat m + 1)"
proof -
  from assms obtain k where k: "k < 32" "m + 1 = 2 ^ k" "unat m + 1 = 2 ^ k" by (rule pow2_maskE)
  have dvd: "(2::nat) ^ k dvd 2 ^ 32" using k(1) by (intro le_imp_power_dvd) simp
  have "unat (t + of_nat i) mod 2 ^ k = ((unat t + i mod 2 ^ 32) mod 2 ^ 32) mod 2 ^ k"
    by (simp add: unat_word_ariths unsigned_of_nat take_bit_eq_mod)
  also have "\<dots> = (unat t + i) mod 2 ^ k"
    using dvd by (metis mod_add_right_eq mod_mod_cancel)
  finally show ?thesis using unat_and_mask [OF k(2,1), of "t + of_nat i"] k(3) by simp
qed

lemma window_inj:
  fixes t :: nat
  assumes "i < j" "j < c" shows "(t + i) mod c \<noteq> (t + j) mod c"
proof
  assume "(t + i) mod c = (t + j) mod c"
  then have "c dvd (t + j) - (t + i)" using assms by (intro mod_eq_dvd_iff_nat [THEN iffD1]) auto
  then show False using assms by (auto dest: dvd_imp_le)
qed

lemma cq_head_eq: "cq_head q = cq_tail q + of_nat (unat (cq_count q))"
  by (simp add: cq_count_def)

lemma cq_count_put: "unat (h - t) < 2 ^ 31 + 1 \<Longrightarrow> unat (h + 1 - t :: u32) = unat (h - t) + 1"
proof -
  assume *: "unat (h - t) < 2 ^ 31 + 1"
  have "h + 1 - t = (h - t) + 1" by simp
  also have "unat \<dots> = unat (h - t) + 1" using * by (subst unat_word_ariths) simp
  finally show ?thesis .
qed

lemma cq_count_get: "h \<noteq> t \<Longrightarrow> unat (h - (t + 1) :: u32) = unat (h - t) - 1"
proof -
  assume "h \<noteq> t"
  have "h - (t + 1) = (h - t) - 1" by simp
  also have "unat \<dots> = unat (h - t) - 1" using \<open>h \<noteq> t\<close> by (intro unat_minus_one) simp
  finally show ?thesis .
qed

lemma cq_cap_le: "cq_wf q \<Longrightarrow> cq_cap q \<le> 2 ^ 31"
proof -
  assume "cq_wf q"
  then obtain k where k: "k < 32" "unat (cq_mask q) + 1 = 2 ^ k"
    by (auto simp: cq_wf_def elim: pow2_maskE)
  have "(2::nat) ^ k \<le> 2 ^ 31" using k(1) by (intro power_increasing) auto
  then show ?thesis using k(2) by (simp add: cq_cap_def)
qed

lemma cq_full_iff: "cq_mask q < cq_head q - cq_tail q \<longleftrightarrow> cq_cap q \<le> unat (cq_count q)"
  by (auto simp: word_less_nat_alt cq_cap_def cq_count_def)

lemma length_cq_list [simp]: "length (cq_list q) = unat (cq_count q)"
  by (simp add: cq_list_def)

lemma cq_slot_put_same:
  assumes "cq_wf q" "unat (cq_count q) < cq_cap q"
  shows "cq_slot (fst (cq_put q x)) (unat (cq_count q)) = Some x"
proof -
  let ?j = "unat (cq_head q AND cq_mask q)"
  have "?j = (unat (cq_tail q) + unat (cq_count q)) mod cq_cap q"
    using assms(1) by (subst cq_head_eq) (simp only: index_mod cq_wf_def cq_cap_def)
  then have "?j < length (cq_buf q)"
    using assms by (simp add: cq_wf_def) (metis cq_cap_def less_le_trans mod_less_divisor zero_less_Suc add.commute plus_1_eq_Suc)
  then show ?thesis
    using assms(2) cq_full_iff [of q]
    by (simp add: cq_put_def cq_slot_def Let_def cq_count_def)
qed

lemma cq_slot_put_other:
  assumes "cq_wf q" "unat (cq_count q) < cq_cap q" "i < unat (cq_count q)"
  shows "cq_slot (fst (cq_put q x)) i = cq_slot q i"
proof -
  have m: "pow2_mask (cq_mask q)" using assms(1) by (simp add: cq_wf_def)
  have "unat (cq_head q AND cq_mask q) = (unat (cq_tail q) + unat (cq_count q)) mod cq_cap q"
    by (subst cq_head_eq) (simp only: index_mod [OF m] cq_cap_def)
  moreover have "unat ((cq_tail q + of_nat i) AND cq_mask q) = (unat (cq_tail q) + i) mod cq_cap q"
    by (simp only: index_mod [OF m] cq_cap_def)
  ultimately have "unat (cq_head q AND cq_mask q) \<noteq> unat ((cq_tail q + of_nat i) AND cq_mask q)"
    using window_inj [OF assms(3,2)] by metis
  then show ?thesis
    using assms(2) cq_full_iff [of q] by (simp add: cq_put_def cq_slot_def Let_def)
qed

section \<open>The queue refines a bounded FIFO\<close>

lemma cq_put_full: "cq_wf q \<Longrightarrow> length (cq_list q) = cq_cap q \<Longrightarrow> cq_put q x = (q, -1)"
  using cq_full_iff [of q] by (simp add: cq_put_def Let_def)

lemma cq_put_count:
  assumes "cq_wf q" "unat (cq_count q) < cq_cap q"
  shows "unat (cq_count (fst (cq_put q x))) = unat (cq_count q) + 1"
  using assms cq_full_iff [of q] cq_cap_le [OF assms(1)]
  by (simp add: cq_put_def Let_def cq_count_def cq_count_put)

lemma cq_put_frame [simp]:
  "cq_mask (fst (cq_put q x)) = cq_mask q" "cq_tail (fst (cq_put q x)) = cq_tail q"
  "length (cq_buf (fst (cq_put q x))) = length (cq_buf q)" "cq_cap (fst (cq_put q x)) = cq_cap q"
  by (simp_all add: cq_put_def Let_def cq_cap_def)

lemma cq_put_room:
  assumes "cq_wf q" "length (cq_list q) < cq_cap q"
  shows "snd (cq_put q x) = 0" and "cq_list (fst (cq_put q x)) = cq_list q @ [x]"
    and "cq_wf (fst (cq_put q x))"
proof -
  let ?q = "fst (cq_put q x)"
  have lt: "unat (cq_count q) < cq_cap q" using assms(2) by simp
  note n = cq_put_count [OF assms(1) lt, of x]
  note same = cq_slot_put_same [OF assms(1) lt, of x]
    and other = cq_slot_put_other [OF assms(1) lt, of _ x]
  show "snd (cq_put q x) = 0" using lt cq_full_iff [of q] by (simp add: cq_put_def Let_def)
  have "cq_list ?q = map (\<lambda>i. the (cq_slot ?q i)) [0..<unat (cq_count q)] @ [x]"
    by (simp add: cq_list_def n same)
  also have "map (\<lambda>i. the (cq_slot ?q i)) [0..<unat (cq_count q)] = cq_list q"
    by (simp add: cq_list_def other)
  finally show "cq_list ?q = cq_list q @ [x]" .
  show "cq_wf ?q"
    using assms(1) lt n same other by (auto simp: cq_wf_def less_Suc_eq)
qed

lemma cq_put_wf: "cq_wf q \<Longrightarrow> cq_wf (fst (cq_put q x))"
proof (cases "length (cq_list q) < cq_cap q")
  case False
  moreover assume "cq_wf q"
  moreover have "unat (cq_count q) \<le> cq_cap q" using \<open>cq_wf q\<close> by (simp add: cq_wf_def)
  ultimately show ?thesis using cq_put_full [of q x] by simp
qed (rule cq_put_room)

lemma cq_get_frame [simp]:
  "cq_mask (fst (cq_get q)) = cq_mask q" "cq_buf (fst (cq_get q)) = cq_buf q"
  "cq_cap (fst (cq_get q)) = cq_cap q" "cq_head (fst (cq_get q)) = cq_head q"
  by (simp_all add: cq_get_def Let_def cq_cap_def)

lemma cq_count_0_iff: "unat (cq_count q) = 0 \<longleftrightarrow> cq_head q = cq_tail q"
  by (simp add: cq_count_def unat_eq_0)

lemma cq_get_empty: "cq_list q = [] \<Longrightarrow> cq_get q = (q, -1, None)"
  using cq_count_0_iff [of q] length_cq_list [of q] by (simp add: cq_get_def Let_def)

lemma cq_slot_get: "cq_head q \<noteq> cq_tail q \<Longrightarrow> cq_slot (fst (cq_get q)) i = cq_slot q (Suc i)"
  by (simp add: cq_slot_def cq_get_def Let_def ac_simps)

lemma cq_get_some:
  assumes "cq_wf q" "cq_list q = x # xs"
  shows "snd (cq_get q) = (0, Some x)" and "cq_list (fst (cq_get q)) = xs"
    and "cq_wf (fst (cq_get q))"
proof -
  let ?q = "fst (cq_get q)"
  obtain n where n: "unat (cq_count q) = Suc n"
    using assms(2) length_cq_list [of q] by (metis length_Cons)
  then have ne: "cq_head q \<noteq> cq_tail q" using cq_count_0_iff [of q] by simp
  then have n': "unat (cq_count ?q) = n"
    using n cq_count_get [OF ne] by (simp add: cq_count_def cq_get_def Let_def)
  have x: "cq_slot q 0 = Some x"
    using assms n by (auto simp: cq_list_def cq_wf_def upt_conv_Cons simp del: upt_Suc)
  then show "snd (cq_get q) = (0, Some x)"
    using ne by (simp add: cq_get_def cq_slot_def Let_def)
  have "cq_list q = the (cq_slot q 0) # map (\<lambda>i. the (cq_slot q (Suc i))) [0..<n]"
    unfolding cq_list_def n by (subst upt_conv_Cons) (simp_all add: map_Suc_upt [symmetric] del: upt_Suc)
  then show "cq_list ?q = xs"
    using assms(2) ne n' by (simp add: cq_list_def [of ?q] cq_slot_get)
  show "cq_wf ?q" using assms(1) ne n n' by (auto simp: cq_wf_def cq_slot_get)
qed

lemma cq_get_wf: "cq_wf q \<Longrightarrow> cq_wf (fst (cq_get q))"
proof (cases "cq_list q")
  case Nil
  then show "cq_wf q \<Longrightarrow> ?thesis" by (simp add: cq_get_empty)
next
  case (Cons x xs)
  then show "cq_wf q \<Longrightarrow> ?thesis" by (rule cq_get_some(3) [rotated])
qed

lemma cq_peek_eq: "cq_peek q = snd (cq_get q)"
  by (simp add: cq_peek_def cq_get_def Let_def)

lemma cq_clear_list: "cq_list (cq_clear q) = []"
  by (simp add: cq_list_def cq_clear_def cq_count_def)

lemma cq_clear_wf: "cq_wf q \<Longrightarrow> cq_wf (cq_clear q)"
  by (simp add: cq_wf_def cq_clear_def cq_count_def cq_cap_def)

lemma cq_init_wf:
  assumes "max 1 (unat cnt) \<le> length storage"
  shows "cq_wf (cq_init storage e cnt)" and "cq_list (cq_init storage e cnt) = []"
    and "cq_cap (cq_init storage e cnt) =
      (if 1 < cnt then 2 ^ bit_log2 cnt else 1)"
proof -
  let ?q = "cq_init storage e cnt"
  let ?p = "if 1 < cnt then 2 ^ bit_log2 cnt else (1::u32)"
  have m: "cq_mask ?q = ?p - 1" by (simp add: cq_init_def Let_def push_bit_eq_mult)
  show cap: "cq_cap ?q = (if 1 < cnt then 2 ^ bit_log2 cnt else 1)"
  proof (cases "1 < cnt")
    case True
    then have "cnt \<noteq> 0" by auto
    then have k: "bit_log2 cnt < 32" by (rule bit_log2_bounds)
    then have "unat (2 ^ bit_log2 cnt :: u32) = 2 ^ bit_log2 cnt" by (rule unat_pow2_less)
    moreover from this have "(2 ^ bit_log2 cnt :: u32) \<noteq> 0"
      by (metis power_not_zero unat_0 zero_neq_numeral)
    ultimately show ?thesis using True m by (simp add: cq_cap_def unat_minus_one)
  qed (use m in \<open>simp add: cq_cap_def\<close>)
  have "pow2_mask (cq_mask ?q)"
  proof (cases "1 < cnt")
    case True
    then have "cnt \<noteq> 0" by auto
    then have "bit_log2 cnt < 32" by (rule bit_log2_bounds)
    then show ?thesis using True m by (auto simp: pow2_mask_def)
  qed (auto simp: pow2_mask_def m intro: exI [of _ 0])
  moreover have "cq_cap ?q \<le> length storage"
  proof (cases "1 < cnt")
    case True
    then have "cnt \<noteq> 0" by auto
    then show ?thesis using True assms cap bit_log2_bounds(1) [of cnt] by simp
  qed (use assms cap in simp)
  ultimately show "cq_wf ?q" by (simp add: cq_wf_def cq_count_def cq_init_def Let_def)
  show "cq_list ?q = []" by (simp add: cq_list_def cq_count_def cq_init_def Let_def)
qed

section \<open>The contract of a bounded FIFO\<close>

text \<open>
  What a client of a queue may rely on: an accepted element goes to the end, a full queue refuses and
  stays as it is, and what comes out is the oldest element. \<open>put_run\<close> and \<open>get_run\<close> are the loops
  every bulk transfer makes: put until the data or the room runs out, get until \<open>n\<close> elements are out or
  the queue is empty.
\<close>

fun put_run :: "('q \<Rightarrow> 'a \<Rightarrow> 'q \<times> int) \<Rightarrow> 'q \<Rightarrow> 'a list \<Rightarrow> 'q \<times> nat" where
  "put_run put q [] = (q, 0)"
| "put_run put q (x # xs) =
     (case put q x of (q', r) \<Rightarrow>
        if r = 0 then (case put_run put q' xs of (q'', n) \<Rightarrow> (q'', Suc n)) else (q', 0))"

fun get_run :: "('q \<Rightarrow> 'q \<times> int \<times> 'a option) \<Rightarrow> 'q \<Rightarrow> nat \<Rightarrow> 'q \<times> 'a list" where
  "get_run get q 0 = (q, [])"
| "get_run get q (Suc n) =
     (case get q of (q', r, out) \<Rightarrow>
        if r = 0 then (case get_run get q' n of (q'', xs) \<Rightarrow> (q'', the out # xs)) else (q', []))"

locale bounded_fifo =
  fixes put :: "'q \<Rightarrow> 'a \<Rightarrow> 'q \<times> int"
    and get :: "'q \<Rightarrow> 'q \<times> int \<times> 'a option"
    and contents :: "'q \<Rightarrow> 'a list"
    and capacity :: "'q \<Rightarrow> nat"
    and wf :: "'q \<Rightarrow> bool"
  assumes put_wf: "wf q \<Longrightarrow> wf (fst (put q x))"
    and get_wf: "wf q \<Longrightarrow> wf (fst (get q))"
    and put_room: "wf q \<Longrightarrow> length (contents q) < capacity q \<Longrightarrow>
      snd (put q x) = 0 \<and> contents (fst (put q x)) = contents q @ [x]"
    and put_full: "wf q \<Longrightarrow> length (contents q) = capacity q \<Longrightarrow> put q x = (q, -1)"
    and get_empty: "wf q \<Longrightarrow> contents q = [] \<Longrightarrow> get q = (q, -1, None)"
    and get_some: "wf q \<Longrightarrow> contents q = x # xs \<Longrightarrow>
      snd (get q) = (0, Some x) \<and> contents (fst (get q)) = xs"
    and capacity_put: "capacity (fst (put q x)) = capacity q"
    and capacity_get: "capacity (fst (get q)) = capacity q"
    and bounded: "wf q \<Longrightarrow> length (contents q) \<le> capacity q"
begin

lemma put_run_spec:
  assumes "wf q"
  shows "wf (fst (put_run put q xs)) \<and>
    contents (fst (put_run put q xs)) = contents q @ take (capacity q - length (contents q)) xs \<and>
    snd (put_run put q xs) = min (length xs) (capacity q - length (contents q)) \<and>
    capacity (fst (put_run put q xs)) = capacity q"
  using assms
proof (induction xs arbitrary: q)
  case (Cons x xs)
  show ?case
  proof (cases "length (contents q) = capacity q")
    case True
    then show ?thesis using Cons.prems put_full [of q x] by simp
  next
    case False
    then have lt: "length (contents q) < capacity q" using bounded [OF Cons.prems] by simp
    obtain q' where q': "put q x = (q', 0)"
      using put_room [OF Cons.prems lt, of x] by (cases "put q x") auto
    have c: "contents q' = contents q @ [x]" "capacity q' = capacity q" "wf q'"
      using put_room [OF Cons.prems lt, of x] capacity_put [of q x] put_wf [OF Cons.prems, of x] q'
      by simp_all
    obtain d where d: "capacity q - length (contents q) = Suc d" using lt by (metis Suc_diff_Suc)
    then have d': "capacity q - Suc (length (contents q)) = d" by simp
    show ?thesis using Cons.IH [OF c(3)] q' c d d' by (simp add: split_beta)
  qed
qed simp

lemma get_run_spec:
  assumes "wf q"
  shows "wf (fst (get_run get q n)) \<and> snd (get_run get q n) = take n (contents q) \<and>
    contents (fst (get_run get q n)) = drop n (contents q) \<and>
    capacity (fst (get_run get q n)) = capacity q"
  using assms
proof (induction n arbitrary: q)
  case (Suc n)
  show ?case
  proof (cases "contents q")
    case Nil
    then show ?thesis using Suc.prems get_empty [of q] by simp
  next
    case (Cons x xs)
    obtain q' where q': "get q = (q', 0, Some x)"
      using get_some [OF Suc.prems Cons] by (cases "get q") auto
    have c: "contents q' = xs" "capacity q' = capacity q" "wf q'"
      using get_some [OF Suc.prems Cons] capacity_get [of q] get_wf [OF Suc.prems] q' by simp_all
    show ?thesis using Suc.IH [OF c(3)] q' c Cons by (simp add: split_beta)
  qed
qed simp

text \<open>What fits goes in, and comes out in the same order.\<close>

lemma put_get_run:
  assumes "wf q" "contents q = []" "length xs \<le> capacity q"
  shows "snd (get_run get (fst (put_run put q xs)) (length xs)) = xs"
  using put_run_spec [of q xs] get_run_spec [of "fst (put_run put q xs)" "length xs"] assms by simp

end

interpretation cqf: bounded_fifo cq_put cq_get cq_list cq_cap cq_wf
proof unfold_locales
  fix q :: "'a cqueue" and x :: 'a and xs
  show "cq_wf q \<Longrightarrow> length (cq_list q) \<le> cq_cap q" by (simp add: cq_wf_def)
  assume wf: "cq_wf q"
  show "cq_wf (fst (cq_put q x))" by (rule cq_put_wf [OF wf])
  show "cq_wf (fst (cq_get q))" by (rule cq_get_wf [OF wf])
  show "length (cq_list q) < cq_cap q \<Longrightarrow>
    snd (cq_put q x) = 0 \<and> cq_list (fst (cq_put q x)) = cq_list q @ [x]"
    using cq_put_room [OF wf] by blast
  show "length (cq_list q) = cq_cap q \<Longrightarrow> cq_put q x = (q, -1)" by (rule cq_put_full [OF wf])
  show "cq_list q = x # xs \<Longrightarrow> snd (cq_get q) = (0, Some x) \<and> cq_list (fst (cq_get q)) = xs"
    using cq_get_some [OF wf] by blast
qed (simp_all add: cq_get_empty)

section \<open>Properties\<close>

text \<open>
  C3: on every well-formed queue - whatever the values of the free-running indices, their wrap past
  2^32 included - \<open>cq_put\<close> appends exactly when there is room and changes nothing when there is none,
  and \<open>cq_get\<close> and \<open>cq_peek\<close> deliver the oldest element or report that there is none.
\<close>

theorem cq_refines_fifo:
  assumes "cq_wf q"
  shows "cq_wf (fst (cq_put q x)) \<and> cq_wf (fst (cq_get q)) \<and>
    (if length (cq_list q) < cq_cap q
     then snd (cq_put q x) = 0 \<and> cq_list (fst (cq_put q x)) = cq_list q @ [x]
     else cq_put q x = (q, -1)) \<and>
    (case cq_list q of
       [] \<Rightarrow> cq_get q = (q, -1, None)
     | y # ys \<Rightarrow> snd (cq_get q) = (0, Some y) \<and> cq_list (fst (cq_get q)) = ys) \<and>
    cq_peek q = snd (cq_get q)"
proof -
  have "length (cq_list q) = cq_cap q" if "\<not> length (cq_list q) < cq_cap q"
    using cqf.bounded [OF assms] that by linarith
  then show ?thesis
    using cq_put_wf [OF assms] cq_get_wf [OF assms] cqf.put_room [OF assms] cqf.put_full [OF assms]
      cq_get_empty [of q] cq_get_some [OF assms] cq_peek_eq [of q]
    by (cases "cq_list q") auto
qed

theorem cq_refines_fifo_witness:
  "cq_wf (cq_init [None, None] 1 2 :: u8 cqueue) \<and>
   cq_list (fst (cq_put (cq_init [None, None] 1 2) (5 :: u8))) = [5]"
proof -
  have wf: "cq_wf (cq_init [None, None] 1 2 :: u8 cqueue)" by (rule cq_init_wf(1)) simp
  have l: "cq_list (cq_init [None, None] 1 2 :: u8 cqueue) = []" by (rule cq_init_wf(2)) simp
  have c: "cq_cap (cq_init [None, None] 1 2 :: u8 cqueue) = 2"
    using cq_init_wf(3) [of 2 "[None, None] :: u8 slots" 1] bit_log2_unique [of 1 2] by simp
  show ?thesis using cq_refines_fifo [OF wf, of 5] wf l c by (simp del: length_cq_list)
qed

end
