(* ===== verification/Spsc.thy ===== *)
theory Spsc
  imports Cqueue
begin

text \<open>
  One producer and one consumer on a \<open>cqueue\<close> with no lock (\<open>include/ceres/ds/cqueue.h\<close>: "safe for ONE
  producer and ONE consumer without masking interrupts"). \<open>cq_put\<close> and \<open>cq_get\<close> are cut into their
  accesses to the shared structure - the test, the copy, the store that publishes the index - and the
  steps of the two sides interleave in any order. The ghost fields record what was published and what
  was taken.
\<close>

datatype 'a producer = P_Idle | P_Room u32 'a | P_Stored u32 'a

datatype 'a consumer = C_Idle | C_Found u32 | C_Copied u32 "'a option"

record 'a spsc =
  sp_queue :: "'a cqueue"
  sp_prod :: "'a producer"
  sp_cons :: "'a consumer"
  sp_sent :: "'a list"
  sp_taken :: "'a option list"

inductive spsc_step :: "'a spsc \<Rightarrow> 'a spsc \<Rightarrow> bool" where
  put_test: "sp_prod s = P_Idle \<Longrightarrow> sp_queue s = q \<Longrightarrow> \<not> cq_mask q < cq_head q - cq_tail q \<Longrightarrow>
    spsc_step s (s\<lparr>sp_prod := P_Room (cq_head q) x\<rparr>)"
| put_refuse: "sp_prod s = P_Idle \<Longrightarrow> sp_queue s = q \<Longrightarrow> cq_mask q < cq_head q - cq_tail q \<Longrightarrow>
    spsc_step s s"
| put_copy: "sp_prod s = P_Room h x \<Longrightarrow> sp_queue s = q \<Longrightarrow>
    spsc_step s (s\<lparr>sp_prod := P_Stored h x,
      sp_queue := q\<lparr>cq_buf := (cq_buf q)[unat (h AND cq_mask q) := Some x]\<rparr>\<rparr>)"
| put_publish: "sp_prod s = P_Stored h x \<Longrightarrow> sp_queue s = q \<Longrightarrow>
    spsc_step s (s\<lparr>sp_prod := P_Idle, sp_queue := q\<lparr>cq_head := h + 1\<rparr>, sp_sent := sp_sent s @ [x]\<rparr>)"
| get_test: "sp_cons s = C_Idle \<Longrightarrow> sp_queue s = q \<Longrightarrow> cq_head q \<noteq> cq_tail q \<Longrightarrow>
    spsc_step s (s\<lparr>sp_cons := C_Found (cq_tail q)\<rparr>)"
| get_refuse: "sp_cons s = C_Idle \<Longrightarrow> sp_queue s = q \<Longrightarrow> cq_head q = cq_tail q \<Longrightarrow> spsc_step s s"
| get_copy: "sp_cons s = C_Found t \<Longrightarrow> sp_queue s = q \<Longrightarrow>
    spsc_step s (s\<lparr>sp_cons := C_Copied t (cq_buf q ! unat (t AND cq_mask q))\<rparr>)"
| get_publish: "sp_cons s = C_Copied t out \<Longrightarrow> sp_queue s = q \<Longrightarrow>
    spsc_step s (s\<lparr>sp_cons := C_Idle, sp_queue := q\<lparr>cq_tail := t + 1\<rparr>, sp_taken := sp_taken s @ [out]\<rparr>)"

inductive_cases spsc_stepE: "spsc_step s s'"

definition spsc_start :: "'a cqueue \<Rightarrow> 'a spsc" where
  "spsc_start q = \<lparr>sp_queue = q, sp_prod = P_Idle, sp_cons = C_Idle, sp_sent = [], sp_taken = []\<rparr>"

inductive spsc_reach :: "'a cqueue \<Rightarrow> 'a spsc \<Rightarrow> bool" for q where
  start: "spsc_reach q (spsc_start q)"
| step: "spsc_reach q s \<Longrightarrow> spsc_step s s' \<Longrightarrow> spsc_reach q s'"

text \<open>
  Without interruption the steps of a call add up to the call of \<^theory_text>\<open>Cqueue\<close>.
\<close>

lemma put_steps:
  assumes "sp_prod s = P_Idle" "snd (cq_put (sp_queue s) x) = 0"
  shows "spsc_step\<^sup>*\<^sup>* s (s\<lparr>sp_queue := fst (cq_put (sp_queue s) x), sp_sent := sp_sent s @ [x]\<rparr>)"
proof -
  let ?q = "sp_queue s" and ?h = "cq_head (sp_queue s)"
  let ?s1 = "s\<lparr>sp_prod := P_Room ?h x\<rparr>"
  let ?q2 = "?q\<lparr>cq_buf := (cq_buf ?q)[unat (?h AND cq_mask ?q) := Some x]\<rparr>"
  let ?s2 = "?s1\<lparr>sp_prod := P_Stored ?h x, sp_queue := ?q2\<rparr>"
  let ?s3 = "?s2\<lparr>sp_prod := P_Idle, sp_queue := ?q2\<lparr>cq_head := ?h + 1\<rparr>, sp_sent := sp_sent ?s2 @ [x]\<rparr>"
  have nf: "\<not> cq_mask ?q < ?h - cq_tail ?q"
    using assms(2) by (auto simp: cq_put_def Let_def split: if_splits)
  have a: "spsc_step s ?s1" by (rule put_test) (use assms(1) nf in simp_all)
  have b: "spsc_step ?s1 ?s2" by (rule put_copy) simp_all
  have c: "spsc_step ?s2 ?s3" by (rule put_publish) simp_all
  have "?s3 = s\<lparr>sp_queue := fst (cq_put ?q x), sp_sent := sp_sent s @ [x]\<rparr>"
    using nf assms(1) by (simp add: cq_put_def Let_def)
  then show ?thesis
    using converse_rtranclp_into_rtranclp [of spsc_step, OF a]
      converse_rtranclp_into_rtranclp [of spsc_step, OF b] r_into_rtranclp [of spsc_step, OF c]
    by (simp only:)
qed

section \<open>The invariant\<close>

text \<open>
  The queue is well formed in every intermediate state; a producer that saw room still has it (the
  consumer only makes more), its slot is the one after the last waiting element, and a consumer that
  found an element is looking at the oldest one, which nothing overwrites.
\<close>

fun prod_inv :: "'a cqueue \<Rightarrow> 'a producer \<Rightarrow> bool" where
  "prod_inv q P_Idle = True"
| "prod_inv q (P_Room h x) = (h = cq_head q \<and> unat (cq_count q) < cq_cap q)"
| "prod_inv q (P_Stored h x) = (h = cq_head q \<and> unat (cq_count q) < cq_cap q \<and>
     cq_slot q (unat (cq_count q)) = Some x)"

fun cons_inv :: "'a cqueue \<Rightarrow> 'a consumer \<Rightarrow> bool" where
  "cons_inv q C_Idle = True"
| "cons_inv q (C_Found t) = (t = cq_tail q \<and> cq_list q \<noteq> [])"
| "cons_inv q (C_Copied t out) = (t = cq_tail q \<and> cq_list q \<noteq> [] \<and> out = Some (hd (cq_list q)))"

definition spsc_inv :: "'a spsc \<Rightarrow> bool" where
  "spsc_inv s \<longleftrightarrow> cq_wf (sp_queue s) \<and> prod_inv (sp_queue s) (sp_prod s) \<and>
     cons_inv (sp_queue s) (sp_cons s) \<and>
     map Some (sp_sent s) = sp_taken s @ map Some (cq_list (sp_queue s))"

lemma hd_cq_list: "cq_wf q \<Longrightarrow> cq_list q \<noteq> [] \<Longrightarrow> cq_slot q 0 = Some (hd (cq_list q))"
proof -
  assume "cq_wf q" "cq_list q \<noteq> []"
  then have "0 < unat (cq_count q)" using length_cq_list [of q] by (metis length_greater_0_conv)
  moreover from this have "hd (cq_list q) = the (cq_slot q 0)"
    by (simp add: cq_list_def hd_map hd_upt)
  ultimately show ?thesis using \<open>cq_wf q\<close> by (auto simp: cq_wf_def)
qed

lemma cq_slot_0: "cq_slot q 0 = cq_buf q ! unat (cq_tail q AND cq_mask q)"
  by (simp add: cq_slot_def)

lemma copy_slots:
  fixes q :: "'a cqueue" and x :: 'a
  defines "q' \<equiv> q\<lparr>cq_buf := (cq_buf q)[unat (cq_head q AND cq_mask q) := Some x]\<rparr>"
  assumes "cq_wf q" "unat (cq_count q) < cq_cap q"
  shows "cq_slot q' (unat (cq_count q)) = Some x" and "i < unat (cq_count q) \<Longrightarrow> cq_slot q' i = cq_slot q i"
    and "cq_count q' = cq_count q" and "cq_cap q' = cq_cap q" and "cq_wf q'" and "cq_list q' = cq_list q"
proof -
  have put: "fst (cq_put q x) = q'\<lparr>cq_head := cq_head q + 1\<rparr>"
    using assms(3) cq_full_iff [of q] by (simp add: cq_put_def Let_def q'_def)
  have slot: "cq_slot q' i = cq_slot (fst (cq_put q x)) i" for i by (simp add: put cq_slot_def q'_def)
  show "cq_slot q' (unat (cq_count q)) = Some x" using cq_slot_put_same [OF assms(2,3)] by (simp add: slot)
  show other: "i < unat (cq_count q) \<Longrightarrow> cq_slot q' i = cq_slot q i" for i
    using cq_slot_put_other [OF assms(2,3)] by (simp add: slot)
  show c: "cq_count q' = cq_count q" "cq_cap q' = cq_cap q"
    by (simp_all add: q'_def cq_count_def cq_cap_def)
  show "cq_wf q'" using assms(2) other c by (simp add: cq_wf_def) (simp add: q'_def)
  show "cq_list q' = cq_list q" using other c by (simp add: cq_list_def)
qed

lemma publish_head:
  assumes "cq_wf q" "unat (cq_count q) < cq_cap q" "cq_slot q (unat (cq_count q)) = Some x"
  shows "cq_wf (q\<lparr>cq_head := cq_head q + 1\<rparr>)"
    and "cq_list (q\<lparr>cq_head := cq_head q + 1\<rparr>) = cq_list q @ [x]"
proof -
  let ?q = "q\<lparr>cq_head := cq_head q + 1\<rparr>"
  have n: "unat (cq_count ?q) = unat (cq_count q) + 1"
    using assms(2) cq_cap_le [OF assms(1)] by (simp add: cq_count_def cq_count_put)
  have slot: "cq_slot ?q i = cq_slot q i" for i by (simp add: cq_slot_def)
  have cap: "cq_cap ?q = cq_cap q" by (simp add: cq_cap_def)
  show "cq_wf ?q" using assms n slot cap by (auto simp: cq_wf_def less_Suc_eq)
  show "cq_list ?q = cq_list q @ [x]" using assms(3) by (simp add: cq_list_def n slot)
qed

lemma publish_tail:
  assumes "cq_wf q" "cq_list q \<noteq> []"
  shows "cq_wf (q\<lparr>cq_tail := cq_tail q + 1\<rparr>)"
    and "cq_list q = hd (cq_list q) # cq_list (q\<lparr>cq_tail := cq_tail q + 1\<rparr>)"
    and "unat (cq_count (q\<lparr>cq_tail := cq_tail q + 1\<rparr>)) = unat (cq_count q) - 1"
    and "cq_slot (q\<lparr>cq_tail := cq_tail q + 1\<rparr>) i = cq_slot q (Suc i)"
proof -
  obtain x xs where xs: "cq_list q = x # xs" using assms(2) by (cases "cq_list q") auto
  have ne: "cq_head q \<noteq> cq_tail q" using cq_count_0_iff [of q] xs length_cq_list [of q] by auto
  have eq: "fst (cq_get q) = q\<lparr>cq_tail := cq_tail q + 1\<rparr>" using ne by (simp add: cq_get_def Let_def)
  show "cq_wf (q\<lparr>cq_tail := cq_tail q + 1\<rparr>)" using cq_get_some(3) [OF assms(1) xs] eq by simp
  show "cq_list q = hd (cq_list q) # cq_list (q\<lparr>cq_tail := cq_tail q + 1\<rparr>)"
    using cq_get_some(2) [OF assms(1) xs] eq xs by simp
  show "unat (cq_count (q\<lparr>cq_tail := cq_tail q + 1\<rparr>)) = unat (cq_count q) - 1"
    using cq_count_get [OF ne] by (simp add: cq_count_def)
  show "cq_slot (q\<lparr>cq_tail := cq_tail q + 1\<rparr>) i = cq_slot q (Suc i)"
    using cq_slot_get [OF ne] eq by simp
qed

lemma cons_inv_same:
  assumes "cons_inv q c" "cq_tail q' = cq_tail q" "cq_list q \<noteq> [] \<Longrightarrow> cq_list q' \<noteq> [] \<and> hd (cq_list q') = hd (cq_list q)"
  shows "cons_inv q' c"
  using assms by (cases c) auto

lemma prod_inv_tail:
  assumes "cq_wf q" "cq_list q \<noteq> []" "prod_inv q p"
  shows "prod_inv (q\<lparr>cq_tail := cq_tail q + 1\<rparr>) p"
proof -
  have "0 < unat (cq_count q)" using assms(2) length_cq_list [of q] by (metis length_greater_0_conv)
  then show ?thesis
    using assms(3) publish_tail(3,4) [OF assms(1,2)] by (cases p) (auto simp: cq_cap_def)
qed

lemma spsc_step_inv: "spsc_step s s' \<Longrightarrow> spsc_inv s \<Longrightarrow> spsc_inv s'"
proof (induction rule: spsc_step.induct)
  case (put_test s q x)
  then show ?case using cq_full_iff [of q] by (auto simp: spsc_inv_def)
next
  case (put_copy s h x q)
  then have q: "cq_wf q" "unat (cq_count q) < cq_cap q" "h = cq_head q" by (auto simp: spsc_inv_def)
  note c = copy_slots [OF q(1,2), where x = x, folded q(3)]
  show ?case using put_copy q c by (auto simp: spsc_inv_def intro: cons_inv_same)
next
  case (put_publish s h x q)
  then have q: "cq_wf q" "unat (cq_count q) < cq_cap q" "cq_slot q (unat (cq_count q)) = Some x"
    "h = cq_head q" by (auto simp: spsc_inv_def)
  note p = publish_head [OF q(1-3), folded q(4)]
  have "cons_inv (q\<lparr>cq_head := h + 1\<rparr>) (sp_cons s)"
    using put_publish p by (auto simp: spsc_inv_def intro: cons_inv_same)
  then show ?case using put_publish p by (simp add: spsc_inv_def)
next
  case (get_test s q)
  then have "cq_list q \<noteq> []" using cq_count_0_iff [of q] length_cq_list [of q] by (metis list.size(3))
  then show ?case using get_test by (auto simp: spsc_inv_def)
next
  case (get_copy s t q)
  then show ?case using hd_cq_list [of q] by (auto simp: spsc_inv_def cq_slot_0)
next
  case (get_publish s t out q)
  then have q: "cq_wf q" "cq_list q \<noteq> []" "t = cq_tail q" "out = Some (hd (cq_list q))"
    by (auto simp: spsc_inv_def)
  have "map Some (cq_list q) = out # map Some (cq_list (q\<lparr>cq_tail := t + 1\<rparr>))"
    using publish_tail(2) [OF q(1,2)] q(3,4) by (metis list.simps(9))
  then show ?case
    using get_publish q(3) publish_tail(1) [OF q(1,2)] prod_inv_tail [OF q(1,2)]
    by (auto simp: spsc_inv_def)
qed (simp_all add: spsc_inv_def)

lemma spsc_reach_inv:
  assumes "cq_wf q" "cq_list q = []"
  shows "spsc_reach q s \<Longrightarrow> spsc_inv s"
proof (induction rule: spsc_reach.induct)
  case start
  then show ?case using assms by (simp add: spsc_inv_def spsc_start_def)
next
  case (step s s')
  then show ?case by (blast intro: spsc_step_inv)
qed

lemma spsc_reach_steps: "spsc_step\<^sup>*\<^sup>* s s' \<Longrightarrow> spsc_reach q s \<Longrightarrow> spsc_reach q s'"
  by (induction rule: rtranclp_induct) (auto intro: spsc_reach.step)

text \<open>
  C4: in every interleaving of one producer's and one consumer's accesses to a freshly initialised
  queue, what the consumer has taken is a prefix of what the producer has put - nothing lost, doubled,
  reordered or read before it was written - and at most a capacity of elements is in between.
\<close>

theorem spsc_prefix:
  assumes "max 1 (unat n) \<le> length storage"
    and "spsc_reach (cq_init storage e n) s"
  shows "sp_taken s = map Some (take (length (sp_taken s)) (sp_sent s)) \<and>
    length (sp_sent s) \<le> length (sp_taken s) + cq_cap (sp_queue s)"
proof -
  have "spsc_inv s" using spsc_reach_inv [OF cq_init_wf(1,2) [OF assms(1)]] assms(2) by blast
  then have eq: "map Some (sp_sent s) = sp_taken s @ map Some (cq_list (sp_queue s))"
    and le: "length (cq_list (sp_queue s)) \<le> cq_cap (sp_queue s)"
    by (auto simp: spsc_inv_def cq_wf_def)
  have "take (length (sp_taken s)) (map Some (sp_sent s)) = sp_taken s" using eq by simp
  moreover have "length (map Some (sp_sent s)) = length (sp_taken s) + length (cq_list (sp_queue s))"
    by (simp only: eq) simp
  ultimately show ?thesis using le by (simp add: take_map)
qed

theorem spsc_prefix_witness:
  "\<exists>s. spsc_reach (cq_init [None, None] 1 2) s \<and> sp_sent s = [7 :: u8] \<and>
     sp_taken s = map Some (take (length (sp_taken s)) (sp_sent s))"
proof -
  let ?q = "cq_init [None, None] 1 2 :: u8 cqueue" and ?s = "spsc_start (cq_init [None, None] 1 2 :: u8 cqueue)"
  have n: "max 1 (unat (2::u32)) \<le> length [None, None :: u8 option]" by simp
  have "snd (cq_put ?q 7) = 0" using cq_put_room(1) [OF cq_init_wf(1) [OF n]] cq_init_wf(2,3) [OF n, of 1]
    by (simp del: length_cq_list)
  then have "spsc_step\<^sup>*\<^sup>* ?s (?s\<lparr>sp_queue := fst (cq_put ?q 7), sp_sent := [7]\<rparr>)"
    using put_steps [of ?s 7] by (simp add: spsc_start_def)
  then have r: "spsc_reach ?q (?s\<lparr>sp_queue := fst (cq_put ?q 7), sp_sent := [7]\<rparr>)"
    by (rule spsc_reach_steps) (rule spsc_reach.start)
  show ?thesis using r spsc_prefix [OF n r] by (intro exI conjI) auto
qed

end
