(* ===== verification/Ringbuf.thy ===== *)
theory Ringbuf
  imports Cqueue
begin

text \<open>
  \<open>src/ceres/ds/ringbuf.c\<close>: the byte FIFO, a \<open>cqueue\<close> of one-byte elements. The bulk calls are the
  loops of the FIFO contract over the single-byte calls.
\<close>

type_synonym ringbuf = "u8 cqueue"

definition ring_init :: "u8 slots \<Rightarrow> u32 \<Rightarrow> ringbuf" where
  "ring_init storage n = cq_init storage 1 n"

definition ring_count :: "ringbuf \<Rightarrow> u32" where
  "ring_count r = cq_count r"

definition ring_space :: "ringbuf \<Rightarrow> u32" where
  "ring_space r = cq_space r"

definition ring_put :: "ringbuf \<Rightarrow> u8 \<Rightarrow> ringbuf \<times> int" where
  "ring_put r b = cq_put r b"

definition ring_get :: "ringbuf \<Rightarrow> ringbuf \<times> int" where
  "ring_get r = (case cq_get r of (r', c, b) \<Rightarrow> (r', if c = 0 then uint (the b) else -1))"

definition ring_peek :: "ringbuf \<Rightarrow> int" where
  "ring_peek r = (case cq_peek r of (c, b) \<Rightarrow> if c = 0 then uint (the b) else -1)"

definition ring_write :: "ringbuf \<Rightarrow> u8 list \<Rightarrow> ringbuf \<times> nat" where
  "ring_write r bytes = put_run ring_put r bytes"

fun ring_read :: "ringbuf \<Rightarrow> nat \<Rightarrow> ringbuf \<times> u8 list" where
  "ring_read r 0 = (r, [])"
| "ring_read r (Suc n) =
     (case ring_get r of (r', b) \<Rightarrow>
        if b < 0 then (r', [])
        else (case ring_read r' n of (r'', bs) \<Rightarrow> (r'', word_of_int b # bs)))"

definition ring_clear :: "ringbuf \<Rightarrow> ringbuf" where
  "ring_clear r = cq_clear r"

lemma ring_get_not_negative: "cq_get r = (r', c, b) \<Longrightarrow> snd (ring_get r) < 0 \<longleftrightarrow> c \<noteq> 0"
  by (simp add: ring_get_def not_less)

lemma ring_get_code: "snd (snd (cq_get r)) = b \<Longrightarrow> fst (snd (cq_get r)) = 0 \<or> fst (snd (cq_get r)) = -1"
  by (simp add: cq_get_def Let_def)

lemma ring_read_eq: "ring_read r n = get_run cq_get r n"
proof (induction n arbitrary: r)
  case (Suc n)
  obtain r' c b where g: "cq_get r = (r', c, b)" by (cases "cq_get r") auto
  show ?case
  proof (cases "c = 0")
    case True
    then have "ring_get r = (r', uint (the b))" using g by (simp add: ring_get_def)
    then show ?thesis using Suc.IH [of r'] True g by (simp add: not_less)
  next
    case False
    then have "ring_get r = (r', -1)" using g by (simp add: ring_get_def)
    then show ?thesis using False g by simp
  qed
qed simp

lemma ring_put_eq: "ring_put = cq_put"
  by (simp add: ring_put_def fun_eq_iff)

lemma ring_write_spec:
  assumes "cq_wf r"
  shows "cq_wf (fst (ring_write r bs))"
    and "cq_list (fst (ring_write r bs)) = cq_list r @ take (cq_cap r - length (cq_list r)) bs"
    and "snd (ring_write r bs) = min (length bs) (cq_cap r - length (cq_list r))"
    and "cq_cap (fst (ring_write r bs)) = cq_cap r"
  using cqf.put_run_spec [OF assms, of bs] by (simp_all add: ring_write_def ring_put_eq)

lemma ring_read_spec:
  assumes "cq_wf r"
  shows "cq_wf (fst (ring_read r n))"
    and "snd (ring_read r n) = take n (cq_list r)"
    and "cq_list (fst (ring_read r n)) = drop n (cq_list r)"
  using cqf.get_run_spec [OF assms, of n] by (simp_all add: ring_read_eq)

text \<open>\<open>ring_space\<close> is exactly how many bytes a write takes.\<close>

lemma ring_space_eq: "cq_wf r \<Longrightarrow> unat (ring_space r) = cq_cap r - length (cq_list r)"
proof -
  assume wf: "cq_wf r"
  obtain k where k: "k < 32" "cq_mask r + 1 = 2 ^ k" "unat (cq_mask r) + 1 = 2 ^ k"
    using wf by (auto simp: cq_wf_def elim: pow2_maskE)
  have "unat (cq_mask r + 1) = cq_cap r" using k by (simp add: cq_cap_def unat_pow2_less)
  moreover have "cq_count r \<le> cq_mask r + 1"
    using wf calculation by (simp add: cq_wf_def word_le_nat_alt)
  ultimately show ?thesis by (simp add: ring_space_def cq_space_def unat_sub)
qed

lemma ring_count_eq: "cq_wf r \<Longrightarrow> unat (ring_count r) = length (cq_list r)"
  by (simp add: ring_count_def)

text \<open>
  C5: a byte ring in any state is a bounded queue of bytes. \<open>ring_count\<close> and \<open>ring_space\<close> are the bytes that wait and those that still fit; a write
  takes exactly as many bytes as \<open>ring_space\<close> reports and puts them after the ones that wait; a read of \<open>n\<close> gives the oldest \<open>n\<close> bytes and
  leaves the others; what a write took comes out behind what was there, in the same order.
\<close>

theorem ring_transfer:
  assumes "cq_wf r"
  shows "unat (ring_count r) = length (cq_list r) \<and> unat (ring_space r) = cq_cap r - length (cq_list r) \<and>
    snd (ring_write r bs) = min (length bs) (unat (ring_space r)) \<and>
    cq_wf (fst (ring_write r bs)) \<and> cq_list (fst (ring_write r bs)) = cq_list r @ take (unat (ring_space r)) bs \<and>
    cq_wf (fst (ring_read r n)) \<and> snd (ring_read r n) = take n (cq_list r) \<and> cq_list (fst (ring_read r n)) = drop n (cq_list r) \<and>
    snd (ring_read (fst (ring_write r bs)) n) = take n (cq_list r @ take (unat (ring_space r)) bs) \<and>
    cq_list (fst (ring_read (fst (ring_write r bs)) n)) = drop n (cq_list r @ take (unat (ring_space r)) bs)"
  using ring_write_spec [OF assms, of bs] ring_read_spec [OF assms, of n] ring_read_spec [of "fst (ring_write r bs)" n]
    ring_space_eq [OF assms] ring_count_eq [OF assms] by (simp add: min_def)

text \<open>The witness has one byte waiting and its indices just below 2^32, so they wrap in the middle of the transfer.\<close>

theorem ring_transfer_witness:
  "snd (ring_write \<lparr>cq_buf = [None, None, Some 9, None], cq_elem = 1, cq_mask = 3, cq_head = - 1, cq_tail = - 2\<rparr>
     [1, 2, 3, 4, 5]) = 3"
proof -
  let ?r = "\<lparr>cq_buf = [None, None, Some 9, None], cq_elem = 1, cq_mask = 3, cq_head = - 1, cq_tail = - 2\<rparr> :: ringbuf"
  have "pow2_mask 3" unfolding pow2_mask_def by (rule exI [of _ 2]) simp
  then have wf: "cq_wf ?r" by (simp add: cq_wf_def cq_cap_def cq_count_def cq_slot_def)
  have s: "unat (ring_space ?r) = 3" by (simp add: ring_space_def cq_space_def cq_count_def)
  show ?thesis using ring_transfer [OF wf, of "[1, 2, 3, 4, 5]"] s by simp
qed

end
