(* ===== verification/Vector.thy ===== *)
theory Vector
  imports Prelude
begin

text \<open>
  \<open>src/ceres/ds/vector.c\<close>: the growable array, and \<open>include/ceres/ds/stack.h\<close>, the stack on it. A
  pointer into the storage is the index of its slot. The lengths are \<open>unsigned int\<close> held as \<open>nat\<close>; the
  doubling that would wrap and the byte count that would not fit are the code's own tests.
\<close>

section \<open>The vector\<close>

record 'a vector =
  v_data :: "'a slots"
  v_len :: nat
  v_cap :: nat
  v_elem :: nat

definition vector_init :: "nat \<Rightarrow> 'a vector" where
  "vector_init elem_size =
     \<lparr>v_data = [], v_len = 0, v_cap = 0, v_elem = (if elem_size = 0 then 1 else elem_size)\<rparr>"

definition vector_free :: "'a vector \<Rightarrow> 'a vector" where
  "vector_free v = v\<lparr>v_data := [], v_len := 0, v_cap := 0\<rparr>"

definition vector_reserve :: "allocs \<Rightarrow> 'a vector \<Rightarrow> nat \<Rightarrow> 'a vector \<times> int" where
  "vector_reserve al v cap =
     (if cap \<le> v_cap v then (v, 0)
      else if UINT_MAX div v_elem v < cap then (v, -1)
      else if \<not> al 0 then (v, -1)
      else (v\<lparr>v_data := slots_resize (v_data v) cap, v_cap := cap\<rparr>, 0))"

definition make_room_for_one :: "allocs \<Rightarrow> 'a vector \<Rightarrow> 'a vector \<times> int" where
  "make_room_for_one al v =
     (if v_len v < v_cap v then (v, 0)
      else let want = (if v_cap v = 0 then 4 else mul32 (v_cap v) 2)
           in if want < v_cap v then (v, -1) else vector_reserve al v want)"

text \<open>\<open>vector_push\<close> returns the slot of the new element, filled with the all-zero element \<open>z\<close>.\<close>

definition vector_push :: "allocs \<Rightarrow> 'a \<Rightarrow> 'a vector \<Rightarrow> 'a vector \<times> nat option" where
  "vector_push al z v =
     (case make_room_for_one al v of (v, r) \<Rightarrow>
        if r \<noteq> 0 then (v, None)
        else let slot = v_len v
             in (v\<lparr>v_data := (v_data v)[slot := Some z], v_len := v_len v + 1\<rparr>, Some slot))"

definition vector_push_copy :: "allocs \<Rightarrow> 'a vector \<Rightarrow> 'a \<Rightarrow> 'a vector \<times> int" where
  "vector_push_copy al v item =
     (case make_room_for_one al v of (v, r) \<Rightarrow>
        if r \<noteq> 0 then (v, -1)
        else (v\<lparr>v_data := (v_data v)[v_len v := Some item], v_len := v_len v + 1\<rparr>, 0))"

definition vector_at :: "'a vector \<Rightarrow> nat \<Rightarrow> nat option" where
  "vector_at v i = (if v_len v \<le> i then None else Some i)"

definition vector_last :: "'a vector \<Rightarrow> nat option" where
  "vector_last v = (if v_len v = 0 then None else vector_at v (v_len v - 1))"

text \<open>\<open>VECTOR_GET\<close>: what the pointer from \<open>vector_at\<close> points at; \<open>None\<close> is reading through \<open>NULL\<close>.\<close>

definition vector_get :: "'a vector \<Rightarrow> nat \<Rightarrow> 'a option" where
  "vector_get v i = (case vector_at v i of None \<Rightarrow> None | Some p \<Rightarrow> v_data v ! p)"

text \<open>A store through the pointer from \<open>vector_at\<close>; through \<open>NULL\<close> there is none.\<close>

definition vector_put :: "'a vector \<Rightarrow> nat \<Rightarrow> 'a \<Rightarrow> 'a vector" where
  "vector_put v i x =
     (case vector_at v i of None \<Rightarrow> v | Some p \<Rightarrow> v\<lparr>v_data := (v_data v)[p := Some x]\<rparr>)"

definition vector_pop :: "'a vector \<Rightarrow> 'a vector" where
  "vector_pop v = (if 0 < v_len v then v\<lparr>v_len := v_len v - 1\<rparr> else v)"

definition vector_insert :: "allocs \<Rightarrow> 'a vector \<Rightarrow> nat \<Rightarrow> 'a \<Rightarrow> 'a vector \<times> int" where
  "vector_insert al v i item =
     (if v_len v < i then (v, -1)
      else case make_room_for_one al v of (v, r) \<Rightarrow>
        if r \<noteq> 0 then (v, -1)
        else (v\<lparr>v_data := (slots_move (v_data v) (i + 1) i (v_len v - i))[i := Some item],
                v_len := v_len v + 1\<rparr>, 0))"

definition vector_remove :: "'a vector \<Rightarrow> nat \<Rightarrow> 'a vector" where
  "vector_remove v i =
     (if v_len v \<le> i then v
      else v\<lparr>v_data := slots_move (v_data v) i (i + 1) (v_len v - i - 1), v_len := v_len v - 1\<rparr>)"

definition vector_clear :: "'a vector \<Rightarrow> 'a vector" where
  "vector_clear v = v\<lparr>v_len := 0\<rparr>"

section \<open>The stack\<close>

type_synonym 'a stack = "'a vector"

definition stack_init :: "nat \<Rightarrow> 'a stack" where
  "stack_init elem_size = vector_init elem_size"

definition stack_push :: "allocs \<Rightarrow> 'a stack \<Rightarrow> 'a \<Rightarrow> 'a stack \<times> int" where
  "stack_push al s item = vector_push_copy al s item"

definition stack_top :: "'a stack \<Rightarrow> nat option" where
  "stack_top s = vector_last s"

definition stack_pop :: "'a stack \<Rightarrow> 'a stack \<times> int \<times> 'a option" where
  "stack_pop s =
     (case vector_last s of
        None \<Rightarrow> (s, -1, None)
      | Some p \<Rightarrow> (vector_pop s, 0, v_data s ! p))"

section \<open>Representation\<close>

definition vec_wf :: "'a vector \<Rightarrow> bool" where
  "vec_wf v \<longleftrightarrow> 0 < v_elem v \<and> length (v_data v) = v_cap v \<and> v_cap v * v_elem v \<le> UINT_MAX \<and>
     all_written (v_data v) (v_len v)"

definition vlist :: "'a vector \<Rightarrow> 'a list" where
  "vlist v = live (v_data v) (v_len v)"

lemma vec_wf_len: "vec_wf v \<Longrightarrow> v_len v \<le> v_cap v"
  by (auto simp: vec_wf_def all_written_def)

lemma vec_wf_cap: "vec_wf v \<Longrightarrow> v_cap v < U32"
proof -
  assume wf: "vec_wf v"
  then have e: "0 < v_elem v" and b: "v_cap v * v_elem v \<le> UINT_MAX" by (simp_all add: vec_wf_def)
  from e have "v_cap v \<le> v_cap v * v_elem v" by (cases "v_elem v") auto
  then have "v_cap v \<le> UINT_MAX" using b by (rule order_trans)
  then show ?thesis by simp
qed

lemma length_vlist [simp]: "vec_wf v \<Longrightarrow> length (vlist v) = v_len v"
  by (simp add: vlist_def vec_wf_def all_written_def)

lemma vec_data_nth: "vec_wf v \<Longrightarrow> i < v_len v \<Longrightarrow> v_data v ! i = Some (vlist v ! i)"
  using all_written_nth [of "v_data v" "v_len v" i] by (simp add: vec_wf_def vlist_def)

lemma vec_take: "vec_wf v \<Longrightarrow> take (v_len v) (v_data v) = map Some (vlist v)"
  by (simp add: vec_wf_def vlist_def slots_eq_live)

lemma vec_wfI:
  assumes "0 < v_elem v" "length (v_data v) = v_cap v" "v_cap v * v_elem v \<le> UINT_MAX"
    "v_len v \<le> v_cap v" "take (v_len v) (v_data v) = map Some xs"
  shows "vec_wf v" and "vlist v = xs"
  using assms live_all_writtenI [of "v_len v" "v_data v" xs] by (simp_all add: vec_wf_def vlist_def)

lemma vector_get_eq: "vec_wf v \<Longrightarrow> vector_get v i = (if i < v_len v then Some (vlist v ! i) else None)"
  by (simp add: vector_get_def vector_at_def vec_data_nth)

lemma vector_init_wf [simp]: "e < U32 \<Longrightarrow> vec_wf (vector_init e)" "vlist (vector_init e) = []"
  by (simp_all add: vector_init_def vec_wf_def all_written_def vlist_def)

section \<open>Growing\<close>

lemma vector_reserve_cases:
  assumes "vec_wf v" "vector_reserve al v c = (v', r)"
  shows "vec_wf v' \<and> vlist v' = vlist v \<and> v_len v' = v_len v \<and> v_elem v' = v_elem v \<and>
    (r = 0 \<and> v_cap v' = max c (v_cap v) \<or> r = -1 \<and> v' = v)"
proof (cases "c \<le> v_cap v \<or> UINT_MAX div v_elem v < c \<or> \<not> al 0")
  case True
  then show ?thesis using assms by (auto simp: vector_reserve_def split: if_splits)
next
  case False
  then have v': "v' = v\<lparr>v_data := slots_resize (v_data v) c, v_cap := c\<rparr>" "r = 0" and lt: "v_cap v < c"
    using assms by (auto simp: vector_reserve_def)
  have "0 < v_elem v" using assms(1) by (simp add: vec_wf_def)
  then have "c * v_elem v \<le> UINT_MAX" using False by (simp add: not_less less_eq_div_iff_mult_less_eq)
  then show ?thesis
    using v' lt assms(1) vec_wf_len [OF assms(1)]
    by (auto simp: vec_wf_def vlist_def all_written_slots_resize)
qed

lemma make_room_cases:
  assumes "vec_wf v" "make_room_for_one al v = (v', r)"
  shows "vec_wf v' \<and> vlist v' = vlist v \<and> v_len v' = v_len v \<and> v_elem v' = v_elem v \<and>
    (r = 0 \<and> v_len v' < v_cap v' \<and> v_cap v \<le> v_cap v' \<or> r = -1 \<and> v' = v \<and> v_len v = v_cap v)"
proof (cases "v_len v < v_cap v")
  case True
  then show ?thesis using assms by (auto simp: make_room_for_one_def)
next
  case False
  then have full: "v_len v = v_cap v" using vec_wf_len [OF assms(1)] by simp
  let ?w = "if v_cap v = 0 then 4 else mul32 (v_cap v) 2"
  show ?thesis
  proof (cases "?w < v_cap v")
    case True
    then show ?thesis using assms False full by (simp add: make_room_for_one_def Let_def split: if_splits)
  next
    case False
    have "v_cap v < ?w"
    proof (cases "v_cap v = 0")
      case nz: False
      then have "v_cap v < 2 ^ 31"
        using False mul32_double_wraps [OF vec_wf_cap [OF assms(1)]] by (metis not_le_imp_less)
      then show ?thesis using nz by (simp add: mul32_double)
    qed simp
    moreover have "vector_reserve al v ?w = (v', r)"
      using assms(2) False full by (simp add: make_room_for_one_def Let_def)
    ultimately show ?thesis using vector_reserve_cases [OF assms(1)] full by fastforce
  qed
qed

lemma take_update_last:
  assumes "take n d = map Some xs" "n < length d"
  shows "take (Suc n) (d[n := Some x]) = map Some (xs @ [x])"
  using assms by (simp add: take_Suc_update)

lemma vector_push_copy_cases:
  assumes "vec_wf v" "vector_push_copy al v x = (v', r)"
  shows "vec_wf v' \<and> v_elem v' = v_elem v \<and>
    (r = 0 \<and> vlist v' = vlist v @ [x] \<and> v_len v' = Suc (v_len v) \<or> r = -1 \<and> v' = v \<and> v_len v = v_cap v)"
proof -
  obtain v1 r1 where m: "make_room_for_one al v = (v1, r1)" by fastforce
  note c = make_room_cases [OF assms(1) m]
  show ?thesis
  proof (cases "r1 = 0")
    case False
    then show ?thesis using c assms m by (auto simp: vector_push_copy_def)
  next
    case True
    then have lt: "v_len v1 < v_cap v1" and wf: "vec_wf v1" using c by auto
    have v': "v' = v1\<lparr>v_data := (v_data v1)[v_len v1 := Some x], v_len := v_len v1 + 1\<rparr>" and r: "r = 0"
      using assms(2) m True by (simp_all add: vector_push_copy_def)
    have "vec_wf v' \<and> vlist v' = vlist v1 @ [x]"
      using vec_wfI [of v' "vlist v1 @ [x]"] wf lt take_update_last [OF vec_take [OF wf], of x]
      by (simp add: v' vec_wf_def)
    then show ?thesis using c r v' by auto
  qed
qed

lemma vector_push_cases:
  assumes "vec_wf v" "vector_push al z v = (v', p)"
  shows "vec_wf v' \<and> v_elem v' = v_elem v \<and>
    (p = Some (v_len v) \<and> vlist v' = vlist v @ [z] \<or> p = None \<and> v' = v \<and> v_len v = v_cap v)"
proof -
  obtain v1 r1 where m: "make_room_for_one al v = (v1, r1)" by fastforce
  have pc: "vector_push_copy al v z = (v', if p = None then -1 else 0)"
    using assms(2) m by (auto simp: vector_push_def vector_push_copy_def Let_def split: if_splits)
  have "p = None \<or> p = Some (v_len v)"
    using assms(2) m make_room_cases [OF assms(1) m]
    by (auto simp: vector_push_def Let_def split: if_splits)
  then show ?thesis using vector_push_copy_cases [OF assms(1) pc] by auto
qed

section \<open>Inserting and removing\<close>

lemma slots_insert:
  assumes "take n d = map Some xs" "n < length d" "i \<le> n"
  shows "take (Suc n) ((slots_move d (i + 1) i (n - i))[i := Some x]) = map Some (take i xs @ x # drop i xs)"
proof -
  have n: "length xs = n" using assms(1,2) by (metis length_map length_take min.absorb4)
  have a: "take i d = map Some (take i xs)" using assms by (metis min.absorb1 take_map take_take)
  have b: "take (n - i) (drop i d) = map Some (drop i xs)"
    using assms by (metis drop_map drop_take)
  have t: "take (Suc i) d = take i d @ [d ! i]" using assms by (simp add: take_Suc_conv_app_nth)
  have "(slots_move d (i + 1) i (n - i))[i := Some x] =
    take i d @ [Some x] @ take (n - i) (drop i d) @ drop (Suc n) d"
    using assms by (simp add: slots_move_def slots_put_def t list_update_append)
  then show ?thesis using a b n assms by (simp add: Suc_diff_le)
qed

lemma slots_remove:
  assumes "take n d = map Some xs" "n \<le> length d" "i < n"
  shows "take (n - 1) (slots_move d i (i + 1) (n - i - 1)) = map Some (take i xs @ drop (Suc i) xs)"
proof -
  have n: "length xs = n" using assms(1,2) by (metis length_map length_take min.absorb2)
  have a: "take i d = map Some (take i xs)" using assms by (metis min.absorb1 take_map take_take less_imp_le)
  have b: "take (n - i - 1) (drop (i + 1) d) = map Some (drop (i + 1) xs)"
    using assms by (metis diff_diff_left drop_map drop_take)
  show ?thesis using a b n assms by (simp add: slots_move_def slots_put_def)
qed

lemma vector_insert_cases:
  assumes "vec_wf v" "vector_insert al v i x = (v', r)"
  shows "vec_wf v' \<and> v_elem v' = v_elem v \<and>
    (r = 0 \<and> i \<le> v_len v \<and> vlist v' = take i (vlist v) @ x # drop i (vlist v) \<or>
     r = -1 \<and> v' = v \<and> (v_len v < i \<or> v_len v = v_cap v))"
proof (cases "v_len v < i")
  case True
  then show ?thesis using assms by (simp add: vector_insert_def)
next
  case False
  obtain v1 r1 where m: "make_room_for_one al v = (v1, r1)" by fastforce
  note c = make_room_cases [OF assms(1) m]
  show ?thesis
  proof (cases "r1 = 0")
    case r1: False
    then show ?thesis using c assms m False by (auto simp: vector_insert_def)
  next
    case True
    then have lt: "v_len v1 < v_cap v1" and wf: "vec_wf v1" using c by auto
    have i: "i \<le> v_len v1" using False c by simp
    have v': "v' = v1\<lparr>v_data := (slots_move (v_data v1) (i + 1) i (v_len v1 - i))[i := Some x],
        v_len := v_len v1 + 1\<rparr>" and r: "r = 0"
      using assms(2) m True False by (simp_all add: vector_insert_def)
    have len: "length (v_data v1) = v_cap v1" using wf by (simp add: vec_wf_def)
    have "vec_wf v' \<and> vlist v' = take i (vlist v1) @ x # drop i (vlist v1)"
      using vec_wfI [of v' "take i (vlist v1) @ x # drop i (vlist v1)"] wf lt i len
        slots_insert [OF vec_take [OF wf], of i x]
      by (simp add: v' vec_wf_def)
    then show ?thesis using c r v' False by auto
  qed
qed

lemma vector_remove_spec:
  assumes "vec_wf v"
  shows "vec_wf (vector_remove v i) \<and>
    vlist (vector_remove v i) = (if i < v_len v then take i (vlist v) @ drop (Suc i) (vlist v) else vlist v)"
proof (cases "i < v_len v")
  case True
  let ?v = "vector_remove v i"
  have len: "length (v_data v) = v_cap v" using assms by (simp add: vec_wf_def)
  have le: "v_len v \<le> v_cap v" by (rule vec_wf_len [OF assms])
  show ?thesis
    using vec_wfI [of ?v "take i (vlist v) @ drop (Suc i) (vlist v)"] True assms len le
      slots_remove [OF vec_take [OF assms], of i]
    by (simp add: vector_remove_def vec_wf_def)
qed (use assms in \<open>simp add: vector_remove_def\<close>)

lemma take_list_update: "take n (xs[i := x]) = (take n xs)[i := x]"
  by (induction xs arbitrary: n i) (auto split: nat.splits simp: take_Cons)

lemma vector_put_spec:
  assumes "vec_wf v"
  shows "vec_wf (vector_put v i x)" and "vlist (vector_put v i x) = (vlist v)[i := x]"
    and "v_elem (vector_put v i x) = v_elem v"
proof -
  have "vec_wf (vector_put v i x) \<and> vlist (vector_put v i x) = (vlist v)[i := x]"
  proof (cases "i < v_len v")
    case True
    then show ?thesis
      using vec_wfI [of "vector_put v i x" "(vlist v)[i := x]"] assms vec_take [OF assms] vec_wf_len [OF assms]
      by (simp add: vector_put_def vector_at_def vec_wf_def take_list_update map_update)
  next
    case False
    then show ?thesis using assms length_vlist [OF assms] by (simp add: vector_put_def vector_at_def list_update_beyond)
  qed
  then show "vec_wf (vector_put v i x)" "vlist (vector_put v i x) = (vlist v)[i := x]" by simp_all
  show "v_elem (vector_put v i x) = v_elem v"
    by (simp add: vector_put_def vector_at_def)
qed

lemma v_len_vector_put [simp]: "v_len (vector_put v i x) = v_len v"
  by (simp add: vector_put_def vector_at_def)

lemma vector_pop_spec:
  assumes "vec_wf v"
  shows "vec_wf (vector_pop v)" "vlist (vector_pop v) = butlast (vlist v)"
proof -
  show "vec_wf (vector_pop v)" using assms by (auto simp: vector_pop_def vec_wf_def intro: all_written_le)
  show "vlist (vector_pop v) = butlast (vlist v)"
    using vec_wf_len [OF assms] assms
    by (auto simp: vector_pop_def vlist_def live_def butlast_conv_take vec_wf_def min_def take_map)
qed

lemma vector_clear_spec:
  assumes "vec_wf v" shows "vec_wf (vector_clear v)" "vlist (vector_clear v) = []"
  using assms by (simp_all add: vector_clear_def vec_wf_def vlist_def all_written_def)

lemma vector_free_spec:
  assumes "vec_wf v" shows "vec_wf (vector_free v)" "vlist (vector_free v) = []"
  using assms by (simp_all add: vector_free_def vec_wf_def vlist_def all_written_def)

lemma stack_pop_spec:
  assumes "vec_wf s"
  shows "vec_wf (fst (stack_pop s))"
    and "snd (stack_pop s) = (if vlist s = [] then (-1, None) else (0, Some (last (vlist s))))"
    and "vlist (fst (stack_pop s)) = butlast (vlist s)"
proof -
  have e: "vlist s = [] \<longleftrightarrow> v_len s = 0" using length_vlist [OF assms] by (metis length_0_conv)
  show "vec_wf (fst (stack_pop s))" "vlist (fst (stack_pop s)) = butlast (vlist s)"
    using vector_pop_spec [OF assms] assms e
    by (auto simp: stack_pop_def vector_last_def vector_at_def)
  show "snd (stack_pop s) = (if vlist s = [] then (-1, None) else (0, Some (last (vlist s))))"
    using e assms by (auto simp: stack_pop_def vector_last_def vector_at_def vec_data_nth last_conv_nth)
qed

section \<open>Properties\<close>

text \<open>
  C6: the operations of a vector act on the list of its elements as append, insert at, delete at and
  index, whatever the allocator answers; an operation that fails leaves the vector as it was, fails
  for a bad index or a full storage that could not grow, and every operation keeps the vector well
  formed (no slot below the length unwritten, no byte count past 2^32).
\<close>

theorem vector_refines_list:
  assumes "vec_wf v"
  shows "(case vector_push_copy al v x of (v', r) \<Rightarrow> vec_wf v' \<and>
      (if r = 0 then vlist v' = vlist v @ [x] else r = -1 \<and> v' = v \<and> v_len v = v_cap v)) \<and>
    (case vector_insert al v i x of (v', r) \<Rightarrow> vec_wf v' \<and>
      (if r = 0 then i \<le> length (vlist v) \<and> vlist v' = take i (vlist v) @ x # drop i (vlist v)
       else r = -1 \<and> v' = v \<and> (length (vlist v) < i \<or> v_len v = v_cap v))) \<and>
    vec_wf (vector_remove v i) \<and>
    vlist (vector_remove v i) =
      (if i < length (vlist v) then take i (vlist v) @ drop (Suc i) (vlist v) else vlist v) \<and>
    vec_wf (vector_pop v) \<and> vlist (vector_pop v) = butlast (vlist v) \<and>
    vector_get v i = (if i < length (vlist v) then Some (vlist v ! i) else None)"
proof -
  obtain vp rp vi ri where p: "vector_push_copy al v x = (vp, rp)" "vector_insert al v i x = (vi, ri)"
    by fastforce
  show ?thesis
    using vector_push_copy_cases [OF assms p(1)] vector_insert_cases [OF assms p(2)]
      vector_remove_spec [OF assms] vector_pop_spec [OF assms] vector_get_eq [OF assms] p assms
    by auto
qed

theorem vector_refines_list_witness:
  "vec_wf (vector_init 4 :: nat vector) \<and>
   (case vector_push_copy (\<lambda>_. True) (vector_init 4) (7 :: nat) of (v', r) \<Rightarrow> r = 0 \<and> vlist v' = [7])"
proof -
  have wf: "vec_wf (vector_init 4 :: nat vector)" by simp
  have r: "snd (vector_push_copy (\<lambda>_. True) (vector_init 4) (7 :: nat)) = 0"
    by (simp add: vector_push_copy_def make_room_for_one_def vector_reserve_def vector_init_def)
  show ?thesis using vector_refines_list [OF wf, where al = "\<lambda>_. True" and x = 7 and i = 0] wf r by (auto split: prod.splits)
qed

end
