(* ===== verification/Deque.thy ===== *)
theory Deque
  imports Prelude Cqueue
begin

text \<open>
  \<open>src/ceres/ds/deque.c\<close>: the growable circular buffer with both ends open. The capacity is always a
  power of two, which is what keeps \<open>head + i\<close> below 2^32; the wrap of the circle is one conditional
  subtraction, as in the code.
\<close>

section \<open>The deque\<close>

record 'a deque =
  d_data :: "'a slots"
  d_head :: nat
  d_len :: nat
  d_cap :: nat
  d_elem :: nat

definition dq_init :: "nat \<Rightarrow> 'a deque" where
  "dq_init elem_size =
     \<lparr>d_data = [], d_head = 0, d_len = 0, d_cap = 0, d_elem = (if elem_size = 0 then 1 else elem_size)\<rparr>"

definition dq_free :: "'a deque \<Rightarrow> 'a deque" where
  "dq_free d = d\<lparr>d_data := [], d_head := 0, d_len := 0, d_cap := 0\<rparr>"

definition dq_clear :: "'a deque \<Rightarrow> 'a deque" where
  "dq_clear d = d\<lparr>d_head := 0, d_len := 0\<rparr>"

definition slot_of :: "'a deque \<Rightarrow> nat \<Rightarrow> nat" where
  "slot_of d i = (let pos = add32 (d_head d) i in if d_cap d \<le> pos then pos - d_cap d else pos)"

definition dq_grow :: "allocs \<Rightarrow> 'a deque \<Rightarrow> 'a deque \<times> int" where
  "dq_grow al d =
     (let want = (if d_cap d = 0 then 4 else mul32 (d_cap d) 2)
      in if want < d_cap d then (d, -1)
         else if UINT_MAX div d_elem d < want then (d, -1)
         else if \<not> al 0 then (d, -1)
         else let bigger = slots_put (slots_fresh want) 0 (map (\<lambda>i. d_data d ! slot_of d i) [0..<d_len d])
              in (d\<lparr>d_data := bigger, d_cap := want, d_head := 0\<rparr>, 0))"

definition dq_push_back :: "allocs \<Rightarrow> 'a deque \<Rightarrow> 'a \<Rightarrow> 'a deque \<times> int" where
  "dq_push_back al d item =
     (case (if d_len d = d_cap d then dq_grow al d else (d, 0)) of (d, r) \<Rightarrow>
        if r \<noteq> 0 then (d, -1)
        else let s = slot_of d (d_len d)
             in (d\<lparr>d_data := (d_data d)[s := Some item], d_len := d_len d + 1\<rparr>, 0))"

definition dq_push_front :: "allocs \<Rightarrow> 'a deque \<Rightarrow> 'a \<Rightarrow> 'a deque \<times> int" where
  "dq_push_front al d item =
     (case (if d_len d = d_cap d then dq_grow al d else (d, 0)) of (d, r) \<Rightarrow>
        if r \<noteq> 0 then (d, -1)
        else let h = (if d_head d = 0 then d_cap d - 1 else d_head d - 1)
             in (d\<lparr>d_head := h, d_data := (d_data d)[h := Some item], d_len := d_len d + 1\<rparr>, 0))"

definition dq_pop_back :: "'a deque \<Rightarrow> 'a deque \<times> int \<times> 'a option" where
  "dq_pop_back d =
     (if d_len d = 0 then (d, -1, None)
      else let s = slot_of d (d_len d - 1) in (d\<lparr>d_len := d_len d - 1\<rparr>, 0, d_data d ! s))"

definition dq_pop_front :: "'a deque \<Rightarrow> 'a deque \<times> int \<times> 'a option" where
  "dq_pop_front d =
     (if d_len d = 0 then (d, -1, None)
      else (d\<lparr>d_head := slot_of d 1, d_len := d_len d - 1\<rparr>, 0, d_data d ! d_head d))"

definition dq_at :: "'a deque \<Rightarrow> nat \<Rightarrow> nat option" where
  "dq_at d i = (if d_len d \<le> i then None else Some (slot_of d i))"

section \<open>Representation\<close>

definition dq_wf :: "'a deque \<Rightarrow> bool" where
  "dq_wf d \<longleftrightarrow> 0 < d_elem d \<and> length (d_data d) = d_cap d \<and> d_cap d * d_elem d \<le> UINT_MAX \<and>
     d_len d \<le> d_cap d \<and> (if d_cap d = 0 then d_head d = 0 else d_head d < d_cap d \<and> (\<exists>k \<le> 31. d_cap d = 2 ^ k)) \<and>
     (\<forall>i < d_len d. d_data d ! ((d_head d + i) mod d_cap d) \<noteq> None)"

definition dq_list :: "'a deque \<Rightarrow> 'a list" where
  "dq_list d = map (\<lambda>i. the (d_data d ! ((d_head d + i) mod d_cap d))) [0..<d_len d]"

lemma length_dq_list [simp]: "length (dq_list d) = d_len d"
  by (simp add: dq_list_def)

lemma dq_cap_le: "dq_wf d \<Longrightarrow> d_cap d \<le> 2 ^ 31"
proof -
  assume wf: "dq_wf d"
  show ?thesis
  proof (cases "d_cap d = 0")
    case False
    then obtain k where "k \<le> 31" "d_cap d = 2 ^ k" using wf by (auto simp: dq_wf_def)
    then show ?thesis using power_increasing [of k 31 "2::nat"] by simp
  qed simp
qed

lemma slot_of_eq: "dq_wf d \<Longrightarrow> 0 < d_cap d \<Longrightarrow> i \<le> d_cap d \<Longrightarrow> slot_of d i = (d_head d + i) mod d_cap d"
proof -
  assume a: "dq_wf d" "0 < d_cap d" "i \<le> d_cap d"
  then have h: "d_head d < d_cap d" by (auto simp: dq_wf_def)
  have lt: "d_head d + i < U32" using h a(3) dq_cap_le [OF a(1)] by simp
  show ?thesis
  proof (cases "d_cap d \<le> d_head d + i")
    case True
    then have "(d_head d + i) mod d_cap d = d_head d + i - d_cap d"
      using h a(3) by (simp add: mod_if)
    then show ?thesis using lt True by (simp add: slot_of_def Let_def)
  qed (use lt in \<open>simp add: slot_of_def Let_def\<close>)
qed

lemma dq_data_slot: "dq_wf d \<Longrightarrow> i < d_len d \<Longrightarrow> d_data d ! slot_of d i = Some (dq_list d ! i)"
  using slot_of_eq [of d i] by (auto simp: dq_wf_def dq_list_def)

lemma dq_wfI:
  assumes "0 < d_elem d" "length (d_data d) = d_cap d" "d_cap d * d_elem d \<le> UINT_MAX" "0 < d_cap d"
    "d_head d < d_cap d" "\<exists>k \<le> 31. d_cap d = 2 ^ k" "d_len d = length xs" "length xs \<le> d_cap d"
    "\<And>i. i < length xs \<Longrightarrow> d_data d ! ((d_head d + i) mod d_cap d) = Some (xs ! i)"
  shows "dq_wf d" and "dq_list d = xs"
  using assms by (auto simp: dq_wf_def dq_list_def intro!: nth_equalityI)

lemma dq_init_wf: "e < U32 \<Longrightarrow> dq_wf (dq_init e)" "dq_list (dq_init e) = []"
  by (simp_all add: dq_wf_def dq_init_def dq_list_def)

lemma dq_clear_wf: "dq_wf d \<Longrightarrow> dq_wf (dq_clear d)" "dq_list (dq_clear d) = []"
  by (auto simp: dq_wf_def dq_clear_def dq_list_def)

lemma dq_free_wf: "dq_wf d \<Longrightarrow> dq_wf (dq_free d)" "dq_list (dq_free d) = []"
  by (auto simp: dq_wf_def dq_free_def dq_list_def)

section \<open>The operations\<close>

lemma dq_unwrap:
  assumes "dq_wf d" "\<exists>k \<le> 31. w = 2 ^ k" "w * d_elem d \<le> UINT_MAX" "d_len d < w"
  defines "d' \<equiv> d\<lparr>d_data := slots_put (slots_fresh w) 0 (map (\<lambda>i. d_data d ! slot_of d i) [0..<d_len d]),
      d_cap := w, d_head := 0\<rparr>"
  shows "dq_wf d'" and "dq_list d' = dq_list d"
proof -
  have xs: "map (\<lambda>i. d_data d ! slot_of d i) [0..<d_len d] = map Some (dq_list d)"
    by (rule nth_equalityI) (use dq_data_slot [OF assms(1)] in auto)
  have "0 < d_elem d" using assms(1) by (simp add: dq_wf_def)
  then show "dq_wf d'" "dq_list d' = dq_list d"
    using dq_wfI [of d' "dq_list d"] assms(2-4) by (simp_all add: d'_def xs slots_put_def nth_append)
qed

lemma dq_grow_cases:
  assumes "dq_wf d" "d_len d = d_cap d" "dq_grow al d = (d', r)"
  shows "dq_wf d' \<and> dq_list d' = dq_list d \<and> d_elem d' = d_elem d \<and> d_len d' = d_len d \<and>
    (r = 0 \<and> d_len d' < d_cap d' \<or> r = -1 \<and> d' = d)"
proof -
  let ?w = "if d_cap d = 0 then 4 else mul32 (d_cap d) 2"
  show ?thesis
  proof (cases "?w < d_cap d \<or> UINT_MAX div d_elem d < ?w \<or> \<not> al 0")
    case True
    then show ?thesis using assms by (auto simp: dq_grow_def Let_def split: if_splits)
  next
    case False
    let ?xs = "map (\<lambda>i. d_data d ! slot_of d i) [0..<d_len d]"
    have d': "d' = d\<lparr>d_data := slots_put (slots_fresh ?w) 0 ?xs, d_cap := ?w, d_head := 0\<rparr>" "r = 0"
      using False assms(3) by (auto simp: dq_grow_def Let_def split: if_splits)
    have w: "\<exists>k \<le> 31. ?w = 2 ^ k" "d_cap d < ?w"
    proof -
      have "(\<exists>k \<le> 31. ?w = 2 ^ k) \<and> d_cap d < ?w"
      proof (cases "d_cap d = 0")
        case True
        then show ?thesis by (auto intro: exI [of _ 2])
      next
        case nz: False
        then obtain k where k: "k \<le> 31" "d_cap d = 2 ^ k" using assms(1) by (auto simp: dq_wf_def)
        have lt: "d_cap d < 2 ^ 31"
          using False nz mul32_double_wraps [of "d_cap d"] dq_cap_le [OF assms(1)] by force
        then have "k < 31" using k by (metis power_less_imp_less_exp one_less_numeral_iff semiring_norm(76))
        then show ?thesis using nz lt k by (auto simp: mul32_double intro: exI [of _ "Suc k"])
      qed
      then show "\<exists>k \<le> 31. ?w = 2 ^ k" "d_cap d < ?w" by blast+
    qed
    have e: "0 < d_elem d" using assms(1) by (simp add: dq_wf_def)
    then have "?w * d_elem d \<le> UINT_MAX" using False by (simp add: not_less less_eq_div_iff_mult_less_eq)
    then have "dq_wf d' \<and> dq_list d' = dq_list d"
      unfolding d'(1) using dq_unwrap [OF assms(1) w(1)] w(2) assms(2) by simp
    then show ?thesis using d' w assms(2) by simp
  qed
qed

lemma dq_room_cases:
  assumes "dq_wf d" "(if d_len d = d_cap d then dq_grow al d else (d, 0)) = (d', r)"
  shows "dq_wf d' \<and> dq_list d' = dq_list d \<and> d_elem d' = d_elem d \<and>
    (r = 0 \<and> d_len d' < d_cap d' \<or> r = -1 \<and> d' = d)"
proof (cases "d_len d = d_cap d")
  case False
  then have "d_len d < d_cap d" using assms(1) by (simp add: dq_wf_def)
  then show ?thesis using assms False by auto
next
  case True
  then show ?thesis using assms(2) dq_grow_cases [OF assms(1) True, of al d' r] by auto
qed

lemma dq_push_back_cases:
  assumes "dq_wf d" "dq_push_back al d x = (d', r)"
  shows "dq_wf d' \<and> (r = 0 \<and> dq_list d' = dq_list d @ [x] \<or> r = -1 \<and> d' = d)"
proof -
  obtain d1 r1 where m: "(if d_len d = d_cap d then dq_grow al d else (d, 0)) = (d1, r1)" by fastforce
  note c = dq_room_cases [OF assms(1) m]
  show ?thesis
  proof (cases "r1 = 0")
    case False
    then show ?thesis using c assms m by (simp add: dq_push_back_def)
  next
    case True
    then have wf: "dq_wf d1" and lt: "d_len d1 < d_cap d1" and l: "dq_list d1 = dq_list d" using c by auto
    let ?s = "(d_head d1 + d_len d1) mod d_cap d1"
    have d': "d' = d1\<lparr>d_data := (d_data d1)[?s := Some x], d_len := d_len d1 + 1\<rparr>" "r = 0"
      using assms(2) m True slot_of_eq [OF wf, of "d_len d1"] lt by (auto simp: dq_push_back_def Let_def)
    have "(d_data d1)[?s := Some x] ! ((d_head d1 + i) mod d_cap d1) = Some ((dq_list d1 @ [x]) ! i)"
      if "i < Suc (d_len d1)" for i
    proof (cases "i = d_len d1")
      case True
      then show ?thesis using wf lt by (simp add: dq_wf_def nth_append)
    next
      case False
      then have i: "i < d_len d1" using that by simp
      then have "?s \<noteq> (d_head d1 + i) mod d_cap d1" using window_inj [OF i lt] by metis
      then show ?thesis using i dq_data_slot [OF wf i] slot_of_eq [OF wf, of i] lt by (simp add: nth_append)
    qed
    then have "dq_wf d' \<and> dq_list d' = dq_list d1 @ [x]"
      using dq_wfI [of d' "dq_list d1 @ [x]"] wf lt d'(1) by (auto simp: dq_wf_def)
    then show ?thesis using d' l by simp
  qed
qed

lemma dq_push_front_cases:
  assumes "dq_wf d" "dq_push_front al d x = (d', r)"
  shows "dq_wf d' \<and> (r = 0 \<and> dq_list d' = x # dq_list d \<or> r = -1 \<and> d' = d)"
proof -
  obtain d1 r1 where m: "(if d_len d = d_cap d then dq_grow al d else (d, 0)) = (d1, r1)" by fastforce
  note c = dq_room_cases [OF assms(1) m]
  show ?thesis
  proof (cases "r1 = 0")
    case False
    then show ?thesis using c assms m by (simp add: dq_push_front_def)
  next
    case True
    then have wf: "dq_wf d1" and lt: "d_len d1 < d_cap d1" and l: "dq_list d1 = dq_list d" using c by auto
    let ?h = "if d_head d1 = 0 then d_cap d1 - 1 else d_head d1 - 1"
    have d': "d' = d1\<lparr>d_head := ?h, d_data := (d_data d1)[?h := Some x], d_len := d_len d1 + 1\<rparr>" "r = 0"
      using assms(2) m True by (auto simp: dq_push_front_def Let_def)
    have hd: "d_head d1 < d_cap d1" using wf lt by (auto simp: dq_wf_def)
    then have h: "?h < d_cap d1" and hs: "?h + 1 = d_head d1 \<or> ?h + 1 = d_cap d1 \<and> d_head d1 = 0" by auto
    have step: "(?h + Suc i) mod d_cap d1 = (d_head d1 + i) mod d_cap d1" for i
      using hs by (metis add.commute add_Suc_shift mod_add_self1 plus_1_eq_Suc add_0)
    have "(d_data d1)[?h := Some x] ! ((?h + i) mod d_cap d1) = Some ((x # dq_list d1) ! i)"
      if "i < Suc (d_len d1)" for i
    proof (cases i)
      case 0
      then show ?thesis using wf h by (simp add: dq_wf_def)
    next
      case (Suc j)
      then have j: "j < d_len d1" using that by simp
      have "?h mod d_cap d1 \<noteq> (?h + Suc j) mod d_cap d1"
        using window_inj [of 0 "Suc j" "d_cap d1" ?h] j lt by simp
      then have "?h \<noteq> (?h + Suc j) mod d_cap d1" using h by simp
      then show ?thesis
        using j dq_data_slot [OF wf j] slot_of_eq [OF wf, of j] lt step [of j] Suc by simp
    qed
    then have "dq_wf d' \<and> dq_list d' = x # dq_list d1"
      using dq_wfI [of d' "x # dq_list d1"] wf lt d'(1) h by (auto simp: dq_wf_def)
    then show ?thesis using d' l by simp
  qed
qed

lemma dq_pop_back_spec:
  assumes "dq_wf d"
  shows "dq_wf (fst (dq_pop_back d)) \<and> dq_list (fst (dq_pop_back d)) = butlast (dq_list d) \<and>
    snd (dq_pop_back d) = (if dq_list d = [] then (-1, None) else (0, Some (last (dq_list d))))"
proof (cases "d_len d = 0")
  case True
  then have "dq_list d = []" using length_dq_list [of d] by (metis length_0_conv)
  then show ?thesis using assms True by (simp add: dq_pop_back_def)
next
  case False
  then have ne: "dq_list d \<noteq> []" using length_dq_list [of d] by (metis length_0_conv)
  have "dq_list (d\<lparr>d_len := d_len d - 1\<rparr>) = butlast (dq_list d)"
    using False by (auto simp: dq_list_def butlast_conv_take take_map min_def)
  moreover have "dq_wf (d\<lparr>d_len := d_len d - 1\<rparr>)" using assms by (auto simp: dq_wf_def)
  moreover have "d_data d ! slot_of d (d_len d - 1) = Some (last (dq_list d))"
    using dq_data_slot [OF assms, of "d_len d - 1"] False ne by (simp add: last_conv_nth)
  ultimately show ?thesis using False ne by (simp add: dq_pop_back_def Let_def)
qed

lemma dq_pop_front_spec:
  assumes "dq_wf d"
  shows "dq_wf (fst (dq_pop_front d)) \<and> dq_list (fst (dq_pop_front d)) = tl (dq_list d) \<and>
    snd (dq_pop_front d) = (if dq_list d = [] then (-1, None) else (0, Some (hd (dq_list d))))"
proof (cases "d_len d = 0")
  case True
  then have "dq_list d = []" using length_dq_list [of d] by (metis length_0_conv)
  then show ?thesis using assms True by (simp add: dq_pop_front_def)
next
  case False
  then have ne: "dq_list d \<noteq> []" using length_dq_list [of d] by (metis length_0_conv)
  have cap: "0 < d_cap d" using False assms by (auto simp: dq_wf_def)
  then have h: "d_head d < d_cap d" using assms by (auto simp: dq_wf_def)
  let ?d = "d\<lparr>d_head := slot_of d 1, d_len := d_len d - 1\<rparr>"
  have s: "slot_of d 1 = (d_head d + 1) mod d_cap d" using slot_of_eq [OF assms cap, of 1] cap by simp
  have step: "((d_head d + 1) mod d_cap d + i) mod d_cap d = (d_head d + Suc i) mod d_cap d" for i
    by (simp add: mod_add_left_eq)
  have "dq_list ?d = tl (dq_list d)"
    by (rule nth_equalityI) (use False step s in \<open>auto simp: dq_list_def nth_tl\<close>)
  moreover have "dq_wf ?d"
  proof -
    have "d_data d ! ((d_head d + Suc i) mod d_cap d) \<noteq> None" if "i < d_len d - 1" for i
    proof -
      have "Suc i < d_len d" using that by simp
      then show ?thesis using assms unfolding dq_wf_def by blast
    qed
    then show ?thesis using assms cap h s step by (auto simp del: add_Suc_right simp add: dq_wf_def)
  qed
  moreover have "d_data d ! d_head d = Some (hd (dq_list d))"
    using dq_data_slot [OF assms, of 0] slot_of_eq [OF assms cap, of 0] False h ne by (simp add: hd_conv_nth)
  ultimately show ?thesis using False ne by (simp add: dq_pop_front_def)
qed

section \<open>Properties\<close>

text \<open>
  C7: a deque refines a list with both ends open: pushes at either end (through a growth that unwraps
  the circle or past its seam), pops at either end and indexing do on the list what their names say,
  and a push that cannot allocate changes nothing.
\<close>

theorem deque_refines_list:
  assumes "dq_wf d"
  shows "(case dq_push_back al d x of (d', r) \<Rightarrow>
      dq_wf d' \<and> (if r = 0 then dq_list d' = dq_list d @ [x] else r = -1 \<and> d' = d)) \<and>
    (case dq_push_front al d x of (d', r) \<Rightarrow>
      dq_wf d' \<and> (if r = 0 then dq_list d' = x # dq_list d else r = -1 \<and> d' = d)) \<and>
    (case dq_pop_back d of (d', c) \<Rightarrow> dq_wf d' \<and> dq_list d' = butlast (dq_list d) \<and>
      c = (if dq_list d = [] then (-1, None) else (0, Some (last (dq_list d))))) \<and>
    (case dq_pop_front d of (d', c) \<Rightarrow> dq_wf d' \<and> dq_list d' = tl (dq_list d) \<and>
      c = (if dq_list d = [] then (-1, None) else (0, Some (hd (dq_list d))))) \<and>
    (case dq_at d i of None \<Rightarrow> length (dq_list d) \<le> i
     | Some p \<Rightarrow> i < length (dq_list d) \<and> d_data d ! p = Some (dq_list d ! i))"
proof -
  obtain d1 r1 d2 r2 where p: "dq_push_back al d x = (d1, r1)" "dq_push_front al d x = (d2, r2)"
    by fastforce
  show ?thesis
    using dq_push_back_cases [OF assms p(1)] dq_push_front_cases [OF assms p(2)] p
      dq_pop_back_spec [OF assms] dq_pop_front_spec [OF assms] dq_data_slot [OF assms]
    by (auto simp: split_beta dq_at_def)
qed

theorem deque_refines_list_witness:
  "dq_wf (dq_init 4 :: nat deque) \<and>
   (case dq_push_front (\<lambda>_. True) (dq_init 4) (7 :: nat) of (d', r) \<Rightarrow> r = 0 \<and> dq_list d' = [7])"
proof -
  have wf: "dq_wf (dq_init 4 :: nat deque)" by (rule dq_init_wf) simp
  have l: "dq_list (dq_init 4 :: nat deque) = []" by (rule dq_init_wf)
  have r: "snd (dq_push_front (\<lambda>_. True) (dq_init 4) (7 :: nat)) = 0"
    by (simp add: dq_push_front_def dq_grow_def dq_init_def Let_def)
  show ?thesis using deque_refines_list [OF wf, where al = "\<lambda>_. True" and x = 7 and i = 0] wf r l by (auto split: prod.splits)
qed

end
