(* ===== verification/Heap_Sift.thy ===== *)
theory Heap_Sift
  imports Prelude
begin

text \<open>
  \<open>src/ceres/ds/heap_priv.h\<close>: the two sifts of a binary heap, macros over "compare heap slots \<open>i\<close> and
  \<open>j\<close>" and "exchange them" (\<open>LESS\<close> and \<open>SWAP\<close>). The macros are functions over those two operations on
  any state; the locale \<open>sift_ops\<close> is what a caller has to supply, and under it the sifts restore the
  heap order. Indices are at most the length of a buffer, whose byte size the allocator bounds by
  2^30, so \<open>2 * i + 2\<close> does not wrap.
\<close>

section \<open>The sifts\<close>

definition parent :: "nat \<Rightarrow> nat" where
  "parent i = (i - 1) div 2"

lemma parent_iff: "0 < i \<Longrightarrow> parent i = k \<longleftrightarrow> i = 2 * k + 1 \<or> i = 2 * k + 2"
  by (auto simp: parent_def)

lemma parent_less [simp]: "0 < i \<Longrightarrow> parent i < i"
  by (auto simp: parent_def)

lemma parent_lt [simp]: "0 < i \<Longrightarrow> i < n \<Longrightarrow> parent i < n"
  using parent_less [of i] by linarith

lemma parent_neq [simp]: "0 < i \<Longrightarrow> parent i \<noteq> i"
  using parent_less by (metis less_irrefl)

lemma parent_neq2 [simp]: "0 < i \<Longrightarrow> i \<noteq> parent i"
  using parent_less by (metis less_irrefl)

function heap_sift_up :: "('s \<Rightarrow> nat \<Rightarrow> nat \<Rightarrow> int) \<Rightarrow> ('s \<Rightarrow> nat \<Rightarrow> nat \<Rightarrow> 's) \<Rightarrow> 's \<Rightarrow> nat \<Rightarrow> 's" where
  "heap_sift_up lss swap s i =
     (if 0 < i
      then let p = parent i
           in if 0 \<le> lss s i p then s else heap_sift_up lss swap (swap s i p) p
      else s)"
  by pat_completeness auto
termination
  by (relation "measure (\<lambda>(lss, swap, s, i). i)") (auto simp: parent_less)

definition sift_best :: "('s \<Rightarrow> nat \<Rightarrow> nat \<Rightarrow> int) \<Rightarrow> nat \<Rightarrow> 's \<Rightarrow> nat \<Rightarrow> nat" where
  "sift_best lss n s i =
     (let l = 2 * i + 1; r = l + 1;
          best = (if l < n \<and> lss s l i < 0 then l else i)
      in if r < n \<and> lss s r best < 0 then r else best)"

function heap_sift_down :: "('s \<Rightarrow> nat \<Rightarrow> nat \<Rightarrow> int) \<Rightarrow> ('s \<Rightarrow> nat \<Rightarrow> nat \<Rightarrow> 's) \<Rightarrow> nat \<Rightarrow> 's \<Rightarrow> nat \<Rightarrow> 's" where
  "heap_sift_down lss swap n s i =
     (let best = sift_best lss n s i
      in if best = i then s else heap_sift_down lss swap n (swap s i best) best)"
  by pat_completeness auto
termination
  by (relation "measure (\<lambda>(lss, swap, n, s, i). n - i)") (auto simp: sift_best_def Let_def split: if_splits)

declare heap_sift_up.simps [simp del] heap_sift_down.simps [simp del]

section \<open>Heap order\<close>

definition is_heap :: "'a comparator \<Rightarrow> 'a list \<Rightarrow> bool" where
  "is_heap cmp xs \<longleftrightarrow> (\<forall>i. 0 < i \<longrightarrow> i < length xs \<longrightarrow> cmp (xs ! parent i) (xs ! i) \<le> 0)"

text \<open>The heap order but for slot \<open>k\<close>, which may be out of place in either direction.\<close>

definition heap_but :: "'a comparator \<Rightarrow> 'a list \<Rightarrow> nat \<Rightarrow> bool" where
  "heap_but cmp xs k \<longleftrightarrow>
     (\<forall>i. 0 < i \<longrightarrow> i < length xs \<longrightarrow> i \<noteq> k \<longrightarrow> parent i \<noteq> k \<longrightarrow> cmp (xs ! parent i) (xs ! i) \<le> 0) \<and>
     (\<forall>i. 0 < i \<longrightarrow> i < length xs \<longrightarrow> parent i = k \<longrightarrow> 0 < k \<longrightarrow> cmp (xs ! parent k) (xs ! i) \<le> 0)"

definition below_ok :: "'a comparator \<Rightarrow> 'a list \<Rightarrow> nat \<Rightarrow> bool" where
  "below_ok cmp xs k \<longleftrightarrow> (\<forall>i. 0 < i \<longrightarrow> i < length xs \<longrightarrow> parent i = k \<longrightarrow> cmp (xs ! k) (xs ! i) \<le> 0)"

definition above_ok :: "'a comparator \<Rightarrow> 'a list \<Rightarrow> nat \<Rightarrow> bool" where
  "above_ok cmp xs k \<longleftrightarrow> (0 < k \<longrightarrow> k < length xs \<longrightarrow> cmp (xs ! parent k) (xs ! k) \<le> 0)"

lemma is_heapI: "heap_but cmp xs k \<Longrightarrow> below_ok cmp xs k \<Longrightarrow> above_ok cmp xs k \<Longrightarrow> is_heap cmp xs"
  unfolding is_heap_def heap_but_def below_ok_def above_ok_def by metis

context total_cmp
begin

lemma heap_min:
  assumes "is_heap cmp xs" "i < length xs"
  shows "cmp (xs ! 0) (xs ! i) \<le> 0"
  using assms(2)
proof (induction i rule: less_induct)
  case (less i)
  show ?case
  proof (cases "i = 0")
    case False
    then have "cmp (xs ! 0) (xs ! parent i) \<le> 0" using less by (intro less.IH) (auto simp: parent_less dest: parent_less)
    moreover have "cmp (xs ! parent i) (xs ! i) \<le> 0" using assms(1) less False by (simp add: is_heap_def)
    ultimately show ?thesis by (rule cmp_trans)
  qed simp
qed

lemma is_heap_heap_but: "is_heap cmp xs \<Longrightarrow> k < length xs \<Longrightarrow> heap_but cmp xs k"
  unfolding heap_but_def is_heap_def
proof (intro conjI allI impI)
  fix i
  assume h: "\<forall>i>0. i < length xs \<longrightarrow> cmp (xs ! parent i) (xs ! i) \<le> 0"
    and i: "0 < i" "i < length xs" "parent i = k" "0 < k" and k: "k < length xs"
  have "cmp (xs ! parent k) (xs ! k) \<le> 0" "cmp (xs ! k) (xs ! i) \<le> 0" using h i k by auto
  then show "cmp (xs ! parent k) (xs ! i) \<le> 0" by (rule cmp_trans)
qed auto

text \<open>Replacing one element keeps everything but its own edges.\<close>

lemma heap_but_update: "heap_but cmp xs k \<Longrightarrow> heap_but cmp (xs[k := x]) k"
proof (cases "k < length xs")
  case True
  assume h: "heap_but cmp xs k"
  show ?thesis
    unfolding heap_but_def
  proof (intro conjI allI impI)
    fix i
    assume "0 < i" "i < length (xs[k := x])" "parent i = k" "0 < k"
    moreover from this have "k \<noteq> parent k" "i \<noteq> k" using parent_less by (metis less_irrefl)+
    ultimately show "cmp (xs[k := x] ! parent k) (xs[k := x] ! i) \<le> 0"
      using h by (simp add: heap_but_def)
  qed (use h in \<open>simp add: heap_but_def\<close>)
qed (simp add: list_update_beyond)

lemma heap_up_step:
  assumes "heap_but cmp xs k" "below_ok cmp xs k" "0 < k" "k < length xs" "cmp (xs ! k) (xs ! parent k) < 0"
  defines "p \<equiv> parent k"
  defines "ys \<equiv> xs[k := xs ! p, p := xs ! k]"
  shows "heap_but cmp ys p" and "below_ok cmp ys p"
proof -
  have p: "p < k" "p < length xs" using assms(3,4) by (auto simp: p_def)
  have ys_k: "ys ! k = xs ! p" and ys_p: "ys ! p = xs ! k"
    and ys: "i \<noteq> k \<Longrightarrow> i \<noteq> p \<Longrightarrow> ys ! i = xs ! i" for i
    using p assms(4) by (simp_all add: ys_def)
  have len: "length ys = length xs" by (simp add: ys_def)
  have le: "cmp (xs ! k) (xs ! p) \<le> 0" using assms(5) by (simp add: p_def)
  have sib: "cmp (xs ! p) (xs ! i) \<le> 0" if "0 < i" "i < length xs" "parent i = p" "i \<noteq> k" for i
    using assms(1) that p by (auto simp: heap_but_def)
  show "below_ok cmp ys p"
    unfolding below_ok_def
  proof (intro allI impI)
    fix i assume i: "0 < i" "i < length ys" "parent i = p"
    then have "i \<noteq> p" using parent_less by (metis less_irrefl)
    then show "cmp (ys ! p) (ys ! i) \<le> 0"
      using cmp_trans [OF le sib [of i]] i le len by (cases "i = k") (simp_all add: ys_p ys_k ys)
  qed
  show "heap_but cmp ys p"
    unfolding heap_but_def
  proof (intro conjI allI impI)
    fix i assume i: "0 < i" "i < length ys" "i \<noteq> p" "parent i \<noteq> p"
    then have ik: "i \<noteq> k" by (auto simp: p_def)
    show "cmp (ys ! parent i) (ys ! i) \<le> 0"
    proof (cases "parent i = k")
      case True
      then have "cmp (xs ! p) (xs ! i) \<le> 0" using assms(1,3) i len by (simp add: heap_but_def p_def)
      then show ?thesis using True i ik by (simp add: ys_k ys)
    next
      case False
      then show ?thesis using assms(1) i ik len by (simp add: heap_but_def ys)
    qed
  next
    fix i assume i: "0 < i" "i < length ys" "parent i = p" "0 < p"
    then have ip: "i \<noteq> p" using parent_less by (metis less_irrefl)
    have pp: "parent p < p" using i(4) by (rule parent_less)
    then have ppk: "parent p \<noteq> k" "parent p \<noteq> p" using p by auto
    have up: "cmp (xs ! parent p) (xs ! p) \<le> 0"
      using assms(1) p i(4) ppk by (auto simp: heap_but_def)
    have "cmp (xs ! parent p) (xs ! i) \<le> 0" if "i \<noteq> k"
      using cmp_trans [OF up sib [of i]] i that len by simp
    then show "cmp (ys ! parent p) (ys ! i) \<le> 0"
      using up ip ppk by (cases "i = k") (simp_all add: ys_k ys)
  qed
qed

lemma heap_down_step:
  assumes "heap_but cmp xs k" "above_ok cmp xs k" "0 < c" "c < length xs" "parent c = k"
    "cmp (xs ! c) (xs ! k) < 0" "\<And>i. 0 < i \<Longrightarrow> i < length xs \<Longrightarrow> parent i = k \<Longrightarrow> cmp (xs ! c) (xs ! i) \<le> 0"
  defines "ys \<equiv> xs[k := xs ! c, c := xs ! k]"
  shows "heap_but cmp ys c" and "above_ok cmp ys c"
proof -
  have k: "k < c" "k < length xs" using assms(3-5) by auto
  have ys_k: "ys ! k = xs ! c" and ys_c: "ys ! c = xs ! k"
    and ys: "i \<noteq> k \<Longrightarrow> i \<noteq> c \<Longrightarrow> ys ! i = xs ! i" for i
    using k assms(4) by (simp_all add: ys_def)
  have len: "length ys = length xs" by (simp add: ys_def)
  show "above_ok cmp ys c" using assms(5,6) by (simp add: above_ok_def ys_c ys_k)
  show "heap_but cmp ys c"
    unfolding heap_but_def
  proof (intro conjI allI impI)
    fix i assume i: "0 < i" "i < length ys" "i \<noteq> c" "parent i \<noteq> c"
    show "cmp (ys ! parent i) (ys ! i) \<le> 0"
    proof (cases "parent i = k")
      case True
      then have "i \<noteq> k" using i parent_less by (metis less_irrefl)
      then show ?thesis using assms(7) [of i] True i len by (simp add: ys_k ys)
    next
      case pk: False
      show ?thesis
      proof (cases "i = k")
        case True
        then have "cmp (xs ! parent k) (xs ! c) \<le> 0" using assms(1,3-5) i by (simp add: heap_but_def)
        then show ?thesis using True i pk by (simp add: ys_k ys)
      next
        case False
        then show ?thesis using assms(1) i pk len by (simp add: heap_but_def ys)
      qed
    qed
  next
    fix i assume i: "0 < i" "i < length ys" "parent i = c" "0 < c"
    then have ic: "c < i" using parent_less by metis
    then have "cmp (xs ! c) (xs ! i) \<le> 0" using assms(1) i k len by (auto simp: heap_but_def)
    then show "cmp (ys ! parent c) (ys ! i) \<le> 0"
      using assms(5) ic k by (simp add: ys_k ys)
  qed
qed

end

section \<open>What the sifts do\<close>

locale sift_ops = total_cmp cmp for cmp :: "'a comparator" +
  fixes lss :: "'s \<Rightarrow> nat \<Rightarrow> nat \<Rightarrow> int"
    and swap :: "'s \<Rightarrow> nat \<Rightarrow> nat \<Rightarrow> 's"
    and items :: "'s \<Rightarrow> 'a list"
    and wf :: "'s \<Rightarrow> bool"
  assumes less_items: "wf s \<Longrightarrow> i < length (items s) \<Longrightarrow> j < length (items s) \<Longrightarrow>
      lss s i j = cmp (items s ! i) (items s ! j)"
    and swap_items: "wf s \<Longrightarrow> i < length (items s) \<Longrightarrow> j < length (items s) \<Longrightarrow> i \<noteq> j \<Longrightarrow>
      items (swap s i j) = (items s)[i := items s ! j, j := items s ! i]"
    and swap_wf: "wf s \<Longrightarrow> i < length (items s) \<Longrightarrow> j < length (items s) \<Longrightarrow> i \<noteq> j \<Longrightarrow> wf (swap s i j)"
begin

lemma sift_up_spec:
  assumes "wf s" "k < length (items s)" "heap_but cmp (items s) k" "below_ok cmp (items s) k"
  shows "wf (heap_sift_up lss swap s k) \<and> is_heap cmp (items (heap_sift_up lss swap s k)) \<and>
    mset (items (heap_sift_up lss swap s k)) = mset (items s)"
  using assms
proof (induction k arbitrary: s rule: less_induct)
  case (less k)
  let ?p = "parent k"
  show ?case
  proof (cases "0 < k \<and> lss s k ?p < 0")
    case False
    then have "heap_sift_up lss swap s k = s" by (subst heap_sift_up.simps) (auto simp: Let_def)
    moreover have "above_ok cmp (items s) k"
      unfolding above_ok_def
    proof (intro impI)
      assume "0 < k" "k < length (items s)"
      then have "0 \<le> cmp (items s ! k) (items s ! ?p)" using False less.prems less_items [of s k ?p] by auto
      then show "cmp (items s ! ?p) (items s ! k) \<le> 0" by (simp add: cmp_le_iff)
    qed
    ultimately show ?thesis using less.prems is_heapI by auto
  next
    case True
    then have p: "?p < k" "?p < length (items s)" "k \<noteq> ?p" using less.prems by auto
    have lt: "cmp (items s ! k) (items s ! ?p) < 0" using True less.prems less_items [of s k ?p] p by simp
    let ?s = "swap s k ?p"
    have it: "items ?s = (items s)[k := items s ! ?p, ?p := items s ! k]"
      using swap_items [of s k ?p] less.prems p by simp
    have "heap_but cmp (items ?s) ?p" "below_ok cmp (items ?s) ?p"
      using heap_up_step [OF less.prems(3,4) _ less.prems(2) lt] True by (simp_all only: it)
    then have IH: "wf (heap_sift_up lss swap ?s ?p) \<and> is_heap cmp (items (heap_sift_up lss swap ?s ?p)) \<and>
        mset (items (heap_sift_up lss swap ?s ?p)) = mset (items ?s)"
      using less.IH [of ?p ?s] swap_wf [of s k ?p] less.prems p it by simp
    have "mset (items ?s) = mset (items s)" using mset_swap2 [of k "items s" ?p] less.prems p it by simp
    moreover have "heap_sift_up lss swap s k = heap_sift_up lss swap ?s ?p"
      using True by (subst heap_sift_up.simps) (simp add: Let_def)
    ultimately show ?thesis using IH by simp
  qed
qed

lemma sift_best_spec:
  assumes "wf s" "k < length (items s)" "n = length (items s)"
  defines "b \<equiv> sift_best lss n s k"
  shows "b = k \<and> below_ok cmp (items s) k \<or>
    0 < b \<and> b < n \<and> parent b = k \<and> b \<noteq> k \<and> cmp (items s ! b) (items s ! k) < 0 \<and>
    (\<forall>i. 0 < i \<longrightarrow> i < n \<longrightarrow> parent i = k \<longrightarrow> cmp (items s ! b) (items s ! i) \<le> 0)"
proof -
  let ?x = "items s" and ?l = "2 * k + 1" and ?r = "2 * k + 2"
  define m where "m = (if ?l < n \<and> lss s ?l k < 0 then ?l else k)"
  have m: "m < n" "lss s ?l k < 0 \<longleftrightarrow> cmp (?x ! ?l) (?x ! k) < 0" if "?l < n"
    using that assms(1-3) less_items by (auto simp: m_def)
  have mk: "m < n" using assms(2,3) by (auto simp: m_def)
  have r: "lss s ?r m < 0 \<longleftrightarrow> cmp (?x ! ?r) (?x ! m) < 0" if "?r < n"
    using that mk assms(1,3) less_items by auto
  have b: "b = (if ?r < n \<and> lss s ?r m < 0 then ?r else m)"
    by (simp add: b_def sift_best_def m_def Let_def)
  have kids: "i = ?l \<or> i = ?r" if "0 < i" "parent i = k" for i using that parent_iff by blast
  have km: "cmp (?x ! m) (?x ! k) \<le> 0" using m(2) by (auto simp: m_def)
  have lm: "cmp (?x ! m) (?x ! ?l) \<le> 0" if "?l < n"
    using m(2) [OF that] that by (auto simp: m_def cmp_le_iff not_less)
  have all: "\<forall>i. 0 < i \<longrightarrow> i < n \<longrightarrow> parent i = k \<longrightarrow> cmp (?x ! j) (?x ! i) \<le> 0"
    if "?l < n \<Longrightarrow> cmp (?x ! j) (?x ! ?l) \<le> 0" "?r < n \<Longrightarrow> cmp (?x ! j) (?x ! ?r) \<le> 0" for j
  proof (intro allI impI)
    fix i assume i: "0 < i" "i < n" "parent i = k"
    from kids [OF i(1,3)] show "cmp (?x ! j) (?x ! i) \<le> 0"
      by (elim disjE) (use i that in simp_all)
  qed
  have par: "parent ?l = k" "parent ?r = k" using parent_iff [of ?l k] parent_iff [of ?r k] by simp_all
  show ?thesis
  proof (cases "?r < n \<and> cmp (?x ! ?r) (?x ! m) < 0")
    case True
    then have br: "b = ?r" using b r by simp
    have l: "?l < n" using True by simp
    have "cmp (?x ! ?r) (?x ! k) < 0" using True km cmp_less_trans by blast
    moreover have "cmp (?x ! ?r) (?x ! ?l) \<le> 0"
      using True cmp_less_trans [OF _ lm [OF l], of "?x ! ?r"] by simp
    then have "\<forall>i. 0 < i \<longrightarrow> i < n \<longrightarrow> parent i = k \<longrightarrow> cmp (?x ! ?r) (?x ! i) \<le> 0"
      by (intro all) simp_all
    moreover have "0 < ?r" "?r \<noteq> k" by simp_all
    ultimately show ?thesis unfolding br using True par(2) by blast
  next
    case False
    then have bm: "b = m" using b r by auto
    have rm: "cmp (?x ! m) (?x ! ?r) \<le> 0" if "?r < n" using False that by (simp add: cmp_le_iff not_less)
    note am = all [of m, OF lm rm]
    show ?thesis
    proof (cases "m = k")
      case True
      then show ?thesis using bm am assms(3) by (simp add: below_ok_def)
    next
      case False
      then have ml: "m = ?l" "?l < n" "cmp (?x ! ?l) (?x ! k) < 0" using m(2) by (auto simp: m_def split: if_splits)
      have "0 < ?l" "?l \<noteq> k" by simp_all
      then show ?thesis unfolding bm using ml am par(1) by metis
    qed
  qed
qed

lemma sift_down_spec:
  assumes "wf s" "k < length (items s)" "heap_but cmp (items s) k" "above_ok cmp (items s) k"
    "n = length (items s)"
  shows "wf (heap_sift_down lss swap n s k) \<and> is_heap cmp (items (heap_sift_down lss swap n s k)) \<and>
    mset (items (heap_sift_down lss swap n s k)) = mset (items s)"
  using assms
proof (induction "n - k" arbitrary: s k rule: less_induct)
  case less
  define b where "b = sift_best lss n s k"
  note sb = sift_best_spec [OF less.prems(1,2,5), folded b_def]
  show ?case
  proof (cases "b = k")
    case True
    then have "heap_sift_down lss swap n s k = s" by (subst heap_sift_down.simps) (simp add: b_def)
    moreover have "below_ok cmp (items s) k" using sb True by auto
    ultimately show ?thesis using less.prems is_heapI by auto
  next
    case False
    then have b: "0 < b" "b < length (items s)" "parent b = k" "k \<noteq> b" "k < b" "cmp (items s ! b) (items s ! k) < 0"
      "\<And>i. 0 < i \<Longrightarrow> i < length (items s) \<Longrightarrow> parent i = k \<Longrightarrow> cmp (items s ! b) (items s ! i) \<le> 0"
    proof -
      from sb False have *: "0 < b \<and> b < n \<and> parent b = k \<and> b \<noteq> k \<and> cmp (items s ! b) (items s ! k) < 0 \<and>
          (\<forall>i. 0 < i \<longrightarrow> i < n \<longrightarrow> parent i = k \<longrightarrow> cmp (items s ! b) (items s ! i) \<le> 0)" by blast
      show "0 < b" "b < length (items s)" "parent b = k" "k \<noteq> b" "cmp (items s ! b) (items s ! k) < 0"
        using * less.prems(5) by simp_all
      show "k < b" using * parent_less [of b] by simp
      show "\<And>i. 0 < i \<Longrightarrow> i < length (items s) \<Longrightarrow> parent i = k \<Longrightarrow> cmp (items s ! b) (items s ! i) \<le> 0"
        using * less.prems(5) by blast
    qed
    let ?s = "swap s k b"
    have it: "items ?s = (items s)[k := items s ! b, b := items s ! k]"
      using swap_items [of s k b] less.prems b by simp
    have "heap_but cmp (items ?s) b" "above_ok cmp (items ?s) b"
      unfolding it by (rule heap_down_step [OF less.prems(3,4) b(1-3,6,7)], assumption+)+
    moreover have "n - b < n - k" using b(2,5) less.prems(5) by (metis diff_less_mono2 less_trans)
    moreover have "wf ?s" by (rule swap_wf [OF less.prems(1,2) b(2,4)])
    moreover have "b < length (items ?s)" "n = length (items ?s)"
      using b(2) less.prems(5) unfolding it length_list_update .
    ultimately have IH: "wf (heap_sift_down lss swap n ?s b) \<and> is_heap cmp (items (heap_sift_down lss swap n ?s b)) \<and>
        mset (items (heap_sift_down lss swap n ?s b)) = mset (items ?s)"
      by (intro less.hyps)
    have "mset (items ?s) = mset (items s)" using mset_swap2 [of k "items s" b] less.prems b it by simp
    moreover have "heap_sift_down lss swap n s k = heap_sift_down lss swap n ?s b"
      using False by (subst heap_sift_down.simps) (simp add: b_def Let_def)
    ultimately show ?thesis using IH by simp
  qed
qed

lemma length_items_swap:
  "wf s \<Longrightarrow> i < length (items s) \<Longrightarrow> j < length (items s) \<Longrightarrow> i \<noteq> j \<Longrightarrow>
     length (items (swap s i j)) = length (items s)"
  by (simp add: swap_items)

text \<open>What every exchange keeps, the sifts keep.\<close>

lemma sift_up_keeps:
  assumes "\<And>s i j. P s \<Longrightarrow> wf s \<Longrightarrow> i < length (items s) \<Longrightarrow> j < length (items s) \<Longrightarrow> i \<noteq> j \<Longrightarrow> P (swap s i j)"
    and "wf s" "k < length (items s)" "P s"
  shows "P (heap_sift_up lss swap s k) \<and> wf (heap_sift_up lss swap s k)"
  using assms(2-4)
proof (induction k arbitrary: s rule: less_induct)
  case (less k)
  show ?case
  proof (cases "0 < k \<and> lss s k (parent k) < 0")
    case False
    then have "heap_sift_up lss swap s k = s" by (subst heap_sift_up.simps) (auto simp: Let_def)
    then show ?thesis using less.prems by simp
  next
    case True
    then have "parent k < k" "parent k < length (items s)" "k \<noteq> parent k" using less.prems by auto
    moreover have "heap_sift_up lss swap s k = heap_sift_up lss swap (swap s k (parent k)) (parent k)"
      using True by (subst heap_sift_up.simps) (simp add: Let_def)
    ultimately show ?thesis
      using less.IH [of "parent k" "swap s k (parent k)"] less.prems assms(1) [of s k "parent k"]
        swap_wf [of s k "parent k"] length_items_swap [of s k "parent k"] by simp
  qed
qed

lemma sift_down_keeps:
  assumes "\<And>s i j. P s \<Longrightarrow> wf s \<Longrightarrow> i < length (items s) \<Longrightarrow> j < length (items s) \<Longrightarrow> i \<noteq> j \<Longrightarrow> P (swap s i j)"
    and "wf s" "k < length (items s)" "n = length (items s)" "P s"
  shows "P (heap_sift_down lss swap n s k) \<and> wf (heap_sift_down lss swap n s k)"
  using assms(2-5)
proof (induction "n - k" arbitrary: s k rule: less_induct)
  case less
  define b where "b = sift_best lss n s k"
  have "b = k \<or> k < b \<and> b < n"
    by (auto simp: b_def sift_best_def Let_def)
  then consider "b = k" | "k < b" "b < n" "k \<noteq> b" by blast
  then show ?case
  proof cases
    case 1
    then have "heap_sift_down lss swap n s k = s" by (subst heap_sift_down.simps) (simp add: b_def)
    then show ?thesis using less.prems by simp
  next
    case 2
    have "heap_sift_down lss swap n s k = heap_sift_down lss swap n (swap s k b) b"
      using 2 by (subst heap_sift_down.simps) (simp add: b_def Let_def)
    moreover have "n - b < n - k" using 2 less.prems(2,3) by simp
    ultimately show ?thesis
      using less.hyps [of b "swap s k b"] 2 less.prems assms(1) [of s k b]
        swap_wf [of s k b] length_items_swap [of s k b] by simp
  qed
qed

text \<open>An element out of place in either direction: sift up, then sift down from where it is.\<close>

lemma up_then_down:
  assumes "wf s" "k < length (items s)" "heap_but cmp (items s) k" "n = length (items s)"
    "j < length (items s)" "heap_sift_up lss swap s k = s \<Longrightarrow> j = k"
  shows "wf (heap_sift_down lss swap n (heap_sift_up lss swap s k) j) \<and>
    is_heap cmp (items (heap_sift_down lss swap n (heap_sift_up lss swap s k) j)) \<and>
    mset (items (heap_sift_down lss swap n (heap_sift_up lss swap s k) j)) = mset (items s)"
proof (cases "0 < k \<and> cmp (items s ! k) (items s ! parent k) < 0")
  case True
  have "below_ok cmp (items s) k"
    unfolding below_ok_def
  proof (intro allI impI)
    fix i assume i: "0 < i" "i < length (items s)" "parent i = k"
    then have "cmp (items s ! parent k) (items s ! i) \<le> 0" using assms(3) True by (simp add: heap_but_def)
    then have "cmp (items s ! k) (items s ! i) < 0" using True cmp_less_trans by blast
    then show "cmp (items s ! k) (items s ! i) \<le> 0" by simp
  qed
  then have up: "wf (heap_sift_up lss swap s k) \<and> is_heap cmp (items (heap_sift_up lss swap s k)) \<and>
      mset (items (heap_sift_up lss swap s k)) = mset (items s)"
    by (rule sift_up_spec [OF assms(1-3)])
  let ?s = "heap_sift_up lss swap s k"
  have len: "length (items ?s) = length (items s)" using up by (metis size_mset)
  have "heap_but cmp (items ?s) j" using is_heap_heap_but up assms(5) len by simp
  moreover have "above_ok cmp (items ?s) j" using up by (simp add: is_heap_def above_ok_def)
  ultimately show ?thesis using sift_down_spec [of ?s j n] up len assms(4,5) by simp
next
  case False
  have "\<not> lss s k (parent k) < 0 \<or> k = 0"
  proof (cases "k = 0")
    case False
    then have "parent k < length (items s)" using parent_lt [of k "length (items s)"] assms(2) by simp
    then show ?thesis using \<open>\<not> (0 < k \<and> cmp (items s ! k) (items s ! parent k) < 0)\<close> False
        less_items [OF assms(1,2), of "parent k"] by simp
  qed simp
  then have s: "heap_sift_up lss swap s k = s" by (subst heap_sift_up.simps) (auto simp: Let_def)
  have "above_ok cmp (items s) k" using False by (auto simp: above_ok_def cmp_le_iff)
  then show ?thesis using sift_down_spec [OF assms(1-3) _ assms(4)] assms(6) [OF s] s by simp
qed

end

end
