(* ===== verification/Hash.thy ===== *)
theory Hash
  imports Bits
begin

text \<open>
  \<open>src/ceres/hash.c\<close> and the table of \<open>hash_crc.inc\<close>: FNV-1a, djb2, MurmurHash3, CRC-32 and Adler-32, all in
  32-bit arithmetic that wraps. A block of memory is the list of its bytes; a C string is read up to
  its NUL, and \<open>None\<close> is a read past a block that has none.
\<close>

section \<open>FNV-1a, djb2, MurmurHash3\<close>

fun fnv1a_from :: "u32 \<Rightarrow> u8 list \<Rightarrow> u32" where
  "fnv1a_from h [] = h"
| "fnv1a_from h (b # s) = fnv1a_from ((h XOR ucast b) * 16777619) s"

definition hash_fnv1a :: "u8 list \<Rightarrow> u32" where
  "hash_fnv1a p = fnv1a_from 0x811C9DC5 p"

fun djb2_from :: "u32 \<Rightarrow> u8 list \<Rightarrow> u32 option" where
  "djb2_from h [] = None"
| "djb2_from h (b # s) = (if b = 0 then Some h else djb2_from (h * 33 + ucast b) s)"

definition hash_djb2 :: "u8 list \<Rightarrow> u32 option" where
  "hash_djb2 s = djb2_from 5381 s"

definition murmur_mix_k :: "u32 \<Rightarrow> u32" where
  "murmur_mix_k k = bit_rotl (k * 0xCC9E2D51) 15 * 0x1B873593"

fun murmur_blocks :: "nat \<Rightarrow> u32 \<Rightarrow> u8 list \<Rightarrow> nat \<Rightarrow> u32" where
  "murmur_blocks 0 h s i = h"
| "murmur_blocks (Suc m) h s i =
     (let k = ucast (s ! (4 * i)) OR push_bit 8 (ucast (s ! (4 * i + 1))) OR
              push_bit 16 (ucast (s ! (4 * i + 2))) OR push_bit 24 (ucast (s ! (4 * i + 3)));
          h = h XOR murmur_mix_k k;
          h = bit_rotl h 13
      in murmur_blocks m (h * 5 + 0xE6546B64) s (i + 1))"

definition hash_murmur3 :: "u8 list \<Rightarrow> u32 \<Rightarrow> u32" where
  "hash_murmur3 s seed =
     (let n = length s;
          blocks = n div 4;
          h = murmur_blocks blocks seed s 0;
          tail = drop (blocks * 4) s;
          k = 0;
          k = (if n mod 4 = 3 then k XOR push_bit 16 (ucast (tail ! 2)) else k);
          k = (if 2 \<le> n mod 4 then k XOR push_bit 8 (ucast (tail ! 1)) else k);
          h = (if 1 \<le> n mod 4 then h XOR murmur_mix_k (k XOR ucast (tail ! 0)) else h);
          h = h XOR of_nat n;
          h = h XOR drop_bit 16 h;
          h = h * 0x85EBCA6B;
          h = h XOR drop_bit 13 h;
          h = h * 0xC2B2AE35
      in h XOR drop_bit 16 h)"

section \<open>CRC-32\<close>

definition crc32_table :: "u32 list" where
  "crc32_table = [
    0x00000000, 0x77073096, 0xEE0E612C, 0x990951BA, 0x076DC419, 0x706AF48F,
    0xE963A535, 0x9E6495A3, 0x0EDB8832, 0x79DCB8A4, 0xE0D5E91E, 0x97D2D988,
    0x09B64C2B, 0x7EB17CBD, 0xE7B82D07, 0x90BF1D91, 0x1DB71064, 0x6AB020F2,
    0xF3B97148, 0x84BE41DE, 0x1ADAD47D, 0x6DDDE4EB, 0xF4D4B551, 0x83D385C7,
    0x136C9856, 0x646BA8C0, 0xFD62F97A, 0x8A65C9EC, 0x14015C4F, 0x63066CD9,
    0xFA0F3D63, 0x8D080DF5, 0x3B6E20C8, 0x4C69105E, 0xD56041E4, 0xA2677172,
    0x3C03E4D1, 0x4B04D447, 0xD20D85FD, 0xA50AB56B, 0x35B5A8FA, 0x42B2986C,
    0xDBBBC9D6, 0xACBCF940, 0x32D86CE3, 0x45DF5C75, 0xDCD60DCF, 0xABD13D59,
    0x26D930AC, 0x51DE003A, 0xC8D75180, 0xBFD06116, 0x21B4F4B5, 0x56B3C423,
    0xCFBA9599, 0xB8BDA50F, 0x2802B89E, 0x5F058808, 0xC60CD9B2, 0xB10BE924,
    0x2F6F7C87, 0x58684C11, 0xC1611DAB, 0xB6662D3D, 0x76DC4190, 0x01DB7106,
    0x98D220BC, 0xEFD5102A, 0x71B18589, 0x06B6B51F, 0x9FBFE4A5, 0xE8B8D433,
    0x7807C9A2, 0x0F00F934, 0x9609A88E, 0xE10E9818, 0x7F6A0DBB, 0x086D3D2D,
    0x91646C97, 0xE6635C01, 0x6B6B51F4, 0x1C6C6162, 0x856530D8, 0xF262004E,
    0x6C0695ED, 0x1B01A57B, 0x8208F4C1, 0xF50FC457, 0x65B0D9C6, 0x12B7E950,
    0x8BBEB8EA, 0xFCB9887C, 0x62DD1DDF, 0x15DA2D49, 0x8CD37CF3, 0xFBD44C65,
    0x4DB26158, 0x3AB551CE, 0xA3BC0074, 0xD4BB30E2, 0x4ADFA541, 0x3DD895D7,
    0xA4D1C46D, 0xD3D6F4FB, 0x4369E96A, 0x346ED9FC, 0xAD678846, 0xDA60B8D0,
    0x44042D73, 0x33031DE5, 0xAA0A4C5F, 0xDD0D7CC9, 0x5005713C, 0x270241AA,
    0xBE0B1010, 0xC90C2086, 0x5768B525, 0x206F85B3, 0xB966D409, 0xCE61E49F,
    0x5EDEF90E, 0x29D9C998, 0xB0D09822, 0xC7D7A8B4, 0x59B33D17, 0x2EB40D81,
    0xB7BD5C3B, 0xC0BA6CAD, 0xEDB88320, 0x9ABFB3B6, 0x03B6E20C, 0x74B1D29A,
    0xEAD54739, 0x9DD277AF, 0x04DB2615, 0x73DC1683, 0xE3630B12, 0x94643B84,
    0x0D6D6A3E, 0x7A6A5AA8, 0xE40ECF0B, 0x9309FF9D, 0x0A00AE27, 0x7D079EB1,
    0xF00F9344, 0x8708A3D2, 0x1E01F268, 0x6906C2FE, 0xF762575D, 0x806567CB,
    0x196C3671, 0x6E6B06E7, 0xFED41B76, 0x89D32BE0, 0x10DA7A5A, 0x67DD4ACC,
    0xF9B9DF6F, 0x8EBEEFF9, 0x17B7BE43, 0x60B08ED5, 0xD6D6A3E8, 0xA1D1937E,
    0x38D8C2C4, 0x4FDFF252, 0xD1BB67F1, 0xA6BC5767, 0x3FB506DD, 0x48B2364B,
    0xD80D2BDA, 0xAF0A1B4C, 0x36034AF6, 0x41047A60, 0xDF60EFC3, 0xA867DF55,
    0x316E8EEF, 0x4669BE79, 0xCB61B38C, 0xBC66831A, 0x256FD2A0, 0x5268E236,
    0xCC0C7795, 0xBB0B4703, 0x220216B9, 0x5505262F, 0xC5BA3BBE, 0xB2BD0B28,
    0x2BB45A92, 0x5CB36A04, 0xC2D7FFA7, 0xB5D0CF31, 0x2CD99E8B, 0x5BDEAE1D,
    0x9B64C2B0, 0xEC63F226, 0x756AA39C, 0x026D930A, 0x9C0906A9, 0xEB0E363F,
    0x72076785, 0x05005713, 0x95BF4A82, 0xE2B87A14, 0x7BB12BAE, 0x0CB61B38,
    0x92D28E9B, 0xE5D5BE0D, 0x7CDCEFB7, 0x0BDBDF21, 0x86D3D2D4, 0xF1D4E242,
    0x68DDB3F8, 0x1FDA836E, 0x81BE16CD, 0xF6B9265B, 0x6FB077E1, 0x18B74777,
    0x88085AE6, 0xFF0F6A70, 0x66063BCA, 0x11010B5C, 0x8F659EFF, 0xF862AE69,
    0x616BFFD3, 0x166CCF45, 0xA00AE278, 0xD70DD2EE, 0x4E048354, 0x3903B3C2,
    0xA7672661, 0xD06016F7, 0x4969474D, 0x3E6E77DB, 0xAED16A4A, 0xD9D65ADC,
    0x40DF0B66, 0x37D83BF0, 0xA9BCAE53, 0xDEBB9EC5, 0x47B2CF7F, 0x30B5FFE9,
    0xBDBDF21C, 0xCABAC28A, 0x53B39330, 0x24B4A3A6, 0xBAD03605, 0xCDD70693,
    0x54DE5729, 0x23D967BF, 0xB3667A2E, 0xC4614AB8, 0x5D681B02, 0x2A6F2B94,
    0xB40BBE37, 0xC30C8EA1, 0x5A05DF1B, 0x2D02EF8D]"

fun crc32_loop :: "u32 \<Rightarrow> u8 list \<Rightarrow> u32" where
  "crc32_loop c [] = c"
| "crc32_loop c (b # s) = crc32_loop (crc32_table ! unat ((c XOR ucast b) AND 255) XOR drop_bit 8 c) s"

definition hash_crc32_update :: "u32 \<Rightarrow> u8 list \<Rightarrow> u32" where
  "hash_crc32_update crc s = NOT (crc32_loop (NOT crc) s)"

definition hash_crc32 :: "u8 list \<Rightarrow> u32" where
  "hash_crc32 s = hash_crc32_update 0 s"

section \<open>Adler-32\<close>

fun adler_chunk :: "u32 \<Rightarrow> u32 \<Rightarrow> u8 list \<Rightarrow> u32 \<times> u32" where
  "adler_chunk a b [] = (a, b)"
| "adler_chunk a b (x # s) = (let a = a + ucast x; b = b + a in adler_chunk a b s)"

function adler_loop :: "u32 \<Rightarrow> u32 \<Rightarrow> u8 list \<Rightarrow> u32 \<times> u32" where
  "adler_loop a b s =
     (if s = [] then (a, b)
      else let chunk = (if length s < 5552 then length s else 5552)
           in case adler_chunk a b (take chunk s) of (a, b) \<Rightarrow>
                adler_loop (a mod 65521) (b mod 65521) (drop chunk s))"
  by pat_completeness auto
termination
  by (relation "measure (\<lambda>(a, b, s). length s)") (auto split: if_splits)

declare adler_loop.simps [simp del]

definition hash_adler32 :: "u8 list \<Rightarrow> u32" where
  "hash_adler32 s = (case adler_loop 1 0 s of (a, b) \<Rightarrow> push_bit 16 b OR a)"

section \<open>CRC-32 against polynomial division\<close>

text \<open>
  The reference shifts one bit at a time and subtracts (exclusive-ors) the polynomial whenever the bit
  that leaves is set; bits enter least significant first.
\<close>

definition crc_step :: "u32 \<Rightarrow> u32" where
  "crc_step c = (if odd c then drop_bit 1 c XOR 0xEDB88320 else drop_bit 1 c)"

definition crc_byte :: "u32 \<Rightarrow> u32" where
  "crc_byte c = (crc_step ^^ 8) c"

fun crc_bitwise :: "u32 \<Rightarrow> u8 list \<Rightarrow> u32" where
  "crc_bitwise c [] = c"
| "crc_bitwise c (b # s) = crc_bitwise (crc_byte (c XOR ucast b)) s"

lemma crc_byte_steps:
  "crc_byte c = crc_step (crc_step (crc_step (crc_step (crc_step (crc_step (crc_step (crc_step c)))))))"
  by (simp add: crc_byte_def eval_nat_numeral)

fun crc_entries :: "u32 \<Rightarrow> u32 list \<Rightarrow> bool" where
  "crc_entries i [] = True"
| "crc_entries i (t # ts) = (crc_byte i = t \<and> crc_entries (i + 1) ts)"

lemma crc32_table_entries: "crc_entries 0 crc32_table"
  by (simp add: crc32_table_def crc_byte_steps crc_step_def)

lemma length_crc32_table: "length crc32_table = 256"
  by (simp add: crc32_table_def)

lemma crc_entries_nth: "crc_entries k ts \<Longrightarrow> i < length ts \<Longrightarrow> ts ! i = crc_byte (k + of_nat i)"
  by (induction k ts arbitrary: i rule: crc_entries.induct) (auto simp: nth_Cons ac_simps split: nat.splits)

lemma crc32_table_nth: "i < 256 \<Longrightarrow> crc32_table ! i = crc_byte (of_nat i)"
  using crc_entries_nth [OF crc32_table_entries, of i] by (simp add: length_crc32_table)

lemma crc_step_xor: "crc_step (x XOR y) = crc_step x XOR crc_step y"
  by (cases "odd x"; cases "odd y")
    (simp_all add: crc_step_def drop_bit_xor even_xor_iff ac_simps)

lemma crc_steps_xor: "(crc_step ^^ n) (x XOR y) = (crc_step ^^ n) x XOR (crc_step ^^ n) y"
  by (induction n) (simp_all add: crc_step_xor)

lemma crc_steps_shift: "take_bit n y = 0 \<Longrightarrow> (crc_step ^^ n) y = drop_bit n (y :: u32)"
proof (induction n arbitrary: y)
  case (Suc n)
  have z: "\<not> bit y i" if "i < Suc n" for i
    using Suc.prems that by (metis bit_take_bit_iff bit_0_eq bot_apply bot_bool_def)
  have "even y" using z [of 0] by (simp add: bit_0)
  then have "crc_step y = drop_bit 1 y" by (simp add: crc_step_def)
  moreover have "take_bit n (drop_bit 1 y) = 0"
    by (rule bit_word_eqI) (use z in \<open>auto simp: bit_simps\<close>)
  ultimately have "(crc_step ^^ n) (crc_step y) = drop_bit n (drop_bit 1 y)" using Suc.IH by simp
  then show ?case by (simp add: funpow_swap1 drop_bit_drop_bit)
qed simp

lemma crc_byte_split: "crc_byte c = crc32_table ! unat (c AND 255) XOR drop_bit 8 c"
proof -
  have m: "(255 :: u32) = mask 8" by (simp add: mask_eq_exp_minus_1)
  have lt: "unat (c AND 255) < 256"
    using unat_and_mask [of 255 8 c] by simp
  have c: "c = (c AND 255) XOR (c AND NOT 255)"
    by (rule bit_word_eqI) (auto simp: bit_simps)
  have low: "take_bit 8 (c AND NOT 255) = 0"
    unfolding m by (rule bit_word_eqI) (auto simp: bit_simps)
  have high: "drop_bit 8 (c AND NOT 255) = drop_bit 8 c"
    unfolding m by (rule bit_word_eqI) (auto simp: bit_simps dest: bit_imp_le_length)
  have "crc_byte c = crc_byte (c AND 255) XOR crc_byte (c AND NOT 255)"
    unfolding crc_byte_def by (subst c) (rule crc_steps_xor)
  also have "crc_byte (c AND NOT 255) = drop_bit 8 c"
    using crc_steps_shift [OF low] high by (simp add: crc_byte_def)
  also have "crc_byte (c AND 255) = crc32_table ! unat (c AND 255)"
    using crc32_table_nth [OF lt] by simp
  finally show ?thesis .
qed

lemma crc32_loop_bitwise: "crc32_loop c s = crc_bitwise c s"
proof (induction s arbitrary: c)
  case (Cons b s)
  have "drop_bit 8 (c XOR ucast b) = drop_bit 8 c"
    by (rule bit_word_eqI) (auto simp: bit_simps dest: bit_imp_le_length)
  then show ?case using Cons.IH crc_byte_split [of "c XOR ucast b"] by simp
qed simp

lemma crc32_loop_append: "crc32_loop c (s @ t) = crc32_loop (crc32_loop c s) t"
  by (induction s arbitrary: c) simp_all

text \<open>
  C10: The table-driven CRC-32 is the bit-by-bit polynomial division with the reflected polynomial
  0xEDB88320, every table entry included, and feeding a buffer in pieces gives the CRC of the
  whole.
\<close>

theorem crc32_correct:
  "hash_crc32_update crc s = NOT (crc_bitwise (NOT crc) s) \<and>
   hash_crc32_update (hash_crc32_update crc s) t = hash_crc32_update crc (s @ t) \<and>
   hash_crc32_update (hash_crc32 s) t = hash_crc32 (s @ t)"
  by (simp add: hash_crc32_def hash_crc32_update_def crc32_loop_bitwise [symmetric] crc32_loop_append)

section \<open>Adler-32 against its definition\<close>

text \<open>
  The checksum's definition: \<open>A\<close> is one plus the sum of the bytes, \<open>B\<close> the sum of all the values \<open>A\<close> took,
  both modulo 65521. The code reduces once per 5552 bytes.
\<close>

fun adler_sums :: "nat \<Rightarrow> nat \<Rightarrow> u8 list \<Rightarrow> nat \<times> nat" where
  "adler_sums a b [] = (a, b)"
| "adler_sums a b (x # s) = adler_sums (a + unat x) (b + (a + unat x)) s"

definition adler32_spec :: "u8 list \<Rightarrow> nat" where
  "adler32_spec s = (case adler_sums 1 0 s of (a, b) \<Rightarrow> b mod 65521 * 65536 + a mod 65521)"

lemma adler_sums_le:
  "fst (adler_sums a b s) \<le> a + 255 * length s \<and>
   snd (adler_sums a b s) \<le> b + length s * a + 255 * (length s * (length s + 1) div 2)"
proof (induction s arbitrary: a b)
  case (Cons x s)
  have x: "unat x \<le> 255" by (rule unat_u8_le)
  let ?n = "length s"
  have half: "Suc ?n * (Suc ?n + 1) div 2 = ?n * (?n + 1) div 2 + Suc ?n"
    by (simp add: algebra_simps)
  have m: "length s * unat x \<le> length s * 255" using x by (intro mult_le_mono2)
  have IH: "fst (adler_sums (a + unat x) (b + (a + unat x)) s) \<le> a + unat x + 255 * ?n"
    "snd (adler_sums (a + unat x) (b + (a + unat x)) s)
      \<le> b + (a + unat x) + (?n * a + ?n * unat x) + 255 * (?n * (?n + 1) div 2)"
    using Cons [of "a + unat x" "b + (a + unat x)"] by (simp_all add: add_mult_distrib2)
  have e: "255 * (Suc ?n * (Suc ?n + 1) div 2) = 255 * (?n * (?n + 1) div 2) + 255 * ?n + 255"
    unfolding half by simp
  have "snd (adler_sums (a + unat x) (b + (a + unat x)) s)
      \<le> b + Suc ?n * a + 255 * (Suc ?n * (Suc ?n + 1) div 2)"
    unfolding e mult_Suc [of _ a] using IH(2) m x by linarith
  then show ?case using IH(1) x by simp
qed simp

lemma adler_chunk_exact:
  assumes "fst (adler_sums (unat a) (unat b) s) < U32" "snd (adler_sums (unat a) (unat b) s) < U32"
  shows "unat (fst (adler_chunk a b s)) = fst (adler_sums (unat a) (unat b) s) \<and>
    unat (snd (adler_chunk a b s)) = snd (adler_sums (unat a) (unat b) s)"
  using assms
proof (induction s arbitrary: a b)
  case (Cons x s)
  have grow: "a \<le> fst (adler_sums a b s)" "b \<le> snd (adler_sums a b s)" for a b :: nat and s
    by (induction s arbitrary: a b) (simp_all, (meson le_add1 le_trans)+)
  let ?a = "a + ucast x"
  have "unat a + unat x < U32" "unat b + (unat a + unat x) < U32"
    using Cons.prems grow(1) [of "unat a + unat x" "unat b + (unat a + unat x)" s]
      grow(2) [of "unat b + (unat a + unat x)" "unat a + unat x" s] by simp_all
  then have "unat ?a = unat a + unat x" "unat (b + ?a) = unat b + (unat a + unat x)"
    by (simp_all add: unat_word_ariths)
  then show ?case using Cons.IH [of ?a "b + ?a"] Cons.prems by (simp add: Let_def)
qed simp

lemma adler_sums_mod:
  "fst (adler_sums a b s) mod m = fst (adler_sums (a mod m) (b mod m) s) mod m \<and>
   snd (adler_sums a b s) mod m = snd (adler_sums (a mod m) (b mod m) s) mod m"
proof (induction s arbitrary: a b)
  case (Cons x s)
  have 1: "(a + unat x) mod m = (a mod m + unat x) mod m"
    "(b + (a + unat x)) mod m = (b mod m + (a mod m + unat x)) mod m"
    by (simp add: mod_simps, intro mod_add_cong) (simp_all add: mod_simps)
  show ?case
    unfolding adler_sums.simps using Cons [of "a + unat x" "b + (a + unat x)"]
      Cons [of "a mod m + unat x" "b mod m + (a mod m + unat x)"] unfolding 1 by metis
qed simp

lemma adler_sums_append:
  "adler_sums a b (s @ t) = adler_sums (fst (adler_sums a b s)) (snd (adler_sums a b s)) t"
  by (induction s arbitrary: a b) simp_all

text \<open>5552 bytes on top of reduced sums stay below 2^32.\<close>

lemma adler_chunk_bound:
  assumes "a < 65521" "b < 65521" "length s \<le> 5552"
  shows "fst (adler_sums a b s) < U32 \<and> snd (adler_sums a b s) < U32"
proof -
  let ?n = "length s"
  have n: "?n * a \<le> 5552 * 65520" using assms by (intro mult_le_mono) auto
  have "?n * (?n + 1) \<le> 5552 * 5553" using assms by (intro mult_le_mono) auto
  then have "?n * (?n + 1) div 2 \<le> 5552 * 5553 div 2" by (rule div_le_mono)
  then have "255 * (?n * (?n + 1) div 2) \<le> 3930857640" by simp
  then have "b + ?n * a + 255 * (?n * (?n + 1) div 2) \<le> 4294690200" using n assms(2) by linarith
  moreover have "a + 255 * ?n < 4294690200" using assms by linarith
  ultimately show ?thesis using adler_sums_le [of a b s] by simp
qed

lemma adler_loop_spec:
  assumes "unat a < 65521" "unat b < 65521" "adler_loop a b s = (a', b')"
  shows "unat a' = fst (adler_sums (unat a) (unat b) s) mod 65521 \<and>
    unat b' = snd (adler_sums (unat a) (unat b) s) mod 65521"
  using assms
proof (induction a b s rule: adler_loop.induct)
  case (1 a b s)
  show ?case
  proof (cases "s = []")
    case True
    then show ?thesis using "1.prems" by (subst (asm) adler_loop.simps) simp
  next
    case False
    define n where "n = (if length s < 5552 then length s else 5552)"
    obtain a1 b1 where c: "adler_chunk a b (take n s) = (a1, b1)" by fastforce
    let ?S = "adler_sums (unat a) (unat b) (take n s)"
    have "fst ?S < U32 \<and> snd ?S < U32"
      using adler_chunk_bound [OF "1.prems"(1,2), of "take n s"] by (simp add: n_def)
    then have e: "unat a1 = fst ?S" "unat b1 = snd ?S"
      using adler_chunk_exact [of a b "take n s"] c by simp_all
    have m: "unat (a1 mod 65521) = unat a1 mod 65521" "unat (b1 mod 65521) = unat b1 mod 65521"
      by (simp_all add: unat_mod_distrib)
    have "adler_loop (a1 mod 65521) (b1 mod 65521) (drop n s) = (a', b')"
      using "1.prems"(3) False c by (subst (asm) adler_loop.simps) (simp add: Let_def n_def [symmetric])
    then have "unat a' = fst (adler_sums (unat a1 mod 65521) (unat b1 mod 65521) (drop n s)) mod 65521 \<and>
        unat b' = snd (adler_sums (unat a1 mod 65521) (unat b1 mod 65521) (drop n s)) mod 65521"
      using "1.IH" [OF False n_def c [symmetric]] by (simp add: m)
    then show ?thesis
      using adler_sums_append [of "unat a" "unat b" "take n s" "drop n s"] e
        adler_sums_mod [of "fst ?S" "snd ?S" "drop n s" 65521] by simp
  qed
qed

lemma unat_push16_or:
  assumes "unat a < 65536" "unat b < 65536"
  shows "unat (push_bit 16 b OR a :: u32) = unat b * 65536 + unat a"
proof -
  have na: "\<not> bit a i" if "16 \<le> i" for i
  proof
    assume "bit a i"
    then have "bit (unat a) i" by (simp add: bit_unsigned_iff)
    moreover have "take_bit 16 (unat a) = unat a" using assms(1) by (simp add: take_bit_nat_eq_self)
    ultimately show False using that by (metis bit_take_bit_iff not_less)
  qed
  have "push_bit 16 b AND a = 0" by (rule bit_word_eqI) (use na in \<open>auto simp: bit_simps\<close>)
  then have "push_bit 16 b OR a = push_bit 16 b + a" by (simp add: disjunctive_add_eq_or)
  moreover have "unat (push_bit 16 b) = unat b * 65536"
    using assms(2) by (simp add: push_bit_eq_mult unat_word_ariths)
  ultimately show ?thesis using assms by (simp add: unat_word_ariths)
qed

text \<open>
  C11: Adler-32 with its modulo once per 5552 bytes is the checksum's definition: the two sums never
  overflow 32 bits between reductions, whatever the length of the data.
\<close>

theorem adler32_correct: "unat (hash_adler32 s) = adler32_spec s"
proof -
  obtain a b where l: "adler_loop 1 0 s = (a, b)" by fastforce
  have "unat a = fst (adler_sums 1 0 s) mod 65521 \<and> unat b = snd (adler_sums 1 0 s) mod 65521"
    using adler_loop_spec [OF _ _ l] by simp
  moreover from this have "unat a < 65521" "unat b < 65521" by simp_all
  ultimately show ?thesis
    using unat_push16_or [of a b] l by (simp add: hash_adler32_def adler32_spec_def split_beta)
qed

section \<open>Published check values\<close>

lemma hash_check_values:
  "hash_fnv1a [] = 0x811C9DC5"
  "hash_adler32 [0x57, 0x69, 0x6B, 0x69, 0x70, 0x65, 0x64, 0x69, 0x61] = 0x11E60398"
  by (simp add: hash_fnv1a_def, simp add: hash_adler32_def adler_loop.simps)

section \<open>Reading a string\<close>

lemma djb2_from_string:
  "0 \<notin> set s \<Longrightarrow> djb2_from h (s @ 0 # rest) = Some (foldl (\<lambda>h b. h * 33 + ucast b) h s)"
  by (induction s arbitrary: h) auto

lemma hash_djb2_string:
  "0 \<notin> set s \<Longrightarrow> hash_djb2 (s @ 0 # rest) = Some (foldl (\<lambda>h b. h * 33 + ucast b) 5381 s)"
  by (simp add: hash_djb2_def djb2_from_string)

end
