(* ===== verification/Generic.thy ===== *)
theory Generic
  imports Hash
begin

text \<open>
  \<open>include/ceres/ds/generic.h\<close>: the hash, equality and comparison functions the library supplies for the
  common key types, on the values the pointers point to. A \<open>char*\<close> key is the string it points to, a
  list of bytes whose end is its NUL; a \<open>float\<close> is its IEEE binary32 bits. The comparators are
  instances of the contract \<open>total_cmp\<close> the ordered containers and the sorts rely on, the
  hash/equality pairs of \<open>key_hash\<close>, the contract of the hash tables.
\<close>

section \<open>The contract of a hash table's key functions\<close>

locale key_hash =
  fixes hash :: "'k \<Rightarrow> nat \<Rightarrow> u32"
    and eq :: "'k \<Rightarrow> 'k \<Rightarrow> bool"
  assumes eq_refl: "eq x x"
    and eq_sym: "eq x y \<Longrightarrow> eq y x"
    and eq_trans: "eq x y \<Longrightarrow> eq y z \<Longrightarrow> eq x z"
    and eq_hash: "eq x y \<Longrightarrow> hash x n = hash y n"
begin

lemma eq_cong: "eq x y \<Longrightarrow> eq x z \<longleftrightarrow> eq y z"
  using eq_sym eq_trans by blast

lemma hash_neq: "hash x n \<noteq> hash y n \<Longrightarrow> \<not> eq x y"
  using eq_hash by metis

end

section \<open>Integers\<close>

definition word_bytes :: "u32 \<Rightarrow> u8 list" where
  "word_bytes w = [ucast w, ucast (drop_bit 8 w), ucast (drop_bit 16 w), ucast (drop_bit 24 w)]"

definition ds_hash_int :: "u32 \<Rightarrow> nat \<Rightarrow> u32" where
  "ds_hash_int x len = hash_fnv1a (word_bytes x)"

definition ds_hash_uint :: "u32 \<Rightarrow> nat \<Rightarrow> u32" where
  "ds_hash_uint x len = hash_fnv1a (word_bytes x)"

definition ds_eq_int :: "u32 \<Rightarrow> u32 \<Rightarrow> bool" where
  "ds_eq_int a b \<longleftrightarrow> sint a = sint b"

definition ds_eq_uint :: "u32 \<Rightarrow> u32 \<Rightarrow> bool" where
  "ds_eq_uint a b \<longleftrightarrow> a = b"

definition ds_cmp_int :: "u32 \<Rightarrow> u32 \<Rightarrow> int" where
  "ds_cmp_int x y = (if x <s y then -1 else if y <s x then 1 else 0)"

definition ds_cmp_uint :: "u32 \<Rightarrow> u32 \<Rightarrow> int" where
  "ds_cmp_uint x y = (if x < y then -1 else if y < x then 1 else 0)"

section \<open>Byte blocks and strings\<close>

definition ds_hash_bytes :: "u8 list \<Rightarrow> nat \<Rightarrow> u32" where
  "ds_hash_bytes p len = hash_fnv1a (take len p)"

text \<open>The \<open>strcmp\<close> of the C library: the first bytes that differ, as \<open>unsigned char\<close>; the end of the list is the NUL.\<close>

fun strcmp_c :: "u8 list \<Rightarrow> u8 list \<Rightarrow> int" where
  "strcmp_c [] [] = 0"
| "strcmp_c [] (y # ys) = - uint y"
| "strcmp_c (x # xs) [] = uint x"
| "strcmp_c (x # xs) (y # ys) = (if x \<noteq> y then uint x - uint y else if x = 0 then 0 else strcmp_c xs ys)"

definition ds_hash_cstr :: "u8 list \<Rightarrow> nat \<Rightarrow> u32" where
  "ds_hash_cstr p len = the (hash_djb2 (p @ [0]))"

definition ds_eq_cstr :: "u8 list \<Rightarrow> u8 list \<Rightarrow> bool" where
  "ds_eq_cstr a b \<longleftrightarrow> strcmp_c a b = 0"

definition ds_cmp_cstr :: "u8 list \<Rightarrow> u8 list \<Rightarrow> int" where
  "ds_cmp_cstr a b = strcmp_c a b"

section \<open>Floats\<close>

text \<open>
  A \<open>float\<close> is its IEEE binary32 bits: a sign, an exponent of eight bits, a fraction of 23. Its value is scaled by 2^149, which makes every finite one a
  whole number; the infinities follow in the order. The machine's \<open>fcmp\<close> sets its greater flag when an operand is a NaN: then
  \<open>x > y\<close> holds and \<open>x < y\<close> and \<open>x == y\<close> do not.
\<close>

definition float_exponent :: "u32 \<Rightarrow> nat" where
  "float_exponent x = unat (drop_bit 23 x AND 0xFF)"

definition float_fraction :: "u32 \<Rightarrow> nat" where
  "float_fraction x = unat (x AND 0x007FFFFF)"

definition float_nan :: "u32 \<Rightarrow> bool" where
  "float_nan x \<longleftrightarrow> float_exponent x = 255 \<and> float_fraction x \<noteq> 0"

definition float_value :: "u32 \<Rightarrow> int" where
  "float_value x =
     (let v = (if float_exponent x = 0 then int (float_fraction x) else (2 ^ 23 + int (float_fraction x)) * 2 ^ (float_exponent x - 1))
      in if bit x 31 then - v else v)"

definition float_lt :: "u32 \<Rightarrow> u32 \<Rightarrow> bool" where
  "float_lt x y \<longleftrightarrow> \<not> float_nan x \<and> \<not> float_nan y \<and> float_value x < float_value y"

definition float_gt :: "u32 \<Rightarrow> u32 \<Rightarrow> bool" where
  "float_gt x y \<longleftrightarrow> float_nan x \<or> float_nan y \<or> float_value y < float_value x"

definition float_eq :: "u32 \<Rightarrow> u32 \<Rightarrow> bool" where
  "float_eq x y \<longleftrightarrow> \<not> float_nan x \<and> \<not> float_nan y \<and> float_value x = float_value y"

definition ds_is_nan :: "u32 \<Rightarrow> bool" where
  "ds_is_nan x \<longleftrightarrow> x AND 0x7F800000 = 0x7F800000 \<and> x AND 0x007FFFFF \<noteq> 0"

definition ds_hash_float :: "u32 \<Rightarrow> nat \<Rightarrow> u32" where
  "ds_hash_float x len = hash_fnv1a (word_bytes x)"

definition ds_eq_float :: "u32 \<Rightarrow> u32 \<Rightarrow> bool" where
  "ds_eq_float x y \<longleftrightarrow> float_eq x y"

definition ds_cmp_float :: "u32 \<Rightarrow> u32 \<Rightarrow> int" where
  "ds_cmp_float x y =
     (let xn = ds_is_nan x; yn = ds_is_nan y
      in if xn \<or> yn then (if xn \<and> yn then 0 else if xn then 1 else -1)
         else if float_lt x y then -1
         else if float_gt x y then 1
         else 0)"

section \<open>The contracts hold\<close>

lemma uint_u8_pos: "x \<noteq> 0 \<Longrightarrow> 0 < uint (x :: u8)"
  using unsigned_greater_eq [where ?'a = int and w = x] uint_0_iff [of x] by linarith

lemma uint_eq_iff: "uint x = uint y \<longleftrightarrow> x = (y :: u8)"
  by (simp only: word_uint_eq_iff)

lemma strcmp_c_zero: "strcmp_c a b = 0 \<longleftrightarrow> cstr_body a = cstr_body b"
  by (induction a b rule: strcmp_c.induct) (auto simp: uint_0_iff uint_eq_iff)

lemma strcmp_c_antisym: "strcmp_c a b = - strcmp_c b a"
  by (induction a b rule: strcmp_c.induct) auto

lemma strcmp_c_trans: "strcmp_c a b \<le> 0 \<Longrightarrow> strcmp_c b c \<le> 0 \<Longrightarrow> strcmp_c a c \<le> 0"
proof (induction a b arbitrary: c rule: strcmp_c.induct)
  case 1 then show ?case by simp
next
  case (2 y ys) then show ?case by (cases c) auto
next
  case (3 x xs)
  then have "x = 0" using uint_u8_pos [of x] by (cases "x = 0") auto
  then show ?case using "3.prems"(2) by (cases c) auto
next
  case (4 x xs y ys)
  show ?case
  proof (cases c)
    case Nil
    then have "y = 0" using 4 uint_u8_pos [of y] by (cases "y = 0") auto
    then show ?thesis using "4.prems"(1) Nil by (auto split: if_splits)
  next
    case (Cons z zs)
    consider "x \<noteq> y" "y \<noteq> z" | "x = y" "y \<noteq> z" | "x \<noteq> y" "y = z" | "x = y" "y = z" by blast
    then show ?thesis
    proof cases
      case 1
      then have "uint x < uint y" "uint y < uint z"
        using "4.prems" Cons uint_eq_iff [of x y] uint_eq_iff [of y z] by auto
      then show ?thesis using Cons by auto
    next
      case 4
      then show ?thesis using "4.IH" [of zs] "4.prems" Cons by (auto split: if_splits)
    qed (use "4.prems" Cons in auto)
  qed
qed

interpretation cmp_int: total_cmp ds_cmp_int
  by unfold_locales (auto simp: ds_cmp_int_def word_sless_alt split: if_splits)

interpretation cmp_uint: total_cmp ds_cmp_uint
  by unfold_locales (auto simp: ds_cmp_uint_def split: if_splits)

text \<open>The code's test of the bits is the test of the fields.\<close>

lemma ds_is_nan_iff: "ds_is_nan x \<longleftrightarrow> float_nan x"
proof -
  define e where "e = drop_bit 23 x AND 0xFF"
  have d: "e = drop_bit 23 (x AND 0x7F800000)" by (simp add: e_def)
  have "push_bit 23 (drop_bit 23 x) = x AND NOT (mask 23)" by (rule bit_word_eqI) (auto simp: bit_simps)
  then have "push_bit 23 e = (x AND NOT (mask 23)) AND 0x7F800000" by (simp add: e_def push_bit_and)
  also have "\<dots> = x AND (NOT (mask 23) AND 0x7F800000)" by (simp only: and.assoc)
  also have "\<dots> = x AND 0x7F800000" by (simp add: mask_eq_exp_minus_1)
  finally have pu: "push_bit 23 e = x AND 0x7F800000" .
  have "x AND 0x7F800000 = 0x7F800000 \<longleftrightarrow> e = 0xFF"
  proof
    assume "x AND 0x7F800000 = 0x7F800000"
    then have "e = drop_bit 23 0x7F800000" unfolding d by (rule arg_cong)
    then show "e = 0xFF" by simp
  next
    assume "e = 0xFF"
    then show "x AND 0x7F800000 = 0x7F800000" unfolding pu [symmetric] by simp
  qed
  moreover have "e = 0xFF \<longleftrightarrow> unat e = 255" by (simp add: word_unat_eq_iff)
  moreover have "x AND 0x007FFFFF \<noteq> 0 \<longleftrightarrow> unat (x AND 0x007FFFFF) \<noteq> 0" by (simp add: unat_eq_0)
  ultimately show ?thesis by (simp add: ds_is_nan_def float_nan_def float_exponent_def float_fraction_def e_def)
qed

lemma ds_cmp_float_eq:
  "ds_cmp_float x y = (if float_nan x then if float_nan y then 0 else 1 else if float_nan y then -1 else sgn (float_value x - float_value y))"
  by (auto simp: ds_cmp_float_def ds_is_nan_iff float_lt_def float_gt_def)

lemma ds_cmp_int_eq: "ds_cmp_int x y = sgn (sint x - sint y)"
  by (auto simp: ds_cmp_int_def word_sless_alt sgn_if) 

lemma ds_cmp_uint_eq: "ds_cmp_uint x y = sgn (uint x - uint y)"
  by (auto simp: ds_cmp_uint_def word_less_def sgn_if) 

lemma ds_cmp_cstr_eq:
  "sgn (ds_cmp_cstr a b) = (if cstr_body a = cstr_body b then 0
    else if (map uint (cstr_body a), map uint (cstr_body b)) \<in> lexord {(i, j). i < j} then -1 else 1)"
  unfolding ds_cmp_cstr_def
  by (induction a b rule: strcmp_c.induct) (auto simp: uint_eq_iff sgn_if dest: uint_u8_pos split: if_splits)

interpretation cmp_float: total_cmp ds_cmp_float
  by unfold_locales (auto simp: ds_cmp_float_eq sgn_if split: if_splits)

interpretation cmp_cstr: total_cmp ds_cmp_cstr
  by unfold_locales
    (metis ds_cmp_cstr_def strcmp_c_antisym neg_0_less_iff_less neg_less_0_iff_less,
     metis ds_cmp_cstr_def strcmp_c_trans)

lemma word_eq_sint: "sint x = sint y \<Longrightarrow> x = (y :: u32)"
  by (metis uint_sint word_uint_eq_iff)

interpretation hash_int: key_hash ds_hash_int ds_eq_int
  by unfold_locales (auto simp: ds_eq_int_def ds_hash_int_def dest: word_eq_sint)

interpretation hash_uint: key_hash ds_hash_uint ds_eq_uint
  by unfold_locales (auto simp: ds_eq_uint_def)

lemma djb2_from_body: "djb2_from h (s @ [0]) = djb2_from h (cstr_body s @ [0])"
  by (induction s arbitrary: h) auto

lemma ds_hash_cstr_body: "ds_hash_cstr s n = ds_hash_cstr (cstr_body s) n"
  using djb2_from_body [of 5381 s] by (simp add: ds_hash_cstr_def hash_djb2_def)

interpretation hash_cstr: key_hash ds_hash_cstr ds_eq_cstr
proof unfold_locales
  show "ds_hash_cstr x n = ds_hash_cstr y n" if "ds_eq_cstr x y" for x y n
    using that ds_hash_cstr_body [of x n] ds_hash_cstr_body [of y n] by (simp add: ds_eq_cstr_def strcmp_c_zero)
qed (auto simp: ds_eq_cstr_def strcmp_c_zero)

text \<open>
  C12: the comparators the library supplies order the values they are for: integers by their value with and without sign, floats by the number their bits
  stand for with every NaN after all numbers and equal to the others, strings byte by byte up to their NUL. All are total preorders on
  all values, as the ordered containers require, although the machine's own \<open>>\<close> on floats is not. Equality is that of the order, except that a NaN equals nothing, and
  the integer and string keys hash equally whenever they are equal; \<open>float\<close> keys do not, the two zeros being equal with
  different hashes.
\<close>

theorem generic_contracts:
  "total_cmp ds_cmp_int \<and> total_cmp ds_cmp_uint \<and> total_cmp ds_cmp_float \<and> total_cmp ds_cmp_cstr \<and>
   (\<forall>x y. ds_cmp_int x y = sgn (sint x - sint y) \<and> ds_cmp_uint x y = sgn (uint x - uint y)) \<and>
   (\<forall>x y. ds_cmp_float x y =
     (if float_nan x then if float_nan y then 0 else 1 else if float_nan y then -1 else sgn (float_value x - float_value y))) \<and>
   (\<forall>a b. sgn (ds_cmp_cstr a b) = (if cstr_body a = cstr_body b then 0
     else if (map uint (cstr_body a), map uint (cstr_body b)) \<in> lexord {(i, j). i < j} then -1 else 1)) \<and>
   (\<forall>x y. (ds_eq_int x y \<longleftrightarrow> ds_cmp_int x y = 0) \<and> (ds_eq_uint x y \<longleftrightarrow> ds_cmp_uint x y = 0) \<and>
     (ds_eq_float x y \<longleftrightarrow> \<not> float_nan x \<and> ds_cmp_float x y = 0)) \<and> (\<forall>a b. ds_eq_cstr a b \<longleftrightarrow> ds_cmp_cstr a b = 0) \<and>
   key_hash ds_hash_int ds_eq_int \<and> key_hash ds_hash_uint ds_eq_uint \<and> key_hash ds_hash_cstr ds_eq_cstr \<and>
   ds_eq_float 0 0x80000000 \<and> ds_hash_float 0 4 \<noteq> ds_hash_float 0x80000000 4"
proof (intro conjI allI)
  show "ds_eq_float 0 0x80000000"
    by (simp add: ds_eq_float_def float_eq_def float_nan_def float_value_def float_exponent_def float_fraction_def)
  show "ds_hash_float 0 4 \<noteq> ds_hash_float 0x80000000 4"
    by (simp add: ds_hash_float_def word_bytes_def hash_fnv1a_def)
  fix x y :: u32
  show "ds_eq_int x y \<longleftrightarrow> ds_cmp_int x y = 0" "ds_eq_uint x y \<longleftrightarrow> ds_cmp_uint x y = 0" "ds_eq_float x y \<longleftrightarrow> \<not> float_nan x \<and> ds_cmp_float x y = 0"
    by (simp_all add: ds_cmp_int_eq ds_cmp_uint_eq ds_cmp_float_eq ds_eq_int_def ds_eq_uint_def ds_eq_float_def float_eq_def sgn_0_0 word_uint_eq_iff)
qed (fact cmp_int.total_cmp_axioms cmp_uint.total_cmp_axioms cmp_float.total_cmp_axioms cmp_cstr.total_cmp_axioms ds_cmp_int_eq ds_cmp_uint_eq
    ds_cmp_float_eq ds_cmp_cstr_eq ds_eq_cstr_def [unfolded ds_cmp_cstr_def [symmetric]]
    hash_int.key_hash_axioms hash_uint.key_hash_axioms hash_cstr.key_hash_axioms)+

end
