(* ===== verification/Pqueue.thy ===== *)
theory Pqueue
  imports Vector Heap_Sift Generic
begin

text \<open>
  \<open>src/ceres/ds/pqueue.c\<close>: the priority queue, a binary heap laid out in a vector. Its comparison and
  exchange of slots are an instance of what the sifts need, so its operations act on the multiset of
  its elements and always deliver one that no other precedes.
\<close>

record 'a pqueue =
  pq_items :: "'a vector"
  pq_cmp :: "'a comparator"

definition pq_init :: "nat \<Rightarrow> 'a comparator \<Rightarrow> 'a pqueue" where
  "pq_init elem_size cmp = \<lparr>pq_items = vector_init elem_size, pq_cmp = cmp\<rparr>"

definition pq_clear :: "'a pqueue \<Rightarrow> 'a pqueue" where
  "pq_clear q = q\<lparr>pq_items := vector_clear (pq_items q)\<rparr>"

definition pq_free :: "'a pqueue \<Rightarrow> 'a pqueue" where
  "pq_free q = q\<lparr>pq_items := vector_free (pq_items q)\<rparr>"

definition pq_peek :: "'a pqueue \<Rightarrow> 'a option" where
  "pq_peek q = vector_get (pq_items q) 0"

definition pq_swap_elems :: "'a pqueue \<Rightarrow> nat \<Rightarrow> nat \<Rightarrow> 'a pqueue" where
  "pq_swap_elems q i j =
     (let d = v_data (pq_items q)
      in q\<lparr>pq_items := (pq_items q)\<lparr>v_data := d[i := d ! j, j := d ! i]\<rparr>\<rparr>)"

definition pq_less :: "'a pqueue \<Rightarrow> nat \<Rightarrow> nat \<Rightarrow> int" where
  "pq_less q i j = pq_cmp q (the (vector_get (pq_items q) i)) (the (vector_get (pq_items q) j))"

definition pq_sift_up :: "'a pqueue \<Rightarrow> nat \<Rightarrow> 'a pqueue" where
  "pq_sift_up q i = heap_sift_up pq_less pq_swap_elems q i"

definition pq_sift_down :: "'a pqueue \<Rightarrow> nat \<Rightarrow> 'a pqueue" where
  "pq_sift_down q i = heap_sift_down pq_less pq_swap_elems (v_len (pq_items q)) q i"

definition pq_push :: "allocs \<Rightarrow> 'a pqueue \<Rightarrow> 'a \<Rightarrow> 'a pqueue \<times> int" where
  "pq_push al q item =
     (case vector_push_copy al (pq_items q) item of (v, r) \<Rightarrow>
        let q = q\<lparr>pq_items := v\<rparr>
        in if r \<noteq> 0 then (q, -1) else (pq_sift_up q (v_len (pq_items q) - 1), 0))"

definition pq_pop :: "'a pqueue \<Rightarrow> 'a pqueue \<times> int \<times> 'a option" where
  "pq_pop q =
     (if v_len (pq_items q) = 0 then (q, -1, None)
      else
        let out = vector_get (pq_items q) 0;
            last = v_len (pq_items q) - 1;
            q = (if 0 < last then pq_swap_elems q 0 last else q);
            q = q\<lparr>pq_items := vector_pop (pq_items q)\<rparr>;
            q = (if 0 < last then pq_sift_down q 0 else q)
        in (q, 0, out))"

section \<open>Representation\<close>

definition pq_list :: "'a pqueue \<Rightarrow> 'a list" where
  "pq_list q = vlist (pq_items q)"

definition pq_ok :: "'a comparator \<Rightarrow> 'a pqueue \<Rightarrow> bool" where
  "pq_ok cmp q \<longleftrightarrow> vec_wf (pq_items q) \<and> pq_cmp q = cmp"

definition pq_wf :: "'a comparator \<Rightarrow> 'a pqueue \<Rightarrow> bool" where
  "pq_wf cmp q \<longleftrightarrow> pq_ok cmp q \<and> is_heap cmp (pq_list q)"

lemma pq_less_eq:
  "pq_ok cmp q \<Longrightarrow> i < length (pq_list q) \<Longrightarrow> j < length (pq_list q) \<Longrightarrow>
     pq_less q i j = cmp (pq_list q ! i) (pq_list q ! j)"
  by (simp add: pq_less_def pq_ok_def pq_list_def vector_get_eq)

lemma pq_swap_elems_spec:
  assumes "pq_ok cmp q" "i < length (pq_list q)" "j < length (pq_list q)"
  shows "pq_ok cmp (pq_swap_elems q i j)"
    and "pq_list (pq_swap_elems q i j) = (pq_list q)[i := pq_list q ! j, j := pq_list q ! i]"
proof -
  let ?v = "pq_items q" and ?w = "pq_items (pq_swap_elems q i j)"
  have wf: "vec_wf ?v" and ij: "i < v_len ?v" "j < v_len ?v"
    using assms by (simp_all add: pq_ok_def pq_list_def)
  have "take (v_len ?v) (v_data ?w) = map Some ((vlist ?v)[i := vlist ?v ! j, j := vlist ?v ! i])"
    using ij vec_take [OF wf] vec_data_nth [OF wf]
    by (simp add: pq_swap_elems_def Let_def take_list_update map_update)
  then have "vec_wf ?w \<and> vlist ?w = (vlist ?v)[i := vlist ?v ! j, j := vlist ?v ! i]"
    using vec_wfI [of ?w] wf vec_wf_len [OF wf] by (simp add: pq_swap_elems_def Let_def vec_wf_def)
  then show "pq_ok cmp (pq_swap_elems q i j)"
    "pq_list (pq_swap_elems q i j) = (pq_list q)[i := pq_list q ! j, j := pq_list q ! i]"
    using assms(1) by (simp_all add: pq_ok_def pq_list_def pq_swap_elems_def Let_def)
qed

sublocale total_cmp \<subseteq> pqs: sift_ops cmp pq_less pq_swap_elems pq_list "pq_ok cmp"
  by unfold_locales (auto simp: pq_less_eq pq_swap_elems_spec)

lemma is_heap_prefix: "is_heap cmp (xs @ ys) \<Longrightarrow> is_heap cmp xs"
  unfolding is_heap_def
proof (intro allI impI)
  fix i assume h: "\<forall>i>0. i < length (xs @ ys) \<longrightarrow> cmp ((xs @ ys) ! parent i) ((xs @ ys) ! i) \<le> 0"
    and i: "0 < i" "i < length xs"
  have "cmp ((xs @ ys) ! parent i) ((xs @ ys) ! i) \<le> 0" using h i by simp
  then show "cmp (xs ! parent i) (xs ! i) \<le> 0" using i by (simp add: nth_append)
qed

text \<open>A heap with one more element at the end is a heap but for that slot.\<close>

lemma heap_but_snoc:
  assumes "is_heap cmp xs"
  shows "heap_but cmp (xs @ [x]) (length xs)" and "below_ok cmp (xs @ [x]) (length xs)"
proof -
  have p: "parent i < length xs" if "0 < i" "i < Suc (length xs)" for i
    using parent_less [OF that(1)] that by linarith
  have old: "cmp ((xs @ [x]) ! parent i) ((xs @ [x]) ! i) \<le> 0" if "0 < i" "i < length xs" for i
    using assms that parent_lt [OF that] by (simp add: is_heap_def nth_append)
  show "heap_but cmp (xs @ [x]) (length xs)"
    unfolding heap_but_def
  proof (intro conjI allI impI)
    fix i assume "0 < i" "i < length (xs @ [x])" "i \<noteq> length xs"
    then show "cmp ((xs @ [x]) ! parent i) ((xs @ [x]) ! i) \<le> 0" by (intro old) simp_all
  next
    fix i assume "0 < i" "i < length (xs @ [x])" "parent i = length xs"
    then show "cmp ((xs @ [x]) ! parent (length xs)) ((xs @ [x]) ! i) \<le> 0" using p [of i] by simp
  qed
  show "below_ok cmp (xs @ [x]) (length xs)"
    unfolding below_ok_def
  proof (intro allI impI)
    fix i assume "0 < i" "i < length (xs @ [x])" "parent i = length xs"
    then show "cmp ((xs @ [x]) ! length xs) ((xs @ [x]) ! i) \<le> 0" using p [of i] by simp
  qed
qed

lemma swap_ends_butlast:
  assumes "1 < length xs"
  shows "butlast (xs[0 := xs ! (length xs - 1), length xs - 1 := xs ! 0]) = (butlast xs)[0 := last xs]"
proof -
  have "xs \<noteq> []" using assms by auto
  then show ?thesis
    using assms by (intro nth_equalityI) (auto simp: nth_butlast nth_list_update last_conv_nth)
qed

context total_cmp
begin

lemma pq_push_cases:
  assumes "pq_wf cmp q" "pq_push al q x = (q', r)"
  shows "pq_wf cmp q' \<and> (r = 0 \<and> mset (pq_list q') = add_mset x (mset (pq_list q)) \<or> r = -1 \<and> q' = q)"
proof -
  obtain v r1 where p: "vector_push_copy al (pq_items q) x = (v, r1)" by fastforce
  have wf: "vec_wf (pq_items q)" using assms(1) by (simp add: pq_wf_def pq_ok_def)
  note c = vector_push_copy_cases [OF wf p]
  show ?thesis
  proof (cases "r1 = 0")
    case False
    then show ?thesis using assms p c by (auto simp: pq_push_def Let_def)
  next
    case True
    let ?q = "q\<lparr>pq_items := v\<rparr>" and ?n = "length (pq_list q)"
    have l: "pq_list ?q = pq_list q @ [x]" and ok: "pq_ok cmp ?q"
      using c True assms(1) by (auto simp: pq_list_def pq_ok_def pq_wf_def)
    have n: "v_len (pq_items ?q) - 1 = ?n" using c True wf by (auto simp: pq_list_def)
    have h: "is_heap cmp (pq_list q)" using assms(1) by (simp add: pq_wf_def)
    have "q' = heap_sift_up pq_less pq_swap_elems ?q ?n" "r = 0"
      using assms(2) p True n by (auto simp: pq_push_def pq_sift_up_def Let_def)
    then show ?thesis
      using pqs.sift_up_spec [OF ok, of ?n] heap_but_snoc [OF h, of x] l by (simp add: pq_wf_def)
  qed
qed

lemma pq_pop_some:
  assumes "pq_wf cmp q" "pq_list q \<noteq> []"
  shows "\<exists>x q'. pq_pop q = (q', 0, Some x) \<and> x = pq_list q ! 0 \<and> pq_wf cmp q' \<and>
    mset (pq_list q) = add_mset x (mset (pq_list q')) \<and> (\<forall>y \<in> set (pq_list q). cmp x y \<le> 0)"
proof -
  let ?xs = "pq_list q" and ?v = "pq_items q"
  have wf: "vec_wf ?v" and ok: "pq_ok cmp q" and h: "is_heap cmp ?xs" using assms(1) by (simp_all add: pq_wf_def pq_ok_def)
  have len: "v_len ?v = length ?xs" using wf by (simp add: pq_list_def)
  then have pos: "0 < v_len ?v" using assms(2) by simp
  have out: "vector_get ?v 0 = Some (?xs ! 0)" using pos wf by (simp add: vector_get_eq pq_list_def)
  have least: "\<forall>y \<in> set ?xs. cmp (?xs ! 0) y \<le> 0" using heap_min [OF h] by (auto simp: in_set_conv_nth)
  show ?thesis
  proof (cases "v_len ?v = 1")
    case True
    let ?q = "q\<lparr>pq_items := vector_pop ?v\<rparr>"
    obtain x where x: "?xs = [x]" using True len by (metis length_0_conv length_Suc_conv One_nat_def)
    have "pq_pop q = (?q, 0, Some (?xs ! 0))" using True out by (simp add: pq_pop_def)
    moreover have "pq_list ?q = []" using vector_pop_spec(2) [OF wf] x by (simp add: pq_list_def)
    moreover have "pq_wf cmp ?q"
      using ok vector_pop_spec(1) [OF wf] calculation(2) by (simp add: pq_wf_def pq_ok_def is_heap_def)
    ultimately show ?thesis using x least by simp
  next
    case False
    then have n: "1 < length ?xs" using pos len by linarith
    let ?q1 = "pq_swap_elems q 0 (v_len ?v - 1)"
    let ?q2 = "?q1\<lparr>pq_items := vector_pop (pq_items ?q1)\<rparr>"
    have s: "pq_ok cmp ?q1" "pq_list ?q1 = ?xs[0 := ?xs ! (length ?xs - 1), length ?xs - 1 := ?xs ! 0]"
      using pq_swap_elems_spec [OF ok, of 0 "v_len ?v - 1"] n len assms(2) by simp_all
    have wf1: "vec_wf (pq_items ?q1)" using s(1) by (simp add: pq_ok_def)
    have l2: "pq_list ?q2 = (butlast ?xs)[0 := last ?xs]"
      using vector_pop_spec(2) [OF wf1] s(2) swap_ends_butlast [OF n] by (simp add: pq_list_def)
    have ok2: "pq_ok cmp ?q2" using s(1) vector_pop_spec(1) [OF wf1] by (simp add: pq_ok_def)
    have hb: "is_heap cmp (butlast ?xs)"
      using is_heap_prefix [of cmp "butlast ?xs" "[last ?xs]"] h assms(2) by simp
    have pos2: "0 < length (pq_list ?q2)" using n l2 by simp
    have but: "heap_but cmp (pq_list ?q2) 0"
      unfolding l2 by (rule heap_but_update, rule is_heap_heap_but [OF hb]) (use n in simp)
    have ab: "above_ok cmp (pq_list ?q2) 0" by (simp add: above_ok_def)
    have vl: "v_len (pq_items ?q2) = length (pq_list ?q2)" using ok2 by (simp add: pq_ok_def pq_list_def)
    note d = pqs.sift_down_spec [OF ok2 pos2 but ab vl]
    have eq: "pq_pop q = (pq_sift_down ?q2 0, 0, Some (?xs ! 0))"
      using n len out assms(2) by (simp add: pq_pop_def Let_def)
    have ne: "butlast ?xs \<noteq> []" using n by (metis length_butlast length_greater_0_conv zero_less_diff)
    then obtain y ys where ys: "butlast ?xs = y # ys" by (cases "butlast ?xs") auto
    have "?xs = y # ys @ [last ?xs]" using ys assms(2) by (metis append_Cons append_butlast_last_id)
    then have "mset ?xs = add_mset (?xs ! 0) (mset (pq_list ?q2))" unfolding l2 ys
      by (metis add_mset_commute list_update_code(2) mset.simps(2) mset_append nth_Cons_0 union_mset_add_mset_right
          add.right_neutral mset.simps(1))
    then show ?thesis using eq d least by (simp add: pq_wf_def pq_sift_down_def)
  qed
qed

end

section \<open>The queue is a bag with a least element\<close>

text \<open>Popping until the queue is empty, the elements in the order they leave.\<close>

function pq_drain :: "'a pqueue \<Rightarrow> 'a list" where
  "pq_drain q =
     (case pq_pop q of (q', r, x) \<Rightarrow>
        if r \<noteq> 0 \<or> v_len (pq_items q) \<le> v_len (pq_items q') then [] else the x # pq_drain q')"
  by pat_completeness auto
termination
  by (relation "measure (\<lambda>q. v_len (pq_items q))") auto

declare pq_drain.simps [simp del]

lemma pq_wf_len: "pq_wf cmp q \<Longrightarrow> v_len (pq_items q) = length (pq_list q)"
  by (simp add: pq_list_def pq_wf_def pq_ok_def)

lemma pq_pop_empty: "pq_wf cmp q \<Longrightarrow> pq_list q = [] \<Longrightarrow> pq_pop q = (q, -1, None)"
  using pq_wf_len [of cmp q] by (simp add: pq_pop_def)

context total_cmp
begin

lemma pq_drain_sorted:
  "pq_wf cmp q \<Longrightarrow> cmp_sorted cmp (pq_drain q) \<and> mset (pq_drain q) = mset (pq_list q)"
proof (induction "length (pq_list q)" arbitrary: q)
  case 0
  then show ?case using pq_pop_empty [of cmp q] by (subst (1 2) pq_drain.simps) simp
next
  case (Suc n)
  then have "pq_list q \<noteq> []" by auto
  then obtain x q' where p: "pq_pop q = (q', 0, Some x)" "pq_wf cmp q'"
      "mset (pq_list q) = add_mset x (mset (pq_list q'))" "\<forall>y \<in> set (pq_list q). cmp x y \<le> 0"
    using pq_pop_some [OF Suc.prems] by blast
  have len: "length (pq_list q) = Suc (length (pq_list q'))"
    using p(3) by (metis size_add_mset size_mset)
  have d: "pq_drain q = x # pq_drain q'"
    using p(1) len pq_wf_len [OF p(2)] pq_wf_len [OF Suc.prems] by (subst pq_drain.simps) simp
  have IH: "cmp_sorted cmp (pq_drain q') \<and> mset (pq_drain q') = mset (pq_list q')"
    using Suc.hyps(1) [of q'] Suc.hyps(2) len p(2) by simp
  then have "set (pq_drain q') \<subseteq> set (pq_list q)"
    using p(3) by (metis mset_eq_setD set_mset_add_mset_insert set_mset_mset subset_insertI)
  then show ?case using d IH p(3,4) by auto
qed

end

lemma pq_init_wf: "e < U32 \<Longrightarrow> pq_wf cmp (pq_init e cmp) \<and> pq_list (pq_init e cmp) = []"
  by (simp add: pq_init_def pq_wf_def pq_ok_def pq_list_def is_heap_def vector_init_wf)

text \<open>
  C8: A priority queue over a consistent comparator is a bag: a push that finds the memory adds exactly
  its element, one that does not changes nothing; a pop and a peek deliver an element no other
  precedes, the pop removing exactly that one, and both report an empty queue; popping all delivers
  every element once, in order.
\<close>

theorem pq_refines_bag:
  assumes "total_cmp cmp" and "pq_wf cmp q"
  shows "(case pq_push al q x of (q', r) \<Rightarrow>
       pq_wf cmp q' \<and> (r = 0 \<and> mset (pq_list q') = add_mset x (mset (pq_list q)) \<or> r = -1 \<and> q' = q)) \<and>
     (if pq_list q = [] then pq_pop q = (q, -1, None) \<and> pq_peek q = None
      else \<exists>y q'. pq_pop q = (q', 0, Some y) \<and> pq_peek q = Some y \<and> pq_wf cmp q' \<and>
        mset (pq_list q) = add_mset y (mset (pq_list q')) \<and> (\<forall>z \<in> set (pq_list q). cmp y z \<le> 0)) \<and>
     cmp_sorted cmp (pq_drain q) \<and> mset (pq_drain q) = mset (pq_list q)"
proof (intro conjI)
  have wf: "vec_wf (pq_items q)" using assms(2) by (simp add: pq_wf_def pq_ok_def)
  show "case pq_push al q x of (q', r) \<Rightarrow>
      pq_wf cmp q' \<and> (r = 0 \<and> mset (pq_list q') = add_mset x (mset (pq_list q)) \<or> r = -1 \<and> q' = q)"
    using total_cmp.pq_push_cases [OF assms] by (auto split: prod.splits)
  show "if pq_list q = [] then pq_pop q = (q, -1, None) \<and> pq_peek q = None
      else \<exists>y q'. pq_pop q = (q', 0, Some y) \<and> pq_peek q = Some y \<and> pq_wf cmp q' \<and>
        mset (pq_list q) = add_mset y (mset (pq_list q')) \<and> (\<forall>z \<in> set (pq_list q). cmp y z \<le> 0)"
    using pq_pop_empty [OF assms(2)] total_cmp.pq_pop_some [OF assms] pq_wf_len [OF assms(2)]
    by (auto simp: pq_peek_def vector_get_eq [OF wf] pq_list_def)
qed (use total_cmp.pq_drain_sorted [OF assms] in simp_all)

theorem pq_refines_bag_witness:
  "(case pq_push (\<lambda>i. True) (pq_init 4 ds_cmp_int) 7 of (q', r) \<Rightarrow> pq_wf ds_cmp_int q') \<and>
   pq_pop (pq_init 4 ds_cmp_int) = (pq_init 4 ds_cmp_int, -1, None)"
  using pq_refines_bag [OF cmp_int.total_cmp_axioms, where q = "pq_init 4 ds_cmp_int" and al = "\<lambda>i. True" and x = 7]
    pq_init_wf [of 4 ds_cmp_int] by (auto split: prod.splits)

end
