(* ===== verification/Iheap.thy ===== *)
theory Iheap
  imports Pqueue
begin

text \<open>
  \<open>src/ceres/ds/iheap.c\<close>: the binary heap with a stable handle per element. Items stay where they were
  pushed; the heap orders their handles, and a third array tells where in the heap each handle is. The
  sifts are those of the priority queue, over the items the heap's handles name.
\<close>

definition IH_NOT_IN_HEAP :: nat where
  "IH_NOT_IN_HEAP = 0xFFFFFFFF"

record 'a iheap =
  ih_items :: "'a vector"
  ih_heap :: "nat vector"
  ih_pos :: "nat vector"
  ih_cmp :: "'a comparator"

definition ih_init :: "nat \<Rightarrow> 'a comparator \<Rightarrow> 'a iheap" where
  "ih_init elem_size cmp =
     \<lparr>ih_items = vector_init elem_size, ih_heap = vector_init 4, ih_pos = vector_init 4, ih_cmp = cmp\<rparr>"

definition ih_free :: "'a iheap \<Rightarrow> 'a iheap" where
  "ih_free h = h\<lparr>ih_items := vector_free (ih_items h), ih_heap := vector_free (ih_heap h),
     ih_pos := vector_free (ih_pos h)\<rparr>"

definition ih_len :: "'a iheap \<Rightarrow> nat" where
  "ih_len h = v_len (ih_heap h)"

definition ih_item_of :: "'a iheap \<Rightarrow> nat \<Rightarrow> 'a option" where
  "ih_item_of h heap_pos = vector_get (ih_items h) (the (vector_get (ih_heap h) heap_pos))"

definition ih_peek :: "'a iheap \<Rightarrow> 'a option" where
  "ih_peek h =
     (if v_len (ih_heap h) = 0 then None
      else let handle = the (vector_get (ih_heap h) 0) in vector_get (ih_items h) handle)"

definition ih_swap_heap :: "'a iheap \<Rightarrow> nat \<Rightarrow> nat \<Rightarrow> 'a iheap" where
  "ih_swap_heap h i j =
     (let a = the (vector_get (ih_heap h) i);
          b = the (vector_get (ih_heap h) j);
          heap = vector_put (vector_put (ih_heap h) i b) j a;
          pos = vector_put (vector_put (ih_pos h) b i) a j
      in h\<lparr>ih_heap := heap, ih_pos := pos\<rparr>)"

definition ih_less :: "'a iheap \<Rightarrow> nat \<Rightarrow> nat \<Rightarrow> int" where
  "ih_less h i j = ih_cmp h (the (ih_item_of h i)) (the (ih_item_of h j))"

definition ih_sift_up :: "'a iheap \<Rightarrow> nat \<Rightarrow> 'a iheap" where
  "ih_sift_up h i = heap_sift_up ih_less ih_swap_heap h i"

definition ih_sift_down :: "'a iheap \<Rightarrow> nat \<Rightarrow> 'a iheap" where
  "ih_sift_down h i = heap_sift_down ih_less ih_swap_heap (v_len (ih_heap h)) h i"

definition ih_push :: "allocs \<Rightarrow> 'a iheap \<Rightarrow> 'a \<Rightarrow> 'a iheap \<times> nat" where
  "ih_push al h item =
     (let handle = v_len (ih_items h); heap_pos = v_len (ih_heap h)
      in case vector_reserve al (ih_items h) (add32 handle 1) of (v, r) \<Rightarrow>
           let h = h\<lparr>ih_items := v\<rparr>
           in if r \<noteq> 0 then (h, IH_NOT_IN_HEAP)
              else case vector_reserve (al_drop 1 al) (ih_heap h) (add32 heap_pos 1) of (v, r) \<Rightarrow>
                let h = h\<lparr>ih_heap := v\<rparr>
                in if r \<noteq> 0 then (h, IH_NOT_IN_HEAP)
                   else case vector_reserve (al_drop 2 al) (ih_pos h) (add32 handle 1) of (v, r) \<Rightarrow>
                     let h = h\<lparr>ih_pos := v\<rparr>
                     in if r \<noteq> 0 then (h, IH_NOT_IN_HEAP)
                        else
                          let h = h\<lparr>ih_items := fst (vector_push_copy (al_drop 3 al) (ih_items h) item)\<rparr>;
                              h = h\<lparr>ih_heap := fst (vector_push_copy (al_drop 4 al) (ih_heap h) handle)\<rparr>;
                              h = h\<lparr>ih_pos := fst (vector_push_copy (al_drop 5 al) (ih_pos h) heap_pos)\<rparr>
                          in (ih_sift_up h heap_pos, handle))"

definition ih_pop :: "'a iheap \<Rightarrow> 'a iheap \<times> int \<times> 'a option" where
  "ih_pop h =
     (if v_len (ih_heap h) = 0 then (h, -1, None)
      else
        let top_handle = the (vector_get (ih_heap h) 0);
            out = vector_get (ih_items h) top_handle;
            last = v_len (ih_heap h) - 1;
            h = (if 0 < last then ih_swap_heap h 0 last else h);
            h = h\<lparr>ih_heap := vector_pop (ih_heap h)\<rparr>;
            h = h\<lparr>ih_pos := vector_put (ih_pos h) top_handle IH_NOT_IN_HEAP\<rparr>;
            h = (if 0 < last then ih_sift_down h 0 else h)
        in (h, 0, out))"

definition ih_decrease :: "'a iheap \<Rightarrow> nat \<Rightarrow> 'a \<Rightarrow> 'a iheap" where
  "ih_decrease h handle new_item =
     (if v_len (ih_pos h) \<le> handle then h
      else
        let p = the (vector_get (ih_pos h) handle)
        in if p = IH_NOT_IN_HEAP then h
           else
             let h = h\<lparr>ih_items := vector_put (ih_items h) handle new_item\<rparr>;
                 h = ih_sift_up h p;
                 p = the (vector_get (ih_pos h) handle)
             in ih_sift_down h p)"

definition ih_remove :: "'a iheap \<Rightarrow> nat \<Rightarrow> 'a iheap" where
  "ih_remove h handle =
     (if v_len (ih_pos h) \<le> handle then h
      else
        let p = the (vector_get (ih_pos h) handle)
        in if p = IH_NOT_IN_HEAP then h
           else
             let last = v_len (ih_heap h) - 1;
                 h = (if p \<noteq> last
                      then let h = ih_swap_heap h p last;
                               h = h\<lparr>ih_heap := vector_pop (ih_heap h)\<rparr>;
                               h = ih_sift_up h p
                           in ih_sift_down h p
                      else h\<lparr>ih_heap := vector_pop (ih_heap h)\<rparr>)
             in h\<lparr>ih_pos := vector_put (ih_pos h) handle IH_NOT_IN_HEAP\<rparr>)"

section \<open>Representation\<close>

definition ih_list :: "'a iheap \<Rightarrow> 'a list" where
  "ih_list h = map (\<lambda>k. vlist (ih_items h) ! k) (vlist (ih_heap h))"

text \<open>The three arrays agree: what the heap says of a handle, \<open>pos\<close> says as well.\<close>

definition ih_ok :: "'a comparator \<Rightarrow> 'a iheap \<Rightarrow> bool" where
  "ih_ok cmp h \<longleftrightarrow> ih_cmp h = cmp \<and> vec_wf (ih_items h) \<and> vec_wf (ih_heap h) \<and> vec_wf (ih_pos h) \<and>
     v_elem (ih_heap h) = 4 \<and> v_elem (ih_pos h) = 4 \<and>
     v_len (ih_pos h) = v_len (ih_items h) \<and>
     (\<forall>i < v_len (ih_heap h). vlist (ih_heap h) ! i < v_len (ih_pos h) \<and>
        vlist (ih_pos h) ! (vlist (ih_heap h) ! i) = i)"

text \<open>Every handle that is not in the heap is marked so.\<close>

definition ih_wf :: "'a comparator \<Rightarrow> 'a iheap \<Rightarrow> bool" where
  "ih_wf cmp h \<longleftrightarrow> ih_ok cmp h \<and> is_heap cmp (ih_list h) \<and>
     (\<forall>k < length (vlist (ih_pos h)). k \<notin> set (vlist (ih_heap h)) \<longrightarrow> vlist (ih_pos h) ! k = IH_NOT_IN_HEAP)"

text \<open>What the structure means: the elements still in the heap, by handle.\<close>

definition ih_map :: "'a iheap \<Rightarrow> nat \<Rightarrow> 'a option" where
  "ih_map h k = (if k \<in> set (vlist (ih_heap h)) then Some (vlist (ih_items h) ! k) else None)"

lemma ih_ok_distinct: "ih_ok cmp h \<Longrightarrow> distinct (vlist (ih_heap h))"
  unfolding distinct_conv_nth ih_ok_def by (metis length_vlist)

lemma length_ih_list [simp]: "length (ih_list h) = length (vlist (ih_heap h))"
  by (simp add: ih_list_def)

lemma ih_ok_wf:
  assumes "ih_ok cmp h"
  shows "vec_wf (ih_items h)" and "vec_wf (ih_heap h)" and "vec_wf (ih_pos h)"
  using assms by (simp_all add: ih_ok_def)

lemma ih_ok_elems:
  assumes "ih_ok cmp h"
  shows "ih_cmp h = cmp" and "v_elem (ih_heap h) = 4" and "v_elem (ih_pos h) = 4"
  using assms by (simp_all add: ih_ok_def)

lemma ih_ok_lens: "ih_ok cmp h \<Longrightarrow> v_len (ih_pos h) = v_len (ih_items h)"
  by (simp add: ih_ok_def)

lemma ih_ok_handle:
  assumes "ih_ok cmp h" "i < v_len (ih_heap h)"
  shows "vlist (ih_heap h) ! i < v_len (ih_items h)"
    and "vlist (ih_heap h) ! i < v_len (ih_pos h)"
    and "vlist (ih_pos h) ! (vlist (ih_heap h) ! i) = i"
  using assms ih_ok_lens [OF assms(1)] unfolding ih_ok_def by metis+

lemma word_vector_bound: "vec_wf v \<Longrightarrow> v_elem v = 4 \<Longrightarrow> v_len v < IH_NOT_IN_HEAP"
  using vec_wf_len [of v] by (simp add: vec_wf_def IH_NOT_IN_HEAP_def)

lemma ih_heap_bound: "ih_ok cmp h \<Longrightarrow> v_len (ih_heap h) < IH_NOT_IN_HEAP \<and> v_len (ih_pos h) < IH_NOT_IN_HEAP"
  using word_vector_bound [of "ih_heap h"] word_vector_bound [of "ih_pos h"] by (simp add: ih_ok_def)

lemma ih_item_nth:
  "ih_ok cmp h \<Longrightarrow> i < length (vlist (ih_heap h)) \<Longrightarrow> ih_item_of h i = Some (ih_list h ! i)"
  using ih_ok_handle(1) [of cmp h i] ih_ok_wf [of cmp h] by (simp add: ih_item_of_def vector_get_eq ih_list_def)

lemma ih_less_eq:
  "ih_ok cmp h \<Longrightarrow> i < length (ih_list h) \<Longrightarrow> j < length (ih_list h) \<Longrightarrow>
     ih_less h i j = cmp (ih_list h ! i) (ih_list h ! j)"
  by (simp add: ih_less_def ih_item_nth) (simp add: ih_ok_def)

lemma ih_swap_heap_spec:
  assumes "ih_ok cmp h" "i < length (ih_list h)" "j < length (ih_list h)" "i \<noteq> j"
  defines "hs \<equiv> vlist (ih_heap h)"
  shows "vlist (ih_heap (ih_swap_heap h i j)) = hs[i := hs ! j, j := hs ! i]"
    and "vlist (ih_pos (ih_swap_heap h i j)) = (vlist (ih_pos h))[hs ! j := i, hs ! i := j]"
    and "ih_items (ih_swap_heap h i j) = ih_items h"
    and "ih_ok cmp (ih_swap_heap h i j)"
    and "ih_list (ih_swap_heap h i j) = (ih_list h)[i := ih_list h ! j, j := ih_list h ! i]"
proof -
  let ?g = "ih_swap_heap h i j"
  have wf: "vec_wf (ih_heap h)" "vec_wf (ih_pos h)" using assms(1) by (simp_all add: ih_ok_def)
  have ij: "i < length hs" "j < length hs" using assms(2,3) by (simp_all add: hs_def)
  have get: "vector_get (ih_heap h) i = Some (hs ! i)" "vector_get (ih_heap h) j = Some (hs ! j)"
    using ij wf by (simp_all add: vector_get_eq hs_def)
  show hp: "vlist (ih_heap ?g) = hs[i := hs ! j, j := hs ! i]"
    and ps: "vlist (ih_pos ?g) = (vlist (ih_pos h))[hs ! j := i, hs ! i := j]"
    and it: "ih_items ?g = ih_items h"
    using wf by (simp_all add: ih_swap_heap_def Let_def get vector_put_spec hs_def)
  have d: "distinct hs" using ih_ok_distinct [OF assms(1)] by (simp add: hs_def)
  have ne: "hs ! i \<noteq> hs ! j" using d ij assms(4) by (simp add: nth_eq_iff_index_eq)
  have wfg: "vec_wf (ih_heap ?g)" "vec_wf (ih_pos ?g)" "v_elem (ih_heap ?g) = 4" "v_elem (ih_pos ?g) = 4"
    "ih_cmp ?g = cmp" using assms(1) wf by (simp_all add: ih_swap_heap_def Let_def vector_put_spec ih_ok_def)
  have "vlist (ih_pos ?g) ! (vlist (ih_heap ?g) ! k) = k \<and> vlist (ih_heap ?g) ! k < length (vlist (ih_pos h))"
    if k: "k < length hs" for k
  proof -
    have old: "hs ! m < length (vlist (ih_pos h)) \<and> vlist (ih_pos h) ! (hs ! m) = m" if "m < length hs" for m
      using ih_ok_handle [OF assms(1), of m] that wf by (simp add: hs_def)
    consider "k = i" | "k = j" | "k \<noteq> i" "k \<noteq> j" by blast
    then show ?thesis
    proof cases
      case 3
      then have "hs ! k \<noteq> hs ! i" "hs ! k \<noteq> hs ! j" using d ij k by (simp_all add: nth_eq_iff_index_eq)
      then show ?thesis using 3 old [OF k] by (simp add: hp ps)
    qed (use old ij ne assms(4) in \<open>simp_all add: hp ps\<close>)
  qed
  moreover have "v_len (ih_heap ?g) = v_len (ih_heap h)" "v_len (ih_pos ?g) = v_len (ih_pos h)"
    by (simp_all add: ih_swap_heap_def Let_def)
  ultimately show "ih_ok cmp ?g" using assms(1) wf wfg unfolding ih_ok_def it by (simp add: hs_def)
  show "ih_list ?g = (ih_list h)[i := ih_list h ! j, j := ih_list h ! i]"
    using ij by (simp add: ih_list_def hp it map_update hs_def)
qed

lemma ih_swap_heap_len [simp]:
  "v_len (ih_heap (ih_swap_heap h i j)) = v_len (ih_heap h)"
  "v_len (ih_pos (ih_swap_heap h i j)) = v_len (ih_pos h)"
  by (simp_all add: ih_swap_heap_def Let_def)

sublocale total_cmp \<subseteq> ihs: sift_ops cmp ih_less ih_swap_heap ih_list "ih_ok cmp"
  by unfold_locales (auto simp: ih_less_eq ih_swap_heap_spec)

text \<open>What no exchange touches: the items, which handles are in the heap, and \<open>pos\<close> of the others.\<close>

definition ih_frame :: "'a iheap \<Rightarrow> 'a iheap \<Rightarrow> bool" where
  "ih_frame g h \<longleftrightarrow> ih_items h = ih_items g \<and> set (vlist (ih_heap h)) = set (vlist (ih_heap g)) \<and>
     length (vlist (ih_heap h)) = length (vlist (ih_heap g)) \<and>
     length (vlist (ih_pos h)) = length (vlist (ih_pos g)) \<and>
     (\<forall>k. k \<notin> set (vlist (ih_heap g)) \<longrightarrow> vlist (ih_pos h) ! k = vlist (ih_pos g) ! k)"

lemma ih_frame_refl [simp]: "ih_frame g g"
  by (simp add: ih_frame_def)

lemma ih_frame_trans: "ih_frame f g \<Longrightarrow> ih_frame g h \<Longrightarrow> ih_frame f h"
  by (simp add: ih_frame_def)

lemma ih_frame_swap:
  assumes "ih_frame g h" "ih_ok cmp h" "i < length (ih_list h)" "j < length (ih_list h)" "i \<noteq> j"
  shows "ih_frame g (ih_swap_heap h i j)"
proof -
  note sp = ih_swap_heap_spec [OF assms(2-5)]
  have ij: "i < length (vlist (ih_heap h))" "j < length (vlist (ih_heap h))" using assms(3,4) by simp_all
  have "set ((vlist (ih_heap h))[i := vlist (ih_heap h) ! j, j := vlist (ih_heap h) ! i]) = set (vlist (ih_heap h))"
    using mset_swap2 [OF ij] by (metis set_mset_mset)
  moreover have "vlist (ih_heap h) ! i \<in> set (vlist (ih_heap h))" "vlist (ih_heap h) ! j \<in> set (vlist (ih_heap h))"
    using ij by simp_all
  ultimately show ?thesis using assms(1) by (auto simp: ih_frame_def sp) (metis nth_list_update_neq)
qed

section \<open>Sifting keeps the frame\<close>

context total_cmp
begin

lemma ih_sift_up_frame:
  "ih_ok cmp h \<Longrightarrow> k < v_len (ih_heap h) \<Longrightarrow> ih_frame h (ih_sift_up h k) \<and> ih_ok cmp (ih_sift_up h k)"
  unfolding ih_sift_up_def
  by (rule ihs.sift_up_keeps) (auto intro: ih_frame_swap simp: ih_ok_wf)

lemma ih_sift_down_frame:
  "ih_ok cmp h \<Longrightarrow> k < v_len (ih_heap h) \<Longrightarrow> ih_frame h (ih_sift_down h k) \<and> ih_ok cmp (ih_sift_down h k)"
  unfolding ih_sift_down_def
  by (rule ihs.sift_down_keeps) (auto intro: ih_frame_swap simp: ih_ok_wf)

lemma ih_frame_len: "ih_ok cmp g \<Longrightarrow> ih_ok cmp h \<Longrightarrow> ih_frame g h \<Longrightarrow> v_len (ih_heap h) = v_len (ih_heap g)"
  by (simp add: ih_frame_def ih_ok_wf)

text \<open>Sifting an element up and then down restores the order, wherever the second sift starts.\<close>

lemma ih_settle:
  assumes "ih_ok cmp h" "p < v_len (ih_heap h)" "heap_but cmp (ih_list h) p"
    "q < v_len (ih_heap h)" "ih_sift_up h p = h \<Longrightarrow> q = p"
  shows "ih_ok cmp (ih_sift_down (ih_sift_up h p) q) \<and> is_heap cmp (ih_list (ih_sift_down (ih_sift_up h p) q)) \<and>
    ih_frame h (ih_sift_down (ih_sift_up h p) q)"
proof -
  have up: "ih_frame h (ih_sift_up h p) \<and> ih_ok cmp (ih_sift_up h p)"
    by (rule ih_sift_up_frame [OF assms(1,2)])
  then have len: "v_len (ih_heap (ih_sift_up h p)) = v_len (ih_heap h)" using ih_frame_len [OF assms(1)] by blast
  have "ih_frame (ih_sift_up h p) (ih_sift_down (ih_sift_up h p) q)"
    using ih_sift_down_frame [of "ih_sift_up h p" q] up assms(4) len by simp
  moreover have n: "length (ih_list h) = v_len (ih_heap h)" using assms(1) by (simp add: ih_ok_wf)
  moreover have "ih_sift_down (ih_sift_up h p) q =
      heap_sift_down ih_less ih_swap_heap (v_len (ih_heap h)) (heap_sift_up ih_less ih_swap_heap h p) q"
    by (simp only: ih_sift_down_def len) (simp only: ih_sift_up_def)
  moreover have pl: "p < length (ih_list h)" "q < length (ih_list h)" using assms(2,4) n by simp_all
  note ihs.up_then_down [OF assms(1) pl(1) assms(3) n [symmetric] pl(2) assms(5) [unfolded ih_sift_up_def]]
  ultimately show ?thesis using up ih_frame_trans by metis
qed

end

section \<open>The operations on the map of handles\<close>

lemma ih_frame_map: "ih_frame g h \<Longrightarrow> ih_map h = ih_map g"
  by (auto simp: ih_frame_def ih_map_def fun_eq_iff)

lemma ih_wf_frame:
  assumes "ih_frame g h" "ih_ok cmp h" "is_heap cmp (ih_list h)"
    and "\<forall>k < length (vlist (ih_pos g)). k \<notin> set (vlist (ih_heap g)) \<longrightarrow> vlist (ih_pos g) ! k = IH_NOT_IN_HEAP"
  shows "ih_wf cmp h"
  using assms by (simp add: ih_wf_def ih_frame_def)

lemma vector_reserve_push:
  assumes "vec_wf v" "vector_reserve al v (v_len v + 1) = (v', 0)" "w = fst (vector_push_copy al' v' x)"
  shows "vec_wf w \<and> vlist w = vlist v @ [x] \<and> v_len w = Suc (v_len v) \<and> v_elem w = v_elem v"
proof -
  obtain r where p: "vector_push_copy al' v' x = (w, r)" using assms(3) by (metis prod.exhaust_sel)
  have c: "vec_wf v' \<and> vlist v' = vlist v \<and> v_len v' = v_len v \<and> v_elem v' = v_elem v \<and> v_len v + 1 \<le> v_cap v'"
    using vector_reserve_cases [OF assms(1,2)] by auto
  then show ?thesis using vector_push_copy_cases [OF _ p] by auto
qed

lemma ih_map_handle: "ih_ok cmp h \<Longrightarrow> ih_map h k = Some x \<Longrightarrow> k < v_len (ih_items h)"
  using ih_ok_handle(1) [of cmp h] by (auto simp: ih_map_def in_set_conv_nth ih_ok_wf split: if_splits)

lemma ih_pos_in_heap:
  assumes "ih_wf cmp h" "k < v_len (ih_pos h)"
  defines "p \<equiv> vlist (ih_pos h) ! k"
  shows "k \<in> set (vlist (ih_heap h)) \<longleftrightarrow> p \<noteq> IH_NOT_IN_HEAP"
    and "p \<noteq> IH_NOT_IN_HEAP \<Longrightarrow> p < v_len (ih_heap h) \<and> vlist (ih_heap h) ! p = k"
proof -
  have ok: "ih_ok cmp h" using assms(1) by (simp add: ih_wf_def)
  have a: "p < v_len (ih_heap h) \<and> vlist (ih_heap h) ! p = k" if "k \<in> set (vlist (ih_heap h))"
    using that ih_ok_handle(3) [OF ok] ih_ok_wf(2) [OF ok] by (auto simp: p_def in_set_conv_nth)
  moreover have b: "p = IH_NOT_IN_HEAP" if "k \<notin> set (vlist (ih_heap h))"
    using that assms(1,2) ok by (simp add: p_def ih_wf_def ih_ok_wf)
  ultimately show "k \<in> set (vlist (ih_heap h)) \<longleftrightarrow> p \<noteq> IH_NOT_IN_HEAP"
    using ih_heap_bound [OF ok] by auto
  then show "p \<noteq> IH_NOT_IN_HEAP \<Longrightarrow> p < v_len (ih_heap h) \<and> vlist (ih_heap h) ! p = k" using a by blast
qed

lemma ih_map_range: "ih_ok cmp h \<Longrightarrow> ih_map h k = Some y \<Longrightarrow> y \<in> set (ih_list h)"
  by (auto simp: ih_map_def ih_list_def split: if_splits)

context total_cmp
begin

lemma ih_push_cases:
  assumes "ih_wf cmp h" "ih_push al h x = (h', k)"
  shows "ih_wf cmp h' \<and> (k = IH_NOT_IN_HEAP \<and> ih_map h' = ih_map h \<or>
    k \<noteq> IH_NOT_IN_HEAP \<and> k = v_len (ih_items h) \<and> ih_map h k = None \<and> ih_map h' = (ih_map h)(k \<mapsto> x))"
proof -
  have ok: "ih_ok cmp h" using assms(1) by (simp add: ih_wf_def)
  note wf = ih_ok_wf [OF ok] and bound = ih_heap_bound [OF ok] and lens = ih_ok_lens [OF ok]
  have add: "add32 (v_len (ih_items h)) 1 = v_len (ih_items h) + 1" "add32 (v_len (ih_heap h)) 1 = v_len (ih_heap h) + 1"
    using bound lens by (simp_all add: IH_NOT_IN_HEAP_def)
  obtain vi ri vh rh vp rp where r:
    "vector_reserve al (ih_items h) (v_len (ih_items h) + 1) = (vi, ri)"
    "vector_reserve (al_drop 1 al) (ih_heap h) (v_len (ih_heap h) + 1) = (vh, rh)"
    "vector_reserve (al_drop 2 al) (ih_pos h) (v_len (ih_pos h) + 1) = (vp, rp)" by fastforce
  note c = vector_reserve_cases [OF wf(1) r(1)] vector_reserve_cases [OF wf(2) r(2)]
    vector_reserve_cases [OF wf(3) r(3)]
  show ?thesis
  proof (cases "ri = 0 \<and> rh = 0 \<and> rp = 0")
    case False
    then have "k = IH_NOT_IN_HEAP \<and>
      (h' = h\<lparr>ih_items := vi\<rparr> \<or> h' = h\<lparr>ih_items := vi, ih_heap := vh\<rparr> \<or>
       h' = h\<lparr>ih_items := vi, ih_heap := vh, ih_pos := vp\<rparr>)"
      using assms(2) r lens
      by (cases "ri = 0"; cases "rh = 0"; cases "rp = 0") (simp_all add: ih_push_def Let_def add [simplified])
    then show ?thesis using assms(1) c by (auto simp: ih_wf_def ih_ok_def ih_list_def ih_map_def)
  next
    case True
    define n where "n = v_len (ih_items h)"
    define hp where "hp = v_len (ih_heap h)"
    define g where "g = h\<lparr>ih_items := fst (vector_push_copy (al_drop 3 al) vi x),
      ih_heap := fst (vector_push_copy (al_drop 4 al) vh n), ih_pos := fst (vector_push_copy (al_drop 5 al) vp hp)\<rparr>"
    have h': "h' = ih_sift_up g hp" and k: "k = n"
      using assms(2) r True lens by (auto simp: ih_push_def Let_def add [simplified] g_def n_def hp_def)
    have i: "vec_wf (ih_items g) \<and> vlist (ih_items g) = vlist (ih_items h) @ [x] \<and> v_len (ih_items g) = Suc n"
      using vector_reserve_push [OF wf(1) _ refl, of al vi "al_drop 3 al" x] r(1) True by (simp add: g_def n_def)
    have hh: "vec_wf (ih_heap g) \<and> vlist (ih_heap g) = vlist (ih_heap h) @ [n] \<and> v_len (ih_heap g) = Suc hp \<and>
        v_elem (ih_heap g) = v_elem (ih_heap h)"
      using vector_reserve_push [OF wf(2) _ refl, of "al_drop 1 al" vh "al_drop 4 al" n] r(2) True by (simp add: g_def hp_def)
    have p: "vec_wf (ih_pos g) \<and> vlist (ih_pos g) = vlist (ih_pos h) @ [hp] \<and> v_len (ih_pos g) = Suc n \<and>
        v_elem (ih_pos g) = v_elem (ih_pos h)"
      using vector_reserve_push [OF wf(3) _ refl, of "al_drop 2 al" vp "al_drop 5 al" hp] r(3) True lens by (simp add: g_def n_def)
    have li: "length (vlist (ih_items h)) = n" "length (vlist (ih_heap h)) = hp" "length (vlist (ih_pos h)) = n"
      using wf lens by (simp_all add: n_def hp_def)
    have lt: "vlist (ih_heap h) ! i < n" if "i < hp" for i
      using ih_ok_handle(1) [OF ok, of i] that by (simp add: n_def hp_def)
    have fresh: "n \<notin> set (vlist (ih_heap h))" using lt li by (fastforce simp: in_set_conv_nth)
    have "vlist (ih_heap g) ! i < v_len (ih_pos g) \<and> vlist (ih_pos g) ! (vlist (ih_heap g) ! i) = i"
      if "i < Suc hp" for i
      using lt [of i] that ih_ok_handle(3) [OF ok, of i] li hh p
      by (cases "i < hp") (auto simp: nth_append hp_def [symmetric] n_def [symmetric] less_Suc_eq)
    then have okg: "ih_ok cmp g" using ok i hh p by (simp add: ih_ok_def g_def)
    have lg: "ih_list g = ih_list h @ [x]"
      using i hh li lt by (auto simp: ih_list_def nth_append in_set_conv_nth)
    have heap: "is_heap cmp (ih_list h)" using assms(1) by (simp add: ih_wf_def)
    have hpl: "length (ih_list h) = hp" using li by simp
    have up: "ih_ok cmp h' \<and> is_heap cmp (ih_list h')"
      using ihs.sift_up_spec [OF okg, of hp] heap_but_snoc [OF heap, of x] lg hpl by (simp add: h' ih_sift_up_def)
    have fr: "ih_frame g h'" using ih_sift_up_frame [OF okg, of hp] hh by (simp add: h')
    have "vlist (ih_pos g) ! m = IH_NOT_IN_HEAP" if "m < length (vlist (ih_pos g))" "m \<notin> set (vlist (ih_heap g))" for m
    proof -
      have "m < n" using that p hh li by simp
      then show ?thesis using assms(1) that p hh li by (simp add: ih_wf_def nth_append)
    qed
    then have "ih_wf cmp h'" using ih_wf_frame [OF fr] up by blast
    moreover have "ih_map h' = (ih_map h)(n \<mapsto> x)"
      unfolding ih_frame_map [OF fr] using i hh li lt
      by (auto simp: ih_map_def fun_eq_iff nth_append in_set_conv_nth)
    moreover have "n \<noteq> IH_NOT_IN_HEAP" using bound lens by (simp add: n_def)
    ultimately show ?thesis using k fresh by (simp add: ih_map_def n_def)
  qed
qed

end

section \<open>Taking a handle out\<close>

text \<open>The heap without slot \<open>p\<close>: the last handle takes its place.\<close>

definition ih_unlink :: "'a iheap \<Rightarrow> nat \<Rightarrow> 'a iheap" where
  "ih_unlink h p =
     (let last = v_len (ih_heap h) - 1;
          h = (if p \<noteq> last then ih_swap_heap h p last else h)
      in h\<lparr>ih_heap := vector_pop (ih_heap h)\<rparr>)"

definition ih_mark :: "'a iheap \<Rightarrow> nat \<Rightarrow> 'a iheap" where
  "ih_mark h k = h\<lparr>ih_pos := vector_put (ih_pos h) k IH_NOT_IN_HEAP\<rparr>"

lemma swap_last_butlast:
  assumes "p < length xs" "p \<noteq> length xs - 1"
  shows "butlast (xs[p := xs ! (length xs - 1), length xs - 1 := xs ! p]) = (butlast xs)[p := last xs]"
proof -
  have "xs \<noteq> []" using assms by auto
  then show ?thesis
    using assms by (intro nth_equalityI) (auto simp: nth_butlast nth_list_update last_conv_nth)
qed

lemma set_butlast_update:
  assumes "distinct xs" "p < length xs"
  shows "set ((butlast xs)[p := last xs]) = set xs - {xs ! p}"
proof -
  obtain ys y where xs: "xs = ys @ [y]" using assms by (metis append_butlast_last_id list.size(3) not_less0)
  show ?thesis
  proof (cases "p < length ys")
    case True
    then have "ys = take p ys @ ys ! p # drop (Suc p) ys" by (simp add: id_take_nth_drop)
    then have "distinct (take p ys @ ys ! p # drop (Suc p) ys)" "y \<notin> set ys"
      "set ys = set (take p ys) \<union> {ys ! p} \<union> set (drop (Suc p) ys)"
      using assms(1) xs by (auto, (metis Un_iff set_append set_simps(2) insert_iff)+)
    then show ?thesis using True xs by (auto simp: upd_conv_take_nth_drop nth_append)
  next
    case False
    then have "p = length ys" using assms(2) xs by simp
    then show ?thesis using assms(1) xs by (auto simp: list_update_beyond)
  qed
qed

lemma ih_unlink_spec:
  assumes "ih_ok cmp h" "p < v_len (ih_heap h)"
  defines "g \<equiv> ih_unlink h p" and "hs \<equiv> vlist (ih_heap h)"
  shows "ih_ok cmp g" and "vlist (ih_heap g) = (butlast hs)[p := last hs]" and "ih_items g = ih_items h"
    and "v_len (ih_heap g) = v_len (ih_heap h) - 1" and "v_len (ih_pos g) = v_len (ih_pos h)"
    and "\<And>m. m \<notin> set hs \<Longrightarrow> vlist (ih_pos g) ! m = vlist (ih_pos h) ! m"
    and "ih_list g = (butlast (ih_list h))[p := last (ih_list h)]"
proof -
  define n where "n = v_len (ih_heap h)"
  define f where "f = (if p \<noteq> n - 1 then ih_swap_heap h p (n - 1) else h)"
  have g: "g = f\<lparr>ih_heap := vector_pop (ih_heap f)\<rparr>" by (simp add: g_def ih_unlink_def f_def n_def Let_def)
  have len: "length hs = n" "length (ih_list h) = n" and pn: "p < n" using assms(1,2) by (simp_all add: hs_def n_def ih_ok_wf)
  have f: "ih_ok cmp f \<and> ih_items f = ih_items h \<and> v_len (ih_pos f) = v_len (ih_pos h) \<and> v_len (ih_heap f) = n \<and>
      butlast (vlist (ih_heap f)) = (butlast hs)[p := last hs] \<and>
      (\<forall>m. m \<notin> set hs \<longrightarrow> vlist (ih_pos f) ! m = vlist (ih_pos h) ! m)"
  proof (cases "p = n - 1")
    case True
    then show ?thesis using assms(1) len by (simp add: f_def list_update_beyond hs_def n_def)
  next
    case False
    have l: "n - 1 < length (ih_list h)" "p < length (ih_list h)" using pn len by simp_all
    note sp = ih_swap_heap_spec [OF assms(1) l(2,1) False]
    have fr: "ih_frame h (ih_swap_heap h p (n - 1))" by (rule ih_frame_swap [OF _ assms(1) l(2,1) False]) simp
    show ?thesis
      using False sp fr swap_last_butlast [of p hs] len pn assms(1)
      by (auto simp: f_def hs_def ih_frame_def ih_ok_wf n_def)
  qed
  then have wf: "vec_wf (ih_heap f)" using ih_ok_wf by blast
  note vp = vector_pop_spec [OF wf]
  show hp: "vlist (ih_heap g) = (butlast hs)[p := last hs]" using vp f by (simp add: g)
  show it: "ih_items g = ih_items h" and "v_len (ih_pos g) = v_len (ih_pos h)"
    and "\<And>m. m \<notin> set hs \<Longrightarrow> vlist (ih_pos g) ! m = vlist (ih_pos h) ! m" using f by (simp_all add: g)
  show vl: "v_len (ih_heap g) = v_len (ih_heap h) - 1" using f pn by (simp add: g vector_pop_def n_def)
  have okf: "ih_ok cmp f" using f by blast
  have "v_len (ih_heap g) \<le> v_len (ih_heap f)" using f vl by (simp add: n_def)
  then have "i < v_len (ih_heap f)" if "i < v_len (ih_heap g)" for i using that by linarith
  moreover have "vlist (ih_heap g) ! i = vlist (ih_heap f) ! i" if "i < v_len (ih_heap g)" for i
  proof -
    have "i < length (butlast (vlist (ih_heap f)))" using that vl f wf len by (simp add: n_def)
    from nth_butlast [OF this] show ?thesis using vp(2) by (simp add: g)
  qed
  moreover have "v_elem (vector_pop (ih_heap f)) = v_elem (ih_heap f)" by (simp add: vector_pop_def)
  ultimately show "ih_ok cmp g"
    using vp(1) ih_ok_wf [OF okf] ih_ok_lens [OF okf] ih_ok_handle [OF okf] ih_ok_elems [OF okf]
    by (simp add: g ih_ok_def)
  have ne: "hs \<noteq> []" using len pn by auto
  show "ih_list g = (butlast (ih_list h))[p := last (ih_list h)]"
    using ne unfolding ih_list_def hp it by (simp add: map_update map_butlast last_map hs_def)
qed

lemma ih_mark_spec:
  assumes "ih_ok cmp g" "k \<notin> set (vlist (ih_heap g))"
  shows "ih_ok cmp (ih_mark g k)" and "ih_list (ih_mark g k) = ih_list g"
    and "ih_heap (ih_mark g k) = ih_heap g" and "ih_items (ih_mark g k) = ih_items g"
    and "vlist (ih_pos (ih_mark g k)) = (vlist (ih_pos g))[k := IH_NOT_IN_HEAP]"
    and "v_len (ih_pos (ih_mark g k)) = v_len (ih_pos g)"
proof -
  note wf = ih_ok_wf [OF assms(1)]
  show ps: "vlist (ih_pos (ih_mark g k)) = (vlist (ih_pos g))[k := IH_NOT_IN_HEAP]"
    using vector_put_spec [OF wf(3)] by (simp add: ih_mark_def)
  have "k \<noteq> vlist (ih_heap g) ! i" if "i < v_len (ih_heap g)" for i
    using assms(2) that wf(2) by (auto simp: in_set_conv_nth)
  then show "ih_ok cmp (ih_mark g k)"
    using assms(1) vector_put_spec [OF wf(3), of k IH_NOT_IN_HEAP] ps ih_ok_handle [OF assms(1)]
    by (simp add: ih_ok_def ih_mark_def)
qed (simp_all add: ih_mark_def ih_list_def)

text \<open>What remains once a handle has left, however the heap was put in order.\<close>

lemma ih_deleted:
  assumes "ih_wf cmp h" "ih_ok cmp r" "is_heap cmp (ih_list r)" "ih_items r = ih_items h"
    "set (vlist (ih_heap r)) = set (vlist (ih_heap h)) - {k}" "v_len (ih_pos r) = v_len (ih_pos h)"
    "vlist (ih_pos r) ! k = IH_NOT_IN_HEAP"
    "\<And>m. m \<notin> set (vlist (ih_heap h)) \<Longrightarrow> m \<noteq> k \<Longrightarrow> vlist (ih_pos r) ! m = vlist (ih_pos h) ! m"
  shows "ih_wf cmp r \<and> ih_map r = (ih_map h)(k := None)"
proof
  have "vlist (ih_pos r) ! m = IH_NOT_IN_HEAP" if "m < v_len (ih_pos h)" "m \<notin> set (vlist (ih_heap r))" for m
    using assms(1,5,7) assms(8) [of m] that ih_ok_wf(3) [of cmp h] by (cases "m = k") (auto simp: ih_wf_def)
  then show "ih_wf cmp r" using assms(2,3,6) by (simp add: ih_wf_def ih_ok_wf)
  show "ih_map r = (ih_map h)(k := None)" using assms(4,5) by (auto simp: ih_map_def fun_eq_iff)
qed

context total_cmp
begin

lemma ih_pop_some:
  assumes "ih_wf cmp h" "v_len (ih_heap h) \<noteq> 0"
  shows "\<exists>k x h'. ih_pop h = (h', 0, Some x) \<and> ih_peek h = Some x \<and> ih_map h k = Some x \<and> ih_wf cmp h' \<and>
    ih_map h' = (ih_map h)(k := None) \<and> (\<forall>m y. ih_map h m = Some y \<longrightarrow> cmp x y \<le> 0)"
proof -
  have ok: "ih_ok cmp h" and heap: "is_heap cmp (ih_list h)" using assms(1) by (simp_all add: ih_wf_def)
  define hs where "hs = vlist (ih_heap h)"
  define k where "k = hs ! 0"
  define g where "g = ih_unlink h 0"
  note wf = ih_ok_wf [OF ok]
  have n: "0 < v_len (ih_heap h)" "length hs = v_len (ih_heap h)" using assms(2) wf by (simp_all add: hs_def)
  have kin: "k \<in> set hs" and klt: "k < v_len (ih_items h)"
    using n ih_ok_handle(1) [OF ok, of 0] by (simp_all add: k_def hs_def)
  have gk: "vector_get (ih_heap h) 0 = Some k" using n wf by (simp add: vector_get_eq k_def hs_def)
  define x where "x = vlist (ih_items h) ! k"
  have gx: "vector_get (ih_items h) k = Some x" using klt wf by (simp add: vector_get_eq x_def)
  note u = ih_unlink_spec [OF ok n(1), folded g_def hs_def]
  have sg: "set (vlist (ih_heap g)) = set hs - {k}"
    using set_butlast_update [of hs 0] ih_ok_distinct [OF ok, folded hs_def] n u(2) by (simp add: k_def)
  note m = ih_mark_spec [OF u(1), of k]
  have kg: "k \<notin> set (vlist (ih_heap g))" using sg by simp
  define r where "r = (if 0 < v_len (ih_heap h) - 1 then ih_sift_down (ih_mark g k) 0 else ih_mark g k)"
  have pop: "ih_pop h = (r, 0, Some x)"
    using n by (auto simp: ih_pop_def Let_def gk gx r_def g_def ih_unlink_def ih_mark_def)
  have lb: "ih_list (ih_mark g k) = (butlast (ih_list h))[0 := last (ih_list h)]"
    using m(2) [OF kg] u(7) by simp
  have ne: "ih_list h \<noteq> []" using n by (metis length_0_conv length_ih_list hs_def less_irrefl)
  then have bh: "is_heap cmp (butlast (ih_list h))"
    using is_heap_prefix [of cmp "butlast (ih_list h)" "[last (ih_list h)]"] heap by simp
  have fr: "ih_ok cmp r \<and> is_heap cmp (ih_list r) \<and> ih_frame (ih_mark g k) r"
  proof (cases "0 < v_len (ih_heap h) - 1")
    case True
    have okm: "ih_ok cmp (ih_mark g k)" by (rule m(1) [OF kg])
    have l: "0 < length (ih_list (ih_mark g k))" using True u(4) m(3) [OF kg] ih_ok_wf(2) [OF u(1)]
      by (simp del: length_greater_0_conv)
    have bl: "0 < length (butlast (ih_list h))" using l lb by simp
    have but: "heap_but cmp (ih_list (ih_mark g k)) 0"
      unfolding lb by (rule heap_but_update, rule is_heap_heap_but [OF bh bl])
    have nn: "v_len (ih_heap (ih_mark g k)) = length (ih_list (ih_mark g k))" using okm by (simp add: ih_ok_wf)
    have "above_ok cmp (ih_list (ih_mark g k)) 0" by (simp add: above_ok_def)
    then show ?thesis
      using ihs.sift_down_spec [OF okm l but _ nn] ih_sift_down_frame [OF okm, of 0] True l nn
      by (simp add: r_def ih_sift_down_def)
  next
    case False
    then have "length (ih_list (ih_mark g k)) = 0" using lb n unfolding hs_def by simp
    then show ?thesis using False m(1) [OF kg] by (simp add: r_def is_heap_def)
  qed
  then have fr': "ih_items r = ih_items h" "set (vlist (ih_heap r)) = set hs - {k}"
      "length (vlist (ih_pos r)) = length (vlist (ih_pos (ih_mark g k)))"
      "\<forall>j. j \<notin> set hs - {k} \<longrightarrow> vlist (ih_pos r) ! j = vlist (ih_pos (ih_mark g k)) ! j"
    using m(3,4) [OF kg] u(3) sg by (simp_all add: ih_frame_def)
  have lp: "v_len (ih_pos r) = v_len (ih_pos h)"
    using fr'(3) conjunct1 [OF fr] m(1,6) [OF kg] u(5) ih_ok_wf(3) [of cmp r] by (simp add: ih_ok_wf)
  have kp: "k < length (vlist (ih_pos g))" using klt ih_ok_lens [OF ok] u(1,5) by (simp add: ih_ok_wf)
  have "ih_wf cmp r \<and> ih_map r = (ih_map h)(k := None)"
  proof (rule ih_deleted [OF assms(1)])
    show "vlist (ih_pos r) ! k = IH_NOT_IN_HEAP" using fr'(4) m(5) [OF kg] kp by simp
    show "vlist (ih_pos r) ! j = vlist (ih_pos h) ! j" if "j \<notin> set (vlist (ih_heap h))" "j \<noteq> k" for j
      using fr'(4) m(5) [OF kg] u(6) that by (simp add: hs_def)
  qed (use fr fr' lp in \<open>simp_all add: hs_def\<close>)
  moreover have "ih_peek h = Some x" using n by (simp add: ih_peek_def Let_def gk gx)
  moreover have "ih_map h k = Some x" using kin by (simp add: ih_map_def hs_def x_def)
  moreover have "x = ih_list h ! 0" using n by (simp add: ih_list_def x_def k_def hs_def)
  then have "\<forall>m y. ih_map h m = Some y \<longrightarrow> cmp x y \<le> 0"
    using heap_min [OF heap] ih_map_range [OF ok] by (metis in_set_conv_nth)
  ultimately show ?thesis using pop by blast
qed

end

section \<open>Changing and removing by handle\<close>

lemma ih_pos_get:
  assumes "ih_wf cmp h"
  shows "ih_map h k = None \<longleftrightarrow> v_len (ih_pos h) \<le> k \<or> the (vector_get (ih_pos h) k) = IH_NOT_IN_HEAP"
    and "ih_map h k = Some y \<Longrightarrow> k < v_len (ih_pos h) \<and> (\<exists>p. the (vector_get (ih_pos h) k) = p \<and>
      p \<noteq> IH_NOT_IN_HEAP \<and> p < v_len (ih_heap h) \<and> vlist (ih_heap h) ! p = k \<and> k \<in> set (vlist (ih_heap h)))"
proof -
  have ok: "ih_ok cmp h" using assms by (simp add: ih_wf_def)
  have lt: "k < v_len (ih_pos h)" if "ih_map h k \<noteq> None"
    using that ih_map_handle [OF ok] ih_ok_lens [OF ok] by auto
  have get: "the (vector_get (ih_pos h) k) = vlist (ih_pos h) ! k" if "k < v_len (ih_pos h)"
    using that ih_ok_wf [OF ok] by (simp add: vector_get_eq)
  show "ih_map h k = None \<longleftrightarrow> v_len (ih_pos h) \<le> k \<or> the (vector_get (ih_pos h) k) = IH_NOT_IN_HEAP"
  proof (cases "k < v_len (ih_pos h)")
    case True
    then show ?thesis using get ih_pos_in_heap(1) [OF assms True] by (simp add: ih_map_def)
  next
    case False
    then show ?thesis using lt by (cases "ih_map h k") auto
  qed
  assume m: "ih_map h k = Some y"
  then have k: "k < v_len (ih_pos h)" "k \<in> set (vlist (ih_heap h))" using lt by (auto simp: ih_map_def split: if_splits)
  then show "k < v_len (ih_pos h) \<and> (\<exists>p. the (vector_get (ih_pos h) k) = p \<and>
      p \<noteq> IH_NOT_IN_HEAP \<and> p < v_len (ih_heap h) \<and> vlist (ih_heap h) ! p = k \<and> k \<in> set (vlist (ih_heap h)))"
    using get ih_pos_in_heap [OF assms, of k] by auto
qed

context total_cmp
begin

lemma ih_decrease_spec:
  assumes "ih_wf cmp h"
  shows "ih_wf cmp (ih_decrease h k x) \<and>
    ih_map (ih_decrease h k x) = (if ih_map h k = None then ih_map h else (ih_map h)(k \<mapsto> x))"
proof (cases "ih_map h k")
  case None
  then have "ih_decrease h k x = h"
    using ih_pos_get(1) [OF assms, of k] by (auto simp: ih_decrease_def Let_def)
  then show ?thesis using None assms by simp
next
  case (Some y)
  have ok: "ih_ok cmp h" and heap: "is_heap cmp (ih_list h)" using assms by (simp_all add: ih_wf_def)
  note wf = ih_ok_wf [OF ok]
  obtain p where p: "k < v_len (ih_pos h)" "the (vector_get (ih_pos h) k) = p" "p \<noteq> IH_NOT_IN_HEAP"
      "p < v_len (ih_heap h)" "vlist (ih_heap h) ! p = k" "k \<in> set (vlist (ih_heap h))"
    using ih_pos_get(2) [OF assms Some] by blast
  have ki: "k < v_len (ih_items h)" using p(1) ih_ok_lens [OF ok] by simp
  define g where "g = h\<lparr>ih_items := vector_put (ih_items h) k x\<rparr>"
  define u where "u = ih_sift_up g p"
  define q where "q = the (vector_get (ih_pos u) k)"
  have d: "ih_decrease h k x = ih_sift_down u q" using p by (simp add: ih_decrease_def Let_def g_def u_def q_def)
  have okg: "ih_ok cmp g" using vector_put_spec [OF wf(1)] wf ih_ok_elems [OF ok] ih_ok_lens [OF ok] ih_ok_handle [OF ok]
    by (simp add: ih_ok_def g_def)
  have gh: "ih_heap g = ih_heap h" "ih_pos g = ih_pos h" by (simp_all add: g_def)
  have ig: "vlist (ih_items g) = (vlist (ih_items h))[k := x]" using vector_put_spec [OF wf(1)] by (simp add: g_def)
  have lg: "ih_list g = (ih_list h)[p := x]"
  proof (rule nth_equalityI)
    fix i assume "i < length (ih_list g)"
    then have i: "i < v_len (ih_heap h)" using gh wf by simp
    then have "vlist (ih_heap h) ! i = k \<longleftrightarrow> i = p"
      using p(4,5) ih_ok_distinct [OF ok] wf by (auto simp: nth_eq_iff_index_eq)
    then show "ih_list g ! i = (ih_list h)[p := x] ! i"
      using i wf ki by (auto simp: ih_list_def gh ig nth_list_update)
  qed (simp add: gh)
  have "p < length (ih_list h)" using p(4) wf by simp
  then have but: "heap_but cmp (ih_list g) p"
    unfolding lg by (rule heap_but_update [OF is_heap_heap_but [OF heap]])
  have pg: "p < v_len (ih_heap g)" using p(4) gh by simp
  have fr: "ih_frame g u \<and> ih_ok cmp u" unfolding u_def by (rule ih_sift_up_frame [OF okg pg])
  have ku: "k \<in> set (vlist (ih_heap u))" using fr p(6) gh by (simp add: ih_frame_def)
  have vu: "vec_wf (ih_heap u)" "vec_wf (ih_pos u)" using fr ih_ok_wf by blast+
  obtain i where i: "i < v_len (ih_heap u)" "vlist (ih_heap u) ! i = k" using ku vu by (auto simp: in_set_conv_nth)
  have kp: "k < v_len (ih_pos u)" "vlist (ih_pos u) ! k = i" using ih_ok_handle(2,3) [of cmp u i] fr i by auto
  have qi: "q = i" using kp vu by (simp add: q_def vector_get_eq)
  have "q < v_len (ih_heap g)" using i qi ih_frame_len [OF okg conjunct2 [OF fr] conjunct1 [OF fr]] by simp
  moreover have "q = p" if "ih_sift_up g p = g"
    using that p(1,2) by (simp add: q_def u_def gh)
  ultimately have s: "ih_ok cmp (ih_decrease h k x) \<and> is_heap cmp (ih_list (ih_decrease h k x)) \<and> ih_frame g (ih_decrease h k x)"
    unfolding d u_def by (rule ih_settle [OF okg pg but])
  then have "ih_wf cmp (ih_decrease h k x)"
    using ih_wf_frame [of g "ih_decrease h k x" cmp] assms gh by (simp add: ih_wf_def)
  moreover have "ih_map (ih_decrease h k x) = (ih_map h)(k \<mapsto> x)"
    using ih_frame_map [of g "ih_decrease h k x"] s p(6) ki wf by (auto simp: ih_map_def gh ig fun_eq_iff nth_list_update)
  ultimately show ?thesis using Some by simp
qed

lemma ih_remove_spec:
  assumes "ih_wf cmp h"
  shows "ih_wf cmp (ih_remove h k) \<and> ih_map (ih_remove h k) = (ih_map h)(k := None)"
proof (cases "ih_map h k")
  case None
  then have "ih_remove h k = h"
    using ih_pos_get(1) [OF assms, of k] by (auto simp: ih_remove_def Let_def)
  then show ?thesis using None assms by (simp add: fun_upd_idem)
next
  case (Some y)
  have ok: "ih_ok cmp h" and heap: "is_heap cmp (ih_list h)" using assms by (simp_all add: ih_wf_def)
  note wf = ih_ok_wf [OF ok]
  obtain p where p: "k < v_len (ih_pos h)" "the (vector_get (ih_pos h) k) = p" "p \<noteq> IH_NOT_IN_HEAP"
      "p < v_len (ih_heap h)" "vlist (ih_heap h) ! p = k" "k \<in> set (vlist (ih_heap h))"
    using ih_pos_get(2) [OF assms Some] by blast
  define g where "g = ih_unlink h p"
  define f where "f = (if p \<noteq> v_len (ih_heap h) - 1 then ih_sift_down (ih_sift_up g p) p else g)"
  have r: "ih_remove h k = ih_mark f k"
    using p by (simp add: ih_remove_def Let_def f_def g_def ih_unlink_def ih_mark_def)
  note u = ih_unlink_spec [OF ok p(4), folded g_def]
  have sg: "set (vlist (ih_heap g)) = set (vlist (ih_heap h)) - {k}"
    using set_butlast_update [of "vlist (ih_heap h)" p] ih_ok_distinct [OF ok] p(4,5) wf u(2) by simp
  have "length (ih_list h) = v_len (ih_heap h)" using wf by simp
  then have ne: "ih_list h \<noteq> []" using p(4) by (metis list.size(3) not_less0)
  then have bh: "is_heap cmp (butlast (ih_list h))"
    using is_heap_prefix [of cmp "butlast (ih_list h)" "[last (ih_list h)]"] heap by simp
  have lenb: "length (butlast (ih_list h)) = v_len (ih_heap h) - 1" using wf by simp
  have fs: "ih_ok cmp f \<and> is_heap cmp (ih_list f) \<and> ih_frame g f"
  proof (cases "p = v_len (ih_heap h) - 1")
    case True
    then have "ih_list g = butlast (ih_list h)" using u(7) lenb by (simp add: list_update_beyond)
    then show ?thesis using True u(1) bh by (simp add: f_def)
  next
    case False
    then have pg: "p < v_len (ih_heap g)" "p < length (butlast (ih_list h))" using p(4) u(4) lenb by simp_all
    have "heap_but cmp (ih_list g) p"
      unfolding u(7) by (rule heap_but_update [OF is_heap_heap_but [OF bh pg(2)]])
    then show ?thesis using ih_settle [OF u(1) pg(1) _ pg(1)] False by (simp add: f_def)
  qed
  have kf: "k \<notin> set (vlist (ih_heap f))" using fs sg by (simp add: ih_frame_def)
  note m = ih_mark_spec [OF conjunct1 [OF fs] kf]
  have lf: "v_len (ih_pos f) = v_len (ih_pos h)"
    using fs u(1,5) ih_ok_wf(3) [of cmp f] ih_ok_wf(3) [of cmp g] by (simp add: ih_frame_def)
  show ?thesis unfolding r
  proof (rule ih_deleted [OF assms m(1)])
    show "vlist (ih_pos (ih_mark f k)) ! k = IH_NOT_IN_HEAP"
      using m(5) p(1) lf ih_ok_wf(3) [OF conjunct1 [OF fs]] by simp
    show "vlist (ih_pos (ih_mark f k)) ! j = vlist (ih_pos h) ! j" if "j \<notin> set (vlist (ih_heap h))" "j \<noteq> k" for j
      using fs u(6) sg that m(5) by (simp add: ih_frame_def)
  qed (use fs m u(3) sg lf in \<open>simp_all add: ih_frame_def\<close>)
qed

end

lemma ih_init_wf: "e < U32 \<Longrightarrow> ih_wf cmp (ih_init e cmp) \<and> ih_map (ih_init e cmp) = Map.empty"
proof -
  assume e: "e < U32"
  have w: "v_elem (vector_init 4 :: nat vector) = 4" "v_len (vector_init 4 :: nat vector) = 0"
    "v_len (vector_init e :: 'a vector) = 0" by (simp_all add: vector_init_def)
  show ?thesis using e w
    by (simp add: ih_wf_def ih_ok_def ih_init_def ih_list_def is_heap_def ih_map_def fun_eq_iff)
qed

text \<open>
  C9: A heap with handles is a finite map from handles to items with extraction of a least item. A push
  gives a handle never used before and adds exactly its item, or changes nothing when out of memory;
  a pop takes out an item no other precedes; replacing or removing by handle, in either direction of
  the order, acts on that handle alone, and does nothing once the handle has left.
\<close>

theorem iheap_refines_map:
  assumes "total_cmp cmp" and "ih_wf cmp h"
  shows "(case ih_push al h x of (h', k) \<Rightarrow> ih_wf cmp h' \<and>
       (if k = IH_NOT_IN_HEAP then ih_map h' = ih_map h
        else k = v_len (ih_items h) \<and> ih_map h k = None \<and> ih_map h' = (ih_map h)(k \<mapsto> x))) \<and>
     (if ih_len h = 0 then ih_pop h = (h, -1, None) \<and> ih_peek h = None \<and> ih_map h = Map.empty
      else \<exists>k y h'. ih_pop h = (h', 0, Some y) \<and> ih_peek h = Some y \<and> ih_map h k = Some y \<and>
        ih_wf cmp h' \<and> ih_map h' = (ih_map h)(k := None) \<and> (\<forall>z \<in> ran (ih_map h). cmp y z \<le> 0)) \<and>
     ih_wf cmp (ih_decrease h j x) \<and>
     ih_map (ih_decrease h j x) = (if ih_map h j = None then ih_map h else (ih_map h)(j \<mapsto> x)) \<and>
     ih_wf cmp (ih_remove h j) \<and> ih_map (ih_remove h j) = (ih_map h)(j := None)"
proof (intro conjI)
  have wf: "vec_wf (ih_heap h)" using assms(2) ih_ok_wf(2) [of cmp h] by (simp add: ih_wf_def)
  show "case ih_push al h x of (h', k) \<Rightarrow> ih_wf cmp h' \<and>
       (if k = IH_NOT_IN_HEAP then ih_map h' = ih_map h
        else k = v_len (ih_items h) \<and> ih_map h k = None \<and> ih_map h' = (ih_map h)(k \<mapsto> x))"
    using total_cmp.ih_push_cases [OF assms] by (auto split: prod.splits)
  show "if ih_len h = 0 then ih_pop h = (h, -1, None) \<and> ih_peek h = None \<and> ih_map h = Map.empty
      else \<exists>k y h'. ih_pop h = (h', 0, Some y) \<and> ih_peek h = Some y \<and> ih_map h k = Some y \<and>
        ih_wf cmp h' \<and> ih_map h' = (ih_map h)(k := None) \<and> (\<forall>z \<in> ran (ih_map h). cmp y z \<le> 0)"
  proof (cases "ih_len h = 0")
    case True
    then have "vlist (ih_heap h) = []" using wf by (simp add: ih_len_def flip: length_0_conv)
    then show ?thesis using True by (simp add: ih_len_def ih_pop_def ih_peek_def ih_map_def fun_eq_iff)
  next
    case False
    then show ?thesis using total_cmp.ih_pop_some [OF assms] by (simp add: ih_len_def ran_def) metis
  qed
qed (use total_cmp.ih_decrease_spec [OF assms] total_cmp.ih_remove_spec [OF assms] in simp_all)

theorem iheap_refines_map_witness:
  "ih_wf ds_cmp_int (ih_init 4 ds_cmp_int) \<and> ih_pop (ih_init 4 ds_cmp_int) = (ih_init 4 ds_cmp_int, -1, None) \<and>
   ih_wf ds_cmp_int (ih_remove (ih_init 4 ds_cmp_int) 3)"
  using iheap_refines_map [OF cmp_int.total_cmp_axioms, where h = "ih_init 4 ds_cmp_int" and j = 3]
    ih_init_wf [of 4 ds_cmp_int] by (simp add: ih_len_def ih_init_def vector_init_def)

end
