(* ===== verification/Bitset.thy ===== *)
theory Bitset
  imports Hash
begin

text \<open>
  \<open>src/ceres/ds/bitset.c\<close> with the inline operations of \<open>include/ceres/ds/bitset.h\<close>, and the Bloom filter of
  \<open>src/ceres/ds/bloom.c\<close> on it. The words the caller provides are a list; bit \<open>i\<close> of the set is bit
  \<open>i mod 32\<close> of word \<open>i div 32\<close>.
\<close>

section \<open>Bit sets\<close>

record bitset =
  bs_w :: "u32 list"
  bs_nbits :: nat

definition bitset_words :: "nat \<Rightarrow> nat" where
  "bitset_words nbits = nbits div 32 + (if nbits mod 32 \<noteq> 0 then 1 else 0)"

fun fill_words :: "nat \<Rightarrow> nat \<Rightarrow> u32 \<Rightarrow> u32 list \<Rightarrow> u32 list" where
  "fill_words 0 i x w = w"
| "fill_words (Suc n) i x w = fill_words n (i + 1) x (w[i := x])"

definition bitset_clear_all :: "bitset \<Rightarrow> bitset" where
  "bitset_clear_all s = s\<lparr>bs_w := fill_words (bitset_words (bs_nbits s)) 0 0 (bs_w s)\<rparr>"

definition bitset_init :: "u32 list \<Rightarrow> nat \<Rightarrow> bitset" where
  "bitset_init words nbits = bitset_clear_all \<lparr>bs_w = words, bs_nbits = nbits\<rparr>"

definition bitset_set_all :: "bitset \<Rightarrow> bitset" where
  "bitset_set_all s =
     (let words = bitset_words (bs_nbits s);
          w = fill_words words 0 0xFFFFFFFF (bs_w s);
          tail = bs_nbits s mod 32
      in s\<lparr>bs_w := (if tail \<noteq> 0 then w[words - 1 := push_bit tail 1 - 1] else w)\<rparr>)"

definition bitset_get :: "bitset \<Rightarrow> nat \<Rightarrow> bool" where
  "bitset_get s i \<longleftrightarrow> drop_bit (i mod 32) (bs_w s ! (i div 32)) AND 1 \<noteq> 0"

definition bitset_set :: "bitset \<Rightarrow> nat \<Rightarrow> bitset" where
  "bitset_set s i = s\<lparr>bs_w := (bs_w s)[i div 32 := (bs_w s ! (i div 32)) OR push_bit (i mod 32) 1]\<rparr>"

definition bitset_clear :: "bitset \<Rightarrow> nat \<Rightarrow> bitset" where
  "bitset_clear s i = s\<lparr>bs_w := (bs_w s)[i div 32 := (bs_w s ! (i div 32)) AND NOT (push_bit (i mod 32) 1)]\<rparr>"

definition bitset_toggle :: "bitset \<Rightarrow> nat \<Rightarrow> bitset" where
  "bitset_toggle s i = s\<lparr>bs_w := (bs_w s)[i div 32 := (bs_w s ! (i div 32)) XOR push_bit (i mod 32) 1]\<rparr>"

fun count_words :: "nat \<Rightarrow> nat \<Rightarrow> u32 list \<Rightarrow> nat" where
  "count_words 0 i w = 0"
| "count_words (Suc n) i w = bit_popcount (w ! i) + count_words n (i + 1) w"

definition bitset_count :: "bitset \<Rightarrow> nat" where
  "bitset_count s = count_words (bitset_words (bs_nbits s)) 0 (bs_w s)"

text \<open>\<open>(int)bit\<close>: the number as a 32-bit \<open>int\<close>, negative from 2^31 on.\<close>

definition as_int :: "nat \<Rightarrow> int" where
  "as_int n = sint (of_nat n :: u32)"

fun find_set_from :: "nat \<Rightarrow> nat \<Rightarrow> bitset \<Rightarrow> int" where
  "find_set_from 0 i s = -1"
| "find_set_from (Suc n) i s =
     (if bs_w s ! i \<noteq> 0
      then let bt = i * 32 + bit_ctz (bs_w s ! i) in if bt < bs_nbits s then as_int bt else -1
      else find_set_from n (i + 1) s)"

definition bitset_find_first_set :: "bitset \<Rightarrow> int" where
  "bitset_find_first_set s = find_set_from (bitset_words (bs_nbits s)) 0 s"

fun find_clear_from :: "nat \<Rightarrow> nat \<Rightarrow> bitset \<Rightarrow> int" where
  "find_clear_from 0 i s = -1"
| "find_clear_from (Suc n) i s =
     (if bs_w s ! i \<noteq> 0xFFFFFFFF
      then let bt = i * 32 + bit_ctz (NOT (bs_w s ! i)) in if bt < bs_nbits s then as_int bt else -1
      else find_clear_from n (i + 1) s)"

definition bitset_find_first_clear :: "bitset \<Rightarrow> int" where
  "bitset_find_first_clear s = find_clear_from (bitset_words (bs_nbits s)) 0 s"

section \<open>The set of positions\<close>

text \<open>The storage is large enough, and the bits past the end of the last word are clear.\<close>

definition bs_wf :: "bitset \<Rightarrow> bool" where
  "bs_wf s \<longleftrightarrow> bitset_words (bs_nbits s) \<le> length (bs_w s) \<and>
     (\<forall>i < bitset_words (bs_nbits s). \<forall>n < 32. bit (bs_w s ! i) n \<longrightarrow> 32 * i + n < bs_nbits s)"

definition bs_set :: "bitset \<Rightarrow> nat set" where
  "bs_set s = {i. i < bs_nbits s \<and> bit (bs_w s ! (i div 32)) (i mod 32)}"

lemma bitset_words_less: "i < n \<Longrightarrow> i div 32 < bitset_words n"
  unfolding bitset_words_def by (auto simp: div_less_iff_less_mult)

lemma bitset_words_Suc: "i < bitset_words n \<Longrightarrow> 32 * i < n"
proof -
  assume "i < bitset_words n"
  then have "i < n div 32 \<or> i = n div 32 \<and> n mod 32 \<noteq> 0" by (auto simp: bitset_words_def split: if_splits)
  moreover have "n = 32 * (n div 32) + n mod 32" by simp
  ultimately show "32 * i < n" by (elim disjE) linarith+
qed

lemma drop_bit_and_1: "drop_bit n (x :: u32) AND 1 \<noteq> 0 \<longleftrightarrow> bit x n"
  by (simp add: and_one_eq bit_iff_odd_drop_bit odd_iff_mod_2_eq_one)

lemma bitset_get_iff: "bs_wf s \<Longrightarrow> i < bs_nbits s \<Longrightarrow> bitset_get s i \<longleftrightarrow> i \<in> bs_set s"
  by (simp add: bitset_get_def drop_bit_and_1 bs_set_def)

lemma div_32_less: "j div 32 < i \<longleftrightarrow> j < 32 * (i :: nat)"
  by (simp add: div_less_iff_less_mult mult.commute)

lemma div_32_le: "i \<le> j div 32 \<longleftrightarrow> 32 * i \<le> (j :: nat)"
  by (simp add: less_eq_div_iff_mult_less_eq mult.commute)

lemma div_32_eq: "32 * i \<le> j \<Longrightarrow> j < 32 * i + 32 \<Longrightarrow> j div 32 = i \<and> j = 32 * i + j mod (32 :: nat)"
proof -
  assume "32 * i \<le> j" "j < 32 * i + 32"
  then have "j div 32 = i" by (intro div_nat_eqI) simp_all
  then show ?thesis using mult_div_mod_eq [of 32 j] by simp
qed

lemma bs_update_spec:
  assumes "bs_wf s" "i < bs_nbits s"
    and "\<And>n. n < 32 \<Longrightarrow> bit x n \<longleftrightarrow> (if n = i mod 32 then v else bit (bs_w s ! (i div 32)) n)"
  defines "t \<equiv> s\<lparr>bs_w := (bs_w s)[i div 32 := x]\<rparr>"
  shows "bs_wf t" and "bs_set t = (if v then insert i (bs_set s) else bs_set s - {i})" and "bs_nbits t = bs_nbits s"
proof -
  have lt: "i div 32 < bitset_words (bs_nbits s)" using assms(2) by (rule bitset_words_less)
  then have ll: "i div 32 < length (bs_w s)" using assms(1) by (simp add: bs_wf_def)
  have b: "bit (bs_w t ! (j div 32)) (j mod 32) \<longleftrightarrow> (if j = i then v else bit (bs_w s ! (j div 32)) (j mod 32))" for j
    using ll assms(3) [of "j mod 32"] by (auto simp: t_def nth_list_update) (metis div_mult_mod_eq)+
  show "bs_wf t" unfolding bs_wf_def
  proof (intro conjI allI impI)
    fix k n assume kn: "k < bitset_words (bs_nbits t)" "n < 32" "bit (bs_w t ! k) n"
    have "(32 * k + n) div 32 = k" "(32 * k + n) mod 32 = n" using kn(2) by simp_all
    then have "bit (bs_w t ! k) n = (if 32 * k + n = i then v else bit (bs_w s ! k) n)"
      using b [of "32 * k + n"] by (simp only:)
    then have "32 * k + n = i \<or> bit (bs_w s ! k) n" using kn(3) by presburger
    then show "32 * k + n < bs_nbits t" using assms(1,2) kn by (auto simp: bs_wf_def t_def)
  qed (use assms(1) in \<open>simp add: bs_wf_def t_def\<close>)
  show "bs_set t = (if v then insert i (bs_set s) else bs_set s - {i})"
    using assms(2) by (auto simp: bs_set_def b) (auto simp: t_def)
qed (simp add: t_def)

lemma bitset_set_spec:
  assumes "bs_wf s" "i < bs_nbits s"
  shows "bs_wf (bitset_set s i)" and "bs_set (bitset_set s i) = insert i (bs_set s)"
    and "bs_nbits (bitset_set s i) = bs_nbits s"
  using bs_update_spec [OF assms, of "(bs_w s ! (i div 32)) OR push_bit (i mod 32) 1" True]
  by (simp_all add: bitset_set_def bit_simps)

lemma bitset_clear_spec:
  assumes "bs_wf s" "i < bs_nbits s"
  shows "bs_wf (bitset_clear s i)" and "bs_set (bitset_clear s i) = bs_set s - {i}"
  using bs_update_spec [OF assms, of "(bs_w s ! (i div 32)) AND NOT (push_bit (i mod 32) 1)" False]
  by (simp_all add: bitset_clear_def bit_simps)

lemma bitset_toggle_spec:
  assumes "bs_wf s" "i < bs_nbits s"
  shows "bs_wf (bitset_toggle s i)"
    and "bs_set (bitset_toggle s i) = (if i \<in> bs_set s then bs_set s - {i} else insert i (bs_set s))"
  using bs_update_spec [OF assms, of "(bs_w s ! (i div 32)) XOR push_bit (i mod 32) 1" "i \<notin> bs_set s"] assms(2)
  by (auto simp: bitset_toggle_def bit_simps bs_set_def)

lemma length_fill_words [simp]: "length (fill_words n i x w) = length w"
  by (induction n arbitrary: i w) simp_all

lemma fill_words_nth:
  "j < length w \<Longrightarrow> fill_words n i x w ! j = (if i \<le> j \<and> j < i + n then x else w ! j)"
  by (induction n arbitrary: i w) (auto simp: nth_list_update)

lemma bitset_clear_all_spec:
  assumes "bitset_words (bs_nbits s) \<le> length (bs_w s)"
  shows "bs_wf (bitset_clear_all s)" and "bs_set (bitset_clear_all s) = {}"
proof -
  have "\<not> bit (fill_words (bitset_words (bs_nbits s)) 0 0 (bs_w s) ! k) m" if "k < bitset_words (bs_nbits s)" for k m
    using assms that by (simp add: fill_words_nth)
  then show "bs_wf (bitset_clear_all s)" "bs_set (bitset_clear_all s) = {}"
    using assms bitset_words_less by (auto simp: bitset_clear_all_def bs_wf_def bs_set_def)
qed

lemma bitset_set_all_spec:
  assumes "bitset_words (bs_nbits s) \<le> length (bs_w s)"
  shows "bs_wf (bitset_set_all s)" and "bs_set (bitset_set_all s) = {..<bs_nbits s}"
proof -
  let ?n = "bs_nbits s" and ?t = "bitset_set_all s"
  have mask: "bit (push_bit k 1 - 1 :: u32) m \<longleftrightarrow> m < k" if "k < 32" for k m
    using that by (auto simp: push_bit_eq_mult mask_eq_exp_minus_1 [symmetric] bit_mask_iff)
  have w: "bit (bs_w ?t ! k) m \<longleftrightarrow> 32 * k + m < ?n" if "k < bitset_words ?n" "m < 32" for k m
  proof -
    have k: "k < length (bs_w s)" using that assms by simp
    show ?thesis
    proof (cases "k = ?n div 32")
      case True
      then have "?n mod 32 \<noteq> 0" "bitset_words ?n - 1 = k" using that(1) by (auto simp: bitset_words_def split: if_splits)
      moreover have "?n = 32 * k + ?n mod 32" using True by simp
      moreover from this have "m < ?n mod 32 \<longleftrightarrow> 32 * k + m < ?n" by linarith
      ultimately show ?thesis using k mask [of "?n mod 32" m] by (simp add: bitset_set_all_def Let_def)
    next
      case False
      then have lt: "k < ?n div 32" using that(1) by (auto simp: bitset_words_def split: if_splits)
      then have "k \<noteq> bitset_words ?n - 1 \<or> ?n mod 32 = 0" by (auto simp: bitset_words_def)
      moreover have "32 * k + m < ?n" using lt that(2) by linarith
      moreover have "bit (0xFFFFFFFF :: u32) m" using that(2) bit_mask_iff [of 32 m, where 'a = u32]
        by (simp add: mask_eq_exp_minus_1)
      ultimately show ?thesis using k that by (auto simp: bitset_set_all_def Let_def fill_words_nth nth_list_update)
    qed
  qed
  have nb: "bs_nbits ?t = ?n" by (simp add: bitset_set_all_def Let_def)
  show "bs_wf ?t" using assms w by (simp add: bs_wf_def nb) (simp add: bitset_set_all_def Let_def)
  show "bs_set ?t = {..<?n}"
    using w bitset_words_less by (auto simp: bs_set_def nb)
qed


lemma bs_set_words:
  assumes "bs_wf s"
  shows "bs_set s = {i. i div 32 < bitset_words (bs_nbits s) \<and> bit (bs_w s ! (i div 32)) (i mod 32)}"
proof -
  have "i < bs_nbits s" if "i div 32 < bitset_words (bs_nbits s)" "bit (bs_w s ! (i div 32)) (i mod 32)" for i
    using assms that mod_less_divisor [of 32 i] unfolding bs_wf_def by (metis div_mult_mod_eq mult.commute zero_less_numeral)
  then show ?thesis using bitset_words_less by (auto simp: bs_set_def)
qed

lemma count_words_card:
  "count_words n i w = card {j. i \<le> j div 32 \<and> j div 32 < i + n \<and> bit (w ! (j div 32)) (j mod 32)}"
proof (induction n arbitrary: i)
  case (Suc n)
  let ?A = "{j. j div 32 = i \<and> bit (w ! i) (j mod 32)}"
  let ?B = "{j. i + 1 \<le> j div 32 \<and> j div 32 < i + 1 + n \<and> bit (w ! (j div 32)) (j mod 32)}"
  have fin: "finite {j. j div 32 < m}" for m :: nat
    by (rule finite_subset [of _ "{..<32 * m}"]) (auto simp: div_less_iff_less_mult mult.commute)
  have "?A = (\<lambda>m. 32 * i + m) ` {m. bit (w ! i) m}"
  proof (intro set_eqI iffI)
    fix j assume "j \<in> ?A"
    then show "j \<in> (\<lambda>m. 32 * i + m) ` {m. bit (w ! i) m}"
      by (intro image_eqI [where x = "j mod 32"]) (auto simp: mult.commute)
  qed (use bit_imp_le_length [of "w ! i"] in auto)
  then have "card ?A = bit_popcount (w ! i)" by (simp add: bit_popcount_card card_image)
  moreover have "{j. i \<le> j div 32 \<and> j div 32 < i + Suc n \<and> bit (w ! (j div 32)) (j mod 32)} = ?A \<union> ?B"
    by (auto simp: le_less)
  moreover have "finite ?A" "finite ?B" "?A \<inter> ?B = {}"
    by (auto intro: finite_subset [OF _ fin [of "i + 1 + n"]])
  ultimately show ?case using Suc.IH [of "i + 1"] by (simp add: card_Un_disjoint)
next
  case 0
  have "{j. i \<le> j div 32 \<and> j div 32 < i + 0 \<and> bit (w ! (j div 32)) (j mod 32)} = {}" by auto
  then show ?case by (simp only: count_words.simps card.empty)
qed

lemma bitset_count_spec: "bs_wf s \<Longrightarrow> bitset_count s = card (bs_set s)"
  by (simp add: bitset_count_def count_words_card bs_set_words)

lemma find_set_from_spec:
  assumes "bs_wf s" "i + n = bitset_words (bs_nbits s)" "\<forall>j \<in> bs_set s. 32 * i \<le> j"
  shows "find_set_from n i s = (if bs_set s = {} then -1 else as_int (LEAST j. j \<in> bs_set s))"
  using assms(2,3)
proof (induction n arbitrary: i)
  case 0
  have "bs_set s = {}"
  proof (rule ccontr)
    assume "bs_set s \<noteq> {}"
    then obtain j where j: "j \<in> bs_set s" by blast
    then have "j div 32 < bitset_words (bs_nbits s)" using bitset_words_less by (simp add: bs_set_def)
    moreover have "i \<le> j div 32" using 0 j by (simp add: div_32_le)
    ultimately show False using 0 by simp
  qed
  then show ?case by simp
next
  case (Suc n)
  let ?w = "bs_w s ! i"
  show ?case
  proof (cases "?w = 0")
    case True
    have "32 * (i + 1) \<le> j" if "j \<in> bs_set s" for j
    proof -
      have "j div 32 \<noteq> i" using that True by (auto simp: bs_set_def)
      moreover have "i \<le> j div 32" using Suc.prems(2) that by (simp add: div_32_le)
      ultimately have "i + 1 \<le> j div 32" by simp
      then show ?thesis by (simp only: div_32_le)
    qed
    then show ?thesis using Suc.IH [of "i + 1"] Suc.prems(1) True by simp
  next
    case False
    let ?b = "i * 32 + bit_ctz ?w"
    have c: "bit_ctz ?w < 32" "bit ?w (bit_ctz ?w)" using bit_ctz_bit [OF False] by simp_all
    have lt: "?b < bs_nbits s" using assms(1) c Suc.prems(1) unfolding bs_wf_def by (simp add: mult.commute)
    have bin: "?b \<in> bs_set s" using lt c by (simp add: bs_set_def)
    have "?b \<le> j" if "j \<in> bs_set s" for j
    proof (rule ccontr)
      assume "\<not> ?b \<le> j"
      moreover have "32 * i \<le> j" using Suc.prems(2) that by auto
      ultimately have "j div 32 = i \<and> j = 32 * i + j mod 32" using c(1) by (intro div_32_eq) linarith+
      then have j: "j div 32 = i" "j mod 32 < bit_ctz ?w" using \<open>\<not> ?b \<le> j\<close> by linarith+
      then show False using that bit_ctz_zeros [of "j mod 32" ?w] by (simp add: bs_set_def)
    qed
    then have "(LEAST j. j \<in> bs_set s) = ?b" using bin by (intro Least_equality)
    then show ?thesis using False lt bin by (auto simp: Let_def)
  qed
qed

text \<open>The first clear bit is the first bit of the set of the others, past the end included.\<close>

lemma find_clear_from_spec:
  assumes "bs_wf s" "i + n = bitset_words (bs_nbits s)" "\<forall>j < 32 * i. j \<in> bs_set s"
  shows "find_clear_from n i s =
    (if {..<bs_nbits s} \<subseteq> bs_set s then -1 else as_int (LEAST j. j < bs_nbits s \<and> j \<notin> bs_set s))"
  using assms(2,3)
proof (induction n arbitrary: i)
  case 0
  have "j \<in> bs_set s" if "j < bs_nbits s" for j
  proof -
    have "j div 32 < i" using bitset_words_less [OF that] 0 by simp
    then have "j < 32 * i" by (simp only: div_32_less)
    then show ?thesis using 0 by simp
  qed
  then show ?case by auto
next
  case (Suc n)
  let ?w = "bs_w s ! i"
  have iw: "i < bitset_words (bs_nbits s)" using Suc.prems(1) by simp
  show ?case
  proof (cases "?w = 0xFFFFFFFF")
    case True
    have ones: "bit (0xFFFFFFFF :: u32) m" if "m < 32" for m
      using that bit_mask_iff [of 32 m, where 'a = u32] by (simp add: mask_eq_exp_minus_1)
    have "j \<in> bs_set s" if "j < 32 * (i + 1)" for j
    proof (cases "j < 32 * i")
      case False
      then have j: "j div 32 = i" "j = 32 * i + j mod 32" "j mod 32 < 32" using that div_32_eq [of i j] by simp_all
      then have "32 * i + j mod 32 < bs_nbits s" using assms(1) iw True ones unfolding bs_wf_def by metis
      then show ?thesis using j True ones by (simp add: bs_set_def)
    qed (use Suc.prems in simp)
    then show ?thesis using Suc.IH [of "i + 1"] Suc.prems(1) True by simp
  next
    case False
    let ?b = "i * 32 + bit_ctz (NOT ?w)"
    have nz: "NOT ?w \<noteq> 0"
    proof
      assume "NOT ?w = 0"
      then have "?w = NOT 0" by (metis bit.double_compl)
      then show False using False by simp
    qed
    have c: "bit_ctz (NOT ?w) < 32" "\<not> bit ?w (bit_ctz (NOT ?w))"
      using bit_ctz_bit [OF nz] by (simp_all add: bit_simps)
    have nin: "?b \<notin> bs_set s" using c by (simp add: bs_set_def)
    have before: "j \<in> bs_set s" if "j < ?b" "j < bs_nbits s" for j
    proof (cases "j < 32 * i")
      case False
      then have "j div 32 = i \<and> j = 32 * i + j mod 32" using that c(1) by (intro div_32_eq) linarith+
      then have j: "j div 32 = i" "j mod 32 < bit_ctz (NOT ?w)" "j mod 32 < 32" using that by linarith+
      then have "bit ?w (j mod 32)" using bit_ctz_zeros [of "j mod 32" "NOT ?w"] by (auto simp: bit_simps)
      then show ?thesis using that j by (simp add: bs_set_def)
    qed (use Suc.prems in simp)
    show ?thesis
    proof (cases "?b < bs_nbits s")
      case True
      have "(LEAST j. j < bs_nbits s \<and> j \<notin> bs_set s) = ?b"
        using True nin before by (intro Least_equality) (auto simp: not_less [symmetric])
      then show ?thesis using True False nin by (auto simp: Let_def)
    next
      case b: False
      then have "{..<bs_nbits s} \<subseteq> bs_set s" using before by auto
      then show ?thesis using b False by (simp add: Let_def)
    qed
  qed
qed

lemma as_int_eq: "n < U32 \<Longrightarrow> as_int n = (if n < 2 ^ 31 then int n else int n - 2 ^ 32)"
proof -
  assume n: "n < U32"
  have u: "uint (of_nat n :: u32) = int n" using n by (simp add: of_nat_mod [symmetric] uint_word_of_int take_bit_eq_mod unsigned_of_nat)
  have "as_int n = (int n + 2 ^ 31) mod 2 ^ 32 - 2 ^ 31"
    unfolding as_int_def sint_uint u by (simp add: signed_take_bit_eq_take_bit_shift take_bit_eq_mod)
  also have "\<dots> = (if n < 2 ^ 31 then int n else int n - 2 ^ 32)"
  proof (cases "n < 2 ^ 31")
    case True
    then have "(int n + 2 ^ 31) mod 2 ^ 32 = int n + 2 ^ 31" by simp
    then show ?thesis using True by simp
  next
    case False
    have "int n + 2 ^ 31 = int n - 2 ^ 31 + 1 * 2 ^ 32" by simp
    then have "(int n + 2 ^ 31) mod 2 ^ 32 = (int n - 2 ^ 31 + 1 * 2 ^ 32) mod 2 ^ 32" by (rule arg_cong)
    also have "\<dots> = (int n - 2 ^ 31) mod 2 ^ 32" by (rule mod_mult_self1)
    also have "\<dots> = int n - 2 ^ 31" using False n by simp
    finally show ?thesis using False by simp
  qed
  finally show ?thesis .
qed

text \<open>
  C13: A bit set is a set of numbers below \<open>nbits\<close>: the single-bit operations insert, delete, flip and
  test one member, filling and clearing give the full and the empty set, the count is the set's size
  and the two searches give the least member and the least non-member, or -1; the bits past the end
  of the last word never count. The searches return an \<open>int\<close>: a position of 2^31 or more comes back as a negative number.
\<close>

theorem bitset_refines_set:
  assumes "bs_wf s" and "i < bs_nbits s" and "bs_nbits s < U32"
  shows "bs_wf (bitset_set s i) \<and> bs_set (bitset_set s i) = insert i (bs_set s) \<and>
    bs_wf (bitset_clear s i) \<and> bs_set (bitset_clear s i) = bs_set s - {i} \<and>
    bs_wf (bitset_toggle s i) \<and>
    bs_set (bitset_toggle s i) = (if i \<in> bs_set s then bs_set s - {i} else insert i (bs_set s)) \<and>
    bitset_get s i = (i \<in> bs_set s) \<and>
    bs_wf (bitset_set_all s) \<and> bs_set (bitset_set_all s) = {..<bs_nbits s} \<and>
    bs_wf (bitset_clear_all s) \<and> bs_set (bitset_clear_all s) = {} \<and>
    bitset_count s = card (bs_set s) \<and>
    bitset_find_first_set s = (if bs_set s = {} then -1 else
      let j = LEAST j. j \<in> bs_set s in if j < 2 ^ 31 then int j else int j - 2 ^ 32) \<and>
    bitset_find_first_clear s = (if {..<bs_nbits s} \<subseteq> bs_set s then -1 else
      let j = LEAST j. j < bs_nbits s \<and> j \<notin> bs_set s in if j < 2 ^ 31 then int j else int j - 2 ^ 32)"
proof -
  have w: "bitset_words (bs_nbits s) \<le> length (bs_w s)" using assms(1) by (simp add: bs_wf_def)
  have "(LEAST j. j \<in> bs_set s) < U32" if "bs_set s \<noteq> {}"
  proof -
    have "(LEAST j. j \<in> bs_set s) \<in> bs_set s" using that by (auto intro: LeastI)
    then show ?thesis using assms(3) by (simp add: bs_set_def)
  qed
  then have set: "as_int (LEAST j. j \<in> bs_set s) = (let j = LEAST j. j \<in> bs_set s in if j < 2 ^ 31 then int j else int j - 2 ^ 32)" if "bs_set s \<noteq> {}"
    using that as_int_eq by simp
  have "(LEAST j. j < bs_nbits s \<and> j \<notin> bs_set s) < U32" if "\<not> {..<bs_nbits s} \<subseteq> bs_set s"
  proof -
    have "(LEAST j. j < bs_nbits s \<and> j \<notin> bs_set s) < bs_nbits s" using that LeastI_ex [of "\<lambda>j. j < bs_nbits s \<and> j \<notin> bs_set s"] by auto
    then show ?thesis using assms(3) by simp
  qed
  then have clear: "as_int (LEAST j. j < bs_nbits s \<and> j \<notin> bs_set s) =
      (let j = LEAST j. j < bs_nbits s \<and> j \<notin> bs_set s in if j < 2 ^ 31 then int j else int j - 2 ^ 32)" if "\<not> {..<bs_nbits s} \<subseteq> bs_set s"
    using that as_int_eq by simp
  show ?thesis
    using bitset_set_spec [OF assms(1,2)] bitset_clear_spec [OF assms(1,2)] bitset_toggle_spec [OF assms(1,2)] set clear
      bitset_get_iff [OF assms(1,2)] bitset_set_all_spec [OF w] bitset_clear_all_spec [OF w]
      bitset_count_spec [OF assms(1)] find_set_from_spec [OF assms(1), of 0] find_clear_from_spec [OF assms(1), of 0]
    by (simp add: bitset_find_first_set_def bitset_find_first_clear_def)
qed

lemma bitset_init_wf:
  "bitset_words n \<le> length w \<Longrightarrow> bs_wf (bitset_init w n) \<and> bs_set (bitset_init w n) = {} \<and> bs_nbits (bitset_init w n) = n"
  using bitset_clear_all_spec [of "\<lparr>bs_w = w, bs_nbits = n\<rparr>"] by (simp add: bitset_init_def bitset_clear_all_def)

theorem bitset_refines_set_witness:
  "bs_set (bitset_set (bitset_init [0, 0] 40) 35) = {35} \<and> bitset_find_first_set (bitset_init [0, 0] 40) = -1"
  using bitset_refines_set [of "bitset_init [0, 0] 40" 35] bitset_init_wf [of 40 "[0, 0]"]
  by (simp add: bitset_words_def)

section \<open>The Bloom filter\<close>

record bloom =
  bl_bits :: bitset
  bl_k :: nat

definition bloom_init :: "u32 list \<Rightarrow> nat \<Rightarrow> nat \<Rightarrow> bloom" where
  "bloom_init words nbits k = \<lparr>bl_bits = bitset_init words nbits, bl_k = (if k = 0 then 1 else k)\<rparr>"

definition bloom_clear :: "bloom \<Rightarrow> bloom" where
  "bloom_clear b = b\<lparr>bl_bits := bitset_clear_all (bl_bits b)\<rparr>"

definition two_hashes :: "u8 list \<Rightarrow> u32 \<times> u32" where
  "two_hashes item =
     (let h1 = hash_fnv1a item;
          h2 = hash_murmur3 item h1;
          h2 = (if h2 AND 1 = 0 then h2 + 1 else h2)
      in (h1, h2))"

definition bloom_slot :: "bloom \<Rightarrow> u32 \<Rightarrow> u32 \<Rightarrow> nat \<Rightarrow> nat" where
  "bloom_slot b h1 h2 i = unat (h1 + of_nat i * h2) mod bs_nbits (bl_bits b)"

fun bloom_add_from :: "nat \<Rightarrow> nat \<Rightarrow> u32 \<Rightarrow> u32 \<Rightarrow> bloom \<Rightarrow> bloom" where
  "bloom_add_from 0 i h1 h2 b = b"
| "bloom_add_from (Suc n) i h1 h2 b =
     bloom_add_from n (i + 1) h1 h2 (b\<lparr>bl_bits := bitset_set (bl_bits b) (bloom_slot b h1 h2 i)\<rparr>)"

definition bloom_add :: "bloom \<Rightarrow> u8 list \<Rightarrow> bloom" where
  "bloom_add b item =
     (if bs_nbits (bl_bits b) = 0 then b
      else case two_hashes item of (h1, h2) \<Rightarrow> bloom_add_from (bl_k b) 0 h1 h2 b)"

fun bloom_has_from :: "nat \<Rightarrow> nat \<Rightarrow> u32 \<Rightarrow> u32 \<Rightarrow> bloom \<Rightarrow> bool" where
  "bloom_has_from 0 i h1 h2 b = True"
| "bloom_has_from (Suc n) i h1 h2 b =
     (if \<not> bitset_get (bl_bits b) (bloom_slot b h1 h2 i) then False else bloom_has_from n (i + 1) h1 h2 b)"

definition bloom_maybe_has :: "bloom \<Rightarrow> u8 list \<Rightarrow> bool" where
  "bloom_maybe_has b item =
     (if bs_nbits (bl_bits b) = 0 then False
      else case two_hashes item of (h1, h2) \<Rightarrow> bloom_has_from (bl_k b) 0 h1 h2 b)"

definition bloom_slots :: "bloom \<Rightarrow> u8 list \<Rightarrow> nat set" where
  "bloom_slots b item = (case two_hashes item of (h1, h2) \<Rightarrow> bloom_slot b h1 h2 ` {..<bl_k b})"

lemma bloom_slot_bits: "bs_nbits (bl_bits c) = bs_nbits (bl_bits b) \<Longrightarrow> bloom_slot c = bloom_slot b"
  by (simp add: bloom_slot_def fun_eq_iff)

lemma bloom_add_from_spec:
  assumes "bs_wf (bl_bits b)" "0 < bs_nbits (bl_bits b)"
  shows "bs_wf (bl_bits (bloom_add_from n i h1 h2 b)) \<and>
    bs_nbits (bl_bits (bloom_add_from n i h1 h2 b)) = bs_nbits (bl_bits b) \<and>
    bl_k (bloom_add_from n i h1 h2 b) = bl_k b \<and>
    bs_set (bl_bits (bloom_add_from n i h1 h2 b)) = bs_set (bl_bits b) \<union> bloom_slot b h1 h2 ` {i..<i + n}"
  using assms
proof (induction n arbitrary: i b)
  case (Suc n)
  let ?b = "b\<lparr>bl_bits := bitset_set (bl_bits b) (bloom_slot b h1 h2 i)\<rparr>"
  have lt: "bloom_slot b h1 h2 i < bs_nbits (bl_bits b)" using Suc.prems(2) by (simp add: bloom_slot_def)
  note st = bitset_set_spec [OF Suc.prems(1) lt]
  have "{i..<i + Suc n} = insert i {i + 1..<i + 1 + n}" by auto
  then show ?case using Suc.IH [of ?b "i + 1"] st Suc.prems(2) bloom_slot_bits [of ?b b] by auto
qed simp

lemma bloom_has_from_iff:
  assumes "bs_wf (bl_bits b)" "0 < bs_nbits (bl_bits b)"
  shows "bloom_has_from n i h1 h2 b \<longleftrightarrow> bloom_slot b h1 h2 ` {i..<i + n} \<subseteq> bs_set (bl_bits b)"
proof (induction n arbitrary: i)
  case (Suc n)
  have lt: "bloom_slot b h1 h2 i < bs_nbits (bl_bits b)" using assms(2) by (simp add: bloom_slot_def)
  have "{i..<i + Suc n} = insert i {i + 1..<i + 1 + n}" by auto
  then show ?case using Suc.IH [of "i + 1"] bitset_get_iff [OF assms(1) lt] by auto
qed simp

lemma bloom_add_spec:
  assumes "bs_wf (bl_bits b)" "0 < bs_nbits (bl_bits b)"
  shows "bs_wf (bl_bits (bloom_add b x)) \<and> bs_nbits (bl_bits (bloom_add b x)) = bs_nbits (bl_bits b) \<and>
    bl_k (bloom_add b x) = bl_k b \<and> bs_set (bl_bits (bloom_add b x)) = bs_set (bl_bits b) \<union> bloom_slots b x"
proof -
  obtain h1 h2 where h: "two_hashes x = (h1, h2)" by fastforce
  show ?thesis
    using assms(2) bloom_add_from_spec [OF assms, of "bl_k b" 0 h1 h2] h
    by (simp add: bloom_add_def bloom_slots_def atLeast0LessThan)
qed

lemma bloom_maybe_has_iff:
  assumes "bs_wf (bl_bits b)" "0 < bs_nbits (bl_bits b)"
  shows "bloom_maybe_has b x \<longleftrightarrow> bloom_slots b x \<subseteq> bs_set (bl_bits b)"
proof -
  obtain h1 h2 where h: "two_hashes x = (h1, h2)" by fastforce
  show ?thesis
    using assms(2) bloom_has_from_iff [OF assms, of "bl_k b" 0 h1 h2] h
    by (simp add: bloom_maybe_has_def bloom_slots_def atLeast0LessThan)
qed

lemma bloom_slots_cong:
  "bs_nbits (bl_bits c) = bs_nbits (bl_bits b) \<Longrightarrow> bl_k c = bl_k b \<Longrightarrow> bloom_slots c x = bloom_slots b x"
  using bloom_slot_bits [of c b] by (simp add: bloom_slots_def)

lemma bloom_fold_spec:
  assumes "bs_wf (bl_bits b)" "0 < bs_nbits (bl_bits b)"
  shows "bs_wf (bl_bits (foldl bloom_add b xs)) \<and> bs_nbits (bl_bits (foldl bloom_add b xs)) = bs_nbits (bl_bits b) \<and>
    bl_k (foldl bloom_add b xs) = bl_k b \<and>
    bs_set (bl_bits (foldl bloom_add b xs)) = bs_set (bl_bits b) \<union> (\<Union>x \<in> set xs. bloom_slots b x)"
  using assms
proof (induction xs arbitrary: b)
  case (Cons x xs)
  note a = bloom_add_spec [OF Cons.prems, of x]
  have "bloom_slots (bloom_add b x) y = bloom_slots b y" for y using a by (intro bloom_slots_cong) auto
  then show ?case using Cons.IH [of "bloom_add b x"] a Cons.prems by auto
qed simp

text \<open>
  C14: A Bloom filter has no false negatives: after any sequence of additions to a filter of at least
  one bit, every item added since it was set up is reported present, whatever the others were; a
  filter just set up or cleared reports nothing, and one of no bits stays empty without dividing by
  zero.
\<close>

theorem bloom_no_false_negative:
  assumes "bitset_words n \<le> length words"
  shows "(0 < n \<longrightarrow> (\<forall>x \<in> set xs. bloom_maybe_has (foldl bloom_add (bloom_init words n k) xs) x) \<and>
      \<not> bloom_maybe_has (bloom_clear (foldl bloom_add (bloom_init words n k) xs)) x) \<and>
    (n = 0 \<longrightarrow> \<not> bloom_maybe_has (foldl bloom_add (bloom_init words n k) xs) x)"
proof (intro conjI impI)
  let ?i = "bloom_init words n k"
  let ?b = "foldl bloom_add ?i xs"
  note wf = bitset_init_wf [OF assms]
  assume "0 < n"
  then have i: "bs_wf (bl_bits ?i)" "0 < bs_nbits (bl_bits ?i)" using wf by (simp_all add: bloom_init_def)
  note f = bloom_fold_spec [OF i, of xs]
  then have b: "bs_wf (bl_bits ?b)" "0 < bs_nbits (bl_bits ?b)" using i by simp_all
  have sl: "bloom_slots ?b y = bloom_slots ?i y" for y using f by (intro bloom_slots_cong) auto
  show "\<forall>x \<in> set xs. bloom_maybe_has ?b x" using f sl by (auto simp: bloom_maybe_has_iff [OF b])
  let ?c = "bloom_clear ?b"
  have "bitset_words (bs_nbits (bl_bits ?b)) \<le> length (bs_w (bl_bits ?b))" using b(1) by (simp add: bs_wf_def)
  note cl = bitset_clear_all_spec [OF this]
  have c: "bs_wf (bl_bits ?c)" "0 < bs_nbits (bl_bits ?c)" "bs_set (bl_bits ?c) = {}"
    using cl b by (simp_all add: bloom_clear_def bitset_clear_all_def)
  have "bl_k ?c \<noteq> 0" using f by (simp add: bloom_clear_def bloom_init_def)
  then have "bloom_slots ?c x \<noteq> {}" by (auto simp: bloom_slots_def split: prod.splits)
  then show "\<not> bloom_maybe_has ?c x" using c(3) bloom_maybe_has_iff [OF c(1,2)] by simp
next
  let ?i = "bloom_init words n k"
  assume n: "n = 0"
  have "foldl bloom_add ?i xs = ?i"
    using n by (induction xs) (simp_all add: bloom_add_def bloom_init_def bitset_init_def bitset_clear_all_def)
  then show "\<not> bloom_maybe_has (foldl bloom_add ?i xs) x"
    using n by (simp add: bloom_maybe_has_def bloom_init_def bitset_init_def bitset_clear_all_def)
qed

theorem bloom_no_false_negative_witness:
  "bloom_maybe_has (foldl bloom_add (bloom_init [0, 0] 64 3) [[112], [113, 7]]) [113, 7]"
  using bloom_no_false_negative [of 64 "[0, 0]" "[[112], [113, 7]]" 3] by (simp add: bitset_words_def)

end
