(* ===== verification/Gmap.thy ===== *)
theory Gmap
  imports Generic
begin

text \<open>
  \<open>src/ceres/ds/gmap.c\<close>: the open-addressing hash map every keyed table of the library rests on. A pair
  of the table is its key half and its value half; \<open>hashes\<close> and the halves come from \<open>malloc\<close>, so a slot
  of theirs may be unwritten. \<open>find\<close> returns an index or -1, here an option. The two loops that only
  end at a free slot take the number of slots as fuel: after that many steps they have seen every
  slot and would go on for ever, which is the outcome \<open>None\<close>; it is shown not to happen.
\<close>

datatype slot_state = SLOT_EMPTY | SLOT_USED | SLOT_TOMBSTONE

record ('k, 'v) gmap =
  gm_states :: "slot_state list"
  gm_hashes :: "u32 slots"
  gm_keys :: "'k slots"
  gm_vals :: "'v slots"
  gm_cap :: nat
  gm_len :: nat
  gm_used :: nat
  gm_key_size :: nat
  gm_value_size :: nat
  gm_hash :: "'k \<Rightarrow> nat \<Rightarrow> u32"
  gm_eq :: "'k \<Rightarrow> 'k \<Rightarrow> bool"

definition table_alloc :: "allocs \<Rightarrow> ('k, 'v) gmap \<Rightarrow> nat \<Rightarrow> ('k, 'v) gmap \<times> int" where
  "table_alloc al m cap =
     (let elem = gm_key_size m + gm_value_size m
      in if UINT_MAX < cap * elem \<or> UINT_MAX < cap * 4 then (m, -1)
         else if \<not> al 0 \<or> \<not> al 1 \<or> (\<not> al 2 \<and> add32 (gm_key_size m) (gm_value_size m) \<noteq> 0) then (m, -1)
         else (m\<lparr>gm_states := replicate cap SLOT_EMPTY, gm_hashes := slots_fresh cap,
                 gm_keys := slots_fresh cap, gm_vals := slots_fresh cap, gm_cap := cap, gm_used := 0\<rparr>, 0))"

definition gmap_init ::
  "allocs \<Rightarrow> nat \<Rightarrow> nat \<Rightarrow> u32 \<Rightarrow> ('k \<Rightarrow> nat \<Rightarrow> u32) \<Rightarrow> ('k \<Rightarrow> 'k \<Rightarrow> bool) \<Rightarrow> (('k, 'v) gmap \<times> int) option" where
  "gmap_init al key_size value_size initial_cap hash eq =
     (let m = \<lparr>gm_states = [], gm_hashes = [], gm_keys = [], gm_vals = [], gm_cap = 0, gm_len = 0,
               gm_used = 0, gm_key_size = key_size, gm_value_size = value_size, gm_hash = hash, gm_eq = eq\<rparr>
      in if UINT_MAX - value_size < key_size then Some (m, -1)
         else case (if initial_cap < 8 then Some 8 else bit_next_pow2 initial_cap) of
                None \<Rightarrow> None
              | Some cap \<Rightarrow> Some (table_alloc al m (unat cap)))"

definition gmap_free :: "('k, 'v) gmap \<Rightarrow> ('k, 'v) gmap" where
  "gmap_free m = m\<lparr>gm_states := [], gm_hashes := [], gm_keys := [], gm_vals := [], gm_cap := 0,
     gm_len := 0, gm_used := 0\<rparr>"

text \<open>\<open>n\<close> probes are left, the next at slot \<open>i\<close>.\<close>

fun find_probe :: "('k, 'v) gmap \<Rightarrow> 'k \<Rightarrow> u32 \<Rightarrow> nat \<Rightarrow> nat \<Rightarrow> nat option" where
  "find_probe m key h 0 i = None"
| "find_probe m key h (Suc n) i =
     (let state = gm_states m ! i
      in if state = SLOT_EMPTY then None
         else if state = SLOT_USED \<and> gm_hashes m ! i = Some h \<and> gm_eq m (the (gm_keys m ! i)) key then Some i
         else find_probe m key h n ((i + 1) AND (gm_cap m - 1)))"

definition gm_find :: "('k, 'v) gmap \<Rightarrow> 'k \<Rightarrow> u32 \<Rightarrow> nat option" where
  "gm_find m key h =
     (if gm_cap m = 0 then None else find_probe m key h (gm_cap m) (unat h AND (gm_cap m - 1)))"

text \<open>The slot at which a loop that steps over the states \<open>P\<close> stops.\<close>

fun probe_past :: "(slot_state \<Rightarrow> bool) \<Rightarrow> ('k, 'v) gmap \<Rightarrow> nat \<Rightarrow> nat \<Rightarrow> nat option" where
  "probe_past P m 0 i = None"
| "probe_past P m (Suc n) i =
     (if P (gm_states m ! i) then probe_past P m n ((i + 1) AND (gm_cap m - 1)) else Some i)"

fun rebuild_from :: "('k, 'v) gmap \<Rightarrow> nat \<Rightarrow> nat \<Rightarrow> ('k, 'v) gmap \<Rightarrow> ('k, 'v) gmap option" where
  "rebuild_from old 0 i m = Some m"
| "rebuild_from old (Suc n) i m =
     (if gm_states old ! i \<noteq> SLOT_USED then rebuild_from old n (i + 1) m
      else case probe_past (\<lambda>s. s \<noteq> SLOT_EMPTY) m (gm_cap m) (unat (the (gm_hashes old ! i)) AND (gm_cap m - 1)) of
             None \<Rightarrow> None
           | Some at \<Rightarrow> rebuild_from old n (i + 1)
               (m\<lparr>gm_states := (gm_states m)[at := SLOT_USED],
                  gm_hashes := (gm_hashes m)[at := gm_hashes old ! i],
                  gm_keys := (gm_keys m)[at := gm_keys old ! i],
                  gm_vals := (gm_vals m)[at := gm_vals old ! i],
                  gm_used := gm_used m + 1\<rparr>))"

definition gm_rebuild :: "allocs \<Rightarrow> ('k, 'v) gmap \<Rightarrow> nat \<Rightarrow> (('k, 'v) gmap \<times> int) option" where
  "gm_rebuild al m cap =
     (let old = m
      in case table_alloc al m cap of (m, r) \<Rightarrow>
           if r \<noteq> 0 then Some (old, -1)
           else case rebuild_from old (gm_cap old) 0 m of None \<Rightarrow> None | Some m \<Rightarrow> Some (m, 0))"

definition gm_insert_at :: "('k, 'v) gmap \<Rightarrow> nat \<Rightarrow> u32 \<Rightarrow> 'k \<Rightarrow> 'v \<Rightarrow> ('k, 'v) gmap" where
  "gm_insert_at m i h key value =
     (let m = (if gm_states m ! i = SLOT_EMPTY then m\<lparr>gm_used := gm_used m + 1\<rparr> else m);
          m = m\<lparr>gm_states := (gm_states m)[i := SLOT_USED], gm_hashes := (gm_hashes m)[i := Some h],
                gm_keys := (gm_keys m)[i := Some key]\<rparr>;
          m = (if gm_value_size m \<noteq> 0 then m\<lparr>gm_vals := (gm_vals m)[i := Some value]\<rparr> else m)
      in m\<lparr>gm_len := gm_len m + 1\<rparr>)"

definition gmap_set :: "allocs \<Rightarrow> ('k, 'v) gmap \<Rightarrow> 'k \<Rightarrow> 'v \<Rightarrow> (('k, 'v) gmap \<times> int) option" where
  "gmap_set al m key value =
     (let h = gm_hash m key (gm_key_size m)
      in case gm_find m key h of
           Some hit \<Rightarrow>
             Some (if gm_value_size m \<noteq> 0 then m\<lparr>gm_vals := (gm_vals m)[hit := Some value]\<rparr> else m, 0)
         | None \<Rightarrow>
             (case (if gm_cap m = 0 \<or> gm_cap m * 7 < (gm_used m + 1) * 10
                    then let cap = (if gm_cap m = 0 then 8 else gm_cap m);
                             cap = (if cap * 35 div 10 < (gm_len m + 1) * 10 then mul32 cap 2 else cap)
                         in if cap = 0 then Some (m, -1) else gm_rebuild al m cap
                    else Some (m, 0)) of
                None \<Rightarrow> None
              | Some (m, r) \<Rightarrow>
                  if r \<noteq> 0 then Some (m, -1)
                  else case probe_past (\<lambda>s. s = SLOT_USED) m (gm_cap m) (unat h AND (gm_cap m - 1)) of
                         None \<Rightarrow> None
                       | Some i \<Rightarrow> Some (gm_insert_at m i h key value, 0)))"

text \<open>The pointer \<open>gmap_get\<close> returns is the slot whose value half it points at.\<close>

definition gmap_get :: "('k, 'v) gmap \<Rightarrow> 'k \<Rightarrow> nat option" where
  "gmap_get m key = gm_find m key (gm_hash m key (gm_key_size m))"

definition gmap_has :: "('k, 'v) gmap \<Rightarrow> 'k \<Rightarrow> bool" where
  "gmap_has m key \<longleftrightarrow> gm_find m key (gm_hash m key (gm_key_size m)) \<noteq> None"

definition gmap_remove :: "('k, 'v) gmap \<Rightarrow> 'k \<Rightarrow> ('k, 'v) gmap \<times> int" where
  "gmap_remove m key =
     (case gm_find m key (gm_hash m key (gm_key_size m)) of
        None \<Rightarrow> (m, 0)
      | Some hit \<Rightarrow> (m\<lparr>gm_states := (gm_states m)[hit := SLOT_TOMBSTONE], gm_len := gm_len m - 1\<rparr>, 1))"

definition gmap_clear :: "('k, 'v) gmap \<Rightarrow> ('k, 'v) gmap" where
  "gmap_clear m = m\<lparr>gm_states := replicate (length (gm_states m)) SLOT_EMPTY, gm_len := 0, gm_used := 0\<rparr>"

text \<open>The calls \<open>gmap_each\<close> makes, in order: the key, and the value unless there is none.\<close>

definition gmap_each :: "('k, 'v) gmap \<Rightarrow> ('k option \<times> 'v option) list" where
  "gmap_each m =
     map (\<lambda>i. (gm_keys m ! i, if gm_value_size m \<noteq> 0 then gm_vals m ! i else None))
       (filter (\<lambda>i. gm_states m ! i = SLOT_USED) [0..<gm_cap m])"

definition gmap_len :: "('k, 'v) gmap \<Rightarrow> nat" where
  "gmap_len m = gm_len m"

section \<open>Well-formed tables\<close>

text \<open>Slot \<open>i\<close> is used, and by a key equal to \<open>key\<close>.\<close>

definition used_at :: "('k, 'v) gmap \<Rightarrow> nat \<Rightarrow> bool" where
  "used_at m i \<longleftrightarrow> i < gm_cap m \<and> gm_states m ! i = SLOT_USED"

definition hit_at :: "('k, 'v) gmap \<Rightarrow> 'k \<Rightarrow> nat \<Rightarrow> bool" where
  "hit_at m key i \<longleftrightarrow> used_at m i \<and> gm_eq m (the (gm_keys m ! i)) key"

text \<open>No empty slot lies between where a hash starts probing and slot \<open>i\<close>.\<close>

definition chained :: "('k, 'v) gmap \<Rightarrow> u32 \<Rightarrow> nat \<Rightarrow> bool" where
  "chained m h i \<longleftrightarrow> (\<exists>d < gm_cap m. i = (unat h + d) mod gm_cap m \<and>
     (\<forall>e < d. gm_states m ! ((unat h + e) mod gm_cap m) \<noteq> SLOT_EMPTY))"

definition entry_ok :: "('k, 'v) gmap \<Rightarrow> nat \<Rightarrow> bool" where
  "entry_ok m i \<longleftrightarrow> (\<exists>key. gm_keys m ! i = Some key \<and> gm_hashes m ! i = Some (gm_hash m key (gm_key_size m)) \<and>
     (gm_vals m ! i = None \<longleftrightarrow> gm_value_size m = 0) \<and> chained m (gm_hash m key (gm_key_size m)) i)"

definition gm_core :: "('k, 'v) gmap \<Rightarrow> bool" where
  "gm_core m \<longleftrightarrow> key_hash (gm_hash m) (gm_eq m) \<and> (\<exists>k. gm_cap m = 2 ^ k) \<and> gm_cap m * 4 \<le> UINT_MAX \<and>
     gm_cap m * (gm_key_size m + gm_value_size m) \<le> UINT_MAX \<and> length (gm_states m) = gm_cap m \<and>
     length (gm_hashes m) = gm_cap m \<and> length (gm_keys m) = gm_cap m \<and> length (gm_vals m) = gm_cap m \<and>
     (\<forall>i < gm_cap m. gm_value_size m = 0 \<longrightarrow> gm_vals m ! i = None) \<and>
     (\<forall>i. used_at m i \<longrightarrow> entry_ok m i) \<and>
     (\<forall>i j. used_at m i \<longrightarrow> used_at m j \<longrightarrow> gm_eq m (the (gm_keys m ! i)) (the (gm_keys m ! j)) \<longrightarrow> i = j) \<and>
     gm_used m = card {i. i < gm_cap m \<and> gm_states m ! i \<noteq> SLOT_EMPTY}"

definition gm_wf :: "('k, 'v) gmap \<Rightarrow> bool" where
  "gm_wf m \<longleftrightarrow> gm_len m = card {i. used_at m i} \<and> gm_used m * 10 \<le> gm_cap m * 7 \<and>
     (if gm_cap m = 0 then key_hash (gm_hash m) (gm_eq m) \<and> gm_used m = 0 \<and> gm_states m = [] else gm_core m \<and> 8 \<le> gm_cap m)"

text \<open>The meaning of a table: the value of each key it holds; \<open>Some None\<close> where values have no bytes.\<close>

definition gm_map :: "('k, 'v) gmap \<Rightarrow> 'k \<Rightarrow> 'v option option" where
  "gm_map m key = map_option (\<lambda>i. gm_vals m ! i) (gmap_get m key)"

section \<open>Probing\<close>

lemma gm_core_mask: "gm_core m \<Longrightarrow> (n :: nat) AND (gm_cap m - 1) = n mod gm_cap m"
  using nat_and_pow2_minus_1 by (auto simp: gm_core_def)

lemma gm_core_cap: "gm_core m \<Longrightarrow> 0 < gm_cap m"
  by (auto simp: gm_core_def)

lemma find_probe_some:
  assumes "gm_core m" "find_probe m key h n i = Some j" "i < gm_cap m"
  shows "hit_at m key j \<and> gm_hashes m ! j = Some h"
  using assms(2,3)
proof (induction n arbitrary: i)
  case (Suc n)
  have "(i + 1) AND (gm_cap m - 1) < gm_cap m"
    using gm_core_mask [OF assms(1)] gm_core_cap [OF assms(1)] by simp
  then show ?case using Suc by (auto simp: Let_def hit_at_def used_at_def split: if_splits)
qed simp

lemma mod_Suc_step: "0 < c \<Longrightarrow> (((a + d) mod c) + 1) mod c = (a + Suc d) mod (c :: nat)"
  by (metis Suc_eq_plus1 add_Suc_right mod_add_left_eq)

lemma find_probe_hit:
  assumes "gm_core m" "hit_at m key ((a + d) mod gm_cap m)" "gm_hashes m ! ((a + d) mod gm_cap m) = Some h"
    "\<forall>e < d. gm_states m ! ((a + e) mod gm_cap m) \<noteq> SLOT_EMPTY" "p \<le> d" "d < p + n"
  shows "find_probe m key h n ((a + p) mod gm_cap m) \<noteq> None"
  using assms(5,6)
proof (induction n arbitrary: p)
  case (Suc n)
  let ?i = "(a + p) mod gm_cap m"
  show ?case
  proof (cases "p = d")
    case True
    then show ?thesis using assms(2,3) by (simp add: hit_at_def used_at_def Let_def)
  next
    case False
    then have "p < d" using Suc.prems by simp
    then have ne: "gm_states m ! ?i \<noteq> SLOT_EMPTY" using assms(4) by simp
    have step: "(?i + 1) AND (gm_cap m - 1) = (a + Suc p) mod gm_cap m"
      using mod_Suc_step gm_core_mask [OF assms(1)] gm_core_cap [OF assms(1)] by simp
    have "find_probe m key h n ((?i + 1) AND (gm_cap m - 1)) \<noteq> None"
      unfolding step using Suc.IH [of "Suc p"] \<open>p < d\<close> Suc.prems by simp
    then show ?thesis using ne by (simp add: Let_def)
  qed
qed simp

lemma gm_core_states: "gm_core m \<Longrightarrow> length (gm_states m) = gm_cap m"
  by (simp add: gm_core_def)

lemma gm_core_hash: "gm_core m \<Longrightarrow> key_hash (gm_hash m) (gm_eq m)"
  by (simp add: gm_core_def)

lemma hit_unique:
  assumes m: "gm_core m" and h: "hit_at m key i" "hit_at m key j"
  shows "i = j"
proof -
  note k = gm_core_hash [OF m]
  have "gm_eq m (the (gm_keys m ! i)) (the (gm_keys m ! j))"
    using h key_hash.eq_sym [OF k] key_hash.eq_trans [OF k] unfolding hit_at_def by blast
  then show "i = j" using m h unfolding gm_core_def hit_at_def by blast
qed

text \<open>The search finds exactly the slot of an equal key, tombstones in the way or not.\<close>

lemma gmap_get_iff:
  assumes "gm_core m"
  shows "gmap_get m key = Some i \<longleftrightarrow> hit_at m key i"
proof
  let ?h = "gm_hash m key (gm_key_size m)"
  have c: "0 < gm_cap m" by (rule gm_core_cap [OF assms])
  have start: "unat ?h AND (gm_cap m - 1) = (unat ?h + 0) mod gm_cap m" using gm_core_mask [OF assms] by simp
  have lt: "(unat ?h + 0) mod gm_cap m < gm_cap m" using c by simp
  have find: "gmap_get m key = find_probe m key ?h (gm_cap m) ((unat ?h + 0) mod gm_cap m)"
    using c by (simp add: gmap_get_def gm_find_def start del: One_nat_def)
  show "hit_at m key i" if "gmap_get m key = Some i"
    using find_probe_some [OF assms _ lt] that find by metis
  assume h: "hit_at m key i"
  then have u: "used_at m i" and e: "gm_eq m (the (gm_keys m ! i)) key" by (simp_all add: hit_at_def)
  then obtain key' where k: "gm_keys m ! i = Some key'" "gm_hashes m ! i = Some (gm_hash m key' (gm_key_size m))"
      "chained m (gm_hash m key' (gm_key_size m)) i"
    using assms unfolding gm_core_def entry_ok_def by blast
  have hh: "gm_hash m key' (gm_key_size m) = ?h"
    using key_hash.eq_hash [OF gm_core_hash [OF assms]] e k(1) by simp
  obtain d where d: "d < gm_cap m" "i = (unat ?h + d) mod gm_cap m"
      "\<forall>e < d. gm_states m ! ((unat ?h + e) mod gm_cap m) \<noteq> SLOT_EMPTY"
    using k(3) hh unfolding chained_def by auto
  have "find_probe m key ?h (gm_cap m) ((unat ?h + 0) mod gm_cap m) \<noteq> None"
    by (rule find_probe_hit [OF assms, of _ "unat ?h" d]) (use h d k hh in simp_all)
  then obtain j where "gmap_get m key = Some j" using find by auto
  then show "gmap_get m key = Some i"
    using find_probe_some [OF assms _ lt] find hit_unique [OF assms h] by metis
qed

lemma gm_map_iff:
  assumes "gm_core m"
  shows "gm_map m key = Some v \<longleftrightarrow> (\<exists>i. hit_at m key i \<and> gm_vals m ! i = v)"
  using gmap_get_iff [OF assms, of key] by (auto simp: gm_map_def)

lemma gm_map_None: "gm_core m \<Longrightarrow> gm_map m key = None \<longleftrightarrow> (\<forall>i. \<not> hit_at m key i)"
  using gm_map_iff [of m key] by (metis option.exhaust option.distinct(1))

lemma cyclic_reach: "j < c \<Longrightarrow> \<exists>d < c. (a + d) mod c = (j :: nat)"
proof -
  assume j: "j < c"
  let ?d = "(j + (c - a mod c)) mod c"
  have "a mod c < c" using j by simp
  have "(a + ?d) mod c = (a mod c + (j + (c - a mod c))) mod c" by (simp add: mod_simps)
  also have "a mod c + (j + (c - a mod c)) = j + c" using \<open>a mod c < c\<close> by simp
  finally show ?thesis using j by (intro exI [of _ ?d]) simp
qed

lemma probe_past_stops:
  assumes "gm_core m" "d < n" "\<not> P (gm_states m ! ((a + p + d) mod gm_cap m))"
  shows "\<exists>q < n. probe_past P m n ((a + p) mod gm_cap m) = Some ((a + p + q) mod gm_cap m) \<and>
    \<not> P (gm_states m ! ((a + p + q) mod gm_cap m)) \<and> (\<forall>e < q. P (gm_states m ! ((a + p + e) mod gm_cap m)))"
  using assms(2,3)
proof (induction n arbitrary: p d)
  case (Suc n)
  let ?i = "(a + p) mod gm_cap m"
  show ?case
  proof (cases "P (gm_states m ! ?i)")
    case False
    then show ?thesis by (intro exI [of _ 0]) simp
  next
    case True
    then have "d \<noteq> 0" using Suc.prems(2) by (cases d) auto
    then obtain d' where d': "d = Suc d'" by (cases d) auto
    have step: "(?i + 1) AND (gm_cap m - 1) = (a + Suc p) mod gm_cap m"
      using mod_Suc_step gm_core_mask [OF assms(1)] gm_core_cap [OF assms(1)] by simp
    obtain q where q: "q < n" "probe_past P m n ((a + Suc p) mod gm_cap m) = Some ((a + Suc p + q) mod gm_cap m)"
        "\<not> P (gm_states m ! ((a + Suc p + q) mod gm_cap m))"
        "\<forall>e < q. P (gm_states m ! ((a + Suc p + e) mod gm_cap m))"
      using Suc.IH [of d' "Suc p"] Suc.prems d' by auto
    have "\<forall>e < Suc q. P (gm_states m ! ((a + p + e) mod gm_cap m))"
    proof (intro allI impI)
      fix e assume "e < Suc q"
      then show "P (gm_states m ! ((a + p + e) mod gm_cap m))"
        using True q(4) by (cases e) auto
    qed
    then show ?thesis using q True by (intro exI [of _ "Suc q"]) (simp add: step [simplified])
  qed
qed simp

text \<open>With a slot to stop at, a loop from the hash's own slot ends at the first one.\<close>

lemma probe_past_hash:
  assumes "gm_core m" "j < gm_cap m" "\<not> P (gm_states m ! j)"
  shows "\<exists>d < gm_cap m. probe_past P m (gm_cap m) (unat h AND (gm_cap m - 1)) = Some ((unat h + d) mod gm_cap m) \<and>
    \<not> P (gm_states m ! ((unat h + d) mod gm_cap m)) \<and> (\<forall>e < d. P (gm_states m ! ((unat h + e) mod gm_cap m)))"
proof -
  obtain d where "d < gm_cap m" "(unat h + d) mod gm_cap m = j" using cyclic_reach [OF assms(2)] by blast
  then show ?thesis
    using probe_past_stops [OF assms(1), of d "gm_cap m" P "unat h" 0] assms(3) gm_core_mask [OF assms(1)] by simp
qed

section \<open>Placing an entry\<close>

definition gm_place :: "('k, 'v) gmap \<Rightarrow> nat \<Rightarrow> u32 \<Rightarrow> 'k \<Rightarrow> 'v option \<Rightarrow> ('k, 'v) gmap" where
  "gm_place m i h key v =
     m\<lparr>gm_states := (gm_states m)[i := SLOT_USED], gm_hashes := (gm_hashes m)[i := Some h],
       gm_keys := (gm_keys m)[i := Some key], gm_vals := (gm_vals m)[i := v],
       gm_used := (if gm_states m ! i = SLOT_EMPTY then gm_used m + 1 else gm_used m)\<rparr>"

lemma gm_place_sel [simp]:
  "gm_cap (gm_place m i h key v) = gm_cap m" "gm_len (gm_place m i h key v) = gm_len m"
  "gm_key_size (gm_place m i h key v) = gm_key_size m" "gm_value_size (gm_place m i h key v) = gm_value_size m"
  "gm_hash (gm_place m i h key v) = gm_hash m" "gm_eq (gm_place m i h key v) = gm_eq m"
  by (simp_all add: gm_place_def)

lemma gm_place_core:
  assumes "gm_core m" "d < gm_cap m" "i = (unat h + d) mod gm_cap m"
    "\<forall>e < d. gm_states m ! ((unat h + e) mod gm_cap m) \<noteq> SLOT_EMPTY" "gm_states m ! i \<noteq> SLOT_USED"
    "h = gm_hash m key (gm_key_size m)" "v = None \<longleftrightarrow> gm_value_size m = 0" "gm_map m key = None"
  shows "gm_core (gm_place m i h key v)"
    and "used_at (gm_place m i h key v) j \<longleftrightarrow> j = i \<or> used_at m j"
    and "gm_map (gm_place m i h key v) x = (if gm_eq m key x then Some v else gm_map m x)"
proof -
  let ?m = "gm_place m i h key v"
  note kh = gm_core_hash [OF assms(1)]
  have i: "i < gm_cap m" using assms(3) gm_core_cap [OF assms(1)] by simp
  have len: "length (gm_states m) = gm_cap m" "length (gm_hashes m) = gm_cap m" "length (gm_keys m) = gm_cap m"
    "length (gm_vals m) = gm_cap m" using assms(1) by (simp_all add: gm_core_def)
  have st: "gm_states ?m ! j = (if j = i then SLOT_USED else gm_states m ! j)" for j
    using i len by (simp add: gm_place_def nth_list_update)
  have used: "used_at ?m j \<longleftrightarrow> j = i \<or> used_at m j" for j using i by (auto simp: used_at_def st)
  show "used_at ?m j \<longleftrightarrow> j = i \<or> used_at m j" by (rule used)
  have ni: "\<not> used_at m i" using assms(5) by (simp add: used_at_def)
  have key_i: "gm_keys ?m ! i = Some key" "gm_hashes ?m ! i = Some h" "gm_vals ?m ! i = v"
    using i len by (simp_all add: gm_place_def)
  have key_j: "gm_keys ?m ! j = gm_keys m ! j" "gm_hashes ?m ! j = gm_hashes m ! j" "gm_vals ?m ! j = gm_vals m ! j"
    if "j \<noteq> i" for j using that by (simp_all add: gm_place_def)
  have ch: "chained ?m g j" if "chained m g j" for g j
    using that st unfolding chained_def gm_place_sel by (metis slot_state.distinct(1))
  have chi: "chained ?m h i" using assms(2-4) st unfolding chained_def gm_place_sel by (metis slot_state.distinct(1))
  have ok: "entry_ok ?m j" if "used_at ?m j" for j
  proof (cases "j = i")
    case True
    then show ?thesis using key_i chi assms(6,7) by (simp add: entry_ok_def)
  next
    case False
    then have "entry_ok m j" using that used assms(1) by (simp add: gm_core_def)
    then show ?thesis using key_j [OF False] ch by (auto simp: entry_ok_def)
  qed
  have no: "\<not> hit_at m key j" for j using gm_map_None [OF assms(1)] assms(8) by blast
  have neq: "\<not> gm_eq m (the (gm_keys m ! j)) key" if "used_at m j" for j using no that by (simp add: hit_at_def)
  have dist: "j = k" if "used_at ?m j" "used_at ?m k" "gm_eq m (the (gm_keys ?m ! j)) (the (gm_keys ?m ! k))" for j k
  proof -
    have jk: "j = k" if "j \<noteq> i" "k \<noteq> i"
      using \<open>used_at ?m j\<close> \<open>used_at ?m k\<close> \<open>gm_eq m _ _\<close> that assms(1) used key_j unfolding gm_core_def by metis
    have "j \<noteq> i \<Longrightarrow> k = i \<Longrightarrow> False" using that neq [of j] used key_j key_i by auto
    moreover have "j = i \<Longrightarrow> k \<noteq> i \<Longrightarrow> False"
      using that neq [of k] used key_j key_i key_hash.eq_sym [OF kh] by auto
    ultimately show ?thesis using jk by blast
  qed
  let ?E = "{j. j < gm_cap m \<and> gm_states m ! j \<noteq> SLOT_EMPTY}"
  have E: "{j. j < gm_cap m \<and> gm_states ?m ! j \<noteq> SLOT_EMPTY} = insert i ?E" using i by (auto simp: st)
  have "card (insert i ?E) = (if gm_states m ! i = SLOT_EMPTY then gm_used m + 1 else gm_used m)"
    using assms(1) i by (simp add: gm_core_def card_insert_if)
  then have card: "gm_used ?m = card (insert i ?E)" by (simp add: gm_place_def)
  have lens: "length (gm_states ?m) = gm_cap m" "length (gm_hashes ?m) = gm_cap m" "length (gm_keys ?m) = gm_cap m"
    "length (gm_vals ?m) = gm_cap m" using len by (simp_all add: gm_place_def)
  have "gm_vals ?m ! j = None" if "j < gm_cap m" "gm_value_size m = 0" for j
    using assms(1,7) that key_i key_j by (cases "j = i") (simp_all add: gm_core_def)
  then show core: "gm_core ?m"
    unfolding gm_core_def gm_place_sel E card lens
    using assms(1) ok dist unfolding gm_core_def by blast
  have hits: "hit_at ?m x j \<longleftrightarrow> (if j = i then gm_eq m key x else hit_at m x j)" for j
    using used key_i key_j by (auto simp: hit_at_def)
  have nox: "\<not> hit_at m x j" if "gm_eq m key x" for j
    using that no key_hash.eq_sym [OF kh] key_hash.eq_trans [OF kh] unfolding hit_at_def by blast
  have hi: "\<not> hit_at m x i" using ni by (simp add: hit_at_def)
  show "gm_map ?m x = (if gm_eq m key x then Some v else gm_map m x)"
  proof (cases "gm_eq m key x")
    case True
    then have "hit_at ?m x i" using hits by simp
    then have "gm_map ?m x = Some v" using gm_map_iff [OF core] key_i by blast
    then show ?thesis using True by simp
  next
    case False
    have "gm_map ?m x = Some w \<longleftrightarrow> gm_map m x = Some w" for w
      unfolding gm_map_iff [OF core] gm_map_iff [OF assms(1)] using hits hi False key_j by metis
    then have "gm_map ?m x = gm_map m x" by (metis not_Some_eq)
    then show ?thesis using False by simp
  qed
qed

section \<open>Allocating and rebuilding\<close>

lemma card_nonempty_room:
  assumes "gm_core m" "gm_used m < gm_cap m"
  shows "\<exists>j < gm_cap m. gm_states m ! j = SLOT_EMPTY"
proof (rule ccontr)
  assume "\<not> ?thesis"
  then have "{i. i < gm_cap m \<and> gm_states m ! i \<noteq> SLOT_EMPTY} = {..<gm_cap m}" by auto
  then show False using assms by (simp add: gm_core_def)
qed

text \<open>What does not change when a table is rebuilt.\<close>

definition same_maker :: "('k, 'v) gmap \<Rightarrow> ('k, 'v) gmap \<Rightarrow> bool" where
  "same_maker m n \<longleftrightarrow> gm_hash n = gm_hash m \<and> gm_eq n = gm_eq m \<and> gm_key_size n = gm_key_size m \<and>
     gm_value_size n = gm_value_size m \<and> gm_len n = gm_len m"

lemma table_alloc_cases:
  assumes "key_hash (gm_hash m) (gm_eq m)" "table_alloc al m cap = (n, r)" "cap = 2 ^ k"
  shows "r = -1 \<and> n = m \<or>
    r = 0 \<and> gm_core n \<and> gm_cap n = cap \<and> gm_used n = 0 \<and> (\<forall>i. \<not> used_at n i) \<and> same_maker m n"
proof (cases "r = 0")
  case False
  then show ?thesis using assms(2) by (auto simp: table_alloc_def Let_def split: if_splits)
next
  case True
  then have n: "n = m\<lparr>gm_states := replicate cap SLOT_EMPTY, gm_hashes := slots_fresh cap,
      gm_keys := slots_fresh cap, gm_vals := slots_fresh cap, gm_cap := cap, gm_used := 0\<rparr>"
    and b: "cap * (gm_key_size m + gm_value_size m) \<le> UINT_MAX" "cap * 4 \<le> UINT_MAX"
    using assms(2) by (auto simp: table_alloc_def Let_def split: if_splits)
  have no: "\<not> used_at n i" for i by (simp add: n used_at_def)
  have "{i. i < cap \<and> replicate cap SLOT_EMPTY ! i \<noteq> SLOT_EMPTY} = {}" by auto
  then have "gm_used n = card {i. i < gm_cap n \<and> gm_states n ! i \<noteq> SLOT_EMPTY}" by (simp only: n) simp
  then have "gm_core n" using assms(1,3) b no unfolding gm_core_def by (simp add: n slots_fresh_def)
  then show ?thesis using True no by (simp add: n same_maker_def)
qed

lemma used_at_of_map:
  assumes "gm_core m" "used_at m i"
  shows "gm_map m (the (gm_keys m ! i)) = Some (gm_vals m ! i)"
  using assms key_hash.eq_refl [OF gm_core_hash [OF assms(1)]] gm_map_iff [OF assms(1)]
  unfolding hit_at_def by blast

text \<open>The part of a table's meaning that its first \<open>n\<close> slots hold.\<close>

definition held_by :: "('k, 'v) gmap \<Rightarrow> nat \<Rightarrow> 'k \<Rightarrow> 'v option \<Rightarrow> bool" where
  "held_by m n key v \<longleftrightarrow> (\<exists>i < n. hit_at m key i \<and> gm_vals m ! i = v)"

lemma rebuild_from_spec:
  assumes "gm_core old" "gm_core m" "same_maker old m" "i + n = gm_cap old"
    "\<And>key v. gm_map m key = Some v \<longleftrightarrow> held_by old i key v"
    "gm_used m = card {j. j < i \<and> used_at old j}" "\<And>j. j < gm_cap m \<Longrightarrow> gm_states m ! j \<noteq> SLOT_TOMBSTONE"
    "card {j. used_at old j} < gm_cap m"
  shows "\<exists>m'. rebuild_from old n i m = Some m' \<and> gm_core m' \<and> same_maker old m' \<and> gm_cap m' = gm_cap m \<and>
    gm_map m' = gm_map old \<and> gm_used m' = card {j. used_at old j} \<and> card {j. used_at m' j} = gm_used m'"
  using assms(2-8)
proof (induction n arbitrary: i m)
  case 0
  have "held_by old i key v \<longleftrightarrow> gm_map old key = Some v" for key v
    unfolding held_by_def gm_map_iff [OF assms(1)] using "0.prems"(3) by (auto simp: hit_at_def used_at_def)
  then have "gm_map m key = gm_map old key" for key using "0.prems"(4) by (metis not_Some_eq)
  moreover have "{j. j < i \<and> used_at old j} = {j. used_at old j}" using "0.prems"(3) by (auto simp: used_at_def)
  moreover have "{j. used_at m j} = {j. j < gm_cap m \<and> gm_states m ! j \<noteq> SLOT_EMPTY}"
    using "0.prems"(6) slot_state.exhaust by (auto simp: used_at_def)
  ultimately show ?case using "0.prems"(1,2,5) by (auto simp: gm_core_def fun_eq_iff)
next
  case (Suc n)
  have i: "i < gm_cap old" using Suc.prems(3) by simp
  show ?case
  proof (cases "gm_states old ! i = SLOT_USED")
    case False
    then have nu: "\<not> used_at old i" by (simp add: used_at_def)
    have "held_by old (i + 1) key v \<longleftrightarrow> held_by old i key v" for key v
      using nu by (auto simp: held_by_def hit_at_def less_Suc_eq)
    moreover have "{j. j < i + 1 \<and> used_at old j} = {j. j < i \<and> used_at old j}" using nu by (auto simp: less_Suc_eq)
    ultimately show ?thesis
      using Suc.IH [of m "i + 1"] Suc.prems(1-3) Suc.prems(4,5) Suc.prems(6,7) False by simp
  next
    case True
    then have u: "used_at old i" using i by (simp add: used_at_def)
    then obtain key where k: "gm_keys old ! i = Some key"
        "gm_hashes old ! i = Some (gm_hash old key (gm_key_size old))"
        "gm_vals old ! i = None \<longleftrightarrow> gm_value_size old = 0"
      using assms(1) unfolding gm_core_def entry_ok_def by blast
    define h where "h = gm_hash m key (gm_key_size m)"
    have hold: "gm_hashes old ! i = Some h" using k(2) Suc.prems(2) by (simp add: same_maker_def h_def)
    have fin: "finite {j. used_at old j}" by (rule finite_subset [of _ "{..<gm_cap old}"]) (auto simp: used_at_def)
    have "card {j. j < i \<and> used_at old j} \<le> card {j. used_at old j}" by (rule card_mono [OF fin]) auto
    then have "gm_used m < gm_cap m" using Suc.prems(5,7) by simp
    then obtain e where e: "e < gm_cap m" "gm_states m ! e = SLOT_EMPTY" using card_nonempty_room [OF Suc.prems(1)] by blast
    obtain d where d: "d < gm_cap m"
        "probe_past (\<lambda>s. s \<noteq> SLOT_EMPTY) m (gm_cap m) (unat h AND (gm_cap m - 1)) = Some ((unat h + d) mod gm_cap m)"
        "gm_states m ! ((unat h + d) mod gm_cap m) = SLOT_EMPTY"
        "\<forall>e < d. gm_states m ! ((unat h + e) mod gm_cap m) \<noteq> SLOT_EMPTY"
      using probe_past_hash [OF Suc.prems(1) e(1), of "\<lambda>s. s \<noteq> SLOT_EMPTY" h] e(2) by auto
    define at where "at = (unat h + d) mod gm_cap m"
    have noti: "j = i" if "hit_at old key j" for j
      using hit_unique [OF assms(1) that, of i] u k(1) key_hash.eq_refl [OF gm_core_hash [OF assms(1)]]
      by (simp add: hit_at_def)
    have fresh: "gm_map m key = None"
    proof (rule ccontr)
      assume "gm_map m key \<noteq> None"
      then obtain v where "held_by old i key v" using Suc.prems(4) by (metis option.exhaust)
      then show False using noti by (auto simp: held_by_def)
    qed
    let ?m = "gm_place m at h key (gm_vals old ! i)"
    have ate: "gm_states m ! at = SLOT_EMPTY" using d(3) by (simp add: at_def)
    then have "gm_states m ! at \<noteq> SLOT_USED" by simp
    note pl = gm_place_core [OF Suc.prems(1) d(1) at_def d(4) this h_def _ fresh, of "gm_vals old ! i"]
    have vs: "gm_vals old ! i = None \<longleftrightarrow> gm_value_size m = 0" using k(3) Suc.prems(2) by (simp add: same_maker_def)
    have step: "rebuild_from old (Suc n) i m = rebuild_from old n (i + 1) ?m"
      using True hold d(2) ate k(1) by (simp add: gm_place_def at_def)
    have sm: "same_maker old ?m" using Suc.prems(2) by (simp add: same_maker_def)
    have eqs: "gm_eq m = gm_eq old" using Suc.prems(2) by (simp add: same_maker_def)
    have hit_i: "hit_at old x i \<longleftrightarrow> gm_eq m key x" for x using u k(1) eqs by (simp add: hit_at_def)
    have "gm_map ?m x = Some v \<longleftrightarrow> held_by old (i + 1) x v" for x v
    proof (cases "gm_eq m key x")
      case True
      then have "hit_at old x i" using hit_i by simp
      then have "j = i" if "hit_at old x j" for j using hit_unique [OF assms(1) that] by blast
      then have "held_by old (i + 1) x v \<longleftrightarrow> gm_vals old ! i = v"
        using \<open>hit_at old x i\<close> unfolding held_by_def by (metis less_add_one)
      then show ?thesis using pl(3) [OF vs] True by simp
    next
      case False
      then have "held_by old (i + 1) x v \<longleftrightarrow> held_by old i x v"
        using hit_i unfolding held_by_def by (metis Suc_eq_plus1 less_Suc_eq)
      then show ?thesis using pl(3) [OF vs] False Suc.prems(4) by simp
    qed
    moreover have "{j. j < i + 1 \<and> used_at old j} = insert i {j. j < i \<and> used_at old j}"
      using u by (auto simp: less_Suc_eq)
    then have "gm_used ?m = card {j. j < i + 1 \<and> used_at old j}"
      using ate Suc.prems(5) by (simp add: gm_place_def)
    moreover have "gm_states ?m ! j \<noteq> SLOT_TOMBSTONE" if "j < gm_cap ?m" for j
      using Suc.prems(6) [of j] that gm_core_states [OF Suc.prems(1)]
      by (cases "j = at") (simp_all add: gm_place_def)
    ultimately show ?thesis
      unfolding step using Suc.IH [of ?m "i + 1", OF pl(1) [OF vs] sm] Suc.prems(3,7) by simp
  qed
qed

lemma gm_rebuild_cases:
  assumes "gm_core m \<or> gm_cap m = 0 \<and> key_hash (gm_hash m) (gm_eq m) \<and> gm_len m = 0"
    "gm_len m = card {i. used_at m i}" "cap = 2 ^ k" "gm_len m < cap"
  shows "\<exists>m' r. gm_rebuild al m cap = Some (m', r) \<and> (r = -1 \<and> m' = m \<or>
    r = 0 \<and> gm_core m' \<and> same_maker m m' \<and> gm_cap m' = cap \<and> gm_map m' = gm_map m \<and> gm_used m' = gm_len m \<and>
    card {j. used_at m' j} = gm_len m)"
proof -
  obtain n r where t: "table_alloc al m cap = (n, r)" by fastforce
  have kh: "key_hash (gm_hash m) (gm_eq m)" using assms(1) gm_core_hash by blast
  note c = table_alloc_cases [OF kh t assms(3)]
  show ?thesis
  proof (cases "r = 0")
    case False
    then show ?thesis using t c by (simp add: gm_rebuild_def)
  next
    case True
    then have n: "gm_core n" "gm_cap n = cap" "gm_used n = 0" "\<And>i. \<not> used_at n i" "same_maker m n" using c by auto
    have none: "gm_map n x = None" for x using gm_map_None [OF n(1)] n(4) by (simp add: hit_at_def)
    show ?thesis
    proof (cases "gm_cap m = 0")
      case z: True
      then have "gm_map m x = None" for x by (simp add: gm_map_def gmap_get_def gm_find_def)
      moreover have "gm_len m = 0" using assms(2) z by (simp add: used_at_def)
      moreover have "Collect (used_at n) = {}" using n(4) by simp
      then have "card (Collect (used_at n)) = 0" by (simp only: card.empty)
      ultimately show ?thesis using t True z n none by (simp add: gm_rebuild_def fun_eq_iff)
    next
      case nz: False
      then have m: "gm_core m" using assms(1) by simp
      have notomb: "gm_states n ! j \<noteq> SLOT_TOMBSTONE" if "j < gm_cap n" for j
      proof -
        have "{i. i < gm_cap n \<and> gm_states n ! i \<noteq> SLOT_EMPTY} = {}" using n(1,3) by (simp add: gm_core_def)
        then show ?thesis using that by auto
      qed
      obtain m' where "rebuild_from m (gm_cap m) 0 n = Some m' \<and> gm_core m' \<and> same_maker m m' \<and> gm_cap m' = gm_cap n \<and>
          gm_map m' = gm_map m \<and> gm_used m' = card {j. used_at m j} \<and> card {j. used_at m' j} = gm_used m'"
        using rebuild_from_spec [OF m n(1,5), of 0 "gm_cap m"] none notomb n(2,3) assms(2,4)
        by (auto simp: held_by_def)
      then show ?thesis using t True n(2) assms(2) by (simp add: gm_rebuild_def)
    qed
  qed
qed

section \<open>The operations on the map\<close>

lemma gm_wf_hash: "gm_wf m \<Longrightarrow> key_hash (gm_hash m) (gm_eq m)"
  by (auto simp: gm_wf_def gm_core_def split: if_splits)

lemma gm_wf_core: "gm_wf m \<Longrightarrow> gm_cap m = 0 \<or> gm_core m"
  by (auto simp: gm_wf_def split: if_splits)

lemma gm_map_cap0: "gm_cap m = 0 \<Longrightarrow> gm_map m x = None"
  by (simp add: gm_map_def gmap_get_def gm_find_def)

lemma gmap_get_map: "gmap_get m x = None \<longleftrightarrow> gm_map m x = None"
  by (simp add: gm_map_def)

lemma gmap_has_map: "gmap_has m x \<longleftrightarrow> gm_map m x \<noteq> None"
  by (simp add: gm_map_def gmap_has_def gmap_get_def)

text \<open>Equal keys have the same value.\<close>

lemma gm_map_cong:
  assumes "gm_wf m" "gm_eq m x y"
  shows "gm_map m x = gm_map m y"
proof (cases "gm_cap m = 0")
  case False
  then have core: "gm_core m" using gm_wf_core [OF assms(1)] by simp
  note kh = gm_core_hash [OF core]
  have "hit_at m x i \<longleftrightarrow> hit_at m y i" for i
    using assms(2) key_hash.eq_sym [OF kh] key_hash.eq_trans [OF kh] unfolding hit_at_def by blast
  then have "gm_map m x = Some v \<longleftrightarrow> gm_map m y = Some v" for v by (simp add: gm_map_iff [OF core])
  then show ?thesis by (metis not_Some_eq)
qed (simp add: gm_map_cap0)

text \<open>A new value for a key that is there.\<close>

lemma gm_core_overwrite:
  assumes "gm_core m" "gmap_get m key = Some i" "gm_value_size m \<noteq> 0"
    "n = m\<lparr>gm_vals := (gm_vals m)[i := Some v]\<rparr>"
  shows "gm_core n" and "gm_map n x = (if gm_eq m key x then Some (Some v) else gm_map m x)"
    and "used_at n = used_at m"
proof -
  have h: "hit_at m key i" using assms(2) gmap_get_iff [OF assms(1)] by blast
  then have i: "i < length (gm_vals m)" using assms(1) by (simp add: hit_at_def used_at_def gm_core_def)
  show u: "used_at n = used_at m" by (simp add: fun_eq_iff used_at_def assms(4))
  have ok: "entry_ok n j" if "used_at m j" for j
  proof -
    have "entry_ok m j" using that assms(1) by (simp add: gm_core_def)
    then show ?thesis
      using i assms(3) unfolding entry_ok_def chained_def by (cases "j = i") (auto simp: assms(4) nth_list_update)
  qed
  have "gm_core n \<longleftrightarrow> gm_core m" using ok u assms(1,3) by (simp add: gm_core_def assms(4))
  then show core: "gm_core n" using assms(1) by simp
  have hits: "hit_at n x j \<longleftrightarrow> hit_at m x j" for x j by (simp add: hit_at_def u) (simp add: assms(4))
  note kh = gm_core_hash [OF assms(1)]
  show "gm_map n x = (if gm_eq m key x then Some (Some v) else gm_map m x)"
  proof (cases "gm_eq m key x")
    case True
    then have "hit_at n x i" using h hits key_hash.eq_trans [OF kh] unfolding hit_at_def by blast
    moreover have "gm_vals n ! i = Some v" using i by (simp add: assms(4))
    ultimately show ?thesis using True gm_map_iff [OF core] by metis
  next
    case False
    then have "j \<noteq> i" if "hit_at m x j" for j
      using that h key_hash.eq_sym [OF kh] key_hash.eq_trans [OF kh] unfolding hit_at_def by blast
    then have "gm_map n x = Some w \<longleftrightarrow> gm_map m x = Some w" for w
      unfolding gm_map_iff [OF core] gm_map_iff [OF assms(1)] hits by (simp add: assms(4)) (metis nth_list_update_neq)
    then show ?thesis using False by (metis not_Some_eq)
  qed
qed

text \<open>Inserting where the probe stops.\<close>

lemma gm_insert_at_spec:
  assumes "gm_core m" "gm_map m key = None" "h = gm_hash m key (gm_key_size m)" "gm_used m < gm_cap m"
    "gm_len m = card {i. used_at m i}"
  shows "\<exists>i. probe_past (\<lambda>s. s = SLOT_USED) m (gm_cap m) (unat h AND (gm_cap m - 1)) = Some i \<and>
    gm_core (gm_insert_at m i h key v) \<and>
    gm_map (gm_insert_at m i h key v) x =
      (if gm_eq m key x then Some (if gm_value_size m = 0 then None else Some v) else gm_map m x) \<and>
    gm_len (gm_insert_at m i h key v) = gm_len m + 1 \<and>
    gm_len (gm_insert_at m i h key v) = card {j. used_at (gm_insert_at m i h key v) j} \<and>
    gm_used (gm_insert_at m i h key v) \<le> gm_used m + 1 \<and>
    gm_cap (gm_insert_at m i h key v) = gm_cap m"
proof -
  obtain e where e: "e < gm_cap m" "gm_states m ! e = SLOT_EMPTY" using card_nonempty_room [OF assms(1,4)] by blast
  obtain d where d: "d < gm_cap m"
      "probe_past (\<lambda>s. s = SLOT_USED) m (gm_cap m) (unat h AND (gm_cap m - 1)) = Some ((unat h + d) mod gm_cap m)"
      "gm_states m ! ((unat h + d) mod gm_cap m) \<noteq> SLOT_USED"
      "\<forall>e < d. gm_states m ! ((unat h + e) mod gm_cap m) = SLOT_USED"
    using probe_past_hash [OF assms(1) e(1), of "\<lambda>s. s = SLOT_USED" h] e(2) by auto
  define i where "i = (unat h + d) mod gm_cap m"
  define w where "w = (if gm_value_size m = 0 then None else Some v)"
  have i: "i < gm_cap m" using gm_core_cap [OF assms(1)] by (simp add: i_def)
  have ch: "\<forall>e < d. gm_states m ! ((unat h + e) mod gm_cap m) \<noteq> SLOT_EMPTY" using d(4) by simp
  note pl = gm_place_core [OF assms(1) d(1) i_def ch d(3) [folded i_def] assms(3) _ assms(2), of w]
  have w: "w = None \<longleftrightarrow> gm_value_size m = 0" by (simp add: w_def)
  have id: "(gm_vals m)[i := None] = gm_vals m" if "gm_value_size m = 0"
    using that assms(1) i unfolding gm_core_def by (metis list_update_id)
  have ins: "gm_insert_at m i h key v = (gm_place m i h key w)\<lparr>gm_len := gm_len m + 1\<rparr>"
    using id by (auto simp: gm_insert_at_def gm_place_def w_def Let_def)
  have fin: "finite {j. used_at m j}" by (rule finite_subset [of _ "{..<gm_cap m}"]) (auto simp: used_at_def)
  have "{j. used_at (gm_place m i h key w) j} = insert i {j. used_at m j}" using pl(2) [OF w] by auto
  moreover have "i \<notin> {j. used_at m j}" using d(3) by (simp add: used_at_def i_def)
  ultimately have card: "card {j. used_at (gm_place m i h key w) j} = gm_len m + 1"
    using fin assms(5) by simp
  have core: "gm_core (n\<lparr>gm_len := l\<rparr>) = gm_core n" "used_at (n\<lparr>gm_len := l\<rparr>) = used_at n"
    "gm_map (n\<lparr>gm_len := l\<rparr>) x = gm_map n x" for n :: "('a, 'b) gmap" and l
  proof -
    show u: "used_at (n\<lparr>gm_len := l\<rparr>) = used_at n" by (simp add: used_at_def fun_eq_iff)
    show "gm_core (n\<lparr>gm_len := l\<rparr>) = gm_core n" by (simp add: gm_core_def u entry_ok_def chained_def)
    have "find_probe (n\<lparr>gm_len := l\<rparr>) x h k j = find_probe n x h k j" for h k j
      by (induction k arbitrary: j) (simp_all add: Let_def)
    then show "gm_map (n\<lparr>gm_len := l\<rparr>) x = gm_map n x" by (simp add: gm_map_def gmap_get_def gm_find_def)
  qed
  have used: "gm_used (gm_place m i h key w) \<le> gm_used m + 1" by (simp add: gm_place_def)
  show ?thesis
    using d(2) pl(1) [OF w] pl(3) [OF w, of x] card used
    by (intro exI [of _ i] conjI) (simp_all add: ins core w_def [symmetric] i_def [symmetric])
qed

text \<open>The growth step of \<open>gmap_set\<close>: afterwards there is room for one more, or nothing changed.\<close>

definition gm_grow :: "allocs \<Rightarrow> ('k, 'v) gmap \<Rightarrow> (('k, 'v) gmap \<times> int) option" where
  "gm_grow al m =
     (if gm_cap m = 0 \<or> gm_cap m * 7 < (gm_used m + 1) * 10
      then let cap = (if gm_cap m = 0 then 8 else gm_cap m);
               cap = (if cap * 35 div 10 < (gm_len m + 1) * 10 then mul32 cap 2 else cap)
           in if cap = 0 then Some (m, -1) else gm_rebuild al m cap
      else Some (m, 0))"

lemma load_room: "(u + 1) * 10 \<le> c * 7 \<Longrightarrow> u < (c :: nat)"
proof -
  assume "(u + 1) * 10 \<le> c * 7"
  moreover have "c * 7 \<le> c * 10" by simp
  ultimately have "u * 10 < c * 10" by simp
  then show ?thesis by simp
qed

lemma gm_len_used: "gm_wf m \<Longrightarrow> gm_len m \<le> gm_used m"
proof (cases "gm_cap m = 0")
  case False
  assume wf: "gm_wf m"
  have "finite {i. i < gm_cap m \<and> gm_states m ! i \<noteq> SLOT_EMPTY}" by simp
  then have "card {i. used_at m i} \<le> card {i. i < gm_cap m \<and> gm_states m ! i \<noteq> SLOT_EMPTY}"
    by (rule card_mono) (auto simp: used_at_def)
  then show ?thesis using wf False by (simp add: gm_wf_def gm_core_def)
qed (simp add: gm_wf_def used_at_def)

lemma gm_grow_cases:
  assumes "gm_wf m"
  shows "\<exists>m' r. gm_grow al m = Some (m', r) \<and> (r = -1 \<and> m' = m \<or>
    r = 0 \<and> gm_core m' \<and> same_maker m m' \<and> gm_map m' = gm_map m \<and> 8 \<le> gm_cap m' \<and>
    (gm_used m' + 1) * 10 \<le> gm_cap m' * 7 \<and> gm_len m' = card {j. used_at m' j})"
proof (cases "gm_cap m = 0 \<or> gm_cap m * 7 < (gm_used m + 1) * 10")
  case False
  then show ?thesis using assms by (auto simp: gm_grow_def gm_wf_def same_maker_def)
next
  case True
  have len: "gm_len m = card {i. used_at m i}" and lu: "gm_len m \<le> gm_used m" "gm_used m * 10 \<le> gm_cap m * 7"
    using assms gm_len_used [OF assms] by (simp_all add: gm_wf_def)
  have pre: "gm_core m \<or> gm_cap m = 0 \<and> key_hash (gm_hash m) (gm_eq m) \<and> gm_len m = 0"
    using gm_wf_core [OF assms] gm_wf_hash [OF assms] len by (auto simp: used_at_def)
  define c0 where "c0 = (if gm_cap m = 0 then 8 else gm_cap m)"
  define cap where "cap = (if c0 * 35 div 10 < (gm_len m + 1) * 10 then mul32 c0 2 else c0)"
  have c0: "8 \<le> c0" "c0 * 4 \<le> UINT_MAX" "\<exists>k. c0 = 2 ^ k" "gm_len m * 10 \<le> c0 * 7"
  proof -
    show "8 \<le> c0" "c0 * 4 \<le> UINT_MAX" using assms by (auto simp: c0_def gm_wf_def gm_core_def split: if_splits)
    show "\<exists>k. c0 = 2 ^ k"
    proof (cases "gm_cap m = 0")
      case True
      then show ?thesis by (intro exI [of _ 3]) (simp add: c0_def)
    next
      case False
      then show ?thesis using gm_wf_core [OF assms] by (simp add: c0_def gm_core_def)
    qed
    show "gm_len m * 10 \<le> c0 * 7" using lu by (auto simp: c0_def)
  qed
  then obtain k where k: "c0 = 2 ^ k" by blast
  have dbl: "mul32 c0 2 = c0 * 2" using c0(2) by simp
  have cap: "\<exists>k. cap = 2 ^ k" "8 \<le> cap" "(gm_len m + 1) * 10 \<le> cap * 7"
  proof -
    show "\<exists>k. cap = 2 ^ k"
      using k dbl by (cases "c0 * 35 div 10 < (gm_len m + 1) * 10") (auto simp: cap_def intro: exI [of _ "Suc k"])
    show "8 \<le> cap" using c0(1) dbl by (simp add: cap_def)
    show "(gm_len m + 1) * 10 \<le> cap * 7"
    proof (cases "c0 * 35 div 10 < (gm_len m + 1) * 10")
      case True
      then have "cap = c0 * 2" using dbl by (simp add: cap_def)
      then have "cap * 7 = c0 * 7 + c0 * 7" by simp
      then show ?thesis using c0(1,4) by simp
    next
      case False
      then have "cap = c0" "(gm_len m + 1) * 10 \<le> c0 * 35 div 10" by (simp_all add: cap_def)
      moreover have "c0 * 35 div 10 \<le> c0 * 7" by (simp add: div_le_mono)
      ultimately show ?thesis by simp
    qed
  qed
  then have "gm_len m < cap" by (intro load_room) simp
  then obtain m' r where r: "gm_rebuild al m cap = Some (m', r)" "r = -1 \<and> m' = m \<or>
      r = 0 \<and> gm_core m' \<and> same_maker m m' \<and> gm_cap m' = cap \<and> gm_map m' = gm_map m \<and> gm_used m' = gm_len m \<and>
      card {j. used_at m' j} = gm_len m"
    using gm_rebuild_cases [OF pre len _ _, of cap _ al] cap(1) by blast
  have "gm_grow al m = gm_rebuild al m cap"
    using True cap(2) by (auto simp: gm_grow_def cap_def c0_def Let_def)
  then show ?thesis using r cap by (auto simp: same_maker_def)
qed

lemma gmap_set_eq:
  "gmap_set al m key value =
     (let h = gm_hash m key (gm_key_size m)
      in case gmap_get m key of
           Some hit \<Rightarrow> Some (if gm_value_size m \<noteq> 0 then m\<lparr>gm_vals := (gm_vals m)[hit := Some value]\<rparr> else m, 0)
         | None \<Rightarrow>
             (case gm_grow al m of
                None \<Rightarrow> None
              | Some (m, r) \<Rightarrow>
                  if r \<noteq> 0 then Some (m, -1)
                  else case probe_past (\<lambda>s. s = SLOT_USED) m (gm_cap m) (unat h AND (gm_cap m - 1)) of
                         None \<Rightarrow> None
                       | Some i \<Rightarrow> Some (gm_insert_at m i h key value, 0)))"
  unfolding gmap_set_def gm_grow_def gmap_get_def Let_def by (rule refl)

text \<open>What \<open>value\<close> becomes in the table: nothing where values have no bytes.\<close>

definition gm_val :: "('k, 'v) gmap \<Rightarrow> 'v \<Rightarrow> 'v option" where
  "gm_val m v = (if gm_value_size m = 0 then None else Some v)"

lemma gm_map_val:
  assumes "gm_core m" "gm_value_size m = 0" "gm_map m key = Some w"
  shows "w = None"
proof -
  obtain i where "hit_at m key i" "gm_vals m ! i = w" using assms(3) gm_map_iff [OF assms(1)] by blast
  then show ?thesis using assms(1,2) by (auto simp: gm_core_def hit_at_def used_at_def)
qed

lemma gmap_set_cases:
  assumes "gm_wf m"
  shows "\<exists>m' r. gmap_set al m key v = Some (m', r) \<and> gm_wf m' \<and> (r = -1 \<and> m' = m \<or>
    r = 0 \<and> gm_map m' = (\<lambda>x. if gm_eq m key x then Some (gm_val m v) else gm_map m x) \<and>
    same_maker (m\<lparr>gm_len := gm_len m + (if gm_map m key = None then 1 else 0)\<rparr>) m')"
proof (cases "gmap_get m key")
  case (Some i)
  then have "gm_cap m \<noteq> 0" by (auto simp: gmap_get_def gm_find_def split: if_splits)
  then have core: "gm_core m" using gm_wf_core [OF assms] by simp
  have mk: "gm_map m key \<noteq> None" using Some by (simp add: gm_map_def)
  show ?thesis
  proof (cases "gm_value_size m = 0")
    case True
    have "gm_map m x = Some None" if "gm_eq m key x" for x
      using mk gm_map_val [OF core True, of x] gm_map_cong [OF assms that] by (metis option.exhaust)
    then have "gm_map m = (\<lambda>x. if gm_eq m key x then Some (gm_val m v) else gm_map m x)"
      using True by (auto simp: gm_val_def)
    then show ?thesis using Some True mk assms by (auto simp: gmap_set_eq same_maker_def)
  next
    case False
    define n where "n = m\<lparr>gm_vals := (gm_vals m)[i := Some v]\<rparr>"
    note o = gm_core_overwrite [OF core Some False n_def]
    have wf: "gm_wf n" using assms o(1,3) \<open>gm_cap m \<noteq> 0\<close> by (simp add: gm_wf_def n_def)
    have set: "gmap_set al m key v = Some (n, 0)" using Some False by (simp add: gmap_set_eq n_def)
    have mp: "gm_map n = (\<lambda>x. if gm_eq m key x then Some (gm_val m v) else gm_map m x)"
      using o(2) False by (simp add: gm_val_def fun_eq_iff)
    have "same_maker (m\<lparr>gm_len := gm_len m + (if gm_map m key = None then 1 else 0)\<rparr>) n"
      using mk by (simp add: same_maker_def n_def)
    then show ?thesis using set mp wf by (intro exI [of _ n] exI [of _ 0]) simp
  qed
next
  case None
  then have mk: "gm_map m key = None" by (simp add: gm_map_def)
  obtain m1 r1 where g: "gm_grow al m = Some (m1, r1)" "r1 = -1 \<and> m1 = m \<or>
    r1 = 0 \<and> gm_core m1 \<and> same_maker m m1 \<and> gm_map m1 = gm_map m \<and> 8 \<le> gm_cap m1 \<and>
    (gm_used m1 + 1) * 10 \<le> gm_cap m1 * 7 \<and> gm_len m1 = card {j. used_at m1 j}"
    using gm_grow_cases [OF assms] by blast
  show ?thesis
  proof (cases "r1 = 0")
    case False
    then have "gmap_set al m key v = Some (m, -1)" using None g by (simp add: gmap_set_eq)
    then show ?thesis using assms by blast
  next
    case True
    then have c: "gm_core m1" "same_maker m m1" "gm_map m1 = gm_map m" "8 \<le> gm_cap m1"
      "(gm_used m1 + 1) * 10 \<le> gm_cap m1 * 7" "gm_len m1 = card {j. used_at m1 j}" using g(2) by auto
    define h where "h = gm_hash m key (gm_key_size m)"
    have h: "h = gm_hash m1 key (gm_key_size m1)" using c(2) by (simp add: h_def same_maker_def)
    have room: "gm_used m1 < gm_cap m1" by (rule load_room [OF c(5)])
    have mk1: "gm_map m1 key = None" using mk c(3) by simp
    obtain i where i: "probe_past (\<lambda>s. s = SLOT_USED) m1 (gm_cap m1) (unat h AND (gm_cap m1 - 1)) = Some i"
      using gm_insert_at_spec [OF c(1) mk1 h room c(6), of v] by blast
    define n where "n = gm_insert_at m1 i h key v"
    have ins: "gm_core n \<and> gm_map n x =
          (if gm_eq m1 key x then Some (if gm_value_size m1 = 0 then None else Some v) else gm_map m1 x) \<and>
        gm_len n = gm_len m1 + 1 \<and> gm_len n = card {j. used_at n j} \<and> gm_used n \<le> gm_used m1 + 1 \<and> gm_cap n = gm_cap m1" for x
      using gm_insert_at_spec [OF c(1) mk1 h room c(6), of v x] i by (simp add: n_def)
    have set: "gmap_set al m key v = Some (n, 0)"
      using None g(1) True i by (simp add: gmap_set_eq h_def [symmetric] n_def)
    have sm: "same_maker (m1\<lparr>gm_len := gm_len m1 + 1\<rparr>) n"
      by (simp add: n_def gm_insert_at_def same_maker_def Let_def)
    have i2: "gm_core n" "gm_len n = card {j. used_at n j}" "gm_used n \<le> gm_used m1 + 1" "gm_cap n = gm_cap m1"
      using ins by blast+
    have "gm_used n * 10 \<le> (gm_used m1 + 1) * 10" using i2(3) by (rule mult_le_mono1)
    then have "gm_used n * 10 \<le> gm_cap n * 7" using c(5) i2(4) by simp
    then have "gm_wf n" using i2 c(4) by (simp add: gm_wf_def)
    moreover have "gm_map n = (\<lambda>x. if gm_eq m key x then Some (gm_val m v) else gm_map m x)"
      using ins c(2,3) by (simp add: gm_val_def same_maker_def fun_eq_iff)
    moreover have "same_maker (m\<lparr>gm_len := gm_len m + (if gm_map m key = None then 1 else 0)\<rparr>) n"
      using sm c(2) mk by (simp add: same_maker_def)
    ultimately show ?thesis using set by (intro exI [of _ n] exI [of _ 0]) simp
  qed
qed

lemma gm_states_update_used:
  "used_at (m\<lparr>gm_states := st, gm_len := l\<rparr>) i \<longleftrightarrow> i < gm_cap m \<and> st ! i = SLOT_USED"
  by (simp add: used_at_def)

lemma gmap_remove_spec:
  assumes "gm_wf m" "gmap_remove m key = (n, r)"
  shows "gm_wf n" and "gm_map n x = (if gm_eq m key x then None else gm_map m x)"
    and "r = (if gm_map m key = None then 0 else 1)"
    and "same_maker (m\<lparr>gm_len := gm_len m - (if gm_map m key = None then 0 else 1)\<rparr>) n"
proof -
  have "gm_wf n \<and> gm_map n x = (if gm_eq m key x then None else gm_map m x) \<and>
    r = (if gm_map m key = None then 0 else 1) \<and>
    same_maker (m\<lparr>gm_len := gm_len m - (if gm_map m key = None then 0 else 1)\<rparr>) n"
  proof (cases "gmap_get m key")
    case None
    then have "n = m" "r = 0" "gm_map m key = None"
      using assms(2) by (simp_all add: gmap_remove_def gmap_get_def gm_map_def)
    then show ?thesis using assms(1) gm_map_cong [OF assms(1), of key x] by (auto simp: same_maker_def)
  next
    case (Some i)
    then have n: "n = m\<lparr>gm_states := (gm_states m)[i := SLOT_TOMBSTONE], gm_len := gm_len m - 1\<rparr>" and r: "r = 1"
      using assms(2) by (simp_all add: gmap_remove_def gmap_get_def)
    have cap: "gm_cap m \<noteq> 0" using Some by (auto simp: gmap_get_def gm_find_def split: if_splits)
    then have core: "gm_core m" using gm_wf_core [OF assms(1)] by simp
    note kh = gm_core_hash [OF core]
    have h: "hit_at m key i" using Some gmap_get_iff [OF core] by blast
    then have ui: "used_at m i" and il: "i < length (gm_states m)"
      using gm_core_states [OF core] by (simp_all add: hit_at_def used_at_def)
    have st: "gm_states n ! j = (if j = i then SLOT_TOMBSTONE else gm_states m ! j)" for j
      using il by (simp add: n nth_list_update)
    have used: "used_at n j \<longleftrightarrow> j \<noteq> i \<and> used_at m j" for j by (auto simp: used_at_def st) (auto simp: n)
    have sel: "gm_cap n = gm_cap m" "gm_hash n = gm_hash m" "gm_eq n = gm_eq m" "gm_key_size n = gm_key_size m"
      "gm_value_size n = gm_value_size m" "gm_hashes n = gm_hashes m" "gm_keys n = gm_keys m" "gm_vals n = gm_vals m"
      "gm_used n = gm_used m" "length (gm_states n) = length (gm_states m)" by (simp_all add: n)
    have nonempty: "gm_states n ! j \<noteq> SLOT_EMPTY \<longleftrightarrow> gm_states m ! j \<noteq> SLOT_EMPTY" for j
      using ui by (auto simp: st used_at_def)
    have ch: "chained n g j \<longleftrightarrow> chained m g j" for g j by (simp add: chained_def sel nonempty)
    have ok: "entry_ok n j \<longleftrightarrow> entry_ok m j" for j by (simp add: entry_ok_def sel ch)
    have ncore: "gm_core n" using core by (simp add: gm_core_def sel ok used nonempty)
    have fin: "finite {j. used_at m j}" by (rule finite_subset [of _ "{..<gm_cap m}"]) (auto simp: used_at_def)
    have "{j. used_at n j} = {j. used_at m j} - {i}" using used by auto
    then have "card {j. used_at n j} = gm_len m - 1" using fin ui assms(1) by (simp add: gm_wf_def)
    then have wf: "gm_wf n" using ncore assms(1) cap by (simp add: gm_wf_def sel) (simp add: n)
    have hits: "hit_at n x j \<longleftrightarrow> j \<noteq> i \<and> hit_at m x j" for j by (auto simp: hit_at_def used sel)
    have "gm_map n x = (if gm_eq m key x then None else gm_map m x)"
    proof (cases "gm_eq m key x")
      case True
      then have "hit_at m x i" using h key_hash.eq_trans [OF kh] unfolding hit_at_def by blast
      then have "\<not> hit_at n x j" for j using hits hit_unique [OF core] by blast
      then show ?thesis using True gm_map_None [OF ncore] by simp
    next
      case False
      then have "\<not> hit_at m x i"
        using h key_hash.eq_sym [OF kh] key_hash.eq_trans [OF kh] unfolding hit_at_def by blast
      then have "gm_map n x = Some v \<longleftrightarrow> gm_map m x = Some v" for v
        unfolding gm_map_iff [OF ncore] gm_map_iff [OF core] hits sel by metis
      then show ?thesis using False by (metis not_Some_eq)
    qed
    moreover have mk: "gm_map m key = Some (gm_vals m ! i)" using Some by (simp add: gm_map_def)
    moreover have "same_maker (m\<lparr>gm_len := gm_len m - (if gm_map m key = None then 0 else 1)\<rparr>) n"
      using mk by (simp add: same_maker_def sel) (simp add: n)
    ultimately show ?thesis using wf r by simp
  qed
  then show "gm_wf n" "gm_map n x = (if gm_eq m key x then None else gm_map m x)"
    "r = (if gm_map m key = None then 0 else 1)"
    "same_maker (m\<lparr>gm_len := gm_len m - (if gm_map m key = None then 0 else 1)\<rparr>) n" by simp_all
qed

lemma gmap_clear_spec:
  assumes "gm_wf m"
  shows "gm_wf (gmap_clear m)" and "gm_map (gmap_clear m) x = None"
proof -
  let ?n = "gmap_clear m"
  have nou: "\<not> used_at ?n i" for i
    using gm_wf_core [OF assms] gm_core_states [of m] by (auto simp: used_at_def gmap_clear_def)
  show wf: "gm_wf ?n"
  proof (cases "gm_cap m = 0")
    case True
    then show ?thesis using assms by (simp add: gm_wf_def gmap_clear_def used_at_def)
  next
    case False
    then have core: "gm_core m" using gm_wf_core [OF assms] by simp
    have e: "{i. i < gm_cap ?n \<and> gm_states ?n ! i \<noteq> SLOT_EMPTY} = {}"
      using gm_core_states [OF core] by (auto simp: gmap_clear_def)
    have "gm_core ?n" unfolding gm_core_def e using core nou by (simp add: gm_core_def) (simp add: gmap_clear_def)
    then show ?thesis using False assms nou by (simp add: gm_wf_def) (simp add: gmap_clear_def)
  qed
  show "gm_map ?n x = None"
    using gm_wf_core [OF wf] gm_map_None [of ?n x] gm_map_cap0 [of ?n x] nou by (auto simp: hit_at_def)
qed

lemma gmap_free_spec:
  assumes "gm_wf m"
  shows "gm_wf (gmap_free m)" and "gm_map (gmap_free m) x = None"
  using gm_wf_hash [OF assms] by (simp_all add: gm_wf_def gmap_free_def used_at_def gm_map_cap0)

lemma gmap_init_cases:
  assumes "key_hash hash eq" "unat initial_cap \<le> 2 ^ 31"
  shows "\<exists>m r. gmap_init al ks vs initial_cap hash eq = Some (m, r) \<and> (r = 0 \<or> r = -1) \<and> gm_wf m \<and>
    gm_map m = Map.empty \<and> gm_hash m = hash \<and> gm_eq m = eq \<and> gm_key_size m = ks \<and> gm_value_size m = vs \<and> gm_len m = 0"
proof -
  define m0 :: "('a, 'b) gmap" where "m0 = \<lparr>gm_states = [], gm_hashes = [], gm_keys = [], gm_vals = [], gm_cap = 0,
    gm_len = 0, gm_used = 0, gm_key_size = ks, gm_value_size = vs, gm_hash = hash, gm_eq = eq\<rparr>"
  have m0: "gm_wf m0" "gm_map m0 = Map.empty" using assms(1) by (auto simp: m0_def gm_wf_def used_at_def gm_map_cap0)
  obtain k where k: "(if initial_cap < 8 then Some 8 else bit_next_pow2 initial_cap) = Some (2 ^ k)" "3 \<le> k" "k < 32"
  proof (cases "initial_cap < 8")
    case True
    then show ?thesis using that [of 3] by simp
  next
    case False
    then have ge: "8 \<le> unat initial_cap" by (simp add: word_less_nat_alt)
    obtain k where k: "k < 32" "bit_next_pow2 initial_cap = Some (2 ^ k)" "unat initial_cap \<le> 2 ^ k"
      using bit_next_pow2_spec [OF assms(2)] by blast
    have "(2::nat) ^ 3 \<le> 2 ^ k" using ge k(3) by simp
    then have "3 \<le> k" by (simp only: power_increasing_iff one_less_numeral_iff semiring_norm)
    then show ?thesis using that [of k] k False by simp
  qed
  obtain n r where t: "table_alloc al m0 (2 ^ k) = (n, r)" by fastforce
  have u: "unat (2 ^ k :: u32) = 2 ^ k" by (rule unat_pow2_less [OF k(3)])
  have kh: "key_hash (gm_hash m0) (gm_eq m0)" using assms(1) by (simp add: m0_def)
  note c = table_alloc_cases [OF kh t refl]
  have n8: "(8::nat) \<le> 2 ^ k" using power_increasing [OF k(2), of "2::nat"] by simp
  have "gm_wf n \<and> gm_map n = Map.empty \<and> same_maker m0 n \<and> (r = 0 \<or> r = -1)"
  proof (cases "r = 0")
    case True
    then have n: "gm_core n" "gm_cap n = 2 ^ k" "gm_used n = 0" "\<And>i. \<not> used_at n i" "same_maker m0 n" using c by auto
    then have "gm_wf n" using n8 by (simp add: gm_wf_def same_maker_def) (simp add: m0_def)
    moreover have "gm_map n x = None" for x using gm_map_None [OF n(1)] n(4) by (simp add: hit_at_def)
    ultimately show ?thesis using True n(5) by auto
  next
    case False
    then show ?thesis using c m0 by (auto simp: same_maker_def)
  qed
  moreover have "gmap_init al ks vs initial_cap hash eq = (if UINT_MAX - vs < ks then Some (m0, -1) else Some (n, r))"
    unfolding gmap_init_def k(1) using t u by (simp add: m0_def [symmetric] Let_def)
  ultimately show ?thesis
    using m0 by (cases "UINT_MAX - vs < ks") (auto simp: same_maker_def m0_def)
qed

lemma gmap_each_spec:
  assumes "gm_wf m"
  shows "length (gmap_each m) = gm_len m"
    and "gm_map m x = Some v \<longleftrightarrow> (\<exists>k. (Some k, v) \<in> set (gmap_each m) \<and> gm_eq m k x)"
    and "\<And>i j. i < length (gmap_each m) \<Longrightarrow> j < length (gmap_each m) \<Longrightarrow>
      gm_eq m (the (fst (gmap_each m ! i))) (the (fst (gmap_each m ! j))) \<Longrightarrow> i = j"
proof -
  let ?L = "filter (\<lambda>i. gm_states m ! i = SLOT_USED) [0..<gm_cap m]"
  have L: "set ?L = {i. used_at m i}" "distinct ?L" by (auto simp: used_at_def)
  have card: "length ?L = card {i. used_at m i}" using distinct_card [OF L(2)] L(1) by simp
  then show "length (gmap_each m) = gm_len m" using assms by (simp add: gmap_each_def gm_wf_def)
  show "gm_map m x = Some v \<longleftrightarrow> (\<exists>k. (Some k, v) \<in> set (gmap_each m) \<and> gm_eq m k x)"
  proof (cases "gm_cap m = 0")
    case False
    then have core: "gm_core m" using gm_wf_core [OF assms] by simp
    have k: "\<exists>k. gm_keys m ! i = Some k" "(if gm_value_size m \<noteq> 0 then gm_vals m ! i else None) = gm_vals m ! i"
      if "used_at m i" for i
      using core that unfolding gm_core_def entry_ok_def by auto
    have "(Some k, v) \<in> set (gmap_each m) \<longleftrightarrow> (\<exists>i. used_at m i \<and> gm_keys m ! i = Some k \<and> gm_vals m ! i = v)" for k
      using k(2) L(1) unfolding gmap_each_def by (auto simp: image_iff)
    then show ?thesis
      unfolding gm_map_iff [OF core] hit_at_def using k(1) by (metis option.sel)
  qed (simp add: gm_map_cap0 gmap_each_def)
  show "i = j" if "i < length (gmap_each m)" "j < length (gmap_each m)"
    "gm_eq m (the (fst (gmap_each m ! i))) (the (fst (gmap_each m ! j)))" for i j
  proof -
    have ij: "i < length ?L" "j < length ?L" using that(1,2) by (simp_all add: gmap_each_def)
    then have u: "used_at m (?L ! i)" "used_at m (?L ! j)" using L(1) nth_mem by blast+
    then have "gm_core m" using gm_wf_core [OF assms] by (auto simp: used_at_def)
    moreover have "gm_eq m (the (gm_keys m ! (?L ! i))) (the (gm_keys m ! (?L ! j)))"
      using that(3) ij by (simp add: gmap_each_def)
    ultimately have "?L ! i = ?L ! j" using u unfolding gm_core_def by blast
    then show ?thesis using nth_eq_iff_index_eq [OF L(2) ij] by blast
  qed
qed

section \<open>The table as a keyed store\<close>

text \<open>
  What the keyed containers promise their clients: after a store that succeeds a lookup of an equal key
  gives the new value and of any other the old one, a failed store changes no lookup, a removal
  forgets one key. \<open>same\<close> tells equal keys apart; the outcomes of the allocator are any.
\<close>

locale keyed_store =
  fixes ok :: "'s \<Rightarrow> bool"
    and same :: "'k \<Rightarrow> 'k \<Rightarrow> bool"
    and lookup :: "'s \<Rightarrow> 'k \<Rightarrow> 'v option"
    and store :: "allocs \<Rightarrow> 's \<Rightarrow> 'k \<Rightarrow> 'v \<Rightarrow> 's \<times> int"
    and forget :: "'s \<Rightarrow> 'k \<Rightarrow> 's \<times> int"
  assumes store_ok: "ok s \<Longrightarrow> store al s k v = (s', r) \<Longrightarrow> ok s'"
    and store_lookup: "ok s \<Longrightarrow> store al s k v = (s', r) \<Longrightarrow>
      r = 0 \<and> lookup s' x = (if same k x then Some v else lookup s x) \<or> r = -1 \<and> lookup s' x = lookup s x"
    and forget_ok: "ok s \<Longrightarrow> forget s k = (s', r) \<Longrightarrow> ok s'"
    and forget_lookup: "ok s \<Longrightarrow> forget s k = (s', r) \<Longrightarrow>
      lookup s' x = (if same k x then None else lookup s x) \<and> r = (if lookup s k = None then 0 else 1)"

text \<open>A client's sequence of calls, and the same calls on the function from keys to values.\<close>

datatype ('k, 'v) store_call = Store allocs 'k 'v | Forget 'k

fun store_run :: "(allocs \<Rightarrow> 's \<Rightarrow> 'k \<Rightarrow> 'v \<Rightarrow> 's \<times> int) \<Rightarrow> ('s \<Rightarrow> 'k \<Rightarrow> 's \<times> int) \<Rightarrow> 's \<Rightarrow>
    ('k, 'v) store_call list \<Rightarrow> 's \<times> int list" where
  "store_run store forget s [] = (s, [])"
| "store_run store forget s (Store al k v # cs) =
     (case store al s k v of (s, r) \<Rightarrow> case store_run store forget s cs of (s, rs) \<Rightarrow> (s, r # rs))"
| "store_run store forget s (Forget k # cs) =
     (case forget s k of (s, r) \<Rightarrow> case store_run store forget s cs of (s, rs) \<Rightarrow> (s, r # rs))"

fun fun_run :: "('k \<Rightarrow> 'k \<Rightarrow> bool) \<Rightarrow> ('k \<Rightarrow> 'v option) \<Rightarrow> ('k, 'v) store_call list \<Rightarrow> int list \<Rightarrow> 'k \<Rightarrow> 'v option" where
  "fun_run same f (Store al k v # cs) (r # rs) =
     fun_run same (if r = 0 then \<lambda>x. if same k x then Some v else f x else f) cs rs"
| "fun_run same f (Forget k # cs) (r # rs) = fun_run same (\<lambda>x. if same k x then None else f x) cs rs"
| "fun_run same f cs rs = f"

context keyed_store
begin

text \<open>Whatever is called in whatever order, lookups answer as the function does.\<close>

lemma run_lookup:
  "ok s \<Longrightarrow> store_run store forget s cs = (s', rs) \<Longrightarrow> ok s' \<and> lookup s' = fun_run same (lookup s) cs rs"
proof (induction cs arbitrary: s rs)
  case (Cons c cs)
  show ?case
  proof (cases c)
    case (Store al k v)
    obtain s1 r rs1 where st: "store al s k v = (s1, r)" "store_run store forget s1 cs = (s', rs1)" "rs = r # rs1"
      using Cons.prems(2) Store by (auto split: prod.splits)
    have "lookup s1 = (if r = 0 then \<lambda>x. if same k x then Some v else lookup s x else lookup s)"
      using store_lookup [OF Cons.prems(1) st(1)] by (auto simp: fun_eq_iff)
    then show ?thesis using Cons.IH [OF store_ok [OF Cons.prems(1) st(1)] st(2)] Store st(3) by simp
  next
    case (Forget k)
    obtain s1 r rs1 where st: "forget s k = (s1, r)" "store_run store forget s1 cs = (s', rs1)" "rs = r # rs1"
      using Cons.prems(2) Forget by (auto split: prod.splits)
    have "lookup s1 = (\<lambda>x. if same k x then None else lookup s x)"
      using forget_lookup [OF Cons.prems(1) st(1)] by (auto simp: fun_eq_iff)
    then show ?thesis using Cons.IH [OF forget_ok [OF Cons.prems(1) st(1)] st(2)] Forget st(3) by simp
  qed
qed simp

end

text \<open>The hash map over keys told apart by \<open>same\<close>, with values of at least one byte.\<close>

definition gm_store_ok :: "('k \<Rightarrow> 'k \<Rightarrow> bool) \<Rightarrow> ('k, 'v) gmap \<Rightarrow> bool" where
  "gm_store_ok same m \<longleftrightarrow> gm_wf m \<and> gm_eq m = same \<and> gm_value_size m \<noteq> 0"

definition gm_lookup :: "('k, 'v) gmap \<Rightarrow> 'k \<Rightarrow> 'v option" where
  "gm_lookup m k = (case gmap_get m k of None \<Rightarrow> None | Some i \<Rightarrow> gm_vals m ! i)"

definition gm_store :: "allocs \<Rightarrow> ('k, 'v) gmap \<Rightarrow> 'k \<Rightarrow> 'v \<Rightarrow> ('k, 'v) gmap \<times> int" where
  "gm_store al m k v = the (gmap_set al m k v)"

lemma gm_lookup_map: "gm_lookup m k = (case gm_map m k of None \<Rightarrow> None | Some v \<Rightarrow> v)"
  by (simp add: gm_lookup_def gm_map_def split: option.splits)

lemma gm_map_some: "gm_wf m \<Longrightarrow> gm_value_size m \<noteq> 0 \<Longrightarrow> gm_map m k = Some v \<Longrightarrow> v \<noteq> None"
proof -
  assume wf: "gm_wf m" and vs: "gm_value_size m \<noteq> 0" and m: "gm_map m k = Some v"
  then have core: "gm_core m" using gm_wf_core [OF wf] gm_map_cap0 [of m k] by auto
  then obtain i where "used_at m i" "gm_vals m ! i = v" using m gm_map_iff [OF core] by (auto simp: hit_at_def)
  then show ?thesis using core vs unfolding gm_core_def entry_ok_def by auto
qed

lemma gm_lookup_None:
  assumes "gm_wf m" "gm_value_size m \<noteq> 0"
  shows "gm_lookup m k = None \<longleftrightarrow> gm_map m k = None"
  using gm_map_some [OF assms, of k] by (auto simp: gm_lookup_map split: option.splits)

interpretation gmap_store: keyed_store "gm_store_ok same" same gm_lookup gm_store gmap_remove
  for same :: "'k \<Rightarrow> 'k \<Rightarrow> bool"
proof unfold_locales
  fix al and s s' :: "('k, 'v) gmap" and k v r x
  assume ok: "gm_store_ok same s"
  then have wf: "gm_wf s" and eq: "gm_eq s = same" and vs: "gm_value_size s \<noteq> 0" by (simp_all add: gm_store_ok_def)
  { assume st: "gm_store al s k v = (s', r)"
    have c: "gm_wf s' \<and> (r = -1 \<and> s' = s \<or>
        r = 0 \<and> gm_map s' = (\<lambda>x. if gm_eq s k x then Some (gm_val s v) else gm_map s x) \<and>
        same_maker (s\<lparr>gm_len := gm_len s + (if gm_map s k = None then 1 else 0)\<rparr>) s')"
      using gmap_set_cases [OF wf, of al k v] st by (auto simp: gm_store_def)
    then show "gm_store_ok same s'" using eq vs ok by (auto simp: gm_store_ok_def same_maker_def)
    show "r = 0 \<and> gm_lookup s' x = (if same k x then Some v else gm_lookup s x) \<or> r = -1 \<and> gm_lookup s' x = gm_lookup s x"
      using c eq vs by (auto simp: gm_lookup_map gm_val_def) }
  { assume fg: "gmap_remove s k = (s', r)"
    note c = gmap_remove_spec [OF wf fg]
    show "gm_store_ok same s'" using c(1,4) eq vs by (simp add: gm_store_ok_def same_maker_def)
    show "gm_lookup s' x = (if same k x then None else gm_lookup s x) \<and> r = (if gm_lookup s k = None then 0 else 1)"
      using c(2,3) eq gm_lookup_None [OF wf vs] by (simp add: gm_lookup_map) }
qed

section \<open>Properties\<close>

text \<open>
  C15: Every operation of the hash map returns (no probe loop runs for ever) and acts on the map from
  keys to values as its name says, whatever the hash function makes collide, whatever tombstones lie
  in the way and whatever the allocator answers: a store adds or replaces the value of equal keys
  only, rehashing into a new table included, or fails and leaves the table as it was; removal forgets
  equal keys only; the count is the number of entries and iteration meets each once.
\<close>

theorem gmap_refines_map:
  assumes "gm_wf m"
  shows "(\<exists>m' r. gmap_set al m key v = Some (m', r) \<and> gm_wf m' \<and> gm_eq m' = gm_eq m \<and>
       (if r = 0
        then gm_map m' = (\<lambda>x. if gm_eq m key x then Some (gm_val m v) else gm_map m x) \<and>
          gmap_len m' = gmap_len m + (if gm_map m key = None then 1 else 0)
        else r = -1 \<and> m' = m)) \<and>
     (case gmap_remove m key of (m', r) \<Rightarrow> gm_wf m' \<and>
       gm_map m' = (\<lambda>x. if gm_eq m key x then None else gm_map m x) \<and> r = (if gmap_has m key then 1 else 0)) \<and>
     gm_wf (gmap_clear m) \<and> gm_map (gmap_clear m) = Map.empty \<and>
     gm_wf (gmap_free m) \<and> gm_map (gmap_free m) = Map.empty \<and>
     gmap_has m key = (gm_map m key \<noteq> None) \<and>
     length (gmap_each m) = gmap_len m \<and>
     (\<forall>x w. gm_map m x = Some w \<longleftrightarrow> (\<exists>k. (Some k, w) \<in> set (gmap_each m) \<and> gm_eq m k x))"
proof -
  obtain m' r where s: "gmap_set al m key v = Some (m', r)" "gm_wf m'" "r = -1 \<and> m' = m \<or>
      r = 0 \<and> gm_map m' = (\<lambda>x. if gm_eq m key x then Some (gm_val m v) else gm_map m x) \<and>
      same_maker (m\<lparr>gm_len := gm_len m + (if gm_map m key = None then 1 else 0)\<rparr>) m'"
    using gmap_set_cases [OF assms] by blast
  then have set: "gm_eq m' = gm_eq m \<and> (if r = 0
      then gm_map m' = (\<lambda>x. if gm_eq m key x then Some (gm_val m v) else gm_map m x) \<and>
        gmap_len m' = gmap_len m + (if gm_map m key = None then 1 else 0)
      else r = -1 \<and> m' = m)"
    by (auto simp: same_maker_def gmap_len_def)
  obtain n q where d: "gmap_remove m key = (n, q)" by fastforce
  note rm = gmap_remove_spec(1-3) [OF assms d]
  have each: "\<forall>x w. gm_map m x = Some w \<longleftrightarrow> (\<exists>k. (Some k, w) \<in> set (gmap_each m) \<and> gm_eq m k x)"
    by (intro allI) (rule gmap_each_spec(2) [OF assms])
  have ex: "\<exists>m' r. gmap_set al m key v = Some (m', r) \<and> gm_wf m' \<and> gm_eq m' = gm_eq m \<and>
       (if r = 0
        then gm_map m' = (\<lambda>x. if gm_eq m key x then Some (gm_val m v) else gm_map m x) \<and>
          gmap_len m' = gmap_len m + (if gm_map m key = None then 1 else 0)
        else r = -1 \<and> m' = m)" using s(1,2) set by blast
  show ?thesis
    using rm gmap_clear_spec [OF assms] gmap_free_spec [OF assms] gmap_each_spec(1) [OF assms] d
    by (intro conjI each ex) (simp_all add: gmap_has_map gmap_len_def fun_eq_iff)
qed

lemma gmap_init_int_wf:
  obtains m :: "(u32, 'v) gmap" and r where "gmap_init al ks vs 0 ds_hash_int ds_eq_int = Some (m, r)" "gm_wf m"
    "gm_map m = Map.empty" "gm_eq m = ds_eq_int" "gm_value_size m = vs"
  using gmap_init_cases [OF hash_int.key_hash_axioms, of 0 al ks vs] by force

theorem gmap_refines_map_witness:
  "\<exists>m r m' r'. gmap_init (\<lambda>_. True) 4 4 0 ds_hash_int ds_eq_int = Some (m, r) \<and>
     gmap_set (\<lambda>_. True) m 3 (42 :: nat) = Some (m', r') \<and> gm_wf m' \<and> \<not> gmap_has m 3"
proof -
  obtain m :: "(u32, nat) gmap" and r where m: "gmap_init (\<lambda>_. True) 4 4 0 ds_hash_int ds_eq_int = Some (m, r)"
      "gm_wf m" "gm_map m = Map.empty"
    by (rule gmap_init_int_wf)
  then show ?thesis using gmap_refines_map [OF m(2), of "\<lambda>_. True" 3 42] by auto
qed

text \<open>
  C16: Setting a map up refuses sizes whose sum overflows and otherwise gives an empty well-formed map or
  the failure of an allocation, for every initial capacity up to 2^31 and every contract-abiding hash;
  above 2^31 the rounding to a power of two has no defined result.
\<close>

theorem gmap_init_total:
  assumes "key_hash hash eq"
  shows "case (gmap_init al ks vs initial_cap hash eq :: (('k, 'v) gmap \<times> int) option) of
       Some (m, r) \<Rightarrow> (UINT_MAX - vs < ks \<or> unat initial_cap \<le> 2 ^ 31) \<and> (r = 0 \<or> r = -1) \<and>
         gm_wf m \<and> gm_map m = Map.empty
     | None \<Rightarrow> ks \<le> UINT_MAX - vs \<and> 2 ^ 31 < unat initial_cap"
proof (cases "UINT_MAX - vs < ks")
  case True
  obtain m :: "('k, 'v) gmap" and r where m: "gmap_init al ks vs 0 hash eq = Some (m, r)"
      "r = 0 \<or> r = -1" "gm_wf m" "gm_map m = Map.empty"
    using gmap_init_cases [OF assms, of 0 al ks vs] by fastforce
  have "gmap_init al ks vs initial_cap hash eq = (gmap_init al ks vs 0 hash eq :: (('k, 'v) gmap \<times> int) option)"
    using True by (simp add: gmap_init_def)
  then show ?thesis using True m by simp
next
  case False
  show ?thesis
  proof (cases "unat initial_cap \<le> 2 ^ 31")
    case True
    obtain m :: "('k, 'v) gmap" and r where "gmap_init al ks vs initial_cap hash eq = Some (m, r)"
      "r = 0 \<or> r = -1" "gm_wf m" "gm_map m = Map.empty"
      using gmap_init_cases [OF assms True, of al ks vs] by blast
    then show ?thesis using True by simp
  next
    case big: False
    then have "\<not> initial_cap < 8" by (simp add: word_less_nat_alt)
    moreover have "bit_next_pow2 initial_cap = None" using bit_next_pow2_none [of initial_cap] big by simp
    ultimately show ?thesis using False big by (simp add: gmap_init_def)
  qed
qed

theorem gmap_init_total_witness:
  "(gmap_init (\<lambda>_. True) 4 4 0xFFFFFFFF ds_hash_int ds_eq_int :: ((u32, nat) gmap \<times> int) option) = None"
  using gmap_init_total [OF hash_int.key_hash_axioms, where al = "\<lambda>_. True" and ks = 4 and vs = 4 and initial_cap = "0xFFFFFFFF"] by (simp split: option.splits)

text \<open>
  C17: Any sequence of stores and removals on a hash map answers lookups as the same sequence on a
  function from keys to values, each store that reported failure left out.
\<close>

theorem gmap_runs_as_function:
  assumes "gm_store_ok same m" and "store_run gm_store gmap_remove m cs = (m', rs)"
  shows "gm_store_ok same m' \<and> gm_lookup m' = fun_run same (gm_lookup m) cs rs"
  by (rule gmap_store.run_lookup [OF assms])

theorem gmap_runs_as_function_witness:
  "\<exists>m r m' rs. gmap_init (\<lambda>_. True) 4 4 0 ds_hash_int ds_eq_int = Some (m, r) \<and>
     store_run gm_store gmap_remove m [Store (\<lambda>_. True) 3 (42 :: nat), Forget 3] = (m', rs) \<and>
     gm_lookup m' = fun_run ds_eq_int (gm_lookup m) [Store (\<lambda>_. True) 3 42, Forget 3] rs"
proof -
  obtain m :: "(u32, nat) gmap" and r where m: "gmap_init (\<lambda>_. True) 4 4 0 ds_hash_int ds_eq_int = Some (m, r)"
      "gm_wf m" "gm_map m = Map.empty" "gm_eq m = ds_eq_int" "gm_value_size m = 4"
    by (rule gmap_init_int_wf)
  then have ok: "gm_store_ok ds_eq_int m" by (simp add: gm_store_ok_def)
  obtain m' rs where s: "store_run gm_store gmap_remove m [Store (\<lambda>_. True) 3 42, Forget 3] = (m', rs)" by fastforce
  show ?thesis using gmap_runs_as_function [OF ok s] m(1) s by blast
qed

end
