(* ===== verification/Hashmap.thy ===== *)
theory Hashmap
  imports Gmap
begin

text \<open>
  Two clients of the hash map that add a layer and no table of their own: the set of
  \<open>include/ceres/ds/hset.h\<close>, whose values have no bytes, and the string map of \<open>src/ceres/ds/hashmap.c\<close>,
  which owns a copy of every key. A string pointer is its address and the string it points at, which does
  not change while the block is live; the heap is the set of the addresses of the live blocks, where
  \<open>malloc\<close> puts a copy is the parameter \<open>place\<close>, and \<open>free\<close> of a block that is not live is undefined.
\<close>

section \<open>The set of keys\<close>

type_synonym 'k hset = "('k, unit) gmap"

definition hset_init ::
  "allocs \<Rightarrow> nat \<Rightarrow> u32 \<Rightarrow> ('k \<Rightarrow> nat \<Rightarrow> u32) \<Rightarrow> ('k \<Rightarrow> 'k \<Rightarrow> bool) \<Rightarrow> ('k hset \<times> int) option" where
  "hset_init al key_size initial_cap hash eq = gmap_init al key_size 0 initial_cap hash eq"

definition hset_free :: "'k hset \<Rightarrow> 'k hset" where
  "hset_free s = gmap_free s"

definition hset_clear :: "'k hset \<Rightarrow> 'k hset" where
  "hset_clear s = gmap_clear s"

definition hset_has :: "'k hset \<Rightarrow> 'k \<Rightarrow> bool" where
  "hset_has s key \<longleftrightarrow> gmap_has s key"

definition hset_remove :: "'k hset \<Rightarrow> 'k \<Rightarrow> 'k hset \<times> int" where
  "hset_remove s key = gmap_remove s key"

definition hset_len :: "'k hset \<Rightarrow> nat" where
  "hset_len s = gmap_len s"

definition hset_add :: "allocs \<Rightarrow> 'k hset \<Rightarrow> 'k \<Rightarrow> ('k hset \<times> int) option" where
  "hset_add al s key =
     (if gmap_has s key then Some (s, 0)
      else case gmap_set al s key () of
             None \<Rightarrow> None
           | Some (s, r) \<Rightarrow> Some (s, if r = 0 then 1 else -1))"

definition hset_each :: "'k hset \<Rightarrow> ('k option \<times> unit option) list" where
  "hset_each s = gmap_each s"

text \<open>The keys equal to one that was added.\<close>

definition hset_mem :: "'k hset \<Rightarrow> 'k set" where
  "hset_mem s = {k. gm_map s k \<noteq> None}"

text \<open>
  C18: A hash set is a set of keys up to their equality: \<open>hset_add\<close> returns and tells a key that was there
  (0) from a new one (1) and from a failed allocation (-1, the set unchanged), and membership,
  removal, clearing and the count are those of the set.
\<close>

theorem hset_refines_set:
  assumes "gm_wf s"
  shows "(\<exists>s' r. hset_add al s key = Some (s', r) \<and> gm_wf s' \<and>
      (if key \<in> hset_mem s then r = 0 \<and> s' = s
       else r = 1 \<and> hset_mem s' = hset_mem s \<union> {k. gm_eq s key k} \<and> hset_len s' = hset_len s + 1 \<or>
         r = -1 \<and> s' = s)) \<and>
    (case hset_remove s key of (s', r) \<Rightarrow> gm_wf s' \<and> hset_mem s' = hset_mem s - {k. gm_eq s key k} \<and>
      r = (if key \<in> hset_mem s then 1 else 0)) \<and>
    hset_has s key = (key \<in> hset_mem s) \<and> hset_mem (hset_clear s) = {} \<and>
    length (hset_each s) = hset_len s"
proof -
  have ex: "\<exists>s' r. hset_add al s key = Some (s', r) \<and> gm_wf s' \<and>
      (if key \<in> hset_mem s then r = 0 \<and> s' = s
       else r = 1 \<and> hset_mem s' = hset_mem s \<union> {k. gm_eq s key k} \<and> hset_len s' = hset_len s + 1 \<or>
         r = -1 \<and> s' = s)"
  proof (cases "gm_map s key")
    case None
    obtain s' r where st: "gmap_set al s key () = Some (s', r)" "gm_wf s'" "r = -1 \<and> s' = s \<or>
      r = 0 \<and> gm_map s' = (\<lambda>x. if gm_eq s key x then Some (gm_val s ()) else gm_map s x) \<and>
      same_maker (s\<lparr>gm_len := gm_len s + (if gm_map s key = None then 1 else 0)\<rparr>) s'"
      using gmap_set_cases [OF assms, of al key "()"] by blast
    have "hset_add al s key = Some (s', if r = 0 then 1 else -1)"
      using None st(1) by (simp add: hset_add_def gmap_has_map)
    moreover have "hset_mem s' = hset_mem s \<union> {k. gm_eq s key k} \<and> hset_len s' = hset_len s + 1" if "r = 0"
      using st(3) that None by (auto simp: hset_mem_def hset_len_def gmap_len_def same_maker_def)
    moreover have "key \<notin> hset_mem s" using None by (simp add: hset_mem_def)
    ultimately show ?thesis using st(2,3) by auto
  qed (use assms in \<open>simp add: hset_add_def gmap_has_map hset_mem_def\<close>)
  obtain n q where d: "gmap_remove s key = (n, q)" by fastforce
  note rm = gmap_remove_spec(1-3) [OF assms d]
  have "hset_mem n = hset_mem s - {k. gm_eq s key k}" using rm(2) by (auto simp: hset_mem_def)
  then show ?thesis
    using rm d gmap_clear_spec(2) [OF assms] gmap_each_spec(1) [OF assms]
    by (intro conjI ex)
      (simp_all add: hset_remove_def hset_has_def gmap_has_map hset_mem_def hset_clear_def hset_each_def
        hset_len_def gmap_len_def)
qed

theorem hset_refines_set_witness:
  "\<exists>s r s' r'. hset_init (\<lambda>_. True) 4 0 ds_hash_int ds_eq_int = Some (s, r) \<and>
     hset_add (\<lambda>_. True) s 3 = Some (s', r') \<and> gm_wf s' \<and> \<not> hset_has s 3"
proof -
  obtain s :: "u32 hset" and r where s: "gmap_init (\<lambda>_. True) 4 0 0 ds_hash_int ds_eq_int = Some (s, r)"
      "gm_wf s" "gm_map s = Map.empty" "gm_eq s = ds_eq_int" "gm_value_size s = 0"
    by (rule gmap_init_int_wf)
  then have "3 \<notin> hset_mem s" by (simp add: hset_mem_def)
  then show ?thesis using hset_refines_set [OF s(2), of "\<lambda>_. True" 3] s(1) by (auto simp: hset_init_def)
qed

section \<open>The string map\<close>

type_synonym cptr = "nat \<times> u8 list"

record 'v hmap_pair =
  hp_owned :: cptr
  hp_value :: 'v

type_synonym 'v hashmap = "(cptr, 'v hmap_pair) gmap"

definition spread :: "u32 \<Rightarrow> u32" where
  "spread h = h XOR drop_bit 15 h XOR drop_bit 7 h"

definition hash_key :: "cptr \<Rightarrow> nat \<Rightarrow> u32" where
  "hash_key key key_size = spread (the (hash_djb2 (snd key @ [0])))"

definition eq_key :: "cptr \<Rightarrow> cptr \<Rightarrow> bool" where
  "eq_key a b \<longleftrightarrow> strcmp_c (snd a) (snd b) = 0"

definition hashmap_init :: "allocs \<Rightarrow> u32 \<Rightarrow> ('v hashmap \<times> int) option" where
  "hashmap_init al initial_cap = gmap_init al 4 8 initial_cap hash_key eq_key"

text \<open>\<open>free\<close> of a string: the block has to be live.\<close>

definition free_string :: "cptr \<Rightarrow> nat set \<Rightarrow> nat set option" where
  "free_string p H = (if fst p \<in> H then Some (H - {fst p}) else None)"

text \<open>The slot of the pair, a pointer into the table.\<close>

definition find_pair :: "'v hashmap \<Rightarrow> cptr \<Rightarrow> nat option" where
  "find_pair m key = gmap_get m key"

definition hashmap_set ::
  "(nat set \<Rightarrow> nat) \<Rightarrow> allocs \<Rightarrow> nat set \<Rightarrow> 'v hashmap \<Rightarrow> cptr \<Rightarrow> 'v \<Rightarrow> ('v hashmap \<times> nat set \<times> int) option" where
  "hashmap_set place al H m key value =
     (case find_pair m key of
        Some i \<Rightarrow> Some (m\<lparr>gm_vals := (gm_vals m)[i := Some ((the (gm_vals m ! i))\<lparr>hp_value := value\<rparr>)]\<rparr>, H, 0)
      | None \<Rightarrow>
          if \<not> al 0 then Some (m, H, -1)
          else let copy = (place H, cstr_body (snd key)); H = insert (fst copy) H;
                   fresh = \<lparr>hp_owned = copy, hp_value = value\<rparr>
               in case gmap_set (al_drop 1 al) m copy fresh of
                    None \<Rightarrow> None
                  | Some (m, r) \<Rightarrow>
                      if r \<noteq> 0 then (case free_string copy H of None \<Rightarrow> None | Some H \<Rightarrow> Some (m, H, -1))
                      else Some (m, H, 0))"

definition hashmap_get :: "'v hashmap \<Rightarrow> cptr \<Rightarrow> 'v option" where
  "hashmap_get m key =
     (case find_pair m key of None \<Rightarrow> None | Some i \<Rightarrow> Some (hp_value (the (gm_vals m ! i))))"

definition hashmap_has :: "'v hashmap \<Rightarrow> cptr \<Rightarrow> bool" where
  "hashmap_has m key \<longleftrightarrow> gmap_has m key"

definition hashmap_remove :: "nat set \<Rightarrow> 'v hashmap \<Rightarrow> cptr \<Rightarrow> ('v hashmap \<times> nat set \<times> int) option" where
  "hashmap_remove H m key =
     (case find_pair m key of
        None \<Rightarrow> Some (m, H, 0)
      | Some i \<Rightarrow>
          let owned = hp_owned (the (gm_vals m ! i)); m = fst (gmap_remove m key)
          in case free_string owned H of None \<Rightarrow> None | Some H \<Rightarrow> Some (m, H, 1))"

text \<open>\<open>free_pair\<close>, called by \<open>gmap_each\<close> on every pair.\<close>

fun free_pairs :: "(cptr option \<times> 'v hmap_pair option) list \<Rightarrow> nat set \<Rightarrow> nat set option" where
  "free_pairs [] H = Some H"
| "free_pairs ((_, value) # ps) H =
     (case free_string (hp_owned (the value)) H of None \<Rightarrow> None | Some H \<Rightarrow> free_pairs ps H)"

definition hashmap_clear :: "nat set \<Rightarrow> 'v hashmap \<Rightarrow> ('v hashmap \<times> nat set) option" where
  "hashmap_clear H m = (case free_pairs (gmap_each m) H of None \<Rightarrow> None | Some H \<Rightarrow> Some (gmap_clear m, H))"

definition hashmap_free :: "nat set \<Rightarrow> 'v hashmap \<Rightarrow> ('v hashmap \<times> nat set) option" where
  "hashmap_free H m = (case hashmap_clear H m of None \<Rightarrow> None | Some (m, H) \<Rightarrow> Some (gmap_free m, H))"

definition hashmap_each :: "'v hashmap \<Rightarrow> (cptr \<times> 'v) list" where
  "hashmap_each m = map (\<lambda>(k, v). (hp_owned (the v), hp_value (the v))) (gmap_each m)"

subsection \<open>A property of the pairs in the used slots\<close>

definition gm_all :: "('k option \<Rightarrow> 'v option \<Rightarrow> bool) \<Rightarrow> ('k, 'v) gmap \<Rightarrow> bool" where
  "gm_all P m \<longleftrightarrow> (\<forall>i. used_at m i \<longrightarrow> P (gm_keys m ! i) (gm_vals m ! i))"

definition gm_even :: "('k, 'v) gmap \<Rightarrow> bool" where
  "gm_even m \<longleftrightarrow> length (gm_states m) = gm_cap m \<and> length (gm_keys m) = gm_cap m \<and> length (gm_vals m) = gm_cap m"

lemma nth_update_if: "xs[i := x] ! j = (if i = j \<and> j < length xs then x else xs ! j)"
  by (cases "i = j"; cases "j < length xs") (auto simp: list_update_beyond)

lemma gm_wf_even: "gm_wf m \<Longrightarrow> gm_cap m \<noteq> 0 \<Longrightarrow> gm_even m"
  using gm_wf_core [of m] by (simp add: gm_even_def gm_core_def)

lemma gm_all_put:
  assumes "gm_all P m" "gm_even m" "P k v"
    "n = m\<lparr>gm_states := (gm_states m)[i := SLOT_USED], gm_hashes := hs,
       gm_keys := (gm_keys m)[i := k], gm_vals := (gm_vals m)[i := v], gm_used := u\<rparr>"
  shows "gm_all P n" "gm_even n"
  using assms by (auto simp: gm_all_def gm_even_def used_at_def nth_update_if)

lemma gm_all_rebuild_from:
  assumes "gm_all P old" "i + n = gm_cap old"
  shows "rebuild_from old n i m = Some m' \<Longrightarrow> gm_all P m \<Longrightarrow> gm_even m \<Longrightarrow> gm_all P m' \<and> gm_even m'"
  using assms(2)
proof (induction n arbitrary: i m)
  case (Suc n)
  show ?case
  proof (cases "gm_states old ! i = SLOT_USED")
    case False
    then show ?thesis using Suc.IH [of "i + 1" m] Suc.prems by simp
  next
    case True
    then have "P (gm_keys old ! i) (gm_vals old ! i)" using assms(1) Suc.prems(4) by (simp add: gm_all_def used_at_def)
    note put = gm_all_put [OF Suc.prems(2,3) this refl]
    show ?thesis using True Suc.prems(1,4) Suc.IH [OF _ put] by (auto split: option.splits)
  qed
qed simp

lemma gm_all_rebuild:
  assumes "gm_all P m" "gm_rebuild al m cap = Some (n, r)" "r = 0"
  shows "gm_all P n" "gm_even n"
proof -
  obtain m1 where t: "table_alloc al m cap = (m1, 0)" "rebuild_from m (gm_cap m) 0 m1 = Some n"
    using assms(2,3) by (auto simp: gm_rebuild_def split: prod.splits option.splits if_splits)
  then have "gm_all P m1" "gm_even m1"
    by (auto simp: table_alloc_def Let_def gm_all_def used_at_def gm_even_def slots_fresh_def split: if_splits)
  then show "gm_all P n" "gm_even n" using gm_all_rebuild_from [OF assms(1) _ t(2)] by simp_all
qed

lemma gm_all_set:
  assumes "gm_wf m" "gm_all P m" "gmap_set al m key v = Some (n, r)" "gm_value_size m \<noteq> 0" "gmap_get m key = None"
    "P (Some key) (Some v)"
  shows "gm_all P n"
proof (cases "r = 0")
  case False
  then have "n = m" using gmap_set_cases [OF assms(1), of al key v] assms(3) by auto
  then show ?thesis using assms(2) by simp
next
  case True
  obtain m1 i h where g: "gm_grow al m = Some (m1, 0)" "n = gm_insert_at m1 i h key v"
    using assms(3,5) True by (auto simp: gmap_set_eq Let_def split: prod.splits option.splits if_splits)
  have m1: "gm_all P m1 \<and> gm_even m1"
  proof (cases "gm_cap m = 0 \<or> gm_cap m * 7 < (gm_used m + 1) * 10")
    case grow: True
    obtain cap where "gm_rebuild al m cap = Some (m1, 0)"
      using g(1) grow by (auto simp: gm_grow_def Let_def split: if_splits)
    then show ?thesis using gm_all_rebuild [OF assms(2)] by simp
  qed (use g(1) assms(2) gm_wf_even [OF assms(1)] in \<open>auto simp: gm_grow_def\<close>)
  have "gm_value_size m1 \<noteq> 0"
    using gm_grow_cases [OF assms(1), of al] g(1) assms(4) by (auto simp: same_maker_def)
  then show ?thesis
    using m1 assms(6) by (auto simp: g(2) gm_insert_at_def Let_def gm_all_def gm_even_def used_at_def nth_update_if)
qed

lemma gm_all_overwrite:
  assumes "gm_all P m" "gm_even m" "P (gm_keys m ! i) (Some v)"
  shows "gm_all P (m\<lparr>gm_vals := (gm_vals m)[i := Some v]\<rparr>)"
  using assms by (auto simp: gm_all_def gm_even_def used_at_def nth_update_if)

lemma gm_all_remove: "gm_wf m \<Longrightarrow> gm_all P m \<Longrightarrow> gm_all P (fst (gmap_remove m key))"
  by (auto simp: gmap_remove_def gm_all_def used_at_def nth_update_if split: option.splits if_splits)

subsection \<open>What it owns\<close>

interpretation hash_strkey: key_hash hash_key eq_key
proof unfold_locales
  show "hash_key x n = hash_key y n" if "eq_key x y" for x y n
    using that djb2_from_body [of 5381 "snd x"] djb2_from_body [of 5381 "snd y"]
    by (simp add: eq_key_def strcmp_c_zero hash_key_def hash_djb2_def)
qed (auto simp: eq_key_def strcmp_c_zero)

text \<open>The addresses of the copies the map owns, one per pair.\<close>

definition owned :: "'v hashmap \<Rightarrow> cptr list" where
  "owned m = map (\<lambda>(k, v). hp_owned (the v)) (gmap_each m)"

text \<open>The key of the table is the owned copy itself.\<close>

definition own_key :: "cptr option \<Rightarrow> 'v hmap_pair option \<Rightarrow> bool" where
  "own_key k v \<longleftrightarrow> (\<exists>p. v = Some p \<and> k = Some (hp_owned p))"

text \<open>
  A map and the heap: \<open>malloc\<close> answers a block that is not live, the keys are the owned copies, no two
  pairs own the same block, and the live blocks are those of others, \<open>F\<close>, and the owned ones.
\<close>

definition hm_ok :: "(nat set \<Rightarrow> nat) \<Rightarrow> nat set \<Rightarrow> 'v hashmap \<times> nat set \<Rightarrow> bool" where
  "hm_ok place F s \<longleftrightarrow> (\<forall>H. finite H \<longrightarrow> place H \<notin> H) \<and> finite F \<and> gm_store_ok eq_key (fst s) \<and>
     gm_all own_key (fst s) \<and> distinct (map fst (owned (fst s))) \<and>
     F \<inter> set (map fst (owned (fst s))) = {} \<and> snd s = F \<union> set (map fst (owned (fst s)))"

definition hm_get :: "'v hashmap \<times> nat set \<Rightarrow> cptr \<Rightarrow> 'v option" where
  "hm_get s = hashmap_get (fst s)"

definition hm_store ::
  "(nat set \<Rightarrow> nat) \<Rightarrow> allocs \<Rightarrow> 'v hashmap \<times> nat set \<Rightarrow> cptr \<Rightarrow> 'v \<Rightarrow> ('v hashmap \<times> nat set) \<times> int" where
  "hm_store place al s k v = (case the (hashmap_set place al (snd s) (fst s) k v) of (m, H, r) \<Rightarrow> ((m, H), r))"

definition hm_forget :: "'v hashmap \<times> nat set \<Rightarrow> cptr \<Rightarrow> ('v hashmap \<times> nat set) \<times> int" where
  "hm_forget s k = (case the (hashmap_remove (snd s) (fst s) k) of (m, H, r) \<Rightarrow> ((m, H), r))"

lemma own_key_lookup:
  assumes "gm_store_ok eq_key m" "gm_all own_key m" "gm_lookup m k = Some p"
  shows "eq_key (hp_owned p) k" "hp_owned p \<in> set (owned m)"
proof -
  have wf: "gm_wf m" "gm_eq m = eq_key" "gm_value_size m \<noteq> 0" using assms(1) by (simp_all add: gm_store_ok_def)
  have "gm_map m k = Some (Some p)" using assms(3) gm_map_some [OF wf(1,3)] by (auto simp: gm_lookup_map split: option.splits)
  then obtain k' where k': "(Some k', Some p) \<in> set (gmap_each m)" "eq_key k' k" using gmap_each_spec(2) [OF wf(1)] wf(2) by auto
  then obtain i where "used_at m i" "gm_keys m ! i = Some k'" "gm_vals m ! i = Some p"
    by (auto simp: gmap_each_def used_at_def wf(3))
  then have "k' = hp_owned p" using assms(2) by (auto simp: gm_all_def own_key_def)
  then show "eq_key (hp_owned p) k" using k'(2) by simp
  show "hp_owned p \<in> set (owned m)" using k'(1) by (force simp: owned_def)
qed

text \<open>The owned copies are those of the pairs that lookups find, once each.\<close>

lemma owned_ran:
  assumes "gm_store_ok eq_key m" "gm_all own_key m"
  shows "set (owned m) = hp_owned ` ran (gm_lookup m)" and "distinct (owned m)" and "length (owned m) = gm_len m"
proof -
  have wf: "gm_wf m" "gm_eq m = eq_key" "gm_value_size m \<noteq> 0" using assms(1) by (simp_all add: gm_store_ok_def)
  have each: "\<exists>p. e = (Some (hp_owned p), Some p)" if "e \<in> set (gmap_each m)" for e
    using that assms(2) wf(3) by (auto simp: gmap_each_def gm_all_def own_key_def used_at_def)
  have "hp_owned p \<in> hp_owned ` ran (gm_lookup m)" if "(Some (hp_owned p), Some p) \<in> set (gmap_each m)" for p
  proof -
    have "gm_map m (hp_owned p) = Some (Some p)"
      using gmap_each_spec(2) [OF wf(1), of "hp_owned p" "Some p"] that hash_strkey.eq_refl wf(2) by metis
    then have "gm_lookup m (hp_owned p) = Some p" by (simp add: gm_lookup_map)
    then show ?thesis by (intro imageI ranI)
  qed
  then have "set (owned m) \<subseteq> hp_owned ` ran (gm_lookup m)" using each by (fastforce simp: owned_def)
  moreover have "hp_owned ` ran (gm_lookup m) \<subseteq> set (owned m)"
    using own_key_lookup(2) [OF assms] by (auto simp: ran_def)
  ultimately show "set (owned m) = hp_owned ` ran (gm_lookup m)" by blast
  show "length (owned m) = gm_len m" using gmap_each_spec(1) [OF wf(1)] by (simp add: owned_def)
  show "distinct (owned m)"
  proof (unfold distinct_conv_nth, intro allI impI)
    fix i j assume ij: "i < length (owned m)" "j < length (owned m)" "i \<noteq> j"
    then have l: "i < length (gmap_each m)" "j < length (gmap_each m)" by (simp_all add: owned_def)
    obtain p q where pq: "gmap_each m ! i = (Some (hp_owned p), Some p)" "gmap_each m ! j = (Some (hp_owned q), Some q)"
      using each [OF nth_mem [OF l(1)]] each [OF nth_mem [OF l(2)]] by blast
    have "hp_owned p \<noteq> hp_owned q"
      using gmap_each_spec(3) [OF wf(1) l] pq ij(3) hash_strkey.eq_refl [of "hp_owned q"] wf(2) by auto
    then show "owned m ! i \<noteq> owned m ! j" using l pq by (simp add: owned_def)
  qed
qed

lemma hm_okI:
  assumes "gm_store_ok eq_key m" "gm_all own_key m" "inj_on fst (set (owned m))" "finite F"
    "\<forall>H. finite H \<longrightarrow> place H \<notin> H" "F \<inter> fst ` set (owned m) = {}" "H = F \<union> fst ` set (owned m)"
  shows "hm_ok place F (m, H)"
  using assms owned_ran(2) [OF assms(1,2)] by (simp add: hm_ok_def distinct_map)

lemma hm_okD:
  assumes "hm_ok place F (m, H)"
  shows "gm_store_ok eq_key m" "gm_all own_key m" "inj_on fst (set (owned m))" "finite F"
    "\<forall>H. finite H \<longrightarrow> place H \<notin> H" "F \<inter> fst ` set (owned m) = {}" "H = F \<union> fst ` set (owned m)"
    "finite H" "gm_wf m" "gm_eq m = eq_key" "gm_value_size m \<noteq> 0"
  using assms by (simp_all add: hm_ok_def distinct_map gm_store_ok_def)

lemma hashmap_get_lookup: "gm_store_ok eq_key m \<Longrightarrow> hashmap_get m k = map_option hp_value (gm_lookup m k)"
proof -
  assume "gm_store_ok eq_key m"
  then have wf: "gm_wf m" "gm_value_size m \<noteq> 0" by (simp_all add: gm_store_ok_def)
  show ?thesis
  proof (cases "gmap_get m k")
    case (Some i)
    then have "gm_map m k = Some (gm_vals m ! i)" by (simp add: gm_map_def)
    then have "gm_vals m ! i \<noteq> None" using gm_map_some [OF wf] by blast
    then show ?thesis using Some by (auto simp: hashmap_get_def find_pair_def gm_lookup_def)
  qed (simp add: hashmap_get_def find_pair_def gm_lookup_def)
qed

lemma hashmap_get_None: "hashmap_get m k = None \<longleftrightarrow> find_pair m k = None"
  by (simp add: hashmap_get_def split: option.splits)

text \<open>The pair of a key that is there.\<close>

lemma find_pair_some:
  assumes "gm_store_ok eq_key m" "find_pair m k = Some i"
  obtains p where "gm_vals m ! i = Some p" "gm_lookup m k = Some p" "used_at m i" "gm_even m"
proof -
  have wf: "gm_wf m" "gm_eq m = eq_key" "gm_value_size m \<noteq> 0" using assms(1) by (simp_all add: gm_store_ok_def)
  have mk: "gm_map m k = Some (gm_vals m ! i)" using assms(2) by (simp add: find_pair_def gm_map_def)
  then obtain p where p: "gm_vals m ! i = Some p" using gm_map_some [OF wf(1,3)] by blast
  have "gm_cap m \<noteq> 0" using assms(2) by (auto simp: find_pair_def gmap_get_def gm_find_def split: if_splits)
  then have "gm_core m" "gm_even m" using gm_wf_core [OF wf(1)] gm_wf_even [OF wf(1)] by auto
  then show ?thesis using that [of p] p mk gmap_get_iff [of m k i] assms(2) by (simp add: gm_lookup_map find_pair_def hit_at_def)
qed

lemma eq_key_copy: "eq_key (q, cstr_body (snd k)) k"
proof -
  have "cstr_body (cstr_body s) = cstr_body s" for s :: "u8 list" by (induction s) auto
  then show ?thesis by (simp add: eq_key_def strcmp_c_zero)
qed

lemma ran_update_new:
  assumes "\<And>x. same k x \<Longrightarrow> f x = None" "same k k"
  shows "ran (\<lambda>x. if same k x then Some v else f x) = insert v (ran f)"
  using assms unfolding ran_def by (auto; metis option.distinct(1))

lemma hashmap_has_get: "gm_store_ok eq_key m \<Longrightarrow> hashmap_has m k \<longleftrightarrow> hashmap_get m k \<noteq> None"
  by (simp add: hashmap_has_def gmap_has_map hashmap_get_None find_pair_def gmap_get_map gm_store_ok_def)

lemma set_hit:
  assumes ok: "hm_ok place F (m, H)" and hit: "find_pair m k = Some i"
  shows "\<exists>m'. hashmap_set place al H m k v = Some (m', H, 0) \<and> hm_ok place F (m', H) \<and> set (owned m') = set (owned m) \<and>
    hashmap_get m' = (\<lambda>x. if eq_key k x then Some v else hashmap_get m x)"
proof -
  note d = hm_okD [OF ok]
  obtain p where p: "gm_vals m ! i = Some p" "gm_lookup m k = Some p" "used_at m i" "gm_even m"
    by (rule find_pair_some [OF d(1) hit])
  define q where "q = p\<lparr>hp_value := v\<rparr>"
  define n where "n = m\<lparr>gm_vals := (gm_vals m)[i := Some q]\<rparr>"
  have own: "own_key (gm_keys m ! i) (Some q)" using d(2) p(1,3) by (auto simp: gm_all_def own_key_def q_def)
  have "gmap_set al m k q = Some (n, 0)"
    using hit d(11) by (simp add: gmap_set_eq find_pair_def n_def)
  then have gs: "gm_store al m k q = (n, 0)" by (simp add: gm_store_def)
  have st: "gm_store_ok eq_key n" by (rule gmap_store.store_ok [OF d(1) gs])
  have lk: "gm_lookup n x = (if eq_key k x then Some q else gm_lookup m x)" for x
    using gmap_store.store_lookup [OF d(1) gs, of x] by simp
  have all: "gm_all own_key n" unfolding n_def by (rule gm_all_overwrite [where P = own_key, OF d(2) p(4) own])
  have same: "gm_lookup m x = Some p" if "eq_key k x" for x
    using that p(2) gm_map_cong [OF d(9), of k x] d(10) by (simp add: gm_lookup_map)
  have "ran (gm_lookup n) \<subseteq> insert q (ran (gm_lookup m))" by (auto simp: ran_def lk split: if_splits)
  then have "set (owned n) \<subseteq> set (owned m)"
    using ranI [of "gm_lookup m", OF p(2)] by (auto simp: owned_ran(1) [OF st all] owned_ran(1) [OF d(1,2)] q_def)
  moreover have "set (owned m) \<subseteq> set (owned n)"
  proof
    fix c assume "c \<in> set (owned m)"
    then obtain x r where xr: "gm_lookup m x = Some r" "c = hp_owned r" by (auto simp: owned_ran(1) [OF d(1,2)] ran_def)
    show "c \<in> set (owned n)"
    proof (cases "eq_key k x")
      case True
      then have "c = hp_owned q" "gm_lookup n x = Some q" using same xr lk by (auto simp: q_def)
      then show ?thesis using own_key_lookup(2) [OF st all] by simp
    next
      case False
      then show ?thesis using own_key_lookup(2) [OF st all, of x r] lk xr by simp
    qed
  qed
  ultimately have so: "set (owned n) = set (owned m)" by blast
  have "hm_ok place F (n, H)"
    by (rule hm_okI [OF st all _ d(4,5)]) (use d(3,6,7) in \<open>simp_all only: so\<close>)
  moreover have "hashmap_set place al H m k v = Some (n, H, 0)"
    using hit p(1) by (simp add: hashmap_set_def n_def q_def)
  moreover have "hashmap_get n = (\<lambda>x. if eq_key k x then Some v else hashmap_get m x)"
    using lk by (simp add: fun_eq_iff hashmap_get_lookup [OF st] hashmap_get_lookup [OF d(1)] q_def)
  ultimately show ?thesis using so by blast
qed

lemma set_miss:
  assumes ok: "hm_ok place F (m, H)" and miss: "find_pair m k = None"
  shows "\<exists>m' H' r. hashmap_set place al H m k v = Some (m', H', r) \<and> hm_ok place F (m', H') \<and>
    (r = -1 \<and> m' = m \<and> H' = H \<or> r = 0 \<and> al 0 \<and> H' = insert (place H) H \<and>
      set (owned m') = insert (place H, cstr_body (snd k)) (set (owned m)) \<and>
      hashmap_get m' = (\<lambda>x. if eq_key k x then Some v else hashmap_get m x))"
proof (cases "al 0")
  case False
  then show ?thesis using ok miss by (simp add: hashmap_set_def)
next
  case True
  note d = hm_okD [OF ok]
  define c where "c = (place H, cstr_body (snd k))"
  define q where "q = \<lparr>hp_owned = c, hp_value = v\<rparr>"
  have new: "place H \<notin> H" using d(5,8) by blast
  have kk: "eq_key c x \<longleftrightarrow> eq_key k x" for x using eq_key_copy [of "place H" k] hash_strkey.eq_cong unfolding c_def by blast
  have none: "gm_lookup m x = None" if "eq_key k x" for x
  proof -
    have "gm_map m k = None" using miss by (simp add: find_pair_def gm_map_def)
    then show ?thesis using gm_map_cong [OF d(9), of k x] that d(10) by (simp add: gm_lookup_map)
  qed
  have nc: "gmap_get m c = None"
    using none [of c] eq_key_copy [of "place H" k] kk hash_strkey.eq_sym gm_lookup_None [OF d(9,11), of c]
    by (simp add: gmap_get_map c_def)
  obtain n r where s: "gmap_set (al_drop 1 al) m c q = Some (n, r)" "r = -1 \<and> n = m \<or> r = 0"
    using gmap_set_cases [OF d(9), of "al_drop 1 al" c q] by blast
  show ?thesis
  proof (cases "r = 0")
    case False
    have "insert (place H) H - {place H} = H" using new by blast
    then have "hashmap_set place al H m k v = Some (m, H, -1)"
      using s False miss True
      by (simp add: hashmap_set_def Let_def c_def [symmetric] q_def [symmetric]) (simp add: free_string_def c_def)
    then show ?thesis using ok by blast
  next
    case r0: True
    then have gs: "gm_store (al_drop 1 al) m c q = (n, 0)" using s(1) by (simp add: gm_store_def)
    have st: "gm_store_ok eq_key n" by (rule gmap_store.store_ok [OF d(1) gs])
    have lk: "gm_lookup n x = (if eq_key k x then Some q else gm_lookup m x)" for x
      using gmap_store.store_lookup [OF d(1) gs, of x] kk by simp
    have all: "gm_all own_key n"
      by (rule gm_all_set [OF d(9) d(2) s(1) d(11) nc]) (simp add: own_key_def q_def)
    have "gm_lookup n = (\<lambda>x. if eq_key k x then Some q else gm_lookup m x)" using lk by (simp add: fun_eq_iff)
    then have "ran (gm_lookup n) = insert q (ran (gm_lookup m))"
      using ran_update_new [of eq_key k "gm_lookup m" q] none hash_strkey.eq_refl [of k] by simp
    then have so: "set (owned n) = insert c (set (owned m))"
      by (simp add: owned_ran(1) [OF st all] owned_ran(1) [OF d(1,2)] q_def)
    have "place H \<notin> fst ` set (owned m)" "place H \<notin> F" using new d(7) by auto
    then have "hm_ok place F (n, insert (place H) H)"
      using d(3-7) by (intro hm_okI [OF st all]) (auto simp: so c_def)
    moreover have "hashmap_set place al H m k v = Some (n, insert (place H) H, 0)"
      using s r0 miss True
      by (simp add: hashmap_set_def Let_def c_def [symmetric] q_def [symmetric]) (simp add: c_def)
    moreover have "hashmap_get n = (\<lambda>x. if eq_key k x then Some v else hashmap_get m x)"
      using lk by (simp add: fun_eq_iff hashmap_get_lookup [OF st] hashmap_get_lookup [OF d(1)] q_def)
    ultimately show ?thesis using so True r0 by (auto simp: c_def)
  qed
qed

lemma remove_cases:
  assumes ok: "hm_ok place F (m, H)"
  shows "\<exists>m' H' r. hashmap_remove H m k = Some (m', H', r) \<and> hm_ok place F (m', H') \<and>
    hashmap_get m' = (\<lambda>x. if eq_key k x then None else hashmap_get m x) \<and>
    (if find_pair m k = None then r = 0 \<and> m' = m \<and> H' = H
     else r = 1 \<and> (\<exists>c \<in> set (owned m). eq_key c k \<and> H' = H - {fst c} \<and> set (owned m') = set (owned m) - {c}))"
proof -
  note d = hm_okD [OF ok]
  obtain n r where rm: "gmap_remove m k = (n, r)" by fastforce
  have lk: "gm_lookup n x = (if eq_key k x then None else gm_lookup m x)" for x
    using gmap_store.forget_lookup [OF d(1) rm] by simp
  have st: "gm_store_ok eq_key n" by (rule gmap_store.forget_ok [OF d(1) rm])
  have all: "gm_all own_key n" using gm_all_remove [OF d(9,2), of k] rm by simp
  have get: "hashmap_get n = (\<lambda>x. if eq_key k x then None else hashmap_get m x)"
    using lk by (simp add: fun_eq_iff hashmap_get_lookup [OF st] hashmap_get_lookup [OF d(1)])
  show ?thesis
  proof (cases "find_pair m k")
    case None
    then have "n = m" using rm by (simp add: gmap_remove_def find_pair_def gmap_get_def)
    then show ?thesis using None ok get by (simp add: hashmap_remove_def)
  next
    case (Some i)
    obtain p where p: "gm_vals m ! i = Some p" "gm_lookup m k = Some p" by (rule find_pair_some [OF d(1) Some])
    note ek = own_key_lookup [OF d(1,2) p(2)]
    have so: "set (owned n) = set (owned m) - {hp_owned p}"
    proof (intro equalityI subsetI)
      fix c assume "c \<in> set (owned n)"
      then obtain x q where xq: "gm_lookup n x = Some q" "c = hp_owned q" by (auto simp: owned_ran(1) [OF st all] ran_def)
      then have m: "gm_lookup m x = Some q" "\<not> eq_key k x" using lk [of x] by (auto split: if_splits)
      have "hp_owned q \<noteq> hp_owned p"
        using own_key_lookup(1) [OF d(1,2) m(1)] ek(1) m(2) hash_strkey.eq_sym hash_strkey.eq_trans by metis
      then show "c \<in> set (owned m) - {hp_owned p}" using own_key_lookup(2) [OF d(1,2) m(1)] xq(2) by simp
    next
      fix c assume c: "c \<in> set (owned m) - {hp_owned p}"
      then obtain x q where xq: "gm_lookup m x = Some q" "c = hp_owned q" by (auto simp: owned_ran(1) [OF d(1,2)] ran_def)
      have "\<not> eq_key k x"
      proof
        assume "eq_key k x"
        then have "gm_lookup m x = Some p" using p(2) gm_map_cong [OF d(9), of k x] d(10) by (simp add: gm_lookup_map)
        then show False using c xq by simp
      qed
      then show "c \<in> set (owned n)" using own_key_lookup(2) [OF st all, of x q] lk xq by simp
    qed
    have inj: "fst c \<noteq> fst (hp_owned p)" if "c \<in> set (owned n)" for c
      using inj_onD [OF d(3), of c "hp_owned p"] that ek(2) unfolding so by auto
    have "fst (hp_owned p) \<in> fst ` set (owned m)" using ek(2) by (rule imageI)
    then have "fst (hp_owned p) \<in> F \<union> fst ` set (owned m)" and pF: "fst (hp_owned p) \<notin> F" using d(6) by blast+
    then have pH: "fst (hp_owned p) \<in> H" unfolding d(7) by simp
    have so': "set (owned m) = insert (hp_owned p) (set (owned n))"
      unfolding so using ek(2) by (rule insert_Diff [symmetric])
    have "fst (hp_owned p) \<notin> fst ` set (owned n)" using inj by (metis imageE)
    then have eH: "H - {fst (hp_owned p)} = F \<union> fst ` set (owned n)"
      using pF unfolding d(7) so' image_insert by blast
    have "hm_ok place F (n, H - {fst (hp_owned p)})"
    proof (rule hm_okI [OF st all _ d(4,5) _ eH])
      show "inj_on fst (set (owned n))" using d(3) unfolding so by (rule inj_on_diff)
      show "F \<inter> fst ` set (owned n) = {}" using d(6) unfolding so' by auto
    qed
    moreover have "hashmap_remove H m k = Some (n, H - {fst (hp_owned p)}, 1)"
      using Some rm p(1) pH by (simp add: hashmap_remove_def free_string_def)
    ultimately have "hashmap_remove H m k = Some (n, H - {fst (hp_owned p)}, 1) \<and> hm_ok place F (n, H - {fst (hp_owned p)}) \<and>
        hashmap_get n = (\<lambda>x. if eq_key k x then None else hashmap_get m x) \<and>
        (\<exists>c \<in> set (owned m). eq_key c k \<and> H - {fst (hp_owned p)} = H - {fst c} \<and> set (owned n) = set (owned m) - {c})"
      using get ek so by blast
    then show ?thesis unfolding Some by (simp only: option.distinct if_False) blast
  qed
qed

lemma free_pairs_all:
  "distinct (map (\<lambda>e. fst (hp_owned (the (snd e)))) ps) \<Longrightarrow> (\<lambda>e. fst (hp_owned (the (snd e)))) ` set ps \<subseteq> H \<Longrightarrow>
   free_pairs ps H = Some (H - (\<lambda>e. fst (hp_owned (the (snd e)))) ` set ps)"
proof (induction ps arbitrary: H)
  case (Cons e ps)
  let ?a = "fst (hp_owned (the (snd e)))" and ?A = "(\<lambda>e. fst (hp_owned (the (snd e)))) ` set ps"
  have "?a \<in> H" "?a \<notin> ?A" "?A \<subseteq> H" using Cons.prems by simp_all
  then have "?a \<in> H" "?A \<subseteq> H - {?a}" by blast+
  moreover have "distinct (map (\<lambda>e. fst (hp_owned (the (snd e)))) ps)" using Cons.prems(1) by simp
  ultimately have "free_pairs (e # ps) H = Some (H - {?a} - ?A)"
    using Cons.IH [of "H - {?a}"] by (cases e) (simp add: free_string_def)
  moreover have "H - {?a} - ?A = H - (\<lambda>e. fst (hp_owned (the (snd e)))) ` set (e # ps)" by auto
  ultimately show ?case by simp
qed simp

lemma clear_cases:
  assumes ok: "hm_ok place F (m, H)"
  shows "hashmap_clear H m = Some (gmap_clear m, F)" "hashmap_free H m = Some (gmap_free (gmap_clear m), F)"
    "hm_ok place F (gmap_clear m, F)" "hashmap_get (gmap_clear m) = Map.empty"
proof -
  note d = hm_okD [OF ok]
  let ?f = "\<lambda>e :: cptr option \<times> 'a hmap_pair option. fst (hp_owned (the (snd e)))"
  have a: "map ?f (gmap_each m) = map fst (owned m)" by (auto simp: owned_def)
  have b: "?f ` set (gmap_each m) = fst ` set (owned m)" using arg_cong [OF a, of set] by (simp only: set_map)
  have "distinct (map ?f (gmap_each m))"
    using owned_ran(2) [OF d(1,2)] d(3) unfolding a by (simp add: distinct_map)
  moreover have "?f ` set (gmap_each m) \<subseteq> H" "H - ?f ` set (gmap_each m) = F"
    using d(6,7) unfolding b by auto
  ultimately show cl: "hashmap_clear H m = Some (gmap_clear m, F)"
    using free_pairs_all [of "gmap_each m" H] by (simp add: hashmap_clear_def)
  then show "hashmap_free H m = Some (gmap_free (gmap_clear m), F)" by (simp add: hashmap_free_def)
  have wf: "gm_wf (gmap_clear m)" and emp: "\<And>x. gm_map (gmap_clear m) x = None" using gmap_clear_spec [OF d(9)] by auto
  then have st: "gm_store_ok eq_key (gmap_clear m)" using d(10,11) by (simp add: gm_store_ok_def) (simp add: gmap_clear_def)
  have "\<not> used_at (gmap_clear m) i" for i
    using gm_wf_core [OF d(9)] gm_core_states [of m] by (auto simp: used_at_def gmap_clear_def)
  then have all: "gm_all own_key (gmap_clear m)" by (simp add: gm_all_def)
  have "gm_lookup (gmap_clear m) = Map.empty" by (rule ext) (simp add: gm_lookup_map emp)
  then have so: "set (owned (gmap_clear m)) = {}" and g: "hashmap_get (gmap_clear m) x = None" for x
    by (simp_all only: owned_ran(1) [OF st all] hashmap_get_lookup [OF st] ran_empty image_empty option.map)
  show "hm_ok place F (gmap_clear m, F)" using d(4,5) so by (intro hm_okI [OF st all]) auto
  show "hashmap_get (gmap_clear m) = Map.empty" by (rule ext) (rule g)
qed

interpretation hashmap_store: keyed_store "hm_ok place F" eq_key hm_get "hm_store place" hm_forget
proof unfold_locales
  fix al and s s' :: "'v hashmap \<times> nat set" and k v r x
  assume ok0: "hm_ok place F s"
  then have ok: "hm_ok place F (fst s, snd s)" by simp
  { assume st: "hm_store place al s k v = (s', r)"
    have "hm_ok place F s' \<and> (r = -1 \<and> s' = s \<or> r = 0 \<and> hm_get s' = (\<lambda>x. if eq_key k x then Some v else hm_get s x))"
    proof (cases "find_pair (fst s) k")
      case None
      show ?thesis using set_miss [OF ok None, of al v] st unfolding hm_store_def hm_get_def by auto
    next
      case (Some i)
      show ?thesis using set_hit [OF ok Some, of al v] st unfolding hm_store_def hm_get_def by auto
    qed
    then show "hm_ok place F s'" "r = 0 \<and> hm_get s' x = (if eq_key k x then Some v else hm_get s x) \<or>
        r = -1 \<and> hm_get s' x = hm_get s x" by auto }
  { assume fg: "hm_forget s k = (s', r)"
    obtain m' H' q where rm: "hashmap_remove (snd s) (fst s) k = Some (m', H', q)" "hm_ok place F (m', H')"
        "hashmap_get m' = (\<lambda>x. if eq_key k x then None else hashmap_get (fst s) x)"
        "q = (if find_pair (fst s) k = None then 0 else 1)"
    proof (cases "find_pair (fst s) k")
      case None
      show ?thesis using that remove_cases [OF ok, of k] unfolding None by (simp only: refl if_True) blast
    next
      case (Some i)
      show ?thesis using that remove_cases [OF ok, of k] unfolding Some by (simp only: option.distinct if_False) blast
    qed
    then have "s' = (m', H')" "r = q" using fg by (simp_all add: hm_forget_def)
    then have c: "hm_ok place F s' \<and> hm_get s' = (\<lambda>x. if eq_key k x then None else hm_get s x) \<and>
        r = (if find_pair (fst s) k = None then 0 else 1)"
      unfolding hm_get_def using rm by simp
    then show "hm_ok place F s'" by blast
    show "hm_get s' x = (if eq_key k x then None else hm_get s x) \<and> r = (if hm_get s k = None then 0 else 1)"
      using c hashmap_get_None [of "fst s" k] by (simp add: hm_get_def) }
qed

text \<open>
  C19: Under any sequence of sets and removals the string map answers as a function from strings (up to
  their NUL) to values, failed sets left out, and the blocks it owns are exactly one copy of each key:
  the live blocks are at any time those of others and the copies, all at different addresses. Setting
  a key that is there allocates and frees nothing; setting a new one adds the block \<open>malloc\<close> answered,
  holding the string, or fails and leaves the heap as it was; a removal frees the removed key's own
  copy and no other block; clearing and freeing free all the copies and leave just the blocks of
  others. No call frees a block that is not live.
\<close>

theorem hashmap_runs_as_function:
  assumes "hm_ok place F s" and "store_run (hm_store place) hm_forget s cs = ((m, H), rs)"
  shows "hm_ok place F (m, H) \<and> hashmap_get m = fun_run eq_key (hashmap_get (fst s)) cs rs \<and>
    distinct (map fst (owned m)) \<and> length (owned m) = gmap_len m \<and> H = F \<union> set (map fst (owned m)) \<and>
    F \<inter> set (map fst (owned m)) = {} \<and> hashmap_has m k = (hashmap_get m k \<noteq> None) \<and>
    (\<exists>m' H' r. hashmap_set place al H m k v = Some (m', H', r) \<and>
       (if hashmap_has m k then r = 0 \<and> H' = H \<and> set (owned m') = set (owned m)
        else r = -1 \<and> m' = m \<and> H' = H \<or> r = 0 \<and> al 0 \<and> place H \<notin> H \<and> H' = insert (place H) H \<and>
          set (owned m') = insert (place H, cstr_body (snd k)) (set (owned m)))) \<and>
    (\<exists>m' H' r. hashmap_remove H m k = Some (m', H', r) \<and>
       (if hashmap_has m k
        then r = 1 \<and> (\<exists>c \<in> set (owned m). eq_key c k \<and> H' = H - {fst c} \<and> set (owned m') = set (owned m) - {c})
        else r = 0 \<and> m' = m \<and> H' = H)) \<and>
    (\<exists>m'. hashmap_clear H m = Some (m', F) \<and> hashmap_get m' = Map.empty) \<and>
    (\<exists>m'. hashmap_free H m = Some (m', F))"
proof -
  have ok: "hm_ok place F (m, H)" and f: "hashmap_get m = fun_run eq_key (hashmap_get (fst s)) cs rs"
    using hashmap_store.run_lookup [OF assms] by (simp_all add: hm_get_def)
  note d = hm_okD [OF ok]
  have own: "distinct (map fst (owned m))" "H = F \<union> set (map fst (owned m))" "F \<inter> set (map fst (owned m)) = {}"
    "length (owned m) = gmap_len m"
    using ok owned_ran(3) [OF d(1,2)] by (simp_all add: hm_ok_def gmap_len_def)
  have has: "hashmap_has m k \<longleftrightarrow> hashmap_get m k \<noteq> None" "hashmap_has m k \<longleftrightarrow> find_pair m k \<noteq> None"
    using hashmap_has_get [OF d(1), of k] hashmap_get_None [of m k] by simp_all
  have fresh: "place H \<notin> H" using d(5,8) by blast
  have set: "\<exists>m' H' r. hashmap_set place al H m k v = Some (m', H', r) \<and>
       (if hashmap_has m k then r = 0 \<and> H' = H \<and> set (owned m') = set (owned m)
        else r = -1 \<and> m' = m \<and> H' = H \<or> r = 0 \<and> al 0 \<and> place H \<notin> H \<and> H' = insert (place H) H \<and>
          set (owned m') = insert (place H, cstr_body (snd k)) (set (owned m)))"
  proof (cases "find_pair m k")
    case None
    then have "\<not> hashmap_has m k" using has(2) by simp
    then show ?thesis using set_miss [OF ok None, of al v] fresh by (simp only: if_False) blast
  next
    case (Some i)
    then have "hashmap_has m k" using has(2) by simp
    then show ?thesis using set_hit [OF ok Some, of al v] by (simp only: if_True) blast
  qed
  have rem: "\<exists>m' H' r. hashmap_remove H m k = Some (m', H', r) \<and>
       (if hashmap_has m k
        then r = 1 \<and> (\<exists>c \<in> set (owned m). eq_key c k \<and> H' = H - {fst c} \<and> set (owned m') = set (owned m) - {c})
        else r = 0 \<and> m' = m \<and> H' = H)"
  proof (cases "find_pair m k")
    case None
    then have "\<not> hashmap_has m k" using has(2) by simp
    then show ?thesis using remove_cases [OF ok, of k] unfolding None by (simp only: if_True if_False refl) blast
  next
    case (Some i)
    then have h: "hashmap_has m k" using has(2) by simp
    show ?thesis using remove_cases [OF ok, of k] unfolding Some by (simp only: h if_True option.distinct if_False) blast
  qed
  show ?thesis
    by (intro conjI ok f own has(1) set rem) (use clear_cases [OF ok] in blast)+
qed

lemma hashmap_init_wf:
  assumes "finite F"
  obtains m :: "'v hashmap" and r where "hashmap_init al 0 = Some (m, r)" "hm_ok (\<lambda>H. Suc (Max (insert 0 H))) F (m, F)"
proof -
  obtain m :: "'v hashmap" and r where m: "gmap_init al 4 8 0 hash_key eq_key = Some (m, r)" "gm_wf m"
      "gm_map m = Map.empty" "gm_eq m = eq_key" "gm_value_size m = 8" "gm_len m = 0"
    using gmap_init_cases [OF hash_strkey.key_hash_axioms, of 0 al 4 8] by force
  have st: "gm_store_ok eq_key m" using m by (simp add: gm_store_ok_def)
  have "gmap_each m = []" using gmap_each_spec(1) [OF m(2)] m(6) by simp
  then have own: "owned m = []" by (simp add: owned_def)
  have "finite {i. used_at m i}" by (rule finite_subset [of _ "{..<gm_cap m}"]) (auto simp: used_at_def)
  then have "\<not> used_at m i" for i using m(2,6) by (auto simp: gm_wf_def)
  then have all: "gm_all own_key m" by (simp add: gm_all_def)
  have "Suc (Max (insert 0 H)) \<notin> H" if "finite H" for H
    using Max_ge [of "insert 0 H" "Suc (Max (insert 0 H))"] that by (metis Suc_n_not_le_n finite_insert insertCI)
  then show ?thesis using that m(1) all st own assms by (simp add: hashmap_init_def hm_ok_def)
qed

theorem hashmap_runs_as_function_witness:
  "\<exists>m r m' H rs. hashmap_init (\<lambda>_. True) 0 = Some (m, r) \<and>
     store_run (hm_store (\<lambda>H. Suc (Max (insert 0 H)))) hm_forget (m, {5}) [Store (\<lambda>_. True) (5, [104, 105]) (7 :: nat)] =
       ((m', H), rs) \<and> hashmap_get m' = fun_run eq_key (hashmap_get m) [Store (\<lambda>_. True) (5, [104, 105]) 7] rs \<and>
     (\<exists>n. hashmap_free H m' = Some (n, {5}))"
proof -
  obtain m :: "nat hashmap" and r where m: "hashmap_init (\<lambda>_. True) 0 = Some (m, r)"
      "hm_ok (\<lambda>H. Suc (Max (insert 0 H))) {5} (m, {5})"
    by (rule hashmap_init_wf [of "{5}"]) simp_all
  obtain m' H rs where s: "store_run (hm_store (\<lambda>H. Suc (Max (insert 0 H)))) hm_forget (m, {5})
      [Store (\<lambda>_. True) (5, [104, 105]) 7] = ((m', H), rs)" by (metis prod.exhaust)
  show ?thesis using hashmap_runs_as_function [OF m(2) s, of "(5, [104, 105])" "\<lambda>_. True" 8] m(1) s by auto
qed

end
