(* ===== verification/Utf8.thy ===== *)
theory Utf8
  imports Prelude
begin

text \<open>
  \<open>src/ceres/utf8.c\<close>: the incremental UTF-8 decoder every multibyte function of the library shares, and
  the functions on whole strings. A character is an \<open>unsigned int\<close> held as a number; no shift here
  reaches its width. A pointer into a string is the rest of its buffer, the buffer's end included, and
  \<open>None\<close> is a read past that end.
\<close>

section \<open>The decoder\<close>

record mbstate =
  mb_bits :: nat
  mb_need :: nat
  mb_lead :: nat
  mb_pending :: nat

definition mb_start :: mbstate where
  "mb_start = \<lparr>mb_bits = 0, mb_need = 0, mb_lead = 0, mb_pending = 0\<rparr>"

definition UTF8_MAX :: nat where "UTF8_MAX = 4"
definition UTF8_REPLACEMENT :: nat where "UTF8_REPLACEMENT = 0xFFFD"
definition UNICODE_MAX :: nat where "UNICODE_MAX = 0x10FFFF"

text \<open>The bounds of the second byte, which depend on the lead.\<close>

definition utf8_low :: "nat \<Rightarrow> nat" where
  "utf8_low lead = (if lead = 0xE0 then 0xA0 else if lead = 0xED then 0x80 else if lead = 0xF0 then 0x90 else 0x80)"

definition utf8_high :: "nat \<Rightarrow> nat" where
  "utf8_high lead = (if lead = 0xE0 then 0xBF else if lead = 0xED then 0x9F else if lead = 0xF0 then 0xBF
     else if lead = 0xF4 then 0x8F else 0xBF)"

definition utf8_feed :: "mbstate \<Rightarrow> u8 \<Rightarrow> mbstate \<times> int \<times> nat option" where
  "utf8_feed st byte =
     (let b = unat byte
      in if mb_need st = 0 then
           if b < 0x80 then (st, 1, Some b)
           else if 0xC2 \<le> b \<and> b \<le> 0xDF then (st\<lparr>mb_bits := b AND 0x1F, mb_need := 1, mb_lead := b\<rparr>, 0, None)
           else if 0xE0 \<le> b \<and> b \<le> 0xEF then (st\<lparr>mb_bits := b AND 0x0F, mb_need := 2, mb_lead := b\<rparr>, 0, None)
           else if 0xF0 \<le> b \<and> b \<le> 0xF4 then (st\<lparr>mb_bits := b AND 0x07, mb_need := 3, mb_lead := b\<rparr>, 0, None)
           else (st, -1, None)
         else if b < utf8_low (mb_lead st) \<or> utf8_high (mb_lead st) < b
           then (st\<lparr>mb_bits := 0, mb_need := 0, mb_lead := 0\<rparr>, -1, None)
         else
           let st = st\<lparr>mb_lead := 0, mb_bits := push_bit 6 (mb_bits st) OR (b AND 0x3F), mb_need := mb_need st - 1\<rparr>
           in if 0 < mb_need st then (st, 0, None)
              else (st\<lparr>mb_bits := 0\<rparr>, 1, Some (mb_bits st)))"

text \<open>\<open>k\<close> more bytes may be read, the next is byte \<open>i\<close>.\<close>

fun utf8_decode_loop :: "mbstate \<Rightarrow> nat \<Rightarrow> nat \<Rightarrow> u8 list \<Rightarrow> (int \<times> nat option) option" where
  "utf8_decode_loop st 0 i s = Some (-1, None)"
| "utf8_decode_loop st (Suc k) i [] = None"
| "utf8_decode_loop st (Suc k) i (b # s) =
     (case utf8_feed st b of (st, r, out) \<Rightarrow>
        if r < 0 then Some (-1, None)
        else if 0 < r then Some (int i + 1, out)
        else utf8_decode_loop st k (i + 1) s)"

definition utf8_decode :: "u8 list \<Rightarrow> nat \<Rightarrow> (int \<times> nat option) option" where
  "utf8_decode s n = (if n = 0 then Some (0, None) else utf8_decode_loop mb_start (min n UTF8_MAX) 0 s)"

section \<open>The encoder\<close>

definition utf8_width :: "nat \<Rightarrow> nat" where
  "utf8_width cp =
     (if cp < 0x80 then 1
      else if cp < 0x800 then 2
      else if 0xD800 \<le> cp \<and> cp \<le> 0xDFFF then 0
      else if cp < 0x10000 then 3
      else if cp \<le> UNICODE_MAX then 4
      else 0)"

text \<open>The bytes stored through \<open>out\<close>; their number is what the function returns.\<close>

definition utf8_encode :: "nat \<Rightarrow> u8 list" where
  "utf8_encode cp =
     (let n = utf8_width cp
      in if n = 1 then [of_nat cp]
         else if n = 2 then [of_nat (0xC0 OR drop_bit 6 cp), of_nat (0x80 OR (cp AND 0x3F))]
         else if n = 3 then [of_nat (0xE0 OR drop_bit 12 cp), of_nat (0x80 OR (drop_bit 6 cp AND 0x3F)),
                             of_nat (0x80 OR (cp AND 0x3F))]
         else if n = 4 then [of_nat (0xF0 OR drop_bit 18 cp), of_nat (0x80 OR (drop_bit 12 cp AND 0x3F)),
                             of_nat (0x80 OR (drop_bit 6 cp AND 0x3F)), of_nat (0x80 OR (cp AND 0x3F))]
         else [])"

text \<open>The Unicode scalar values.\<close>

definition scalar :: "nat \<Rightarrow> bool" where
  "scalar cp \<longleftrightarrow> cp < 0xD800 \<or> 0xE000 \<le> cp \<and> cp \<le> 0x10FFFF"

lemma utf8_width_pos: "0 < utf8_width cp \<longleftrightarrow> scalar cp"
  by (auto simp: utf8_width_def scalar_def UNICODE_MAX_def)

lemma length_utf8_encode [simp]: "length (utf8_encode cp) = utf8_width cp"
  by (auto simp: utf8_encode_def utf8_width_def Let_def)

section \<open>Decoding an encoded character\<close>

lemma utf8_or:
  "x < 64 \<Longrightarrow> 0x80 OR x = 128 + (x :: nat)" "x < 32 \<Longrightarrow> 0xC0 OR x = 192 + (x :: nat)"
  "x < 16 \<Longrightarrow> 0xE0 OR x = 224 + (x :: nat)" "x < 8 \<Longrightarrow> 0xF0 OR x = 240 + (x :: nat)"
  "x < 64 \<Longrightarrow> push_bit 6 y OR x = 64 * y + (x :: nat)"
  using nat_or_add [of x 6 2] nat_or_add [of x 6 3] nat_or_add [of x 4 14] nat_or_add [of x 3 30] nat_or_add [of x 6 y]
  by (simp_all add: push_bit_eq_mult mult.commute)

lemma utf8_and:
  "x AND 0x3F = x mod (64 :: nat)" "x AND 0x1F = x mod (32 :: nat)" "x AND 0x0F = x mod (16 :: nat)" "x AND 7 = x mod (8 :: nat)"
  using nat_and_pow2_minus_1 [of x 6] nat_and_pow2_minus_1 [of x 5] nat_and_pow2_minus_1 [of x 4]
    nat_and_pow2_minus_1 [of x 3] by simp_all

lemma unat_of_nat_u8: "x < 256 \<Longrightarrow> unat (of_nat x :: u8) = x"
  by (simp add: unsigned_of_nat take_bit_nat_eq_self)

text \<open>The bytes as numbers.\<close>

fun utf8_bytes :: "nat \<Rightarrow> nat list" where
  "utf8_bytes cp =
     (if utf8_width cp = 1 then [cp]
      else if utf8_width cp = 2 then [192 + cp div 64, 128 + cp mod 64]
      else if utf8_width cp = 3 then [224 + cp div 4096, 128 + cp div 64 mod 64, 128 + cp mod 64]
      else if utf8_width cp = 4 then
        [240 + cp div 262144, 128 + cp div 4096 mod 64, 128 + cp div 64 mod 64, 128 + cp mod 64]
      else [])"

lemma utf8_width_cases:
  "utf8_width cp = 1 \<longleftrightarrow> cp < 128"
  "utf8_width cp = 2 \<longleftrightarrow> 128 \<le> cp \<and> cp < 2048"
  "utf8_width cp = 3 \<longleftrightarrow> 2048 \<le> cp \<and> cp < 65536 \<and> (cp < 55296 \<or> 57343 < cp)"
  "utf8_width cp = 4 \<longleftrightarrow> 65536 \<le> cp \<and> cp < 1114112"
  by (auto simp: utf8_width_def UNICODE_MAX_def)

lemma div_lt: "(a :: nat) < b * c \<Longrightarrow> a div b < c"
  by (simp add: less_mult_imp_div_less mult.commute)

lemma utf8_encode_bytes: "utf8_encode cp = map of_nat (utf8_bytes cp)"
proof -
  have "cp div 64 < 32" if "cp < 2048" using that div_lt [of cp 64 32] by simp
  moreover have "cp div 4096 < 16" if "cp < 65536" using that div_lt [of cp 4096 16] by simp
  moreover have "cp div 262144 < 8" if "cp < 1114112" using that div_lt [of cp 262144 8] by simp
  ultimately show ?thesis
    by (simp add: utf8_encode_def Let_def utf8_and utf8_or drop_bit_eq_div utf8_width_cases del: One_nat_def)
qed

text \<open>The groups of six bits of a character, and the bytes they make.\<close>

lemma groups2: "c < 64 \<Longrightarrow> (64 * a + c) div 64 = a \<and> (64 * a + c) mod 64 = (c :: nat)"
  by simp

lemma groups3:
  assumes "b < 64" "c < 64"
  shows "(4096 * a + 64 * b + c) div 4096 = a" "(4096 * a + 64 * b + c) div 64 mod 64 = b"
    "(4096 * a + 64 * b + c) mod 64 = (c :: nat)"
proof -
  have "64 * b + c < 4096" using assms by simp
  then show "(4096 * a + 64 * b + c) div 4096 = a" by (simp add: add.assoc)
  have "(4096 * a + 64 * b + c) = 64 * (64 * a + b) + c" by simp
  then have "(4096 * a + 64 * b + c) div 64 = 64 * a + b" "(4096 * a + 64 * b + c) mod 64 = c"
    using groups2 [OF assms(2), of "64 * a + b"] by simp_all
  then show "(4096 * a + 64 * b + c) div 64 mod 64 = b" "(4096 * a + 64 * b + c) mod 64 = c" using assms(1) by simp_all
qed

lemma groups4:
  assumes "b < 64" "c < 64" "d < 64"
  shows "(262144 * a + 4096 * b + 64 * c + d) div 262144 = a"
    "(262144 * a + 4096 * b + 64 * c + d) div 4096 mod 64 = b"
    "(262144 * a + 4096 * b + 64 * c + d) div 64 mod 64 = c"
    "(262144 * a + 4096 * b + 64 * c + d) mod 64 = (d :: nat)"
proof -
  have "4096 * b + 64 * c + d < 262144" using assms by simp
  then show "(262144 * a + 4096 * b + 64 * c + d) div 262144 = a" by (simp add: add.assoc)
  have e: "262144 * a + 4096 * b + 64 * c + d = 4096 * (64 * a + b) + 64 * c + d" by simp
  show "(262144 * a + 4096 * b + 64 * c + d) div 4096 mod 64 = b"
    "(262144 * a + 4096 * b + 64 * c + d) div 64 mod 64 = c" "(262144 * a + 4096 * b + 64 * c + d) mod 64 = d"
    unfolding e groups3 [OF assms(2,3)] using assms(1) by simp_all
qed

lemma utf8_encode1: "a < 128 \<Longrightarrow> utf8_encode a = [of_nat a] \<and> scalar a \<and> utf8_width a = 1"
  by (simp add: utf8_encode_bytes utf8_width_cases scalar_def del: One_nat_def)

lemma utf8_encode2:
  assumes "2 \<le> a" "a < 32" "c < 64"
  shows "utf8_encode (64 * a + c) = [of_nat (192 + a), of_nat (128 + c)] \<and> scalar (64 * a + c) \<and> utf8_width (64 * a + c) = 2"
proof -
  have w: "utf8_width (64 * a + c) = 2" using assms by (simp add: utf8_width_cases)
  then show ?thesis using assms groups2 [OF assms(3), of a] by (simp add: utf8_encode_bytes scalar_def)
qed

lemma utf8_encode3:
  assumes "a < 16" "b < 64" "c < 64" "a = 0 \<Longrightarrow> 32 \<le> b" "a = 13 \<Longrightarrow> b < 32"
  defines "cp \<equiv> 4096 * a + 64 * b + c"
  shows "utf8_encode cp = [of_nat (224 + a), of_nat (128 + b), of_nat (128 + c)] \<and> scalar cp \<and> utf8_width cp = 3"
proof -
  have "2048 \<le> cp" using assms(4) by (cases "a = 0") (auto simp: cp_def)
  moreover have "cp < 65536" using assms(1-3) by (simp add: cp_def)
  moreover have "cp < 55296 \<or> 57343 < cp"
  proof (cases "a = 13")
    case True
    then show ?thesis using assms(3,5) by (simp add: cp_def)
  next
    case False
    then have "a \<le> 12 \<or> 14 \<le> a" by auto
    then show ?thesis using assms(2,3) by (auto simp: cp_def)
  qed
  ultimately have w: "utf8_width cp = 3" "scalar cp" by (auto simp: utf8_width_cases scalar_def)
  then show ?thesis using groups3 [OF assms(2,3), of a] by (simp add: utf8_encode_bytes cp_def)
qed

lemma utf8_encode4:
  assumes "a < 5" "b < 64" "c < 64" "d < 64" "a = 0 \<Longrightarrow> 16 \<le> b" "a = 4 \<Longrightarrow> b < 16"
  defines "cp \<equiv> 262144 * a + 4096 * b + 64 * c + d"
  shows "utf8_encode cp = [of_nat (240 + a), of_nat (128 + b), of_nat (128 + c), of_nat (128 + d)] \<and>
    scalar cp \<and> utf8_width cp = 4"
proof -
  have "65536 \<le> cp" using assms(5) by (cases "a = 0") (auto simp: cp_def)
  moreover have "cp < 1114112"
  proof (cases "a = 4")
    case True
    then show ?thesis using assms(3,4,6) by (simp add: cp_def)
  next
    case False
    then have "a \<le> 3" using assms(1) by simp
    then show ?thesis using assms(2-4) by (simp add: cp_def)
  qed
  ultimately have w: "utf8_width cp = 4" "scalar cp" by (auto simp: utf8_width_cases scalar_def)
  then show ?thesis using groups4 [OF assms(2-4), of a] by (simp add: utf8_encode_bytes cp_def)
qed

text \<open>Every scalar value is one of these.\<close>

lemma scalar_cases:
  assumes "scalar cp"
  obtains (1) "cp < 128"
  | (2) a c where "cp = 64 * a + c" "2 \<le> a" "a < 32" "c < 64"
  | (3) a b c where "cp = 4096 * a + 64 * b + c" "a < 16" "b < 64" "c < 64" "a = 0 \<Longrightarrow> 32 \<le> b" "a = 13 \<Longrightarrow> b < 32"
  | (4) a b c d where "cp = 262144 * a + 4096 * b + 64 * c + d" "a < 5" "b < 64" "c < 64" "d < 64"
      "a = 0 \<Longrightarrow> 16 \<le> b" "a = 4 \<Longrightarrow> b < 16"
proof -
  define c where "c = cp mod 64"
  define b where "b = cp div 64 mod 64"
  define a where "a = cp div 4096"
  have cl: "c < 64" "b < 64" by (simp_all add: c_def b_def)
  have "cp = 64 * (cp div 64) + c" by (simp add: c_def)
  moreover have "cp div 64 = 64 * (cp div 64 div 64) + b" by (simp add: b_def)
  moreover have "cp div 64 div 64 = a" by (simp add: a_def div_mult2_eq [symmetric])
  ultimately have cp: "cp = 4096 * a + 64 * b + c" by linarith
  consider "cp < 128" | "128 \<le> cp" "cp < 2048" | "2048 \<le> cp" "cp < 65536" | "65536 \<le> cp" by linarith
  then show ?thesis
  proof cases
    case 1
    then show ?thesis by (rule that(1))
  next
    case 2
    then have "a = 0" by (simp add: a_def)
    then have e: "cp = 64 * b + c" using cp by simp
    then have "b < 32" "2 \<le> b" using 2 cl by linarith+
    then show ?thesis using that(2) [of b c] e cl by simp
  next
    case 3
    then have "a < 16" "a = 0 \<Longrightarrow> 32 \<le> b" using cp cl by linarith+
    moreover have "a = 13 \<Longrightarrow> b < 32" using cp cl assms by (auto simp: scalar_def)
    ultimately show ?thesis using that(3) [of a b c] cp cl by simp
  next
    case 4
    then have le: "cp < 1114112" using assms by (auto simp: scalar_def)
    define d where "d = a mod 64"
    define e where "e = a div 64"
    have a: "a = 64 * e + d" "d < 64" by (simp_all add: e_def d_def)
    have "e < 5" "e = 0 \<Longrightarrow> 16 \<le> d" "e = 4 \<Longrightarrow> d < 16" using a cp cl le 4 by linarith+
    then show ?thesis using that(4) [of e d b c] cp cl a by simp
  qed
qed

lemma utf8_feed_num:
  assumes "b < 256"
  shows "utf8_feed st (of_nat b) =
    (if mb_need st = 0 then
       if b < 128 then (st, 1, Some b)
       else if 194 \<le> b \<and> b \<le> 223 then (st\<lparr>mb_bits := b mod 32, mb_need := 1, mb_lead := b\<rparr>, 0, None)
       else if 224 \<le> b \<and> b \<le> 239 then (st\<lparr>mb_bits := b mod 16, mb_need := 2, mb_lead := b\<rparr>, 0, None)
       else if 240 \<le> b \<and> b \<le> 244 then (st\<lparr>mb_bits := b mod 8, mb_need := 3, mb_lead := b\<rparr>, 0, None)
       else (st, -1, None)
     else if b < utf8_low (mb_lead st) \<or> utf8_high (mb_lead st) < b
       then (st\<lparr>mb_bits := 0, mb_need := 0, mb_lead := 0\<rparr>, -1, None)
     else if 1 < mb_need st
       then (st\<lparr>mb_lead := 0, mb_bits := 64 * mb_bits st + b mod 64, mb_need := mb_need st - 1\<rparr>, 0, None)
     else (st\<lparr>mb_lead := 0, mb_bits := 0, mb_need := mb_need st - 1\<rparr>, 1, Some (64 * mb_bits st + b mod 64)))"
  using assms utf8_or(5) [of "b mod 64"]
  by (auto simp: utf8_feed_def Let_def unat_of_nat_u8 utf8_and)

text \<open>A character in progress: \<open>v\<close> are the bits read, \<open>r\<close> the bytes to come, \<open>l\<close> the lead while the second byte is awaited.\<close>

definition mid :: "nat \<Rightarrow> nat \<Rightarrow> nat \<Rightarrow> mbstate" where
  "mid v r l = \<lparr>mb_bits = v, mb_need = r, mb_lead = l, mb_pending = 0\<rparr>"

definition cont_ok :: "nat \<Rightarrow> nat \<Rightarrow> bool" where
  "cont_ok l c \<longleftrightarrow> c < 64 \<and> utf8_low l \<le> 128 + c \<and> 128 + c \<le> utf8_high l"

lemma utf8_low_high: "128 \<le> utf8_low l" "utf8_high l \<le> 191"
  by (simp_all add: utf8_low_def utf8_high_def)

lemma u8_of_nat: "(b :: u8) = of_nat (unat b)"
  by simp

lemma utf8_feed_mid:
  "utf8_feed (mid v (Suc r) l) b =
    (if utf8_low l \<le> unat b \<and> unat b \<le> utf8_high l
     then (if r = 0 then (mid 0 0 0, 1, Some (64 * v + unat b mod 64)) else (mid (64 * v + unat b mod 64) r 0, 0, None))
     else (mid 0 0 0, -1, None))"
  using utf8_feed_num [OF unat_u8_less [of b], of "mid v (Suc r) l"] by (auto simp: mid_def)

lemma cont_of:
  assumes "utf8_low l \<le> n" "n \<le> utf8_high l"
  shows "cont_ok l (n mod 64) \<and> n = 128 + n mod 64"
proof -
  have n: "128 \<le> n" "n < 192" using assms utf8_low_high [of l] by linarith+
  define c where "c = n - 128"
  have c: "n = 128 + c" "c < 64" using n by (simp_all add: c_def)
  then have "n mod 64 = c" by (simp add: mod_if)
  then show ?thesis using c assms by (simp add: cont_ok_def)
qed

lemma decode_step:
  "(utf8_decode_loop (mid v (Suc r) l) k i s = Some (m, out) \<and> 0 < m) \<longleftrightarrow>
   (\<exists>k' c s'. k = Suc k' \<and> s = of_nat (128 + c) # s' \<and> cont_ok l c \<and>
     (if r = 0 then m = int i + 1 \<and> out = Some (64 * v + c)
      else utf8_decode_loop (mid (64 * v + c) r 0) k' (i + 1) s' = Some (m, out) \<and> 0 < m))"
  (is "?l \<longleftrightarrow> ?r")
proof
  assume l: ?l
  then obtain k' b s' where ks: "k = Suc k'" "s = b # s'" by (cases k; cases s) auto
  then have ok: "utf8_low l \<le> unat b \<and> unat b \<le> utf8_high l" using l by (auto simp: utf8_feed_mid split: if_splits)
  with cont_of have c: "cont_ok l (unat b mod 64)" "unat b = 128 + unat b mod 64" by blast+
  have "b = of_nat (128 + unat b mod 64)" using c(2) u8_of_nat by metis
  moreover have "if r = 0 then m = int i + 1 \<and> out = Some (64 * v + unat b mod 64)
      else utf8_decode_loop (mid (64 * v + unat b mod 64) r 0) k' (i + 1) s' = Some (m, out) \<and> 0 < m"
    using l ok by (auto simp: ks utf8_feed_mid)
  ultimately show ?r using ks c(1) by blast
next
  assume ?r
  then obtain k' c s' where ks: "k = Suc k'" "s = of_nat (128 + c) # s'" "cont_ok l c" and
    i: "if r = 0 then m = int i + 1 \<and> out = Some (64 * v + c)
      else utf8_decode_loop (mid (64 * v + c) r 0) k' (i + 1) s' = Some (m, out) \<and> 0 < m" by blast
  have "unat (of_nat (128 + c) :: u8) = 128 + c" using ks(3) by (intro unat_of_nat_u8) (simp add: cont_ok_def)
  moreover have "(128 + c) mod 64 = c" using ks(3) by (simp add: cont_ok_def mod_if)
  ultimately show ?l using ks i by (auto simp: utf8_feed_mid cont_ok_def)
qed

lemma mb_start_mid: "mb_start = mid 0 0 0"
  by (simp add: mb_start_def mid_def)

lemma utf8_feed_start:
  assumes "b < 256"
  shows "utf8_feed (mid 0 0 0) (of_nat b) =
    (if b < 128 then (mid 0 0 0, 1, Some b)
     else if 194 \<le> b \<and> b \<le> 223 then (mid (b mod 32) 1 b, 0, None)
     else if 224 \<le> b \<and> b \<le> 239 then (mid (b mod 16) 2 b, 0, None)
     else if 240 \<le> b \<and> b \<le> 244 then (mid (b mod 8) 3 b, 0, None)
     else (mid 0 0 0, -1, None))"
  unfolding utf8_feed_num [OF assms] by (simp add: mid_def)

text \<open>The characters of each width, as the decoder reads them.\<close>

lemma decode_tail1:
  "(utf8_decode_loop (mid v 1 l) k i s = Some (m, out) \<and> 0 < m) \<longleftrightarrow>
   (\<exists>k' c s'. k = Suc k' \<and> s = of_nat (128 + c) # s' \<and> cont_ok l c \<and> m = int i + 1 \<and> out = Some (64 * v + c))"
  using decode_step [of v 0 l k i s m out] by simp

lemma decode_tail2:
  "(utf8_decode_loop (mid v 2 l) k i s = Some (m, out) \<and> 0 < m) \<longleftrightarrow>
   (\<exists>k' c d s'. k = Suc (Suc k') \<and> s = of_nat (128 + c) # of_nat (128 + d) # s' \<and> cont_ok l c \<and> cont_ok 0 d \<and>
     m = int i + 2 \<and> out = Some (64 * (64 * v + c) + d))"
  unfolding numeral_2_eq_2 decode_step
  by (simp add: decode_tail1 [simplified] del: utf8_decode_loop.simps) (rule iffI; force)

lemma decode_tail3:
  "(utf8_decode_loop (mid v 3 l) k i s = Some (m, out) \<and> 0 < m) \<longleftrightarrow>
   (\<exists>k' c d e s'. k = Suc (Suc (Suc k')) \<and> s = of_nat (128 + c) # of_nat (128 + d) # of_nat (128 + e) # s' \<and>
     cont_ok l c \<and> cont_ok 0 d \<and> cont_ok 0 e \<and> m = int i + 3 \<and> out = Some (64 * (64 * (64 * v + c) + d) + e))"
  unfolding numeral_3_eq_3 decode_step
  by (simp add: decode_tail2 [simplified] numeral_2_eq_2 [symmetric] del: utf8_decode_loop.simps) (rule iffI; force)

text \<open>A byte of the second or a later place is never less than 128, so a terminator stops every decoding.\<close>

lemma decode_loop_total:
  "k \<le> length s \<or> 0 \<in> set s \<Longrightarrow> \<exists>m out. utf8_decode_loop st k i s = Some (m, out) \<and> (0 < m \<or> m = -1 \<and> out = None)"
proof (induction st k i s rule: utf8_decode_loop.induct)
  case (3 st k i b s)
  obtain st' r out where f: "utf8_feed st b = (st', r, out)" by (cases "utf8_feed st b")
  have "b = 0 \<Longrightarrow> r = 1 \<or> r = -1" using f utf8_low_high [of "mb_lead st"] by (auto simp: utf8_feed_def Let_def split: if_splits)
  then have "r \<le> 0 \<Longrightarrow> \<not> r < 0 \<Longrightarrow> k \<le> length s \<or> 0 \<in> set s" using 3(2) by auto
  then show ?case using 3(1) [OF f [symmetric] refl] f by auto
qed auto

lemma utf8_decode_exact:
  "(utf8_decode s n = Some (m, out) \<and> 0 < m) \<longleftrightarrow>
   (\<exists>cp rest. scalar cp \<and> utf8_width cp \<le> n \<and> s = utf8_encode cp @ rest \<and> m = int (utf8_width cp) \<and> out = Some cp)"
  (is "?l \<longleftrightarrow> ?r")
proof
  assume l: ?l
  then obtain k where k: "min n UTF8_MAX = Suc k" by (cases "min n UTF8_MAX") (auto simp: utf8_decode_def split: if_splits)
  from l k obtain b s' where s: "s = b # s'" by (cases s) (auto simp: utf8_decode_def split: if_splits)
  define a where "a = unat b"
  have b: "b = of_nat a" "a < 256" by (simp_all add: a_def)
  from l k have d: "utf8_decode_loop (mid 0 0 0) (Suc k) 0 (of_nat a # s') = Some (m, out)" "0 < m"
    by (auto simp: utf8_decode_def s b(1) mb_start_mid split: if_splits)
  have n: "Suc k \<le> n" using k by simp
  consider "a < 128" | "194 \<le> a" "a \<le> 223" | "224 \<le> a" "a \<le> 239" | "240 \<le> a" "a \<le> 244"
    using d utf8_feed_start [OF b(2)] by (fastforce split: if_splits)
  then show ?r
  proof cases
    case 1
    then show ?thesis using d utf8_feed_start [OF b(2)] utf8_encode1 [OF 1] n
      by (intro exI [of _ a] exI [of _ s']) (auto simp: s b(1))
  next
    case 2
    then have "utf8_decode_loop (mid (a mod 32) 1 a) k (Suc 0) s' = Some (m, out) \<and> 0 < m"
      using d utf8_feed_start [OF b(2)] by simp
    then obtain k' c t where t: "k = Suc k'" "s' = of_nat (128 + c) # t" "cont_ok a c" "m = 2" "out = Some (64 * (a mod 32) + c)"
      unfolding decode_tail1 by auto
    define x where "x = a - 192"
    have x: "a = 192 + x" "2 \<le> x" "x < 32" "a mod 32 = x" using 2 by (auto simp: x_def mod_if)
    have "c < 64" using t(3) by (simp add: cont_ok_def)
    from utf8_encode2 [OF x(2,3) this] show ?thesis using t x n
      by (intro exI [of _ "64 * x + c"] exI [of _ t]) (auto simp: s b(1))
  next
    case 3
    then have "utf8_decode_loop (mid (a mod 16) 2 a) k (Suc 0) s' = Some (m, out) \<and> 0 < m"
      using d utf8_feed_start [OF b(2)] by simp
    then obtain k' c e t where t: "k = Suc (Suc k')" "s' = of_nat (128 + c) # of_nat (128 + e) # t" "cont_ok a c" "cont_ok 0 e"
      "m = 3" "out = Some (64 * (64 * (a mod 16) + c) + e)" unfolding decode_tail2 by auto
    define x where "x = a - 224"
    have x: "a = 224 + x" "x < 16" "a mod 16 = x" using 3 by (auto simp: x_def mod_if)
    have "c < 64" "e < 64" "x = 0 \<Longrightarrow> 32 \<le> c" "x = 13 \<Longrightarrow> c < 32"
      using t(3,4) x(1) by (auto simp: cont_ok_def utf8_low_def utf8_high_def)
    from utf8_encode3 [OF x(2) this] show ?thesis using t x n
      by (intro exI [of _ "4096 * x + 64 * c + e"] exI [of _ t]) (auto simp: s b(1))
  next
    case 4
    then have "utf8_decode_loop (mid (a mod 8) 3 a) k (Suc 0) s' = Some (m, out) \<and> 0 < m"
      using d utf8_feed_start [OF b(2)] by simp
    then obtain k' c e f t where t: "k = Suc (Suc (Suc k'))" "s' = of_nat (128 + c) # of_nat (128 + e) # of_nat (128 + f) # t"
      "cont_ok a c" "cont_ok 0 e" "cont_ok 0 f" "m = 4" "out = Some (64 * (64 * (64 * (a mod 8) + c) + e) + f)"
      unfolding decode_tail3 by auto
    define x where "x = a - 240"
    have x: "a = 240 + x" "x < 5" "a mod 8 = x" using 4 by (auto simp: x_def mod_if)
    have "c < 64" "e < 64" "f < 64" "x = 0 \<Longrightarrow> 16 \<le> c" "x = 4 \<Longrightarrow> c < 16"
      using t(3-5) x(1) by (auto simp: cont_ok_def utf8_low_def utf8_high_def)
    from utf8_encode4 [OF x(2) this] show ?thesis using t x n
      by (intro exI [of _ "262144 * x + 4096 * c + 64 * e + f"] exI [of _ t]) (auto simp: s b(1))
  qed
next
  assume ?r
  then obtain cp rest where cp: "scalar cp" "utf8_width cp \<le> n" "s = utf8_encode cp @ rest"
    "m = int (utf8_width cp)" "out = Some cp" by blast
  have w: "0 < utf8_width cp" "utf8_width cp \<le> 4" using cp(1) utf8_width_pos by (auto simp: utf8_width_def)
  define k where "k = min n UTF8_MAX - 1"
  have k: "min n UTF8_MAX = Suc k" "utf8_width cp \<le> Suc k" using w cp(2) by (auto simp: UTF8_MAX_def k_def)
  have dl: "utf8_decode s n = utf8_decode_loop (mid 0 0 0) (Suc k) 0 s" using k w cp(2) by (auto simp: utf8_decode_def mb_start_mid)
  from cp(1) show ?l
  proof (cases rule: scalar_cases)
    case 1
    then show ?thesis using utf8_encode1 [OF 1] cp dl utf8_feed_start [of cp] by simp
  next
    case (2 a c)
    note e = utf8_encode2 [OF 2(2-4), folded 2(1)]
    have f: "192 + a < 256" "(192 + a) mod 32 = a" using 2 by (simp_all add: mod_if)
    have "cont_ok (192 + a) c" using 2 by (auto simp: cont_ok_def utf8_low_def utf8_high_def)
    then have "utf8_decode_loop (mid a 1 (192 + a)) k 1 (of_nat (128 + c) # rest) = Some (m, out) \<and> 0 < m"
      unfolding decode_tail1 using k(2) e cp 2(1) by (cases k) auto
    then show ?thesis using dl e cp 2 utf8_feed_start [OF f(1)] f(2) by simp
  next
    case (3 a b c)
    note e = utf8_encode3 [OF 3(2-6), folded 3(1)]
    have f: "224 + a < 256" "(224 + a) mod 16 = a" using 3 by (simp_all add: mod_if)
    have "cont_ok (224 + a) b" "cont_ok 0 c" using 3 by (auto simp: cont_ok_def utf8_low_def utf8_high_def)
    moreover obtain k' where "k = Suc (Suc k')" using k(2) e by (intro that [of "k - 2"]) simp
    ultimately have "utf8_decode_loop (mid a 2 (224 + a)) k 1 (of_nat (128 + b) # of_nat (128 + c) # rest) = Some (m, out) \<and> 0 < m"
      unfolding decode_tail2 using e cp 3(1) by auto
    then show ?thesis using dl e cp 3 utf8_feed_start [OF f(1)] f(2) by simp
  next
    case (4 a b c d)
    note e = utf8_encode4 [OF 4(2-7), folded 4(1)]
    have f: "240 + a < 256" "(240 + a) mod 8 = a" using 4 by (simp_all add: mod_if)
    have "cont_ok (240 + a) b" "cont_ok 0 c" "cont_ok 0 d" using 4 by (auto simp: cont_ok_def utf8_low_def utf8_high_def)
    moreover obtain k' where "k = Suc (Suc (Suc k'))"
      using k(2) e by (intro that [of "k - 3"]) simp
    ultimately have "utf8_decode_loop (mid a 3 (240 + a)) k 1 (of_nat (128 + b) # of_nat (128 + c) # of_nat (128 + d) # rest) = Some (m, out) \<and> 0 < m"
      unfolding decode_tail3 using e cp 4(1) by auto
    then show ?thesis using dl e cp 4 utf8_feed_start [OF f(1)] f(2) by simp
  qed
qed

section \<open>Strings\<close>

lemma decode_loop_nonzero: "utf8_decode_loop st k i s = Some (m, out) \<Longrightarrow> m \<noteq> 0"
  by (induction st k i s rule: utf8_decode_loop.induct) (auto split: if_splits prod.splits)

text \<open>One character of a string, and the rest of the string after it.\<close>

definition utf8_next :: "u8 list \<Rightarrow> (nat \<times> u8 list) option" where
  "utf8_next p =
     (case p of
        [] \<Rightarrow> None
      | b # p' \<Rightarrow>
          if b = 0 then Some (0, p)
          else case utf8_decode p UTF8_MAX of
            None \<Rightarrow> None
          | Some (n, cp) \<Rightarrow> if n < 0 then Some (UTF8_REPLACEMENT, p') else Some (the cp, drop (nat n) p))"

lemma utf8_next_shorter: "utf8_next s = Some (cp, s') \<Longrightarrow> cp \<noteq> 0 \<Longrightarrow> length s' < length s"
proof -
  assume n: "utf8_next s = Some (cp, s')" "cp \<noteq> 0"
  then obtain b p where s: "s = b # p" "b \<noteq> 0" by (cases s) (auto simp: utf8_next_def split: if_splits)
  then obtain m out where d: "utf8_decode s UTF8_MAX = Some (m, out)"
    using n by (auto simp: utf8_next_def split: option.splits)
  show ?thesis
  proof (cases "0 < m")
    case True
    then show ?thesis using n s d by (auto simp: utf8_next_def)
  next
    case False
    have "utf8_decode_loop mb_start 4 0 s = Some (m, out)" using d by (simp add: utf8_decode_def UTF8_MAX_def)
    then have "m < 0" using False decode_loop_nonzero by fastforce
    then show ?thesis using n s d by (auto simp: utf8_next_def)
  qed
qed

text \<open>The loop of \<open>utf8_length\<close>; the string gets shorter with every character.\<close>

function utf8_length :: "u8 list \<Rightarrow> nat option" where
  "utf8_length s =
     (case utf8_next s of
        None \<Rightarrow> None
      | Some (cp, s') \<Rightarrow> if cp \<noteq> 0 then map_option Suc (utf8_length s') else Some 0)"
  by pat_completeness auto
termination by (relation "measure length") (auto dest: utf8_next_shorter)

fun utf8_offset :: "u8 list \<Rightarrow> nat \<Rightarrow> u8 list option" where
  "utf8_offset s 0 = Some s"
| "utf8_offset s (Suc i) =
     (case utf8_next s of
        None \<Rightarrow> None
      | Some (cp, s') \<Rightarrow> if cp \<noteq> 0 then utf8_offset s' i else Some s')"

text \<open>\<open>s\<close> is what follows index \<open>i\<close>, \<open>n\<close> the bytes left.\<close>

lemma utf8_decode_progress: "utf8_decode s n = Some (k, out) \<Longrightarrow> n \<noteq> 0 \<Longrightarrow> \<not> k < 0 \<Longrightarrow> 0 < k"
proof -
  assume d: "utf8_decode s n = Some (k, out)" "n \<noteq> 0" "\<not> k < 0"
  then have "k \<noteq> 0" using decode_loop_nonzero [of mb_start "min n UTF8_MAX" 0 s k out] by (simp add: utf8_decode_def)
  then show ?thesis using d by simp
qed

function utf8_valid :: "u8 list \<Rightarrow> nat \<Rightarrow> bool option" where
  "utf8_valid s n =
     (if n = 0 then Some True
      else case utf8_decode s n of
        None \<Rightarrow> None
      | Some (k, _) \<Rightarrow> if k < 0 then Some False else utf8_valid (drop (nat k) s) (n - nat k))"
  by pat_completeness auto
termination by (relation "measure snd") (auto dest: utf8_decode_progress)

declare utf8_length.simps [simp del] utf8_valid.simps [simp del]

text \<open>The result so far is \<open>dst\<close> and \<open>len\<close>; \<open>size\<close> (here \<open>sz\<close>) is what the caller says \<open>dst\<close> holds.\<close>

function utf8_to_latin1_loop :: "u8 list \<Rightarrow> nat \<Rightarrow> u8 \<Rightarrow> nat \<Rightarrow> u8 list \<Rightarrow> (u8 list \<times> nat) option" where
  "utf8_to_latin1_loop dst sz unknown len src =
     (case utf8_next src of
        None \<Rightarrow> None
      | Some (cp, src') \<Rightarrow>
          if cp \<noteq> 0 then
            case (if len + 1 < sz then mem_set dst len (if cp \<le> 0xFF then of_nat cp else unknown) else Some dst) of
              None \<Rightarrow> None
            | Some dst \<Rightarrow> utf8_to_latin1_loop dst sz unknown (len + 1) src'
          else Some (dst, len))"
  by pat_completeness auto
termination by (relation "measure (\<lambda>(dst, sz, unknown, len, src). length src)") (auto dest: utf8_next_shorter)

declare utf8_to_latin1_loop.simps [simp del]

definition utf8_to_latin1 :: "u8 list \<Rightarrow> nat \<Rightarrow> u8 list \<Rightarrow> u8 \<Rightarrow> (u8 list \<times> nat) option" where
  "utf8_to_latin1 dst sz src unknown =
     (case utf8_to_latin1_loop dst sz unknown 0 src of
        None \<Rightarrow> None
      | Some (dst, len) \<Rightarrow>
          if 0 < sz then map_option (\<lambda>dst. (dst, len)) (mem_set dst (if len < sz then len else sz - 1) 0)
          else Some (dst, len))"

fun latin1_to_utf8_loop :: "u8 list \<Rightarrow> nat \<Rightarrow> nat \<Rightarrow> bool \<Rightarrow> u8 list \<Rightarrow> (u8 list \<times> nat \<times> bool) option" where
  "latin1_to_utf8_loop dst sz len full [] = None"
| "latin1_to_utf8_loop dst sz len full (c # src) =
     (if c = 0 then Some (dst, len, full)
      else
        let bytes = utf8_encode (unat c); n = utf8_width (unat c)
        in if \<not> full \<and> len + n < sz then
             case mem_put dst len bytes of
               None \<Rightarrow> None
             | Some dst \<Rightarrow> latin1_to_utf8_loop dst sz (len + n) full src
           else if \<not> full then
             case (if 0 < sz then mem_set dst len 0 else Some dst) of
               None \<Rightarrow> None
             | Some dst \<Rightarrow> latin1_to_utf8_loop dst sz (len + n) True src
           else latin1_to_utf8_loop dst sz (len + n) full src)"

definition latin1_to_utf8 :: "u8 list \<Rightarrow> nat \<Rightarrow> u8 list \<Rightarrow> (u8 list \<times> nat) option" where
  "latin1_to_utf8 dst sz src =
     (case latin1_to_utf8_loop dst sz 0 False src of
        None \<Rightarrow> None
      | Some (dst, len, full) \<Rightarrow>
          if \<not> full \<and> 0 < sz then map_option (\<lambda>dst. (dst, len)) (mem_set dst len 0) else Some (dst, len))"

text \<open>What all of them read: the characters up to the terminator, a replacement for every byte that starts none.\<close>

function utf8_chars :: "u8 list \<Rightarrow> nat list option" where
  "utf8_chars s =
     (case utf8_next s of
        None \<Rightarrow> None
      | Some (cp, s') \<Rightarrow> if cp \<noteq> 0 then map_option (Cons cp) (utf8_chars s') else Some [])"
  by pat_completeness auto
termination by (relation "measure length") (auto dest: utf8_next_shorter)

declare utf8_chars.simps [simp del]

definition utf8_text :: "nat list \<Rightarrow> u8 list" where
  "utf8_text cps = concat (map utf8_encode cps)"

lemma utf8_text_simps [simp]:
  "utf8_text [] = []" "utf8_text (cp # cps) = utf8_encode cp @ utf8_text cps" "utf8_text (xs @ ys) = utf8_text xs @ utf8_text ys"
  by (simp_all add: utf8_text_def)

lemma utf8_encode_nonzero:
  assumes "scalar cp" "cp \<noteq> 0"
  shows "0 \<notin> set (utf8_encode cp)"
proof -
  have nz: "(of_nat n :: u8) \<noteq> 0" if "0 < n" "n < 256" for n
    using unat_of_nat_u8 [OF that(2)] that(1) by (metis less_irrefl unsigned_0)
  from assms(1) show ?thesis
  proof (cases rule: scalar_cases)
    case 1
    then show ?thesis using utf8_encode1 [OF 1] nz [of cp] assms(2) by simp
  next
    case (2 a c)
    show ?thesis using utf8_encode2 [OF 2(2-4), folded 2(1)] nz [of "192 + a"] nz [of "128 + c"] 2 by auto
  next
    case (3 a b c)
    show ?thesis using utf8_encode3 [OF 3(2-6), folded 3(1)] nz [of "224 + a"] nz [of "128 + b"] nz [of "128 + c"] 3 by auto
  next
    case (4 a b c d)
    show ?thesis using utf8_encode4 [OF 4(2-7), folded 4(1)] nz [of "240 + a"] nz [of "128 + b"] nz [of "128 + c"]
      nz [of "128 + d"] 4 by auto
  qed
qed

lemma utf8_width_range: "scalar cp \<Longrightarrow> 0 < utf8_width cp \<and> utf8_width cp \<le> 4"
  using utf8_width_pos [of cp] by (auto simp: utf8_width_def)

lemma utf8_next_char:
  assumes "scalar cp" "cp \<noteq> 0"
  shows "utf8_next (utf8_encode cp @ rest) = Some (cp, rest)"
proof -
  note w = utf8_width_range [OF assms(1)]
  have d: "utf8_decode (utf8_encode cp @ rest) UTF8_MAX = Some (int (utf8_width cp), Some cp)"
    using utf8_decode_exact [of "utf8_encode cp @ rest" UTF8_MAX "int (utf8_width cp)" "Some cp"] assms(1) w
    by (auto simp: UTF8_MAX_def)
  obtain b t where e: "utf8_encode cp = b # t" using w length_utf8_encode [of cp] by (cases "utf8_encode cp") auto
  moreover have "b \<noteq> 0" using utf8_encode_nonzero [OF assms] e by auto
  moreover have "drop (utf8_width cp) (b # t @ rest) = rest"
    using e length_utf8_encode [of cp] by (metis append_Cons append_eq_conv_conj)
  ultimately show ?thesis using d w by (simp add: utf8_next_def)
qed

text \<open>What one step over any string does: it takes a character, or one byte that begins none.\<close>

lemma utf8_next_cases:
  assumes "0 \<in> set s"
  obtains (stop) t where "s = 0 # t" "utf8_next s = Some (0, s)"
  | (char) cp t where "scalar cp" "cp \<noteq> 0" "s = utf8_encode cp @ t" "0 \<in> set t" "utf8_next s = Some (cp, t)"
  | (bad) b t where "b \<noteq> 0" "s = b # t" "0 \<in> set t" "utf8_next s = Some (UTF8_REPLACEMENT, t)"
proof -
  obtain b t where s: "s = b # t" using assms by (cases s) auto
  show ?thesis
  proof (cases "b = 0")
    case True
    then show ?thesis using stop [of t] s by (simp add: utf8_next_def)
  next
    case False
    obtain m out where d: "utf8_decode s UTF8_MAX = Some (m, out)" "0 < m \<or> m = -1 \<and> out = None"
      using decode_loop_total [of UTF8_MAX s mb_start 0] assms by (auto simp: utf8_decode_def UTF8_MAX_def)
    show ?thesis
    proof (cases "0 < m")
      case True
      then obtain cp rest where c: "scalar cp" "s = utf8_encode cp @ rest" using utf8_decode_exact d(1) by blast
      have nz: "cp \<noteq> 0" using c s False utf8_encode1 [of 0] by (cases "cp = 0") auto
      then have "0 \<in> set rest" using assms c utf8_encode_nonzero [OF c(1)] by auto
      then show ?thesis using char [OF c(1) nz c(2)] utf8_next_char [OF c(1) nz] c(2) by simp
    next
      case f: False
      then show ?thesis using bad [OF False s] d s False assms by (simp add: utf8_next_def)
    qed
  qed
qed

lemma utf8_chars_text:
  "\<forall>cp \<in> set cps. scalar cp \<and> cp \<noteq> 0 \<Longrightarrow> utf8_chars (utf8_text cps @ 0 # rest) = Some cps"
proof (induction cps)
  case Nil
  then show ?case by (simp add: utf8_chars.simps utf8_next_def)
next
  case (Cons cp cps)
  then have "utf8_next (utf8_text (cp # cps) @ 0 # rest) = Some (cp, utf8_text cps @ 0 # rest)"
    using utf8_next_char by simp
  then show ?case using Cons by (simp add: utf8_chars.simps)
qed

lemma utf8_chars_total:
  "0 \<in> set s \<Longrightarrow> \<exists>cps. utf8_chars s = Some cps"
proof (induction s rule: utf8_chars.induct)
  case (1 s)
  from 1(2) show ?case
  proof (cases rule: utf8_next_cases)
    case (stop t)
    then show ?thesis by (simp add: utf8_chars.simps)
  next
    case (char cp t)
    then show ?thesis using 1(1) [OF char(5) refl] by (simp add: utf8_chars.simps)
  next
    case (bad b t)
    then show ?thesis using 1(1) [OF bad(4) refl] by (simp add: utf8_chars.simps UTF8_REPLACEMENT_def)
  qed
qed

text \<open>The loops in terms of the characters.\<close>

lemma utf8_length_chars: "utf8_length s = map_option length (utf8_chars s)"
proof (induction s rule: utf8_length.induct)
  case (1 s)
  then show ?case
    by (auto simp: utf8_length.simps [of s] utf8_chars.simps [of s] option.map_comp comp_def split: option.splits)
qed

definition latin1_of :: "u8 \<Rightarrow> nat \<Rightarrow> u8" where
  "latin1_of unknown cp = (if cp \<le> 255 then of_nat cp else unknown)"

lemma utf8_to_latin1_loop_chars:
  "utf8_chars src = Some cps \<Longrightarrow> sz \<le> length dst \<Longrightarrow>
   utf8_to_latin1_loop dst sz unknown len src =
     Some (let w = take (sz - 1 - len) (map (latin1_of unknown) cps)
           in take len dst @ w @ drop (len + length w) dst, len + length cps)"
proof (induction dst sz unknown len src arbitrary: cps rule: utf8_to_latin1_loop.induct)
  case (1 dst sz unknown len src)
  note cs = 1(2) [unfolded utf8_chars.simps [of src]]
  obtain cp src' where n: "utf8_next src = Some (cp, src')" using cs by (cases "utf8_next src") auto
  show ?case
  proof (cases "cp = 0")
    case True
    then show ?thesis using n cs by (auto simp: utf8_to_latin1_loop.simps [of _ _ _ _ src])
  next
    case False
    then obtain cps' where c: "utf8_chars src' = Some cps'" "cps = cp # cps'" using cs n by auto
    show ?thesis
    proof (cases "len + 1 < sz")
      case True
      let ?dst = "dst[len := latin1_of unknown cp]"
      have l: "len < length dst" using True 1(3) by simp
      have e: "take (Suc len) ?dst = take len dst @ [latin1_of unknown cp]"
        "drop (Suc (len + n)) ?dst = drop (Suc (len + n)) dst" for n
        using l by (simp_all add: take_Suc_conv_app_nth)
      have m: "(if len + 1 < sz then mem_set dst len (if cp \<le> 0xFF then of_nat cp else unknown) else Some dst) = Some ?dst"
        using True l by (simp add: latin1_of_def)
      have "utf8_to_latin1_loop dst sz unknown len src = utf8_to_latin1_loop ?dst sz unknown (len + 1) src'"
        using n False m by (simp add: utf8_to_latin1_loop.simps [of _ _ _ _ src])
      also have "\<dots> = Some (let w = take (sz - 1 - (len + 1)) (map (latin1_of unknown) cps')
           in take (len + 1) ?dst @ w @ drop (len + 1 + length w) ?dst, len + 1 + length cps')"
        using 1(1) [OF n refl False m] c(1) 1(3) by simp
      finally show ?thesis using True c(2) e by (simp add: Let_def Suc_diff_Suc [symmetric] take_Cons')
    next
      case nf: False
      then have "utf8_to_latin1_loop dst sz unknown len src = utf8_to_latin1_loop dst sz unknown (len + 1) src'"
        using n False by (simp add: utf8_to_latin1_loop.simps [of _ _ _ _ src])
      also have "\<dots> = Some (dst, len + 1 + length cps')"
        using 1(1) [OF n refl False, of dst] nf c(1) 1(3) by (simp add: Let_def)
      finally show ?thesis using nf c(2) by (simp add: Let_def)
    qed
  qed
qed

lemma utf8_to_latin1_chars:
  assumes "utf8_chars src = Some cps" "sz \<le> length dst"
  shows "utf8_to_latin1 dst sz src unknown =
     Some (if 0 < sz then take (sz - 1) (map (latin1_of unknown) cps) @ 0 # drop (Suc (min (length cps) (sz - 1))) dst else dst,
           length cps)"
proof -
  define w where "w = take (sz - 1) (map (latin1_of unknown) cps)"
  have w: "length w = min (length cps) (sz - 1)" by (simp add: w_def min.commute)
  have l: "utf8_to_latin1_loop dst sz unknown 0 src = Some (w @ drop (length w) dst, length cps)"
    using utf8_to_latin1_loop_chars [OF assms, of unknown 0] by (simp add: w_def Let_def)
  show ?thesis
  proof (cases "0 < sz")
    case True
    have i: "(if length cps < sz then length cps else sz - 1) = length w" using True w by auto
    have lt: "length w < length dst" using True w assms(2) by auto
    then have "(w @ drop (length w) dst)[length w := 0] = w @ 0 # drop (Suc (length w)) dst"
      by (simp add: list_update_append Cons_nth_drop_Suc [symmetric])
    then show ?thesis using l True i lt w unfolding w_def [symmetric] by (simp add: utf8_to_latin1_def)
  next
    case False
    then show ?thesis using l by (simp add: utf8_to_latin1_def w_def)
  qed
qed

text \<open>The characters \<open>latin1_to_utf8\<close> writes: as many as leave room for the terminator.\<close>

definition latin1_text :: "u8 list \<Rightarrow> u8 list" where
  "latin1_text cs = utf8_text (map unat cs)"

fun latin1_fit :: "nat \<Rightarrow> u8 list \<Rightarrow> u8 list" where
  "latin1_fit room [] = []"
| "latin1_fit room (c # cs) =
     (if utf8_width (unat c) < room then c # latin1_fit (room - utf8_width (unat c)) cs else [])"

lemma latin1_text_simps [simp]:
  "latin1_text [] = []" "latin1_text (c # cs) = utf8_encode (unat c) @ latin1_text cs"
  by (simp_all add: latin1_text_def)

lemma latin1_fit_prefix: "\<exists>more. cs = latin1_fit room cs @ more"
  by (induction room cs rule: latin1_fit.induct) auto

lemma latin1_fit_room: "0 < room \<Longrightarrow> length (latin1_text (latin1_fit room cs)) < room"
  by (induction room cs rule: latin1_fit.induct) auto

lemma latin1_fit_all: "length (latin1_text cs) < room \<Longrightarrow> latin1_fit room cs = cs"
  by (induction room cs rule: latin1_fit.induct) auto

lemma latin1_fit_next:
  "cs = latin1_fit room cs @ c # cs' \<Longrightarrow> room \<le> length (latin1_text (latin1_fit room cs)) + utf8_width (unat c)"
  by (induction room cs rule: latin1_fit.induct) (auto split: if_splits)

lemma latin1_loop_full:
  "0 \<notin> set cs \<Longrightarrow> latin1_to_utf8_loop dst sz len True (cs @ 0 # rest) = Some (dst, len + length (latin1_text cs), True)"
  by (induction cs arbitrary: len) (auto simp: Let_def)

lemma latin1_loop_fit:
  assumes "0 \<notin> set cs" "sz \<le> length dst" "len < sz \<or> sz = 0"
  shows "latin1_to_utf8_loop dst sz len False (cs @ 0 # rest) =
    (let f = latin1_fit (sz - len) cs; n = len + length (latin1_text f)
     in Some (take len dst @ latin1_text f @ (if f = cs \<or> sz = 0 then drop n dst else 0 # drop (Suc n) dst),
              len + length (latin1_text cs), f \<noteq> cs))"
  using assms
proof (induction cs arbitrary: dst len)
  case Nil
  then show ?case by simp
next
  case (Cons c cs)
  let ?n = "utf8_width (unat c)" and ?e = "utf8_encode (unat c)"
  show ?case
  proof (cases "len + ?n < sz")
    case True
    define d where "d = take len dst @ ?e @ drop (len + ?n) dst"
    have put: "mem_put dst len ?e = Some d" using True Cons.prems(2) mem_put_prefix [of len dst ?e] by (simp add: d_def)
    have l: "length d = length dst" using True Cons.prems(2) by (simp add: d_def)
    have td: "take (len + ?n) d = take len dst @ ?e"
      using True Cons.prems(2) by (simp add: d_def)
    have dd: "drop m d = drop m dst" if "len + ?n \<le> m" for m
      using True Cons.prems(2) that by (simp add: d_def)
    have "latin1_to_utf8_loop dst sz len False ((c # cs) @ 0 # rest) = latin1_to_utf8_loop d sz (len + ?n) False (cs @ 0 # rest)"
      using True put Cons.prems(1) by (simp add: Let_def)
    moreover have p: "0 \<notin> set cs" "sz \<le> length d" "len + ?n < sz \<or> sz = 0" using Cons.prems True l by simp_all
    have "latin1_to_utf8_loop d sz (len + ?n) False (cs @ 0 # rest) = (let f = latin1_fit (sz - (len + ?n)) cs; n = len + ?n + length (latin1_text f)
      in Some (take len dst @ ?e @ latin1_text f @ (if f = cs \<or> sz = 0 then drop n d else 0 # drop (Suc n) d),
               len + ?n + length (latin1_text cs), f \<noteq> cs))"
      unfolding Cons.IH [OF p] td Let_def by simp
    moreover have "?n < sz - len" using True by linarith
    ultimately show ?thesis by (simp add: Let_def dd add.assoc del: latin1_to_utf8_loop.simps)
  next
    case False
    define d where "d = (if 0 < sz then dst[len := 0] else dst)"
    have put: "(if 0 < sz then mem_set dst len 0 else Some dst) = Some d" using Cons.prems(2,3) by (auto simp: d_def)
    have "latin1_to_utf8_loop dst sz len False ((c # cs) @ 0 # rest) = latin1_to_utf8_loop d sz (len + ?n) True (cs @ 0 # rest)"
      using False put Cons.prems(1) by (simp add: Let_def)
    also have "\<dots> = Some (d, len + ?n + length (latin1_text cs), True)" using Cons.prems(1) by (intro latin1_loop_full) simp
    moreover have "latin1_fit (sz - len) (c # cs) = []" using False Cons.prems(3) by auto
    moreover have "d = take len dst @ (if sz = 0 then drop len dst else 0 # drop (Suc len) dst)"
      using Cons.prems(2,3) by (auto simp: d_def upd_conv_take_nth_drop)
    ultimately show ?thesis by (simp add: Let_def)
  qed
qed

lemma latin1_to_utf8_fit:
  assumes "0 \<notin> set cs" "sz \<le> length dst" "f = latin1_fit sz cs"
  shows "latin1_to_utf8 dst sz (cs @ 0 # rest) =
    Some (if 0 < sz then latin1_text f @ 0 # drop (Suc (length (latin1_text f))) dst else dst, length (latin1_text cs))"
proof -
  note l = latin1_loop_fit [OF assms(1,2), of 0 rest, folded assms(3), simplified, folded assms(3)]
  have "length (latin1_text f) < length dst" if "0 < sz"
    using latin1_fit_room [OF that, of cs] assms(2,3) by simp
  moreover have "sz = 0 \<Longrightarrow> f = []" using assms(3) by (cases cs) auto
  ultimately show ?thesis using l
    by (auto simp: latin1_to_utf8_def Let_def list_update_append Cons_nth_drop_Suc [symmetric])
qed

text \<open>
  A terminated text read as characters, without the decoder: an encoding of a scalar value is that value,
  a byte at which no encoding begins is the replacement character.
\<close>

inductive utf8_reads :: "u8 list \<Rightarrow> nat list \<Rightarrow> bool" where
  nothing: "utf8_reads [] []"
| char: "scalar cp \<Longrightarrow> cp \<noteq> 0 \<Longrightarrow> utf8_reads t cps \<Longrightarrow> utf8_reads (utf8_encode cp @ t) (cp # cps)"
| malformed: "b \<noteq> 0 \<Longrightarrow> \<nexists>cp r. scalar cp \<and> cp \<noteq> 0 \<and> b # t = utf8_encode cp @ r \<Longrightarrow> utf8_reads t cps \<Longrightarrow>
    utf8_reads (b # t) (UTF8_REPLACEMENT # cps)"

lemma encode_prefix_body:
  assumes "scalar cp" "cp \<noteq> 0" "s @ 0 # rest = utf8_encode cp @ r"
  shows "\<exists>r'. s = utf8_encode cp @ r'"
proof -
  obtain us where "s = utf8_encode cp @ us \<and> us @ 0 # rest = r \<or> s @ us = utf8_encode cp \<and> 0 # rest = us @ r"
    using assms(3) by (auto simp: append_eq_append_conv2)
  then show ?thesis
  proof
    assume a: "s @ us = utf8_encode cp \<and> 0 # rest = us @ r"
    have "0 \<notin> set us" using utf8_encode_nonzero [OF assms(1,2)] a by (metis UnCI set_append)
    then have "us = []" using a by (cases us) auto
    then show ?thesis using a by auto
  qed blast
qed

lemma utf8_next_malformed:
  assumes "0 \<notin> set (b # t)" "\<nexists>cp r. scalar cp \<and> cp \<noteq> 0 \<and> b # t = utf8_encode cp @ r"
  shows "utf8_next ((b # t) @ 0 # rest) = Some (UTF8_REPLACEMENT, t @ 0 # rest)"
proof -
  have "0 \<in> set ((b # t) @ 0 # rest)" by simp
  then show ?thesis
  proof (cases rule: utf8_next_cases)
    case (char cp r)
    then show ?thesis using encode_prefix_body [OF char(1,2), of "b # t" rest r] assms(2) by auto
  qed (use assms(1) in auto)
qed

lemma utf8_reads_chars:
  "utf8_reads s cps \<Longrightarrow> 0 \<notin> set s \<Longrightarrow> utf8_chars (s @ 0 # rest) = Some cps"
proof (induction rule: utf8_reads.induct)
  case nothing
  then show ?case by (simp add: utf8_chars.simps utf8_next_def)
next
  case (char cp t cps)
  then show ?case using utf8_next_char [OF char(1,2), of "t @ 0 # rest"] by (simp add: utf8_chars.simps [of "utf8_encode cp @ _"])
next
  case (malformed b t cps)
  then show ?case using utf8_next_malformed [OF malformed(5,2), of rest]
    by (simp add: utf8_chars.simps [of "b # _"] UTF8_REPLACEMENT_def)
qed

lemma utf8_reads_ex: "0 \<notin> set s \<Longrightarrow> \<exists>cps. utf8_reads s cps"
proof (induction s rule: length_induct)
  case (1 s)
  show ?case
  proof (cases s)
    case Nil
    then show ?thesis using utf8_reads.nothing by blast
  next
    case (Cons b t)
    show ?thesis
    proof (cases "\<exists>cp r. scalar cp \<and> cp \<noteq> 0 \<and> s = utf8_encode cp @ r")
      case True
      then obtain cp r where c: "scalar cp" "cp \<noteq> 0" "s = utf8_encode cp @ r" by blast
      then have "length r < length s" "0 \<notin> set r" using 1(2) utf8_width_range [OF c(1)] by auto
      then show ?thesis using 1(1) utf8_reads.char [OF c(1,2)] c(3) by blast
    next
      case False
      have "length t < length s" "0 \<notin> set t" "b \<noteq> 0" using 1(2) Cons by auto
      then show ?thesis using 1(1) utf8_reads.malformed [of b t] False Cons by blast
    qed
  qed
qed

text \<open>A destination of \<open>sz\<close> bytes after a string was copied to it, cut to leave room for its terminator.\<close>

definition cut_copy :: "u8 list \<Rightarrow> nat \<Rightarrow> u8 list \<Rightarrow> u8 list" where
  "cut_copy d sz w = (if 0 < sz then take (sz - 1) w @ 0 # drop (Suc (min (length w) (sz - 1))) d else d)"

section \<open>Validity\<close>

lemma utf8_valid_text:
  "\<forall>cp \<in> set cps. scalar cp \<Longrightarrow> utf8_valid (utf8_text cps @ rest) (length (utf8_text cps)) = Some True"
proof (induction cps)
  case Nil
  then show ?case by (simp add: utf8_valid.simps)
next
  case (Cons cp cps)
  let ?n = "length (utf8_text (cp # cps))"
  note w = utf8_width_range [of cp]
  have "utf8_decode (utf8_text (cp # cps) @ rest) ?n = Some (int (utf8_width cp), Some cp)"
    using utf8_decode_exact [of "utf8_text (cp # cps) @ rest" ?n "int (utf8_width cp)" "Some cp"] Cons.prems w by auto
  moreover have "drop (utf8_width cp) (utf8_text (cp # cps) @ rest) = utf8_text cps @ rest"
    using length_utf8_encode [of cp] by (metis append.assoc append_eq_conv_conj utf8_text_simps(2))
  ultimately show ?case using Cons w by (simp add: utf8_valid.simps [of "_ @ _"])
qed

lemma utf8_valid_sound:
  "utf8_valid s n = Some True \<Longrightarrow> n \<le> length s \<Longrightarrow> \<exists>cps. (\<forall>cp \<in> set cps. scalar cp) \<and> take n s = utf8_text cps"
proof (induction s n rule: utf8_valid.induct)
  case (1 s n)
  show ?case
  proof (cases "n = 0")
    case True
    then show ?thesis by (intro exI [of _ "[]"]) simp
  next
    case False
    then obtain k out where d: "utf8_decode s n = Some (k, out)" "\<not> k < 0" and
      v: "utf8_valid (drop (nat k) s) (n - nat k) = Some True"
      using 1(2) by (auto simp: utf8_valid.simps [of s] split: option.splits if_splits)
    then obtain cp rest where c: "scalar cp" "utf8_width cp \<le> n" "s = utf8_encode cp @ rest" "k = int (utf8_width cp)"
      using utf8_decode_exact [of s n k out] utf8_decode_progress [OF d(1) False] by auto
    have "drop (nat k) s = rest" using c(3,4) length_utf8_encode [of cp] by simp
    moreover have "n - nat k \<le> length (drop (nat k) s)" using 1(3) by simp
    then obtain cps where "\<forall>cp \<in> set cps. scalar cp" "take (n - nat k) (drop (nat k) s) = utf8_text cps"
      using 1(1) [OF False d(1) refl d(2) v] by blast
    moreover have "take n s = utf8_encode cp @ take (n - nat k) rest" using c by simp
    ultimately show ?thesis using c(1) by (intro exI [of _ "cp # cps"]) simp
  qed
qed

lemma utf8_valid_total: "n \<le> length s \<Longrightarrow> utf8_valid s n \<noteq> None"
proof (induction s n rule: utf8_valid.induct)
  case (1 s n)
  show ?case
  proof (cases "n = 0")
    case False
    obtain k out where d: "utf8_decode s n = Some (k, out)"
      using decode_loop_total [of "min n UTF8_MAX" s mb_start 0] 1(2) False by (auto simp: utf8_decode_def min_le_iff_disj)
    then show ?thesis using 1(1) [OF False d refl] 1(2) False by (auto simp: utf8_valid.simps [of s])
  qed (simp add: utf8_valid.simps)
qed

section \<open>The main properties\<close>

text \<open>
  C20: \<open>utf8_decode\<close> accepts exactly what \<open>utf8_encode\<close> produces: it returns a positive count when the string begins with
  the encoding of a Unicode scalar value that fits in the \<open>n\<close> bytes, the count is the width of that encoding and
  the character is that value. Overlong forms, surrogates and values above U+10FFFF are never accepted.
\<close>

theorem utf8_decode_encode:
  "(utf8_decode s n = Some (m, out) \<and> 0 < m) \<longleftrightarrow>
   (\<exists>cp rest. scalar cp \<and> utf8_width cp \<le> n \<and> s = utf8_encode cp @ rest \<and> m = int (utf8_width cp) \<and> out = Some cp)"
  by (rule utf8_decode_exact)

text \<open>
  C21: \<open>utf8_valid\<close> on \<open>n\<close> bytes of a buffer never reads past them, returns, and answers yes exactly when they are the
  encodings of a sequence of scalar values.
\<close>

theorem utf8_valid_iff:
  assumes "n \<le> length s"
  shows "utf8_valid s n = Some (\<exists>cps. (\<forall>cp \<in> set cps. scalar cp) \<and> take n s = utf8_text cps)"
proof -
  obtain v where v: "utf8_valid s n = Some v" using utf8_valid_total [OF assms] by auto
  show ?thesis
  proof (cases v)
    case True
    then show ?thesis using utf8_valid_sound assms v by simp
  next
    case False
    have "\<nexists>cps. (\<forall>cp \<in> set cps. scalar cp) \<and> take n s = utf8_text cps"
    proof
      assume "\<exists>cps. (\<forall>cp \<in> set cps. scalar cp) \<and> take n s = utf8_text cps"
      then obtain cps where c: "\<forall>cp \<in> set cps. scalar cp" "take n s = utf8_text cps" by blast
      have "s = utf8_text cps @ drop n s" using c(2) by (metis append_take_drop_id)
      moreover have "length (utf8_text cps) = n" using c(2) assms by (metis length_take min.absorb2)
      ultimately show False using utf8_valid_text [OF c(1), of "drop n s"] v False by simp
    qed
    then show ?thesis using v False by simp
  qed
qed

lemma utf8_valid_iff_witness:
  "utf8_valid [0xC3, 0xA9, 0x41] 3 = Some (\<exists>cps. (\<forall>cp \<in> set cps. scalar cp) \<and> take 3 [0xC3, 0xA9, 0x41 :: u8] = utf8_text cps)"
  by (rule utf8_valid_iff) simp

text \<open>
  C22: On any text the two conversions store nothing outside the \<open>size\<close> bytes they were given and return the
  length the whole conversion takes. \<open>latin1_to_utf8\<close> writes the encodings of as many characters as leave room
  for the terminator, never a part of one, and what it wrote is read back by \<open>utf8_to_latin1\<close> as those
  characters. \<open>utf8_to_latin1\<close> on any bytes copies one byte for each character they are read as, \<open>unknown\<close> for
  one above U+00FF, a byte that begins no encoding being the replacement character, and cuts the copy to
  its buffer.
\<close>

theorem latin1_roundtrip:
  assumes "0 \<notin> set cs" "0 \<notin> set s" "sz1 \<le> length d1" "sz2 \<le> length d2"
  shows "(\<exists>f more u. cs = f @ more \<and> latin1_to_utf8 d1 sz1 (cs @ 0 # rest) = Some (u, length (latin1_text cs)) \<and>
     (0 < sz1 \<longrightarrow> length (latin1_text f) < sz1) \<and>
     (more \<noteq> [] \<longrightarrow> sz1 \<le> length (latin1_text f) + utf8_width (unat (hd more))) \<and>
     u = (if 0 < sz1 then latin1_text f @ 0 # drop (Suc (length (latin1_text f))) d1 else d1) \<and>
     (0 < sz1 \<longrightarrow> utf8_length u = Some (length f) \<and>
       utf8_to_latin1 d2 sz2 u unknown = Some (cut_copy d2 sz2 f, length f))) \<and>
   (\<exists>cps. (\<forall>c. utf8_reads s c \<longleftrightarrow> c = cps) \<and> utf8_length (s @ 0 # rest) = Some (length cps) \<and>
     utf8_to_latin1 d2 sz2 (s @ 0 # rest) unknown = Some (cut_copy d2 sz2 (map (latin1_of unknown) cps), length cps))"
proof
  define f where "f = latin1_fit sz1 cs"
  define u where "u = (if 0 < sz1 then latin1_text f @ 0 # drop (Suc (length (latin1_text f))) d1 else d1)"
  obtain more where more: "cs = f @ more" using latin1_fit_prefix [of cs sz1] by (auto simp: f_def)
  have to: "latin1_to_utf8 d1 sz1 (cs @ 0 # rest) = Some (u, length (latin1_text cs))"
    using latin1_to_utf8_fit [OF assms(1,3) f_def, of rest] by (simp add: u_def)
  have nxt: "sz1 \<le> length (latin1_text f) + utf8_width (unat (hd more))" if "more \<noteq> []"
  proof -
    have "cs = f @ hd more # tl more" using more that by (metis list.collapse)
    then show ?thesis unfolding f_def by (rule latin1_fit_next)
  qed
  have "\<forall>cp \<in> set (map unat f). scalar cp \<and> cp \<noteq> 0"
  proof
    fix cp assume "cp \<in> set (map unat f)"
    then obtain c where c: "c \<in> set f" "cp = unat c" by auto
    then have "c \<noteq> 0" using assms(1) more by auto
    then show "scalar cp \<and> cp \<noteq> 0" using c(2) unat_u8_less [of c] by (simp add: scalar_def unsigned_eq_0_iff del: unat_u8_less)
  qed
  then have ch: "utf8_chars u = Some (map unat f)" if "0 < sz1"
    using utf8_chars_text [of "map unat f" "drop (Suc (length (latin1_text f))) d1"] that by (simp add: u_def latin1_text_def)
  have id: "map (latin1_of unknown) (map unat f) = f" by (simp add: comp_def latin1_of_def unat_u8_le)
  have rdb: "utf8_length u = Some (length f) \<and> utf8_to_latin1 d2 sz2 u unknown = Some (cut_copy d2 sz2 f, length f)"
    if "0 < sz1"
    using utf8_to_latin1_chars [OF ch [OF that] assms(4), of unknown, unfolded id length_map] ch [OF that]
    by (simp add: utf8_length_chars cut_copy_def del: map_map)
  show "\<exists>f more u. cs = f @ more \<and> latin1_to_utf8 d1 sz1 (cs @ 0 # rest) = Some (u, length (latin1_text cs)) \<and>
     (0 < sz1 \<longrightarrow> length (latin1_text f) < sz1) \<and>
     (more \<noteq> [] \<longrightarrow> sz1 \<le> length (latin1_text f) + utf8_width (unat (hd more))) \<and>
     u = (if 0 < sz1 then latin1_text f @ 0 # drop (Suc (length (latin1_text f))) d1 else d1) \<and>
     (0 < sz1 \<longrightarrow> utf8_length u = Some (length f) \<and>
       utf8_to_latin1 d2 sz2 u unknown = Some (cut_copy d2 sz2 f, length f))"
    using more to nxt rdb latin1_fit_room [of sz1 cs, folded f_def] u_def by blast
  obtain cps where r: "utf8_reads s cps" using utf8_reads_ex [OF assms(2)] by blast
  have un: "utf8_reads s c \<longleftrightarrow> c = cps" for c
    using r utf8_reads_chars [OF r assms(2), of rest] utf8_reads_chars [OF _ assms(2), of c rest] by auto
  show "\<exists>cps. (\<forall>c. utf8_reads s c \<longleftrightarrow> c = cps) \<and> utf8_length (s @ 0 # rest) = Some (length cps) \<and>
     utf8_to_latin1 d2 sz2 (s @ 0 # rest) unknown = Some (cut_copy d2 sz2 (map (latin1_of unknown) cps), length cps)"
    using un utf8_reads_chars [OF r assms(2), of rest] utf8_to_latin1_chars [OF _ assms(4), of "s @ 0 # rest" cps unknown]
    by (intro exI [of _ cps]) (simp add: utf8_length_chars cut_copy_def)
qed

lemma latin1_roundtrip_witness:
  "\<exists>f more u. [0xE9, 0x41] = f @ more \<and> latin1_to_utf8 [9, 9, 9] 3 ([0xE9, 0x41] @ 0 # []) = Some (u, length (latin1_text [0xE9, 0x41])) \<and>
     length (latin1_text f) < 3 \<and> (more \<noteq> [] \<longrightarrow> 3 \<le> length (latin1_text f) + utf8_width (unat (hd more)))"
  using latin1_roundtrip [of "[0xE9, 0x41]" "[0xFF, 0x41]" 3 "[9, 9, 9]" 2 "[7, 7]" "[]" 63] by auto

end
