(* ===== verification/Fs_Vol.thy ===== *)
theory Fs_Vol
  imports Prelude Bits
begin

text \<open>
  CeresFS (\<open>src/ceres/fs.c\<close>), the part below open files and paths: the block device a volume lies on
  (\<open>ceres/blockdev.h\<close>), the FAT and directory sectors with their one-sector caches, clusters and directory
  entries. A sector is its 512 bytes; an \<open>unsigned int\<close> is a number below 2^32, its sums and products written
  with the wrap-around. What lies outside the library, the device behind a \<open>struct blockdev\<close> and the clock, are
  functions on a state \<open>'m\<close> of the machine, about which nothing is assumed here: a transfer may fail and leave any bytes.
\<close>

section \<open>Block devices\<close>

definition BLOCKDEV_SECTOR :: nat where "BLOCKDEV_SECTOR = 512"

text \<open>
  The functions of the structure with its \<open>ctx\<close> inside. A read gets the buffer it fills and returns what it
  then holds.
\<close>

record 'm blockdev =
  bd_read :: "'m \<Rightarrow> nat \<Rightarrow> u8 list \<Rightarrow> int \<times> u8 list \<times> 'm"
  bd_write :: "'m \<Rightarrow> nat \<Rightarrow> u8 list \<Rightarrow> int \<times> 'm"
  bd_sectors :: "'m \<Rightarrow> nat"
  bd_flush :: "('m \<Rightarrow> int \<times> 'm) option"
  bd_read_only :: bool

section \<open>The state of a volume\<close>

definition FAT_FREE :: nat where "FAT_FREE = 0"
definition FAT_END :: nat where "FAT_END = 0xFFFF"
definition MAX_CLUSTERS :: nat where "MAX_CLUSTERS = 65534"
definition MAGIC_V1 :: nat where "MAGIC_V1 = 0x31534643"
definition MAGIC_V2 :: nat where "MAGIC_V2 = 0x32534643"
definition E_USED :: nat where "E_USED = 1"
definition E_DIR :: nat where "E_DIR = 2"
definition MAX_PARTS :: nat where "MAX_PARTS = 32"

text \<open>The codes of \<open>errno.h\<close> the file system sets; \<open>E0\<close> is none of them.\<close>

datatype errno_code = E0 | ENOENT | EIO | EBADF | ENOMEM | EBUSY | EEXIST | EXDEV | ENODEV | ENOTDIR | EISDIR | EINVAL
  | ENFILE | EMFILE | ENOSPC | EROFS | ENAMETOOLONG | ENOTEMPTY | ENOTSUP

text \<open>What every operation shares: the machine with its devices, \<open>errno\<close>, and the clock of \<open>timer_clock\<close>.\<close>

record 'm env =
  mach :: 'm
  errno :: errno_code
  rtc :: "'m \<Rightarrow> nat \<times> 'm"

text \<open>A directory entry in memory. The name is the array of 48 bytes, what follows its terminator included.\<close>

record entry =
  en_name :: "u8 list"
  en_first :: nat
  en_size :: nat
  en_mtime :: nat
  en_flags :: nat

definition zero_entry :: entry where
  "zero_entry = \<lparr>en_name = replicate 48 0, en_first = 0, en_size = 0, en_mtime = 0, en_flags = 0\<rparr>"

text \<open>\<open>fat_no\<close> is \<open>None\<close> for -1. The buffers are read and written as bytes.\<close>

record 'm volume =
  v_point :: "u8 list"
  v_dev :: "'m blockdev"
  v_mounted :: bool
  v_version :: nat
  v_fat_start :: nat
  v_fat_sectors :: nat
  v_dir_start :: nat
  v_dir_sectors :: nat
  v_data_start :: nat
  v_clusters :: nat
  v_fat_buf :: "u8 list"
  v_fat_no :: "nat option"
  v_fat_dirty :: bool
  v_dir_buf :: "u8 list"
  v_dir_sec :: nat
  v_dir_dirty :: bool
  v_free_hint :: nat
  v_free_cache :: nat
  v_free_cache_valid :: bool
  v_io_bad :: bool

section \<open>The device, with failures remembered\<close>

definition rd :: "'m volume \<Rightarrow> 'm env \<Rightarrow> nat \<Rightarrow> u8 list \<Rightarrow> u8 list \<times> 'm volume \<times> 'm env" where
  "rd v e sector buf =
     (case bd_read (v_dev v) (mach e) sector buf of
        (r, buf, m) \<Rightarrow> (buf, if r \<noteq> 0 then v\<lparr>v_io_bad := True\<rparr> else v, e\<lparr>mach := m\<rparr>))"

definition wr :: "'m volume \<Rightarrow> 'm env \<Rightarrow> nat \<Rightarrow> u8 list \<Rightarrow> 'm volume \<times> 'm env" where
  "wr v e sector buf =
     (if bd_read_only (v_dev v) then (v\<lparr>v_io_bad := True\<rparr>, e)
      else case bd_write (v_dev v) (mach e) sector buf of
        (r, m) \<Rightarrow> (if r \<noteq> 0 then v\<lparr>v_io_bad := True\<rparr> else v, e\<lparr>mach := m\<rparr>))"

definition dev_flush :: "'m volume \<Rightarrow> 'm env \<Rightarrow> 'm volume \<times> 'm env" where
  "dev_flush v e =
     (case bd_flush (v_dev v) of
        None \<Rightarrow> (v, e)
      | Some f \<Rightarrow>
          if bd_read_only (v_dev v) then (v, e)
          else case f (mach e) of (r, m) \<Rightarrow> (if r \<noteq> 0 then v\<lparr>v_io_bad := True\<rparr> else v, e\<lparr>mach := m\<rparr>))"

text \<open>The end of a public operation on a volume.\<close>

definition fs_done :: "'m volume \<Rightarrow> 'm env \<Rightarrow> int \<Rightarrow> int \<times> 'm volume \<times> 'm env" where
  "fs_done v e result =
     (if v_io_bad v then (-1, v\<lparr>v_io_bad := False\<rparr>, e\<lparr>errno := EIO\<rparr>) else (result, v, e))"

definition now :: "'m env \<Rightarrow> nat \<times> 'm env" where
  "now e = (case rtc e (mach e) of (t, m) \<Rightarrow> (t, e\<lparr>mach := m\<rparr>))"

section \<open>The FAT\<close>

definition fat_flush :: "'m volume \<Rightarrow> 'm env \<Rightarrow> 'm volume \<times> 'm env" where
  "fat_flush v e =
     (case (case v_fat_no v of
              Some k \<Rightarrow> if v_fat_dirty v then wr v e (add32 (v_fat_start v) k) (v_fat_buf v) else (v, e)
            | None \<Rightarrow> (v, e)) of
        (v, e) \<Rightarrow> (v\<lparr>v_fat_dirty := False\<rparr>, e))"

definition fat_load :: "'m volume \<Rightarrow> 'm env \<Rightarrow> nat \<Rightarrow> 'm volume \<times> 'm env" where
  "fat_load v e sec =
     (if v_fat_no v = Some sec then (v, e)
      else case fat_flush v e of
        (v, e) \<Rightarrow> (case rd v e (add32 (v_fat_start v) sec) (v_fat_buf v) of
          (buf, v, e) \<Rightarrow> (v\<lparr>v_fat_buf := buf, v_fat_no := Some sec\<rparr>, e)))"

definition fat_get :: "'m volume \<Rightarrow> 'm env \<Rightarrow> nat \<Rightarrow> nat \<times> 'm volume \<times> 'm env" where
  "fat_get v e c =
     (case fat_load v e (mul32 c 2 div BLOCKDEV_SECTOR) of
        (v, e) \<Rightarrow>
          let b = v_fat_buf v; at = mul32 c 2 mod BLOCKDEV_SECTOR
          in (unat (b ! at) OR push_bit 8 (unat (b ! (at + 1))), v, e))"

definition fat_set :: "'m volume \<Rightarrow> 'm env \<Rightarrow> nat \<Rightarrow> nat \<Rightarrow> 'm volume \<times> 'm env" where
  "fat_set v e c val =
     (case fat_load v e (mul32 c 2 div BLOCKDEV_SECTOR) of
        (v, e) \<Rightarrow>
          let b = v_fat_buf v; at = mul32 c 2 mod BLOCKDEV_SECTOR
          in (v\<lparr>v_fat_buf := b[at := of_nat (val AND 255), at + 1 := of_nat (drop_bit 8 val)],
               v_fat_dirty := True, v_free_cache_valid := False\<rparr>, e))"

text \<open>\<open>left\<close> turns of the loop remain.\<close>

fun alloc_from :: "nat \<Rightarrow> 'm volume \<Rightarrow> 'm env \<Rightarrow> nat \<Rightarrow> nat \<times> 'm volume \<times> 'm env" where
  "alloc_from 0 v e k = (0, v, e)"
| "alloc_from (Suc left) v e k =
     (let c = add32 (v_free_hint v) k mod v_clusters v + 1
      in case fat_get v e c of
        (x, v, e) \<Rightarrow>
          if x = FAT_FREE then
            case fat_set v e c FAT_END of (v, e) \<Rightarrow> (c, v\<lparr>v_free_hint := c mod v_clusters v\<rparr>, e)
          else alloc_from left v e (k + 1))"

definition alloc_cluster :: "'m volume \<Rightarrow> 'm env \<Rightarrow> nat \<times> 'm volume \<times> 'm env" where
  "alloc_cluster v e = alloc_from (v_clusters v) v e 0"

fun free_from :: "nat \<Rightarrow> 'm volume \<Rightarrow> 'm env \<Rightarrow> nat \<Rightarrow> 'm volume \<times> 'm env" where
  "free_from 0 v e c = (v, e)"
| "free_from (Suc left) v e c =
     (if c \<noteq> 0 \<and> c \<noteq> FAT_END \<and> c \<le> v_clusters v then
        case fat_get v e c of
          (nxt, v, e) \<Rightarrow> (case fat_set v e c FAT_FREE of (v, e) \<Rightarrow> free_from left v e nxt)
      else (v, e))"

definition free_chain :: "'m volume \<Rightarrow> 'm env \<Rightarrow> nat \<Rightarrow> 'm volume \<times> 'm env" where
  "free_chain v e first = free_from (v_clusters v) v e first"

fun count_from :: "nat \<Rightarrow> 'm volume \<Rightarrow> 'm env \<Rightarrow> nat \<Rightarrow> nat \<Rightarrow> nat \<times> 'm volume \<times> 'm env" where
  "count_from 0 v e c n = (n, v, e)"
| "count_from (Suc left) v e c n =
     (case fat_get v e c of
        (x, v, e) \<Rightarrow> count_from left v e (c + 1) (if x = FAT_FREE then n + 1 else n))"

definition count_free :: "'m volume \<Rightarrow> 'm env \<Rightarrow> nat \<times> 'm volume \<times> 'm env" where
  "count_free v e =
     (if v_free_cache_valid v then (v_free_cache v, v, e)
      else case count_from (v_clusters v) v e 1 0 of
        (n, v, e) \<Rightarrow> (n, v\<lparr>v_free_cache := n, v_free_cache_valid := True\<rparr>, e))"

definition cluster_sector :: "'m volume \<Rightarrow> nat \<Rightarrow> nat" where
  "cluster_sector v c = sub32 (add32 (v_data_start v) c) 1"

section \<open>Directories\<close>

definition entry_size :: "'m volume \<Rightarrow> nat" where
  "entry_size v = (if v_version v = 1 then 32 else 64)"

definition per_sector :: "'m volume \<Rightarrow> nat" where
  "per_sector v = BLOCKDEV_SECTOR div entry_size v"

definition dir_flush :: "'m volume \<Rightarrow> 'm env \<Rightarrow> 'm volume \<times> 'm env" where
  "dir_flush v e =
     (case (if v_dir_sec v \<noteq> 0 \<and> v_dir_dirty v then wr v e (v_dir_sec v) (v_dir_buf v) else (v, e)) of
        (v, e) \<Rightarrow> (v\<lparr>v_dir_dirty := False\<rparr>, e))"

definition dir_load :: "'m volume \<Rightarrow> 'm env \<Rightarrow> nat \<Rightarrow> 'm volume \<times> 'm env" where
  "dir_load v e sector =
     (if v_dir_sec v = sector then (v, e)
      else case dir_flush v e of
        (v, e) \<Rightarrow> (case rd v e sector (v_dir_buf v) of
          (buf, v, e) \<Rightarrow> (v\<lparr>v_dir_buf := buf, v_dir_sec := sector\<rparr>, e)))"

definition zero_sector :: "u8 list" where
  "zero_sector = replicate BLOCKDEV_SECTOR 0"

definition zero_cluster :: "'m volume \<Rightarrow> 'm env \<Rightarrow> nat \<Rightarrow> 'm volume \<times> 'm env" where
  "zero_cluster v e c =
     (let sector = cluster_sector v c; v = (if v_dir_sec v = sector then v\<lparr>v_dir_sec := 0\<rparr> else v)
      in wr v e sector zero_sector)"

text \<open>\<open>s\<close> links of the chain that has reached cluster \<open>c\<close> remain to be followed.\<close>

fun dir_walk :: "nat \<Rightarrow> 'm volume \<Rightarrow> 'm env \<Rightarrow> nat \<Rightarrow> bool \<Rightarrow> nat \<times> 'm volume \<times> 'm env" where
  "dir_walk 0 v e c grow = (cluster_sector v c, v, e)"
| "dir_walk (Suc s) v e c grow =
     (case fat_get v e c of
        (nxt, v, e) \<Rightarrow>
          if nxt = FAT_END then
            if \<not> grow then (0, v, e)
            else case alloc_cluster v e of
              (nxt, v, e) \<Rightarrow>
                if nxt = 0 then (0, v, e\<lparr>errno := ENOSPC\<rparr>)
                else case zero_cluster v e nxt of
                  (v, e) \<Rightarrow> (case fat_set v e c nxt of (v, e) \<Rightarrow> dir_walk s v e nxt grow)
          else if nxt = FAT_FREE \<or> v_clusters v < nxt then (0, v\<lparr>v_io_bad := True\<rparr>, e)
          else dir_walk s v e nxt grow)"

definition dir_sector :: "'m volume \<Rightarrow> 'm env \<Rightarrow> nat \<Rightarrow> nat \<Rightarrow> bool \<Rightarrow> nat \<times> 'm volume \<times> 'm env" where
  "dir_sector v e dir s grow =
     (if dir = 0 then (if s < v_dir_sectors v then add32 (v_dir_start v) s else 0, v, e)
      else dir_walk s v e dir grow)"

definition entry_decode :: "nat \<Rightarrow> u8 list \<Rightarrow> entry" where
  "entry_decode version raw =
     (if version = 1 then
        zero_entry\<lparr>en_name := (take 24 raw @ replicate 24 0)[23 := 0],
          en_first := unat (raw ! 24) OR push_bit 8 (unat (raw ! 25)),
          en_flags := (unat (raw ! 26) OR push_bit 8 (unat (raw ! 27))) AND E_USED,
          en_size := unat (le32 raw 28)\<rparr>
      else
        zero_entry\<lparr>en_name := (take 48 raw)[47 := 0],
          en_first := unat (le32 raw 48), en_size := unat (le32 raw 52),
          en_mtime := unat (le32 raw 56), en_flags := unat (le32 raw 60)\<rparr>)"

text \<open>The 32 or 64 bytes stored.\<close>

definition entry_encode :: "nat \<Rightarrow> entry \<Rightarrow> u8 list" where
  "entry_encode version en =
     (if version = 1 then
        let raw = (take 24 (en_name en) @ replicate 8 0)[23 := 0];
            raw = raw[24 := of_nat (en_first en), 25 := of_nat (drop_bit 8 (en_first en)),
                      26 := of_nat (en_flags en AND E_USED), 27 := 0]
        in put_le32 raw 28 (of_nat (en_size en))
      else
        let raw = (take 48 (en_name en) @ replicate 16 0)[47 := 0];
            raw = put_le32 raw 48 (of_nat (en_first en));
            raw = put_le32 raw 52 (of_nat (en_size en));
            raw = put_le32 raw 56 (of_nat (en_mtime en))
        in put_le32 raw 60 (of_nat (en_flags en)))"

definition entry_get :: "'m volume \<Rightarrow> 'm env \<Rightarrow> nat \<Rightarrow> nat \<Rightarrow> entry option \<times> 'm volume \<times> 'm env" where
  "entry_get v e dir index =
     (case dir_sector v e dir (index div per_sector v) False of
        (sector, v, e) \<Rightarrow>
          if sector = 0 then (None, v, e)
          else case dir_load v e sector of
            (v, e) \<Rightarrow>
              (Some (entry_decode (v_version v) (drop (index mod per_sector v * entry_size v) (v_dir_buf v))), v, e))"

definition entry_put :: "'m volume \<Rightarrow> 'm env \<Rightarrow> nat \<Rightarrow> nat \<Rightarrow> entry \<Rightarrow> 'm volume \<times> 'm env" where
  "entry_put v e dir index en =
     (case dir_sector v e dir (index div per_sector v) False of
        (sector, v, e) \<Rightarrow>
          if sector = 0 then (v, e)
          else case dir_load v e sector of
            (v, e) \<Rightarrow>
              let at = index mod per_sector v * entry_size v; raw = entry_encode (v_version v) en
              in (v\<lparr>v_dir_buf := take at (v_dir_buf v) @ raw @ drop (at + length raw) (v_dir_buf v),
                   v_dir_dirty := True\<rparr>, e))"

text \<open>The name up to its terminator, which is all \<open>strcmp\<close> reads.\<close>

definition en_str :: "entry \<Rightarrow> u8 list" where
  "en_str en = cstr_body (en_name en)"

text \<open>
  The loops over the entries of a directory end when \<open>entry_get\<close> reports its end, which a chain of clusters that
  runs in a circle never does: \<open>None\<close> is a loop that does not return.
\<close>

partial_function (option) find_from ::
  "'m volume \<Rightarrow> 'm env \<Rightarrow> nat \<Rightarrow> u8 list \<Rightarrow> nat \<Rightarrow> ((nat \<times> entry) option \<times> 'm volume \<times> 'm env) option" where
  "find_from v e dir name i =
     (case entry_get v e dir i of
        (None, v, e) \<Rightarrow> Some (None, v, e)
      | (Some en, v, e) \<Rightarrow>
          if en_flags en AND E_USED \<noteq> 0 \<and> en_str en = name then Some (Some (i, en), v, e)
          else find_from v e dir name (add32 i 1))"

definition find_in ::
  "'m volume \<Rightarrow> 'm env \<Rightarrow> nat \<Rightarrow> u8 list \<Rightarrow> ((nat \<times> entry) option \<times> 'm volume \<times> 'm env) option" where
  "find_in v e dir name = find_from v e dir name 0"

partial_function (option) free_slot_from ::
  "'m volume \<Rightarrow> 'm env \<Rightarrow> nat \<Rightarrow> nat \<Rightarrow> (nat option \<times> 'm volume \<times> 'm env) option" where
  "free_slot_from v e dir i =
     (case entry_get v e dir i of
        (Some en, v, e) \<Rightarrow>
          if en_flags en AND E_USED = 0 then Some (Some i, v, e) else free_slot_from v e dir (add32 i 1)
      | (None, v, e) \<Rightarrow>
          if dir \<noteq> 0 then
            case dir_sector v e dir (i div per_sector v) True of
              (sector, v, e) \<Rightarrow>
                Some (if sector \<noteq> 0 then (Some i, v, e) else (None, v, e\<lparr>errno := ENOSPC\<rparr>))
          else Some (None, v, e\<lparr>errno := ENOSPC\<rparr>))"

definition free_slot :: "'m volume \<Rightarrow> 'm env \<Rightarrow> nat \<Rightarrow> (nat option \<times> 'm volume \<times> 'm env) option" where
  "free_slot v e dir = free_slot_from v e dir 0"

partial_function (option) dir_empty_from ::
  "'m volume \<Rightarrow> 'm env \<Rightarrow> nat \<Rightarrow> nat \<Rightarrow> (bool \<times> 'm volume \<times> 'm env) option" where
  "dir_empty_from v e first i =
     (case entry_get v e first i of
        (None, v, e) \<Rightarrow> Some (True, v, e)
      | (Some en, v, e) \<Rightarrow>
          if en_flags en AND E_USED \<noteq> 0 then Some (False, v, e) else dir_empty_from v e first (add32 i 1))"

definition dir_empty :: "'m volume \<Rightarrow> 'm env \<Rightarrow> nat \<Rightarrow> (bool \<times> 'm volume \<times> 'm env) option" where
  "dir_empty v e first = dir_empty_from v e first 0"

end
