(* ===== verification/Fs_File.thy ===== *)
theory Fs_File
  imports Fs_Vol
begin

text \<open>
  CeresFS: open files. A file is a record of the table \<open>files\<close>; the functions on one file take it with the volume
  it lies on, and the public functions on descriptors act on the whole state: the table of volumes, the table of files and
  what they share. A pointer to a volume is its index.
\<close>

section \<open>The state\<close>

definition FS_MAX_VOLUMES :: nat where "FS_MAX_VOLUMES = 5"
definition FS_MAX_OPEN :: nat where "FS_MAX_OPEN = 8"
definition FS_O_RDONLY :: nat where "FS_O_RDONLY = 1"
definition FS_O_WRONLY :: nat where "FS_O_WRONLY = 2"
definition FS_O_CREAT :: nat where "FS_O_CREAT = 4"
definition FS_O_TRUNC :: nat where "FS_O_TRUNC = 8"
definition FS_O_APPEND :: nat where "FS_O_APPEND = 16"

record ofile =
  f_used :: bool
  f_vol :: nat
  f_flags :: nat
  f_dir :: nat
  f_index :: nat
  f_first :: nat
  f_size :: nat
  f_pos :: nat
  f_cur_index :: nat
  f_cur_cluster :: nat
  f_buf_cluster :: nat
  f_buf_dirty :: bool
  f_meta_dirty :: bool
  f_modified :: bool
  f_buf :: "u8 list"

definition zero_ofile :: ofile where
  "zero_ofile = \<lparr>f_used = False, f_vol = 0, f_flags = 0, f_dir = 0, f_index = 0, f_first = 0, f_size = 0, f_pos = 0,
     f_cur_index = 0, f_cur_cluster = 0, f_buf_cluster = 0, f_buf_dirty = False, f_meta_dirty = False,
     f_modified = False, f_buf = zero_sector\<rparr>"

record 'm fs =
  fs_volumes :: "'m volume list"
  fs_files :: "ofile list"
  fs_env :: "'m env"

definition set_errno :: "errno_code \<Rightarrow> 'm fs \<Rightarrow> 'm fs" where
  "set_errno x st = st\<lparr>fs_env := (fs_env st)\<lparr>errno := x\<rparr>\<rparr>"

text \<open>Runs a function of a volume on volume \<open>i\<close>.\<close>

definition on_vol :: "nat \<Rightarrow> 'm fs \<Rightarrow> ('m volume \<Rightarrow> 'm env \<Rightarrow> 'm volume \<times> 'm env) \<Rightarrow> 'm fs" where
  "on_vol i st g =
     (case g (fs_volumes st ! i) (fs_env st) of
        (v, e) \<Rightarrow> st\<lparr>fs_volumes := (fs_volumes st)[i := v], fs_env := e\<rparr>)"

definition ask_vol :: "nat \<Rightarrow> 'm fs \<Rightarrow> ('m volume \<Rightarrow> 'm env \<Rightarrow> 'r \<times> 'm volume \<times> 'm env) \<Rightarrow> 'r \<times> 'm fs" where
  "ask_vol i st g =
     (case g (fs_volumes st ! i) (fs_env st) of
        (r, v, e) \<Rightarrow> (r, st\<lparr>fs_volumes := (fs_volumes st)[i := v], fs_env := e\<rparr>))"

text \<open>The same for one whose loop may not return.\<close>

definition try_vol ::
  "nat \<Rightarrow> 'm fs \<Rightarrow> ('m volume \<Rightarrow> 'm env \<Rightarrow> ('r \<times> 'm volume \<times> 'm env) option) \<Rightarrow> ('r \<times> 'm fs) option" where
  "try_vol i st g =
     (case g (fs_volumes st ! i) (fs_env st) of
        None \<Rightarrow> None
      | Some (r, v, e) \<Rightarrow> Some (r, st\<lparr>fs_volumes := (fs_volumes st)[i := v], fs_env := e\<rparr>))"

section \<open>The functions of one file\<close>

definition buf_flush :: "ofile \<Rightarrow> 'm volume \<Rightarrow> 'm env \<Rightarrow> ofile \<times> 'm volume \<times> 'm env" where
  "buf_flush f v e =
     (case (if f_buf_dirty f \<and> f_buf_cluster f \<noteq> 0 then wr v e (cluster_sector v (f_buf_cluster f)) (f_buf f)
            else (v, e)) of
        (v, e) \<Rightarrow> (f\<lparr>f_buf_dirty := False\<rparr>, v, e))"

definition buf_load :: "ofile \<Rightarrow> 'm volume \<Rightarrow> 'm env \<Rightarrow> nat \<Rightarrow> bool \<Rightarrow> ofile \<times> 'm volume \<times> 'm env" where
  "buf_load f v e c fresh =
     (if f_buf_cluster f = c then (f, v, e)
      else case buf_flush f v e of
        (f, v, e) \<Rightarrow>
          if fresh then (f\<lparr>f_buf := zero_sector, f_buf_cluster := c\<rparr>, v, e)
          else case rd v e (cluster_sector v c) (f_buf f) of
            (buf, v, e) \<Rightarrow> (f\<lparr>f_buf := buf, f_buf_cluster := c\<rparr>, v, e))"

text \<open>\<open>left\<close> links remain, the chain has reached cluster \<open>c\<close> with number \<open>i\<close>.\<close>

fun locate_walk ::
  "nat \<Rightarrow> ofile \<Rightarrow> 'm volume \<Rightarrow> 'm env \<Rightarrow> nat \<Rightarrow> nat \<Rightarrow> bool \<Rightarrow> nat \<times> ofile \<times> 'm volume \<times> 'm env" where
  "locate_walk 0 f v e i c grow = (c, f\<lparr>f_cur_index := i, f_cur_cluster := c\<rparr>, v, e)"
| "locate_walk (Suc left) f v e i c grow =
     (case fat_get v e c of
        (nxt, v, e) \<Rightarrow>
          if nxt = FAT_END then
            if \<not> grow then (0, f, v, e)
            else case alloc_cluster v e of
              (nxt, v, e) \<Rightarrow>
                if nxt = 0 then (0, f, v, e\<lparr>errno := ENOSPC\<rparr>)
                else case fat_set v e c nxt of (v, e) \<Rightarrow> locate_walk left f v e (i + 1) nxt grow
          else if nxt = 0 \<or> v_clusters v < nxt then (0, f, v\<lparr>v_io_bad := True\<rparr>, e)
          else locate_walk left f v e (i + 1) nxt grow)"

definition locate_from :: "ofile \<Rightarrow> 'm volume \<Rightarrow> 'm env \<Rightarrow> nat \<Rightarrow> bool \<Rightarrow> nat \<times> ofile \<times> 'm volume \<times> 'm env" where
  "locate_from f v e index grow =
     (if f_cur_cluster f \<noteq> 0 \<and> f_cur_index f \<le> index
      then locate_walk (index - f_cur_index f) f v e (f_cur_index f) (f_cur_cluster f) grow
      else locate_walk index f v e 0 (f_first f) grow)"

definition locate :: "ofile \<Rightarrow> 'm volume \<Rightarrow> 'm env \<Rightarrow> nat \<Rightarrow> bool \<Rightarrow> nat \<times> ofile \<times> 'm volume \<times> 'm env" where
  "locate f v e index grow =
     (if f_first f = 0 then
        if \<not> grow then (0, f, v, e)
        else case alloc_cluster v e of
          (c, v, e) \<Rightarrow>
            if c = 0 then (0, f, v, e\<lparr>errno := ENOSPC\<rparr>)
            else locate_from (f\<lparr>f_first := c, f_meta_dirty := True, f_cur_index := 0, f_cur_cluster := c\<rparr>) v e index grow
      else locate_from f v e index grow)"

definition meta_flush :: "ofile \<Rightarrow> 'm volume \<Rightarrow> 'm env \<Rightarrow> ofile \<times> 'm volume \<times> 'm env" where
  "meta_flush f v e =
     (if \<not> f_meta_dirty f \<and> \<not> f_modified f then (f, v, e)
      else case (case entry_get v e (f_dir f) (f_index f) of
                   (None, v, e) \<Rightarrow> (v, e)
                 | (Some en, v, e) \<Rightarrow>
                     let en = en\<lparr>en_first := f_first f, en_size := f_size f\<rparr>
                     in if f_modified f then
                          case now e of (t, e) \<Rightarrow> entry_put v e (f_dir f) (f_index f) (en\<lparr>en_mtime := t\<rparr>)
                        else entry_put v e (f_dir f) (f_index f) en) of
        (v, e) \<Rightarrow> (f\<lparr>f_meta_dirty := False, f_modified := False\<rparr>, v, e))"

text \<open>The loop of \<open>fs_read\<close>: \<open>n\<close> bytes are still wanted, \<open>out\<close> has been stored.\<close>

function read_loop :: "ofile \<Rightarrow> 'm volume \<Rightarrow> 'm env \<Rightarrow> nat \<Rightarrow> u8 list \<Rightarrow> u8 list \<times> ofile \<times> 'm volume \<times> 'm env" where
  "read_loop f v e n out =
     (if n = 0 then (out, f, v, e)
      else
        let index = f_pos f div BLOCKDEV_SECTOR; off = f_pos f mod BLOCKDEV_SECTOR
        in case locate f v e index False of
          (c, f, v, e) \<Rightarrow>
            if c = 0 then (out, f, v, e)
            else case buf_load f v e c False of
              (f, v, e) \<Rightarrow>
                let chunk = min (BLOCKDEV_SECTOR - off) n
                in read_loop (f\<lparr>f_pos := add32 (f_pos f) chunk\<rparr>) v e (n - chunk) (out @ take chunk (drop off (f_buf f))))"
  by pat_completeness auto
termination by (relation "measure (\<lambda>(f, v, e, n, out). n)") (auto simp: BLOCKDEV_SECTOR_def)

text \<open>The loop of \<open>fs_write\<close>: \<open>inp\<close> is still to be written.\<close>

function write_loop :: "ofile \<Rightarrow> 'm volume \<Rightarrow> 'm env \<Rightarrow> u8 list \<Rightarrow> nat \<Rightarrow> nat \<times> u8 list \<times> ofile \<times> 'm volume \<times> 'm env" where
  "write_loop f v e inp written =
     (if inp = [] then (written, inp, f, v, e)
      else
        let index = f_pos f div BLOCKDEV_SECTOR; off = f_pos f mod BLOCKDEV_SECTOR
        in case locate f v e index True of
          (c, f, v, e) \<Rightarrow>
            if c = 0 then (written, inp, f, v, e)
            else case buf_load f v e c (f_size f \<le> mul32 index BLOCKDEV_SECTOR) of
              (f, v, e) \<Rightarrow>
                let chunk = min (BLOCKDEV_SECTOR - off) (length inp);
                    f = f\<lparr>f_buf := take off (f_buf f) @ take chunk inp @ drop (off + chunk) (f_buf f),
                          f_buf_dirty := True, f_modified := True, f_pos := add32 (f_pos f) chunk\<rparr>;
                    f = (if f_size f < f_pos f then f\<lparr>f_size := f_pos f, f_meta_dirty := True\<rparr> else f)
                in write_loop f v e (drop chunk inp) (written + chunk))"
  by pat_completeness auto
termination by (relation "measure (\<lambda>(f, v, e, inp, written). length inp)") (auto simp: BLOCKDEV_SECTOR_def)

declare read_loop.simps [simp del] write_loop.simps [simp del]

section \<open>Descriptors\<close>

text \<open>Runs a function of a file and its volume on file \<open>i\<close>.\<close>

definition on_file ::
  "nat \<Rightarrow> 'm fs \<Rightarrow> (ofile \<Rightarrow> 'm volume \<Rightarrow> 'm env \<Rightarrow> ofile \<times> 'm volume \<times> 'm env) \<Rightarrow> 'm fs" where
  "on_file i st g =
     (let f = fs_files st ! i
      in case g f (fs_volumes st ! f_vol f) (fs_env st) of
        (f', v, e) \<Rightarrow> st\<lparr>fs_files := (fs_files st)[i := f'], fs_volumes := (fs_volumes st)[f_vol f := v], fs_env := e\<rparr>)"

definition valid_fd :: "int \<Rightarrow> 'm fs \<Rightarrow> bool \<times> 'm fs" where
  "valid_fd fd st =
     (if fd < 0 \<or> int FS_MAX_OPEN \<le> fd \<or> \<not> f_used (fs_files st ! nat fd) \<or>
         \<not> v_mounted (fs_volumes st ! f_vol (fs_files st ! nat fd))
      then (False, set_errno EBADF st) else (True, st))"

definition fs_close :: "int \<Rightarrow> 'm fs \<Rightarrow> int \<times> 'm fs" where
  "fs_close fd st =
     (case valid_fd fd st of
        (False, st) \<Rightarrow> (-1, st)
      | (True, st) \<Rightarrow>
          let i = nat fd; vi = f_vol (fs_files st ! i);
              st = on_file i st buf_flush;
              st = on_file i st meta_flush;
              st = on_vol vi st fat_flush;
              st = on_vol vi st dir_flush;
              st = st\<lparr>fs_files := (fs_files st)[i := (fs_files st ! i)\<lparr>f_used := False\<rparr>]\<rparr>;
              st = on_vol vi st dev_flush
          in ask_vol vi st (\<lambda>v e. fs_done v e 0))"

text \<open>The bytes stored through \<open>buf\<close> are returned with the count.\<close>

definition fs_read :: "int \<Rightarrow> nat \<Rightarrow> 'm fs \<Rightarrow> (int \<times> u8 list) \<times> 'm fs" where
  "fs_read fd n st =
     (case valid_fd fd st of
        (False, st) \<Rightarrow> ((-1, []), st)
      | (True, st) \<Rightarrow>
          let i = nat fd; f = fs_files st ! i; vi = f_vol f
          in if f_flags f AND FS_O_RDONLY = 0 then ((-1, []), set_errno EBADF st)
             else
               let n = (if sub32 (f_size f) (f_pos f) < n \<and> f_pos f \<le> f_size f then sub32 (f_size f) (f_pos f)
                        else if f_size f < f_pos f then 0 else n)
               in case read_loop f (fs_volumes st ! vi) (fs_env st) n [] of
                 (out, f, v, e) \<Rightarrow>
                   (case fs_done v e (int (length out)) of
                      (r, v, e) \<Rightarrow>
                        ((r, out), st\<lparr>fs_files := (fs_files st)[i := f], fs_volumes := (fs_volumes st)[vi := v], fs_env := e\<rparr>)))"

definition fs_write :: "int \<Rightarrow> u8 list \<Rightarrow> 'm fs \<Rightarrow> int \<times> 'm fs" where
  "fs_write fd inp st =
     (case valid_fd fd st of
        (False, st) \<Rightarrow> (-1, st)
      | (True, st) \<Rightarrow>
          let i = nat fd; f = fs_files st ! i; vi = f_vol f
          in if f_flags f AND FS_O_WRONLY = 0 then (-1, set_errno EBADF st)
             else
               let f = (if f_flags f AND FS_O_APPEND \<noteq> 0 then f\<lparr>f_pos := f_size f\<rparr> else f)
               in case write_loop f (fs_volumes st ! vi) (fs_env st) inp 0 of
                 (written, left, f, v, e) \<Rightarrow>
                   (case fs_done v e (if written = 0 \<and> left \<noteq> [] then -1 else int written) of
                      (r, v, e) \<Rightarrow>
                        (r, st\<lparr>fs_files := (fs_files st)[i := f], fs_volumes := (fs_volumes st)[vi := v], fs_env := e\<rparr>)))"

text \<open>A \<open>long\<close> is 32 bits on the machine: \<open>None\<close> is a signed sum that leaves them, which C does not define.\<close>

definition to_long :: "nat \<Rightarrow> int" where
  "to_long x = (if x < 2 ^ 31 then int x else int x - 2 ^ 32)"

definition add_long :: "int \<Rightarrow> int \<Rightarrow> int option" where
  "add_long a b = (if - (2 ^ 31) \<le> a + b \<and> a + b < 2 ^ 31 then Some (a + b) else None)"

definition fs_seek :: "int \<Rightarrow> int \<Rightarrow> int \<Rightarrow> 'm fs \<Rightarrow> (int \<times> 'm fs) option" where
  "fs_seek fd offset whence st =
     (case valid_fd fd st of
        (False, st) \<Rightarrow> Some (-1, st)
      | (True, st) \<Rightarrow>
          let i = nat fd; f = fs_files st ! i
          in case (if whence = 0 then Some 0
                   else if whence = 1 then Some (to_long (f_pos f))
                   else if whence = 2 then Some (to_long (f_size f))
                   else None) of
            None \<Rightarrow> Some (-1, set_errno EINVAL st)
          | Some base \<Rightarrow>
              (case add_long base offset of
                 None \<Rightarrow> None
               | Some target \<Rightarrow>
                   if target < 0 \<or> to_long (f_size f) < target then Some (-1, set_errno EINVAL st)
                   else Some (0, st\<lparr>fs_files := (fs_files st)[i := f\<lparr>f_pos := nat target\<rparr>]\<rparr>)))"

definition fs_tell :: "int \<Rightarrow> 'm fs \<Rightarrow> int \<times> 'm fs" where
  "fs_tell fd st =
     (case valid_fd fd st of (False, st) \<Rightarrow> (-1, st) | (True, st) \<Rightarrow> (to_long (f_pos (fs_files st ! nat fd)), st))"

definition fs_size :: "int \<Rightarrow> 'm fs \<Rightarrow> int \<times> 'm fs" where
  "fs_size fd st =
     (case valid_fd fd st of (False, st) \<Rightarrow> (-1, st) | (True, st) \<Rightarrow> (to_long (f_size (fs_files st ! nat fd)), st))"

end
