(* ===== verification/Fs_Mount.thy ===== *)
theory Fs_Mount
  imports Fs_File
begin

text \<open>
  CeresFS: volumes are mounted, saved, unmounted, formatted and measured. A \<open>const char*\<close> is the string it points at,
  without its terminator; a null pointer is \<open>None\<close>. The devices \<open>blockdev_disk\<close> and \<open>blockdev_port\<close> hand out are arguments.
\<close>

definition FS_POINT_MAX :: nat where "FS_POINT_MAX = 7"

definition ascii :: "string \<Rightarrow> u8 list" where
  "ascii s = map (\<lambda>c. of_nat (of_char c)) s"

definition COLON :: u8 where "COLON = 58"
definition SLASH :: u8 where "SLASH = 47"

text \<open>Loops over a table: the indices from \<open>i\<close> on, \<open>left\<close> of them.\<close>

fun first_index :: "nat \<Rightarrow> nat \<Rightarrow> (nat \<Rightarrow> bool) \<Rightarrow> nat option" where
  "first_index 0 i p = None"
| "first_index (Suc left) i p = (if p i then Some i else first_index left (i + 1) p)"

definition volume_named :: "u8 list \<Rightarrow> 'm fs \<Rightarrow> nat option" where
  "volume_named point st =
     first_index FS_MAX_VOLUMES 0 (\<lambda>i. v_mounted (fs_volumes st ! i) \<and> v_point (fs_volumes st ! i) = point)"

definition writable :: "nat \<Rightarrow> 'm fs \<Rightarrow> bool \<times> 'm fs" where
  "writable vi st = (if bd_read_only (v_dev (fs_volumes st ! vi)) then (False, set_errno EROFS st) else (True, st))"

section \<open>Mounting\<close>

definition reset_volume :: "'m volume \<Rightarrow> 'm volume" where
  "reset_volume v = v\<lparr>v_fat_no := None, v_dir_sec := 0, v_fat_dirty := False, v_dir_dirty := False,
     v_free_hint := 0, v_io_bad := False\<rparr>"

definition close_files_of :: "nat \<Rightarrow> 'm fs \<Rightarrow> 'm fs" where
  "close_files_of vi st =
     st\<lparr>fs_files := map (\<lambda>f. if f_used f \<and> f_vol f = vi then f\<lparr>f_used := False\<rparr> else f) (fs_files st)\<rparr>"

definition has_open_files :: "nat \<Rightarrow> 'm fs \<Rightarrow> bool" where
  "has_open_files vi st = list_ex (\<lambda>f. f_used f \<and> f_vol f = vi) (fs_files st)"

fun sync_files :: "nat list \<Rightarrow> nat \<Rightarrow> 'm fs \<Rightarrow> 'm fs" where
  "sync_files [] vi st = st"
| "sync_files (i # is) vi st =
     (if f_used (fs_files st ! i) \<and> f_vol (fs_files st ! i) = vi
      then sync_files is vi (on_file i (on_file i st buf_flush) meta_flush)
      else sync_files is vi st)"

definition sync_volume :: "nat \<Rightarrow> 'm fs \<Rightarrow> 'm fs" where
  "sync_volume vi st =
     (if \<not> v_mounted (fs_volumes st ! vi) then st
      else
        let st = sync_files [0..<FS_MAX_OPEN] vi st;
            st = on_vol vi st fat_flush;
            st = on_vol vi st dir_flush
        in on_vol vi st dev_flush)"

definition unmount_volume :: "nat \<Rightarrow> 'm fs \<Rightarrow> int \<times> 'm fs" where
  "unmount_volume vi st =
     (if \<not> v_mounted (fs_volumes st ! vi) then (0, st)
      else
        let st = sync_volume vi st;
            failed = v_io_bad (fs_volumes st ! vi);
            st = close_files_of vi st;
            st = on_vol vi st (\<lambda>v e. (reset_volume (v\<lparr>v_mounted := False\<rparr>), e))
        in if failed then (-1, set_errno EIO st) else (0, st))"

text \<open>\<open>memset(v, 0, sizeof *v)\<close>, then the device is stored.\<close>

definition zero_volume :: "'m blockdev \<Rightarrow> 'm volume" where
  "zero_volume dev =
     \<lparr>v_point = [], v_dev = dev, v_mounted = False, v_version = 0, v_fat_start = 0, v_fat_sectors = 0, v_dir_start = 0,
      v_dir_sectors = 0, v_data_start = 0, v_clusters = 0, v_fat_buf = zero_sector, v_fat_no = Some 0, v_fat_dirty = False,
      v_dir_buf = zero_sector, v_dir_sec = 0, v_dir_dirty = False, v_free_hint = 0, v_free_cache = 0,
      v_free_cache_valid = False, v_io_bad = False\<rparr>"

text \<open>Word \<open>i\<close> of the superblock's sector.\<close>

definition sb_word :: "u8 list \<Rightarrow> nat \<Rightarrow> nat" where
  "sb_word sb i = unat (le32 sb (4 * i))"

definition superblock_version :: "u8 list \<Rightarrow> nat" where
  "superblock_version sb = (if sb_word sb 0 = MAGIC_V1 then 1 else if sb_word sb 0 = MAGIC_V2 then 2 else 0)"

definition superblock_bad :: "u8 list \<Rightarrow> nat \<Rightarrow> bool" where
  "superblock_bad sb tot \<longleftrightarrow>
     (let s = sb_word sb; version = superblock_version sb
      in version = 0 \<or> s 1 \<noteq> version \<or> tot < s 2 \<or> s 3 \<noteq> 1 \<or>
         s 4 = 0 \<or> s 6 = 0 \<or> s 5 \<noteq> add32 (s 3) (s 4) \<or> s 7 \<noteq> add32 (s 5) (s 6) \<or>
         s 8 = 0 \<or> MAX_CLUSTERS < s 8 \<or> s 2 < add32 (s 7) (s 8) \<or>
         mul32 (s 4) BLOCKDEV_SECTOR < mul32 (add32 (s 8) 1) 2)"

definition mount_into :: "nat \<Rightarrow> u8 list \<Rightarrow> 'm blockdev \<Rightarrow> 'm fs \<Rightarrow> int \<times> 'm fs" where
  "mount_into vi point dev st =
     (let st = (if v_mounted (fs_volumes st ! vi) then snd (unmount_volume vi st) else st);
          st = on_vol vi st (\<lambda>v e. (reset_volume (zero_volume dev), e))
      in case ask_vol vi st (\<lambda>v e. rd v e 0 zero_sector) of
        (sb, st) \<Rightarrow>
          if v_io_bad (fs_volumes st ! vi)
          then (-1, set_errno ENODEV (on_vol vi st (\<lambda>v e. (v\<lparr>v_io_bad := False\<rparr>, e))))
          else if superblock_bad sb (bd_sectors dev (mach (fs_env st))) then (-1, set_errno ENODEV st)
          else (0, on_vol vi st (\<lambda>v e.
            (v\<lparr>v_version := superblock_version sb, v_fat_start := sb_word sb 3, v_fat_sectors := sb_word sb 4,
               v_dir_start := sb_word sb 5, v_dir_sectors := sb_word sb 6, v_data_start := sb_word sb 7,
               v_clusters := sb_word sb 8, v_free_cache_valid := False, v_point := point, v_mounted := True\<rparr>, e))))"

definition valid_point :: "u8 list option \<Rightarrow> 'm fs \<Rightarrow> bool \<times> 'm fs" where
  "valid_point point st =
     (case point of
        None \<Rightarrow> (False, set_errno EINVAL st)
      | Some p \<Rightarrow>
          if p = [] \<or> FS_POINT_MAX < length p \<or> COLON \<in> set p \<or> SLASH \<in> set p
          then (False, set_errno EINVAL st) else (True, st))"

definition fs_mount_device :: "u8 list option \<Rightarrow> 'm blockdev option \<Rightarrow> 'm fs \<Rightarrow> int \<times> 'm fs" where
  "fs_mount_device point dev st =
     (case valid_point point st of
        (ok, st) \<Rightarrow>
          (case (ok, point, dev) of
             (True, Some p, Some d) \<Rightarrow>
               if p = ascii ''disk'' then mount_into 0 p d st
               else
                 (case volume_named p st of
                    Some vi \<Rightarrow> if has_open_files vi st then (-1, set_errno EBUSY st) else mount_into vi p d st
                  | None \<Rightarrow>
                      (case first_index (FS_MAX_VOLUMES - 1) 1 (\<lambda>i. \<not> v_mounted (fs_volumes st ! i)) of
                         None \<Rightarrow> (-1, set_errno ENFILE st)
                       | Some vi \<Rightarrow> mount_into vi p d st))
           | _ \<Rightarrow> (-1, set_errno EINVAL st)))"

definition fs_mount :: "'m blockdev \<Rightarrow> 'm fs \<Rightarrow> int \<times> 'm fs" where
  "fs_mount disk st = fs_mount_device (Some (ascii ''disk'')) (Some disk) st"

text \<open>\<open>dev\<close> is what \<open>blockdev_port\<close> finds in the port, \<open>cartridge\<close> whether \<open>periph_type\<close> says it is one.\<close>

definition fs_mount_port :: "nat \<Rightarrow> 'm blockdev option \<Rightarrow> bool \<Rightarrow> 'm fs \<Rightarrow> int \<times> 'm fs" where
  "fs_mount_port port dev cartridge st =
     (case dev of
        None \<Rightarrow> (-1, set_errno ENODEV st)
      | Some d \<Rightarrow>
          let point = ascii (if cartridge then ''cart0'' else ''stick0'');
              point = point[length point - 1 := of_nat (48 + port)]
          in fs_mount_device (Some point) (Some d) st)"

definition named_opt :: "u8 list option \<Rightarrow> 'm fs \<Rightarrow> nat option" where
  "named_opt point st = (case point of None \<Rightarrow> None | Some p \<Rightarrow> volume_named p st)"

definition fs_unmount_point :: "u8 list option \<Rightarrow> 'm fs \<Rightarrow> int \<times> 'm fs" where
  "fs_unmount_point point st = (case named_opt point st of None \<Rightarrow> (0, st) | Some vi \<Rightarrow> unmount_volume vi st)"

definition fs_unmount :: "'m fs \<Rightarrow> int \<times> 'm fs" where
  "fs_unmount st = unmount_volume 0 st"

definition fs_mounted :: "'m fs \<Rightarrow> bool" where
  "fs_mounted st = v_mounted (fs_volumes st ! 0)"

definition fs_is_mounted :: "u8 list option \<Rightarrow> 'm fs \<Rightarrow> bool" where
  "fs_is_mounted point st \<longleftrightarrow> named_opt point st \<noteq> None"

definition fs_version :: "u8 list option \<Rightarrow> 'm fs \<Rightarrow> int" where
  "fs_version point st = (case named_opt point st of None \<Rightarrow> -1 | Some vi \<Rightarrow> int (v_version (fs_volumes st ! vi)))"

section \<open>Formatting\<close>

text \<open>
  The loop that finds how many sectors the FAT takes: more of them leave fewer clusters. It ends since 256 sectors
  hold the entries of the largest volume.
\<close>

definition fat_clusters :: "nat \<Rightarrow> nat \<Rightarrow> nat \<Rightarrow> nat" where
  "fat_clusters tot fats dirs = (let n = sub32 (sub32 (sub32 tot 1) fats) dirs in if MAX_CLUSTERS < n then MAX_CLUSTERS else n)"

definition fat_need :: "nat \<Rightarrow> nat" where
  "fat_need n = sub32 (add32 (mul32 (add32 n 1) 2) BLOCKDEV_SECTOR) 1 div BLOCKDEV_SECTOR"

lemma fat_clusters_max: "fat_clusters tot fats dirs \<le> 65534"
  by (simp add: fat_clusters_def Let_def MAX_CLUSTERS_def)

lemma fat_need_exact: "n \<le> 65534 \<Longrightarrow> fat_need n = (2 * n + 513) div 512"
proof -
  assume n: "n \<le> 65534"
  have "add32 n 1 = n + 1" "mul32 (n + 1) 2 = 2 * n + 2" "add32 (2 * n + 2) 512 = 2 * n + 514" "sub32 (2 * n + 514) 1 = 2 * n + 513"
    using n by simp_all
  then show ?thesis by (simp add: fat_need_def BLOCKDEV_SECTOR_def)
qed

lemma fat_need_le: "n \<le> 65534 \<Longrightarrow> fat_need n \<le> 256"
  unfolding fat_need_exact by linarith

function fat_size :: "nat \<Rightarrow> nat \<Rightarrow> nat \<Rightarrow> nat \<times> nat" where
  "fat_size tot dirs fats =
     (let n = fat_clusters tot fats dirs; need = fat_need n
      in if need \<le> fats then (fats, n) else fat_size tot dirs need)"
  by pat_completeness auto
termination
proof (relation "measure (\<lambda>(tot, dirs, fats). 256 - fats)", goal_cases)
  case (2 tot dirs fats n need)
  then show ?case using fat_need_le [OF fat_clusters_max [of tot fats dirs]] by auto
qed simp

declare fat_size.simps [simp del]

definition put_word :: "nat \<Rightarrow> nat \<Rightarrow> u8 list \<Rightarrow> u8 list" where
  "put_word i x sb = put_le32 sb (4 * i) (of_nat x)"

definition superblock :: "nat \<Rightarrow> nat \<Rightarrow> nat \<Rightarrow> nat \<Rightarrow> nat \<Rightarrow> u8 list" where
  "superblock version tot fats dirs n =
     put_word 8 n (put_word 7 (1 + fats + dirs) (put_word 6 dirs (put_word 5 (1 + fats) (put_word 4 fats (put_word 3 1
       (put_word 2 tot (put_word 1 version (put_word 0 (if version = 1 then MAGIC_V1 else MAGIC_V2) zero_sector))))))))"

text \<open>The writes of sectors \<open>s\<close> on, \<open>bad\<close> when one has failed.\<close>

fun zero_sectors :: "'m blockdev \<Rightarrow> 'm \<Rightarrow> nat \<Rightarrow> nat \<Rightarrow> bool \<Rightarrow> bool \<times> 'm" where
  "zero_sectors dev m s 0 bad = (bad, m)"
| "zero_sectors dev m s (Suc left) bad =
     (case bd_write dev m s zero_sector of (r, m) \<Rightarrow> zero_sectors dev m (s + 1) left (bad \<or> r \<noteq> 0))"

definition fs_format_device :: "'m blockdev option \<Rightarrow> nat \<Rightarrow> 'm fs \<Rightarrow> int \<times> 'm fs" where
  "fs_format_device devp version st =
     (case devp of
        None \<Rightarrow> (-1, set_errno EINVAL st)
      | Some dev \<Rightarrow>
          if version \<noteq> 1 \<and> version \<noteq> 2 then (-1, set_errno EINVAL st)
          else if bd_read_only dev then (-1, set_errno EROFS st)
          else
            let tot = bd_sectors dev (mach (fs_env st))
            in if tot < 8 then (-1, set_errno ENOSPC st)
               else
                 let dirs = tot div 32;
                     dirs = (if dirs < 1 then 1 else dirs);
                     dirs = (if 16 < dirs then 16 else dirs)
                 in case fat_size tot dirs 1 of
                   (fats, n) \<Rightarrow>
                     (case bd_write dev (mach (fs_env st)) 0 (superblock version tot fats dirs n) of
                        (r, m) \<Rightarrow>
                          (case zero_sectors dev m 1 (fats + dirs) (r \<noteq> 0) of
                             (bad, m) \<Rightarrow>
                               (case (case bd_flush dev of
                                        None \<Rightarrow> (bad, m)
                                      | Some f \<Rightarrow> (case f m of (r, m) \<Rightarrow> (bad \<or> r \<noteq> 0, m))) of
                                  (bad, m) \<Rightarrow>
                                    let st = st\<lparr>fs_env := (fs_env st)\<lparr>mach := m\<rparr>\<rparr>
                                    in if bad then (-1, set_errno EIO st) else (0, st)))))"

definition fs_format_version :: "'m blockdev \<Rightarrow> nat \<Rightarrow> 'm fs \<Rightarrow> int \<times> 'm fs" where
  "fs_format_version disk version st =
     (if v_mounted (fs_volumes st ! 0) \<and> has_open_files 0 st then (-1, set_errno EBUSY st)
      else
        let st = (if v_mounted (fs_volumes st ! 0)
                  then on_vol 0 st (\<lambda>v e. (reset_volume (v\<lparr>v_mounted := False\<rparr>), e)) else st)
        in case fs_format_device (Some disk) version st of
          (r, st) \<Rightarrow> if r \<noteq> 0 then (-1, st) else fs_mount_device (Some (ascii ''disk'')) (Some disk) st)"

definition fs_format :: "'m blockdev \<Rightarrow> 'm fs \<Rightarrow> int \<times> 'm fs" where
  "fs_format disk st = fs_format_version disk 2 st"

section \<open>Saving and measuring\<close>

fun sync_volumes :: "nat list \<Rightarrow> 'm fs \<Rightarrow> 'm fs" where
  "sync_volumes [] st = st"
| "sync_volumes (vi # vis) st =
     sync_volumes vis (on_vol vi (sync_volume vi st) (\<lambda>v e. (v\<lparr>v_io_bad := False\<rparr>, e)))"

definition fs_sync :: "'m fs \<Rightarrow> 'm fs" where
  "fs_sync st = sync_volumes [0..<FS_MAX_VOLUMES] st"

text \<open>The two numbers stored through the pointers, when these are given.\<close>

definition space_of :: "nat option \<Rightarrow> bool \<Rightarrow> bool \<Rightarrow> 'm fs \<Rightarrow> (int \<times> nat option \<times> nat option) \<times> 'm fs" where
  "space_of vi tot free_bytes st =
     (case vi of
        None \<Rightarrow> ((-1, if tot then Some 0 else None, if free_bytes then Some 0 else None), st)
      | Some i \<Rightarrow>
          let t = (if tot then Some (mul32 (v_clusters (fs_volumes st ! i)) BLOCKDEV_SECTOR) else None)
          in if free_bytes then case ask_vol i st count_free of (n, st) \<Rightarrow> ((0, t, Some (mul32 n BLOCKDEV_SECTOR)), st)
             else ((0, t, None), st))"

definition fs_space :: "u8 list option \<Rightarrow> bool \<Rightarrow> bool \<Rightarrow> 'm fs \<Rightarrow> (int \<times> nat option \<times> nat option) \<times> 'm fs" where
  "fs_space point tot free_bytes st =
     (let vi = named_opt point st in space_of vi tot free_bytes (if vi = None then set_errno ENODEV st else st))"

definition fs_total_bytes :: "'m fs \<Rightarrow> nat" where
  "fs_total_bytes st =
     (if v_mounted (fs_volumes st ! 0) then mul32 (v_clusters (fs_volumes st ! 0)) BLOCKDEV_SECTOR else 0)"

definition fs_free_bytes :: "'m fs \<Rightarrow> nat \<times> 'm fs" where
  "fs_free_bytes st =
     (if v_mounted (fs_volumes st ! 0)
      then case ask_vol 0 st count_free of (n, st) \<Rightarrow> (mul32 n BLOCKDEV_SECTOR, st) else (0, st))"

end
