(* ===== verification/Fs_Path.thy ===== *)
theory Fs_Path
  imports Fs_Mount
begin

text \<open>
  CeresFS: paths, and the operations that take one. A path is the string without its terminator. An operation that looks a
  name up is \<open>None\<close> when the search of a directory does not return.
\<close>

section \<open>Where a path leads\<close>

definition FS_NAME_MAX :: nat where "FS_NAME_MAX = 47"
definition FS_NAME_MAX_V1 :: nat where "FS_NAME_MAX_V1 = 23"
definition DOT :: u8 where "DOT = 46"

text \<open>\<open>through\<close> lists the directories walked through; its length is \<open>depth\<close>.\<close>

record where_to =
  w_vol :: nat
  w_dir :: nat
  w_name :: "u8 list"
  w_is_root :: bool
  w_through :: "nat list"

lemma path_parts_shorter:
  assumes "dropWhile (\<lambda>c. c = SLASH) p \<noteq> []"
  shows "length (dropWhile (\<lambda>c. c \<noteq> SLASH) (dropWhile (\<lambda>c. c = SLASH) p)) < length p"
proof -
  obtain c t where t: "dropWhile (\<lambda>c. c = SLASH) p = c # t" using assms by (cases "dropWhile (\<lambda>c. c = SLASH) p") auto
  moreover have "c \<noteq> SLASH" using hd_dropWhile [OF assms] t by simp
  moreover have "length (c # t) \<le> length p" using t length_dropWhile_le [of "\<lambda>c. c = SLASH" p] by simp
  ultimately show ?thesis using length_dropWhile_le [of "\<lambda>c. c \<noteq> SLASH" t] by simp
qed

text \<open>
  The parts of a version 2 path: \<open>parts\<close> are those kept so far. \<open>None\<close> is a part too long, or one too many.
\<close>

function path_parts :: "u8 list \<Rightarrow> u8 list list \<Rightarrow> u8 list list option" where
  "path_parts p parts =
     (let start = dropWhile (\<lambda>c. c = SLASH) p
      in if start = [] then Some parts
         else
           let part = takeWhile (\<lambda>c. c \<noteq> SLASH) start; p = dropWhile (\<lambda>c. c \<noteq> SLASH) start
           in if part = [DOT] then path_parts p parts
              else if part = [DOT, DOT] then path_parts p (butlast parts)
              else if FS_NAME_MAX < length part then None
              else if length parts = MAX_PARTS then None
              else path_parts p (parts @ [part]))"
  by pat_completeness auto

termination by (relation "measure (\<lambda>(p, parts). length p)") (auto intro!: path_parts_shorter simp: dropWhile_eq_Nil_conv)

declare path_parts.simps [simp del]

text \<open>The directories on the way to the last part.\<close>

fun walk_parts :: "u8 list list \<Rightarrow> nat \<Rightarrow> nat \<Rightarrow> nat list \<Rightarrow> 'm fs \<Rightarrow> ((nat \<times> nat list) option \<times> 'm fs) option" where
  "walk_parts [] vi dir through st = Some (Some (dir, through), st)"
| "walk_parts (name # rest) vi dir through st =
     (case try_vol vi st (\<lambda>v e. find_in v e dir name) of
        None \<Rightarrow> None
      | Some (None, st) \<Rightarrow>
          Some (None, on_vol vi (set_errno (if v_io_bad (fs_volumes st ! vi) then EIO else ENOENT) st)
                        (\<lambda>v e. (v\<lparr>v_io_bad := False\<rparr>, e)))
      | Some (Some (i, en), st) \<Rightarrow>
          if en_flags en AND E_DIR = 0 then Some (None, set_errno ENOTDIR st)
          else if en_first en = 0 then Some (None, set_errno EIO st)
          else walk_parts rest vi (en_first en) (through @ [en_first en]) st)"

definition resolve_v2 :: "nat \<Rightarrow> u8 list \<Rightarrow> bool \<Rightarrow> 'm fs \<Rightarrow> (where_to option \<times> 'm fs) option" where
  "resolve_v2 vi rest whole st =
     (case path_parts rest [] of
        None \<Rightarrow> Some (None, set_errno ENAMETOOLONG st)
      | Some parts \<Rightarrow>
          if parts = [] then
            if whole \<and> rest = [] then Some (None, set_errno EINVAL st)
            else Some (Some \<lparr>w_vol = vi, w_dir = 0, w_name = [], w_is_root = True, w_through = []\<rparr>, st)
          else
            (case walk_parts (butlast parts) vi 0 [] st of
               None \<Rightarrow> None
             | Some (None, st) \<Rightarrow> Some (None, st)
             | Some (Some (dir, through), st) \<Rightarrow>
                 Some (Some \<lparr>w_vol = vi, w_dir = dir, w_name = last parts, w_is_root = False, w_through = through\<rparr>, st)))"

text \<open>\<open>whole\<close>: no volume was named, \<open>rest\<close> is the path itself.\<close>

definition resolve_v1 :: "nat \<Rightarrow> u8 list \<Rightarrow> bool \<Rightarrow> 'm fs \<Rightarrow> where_to option \<times> 'm fs" where
  "resolve_v1 vi rest whole st =
     (let skip = \<not> whole \<and> rest \<noteq> [] \<and> hd rest = SLASH; name = (if skip then tl rest else rest)
      in if name = [] then
           if whole then (None, set_errno EINVAL st)
           else (Some \<lparr>w_vol = vi, w_dir = 0, w_name = [], w_is_root = True, w_through = []\<rparr>, st)
         else if FS_NAME_MAX_V1 < length name then (None, set_errno ENAMETOOLONG st)
         else (Some \<lparr>w_vol = vi, w_dir = 0, w_name = name, w_is_root = False, w_through = []\<rparr>, st))"

text \<open>The name of a volume a path begins with and what follows its colon.\<close>

definition split_volume :: "u8 list \<Rightarrow> (u8 list \<times> u8 list) option" where
  "split_volume path =
     (let before = takeWhile (\<lambda>c. c \<noteq> COLON) path; after = drop (length before + 1) path
      in if COLON \<in> set path \<and> SLASH \<notin> set before \<and> (after = [] \<or> hd after = SLASH) \<and>
            before \<noteq> [] \<and> length before \<le> FS_POINT_MAX
         then Some (before, after) else None)"

definition resolve :: "u8 list option \<Rightarrow> 'm fs \<Rightarrow> (where_to option \<times> 'm fs) option" where
  "resolve pathp st =
     (case pathp of
        None \<Rightarrow> Some (None, set_errno EINVAL st)
      | Some path \<Rightarrow>
          (case (case split_volume path of
                   Some (point, rest) \<Rightarrow> (volume_named point st, rest, False)
                 | None \<Rightarrow> (if v_mounted (fs_volumes st ! 0) then Some 0 else None, path, True)) of
             (None, rest, whole) \<Rightarrow> Some (None, set_errno ENODEV st)
           | (Some vi, rest, whole) \<Rightarrow>
               if v_version (fs_volumes st ! vi) = 1 then Some (resolve_v1 vi rest whole st)
               else resolve_v2 vi rest whole st))"

section \<open>Opening\<close>

text \<open>A failed search: the error, and a transfer that failed in it is forgotten.\<close>

definition not_found :: "nat \<Rightarrow> 'm fs \<Rightarrow> 'm fs" where
  "not_found vi st =
     on_vol vi (set_errno (if v_io_bad (fs_volumes st ! vi) then EIO else ENOENT) st) (\<lambda>v e. (v\<lparr>v_io_bad := False\<rparr>, e))"

definition fs_finish :: "nat \<Rightarrow> int \<Rightarrow> 'm fs \<Rightarrow> int \<times> 'm fs" where
  "fs_finish vi result st = ask_vol vi st (\<lambda>v e. fs_done v e result)"

text \<open>\<open>strcpy\<close> of a name into an array of zeros.\<close>

definition name_array :: "u8 list \<Rightarrow> u8 list" where
  "name_array name = name @ replicate (48 - length name) 0"

definition now_fs :: "'m fs \<Rightarrow> nat \<times> 'm fs" where
  "now_fs st = (case now (fs_env st) of (t, e) \<Rightarrow> (t, st\<lparr>fs_env := e\<rparr>))"

text \<open>The entry at \<open>at\<close>, or the empty one of a new file there, becomes open file \<open>slot\<close>.\<close>

definition open_at :: "nat \<Rightarrow> nat \<Rightarrow> where_to \<Rightarrow> nat \<Rightarrow> entry \<Rightarrow> 'm fs \<Rightarrow> int \<times> 'm fs" where
  "open_at flags slot w at en st =
     (let vi = w_vol w
      in case (if en_flags en AND E_USED = 0 then
                 case now_fs st of (t, st) \<Rightarrow>
                   let en = zero_entry\<lparr>en_name := name_array (w_name w), en_flags := E_USED, en_mtime := t\<rparr>
                   in (en, on_vol vi st (\<lambda>v e. entry_put v e (w_dir w) at en))
               else if flags AND FS_O_TRUNC \<noteq> 0 then
                 let st = (if en_first en \<noteq> 0 then on_vol vi st (\<lambda>v e. free_chain v e (en_first en)) else st)
                 in case now_fs st of (t, st) \<Rightarrow>
                   let en = en\<lparr>en_first := 0, en_size := 0, en_mtime := t\<rparr>
                   in (en, on_vol vi st (\<lambda>v e. entry_put v e (w_dir w) at en))
               else (en, st)) of
        (en, st) \<Rightarrow>
          let f = zero_ofile\<lparr>f_used := True, f_vol := vi, f_flags := flags, f_dir := w_dir w, f_index := at,
                     f_first := en_first en, f_size := en_size en\<rparr>
          in fs_finish vi (int slot) (st\<lparr>fs_files := (fs_files st)[slot := f]\<rparr>))"

text \<open>A file is open with one writer or any number of readers.\<close>

definition open_conflict :: "ofile list \<Rightarrow> nat \<Rightarrow> nat \<Rightarrow> nat \<Rightarrow> nat \<Rightarrow> bool" where
  "open_conflict fs vi dir at flags \<longleftrightarrow>
     list_ex (\<lambda>f. f_used f \<and> f_vol f = vi \<and> f_dir f = dir \<and> f_index f = at \<and> (f_flags f OR flags) AND FS_O_WRONLY \<noteq> 0) fs"

definition fs_open :: "u8 list option \<Rightarrow> nat \<Rightarrow> 'm fs \<Rightarrow> (int \<times> 'm fs) option" where
  "fs_open path flags st =
     (case resolve path st of
        None \<Rightarrow> None
      | Some (None, st) \<Rightarrow> Some (-1, st)
      | Some (Some w, st) \<Rightarrow>
          let vi = w_vol w
          in if w_is_root w then Some (-1, set_errno EISDIR st)
             else if flags AND 3 = 0 \<or> (flags AND (FS_O_TRUNC OR FS_O_APPEND) \<noteq> 0 \<and> flags AND FS_O_WRONLY = 0)
             then Some (-1, set_errno EINVAL st)
             else if flags AND (FS_O_WRONLY OR FS_O_CREAT OR FS_O_TRUNC) \<noteq> 0 \<and> \<not> fst (writable vi st)
             then Some (-1, snd (writable vi st))
             else
               (case try_vol vi st (\<lambda>v e. find_in v e (w_dir w) (w_name w)) of
                  None \<Rightarrow> None
                | Some (found, st) \<Rightarrow>
                    let slot = first_index FS_MAX_OPEN 0 (\<lambda>i. \<not> f_used (fs_files st ! i))
                    in (case found of
                          Some (at, en) \<Rightarrow>
                            if en_flags en AND E_DIR \<noteq> 0 then Some (-1, set_errno EISDIR st)
                            else if open_conflict (fs_files st) vi (w_dir w) at flags then Some (-1, set_errno EBUSY st)
                            else (case slot of
                                    None \<Rightarrow> Some (-1, set_errno EMFILE st)
                                  | Some s \<Rightarrow> Some (open_at flags s w at en st))
                        | None \<Rightarrow>
                            if flags AND FS_O_CREAT = 0 then Some (-1, not_found vi st)
                            else (case slot of
                                    None \<Rightarrow> Some (-1, set_errno EMFILE st)
                                  | Some s \<Rightarrow>
                                      (case try_vol vi st (\<lambda>v e. free_slot v e (w_dir w)) of
                                         None \<Rightarrow> None
                                       | Some (None, st) \<Rightarrow> Some (fs_finish vi (-1) st)
                                       | Some (Some at, st) \<Rightarrow> Some (open_at flags s w at zero_entry st))))))"

section \<open>By path\<close>

definition open_here :: "nat \<Rightarrow> nat \<Rightarrow> nat \<Rightarrow> 'm fs \<Rightarrow> bool" where
  "open_here vi dir index st \<longleftrightarrow>
     list_ex (\<lambda>f. f_used f \<and> f_vol f = vi \<and> f_dir f = dir \<and> f_index f = index) (fs_files st)"

text \<open>The end of \<open>fs_remove\<close>: the chain is freed and the entry zeroed.\<close>

definition remove_at :: "where_to \<Rightarrow> nat \<Rightarrow> entry \<Rightarrow> 'm fs \<Rightarrow> int \<times> 'm fs" where
  "remove_at w at en st =
     (let vi = w_vol w;
          st = (if en_first en \<noteq> 0 then on_vol vi st (\<lambda>v e. free_chain v e (en_first en)) else st);
          st = on_vol vi st (\<lambda>v e. entry_put v e (w_dir w) at zero_entry)
      in fs_finish vi 0 st)"

definition fs_remove :: "u8 list option \<Rightarrow> 'm fs \<Rightarrow> (int \<times> 'm fs) option" where
  "fs_remove path st =
     (case resolve path st of
        None \<Rightarrow> None
      | Some (None, st) \<Rightarrow> Some (-1, st)
      | Some (Some w, st) \<Rightarrow>
          let vi = w_vol w
          in if w_is_root w then Some (-1, set_errno EBUSY st)
             else
               (case try_vol vi st (\<lambda>v e. find_in v e (w_dir w) (w_name w)) of
                  None \<Rightarrow> None
                | Some (None, st) \<Rightarrow> Some (-1, not_found vi st)
                | Some (Some (at, en), st) \<Rightarrow>
                    if \<not> fst (writable vi st) then Some (-1, snd (writable vi st))
                    else if open_here vi (w_dir w) at st then Some (-1, set_errno EBUSY st)
                    else if en_flags en AND E_DIR \<noteq> 0 \<and> en_first en \<noteq> 0 then
                      (case try_vol vi st (\<lambda>v e. dir_empty v e (en_first en)) of
                         None \<Rightarrow> None
                       | Some (False, st) \<Rightarrow> Some (-1, set_errno ENOTEMPTY st)
                       | Some (True, st) \<Rightarrow> Some (remove_at w at en st))
                    else Some (remove_at w at en st)))"

text \<open>The end of \<open>fs_rename\<close> between two directories.\<close>

definition move_entry :: "where_to \<Rightarrow> where_to \<Rightarrow> nat \<Rightarrow> nat \<Rightarrow> entry \<Rightarrow> 'm fs \<Rightarrow> int \<times> 'm fs" where
  "move_entry a b at to_at en st =
     (let vi = w_vol a;
          st = on_vol vi st (\<lambda>v e. entry_put v e (w_dir b) to_at (en\<lparr>en_name := name_array (w_name b)\<rparr>));
          st = on_vol vi st (\<lambda>v e. entry_put v e (w_dir a) at zero_entry);
          st = st\<lparr>fs_files := map (\<lambda>f. if f_used f \<and> f_vol f = vi \<and> f_dir f = w_dir a \<and> f_index f = at
                                       then f\<lparr>f_dir := w_dir b, f_index := to_at\<rparr> else f) (fs_files st)\<rparr>
      in fs_finish vi 0 st)"

definition fs_rename :: "u8 list option \<Rightarrow> u8 list option \<Rightarrow> 'm fs \<Rightarrow> (int \<times> 'm fs) option" where
  "fs_rename frm to st =
     (case resolve frm st of
        None \<Rightarrow> None
      | Some (None, st) \<Rightarrow> Some (-1, st)
      | Some (Some a, st) \<Rightarrow>
          (case resolve to st of
             None \<Rightarrow> None
           | Some (None, st) \<Rightarrow> Some (-1, st)
           | Some (Some b, st) \<Rightarrow>
               let vi = w_vol a
               in if w_is_root a \<or> w_is_root b then Some (-1, set_errno EBUSY st)
                  else if w_vol a \<noteq> w_vol b then Some (-1, set_errno EXDEV st)
                  else
                    (case try_vol vi st (\<lambda>v e. find_in v e (w_dir a) (w_name a)) of
                       None \<Rightarrow> None
                     | Some (None, st) \<Rightarrow> Some (-1, not_found vi st)
                     | Some (Some (at, en), st) \<Rightarrow>
                         if w_dir a = w_dir b \<and> w_name a = w_name b then Some (0, st)
                         else if \<not> fst (writable vi st) then Some (-1, snd (writable vi st))
                         else
                           (case try_vol vi st (\<lambda>v e. find_in v e (w_dir b) (w_name b)) of
                              None \<Rightarrow> None
                            | Some (Some x, st) \<Rightarrow> Some (-1, set_errno EEXIST st)
                            | Some (None, st) \<Rightarrow>
                                if en_flags en AND E_DIR \<noteq> 0 \<and> en_first en \<in> set (w_through b)
                                then Some (-1, set_errno EINVAL st)
                                else if w_dir a = w_dir b then
                                  Some (fs_finish vi 0 (on_vol vi st (\<lambda>v e.
                                    entry_put v e (w_dir a) at (en\<lparr>en_name := name_array (w_name b)\<rparr>))))
                                else
                                  (case try_vol vi st (\<lambda>v e. free_slot v e (w_dir b)) of
                                     None \<Rightarrow> None
                                   | Some (None, st) \<Rightarrow> Some (fs_finish vi (-1) st)
                                   | Some (Some to_at, st) \<Rightarrow> Some (move_entry a b at to_at en st))))))"

record fs_stat_rec =
  st_size :: nat
  st_first_sector :: nat
  st_mtime :: nat
  st_is_dir :: bool

definition fs_stat :: "u8 list option \<Rightarrow> 'm fs \<Rightarrow> ((int \<times> fs_stat_rec option) \<times> 'm fs) option" where
  "fs_stat path st =
     (case resolve path st of
        None \<Rightarrow> None
      | Some (None, st) \<Rightarrow> Some ((-1, None), st)
      | Some (Some w, st) \<Rightarrow>
          let vi = w_vol w
          in if w_is_root w then
               (case fs_finish vi 0 st of
                  (r, st) \<Rightarrow> Some ((r, Some \<lparr>st_size = 0, st_first_sector = 0, st_mtime = 0, st_is_dir = True\<rparr>), st))
             else
               (case try_vol vi st (\<lambda>v e. find_in v e (w_dir w) (w_name w)) of
                  None \<Rightarrow> None
                | Some (None, st) \<Rightarrow> Some ((-1, None), not_found vi st)
                | Some (Some (at, en), st) \<Rightarrow>
                    (case fs_finish vi 0 st of
                       (r, st') \<Rightarrow>
                         Some ((r, Some \<lparr>st_size = en_size en,
                                         st_first_sector = (if en_first en = 0 then 0
                                                            else cluster_sector (fs_volumes st ! vi) (en_first en)),
                                         st_mtime = en_mtime en, st_is_dir = (en_flags en AND E_DIR \<noteq> 0)\<rparr>), st'))))"

definition fs_mkdir :: "u8 list option \<Rightarrow> 'm fs \<Rightarrow> (int \<times> 'm fs) option" where
  "fs_mkdir path st =
     (case resolve path st of
        None \<Rightarrow> None
      | Some (None, st) \<Rightarrow> Some (-1, st)
      | Some (Some w, st) \<Rightarrow>
          let vi = w_vol w
          in if w_is_root w then Some (-1, set_errno EEXIST st)
             else if v_version (fs_volumes st ! vi) = 1 then Some (-1, set_errno ENOTSUP st)
             else if \<not> fst (writable vi st) then Some (-1, snd (writable vi st))
             else
               (case try_vol vi st (\<lambda>v e. find_in v e (w_dir w) (w_name w)) of
                  None \<Rightarrow> None
                | Some (Some x, st) \<Rightarrow> Some (-1, set_errno EEXIST st)
                | Some (None, st) \<Rightarrow>
                    (case try_vol vi st (\<lambda>v e. free_slot v e (w_dir w)) of
                       None \<Rightarrow> None
                     | Some (None, st) \<Rightarrow> Some (fs_finish vi (-1) st)
                     | Some (Some at, st) \<Rightarrow>
                         (case ask_vol vi st alloc_cluster of
                            (c, st) \<Rightarrow>
                              if c = 0 then Some (-1, set_errno ENOSPC st)
                              else
                                (case now_fs (on_vol vi st (\<lambda>v e. zero_cluster v e c)) of
                                   (t, st) \<Rightarrow>
                                     let en = zero_entry\<lparr>en_name := name_array (w_name w), en_first := c,
                                                en_flags := E_USED OR E_DIR, en_mtime := t\<rparr>;
                                         st = on_vol vi st (\<lambda>v e. entry_put v e (w_dir w) at en);
                                         st = on_vol vi st fat_flush;
                                         st = on_vol vi st dir_flush
                                     in Some (fs_finish vi 0 st))))))"

section \<open>Reading directories\<close>

record fs_dirent =
  de_name :: "u8 list"
  de_size :: nat
  de_mtime :: nat
  de_is_dir :: bool

text \<open>\<open>volume\<close> is -1 once the directory is closed; \<open>given\<close> says whether \<open>fs_opendir\<close> got a structure to fill.\<close>

record fs_dir =
  d_volume :: int
  d_first :: nat
  d_index :: nat

definition fs_opendir :: "u8 list option \<Rightarrow> bool \<Rightarrow> 'm fs \<Rightarrow> ((int \<times> fs_dir option) \<times> 'm fs) option" where
  "fs_opendir path given st =
     (if \<not> given then Some ((-1, None), set_errno EINVAL st)
      else case resolve path st of
        None \<Rightarrow> None
      | Some (None, st) \<Rightarrow> Some ((-1, None), st)
      | Some (Some w, st) \<Rightarrow>
          let vi = w_vol w; d = \<lparr>d_volume = int vi, d_first = 0, d_index = 0\<rparr>
          in if w_is_root w then Some ((0, Some d), st)
             else
               (case try_vol vi st (\<lambda>v e. find_in v e (w_dir w) (w_name w)) of
                  None \<Rightarrow> None
                | Some (None, st) \<Rightarrow> Some ((-1, Some d), not_found vi st)
                | Some (Some (at, en), st) \<Rightarrow>
                    if en_flags en AND E_DIR = 0 then Some ((-1, Some d), set_errno ENOTDIR st)
                    else if en_first en = 0 then Some ((-1, Some d), set_errno EIO st)
                    else Some ((0, Some (d\<lparr>d_first := en_first en\<rparr>)), st)))"

partial_function (option) readdir_from ::
  "'m volume \<Rightarrow> 'm env \<Rightarrow> nat \<Rightarrow> nat \<Rightarrow> ((fs_dirent option \<times> nat) \<times> 'm volume \<times> 'm env) option" where
  "readdir_from v e first i =
     (case entry_get v e first i of
        (None, v, e) \<Rightarrow> Some ((None, i), v, e)
      | (Some en, v, e) \<Rightarrow>
          if en_flags en AND E_USED = 0 then readdir_from v e first (add32 i 1)
          else Some ((Some \<lparr>de_name = en_name en, de_size = en_size en, de_mtime = en_mtime en,
                           de_is_dir = (en_flags en AND E_DIR \<noteq> 0)\<rparr>, add32 i 1), v, e))"

definition fs_readdir :: "fs_dir option \<Rightarrow> 'm fs \<Rightarrow> ((fs_dirent option \<times> fs_dir option) \<times> 'm fs) option" where
  "fs_readdir dir st =
     (case dir of
        None \<Rightarrow> Some ((None, None), st)
      | Some d \<Rightarrow>
          if d_volume d < 0 \<or> int FS_MAX_VOLUMES \<le> d_volume d \<or> \<not> v_mounted (fs_volumes st ! nat (d_volume d))
          then Some ((None, dir), st)
          else (case try_vol (nat (d_volume d)) st (\<lambda>v e. readdir_from v e (d_first d) (d_index d)) of
                  None \<Rightarrow> None
                | Some ((r, i), st) \<Rightarrow> Some ((r, Some (d\<lparr>d_index := i\<rparr>)), st)))"

definition fs_closedir :: "fs_dir option \<Rightarrow> fs_dir option" where
  "fs_closedir dir = map_option (\<lambda>d. d\<lparr>d_volume := -1\<rparr>) dir"

text \<open>
  \<open>fs_list\<close> with a callback that does not call the file system: \<open>visit\<close> gets an entry and the caller's state and says
  whether to stop.
\<close>

partial_function (option) list_from ::
  "(fs_dirent \<Rightarrow> 'c \<Rightarrow> int \<times> 'c) \<Rightarrow> fs_dir option \<Rightarrow> nat \<Rightarrow> 'c \<Rightarrow> 'm fs \<Rightarrow> (nat \<times> 'c \<times> 'm fs) option" where
  "list_from visit d visited c st =
     (case fs_readdir d st of
        None \<Rightarrow> None
      | Some ((None, d), st) \<Rightarrow> Some (visited, c, st)
      | Some ((Some de, d), st) \<Rightarrow>
          (case visit de c of
             (r, c) \<Rightarrow> if r \<noteq> 0 then Some (visited + 1, c, st) else list_from visit d (visited + 1) c st))"

definition fs_list :: "(fs_dirent \<Rightarrow> 'c \<Rightarrow> int \<times> 'c) \<Rightarrow> 'c \<Rightarrow> 'm fs \<Rightarrow> ((int \<times> 'c) \<times> 'm fs) option" where
  "fs_list visit c st =
     (if \<not> v_mounted (fs_volumes st ! 0) then Some ((-1, c), set_errno ENODEV st)
      else (case list_from visit (Some \<lparr>d_volume = 0, d_first = 0, d_index = 0\<rparr>) 0 c st of
              None \<Rightarrow> None
            | Some (visited, c, st) \<Rightarrow> (case fs_finish 0 (int visited) st of (r, st) \<Rightarrow> Some ((r, c), st))))"

end
