(* ===== verification/Fs_Image.thy ===== *)
theory Fs_Image
  imports Fs_Vol
begin

text \<open>
  What a volume holds, seen through its caches. On a device that works, the one-sector caches of the FAT and of the
  directories are invisible: every operation reads and changes the image of the volume, the sectors with the cached ones in
  their place, and the image is what reaches the device when the caches are flushed. The FAT is then an array of numbers and
  its operations act on that array.
\<close>

section \<open>A device that works\<close>

text \<open>\<open>cont m\<close> are the sectors of the device when the machine is in state \<open>m\<close>, \<open>n\<close> is their number.\<close>

definition device_ok :: "'m blockdev \<Rightarrow> ('m \<Rightarrow> nat \<Rightarrow> u8 list) \<Rightarrow> nat \<Rightarrow> bool" where
  "device_ok bd cont n \<longleftrightarrow>
     n < U32 \<and> \<not> bd_read_only bd \<and> (\<forall>m. bd_sectors bd m = n) \<and>
     (\<forall>m s buf. s < n \<longrightarrow> length (cont m s) = 512 \<and>
        (\<exists>m'. bd_read bd m s buf = (0, cont m s, m') \<and> cont m' = cont m)) \<and>
     (\<forall>m s d. s < n \<longrightarrow> length d = 512 \<longrightarrow> (\<exists>m'. bd_write bd m s d = (0, m') \<and> cont m' = (cont m)(s := d))) \<and>
     (\<forall>f m. bd_flush bd = Some f \<longrightarrow> (\<exists>m'. f m = (0, m') \<and> cont m' = cont m))"

lemma device_read:
  assumes "device_ok bd cont n" "s < n"
  obtains m' where "bd_read bd m s buf = (0, cont m s, m')" "cont m' = cont m"
  using assms unfolding device_ok_def by metis

lemma device_write:
  assumes "device_ok bd cont n" "s < n" "length d = 512"
  obtains m' where "bd_write bd m s d = (0, m')" "cont m' = (cont m)(s := d)"
  using assms unfolding device_ok_def by metis

lemma device_length: "device_ok bd cont n \<Longrightarrow> s < n \<Longrightarrow> length (cont m s) = 512"
  by (simp add: device_ok_def)

text \<open>A disk in memory, one of the devices \<open>blockdev.h\<close> says a program can describe, on \<open>n\<close> sectors.\<close>

definition ram_cont :: "(nat \<Rightarrow> u8 list) \<Rightarrow> nat \<Rightarrow> u8 list" where
  "ram_cont m s = take 512 (m s @ replicate 512 0)"

definition ram_disk :: "nat \<Rightarrow> (nat \<Rightarrow> u8 list) blockdev" where
  "ram_disk n =
     \<lparr>bd_read = (\<lambda>m s buf. if s < n then (0, ram_cont m s, m) else (-1, buf, m)),
      bd_write = (\<lambda>m s d. if s < n then (0, m(s := d)) else (-1, m)),
      bd_sectors = (\<lambda>m. n), bd_flush = None, bd_read_only = False\<rparr>"

lemma ram_cont_update: "length d = 512 \<Longrightarrow> ram_cont (m(s := d)) = (ram_cont m)(s := d)"
  by (rule ext) (simp add: ram_cont_def)

lemma length_ram_cont [simp]: "length (ram_cont m s) = 512"
  by (simp add: ram_cont_def min_def)

lemma ram_disk_ok: "n < U32 \<Longrightarrow> device_ok (ram_disk n) ram_cont n"
  by (simp add: device_ok_def ram_disk_def ram_cont_update)

section \<open>The image of a volume\<close>

definition geometry_ok :: "'m volume \<Rightarrow> nat \<Rightarrow> bool" where
  "geometry_ok v n \<longleftrightarrow>
     v_fat_start v = 1 \<and> 0 < v_fat_sectors v \<and> v_dir_start v = 1 + v_fat_sectors v \<and> 0 < v_dir_sectors v \<and>
     v_data_start v = v_dir_start v + v_dir_sectors v \<and> 0 < v_clusters v \<and> v_clusters v \<le> 65534 \<and>
     v_data_start v + v_clusters v \<le> n \<and> n < U32 \<and> 2 * (v_clusters v + 1) \<le> v_fat_sectors v * 512 \<and>
     (v_version v = 1 \<or> v_version v = 2)"

definition vol_ok :: "('m \<Rightarrow> nat \<Rightarrow> u8 list) \<Rightarrow> nat \<Rightarrow> 'm volume \<Rightarrow> 'm env \<Rightarrow> bool" where
  "vol_ok cont n v e \<longleftrightarrow>
     device_ok (v_dev v) cont n \<and> geometry_ok v n \<and> \<not> v_io_bad v \<and>
     length (v_fat_buf v) = 512 \<and> length (v_dir_buf v) = 512 \<and> v_free_hint v < v_clusters v \<and>
     (\<forall>k. v_fat_no v = Some k \<longrightarrow> k < v_fat_sectors v \<and> (v_fat_dirty v \<or> v_fat_buf v = cont (mach e) (1 + k))) \<and>
     (v_dir_sec v = 0 \<or> v_dir_start v \<le> v_dir_sec v \<and> v_dir_sec v < n \<and>
        (v_dir_dirty v \<or> v_dir_buf v = cont (mach e) (v_dir_sec v)))"

definition img :: "('m \<Rightarrow> nat \<Rightarrow> u8 list) \<Rightarrow> 'm volume \<Rightarrow> 'm env \<Rightarrow> nat \<Rightarrow> u8 list" where
  "img cont v e s =
     (if 0 < s \<and> v_fat_no v = Some (s - 1) then v_fat_buf v
      else if s \<noteq> 0 \<and> s = v_dir_sec v then v_dir_buf v
      else cont (mach e) s)"

text \<open>All of a volume but its caches, and all of the shared state but the machine.\<close>

definition core :: "'m volume \<Rightarrow> 'm volume" where
  "core v = v\<lparr>v_fat_buf := [], v_fat_no := None, v_fat_dirty := False, v_dir_buf := [], v_dir_sec := 0, v_dir_dirty := False\<rparr>"

definition same_env :: "'m env \<Rightarrow> 'm env \<Rightarrow> bool" where
  "same_env e e' \<longleftrightarrow> errno e' = errno e \<and> rtc e' = rtc e"

definition keeps :: "('m \<Rightarrow> nat \<Rightarrow> u8 list) \<Rightarrow> nat \<Rightarrow> 'm volume \<Rightarrow> 'm env \<Rightarrow> 'm volume \<Rightarrow> 'm env \<Rightarrow> bool" where
  "keeps cont n v e v' e' \<longleftrightarrow> vol_ok cont n v' e' \<and> core v' = core v \<and> same_env e e'"

lemma core_fields:
  "core v' = core v \<Longrightarrow> v_dev v' = v_dev v \<and> v_version v' = v_version v \<and> v_fat_start v' = v_fat_start v \<and>
   v_fat_sectors v' = v_fat_sectors v \<and> v_dir_start v' = v_dir_start v \<and> v_dir_sectors v' = v_dir_sectors v \<and>
   v_data_start v' = v_data_start v \<and> v_clusters v' = v_clusters v \<and> v_mounted v' = v_mounted v \<and> v_point v' = v_point v \<and>
   v_free_hint v' = v_free_hint v \<and> v_free_cache v' = v_free_cache v \<and>
   v_free_cache_valid v' = v_free_cache_valid v \<and> v_io_bad v' = v_io_bad v"
  by (cases v; cases v') (simp add: core_def)

lemma core_updates [simp]:
  "core (v\<lparr>v_fat_buf := x1\<rparr>) = core v" "core (v\<lparr>v_fat_no := x2\<rparr>) = core v" "core (v\<lparr>v_fat_dirty := x3\<rparr>) = core v"
  "core (v\<lparr>v_dir_buf := x1\<rparr>) = core v" "core (v\<lparr>v_dir_sec := x4\<rparr>) = core v" "core (v\<lparr>v_dir_dirty := x3\<rparr>) = core v"
  by (simp_all add: core_def)

lemma keeps_trans: "keeps cont n v e v1 e1 \<Longrightarrow> keeps cont n v1 e1 v2 e2 \<Longrightarrow> keeps cont n v e v2 e2"
  by (simp add: keeps_def same_env_def)

lemma keeps_refl: "vol_ok cont n v e \<Longrightarrow> keeps cont n v e v e"
  by (simp add: keeps_def same_env_def)

lemma geometry_fields:
  "geometry_ok v n \<Longrightarrow> v_fat_start v = 1 \<and> v_dir_start v = 1 + v_fat_sectors v \<and> 1 + v_fat_sectors v < v_data_start v \<and>
   v_data_start v + v_clusters v \<le> n \<and> n < U32 \<and> 0 < v_clusters v \<and> v_clusters v \<le> 65534"
  by (auto simp: geometry_ok_def)

lemma vol_okD:
  assumes "vol_ok cont n v e"
  shows "device_ok (v_dev v) cont n" "geometry_ok v n" "\<not> v_io_bad v" "length (v_fat_buf v) = 512" "length (v_dir_buf v) = 512"
    "v_dir_sec v = 0 \<or> v_dir_start v \<le> v_dir_sec v \<and> v_dir_sec v < n"
    "\<And>k. v_fat_no v = Some k \<Longrightarrow> k < v_fat_sectors v"
    "\<And>k. v_fat_no v = Some k \<Longrightarrow> 1 + k < v_dir_start v"
  using assms by (simp_all add: vol_ok_def) (auto simp: geometry_ok_def)

text \<open>Writing a cached sector back leaves the image as it was.\<close>

lemma fat_flush_keeps:
  assumes "vol_ok cont n v e"
  shows "\<exists>v' e'. fat_flush v e = (v', e') \<and> keeps cont n v e v' e' \<and> img cont v' e' = img cont v e \<and>
    v_fat_no v' = v_fat_no v \<and> v_fat_buf v' = v_fat_buf v \<and>
    v_dir_sec v' = v_dir_sec v \<and> \<not> v_fat_dirty v' \<and>
    (\<forall>k. v_fat_no v = Some k \<longrightarrow> cont (mach e') (1 + k) = v_fat_buf v)"
proof (cases "v_fat_no v")
  case None
  then show ?thesis using assms
    by (intro exI [of _ "v\<lparr>v_fat_dirty := False\<rparr>"] exI [of _ e])
       (auto simp: fat_flush_def keeps_def vol_ok_def same_env_def img_def geometry_ok_def)
next
  case (Some k)
  note ok = assms [unfolded vol_ok_def geometry_ok_def] Some
  show ?thesis
  proof (cases "v_fat_dirty v")
    case False
    then show ?thesis using ok
      by (intro exI [of _ "v\<lparr>v_fat_dirty := False\<rparr>"] exI [of _ e])
         (auto simp: fat_flush_def keeps_def vol_ok_def same_env_def img_def geometry_ok_def)
  next
    case True
    have lt: "1 + k < n" using ok by auto
    obtain m' where w: "bd_write (v_dev v) (mach e) (1 + k) (v_fat_buf v) = (0, m')" and
      c: "cont m' = (cont (mach e))(1 + k := v_fat_buf v)"
      using device_write [of "v_dev v" cont n "1 + k" "v_fat_buf v" "mach e"] ok lt by blast
    have a: "add32 (v_fat_start v) k = 1 + k" using ok lt by auto
    have ro: "\<not> bd_read_only (v_dev v)" using ok by (simp add: device_ok_def)
    have "fat_flush v e = (v\<lparr>v_fat_dirty := False\<rparr>, e\<lparr>mach := m'\<rparr>)"
      unfolding fat_flush_def Some wr_def using True w ro a by simp
    moreover have "vol_ok cont n (v\<lparr>v_fat_dirty := False\<rparr>) (e\<lparr>mach := m'\<rparr>)"
      using assms c Some by (auto simp: vol_ok_def geometry_ok_def)
    moreover have "img cont (v\<lparr>v_fat_dirty := False\<rparr>) (e\<lparr>mach := m'\<rparr>) = img cont v e"
      by (rule ext) (auto simp: img_def c Some)
    ultimately show ?thesis using c Some by (auto simp: keeps_def same_env_def)
  qed
qed

lemma fat_load_keeps:
  assumes "vol_ok cont n v e" "sec < v_fat_sectors v"
  shows "\<exists>v' e'. fat_load v e sec = (v', e') \<and> keeps cont n v e v' e' \<and> img cont v' e' = img cont v e \<and>
    v_fat_no v' = Some sec \<and> v_fat_buf v' = img cont v e (1 + sec)"
proof (cases "v_fat_no v = Some sec")
  case True
  then show ?thesis using assms keeps_refl [OF assms(1)] by (auto simp: fat_load_def img_def)
next
  case False
  obtain v1 e1 where f: "fat_flush v e = (v1, e1)" "keeps cont n v e v1 e1" "img cont v1 e1 = img cont v e"
    "v_fat_no v1 = v_fat_no v" "v_dir_sec v1 = v_dir_sec v"
    "\<And>k. v_fat_no v = Some k \<Longrightarrow> cont (mach e1) (1 + k) = v_fat_buf v" "\<not> v_fat_dirty v1" "v_fat_buf v1 = v_fat_buf v"
    using fat_flush_keeps [OF assms(1)] by blast
  then have ok: "vol_ok cont n v1 e1" "core v1 = core v" "same_env e e1" by (simp_all add: keeps_def)
  note g = core_fields [OF ok(2)]
  have lt: "1 + sec < n" "1 + sec < v_dir_start v1" using ok(1) assms(2) g by (auto simp: vol_ok_def geometry_ok_def)
  obtain m' where r: "bd_read (v_dev v1) (mach e1) (1 + sec) (v_fat_buf v1) = (0, cont (mach e1) (1 + sec), m')"
    and c: "cont m' = cont (mach e1)"
    using device_read [of "v_dev v1" cont n "1 + sec" "mach e1" "v_fat_buf v1"] ok(1) lt by (auto simp: vol_ok_def)
  let ?v = "v1\<lparr>v_fat_buf := cont (mach e1) (1 + sec), v_fat_no := Some sec\<rparr>" and ?e = "e1\<lparr>mach := m'\<rparr>"
  have a: "add32 (v_fat_start v1) sec = 1 + sec" using ok(1) lt by (auto simp: vol_ok_def geometry_ok_def)
  have l: "fat_load v e sec = (?v, ?e)" unfolding fat_load_def using False f(1) r by (simp add: rd_def a)
  have vok: "vol_ok cont n ?v ?e"
    using ok(1) lt c assms(2) g device_length [of "v_dev v1" cont n "1 + sec"] by (auto simp: vol_ok_def geometry_ok_def)
  have d: "v_dir_sec v1 \<noteq> 1 + sec" using lt(2) vol_okD(6) [OF ok(1)] by linarith
  have i: "img cont ?v ?e = img cont v1 e1"
  proof
    fix s
    show "img cont ?v ?e s = img cont v1 e1 s"
    proof (cases "0 < s \<and> v_fat_no v1 = Some (s - 1)")
      case True
      then have "v_fat_buf v1 = cont (mach e1) s" using f(4,8) f(6) [of "s - 1"] by simp
      moreover have "s \<noteq> v_dir_sec v1" using True vol_okD(6) [OF ok(1)] vol_okD(8) [OF ok(1), of "s - 1"] by auto
      ultimately show ?thesis using True c by (auto simp: img_def)
    next
      case False
      show ?thesis
      proof (cases "s = 1 + sec")
        case True
        then show ?thesis using False c d by (simp add: img_def)
      next
        case ns: False
        show ?thesis
        proof (cases s)
          case 0
          then show ?thesis using c by (simp add: img_def)
        next
          case (Suc t)
          have "sec \<noteq> t" "v_fat_no v1 \<noteq> Some t" using ns False Suc by simp_all
          then show ?thesis using Suc by (simp add: img_def c)
        qed
      qed
    qed
  qed
  have "img cont v1 e1 (1 + sec) = cont (mach e1) (1 + sec)"
    using \<open>v_fat_no v \<noteq> Some sec\<close> f(4) d by (simp add: img_def)
  then have "v_fat_buf ?v = img cont v e (1 + sec)" unfolding f(3) [symmetric] by simp
  moreover have "keeps cont n v e ?v ?e" using vok ok(2,3) by (simp add: keeps_def same_env_def)
  moreover have "img cont ?v ?e = img cont v e" by (simp only: i f(3))
  moreover have "v_fat_no ?v = Some sec" by simp
  ultimately show ?thesis using l by blast
qed

section \<open>The FAT as an array\<close>

definition fat_at :: "(nat \<Rightarrow> u8 list) \<Rightarrow> nat \<Rightarrow> nat" where
  "fat_at im c = unat (im (1 + 2 * c div 512) ! (2 * c mod 512)) + 256 * unat (im (1 + 2 * c div 512) ! (2 * c mod 512 + 1))"

text \<open>Two images that differ in the FAT alone, where it is \<open>g\<close> instead.\<close>

definition fat_becomes :: "'m volume \<Rightarrow> (nat \<Rightarrow> u8 list) \<Rightarrow> (nat \<Rightarrow> u8 list) \<Rightarrow> (nat \<Rightarrow> nat) \<Rightarrow> bool" where
  "fat_becomes v im im' g \<longleftrightarrow>
     (\<forall>c. fat_at im' c = g c) \<and> (\<forall>s. s = 0 \<or> v_dir_start v \<le> s \<longrightarrow> im' s = im s)"

lemma fat_becomes_refl: "fat_becomes v im im (fat_at im)"
  by (simp add: fat_becomes_def)

lemma fat_becomes_trans:
  "fat_becomes v im im1 g1 \<Longrightarrow> fat_becomes v' im1 im2 g2 \<Longrightarrow> v_dir_start v' = v_dir_start v \<Longrightarrow> fat_becomes v im im2 g2"
  by (simp add: fat_becomes_def)

lemma img_length:
  assumes "vol_ok cont n v e" "s < n"
  shows "length (img cont v e s) = 512"
  using vol_okD(4,5) [OF assms(1)] device_length [OF vol_okD(1) [OF assms(1)] assms(2)] by (cases s) (auto simp: img_def)

lemma fat_sector_range:
  assumes "geometry_ok v n" "c \<le> v_clusters v"
  shows "mul32 c 2 = 2 * c" "2 * c div 512 < v_fat_sectors v" "1 + 2 * c div 512 < v_dir_start v" "v_dir_start v < n"
proof -
  have "2 * c < v_fat_sectors v * 512" using assms by (auto simp: geometry_ok_def)
  then show "2 * c div 512 < v_fat_sectors v" by (simp add: div_less_iff_less_mult)
  then show "1 + 2 * c div 512 < v_dir_start v" using assms by (simp add: geometry_ok_def)
  show "mul32 c 2 = 2 * c" using assms by (subst mul32_exact) (auto simp: geometry_ok_def)
  show "v_dir_start v < n" using assms by (auto simp: geometry_ok_def)
qed

lemma byte_or: "a < 256 \<Longrightarrow> a OR push_bit 8 b = a + 256 * (b :: nat)"
  using nat_or_add [of a 8 b] by (simp add: push_bit_eq_mult or.commute mult.commute add.commute)

lemma fat_get_at:
  assumes "vol_ok cont n v e" "c \<le> v_clusters v"
  shows "\<exists>v' e'. fat_get v e c = (fat_at (img cont v e) c, v', e') \<and> keeps cont n v e v' e' \<and> img cont v' e' = img cont v e"
proof -
  note g = fat_sector_range [OF vol_okD(2) [OF assms(1)] assms(2)]
  obtain v1 e1 where f: "fat_load v e (2 * c div 512) = (v1, e1)" "keeps cont n v e v1 e1" "img cont v1 e1 = img cont v e"
    "v_fat_buf v1 = img cont v e (1 + 2 * c div 512)"
    using fat_load_keeps [OF assms(1) g(2)] by blast
  have "fat_get v e c = (fat_at (img cont v e) c, v1, e1)"
    using f(1,4) g(1) unat_u8_less by (simp add: fat_get_def BLOCKDEV_SECTOR_def Let_def byte_or fat_at_def)
  then show ?thesis using f(2,3) by blast
qed

lemma fat_at_update:
  assumes "length (im (1 + 2 * c div 512)) = 512" "x < 65536"
    "im' = im (1 + 2 * c div 512 := (im (1 + 2 * c div 512))[2 * c mod 512 := of_nat (x AND 255), 2 * c mod 512 + 1 := of_nat (drop_bit 8 x)])"
  shows "fat_at im' d = (if d = c then x else fat_at im d)"
proof -
  have off: "2 * y mod 512 = 2 * (y mod 256)" "2 * y div 512 = y div 256" for y :: nat
    using mult_mod_right [of 2 y 256] by simp_all
  show ?thesis
  proof (cases "d div 256 = c div 256")
    case True
    have "x AND 255 = x mod 256" using nat_and_pow2_minus_1 [of x 8] by simp
    moreover have "x div 256 < 256" using assms(2) by (simp add: div_less_iff_less_mult)
    moreover have "unat (of_nat y :: u8) = y" if "y < 256" for y using that by (simp add: unsigned_of_nat take_bit_nat_eq_self)
    ultimately have b: "unat (of_nat (x AND 255) :: u8) = x mod 256" "unat (of_nat (drop_bit 8 x) :: u8) = x div 256"
      by (simp_all add: drop_bit_eq_div)
    define i where "i = c mod 256"
    define j where "j = d mod 256"
    have ij: "i < 256" "j < 256" "d = c \<longleftrightarrow> j = i" using True by (simp_all add: i_def j_def) (metis div_mult_mod_eq)
    have im: "im' (1 + c div 256) = (im (1 + c div 256))[2 * i := of_nat (x AND 255), 2 * i + 1 := of_nat (drop_bit 8 x)]"
      using assms(3) by (simp add: off i_def)
    have l: "length (im (1 + c div 256)) = 512" using assms(1) by (simp only: off)
    have "fat_at im' d = unat (im' (1 + c div 256) ! (2 * j)) + 256 * unat (im' (1 + c div 256) ! (2 * j + 1))"
      unfolding fat_at_def off True j_def ..
    moreover have "fat_at im d = unat (im (1 + c div 256) ! (2 * j)) + 256 * unat (im (1 + c div 256) ! (2 * j + 1))"
      unfolding fat_at_def off True j_def ..
    moreover have "2 * i \<noteq> 2 * j + 1" "2 * j \<noteq> 2 * i + 1" by presburger+
    ultimately show ?thesis unfolding im using ij l b by (simp add: nth_list_update)
  next
    case False
    then have "d \<noteq> c" by auto
    then show ?thesis using False assms(3) by (simp add: fat_at_def off)
  qed
qed

lemma fat_set_at:
  assumes "vol_ok cont n v e" "c \<le> v_clusters v" "x < 65536"
  shows "\<exists>v' e'. fat_set v e c x = (v', e') \<and> vol_ok cont n v' e' \<and> core v' = (core v)\<lparr>v_free_cache_valid := False\<rparr> \<and> same_env e e' \<and>
    fat_becomes v (img cont v e) (img cont v' e') ((fat_at (img cont v e))(c := x))"
proof -
  note g = fat_sector_range [OF vol_okD(2) [OF assms(1)] assms(2)]
  obtain v1 e1 where f: "fat_load v e (2 * c div 512) = (v1, e1)" "keeps cont n v e v1 e1" "img cont v1 e1 = img cont v e"
    "v_fat_no v1 = Some (2 * c div 512)" "v_fat_buf v1 = img cont v e (1 + 2 * c div 512)"
    using fat_load_keeps [OF assms(1) g(2)] by blast
  define b where "b = (v_fat_buf v1)[2 * c mod 512 := of_nat (x AND 255), 2 * c mod 512 + 1 := of_nat (drop_bit 8 x)]"
  let ?v = "v1\<lparr>v_fat_buf := b, v_fat_dirty := True, v_free_cache_valid := False\<rparr>"
  have s: "fat_set v e c x = (?v, e1)" using f(1) g(1) by (simp add: fat_set_def BLOCKDEV_SECTOR_def Let_def b_def)
  have ok: "vol_ok cont n v1 e1" "core v1 = core v" "same_env e e1" using f(2) by (simp_all add: keeps_def)
  have lb: "length b = 512" using vol_okD(4) [OF ok(1)] by (simp add: b_def)
  have vok: "vol_ok cont n ?v e1" using ok(1) lb by (auto simp: vol_ok_def geometry_ok_def)
  have c: "core ?v = (core v)\<lparr>v_free_cache_valid := False\<rparr>" unfolding ok(2) [symmetric] by (simp add: core_def)
  have i: "img cont ?v e1 = (img cont v e)(1 + 2 * c div 512 := b)"
  proof
    fix s
    show "img cont ?v e1 s = ((img cont v e)(1 + 2 * c div 512 := b)) s"
      unfolding f(3) [symmetric] using f(4) by (cases s) (auto simp: img_def)
  qed
  have l: "length (img cont v e (1 + 2 * c div 512)) = 512" using img_length [OF assms(1)] g(3,4) by simp
  define im' where "im' = img cont ?v e1"
  have u: "im' = (img cont v e)(1 + 2 * c div 512 := (img cont v e (1 + 2 * c div 512))
      [2 * c mod 512 := of_nat (x AND 255), 2 * c mod 512 + 1 := of_nat (drop_bit 8 x)])"
    using i unfolding im'_def [symmetric] by (simp only: b_def f(5))
  have "fat_becomes v (img cont v e) im' ((fat_at (img cont v e))(c := x))"
    using fat_at_update [where im = "img cont v e", OF l assms(3) u] u g(3) by (auto simp: fat_becomes_def)
  then have "fat_becomes v (img cont v e) (img cont ?v e1) ((fat_at (img cont v e))(c := x))" by (simp only: im'_def)
  then show ?thesis using s vok c ok(3) by blast
qed

section \<open>Free clusters and chains\<close>

definition free_clusters :: "'m volume \<Rightarrow> (nat \<Rightarrow> nat) \<Rightarrow> nat set" where
  "free_clusters v g = {c. 1 \<le> c \<and> c \<le> v_clusters v \<and> g c = FAT_FREE}"

lemma finite_free_clusters [simp]: "finite (free_clusters v g)"
  by (rule finite_subset [of _ "{..v_clusters v}"]) (auto simp: free_clusters_def)

lemma vol_ok_hint: "vol_ok cont n v e \<Longrightarrow> v_free_hint v < v_clusters v"
  by (simp add: vol_ok_def)

text \<open>What an operation that changes the FAT to \<open>g\<close> leaves alone.\<close>

definition vol_rest :: "'m volume \<Rightarrow> 'm volume" where
  "vol_rest v = (core v)\<lparr>v_free_hint := 0, v_free_cache_valid := False\<rparr>"

lemma vol_rest_core: "core v' = core v \<Longrightarrow> vol_rest v' = vol_rest v"
  by (simp add: vol_rest_def)

lemma vol_rest_updates [simp]:
  "vol_rest (v\<lparr>v_free_hint := h\<rparr>) = vol_rest v" "vol_rest (v\<lparr>v_free_cache_valid := b\<rparr>) = vol_rest v"
  by (simp_all add: vol_rest_def core_def)

definition fat_step :: "('m \<Rightarrow> nat \<Rightarrow> u8 list) \<Rightarrow> nat \<Rightarrow> 'm volume \<Rightarrow> 'm env \<Rightarrow> 'm volume \<Rightarrow> 'm env \<Rightarrow> (nat \<Rightarrow> nat) \<Rightarrow> bool" where
  "fat_step cont n v e v' e' g \<longleftrightarrow>
     vol_ok cont n v' e' \<and> same_env e e' \<and> fat_becomes v (img cont v e) (img cont v' e') g \<and>
     vol_rest v' = vol_rest v \<and> (v_free_cache_valid v' \<longrightarrow> v_free_cache_valid v \<and> g = fat_at (img cont v e))"

lemma fat_step_fields:
  assumes "fat_step cont n v e v' e' g"
  shows "v_dev v' = v_dev v" "v_version v' = v_version v" "v_dir_start v' = v_dir_start v" "v_dir_sectors v' = v_dir_sectors v"
    "v_data_start v' = v_data_start v" "v_clusters v' = v_clusters v" "v_mounted v' = v_mounted v" "v_point v' = v_point v"
    "v_fat_sectors v' = v_fat_sectors v" "vol_ok cont n v' e'" "same_env e e'" "fat_at (img cont v' e') = g"
    "\<And>s. s = 0 \<or> v_dir_start v \<le> s \<Longrightarrow> img cont v' e' s = img cont v e s" "v_free_cache v' = v_free_cache v"
proof -
  have "vol_rest v' = vol_rest v" using assms by (simp add: fat_step_def)
  then show "v_dev v' = v_dev v" "v_version v' = v_version v" "v_dir_start v' = v_dir_start v" "v_dir_sectors v' = v_dir_sectors v"
    "v_data_start v' = v_data_start v" "v_clusters v' = v_clusters v" "v_mounted v' = v_mounted v" "v_point v' = v_point v"
    "v_fat_sectors v' = v_fat_sectors v" "v_free_cache v' = v_free_cache v"
    by (cases v; cases v'; simp add: vol_rest_def core_def)+
  show "vol_ok cont n v' e'" "same_env e e'" "fat_at (img cont v' e') = g"
    "\<And>s. s = 0 \<or> v_dir_start v \<le> s \<Longrightarrow> img cont v' e' s = img cont v e s"
    using assms by (auto simp: fat_step_def fat_becomes_def)
qed

lemma fat_step_trans:
  assumes "fat_step cont n v e v1 e1 g1" "fat_step cont n v1 e1 v2 e2 g2"
  shows "fat_step cont n v e v2 e2 g2"
proof -
  note f1 = fat_step_fields [OF assms(1)] and f2 = fat_step_fields [OF assms(2)]
  have "vol_rest v2 = vol_rest v" "v_free_cache_valid v2 \<longrightarrow> v_free_cache_valid v \<and> g2 = fat_at (img cont v e)"
    using assms f1(12) by (auto simp: fat_step_def)
  moreover have "fat_becomes v (img cont v e) (img cont v2 e2) g2"
    using f1(3,13) f2(12,13) by (auto simp: fat_becomes_def)
  moreover have "same_env e e2" using f1(11) f2(11) by (simp add: same_env_def)
  ultimately show ?thesis using f2(10) by (auto simp: fat_step_def)
qed

lemma keeps_step:
  assumes "keeps cont n v e v' e'" "img cont v' e' = img cont v e"
  shows "fat_step cont n v e v' e' (fat_at (img cont v e))"
  using assms core_fields [of v' v] by (auto simp: fat_step_def keeps_def fat_becomes_refl intro: vol_rest_core)

lemma fat_set_step:
  assumes "vol_ok cont n v e" "c \<le> v_clusters v" "x < 65536"
  shows "\<exists>v' e'. fat_set v e c x = (v', e') \<and> fat_step cont n v e v' e' ((fat_at (img cont v e))(c := x)) \<and>
    v_free_hint v' = v_free_hint v"
proof -
  obtain v' e' where f: "fat_set v e c x = (v', e')" "vol_ok cont n v' e'" "core v' = (core v)\<lparr>v_free_cache_valid := False\<rparr>"
    "same_env e e'" "fat_becomes v (img cont v e) (img cont v' e') ((fat_at (img cont v e))(c := x))"
    using fat_set_at [OF assms] by blast
  have "vol_rest v' = vol_rest v \<and> v_free_hint v' = v_free_hint v \<and> \<not> v_free_cache_valid v'"
    using f(3) by (cases v; cases v') (simp add: core_def vol_rest_def)
  then show ?thesis using f unfolding fat_step_def by blast
qed

definition slot_at :: "'m volume \<Rightarrow> nat \<Rightarrow> nat" where
  "slot_at v j = (v_free_hint v + j) mod v_clusters v + 1"

lemma slot_range: "0 < v_clusters v \<Longrightarrow> 1 \<le> slot_at v j \<and> slot_at v j \<le> v_clusters v"
  by (simp add: slot_at_def Suc_leI)

lemma slot_onto:
  assumes "v_free_hint v < v_clusters v" "1 \<le> c" "c \<le> v_clusters v"
  shows "\<exists>j < v_clusters v. slot_at v j = c"
proof -
  let ?n = "v_clusters v" and ?h = "v_free_hint v"
  show ?thesis
  proof (cases "?h \<le> c - 1")
    case True
    then have "?h + (c - 1 - ?h) = c - 1" by simp
    then show ?thesis using assms by (intro exI [of _ "c - 1 - ?h"]) (simp add: slot_at_def less_diff_conv)
  next
    case False
    then have "?h + (?n - ?h + (c - 1)) = ?n + (c - 1)" "?n - ?h + (c - 1) < ?n" using assms by simp_all
    moreover have "(?n + (c - 1)) mod ?n = c - 1" using assms by (subst mod_add_self1) simp
    ultimately have "slot_at v (?n - ?h + (c - 1)) = c" using assms unfolding slot_at_def by simp
    then show ?thesis using \<open>?n - ?h + (c - 1) < ?n\<close> by blast
  qed
qed

lemma alloc_from_spec:
  assumes "vol_ok cont n v e" "k + left \<le> v_clusters v"
  shows "\<exists>c v' e'. alloc_from left v e k = (c, v', e') \<and>
    (if c = 0 then fat_step cont n v e v' e' (fat_at (img cont v e)) \<and> (\<forall>j. k \<le> j \<and> j < k + left \<longrightarrow> fat_at (img cont v e) (slot_at v j) \<noteq> FAT_FREE)
     else c \<in> free_clusters v (fat_at (img cont v e)) \<and> fat_step cont n v e v' e' ((fat_at (img cont v e))(c := FAT_END)))"
  using assms
proof (induction left arbitrary: v e k)
  case 0
  then show ?case using keeps_step [OF keeps_refl refl] by auto
next
  case (Suc left)
  note g = geometry_fields [OF vol_okD(2) [OF Suc.prems(1)]]
  let ?c = "slot_at v k" and ?g = "fat_at (img cont v e)"
  have c: "1 \<le> ?c" "?c \<le> v_clusters v" using slot_range g by auto
  have "v_free_hint v + k < 2 ^ 32" using vol_ok_hint [OF Suc.prems(1)] Suc.prems(2) g by simp
  then have ce: "add32 (v_free_hint v) k mod v_clusters v + 1 = ?c" by (simp add: slot_at_def)
  obtain v1 e1 where r: "fat_get v e ?c = (?g ?c, v1, e1)" "keeps cont n v e v1 e1" "img cont v1 e1 = img cont v e"
    using fat_get_at [OF Suc.prems(1) c(2)] by blast
  have ok1: "vol_ok cont n v1 e1" and core1: "core v1 = core v" using r(2) by (simp_all add: keeps_def)
  note s1 = keeps_step [OF r(2,3)] and f1 = core_fields [OF core1]
  show ?case
  proof (cases "?g ?c = FAT_FREE")
    case True
    obtain v2 e2 where w: "fat_set v1 e1 ?c FAT_END = (v2, e2)" "fat_step cont n v1 e1 v2 e2 (?g(?c := FAT_END))"
      using fat_set_step [OF ok1, of ?c FAT_END] c f1 r(3) by (auto simp: FAT_END_def)
    note s2 = fat_step_trans [OF s1 w(2)] and f2 = fat_step_fields [OF w(2)]
    let ?v = "v2\<lparr>v_free_hint := ?c mod v_clusters v2\<rparr>"
    have "alloc_from (Suc left) v e k = (?c, ?v, e2)" using r(1) w(1) True unfolding alloc_from.simps ce by (simp add: Let_def)
    moreover have "vol_ok cont n ?v e2" using f2(10) g f2(6) f1 by (auto simp: vol_ok_def geometry_ok_def)
    moreover have "img cont ?v e2 = img cont v2 e2" by (rule ext) (simp add: img_def)
    ultimately have "fat_step cont n v e ?v e2 (?g(?c := FAT_END))" using s2 by (auto simp: fat_step_def)
    then show ?thesis using \<open>alloc_from (Suc left) v e k = (?c, ?v, e2)\<close> c True by (auto simp: free_clusters_def)
  next
    case False
    have e: "alloc_from (Suc left) v e k = alloc_from left v1 e1 (k + 1)"
      using r(1) False unfolding alloc_from.simps ce by (simp add: Let_def)
    have fc: "free_clusters v1 g = free_clusters v g" "slot_at v1 j = slot_at v j" for g j using f1 by (simp_all add: free_clusters_def slot_at_def)
    obtain c' v' e' where i: "alloc_from left v1 e1 (k + 1) = (c', v', e')"
      "if c' = 0 then fat_step cont n v1 e1 v' e' (fat_at (img cont v1 e1)) \<and>
         (\<forall>j. k + 1 \<le> j \<and> j < k + 1 + left \<longrightarrow> fat_at (img cont v1 e1) (slot_at v1 j) \<noteq> FAT_FREE)
       else c' \<in> free_clusters v1 (fat_at (img cont v1 e1)) \<and> fat_step cont n v1 e1 v' e' ((fat_at (img cont v1 e1))(c' := FAT_END))"
      using Suc.IH [OF ok1, of "k + 1"] Suc.prems(2) f1 by auto
    show ?thesis
    proof (cases "c' = 0")
      case True
      have "fat_at (img cont v e) (slot_at v j) \<noteq> FAT_FREE" if "k \<le> j" "j < k + Suc left" for j
        using that False i(2) True fc r(3) by (cases "j = k") auto
      then show ?thesis using e i True r(3) fat_step_trans [OF s1] by auto
    next
      case False
      then show ?thesis using e i r(3) fc fat_step_trans [OF s1] by auto
    qed
  qed
qed

lemma alloc_cluster_spec:
  assumes "vol_ok cont n v e" "g = fat_at (img cont v e)"
  shows "\<exists>c v' e'. alloc_cluster v e = (c, v', e') \<and>
    (if free_clusters v g = {} then c = 0 \<and> fat_step cont n v e v' e' g
     else c \<in> free_clusters v g \<and> fat_step cont n v e v' e' (g(c := FAT_END)))"
proof -
  obtain c v' e' where a: "alloc_from (v_clusters v) v e 0 = (c, v', e')"
    "if c = 0 then fat_step cont n v e v' e' g \<and> (\<forall>j. 0 \<le> j \<and> j < 0 + v_clusters v \<longrightarrow> g (slot_at v j) \<noteq> FAT_FREE)
     else c \<in> free_clusters v g \<and> fat_step cont n v e v' e' (g(c := FAT_END))"
    using alloc_from_spec [OF assms(1), of 0 "v_clusters v"] unfolding assms(2) by auto
  have "free_clusters v g = {}" if "c = 0"
  proof -
    have "g d \<noteq> FAT_FREE" if "1 \<le> d" "d \<le> v_clusters v" for d
      using slot_onto [OF vol_ok_hint [OF assms(1)] that] a(2) \<open>c = 0\<close> by auto
    then show ?thesis by (auto simp: free_clusters_def)
  qed
  then show ?thesis using a by (auto simp: alloc_cluster_def free_clusters_def split: if_splits)
qed

text \<open>The clusters a chain that begins with \<open>c\<close> runs through, up to the mark of its end.\<close>

fun chain :: "(nat \<Rightarrow> nat) \<Rightarrow> nat \<Rightarrow> nat list \<Rightarrow> bool" where
  "chain g c [] \<longleftrightarrow> c = FAT_END"
| "chain g c (x # xs) \<longleftrightarrow> c = x \<and> chain g (g x) xs"

definition chain_ok :: "'m volume \<Rightarrow> nat list \<Rightarrow> bool" where
  "chain_ok v cs \<longleftrightarrow> distinct cs \<and> (\<forall>c \<in> set cs. 1 \<le> c \<and> c \<le> v_clusters v)"

lemma chain_update: "c \<notin> set xs \<Longrightarrow> chain (g(c := y)) d xs = chain g d xs"
  by (induction xs arbitrary: d) auto

lemma chain_cong: "(\<And>c. c \<in> set xs \<Longrightarrow> g c = h c) \<Longrightarrow> chain g d xs = chain h d xs"
  by (induction xs arbitrary: d) auto

lemma chain_ok_length: "chain_ok v cs \<Longrightarrow> length cs \<le> v_clusters v"
proof -
  assume c: "chain_ok v cs"
  then have "length cs = card (set cs)" by (simp add: chain_ok_def distinct_card)
  also have "\<dots> \<le> card {1..v_clusters v}" using c by (intro card_mono) (auto simp: chain_ok_def)
  finally show ?thesis by simp
qed

lemma chain_ok_clusters: "chain_ok v cs \<Longrightarrow> v_clusters v' = v_clusters v \<Longrightarrow> chain_ok v' cs"
  by (simp add: chain_ok_def)

lemma free_from_spec:
  assumes "vol_ok cont n v e" "chain (fat_at (img cont v e)) c cs" "chain_ok v cs" "length cs \<le> left"
  shows "\<exists>v' e'. free_from left v e c = (v', e') \<and>
    fat_step cont n v e v' e' (\<lambda>d. if d \<in> set cs then FAT_FREE else fat_at (img cont v e) d)"
  using assms
proof (induction cs arbitrary: left v e c)
  case Nil
  then have "free_from left v e c = (v, e)" by (cases left) simp_all
  then show ?case using keeps_step [OF keeps_refl [OF Nil(1)] refl] by simp
next
  case (Cons x xs)
  let ?g = "fat_at (img cont v e)"
  obtain l where l: "left = Suc l" "length xs \<le> l" using Cons.prems(4) by (cases left) auto
  have x: "c = x" "1 \<le> x" "x \<le> v_clusters v" "x \<notin> set xs" "chain ?g (?g x) xs" using Cons.prems(2,3) by (auto simp: chain_ok_def)
  have xe: "x \<noteq> FAT_END" using x(3) geometry_fields [OF vol_okD(2) [OF Cons.prems(1)]] by (simp add: FAT_END_def)
  obtain v1 e1 where r: "fat_get v e x = (?g x, v1, e1)" "keeps cont n v e v1 e1" "img cont v1 e1 = img cont v e"
    using fat_get_at [OF Cons.prems(1) x(3)] by blast
  have ok1: "vol_ok cont n v1 e1" "v_clusters v1 = v_clusters v" using r(2) core_fields by (auto simp: keeps_def)
  obtain v2 e2 where w: "fat_set v1 e1 x FAT_FREE = (v2, e2)" "fat_step cont n v1 e1 v2 e2 (?g(x := FAT_FREE))"
    using fat_set_step [OF ok1(1), of x FAT_FREE] x ok1(2) r(3) by (auto simp: FAT_FREE_def)
  note s2 = fat_step_trans [OF keeps_step [OF r(2,3)] w(2)] and f2 = fat_step_fields [OF w(2)]
  have "chain (fat_at (img cont v2 e2)) (?g x) xs" using x(4,5) f2(12) by (simp add: chain_update)
  moreover have "chain_ok v2 xs" using Cons.prems(3) f2(6) ok1(2) by (auto simp: chain_ok_def)
  ultimately obtain v' e' where i: "free_from l v2 e2 (?g x) = (v', e')"
    "fat_step cont n v2 e2 v' e' (\<lambda>d. if d \<in> set xs then FAT_FREE else fat_at (img cont v2 e2) d)"
    using Cons.IH [OF f2(10) _ _ l(2)] by blast
  have "(\<lambda>d. if d \<in> set xs then FAT_FREE else (?g(x := FAT_FREE)) d) = (\<lambda>d. if d \<in> set (x # xs) then FAT_FREE else ?g d)"
    by (rule ext) simp
  then have "fat_step cont n v e v' e' (\<lambda>d. if d \<in> set (x # xs) then FAT_FREE else ?g d)"
    using fat_step_trans [OF s2 i(2)] f2(12) by (simp only:)
  moreover have "free_from left v e c = (v', e')" using l(1) x xe r(1) w(1) i(1) by simp
  ultimately show ?case by blast
qed

lemma free_chain_spec:
  assumes "vol_ok cont n v e" "g = fat_at (img cont v e)" "chain g c cs" "chain_ok v cs"
  shows "\<exists>v' e'. free_chain v e c = (v', e') \<and> fat_step cont n v e v' e' (\<lambda>d. if d \<in> set cs then FAT_FREE else g d)"
  using free_from_spec [OF assms(1) assms(3) [unfolded assms(2)] assms(4) chain_ok_length [OF assms(4)]]
  unfolding free_chain_def assms(2) .

lemma count_from_spec:
  assumes "vol_ok cont n v e" "c + left \<le> v_clusters v + 1"
  shows "\<exists>v' e'. count_from left v e c k = (k + card {d. c \<le> d \<and> d < c + left \<and> fat_at (img cont v e) d = FAT_FREE}, v', e') \<and>
    keeps cont n v e v' e' \<and> img cont v' e' = img cont v e"
  using assms
proof (induction left arbitrary: v e c k)
  case 0
  then show ?case using keeps_refl by auto
next
  case (Suc left)
  let ?g = "fat_at (img cont v e)"
  obtain v1 e1 where r: "fat_get v e c = (?g c, v1, e1)" "keeps cont n v e v1 e1" "img cont v1 e1 = img cont v e"
    using fat_get_at [OF Suc.prems(1), of c] Suc.prems(2) by auto
  have ok1: "vol_ok cont n v1 e1" "v_clusters v1 = v_clusters v" using r(2) core_fields by (auto simp: keeps_def)
  let ?k = "if ?g c = FAT_FREE then k + 1 else k"
  obtain v' e' where i: "count_from left v1 e1 (c + 1) ?k =
      (?k + card {d. c + 1 \<le> d \<and> d < c + 1 + left \<and> ?g d = FAT_FREE}, v', e')" "keeps cont n v1 e1 v' e'" "img cont v' e' = img cont v1 e1"
    using Suc.IH [OF ok1(1), of "c + 1" ?k] Suc.prems(2) ok1(2) r(3) by auto
  have "{d. c \<le> d \<and> d < c + Suc left \<and> ?g d = FAT_FREE} =
      (if ?g c = FAT_FREE then insert c else id) {d. c + 1 \<le> d \<and> d < c + 1 + left \<and> ?g d = FAT_FREE}"
    by (auto simp: le_eq_less_or_eq)
  then have "k + card {d. c \<le> d \<and> d < c + Suc left \<and> ?g d = FAT_FREE} = ?k + card {d. c + 1 \<le> d \<and> d < c + 1 + left \<and> ?g d = FAT_FREE}"
    by (auto simp: card_insert_if)
  then show ?case using r(1) i keeps_trans [OF r(2) i(2)] r(3) by (auto simp: Let_def)
qed

text \<open>The cached answer of \<open>count_free\<close> is right whenever it is marked valid; every operation keeps it so.\<close>

definition cache_ok :: "('m \<Rightarrow> nat \<Rightarrow> u8 list) \<Rightarrow> 'm volume \<Rightarrow> 'm env \<Rightarrow> bool" where
  "cache_ok cont v e \<longleftrightarrow> (v_free_cache_valid v \<longrightarrow> v_free_cache v = card (free_clusters v (fat_at (img cont v e))))"

lemma cache_ok_step: "fat_step cont n v e v' e' g \<Longrightarrow> cache_ok cont v e \<Longrightarrow> cache_ok cont v' e'"
proof -
  assume s: "fat_step cont n v e v' e' g" and c: "cache_ok cont v e"
  note f = fat_step_fields [OF s]
  have "v_free_cache v' = card (free_clusters v' (fat_at (img cont v' e')))" if "v_free_cache_valid v'"
  proof -
    have "v_free_cache_valid v" "g = fat_at (img cont v e)" using s that by (simp_all add: fat_step_def)
    then show ?thesis using c f(6,12,14) by (simp add: cache_ok_def free_clusters_def)
  qed
  then show ?thesis by (simp add: cache_ok_def)
qed

lemma count_free_spec:
  assumes "vol_ok cont n v e" "g = fat_at (img cont v e)" "cache_ok cont v e"
  shows "\<exists>v' e'. count_free v e = (card (free_clusters v g), v', e') \<and> vol_ok cont n v' e' \<and> same_env e e' \<and>
    img cont v' e' = img cont v e \<and> v_free_cache_valid v' \<and> cache_ok cont v' e'"
proof (cases "v_free_cache_valid v")
  case True
  then show ?thesis using assms by (auto simp: count_free_def cache_ok_def same_env_def)
next
  case False
  have "{d. 1 \<le> d \<and> d < 1 + v_clusters v \<and> g d = FAT_FREE} = free_clusters v g" by (auto simp: free_clusters_def)
  then obtain v1 e1 where c: "count_from (v_clusters v) v e 1 0 = (card (free_clusters v g), v1, e1)" "keeps cont n v e v1 e1"
    "img cont v1 e1 = img cont v e"
    using count_from_spec [OF assms(1), of 1 "v_clusters v" 0] assms(2) by auto
  let ?v = "v1\<lparr>v_free_cache := card (free_clusters v g), v_free_cache_valid := True\<rparr>"
  have "count_free v e = (card (free_clusters v g), ?v, e1)" using c(1) False by (simp add: count_free_def)
  moreover have i: "img cont ?v e1 = img cont v e" unfolding c(3) [symmetric] by (rule ext) (simp add: img_def)
  moreover have "vol_ok cont n ?v e1" "same_env e e1" using c(2) by (auto simp: keeps_def vol_ok_def geometry_ok_def)
  moreover have "cache_ok cont ?v e1" using c(2) i assms(2) core_fields [of v1 v] by (simp add: cache_ok_def free_clusters_def keeps_def)
  ultimately show ?thesis by auto
qed

section \<open>The FAT, its free clusters and its chains\<close>

text \<open>A volume in memory: eight sectors of zeros, the geometry that leaves five clusters.\<close>

definition ram_env :: "(nat \<Rightarrow> u8 list) env" where
  "ram_env = \<lparr>mach = (\<lambda>s. []), errno = E0, rtc = (\<lambda>m. (0, m))\<rparr>"

definition ram_volume :: "(nat \<Rightarrow> u8 list) volume" where
  "ram_volume =
     \<lparr>v_point = [], v_dev = ram_disk 8, v_mounted = True, v_version = 2, v_fat_start = 1, v_fat_sectors = 1, v_dir_start = 2,
      v_dir_sectors = 1, v_data_start = 3, v_clusters = 5, v_fat_buf = zero_sector, v_fat_no = None, v_fat_dirty = False,
      v_dir_buf = zero_sector, v_dir_sec = 0, v_dir_dirty = False, v_free_hint = 0, v_free_cache = 0,
      v_free_cache_valid = False, v_io_bad = False\<rparr>"

lemma ram_volume_ok: "vol_ok ram_cont 8 ram_volume ram_env"
  by (simp add: vol_ok_def ram_volume_def ram_disk_ok geometry_ok_def zero_sector_def BLOCKDEV_SECTOR_def)

lemma ram_volume_img: "img ram_cont ram_volume ram_env s = replicate 512 0"
  by (cases s) (simp_all add: img_def ram_volume_def ram_env_def ram_cont_def)

lemma ram_volume_fat: "fat_at (img ram_cont ram_volume ram_env) c = 0"
proof -
  have "2 * c mod 512 = 2 * (c mod 256)" using mult_mod_right [of 2 c 256] by simp
  then have "2 * c mod 512 + 1 < 512" by simp
  then show ?thesis unfolding fat_at_def ram_volume_img by (simp only: nth_replicate) simp
qed

text \<open>
  C23: On a device that works, and whatever its caches hold, the FAT of a volume is an array of numbers.
  \<open>fat_get\<close> returns the entry of a cluster and changes no sector; \<open>fat_set\<close> changes that entry and no other;
  \<open>alloc_cluster\<close> takes a free cluster and marks it the end of a chain, and fails only when there is none;
  \<open>free_chain\<close> frees exactly the clusters of the chain; \<open>count_free\<close> is the number of free clusters, from its
  cache or not. None of them changes a sector outside the FAT, and the cached count stays true.
\<close>

theorem fat_refines_array:
  assumes "vol_ok cont n v e" "cache_ok cont v e" "g = fat_at (img cont v e)"
  shows "(\<forall>c \<le> v_clusters v. \<exists>v' e'. fat_get v e c = (g c, v', e') \<and> vol_ok cont n v' e' \<and> cache_ok cont v' e' \<and>
      img cont v' e' = img cont v e) \<and>
    (\<forall>c \<le> v_clusters v. \<forall>x < 65536. \<exists>v' e'. fat_set v e c x = (v', e') \<and> vol_ok cont n v' e' \<and> cache_ok cont v' e' \<and>
      fat_at (img cont v' e') = g(c := x) \<and>
      (\<forall>s. s = 0 \<or> v_dir_start v \<le> s \<longrightarrow> img cont v' e' s = img cont v e s)) \<and>
    (\<exists>a v' e'. alloc_cluster v e = (a, v', e') \<and> vol_ok cont n v' e' \<and> cache_ok cont v' e' \<and>
      (if free_clusters v g = {} then a = 0 \<and> fat_at (img cont v' e') = g
       else a \<in> free_clusters v g \<and> fat_at (img cont v' e') = g(a := FAT_END)) \<and>
      (\<forall>s. s = 0 \<or> v_dir_start v \<le> s \<longrightarrow> img cont v' e' s = img cont v e s)) \<and>
    (\<forall>c cs. chain g c cs \<longrightarrow> chain_ok v cs \<longrightarrow>
      (\<exists>v' e'. free_chain v e c = (v', e') \<and> vol_ok cont n v' e' \<and> cache_ok cont v' e' \<and>
        fat_at (img cont v' e') = (\<lambda>d. if d \<in> set cs then FAT_FREE else g d) \<and>
        (\<forall>s. s = 0 \<or> v_dir_start v \<le> s \<longrightarrow> img cont v' e' s = img cont v e s))) \<and>
    (\<exists>v' e'. count_free v e = (card (free_clusters v g), v', e') \<and> vol_ok cont n v' e' \<and> cache_ok cont v' e' \<and>
      img cont v' e' = img cont v e)"
proof (intro conjI allI impI)
  fix c assume c: "c \<le> v_clusters v"
  obtain v' e' where f: "fat_get v e c = (g c, v', e')" "keeps cont n v e v' e'" "img cont v' e' = img cont v e"
    using fat_get_at [OF assms(1) c] assms(3) by blast
  moreover have "cache_ok cont v' e'"
    using f(2,3) assms(2) core_fields [of v' v] by (simp add: keeps_def cache_ok_def free_clusters_def)
  ultimately show "\<exists>v' e'. fat_get v e c = (g c, v', e') \<and> vol_ok cont n v' e' \<and> cache_ok cont v' e' \<and>
      img cont v' e' = img cont v e"
    unfolding keeps_def by blast
next
  fix c x :: nat assume c: "c \<le> v_clusters v" "x < 65536"
  obtain v' e' where f: "fat_set v e c x = (v', e')" "fat_step cont n v e v' e' (g(c := x))"
    using fat_set_step [OF assms(1) c] unfolding assms(3) by blast
  then show "\<exists>v' e'. fat_set v e c x = (v', e') \<and> vol_ok cont n v' e' \<and> cache_ok cont v' e' \<and>
      fat_at (img cont v' e') = g(c := x) \<and>
      (\<forall>s. s = 0 \<or> v_dir_start v \<le> s \<longrightarrow> img cont v' e' s = img cont v e s)"
    using cache_ok_step [OF f(2) assms(2)] fat_step_fields(10,12,13) [OF f(2)] by blast
next
  obtain a v' e' where a: "alloc_cluster v e = (a, v', e')"
    "if free_clusters v g = {} then a = 0 \<and> fat_step cont n v e v' e' g
     else a \<in> free_clusters v g \<and> fat_step cont n v e v' e' (g(a := FAT_END))"
    using alloc_cluster_spec [OF assms(1,3)] by blast
  then obtain h where h: "fat_step cont n v e v' e' h" by (auto split: if_splits)
  show "\<exists>a v' e'. alloc_cluster v e = (a, v', e') \<and> vol_ok cont n v' e' \<and> cache_ok cont v' e' \<and>
      (if free_clusters v g = {} then a = 0 \<and> fat_at (img cont v' e') = g
       else a \<in> free_clusters v g \<and> fat_at (img cont v' e') = g(a := FAT_END)) \<and>
      (\<forall>s. s = 0 \<or> v_dir_start v \<le> s \<longrightarrow> img cont v' e' s = img cont v e s)"
    using a cache_ok_step [OF h assms(2)] fat_step_fields(10,13) [OF h]
    by (intro exI [of _ a] exI [of _ v'] exI [of _ e']) (auto dest: fat_step_fields(12) split: if_splits)
next
  fix c cs assume c: "chain g c cs" "chain_ok v cs"
  obtain v' e' where f: "free_chain v e c = (v', e')" "fat_step cont n v e v' e' (\<lambda>d. if d \<in> set cs then FAT_FREE else g d)"
    using free_chain_spec [OF assms(1,3) c] by blast
  then show "\<exists>v' e'. free_chain v e c = (v', e') \<and> vol_ok cont n v' e' \<and> cache_ok cont v' e' \<and>
      fat_at (img cont v' e') = (\<lambda>d. if d \<in> set cs then FAT_FREE else g d) \<and>
      (\<forall>s. s = 0 \<or> v_dir_start v \<le> s \<longrightarrow> img cont v' e' s = img cont v e s)"
    using cache_ok_step [OF f(2) assms(2)] fat_step_fields(10,12,13) [OF f(2)] by blast
next
  show "\<exists>v' e'. count_free v e = (card (free_clusters v g), v', e') \<and> vol_ok cont n v' e' \<and> cache_ok cont v' e' \<and>
      img cont v' e' = img cont v e"
    using count_free_spec [OF assms(1,3,2)] by blast
qed

theorem fat_refines_array_witness:
  "\<exists>v' e'. count_free ram_volume ram_env = (card (free_clusters ram_volume (fat_at (img ram_cont ram_volume ram_env))), v', e')"
  using fat_refines_array [OF ram_volume_ok _ refl] by (auto simp: cache_ok_def ram_volume_def)

end
