(* ===== verification/Fs_Dir.thy ===== *)
theory Fs_Dir
  imports Fs_Image
begin

text \<open>
  Directories of a volume on a device that works: the 32 and 64 byte entries and what they hold, the sectors of a directory,
  and the operations on its entries as those of an array.
\<close>

section \<open>Entries as bytes\<close>

lemma put_le32_nth [simp]: "k < i \<or> i + 3 < k \<Longrightarrow> put_le32 p i v ! k = p ! k"
  by (auto simp: put_le32_def put_le16_def nth_list_update)

lemma le32_cong: "(\<And>k. i \<le> k \<Longrightarrow> k \<le> i + 3 \<Longrightarrow> p ! k = q ! k) \<Longrightarrow> le32 p i = le32 q i"
  by (simp add: le32_def le16_def)

lemma le32_put_le32_other: "j + 3 < i \<or> i + 3 < j \<Longrightarrow> le32 (put_le32 p i v) j = le32 p j"
  by (rule le32_cong) auto

lemma take_put_le32: "k \<le> i \<Longrightarrow> take k (put_le32 p i v) = take k p"
  by (simp add: put_le32_def put_le16_def)

text \<open>An entry the code can hold in memory, and what a volume of a version keeps of it.\<close>

definition entry_ok :: "entry \<Rightarrow> bool" where
  "entry_ok en \<longleftrightarrow> length (en_name en) = 48 \<and> en_first en < U32 \<and> en_size en < U32 \<and> en_mtime en < U32 \<and> en_flags en < U32"

definition entry_stored :: "nat \<Rightarrow> entry \<Rightarrow> entry" where
  "entry_stored version en =
     (if version = 1
      then en\<lparr>en_name := take 23 (en_name en) @ replicate 25 0, en_first := en_first en mod 65536,
              en_mtime := 0, en_flags := en_flags en mod 2\<rparr>
      else en\<lparr>en_name := (en_name en)[47 := 0]\<rparr>)"

lemma length_entry_encode: "entry_ok en \<Longrightarrow> length (entry_encode version en) = (if version = 1 then 32 else 64)"
  by (simp add: entry_encode_def Let_def entry_ok_def)

lemma unat_of_nat_byte: "unat (of_nat x :: u8) = x mod 256"
  by (simp add: unsigned_of_nat take_bit_eq_mod)

lemma entry_decode_encode1:
  assumes "entry_ok en"
  shows "entry_decode 1 (entry_encode 1 en @ rest) = entry_stored 1 en"
proof -
  define a where "a = (take 24 (en_name en) @ replicate 8 (0 :: u8))[23 := 0]"
  define raw where "raw = a[24 := of_nat (en_first en), 25 := of_nat (drop_bit 8 (en_first en)), 26 := of_nat (en_flags en AND E_USED), 27 := 0]"
  define enc where "enc = put_le32 raw 28 (of_nat (en_size en))"
  have la: "length a = 32" "length raw = 32" "length enc = 32" using assms by (simp_all add: a_def raw_def enc_def entry_ok_def)
  have e: "entry_encode 1 en = enc" by (simp add: entry_encode_def Let_def a_def raw_def enc_def)
  have "take 24 (enc @ rest) = take 24 a" using la by (simp add: enc_def raw_def take_put_le32)
  also have "\<dots> = (take 24 (en_name en))[23 := 0]" using assms by (simp add: a_def entry_ok_def take_update_swap)
  finally have t: "take 24 (enc @ rest) = (take 24 (en_name en))[23 := 0]" .
  have nm: "(take 24 (enc @ rest) @ replicate 24 0)[23 := 0] = take 23 (en_name en) @ replicate 25 0"
  proof -
    have "(take 24 (en_name en))[23 := 0] = take 23 (en_name en) @ [0 :: u8]"
      using assms take_Suc_conv_app_nth [of 23 "en_name en"] by (simp add: entry_ok_def list_update_append)
    then have "(take 24 (enc @ rest) @ replicate 24 0)[23 := 0] = ((take 23 (en_name en) @ [0]) @ replicate 24 0)[23 := 0]" using t by simp
    also have "\<dots> = take 23 (en_name en) @ (0 # replicate 24 0)" using assms by (simp add: entry_ok_def list_update_append)
    also have "0 # replicate 24 0 = replicate 25 (0 :: u8)" by (simp add: replicate_Suc [symmetric])
    finally show ?thesis .
  qed
  have bt: "(enc @ rest) ! 24 = of_nat (en_first en)" "(enc @ rest) ! 25 = of_nat (drop_bit 8 (en_first en))"
    "(enc @ rest) ! 26 = of_nat (en_flags en AND E_USED)" "(enc @ rest) ! 27 = 0"
    using la by (simp_all add: enc_def nth_append raw_def)
  have f: "unat ((enc @ rest) ! 24) OR push_bit 8 (unat ((enc @ rest) ! 25)) = en_first en mod 65536"
  proof -
    have "en_first en mod 65536 = en_first en mod 256 + 256 * (en_first en div 256 mod 256)"
      using mod_mult2_eq [of "en_first en" 256 256] by simp
    then show ?thesis unfolding bt unat_of_nat_byte by (simp add: byte_or drop_bit_eq_div)
  qed
  have u: "en_flags en AND 1 = en_flags en mod 2" "en_flags en mod 2 AND 1 = en_flags en mod 2" by (simp_all add: and_one_eq)
  have g: "(unat ((enc @ rest) ! 26) OR push_bit 8 (unat ((enc @ rest) ! 27))) AND E_USED = en_flags en mod 2"
    unfolding bt unat_of_nat_byte E_USED_def u(1) using u(2) by (simp add: byte_or)
  have "le32 (enc @ rest) 28 = le32 enc 28" using la by (intro le32_cong) (simp add: nth_append)
  also have "\<dots> = of_nat (en_size en)" unfolding enc_def using la by (intro le32_put_le32) simp
  finally have s: "unat (le32 (enc @ rest) 28) = en_size en" using assms by (simp add: entry_ok_def)
  show ?thesis unfolding e entry_decode_def using nm f g s by (simp add: entry_stored_def zero_entry_def)
qed

lemma entry_decode_encode2:
  assumes "entry_ok en" "version \<noteq> 1"
  shows "entry_decode version (entry_encode version en @ rest) = entry_stored version en"
proof -
  define a where "a = (take 48 (en_name en) @ replicate 16 (0 :: u8))[47 := 0]"
  define b where "b = put_le32 a 48 (of_nat (en_first en))"
  define c where "c = put_le32 b 52 (of_nat (en_size en))"
  define d where "d = put_le32 c 56 (of_nat (en_mtime en))"
  define enc where "enc = put_le32 d 60 (of_nat (en_flags en))"
  have l: "length a = 64" "length b = 64" "length c = 64" "length d = 64" "length enc = 64"
    using assms by (simp_all add: a_def b_def c_def d_def enc_def entry_ok_def)
  have e: "entry_encode version en = enc" using assms(2) by (simp add: entry_encode_def Let_def a_def b_def c_def d_def enc_def)
  have "take 48 (enc @ rest) = take 48 a" using l by (simp add: enc_def d_def c_def b_def take_put_le32)
  also have "\<dots> = (en_name en)[47 := 0]" using assms(1) by (simp add: a_def entry_ok_def list_update_append)
  finally have nm: "(take 48 (enc @ rest))[47 := 0] = (en_name en)[47 := 0]" by simp
  have i: "le32 (enc @ rest) j = le32 enc j" if "j \<le> 60" for j using that l by (intro le32_cong) (simp add: nth_append)
  have w: "le32 enc 48 = of_nat (en_first en)" "le32 enc 52 = of_nat (en_size en)" "le32 enc 56 = of_nat (en_mtime en)"
    "le32 enc 60 = of_nat (en_flags en)"
    using l by (simp_all add: enc_def d_def c_def b_def le32_put_le32_other le32_put_le32)
  show ?thesis unfolding e entry_decode_def using nm w assms by (simp add: i entry_stored_def zero_entry_def entry_ok_def)
qed

lemma entry_decode_encode:
  "entry_ok en \<Longrightarrow> entry_decode version (entry_encode version en @ rest) = entry_stored version en"
  using entry_decode_encode1 entry_decode_encode2 by (cases "version = 1") auto

section \<open>The cached directory sector\<close>

lemma dir_flush_keeps:
  assumes "vol_ok cont n v e"
  shows "\<exists>v' e'. dir_flush v e = (v', e') \<and> keeps cont n v e v' e' \<and> img cont v' e' = img cont v e \<and>
    v_fat_no v' = v_fat_no v \<and> v_dir_sec v' = v_dir_sec v \<and> v_dir_buf v' = v_dir_buf v \<and>
    (v_dir_sec v \<noteq> 0 \<longrightarrow> cont (mach e') (v_dir_sec v) = v_dir_buf v)"
proof (cases "v_dir_sec v \<noteq> 0 \<and> v_dir_dirty v")
  case False
  have "vol_ok cont n (v\<lparr>v_dir_dirty := False\<rparr>) e" using assms False by (auto simp: vol_ok_def geometry_ok_def)
  moreover have "img cont (v\<lparr>v_dir_dirty := False\<rparr>) e = img cont v e" by (rule ext) (simp add: img_def)
  moreover have "v_dir_sec v \<noteq> 0 \<longrightarrow> cont (mach e) (v_dir_sec v) = v_dir_buf v"
    using assms False by (auto simp: vol_ok_def)
  ultimately show ?thesis using False
    by (intro exI [of _ "v\<lparr>v_dir_dirty := False\<rparr>"] exI [of _ e]) (auto simp: dir_flush_def keeps_def same_env_def)
next
  case True
  note ok = vol_okD [OF assms]
  have r: "v_dir_start v \<le> v_dir_sec v" "v_dir_sec v < n" using True ok(6) by auto
  obtain m' where w: "bd_write (v_dev v) (mach e) (v_dir_sec v) (v_dir_buf v) = (0, m')" and
    c: "cont m' = (cont (mach e))(v_dir_sec v := v_dir_buf v)"
    using device_write [OF ok(1) r(2) ok(5)] by blast
  have ro: "\<not> bd_read_only (v_dev v)" using ok(1) by (simp add: device_ok_def)
  have f: "dir_flush v e = (v\<lparr>v_dir_dirty := False\<rparr>, e\<lparr>mach := m'\<rparr>)"
    using True w ro by (simp add: dir_flush_def wr_def)
  have nf: "v_fat_no v = Some k \<Longrightarrow> 1 + k \<noteq> v_dir_sec v" for k using ok(8) [of k] r by auto
  have vok: "vol_ok cont n (v\<lparr>v_dir_dirty := False\<rparr>) (e\<lparr>mach := m'\<rparr>)"
    using assms c nf r True unfolding vol_ok_def by (simp add: geometry_ok_def)
  have i: "img cont (v\<lparr>v_dir_dirty := False\<rparr>) (e\<lparr>mach := m'\<rparr>) = img cont v e"
    by (rule ext) (simp add: img_def c True)
  show ?thesis using f vok i c
    by (intro exI [of _ "v\<lparr>v_dir_dirty := False\<rparr>"] exI [of _ "e\<lparr>mach := m'\<rparr>"]) (simp add: keeps_def same_env_def)
qed

lemma dir_load_keeps:
  assumes "vol_ok cont n v e" "v_dir_start v \<le> s" "s < n"
  shows "\<exists>v' e'. dir_load v e s = (v', e') \<and> keeps cont n v e v' e' \<and> img cont v' e' = img cont v e \<and>
    v_dir_sec v' = s \<and> v_dir_buf v' = img cont v e s"
proof -
  have s0: "s \<noteq> 0" using assms(2) geometry_fields [OF vol_okD(2) [OF assms(1)]] by auto
  have nfs: "v_fat_no v = Some k \<Longrightarrow> k \<noteq> s - 1" for k using vol_okD(8) [OF assms(1), of k] assms(2) by auto
  show ?thesis
  proof (cases "v_dir_sec v = s")
    case True
    then show ?thesis using keeps_refl [OF assms(1)] s0 nfs
      by (intro exI [of _ v] exI [of _ e]) (auto simp: dir_load_def img_def)
  next
    case False
    obtain v1 e1 where f: "dir_flush v e = (v1, e1)" "keeps cont n v e v1 e1" "img cont v1 e1 = img cont v e"
      "v_fat_no v1 = v_fat_no v" "v_dir_sec v1 = v_dir_sec v" "v_dir_buf v1 = v_dir_buf v"
      "v_dir_sec v \<noteq> 0 \<longrightarrow> cont (mach e1) (v_dir_sec v) = v_dir_buf v"
      using dir_flush_keeps [OF assms(1)] by blast
    have ok: "vol_ok cont n v1 e1" "core v1 = core v" "same_env e e1" using f(2) by (simp_all add: keeps_def)
    obtain m' where r: "bd_read (v_dev v1) (mach e1) s (v_dir_buf v1) = (0, cont (mach e1) s, m')" and c: "cont m' = cont (mach e1)"
      using device_read [OF vol_okD(1) [OF ok(1)] assms(3)] by blast
    let ?v = "v1\<lparr>v_dir_buf := cont (mach e1) s, v_dir_sec := s\<rparr>" and ?e = "e1\<lparr>mach := m'\<rparr>"
    have l: "dir_load v e s = (?v, ?e)" using False f(1) r by (simp add: dir_load_def rd_def)
    have vok: "vol_ok cont n ?v ?e"
      using ok(1) c assms(2,3) core_fields [OF ok(2)] device_length [OF vol_okD(1) [OF ok(1)] assms(3)] s0
      unfolding vol_ok_def geometry_ok_def by simp
    have i: "img cont ?v ?e = img cont v1 e1"
    proof
      fix t
      show "img cont ?v ?e t = img cont v1 e1 t"
      proof (cases "0 < t \<and> v_fat_no v1 = Some (t - 1)")
        case True
        then show ?thesis by (simp add: img_def)
      next
        case nf: False
        show ?thesis using nf f(5,6,7) c by (cases t) (auto simp: img_def)
      qed
    qed
    have "img cont v1 e1 s = cont (mach e1) s" using nfs f(4,5) False s0 by (auto simp: img_def)
    then have "v_dir_buf ?v = img cont v e s" unfolding f(3) [symmetric] by simp
    moreover have "keeps cont n v e ?v ?e" using vok ok(2,3) by (simp add: keeps_def same_env_def)
    moreover have "img cont ?v ?e = img cont v e" by (simp only: i f(3))
    moreover have "v_dir_sec ?v = s" by simp
    ultimately show ?thesis using l by blast
  qed
qed

section \<open>The sectors of a directory\<close>

definition cluster_at :: "'m volume \<Rightarrow> nat \<Rightarrow> nat" where
  "cluster_at v c = v_data_start v + c - 1"

definition dir_sectors_are :: "'m volume \<Rightarrow> (nat \<Rightarrow> nat) \<Rightarrow> nat \<Rightarrow> nat list \<Rightarrow> bool" where
  "dir_sectors_are v g dir secs \<longleftrightarrow>
     (if dir = 0 then secs = [v_dir_start v..<v_data_start v]
      else \<exists>cs. chain g dir cs \<and> cs \<noteq> [] \<and> chain_ok v cs \<and> secs = map (cluster_at v) cs)"

lemma cluster_sector_at:
  assumes "geometry_ok v n" "1 \<le> c" "c \<le> v_clusters v"
  shows "cluster_sector v c = cluster_at v c" "v_data_start v \<le> cluster_at v c" "cluster_at v c < n"
proof -
  have "v_data_start v + c < U32" using assms by (auto simp: geometry_ok_def)
  then show "cluster_sector v c = cluster_at v c" using assms by (simp add: cluster_sector_def cluster_at_def)
  show "v_data_start v \<le> cluster_at v c" "cluster_at v c < n" using assms by (auto simp: geometry_ok_def cluster_at_def)
qed

lemma dir_sectors_range:
  assumes "geometry_ok v n" "dir_sectors_are v g dir secs" "s \<in> set secs"
  shows "v_dir_start v \<le> s" "s < n" "s \<noteq> 0"
proof -
  have *: "v_dir_start v \<le> s \<and> s < n"
  proof (cases "dir = 0")
    case True
    then show ?thesis using assms by (auto simp: dir_sectors_are_def geometry_ok_def)
  next
    case False
    then obtain cs c where "chain_ok v cs" "c \<in> set cs" "s = cluster_at v c" using assms by (auto simp: dir_sectors_are_def)
    then show ?thesis using cluster_sector_at [OF assms(1), of c] assms(1) by (auto simp: chain_ok_def geometry_ok_def)
  qed
  then show "v_dir_start v \<le> s" "s < n" by simp_all
  show "s \<noteq> 0" using * assms(1) by (auto simp: geometry_ok_def)
qed

lemma dir_sectors_distinct:
  assumes "dir_sectors_are v g dir secs" "0 < v_data_start v"
  shows "distinct secs"
proof (cases "dir = 0")
  case False
  then obtain cs where c: "chain_ok v cs" "secs = map (cluster_at v) cs" using assms(1) by (auto simp: dir_sectors_are_def)
  have "inj_on (cluster_at v) (set cs)" using c(1) assms(2) by (auto simp: inj_on_def cluster_at_def chain_ok_def)
  then show ?thesis using c by (simp add: distinct_map chain_ok_def)
qed (use assms in \<open>simp add: dir_sectors_are_def\<close>)

lemma dir_walk_spec:
  assumes "vol_ok cont n v e" "chain (fat_at (img cont v e)) c cs" "chain_ok v cs" "cs \<noteq> []"
  shows "\<exists>v' e'. dir_walk s v e c False = (if s < length cs then cluster_at v (cs ! s) else 0, v', e') \<and>
    keeps cont n v e v' e' \<and> img cont v' e' = img cont v e"
  using assms
proof (induction s arbitrary: v e c cs)
  case 0
  then obtain xs where x: "cs = c # xs" by (cases cs) auto
  then show ?case using cluster_sector_at(1) [OF vol_okD(2) [OF 0(1)], of c] 0 keeps_refl by (auto simp: chain_ok_def)
next
  case (Suc s)
  let ?g = "fat_at (img cont v e)"
  from Suc.prems obtain xs where x: "cs = c # xs" "1 \<le> c" "c \<le> v_clusters v" "chain ?g (?g c) xs" "chain_ok v xs"
    by (cases cs) (auto simp: chain_ok_def)
  obtain v1 e1 where r: "fat_get v e c = (?g c, v1, e1)" "keeps cont n v e v1 e1" "img cont v1 e1 = img cont v e"
    using fat_get_at [OF Suc.prems(1) x(3)] by blast
  have ok1: "vol_ok cont n v1 e1" "core v1 = core v" using r(2) by (simp_all add: keeps_def)
  note f = core_fields [OF ok1(2)]
  show ?case
  proof (cases xs)
    case Nil
    then show ?thesis using x(1,4) r by auto
  next
    case (Cons y ys)
    have y: "?g c = y" "1 \<le> y" "y \<le> v_clusters v" using x(4,5) Cons by (auto simp: chain_ok_def)
    have ne: "y \<noteq> FAT_END" "y \<noteq> FAT_FREE" using y geometry_fields [OF vol_okD(2) [OF Suc.prems(1)]] by (auto simp: FAT_END_def FAT_FREE_def)
    obtain v' e' where i: "dir_walk s v1 e1 y False = (if s < length xs then cluster_at v1 (xs ! s) else 0, v', e')"
      "keeps cont n v1 e1 v' e'" "img cont v' e' = img cont v1 e1"
      using Suc.IH [OF ok1(1), of y xs] x(4,5) y(1) r(3) Cons chain_ok_clusters [OF x(5), of v1] f by auto
    have "cluster_at v1 = cluster_at v" using f by (auto simp: cluster_at_def)
    then show ?thesis using r(1) i y ne f keeps_trans [OF r(2) i(2)] r(3) x(1) by auto
  qed
qed

lemma dir_sector_spec:
  assumes "vol_ok cont n v e" "dir_sectors_are v (fat_at (img cont v e)) dir secs"
  shows "\<exists>v' e'. dir_sector v e dir s False = (if s < length secs then secs ! s else 0, v', e') \<and>
    keeps cont n v e v' e' \<and> img cont v' e' = img cont v e"
proof (cases "dir = 0")
  case True
  have g: "geometry_ok v n" by (rule vol_okD(2) [OF assms(1)])
  have d: "v_data_start v = v_dir_start v + v_dir_sectors v" "v_data_start v < U32" using g by (auto simp: geometry_ok_def)
  have "s < v_dir_sectors v \<Longrightarrow> add32 (v_dir_start v) s = v_dir_start v + s" using d by simp
  then show ?thesis using True assms d keeps_refl by (auto simp: dir_sector_def dir_sectors_are_def)
next
  case False
  then obtain cs where c: "chain (fat_at (img cont v e)) dir cs" "chain_ok v cs" "cs \<noteq> []" "secs = map (cluster_at v) cs"
    using assms(2) by (auto simp: dir_sectors_are_def)
  show ?thesis using dir_walk_spec [OF assms(1) c(1,2,3), of s] False c(4) by (auto simp: dir_sector_def)
qed

section \<open>The entries of a directory\<close>

definition entry_bytes :: "nat \<Rightarrow> nat" where
  "entry_bytes version = (if version = 1 then 32 else 64)"

definition sector_entries :: "nat \<Rightarrow> nat" where
  "sector_entries version = (if version = 1 then 16 else 8)"

definition entry_at :: "nat \<Rightarrow> (nat \<Rightarrow> u8 list) \<Rightarrow> nat list \<Rightarrow> nat \<Rightarrow> entry" where
  "entry_at version im secs i =
     entry_decode version (drop (i mod sector_entries version * entry_bytes version) (im (secs ! (i div sector_entries version))))"

lemma entry_sizes: "entry_size v = entry_bytes (v_version v)" "per_sector v = sector_entries (v_version v)"
  by (simp_all add: entry_size_def per_sector_def entry_bytes_def sector_entries_def BLOCKDEV_SECTOR_def)

lemma sector_entries_pos: "0 < sector_entries version"
  by (simp add: sector_entries_def)

lemma entry_place: "i mod sector_entries version * entry_bytes version + entry_bytes version \<le> 512"
proof -
  have "i mod 16 * 32 + 32 \<le> 512" "i mod 8 * 64 + 64 \<le> 512"
    using mod_less_divisor [of 16 i] mod_less_divisor [of 8 i] by linarith+
  then show ?thesis by (simp add: sector_entries_def entry_bytes_def)
qed

lemma entry_decode_take:
  assumes "take (entry_bytes version) p = take (entry_bytes version) q" "entry_bytes version \<le> length p" "entry_bytes version \<le> length q"
  shows "entry_decode version p = entry_decode version q"
proof -
  have n: "p ! k = q ! k" if "k < entry_bytes version" for k using assms(1) that by (metis nth_take)
  have t: "take k p = take k q" if "k \<le> entry_bytes version" for k using assms(1) that by (metis min_def take_take)
  show ?thesis
  proof (cases "version = 1")
    case True
    then have "le32 p 28 = le32 q 28" using n by (intro le32_cong) (simp add: entry_bytes_def)
    then show ?thesis using True n [of 24] n [of 25] n [of 26] n [of 27] t [of 24] by (simp add: entry_decode_def entry_bytes_def)
  next
    case False
    then have "le32 p k = le32 q k" if "k \<le> 60" for k using n that by (intro le32_cong) (simp add: entry_bytes_def)
    then show ?thesis using False t [of 48] by (simp add: entry_decode_def entry_bytes_def)
  qed
qed

lemma splice_take_drop:
  assumes "at + length raw \<le> length b"
  shows "drop at (take at b @ raw @ drop (at + length raw) b) = raw @ drop (at + length raw) b"
    "a + k \<le> at \<or> at + length raw \<le> a \<Longrightarrow> take k (drop a (take at b @ raw @ drop (at + length raw) b)) = take k (drop a b)"
proof -
  show "drop at (take at b @ raw @ drop (at + length raw) b) = raw @ drop (at + length raw) b" using assms by simp
  assume "a + k \<le> at \<or> at + length raw \<le> a"
  then show "take k (drop a (take at b @ raw @ drop (at + length raw) b)) = take k (drop a b)"
  proof
    assume "a + k \<le> at"
    then have "take k (drop a (take at b)) = take k (drop a b)" by (simp add: drop_take min_def)
    then show ?thesis using assms \<open>a + k \<le> at\<close> by (simp add: min_def)
  next
    assume l: "at + length raw \<le> a"
    then obtain j where "a = at + length raw + j" using le_Suc_ex by blast
    then show ?thesis using assms by (simp add: add.commute add.left_commute)
  qed
qed

lemma entry_at_update:
  assumes "entry_ok en" "distinct secs" "i < length secs * sector_entries version" "j < length secs * sector_entries version"
    "length (im (secs ! (i div sector_entries version))) = 512"
    "at = i mod sector_entries version * entry_bytes version" "raw = entry_encode version en"
    "im' = im (secs ! (i div sector_entries version) :=
       take at (im (secs ! (i div sector_entries version))) @ raw @ drop (at + length raw) (im (secs ! (i div sector_entries version))))"
  shows "entry_at version im' secs j = (if j = i then entry_stored version en else entry_at version im secs j)"
proof -
  let ?n = "sector_entries version" and ?z = "entry_bytes version"
  have lr: "length raw = ?z" using length_entry_encode [OF assms(1), of version] assms(7) by (simp add: entry_bytes_def)
  define b where "b = im (secs ! (i div ?n))"
  have fit: "at + length raw \<le> length b" using entry_place [of i version] assms(5,6) lr by (simp add: b_def)
  have d: "i div ?n < length secs" "j div ?n < length secs" using assms(3,4) sector_entries_pos by (simp_all add: less_mult_imp_div_less)
  show ?thesis
  proof (cases "j div ?n = i div ?n")
    case True
    have im: "im' (secs ! (j div ?n)) = take at b @ raw @ drop (at + length raw) b" using True assms(8) by (simp add: b_def)
    show ?thesis
    proof (cases "j = i")
      case True
      then show ?thesis using im splice_take_drop(1) [OF fit] entry_decode_encode [OF assms(1), of version] assms(6,7)
        by (simp add: entry_at_def)
    next
      case ne: False
      let ?a = "j mod ?n * ?z"
      have "j mod ?n \<noteq> i mod ?n" using True ne by (metis div_mult_mod_eq)
      then have "j mod ?n + 1 \<le> i mod ?n \<or> i mod ?n + 1 \<le> j mod ?n" by arith
      then have "(j mod ?n + 1) * ?z \<le> i mod ?n * ?z \<or> (i mod ?n + 1) * ?z \<le> j mod ?n * ?z"
        using mult_le_mono1 by blast
      then have "?a + ?z \<le> at \<or> at + ?z \<le> ?a" unfolding assms(6) by (simp only: add_mult_distrib mult_1 add.commute)
      then have "take ?z (drop ?a (im' (secs ! (j div ?n)))) = take ?z (drop ?a b)"
        unfolding im using splice_take_drop(2) [OF fit, of ?a ?z] lr by simp
      moreover have "?a + ?z \<le> 512" by (rule entry_place)
      moreover have "length (im' (secs ! (j div ?n))) = 512" "length b = 512" using fit assms(5) unfolding im by (simp_all add: b_def)
      ultimately have "entry_decode version (drop ?a (im' (secs ! (j div ?n)))) = entry_decode version (drop ?a b)"
        by (intro entry_decode_take) simp_all
      then show ?thesis using ne True by (simp add: entry_at_def b_def)
    qed
  next
    case False
    then have "secs ! (j div ?n) \<noteq> secs ! (i div ?n)" using assms(2) d by (simp add: nth_eq_iff_index_eq)
    then show ?thesis using False assms(8) by (auto simp: entry_at_def)
  qed
qed

lemma entry_get_spec:
  assumes "vol_ok cont n v e" "dir_sectors_are v (fat_at (img cont v e)) dir secs"
  shows "\<exists>v' e'. entry_get v e dir i =
     (if i < length secs * sector_entries (v_version v) then Some (entry_at (v_version v) (img cont v e) secs i) else None, v', e') \<and>
    keeps cont n v e v' e' \<and> img cont v' e' = img cont v e"
proof -
  let ?n = "sector_entries (v_version v)"
  obtain v1 e1 where d: "dir_sector v e dir (i div ?n) False = (if i div ?n < length secs then secs ! (i div ?n) else 0, v1, e1)"
    "keeps cont n v e v1 e1" "img cont v1 e1 = img cont v e" using dir_sector_spec [OF assms] by blast
  have iff: "i div ?n < length secs \<longleftrightarrow> i < length secs * ?n" using sector_entries_pos by (simp add: div_less_iff_less_mult)
  show ?thesis
  proof (cases "i < length secs * ?n")
    case False
    then show ?thesis using d iff by (auto simp: entry_get_def entry_sizes)
  next
    case True
    let ?s = "secs ! (i div ?n)"
    have ok1: "vol_ok cont n v1 e1" "core v1 = core v" using d(2) by (simp_all add: keeps_def)
    note f = core_fields [OF ok1(2)]
    have s: "?s \<in> set secs" using True iff by simp
    note r = dir_sectors_range [OF vol_okD(2) [OF assms(1)] assms(2) s]
    obtain v2 e2 where l: "dir_load v1 e1 ?s = (v2, e2)" "keeps cont n v1 e1 v2 e2" "img cont v2 e2 = img cont v1 e1"
      "v_dir_buf v2 = img cont v1 e1 ?s" using dir_load_keeps [OF ok1(1), of ?s] r f by auto
    have "v_version v2 = v_version v" using l(2) f core_fields [of v2 v1] by (simp add: keeps_def)
    then have "entry_get v e dir i = (Some (entry_at (v_version v) (img cont v e) secs i), v2, e2)"
      using True iff d(1) l(1,4) r(3) d(3) by (simp add: entry_get_def entry_sizes entry_at_def)
    then show ?thesis using True l(3) d(3) keeps_trans [OF d(2) l(2)] by auto
  qed
qed

text \<open>An entry is stored: of the image, one sector of the directory changes.\<close>

lemma entry_put_spec:
  assumes "vol_ok cont n v e" "dir_sectors_are v (fat_at (img cont v e)) dir secs" "entry_ok en"
    "i < length secs * sector_entries (v_version v)"
  shows "\<exists>v' e'. entry_put v e dir i en = (v', e') \<and> keeps cont n v e v' e' \<and>
    (\<forall>j < length secs * sector_entries (v_version v).
       entry_at (v_version v) (img cont v' e') secs j =
         (if j = i then entry_stored (v_version v) en else entry_at (v_version v) (img cont v e) secs j)) \<and>
    (\<forall>s. s \<noteq> secs ! (i div sector_entries (v_version v)) \<longrightarrow> img cont v' e' s = img cont v e s)"
proof -
  let ?n = "sector_entries (v_version v)" and ?z = "entry_bytes (v_version v)"
  let ?s = "secs ! (i div ?n)"
  have lt: "i div ?n < length secs" using assms(4) sector_entries_pos by (simp add: div_less_iff_less_mult)
  obtain v1 e1 where d: "dir_sector v e dir (i div ?n) False = (?s, v1, e1)"
    "keeps cont n v e v1 e1" "img cont v1 e1 = img cont v e" using dir_sector_spec [OF assms(1,2), of "i div ?n"] lt by auto
  have ok1: "vol_ok cont n v1 e1" "core v1 = core v" "same_env e e1" using d(2) by (simp_all add: keeps_def)
  note f = core_fields [OF ok1(2)]
  have g: "geometry_ok v n" by (rule vol_okD(2) [OF assms(1)])
  note r = dir_sectors_range [OF g assms(2) nth_mem [OF lt]]
  obtain v2 e2 where l: "dir_load v1 e1 ?s = (v2, e2)" "keeps cont n v1 e1 v2 e2" "img cont v2 e2 = img cont v1 e1"
    "v_dir_sec v2 = ?s" "v_dir_buf v2 = img cont v1 e1 ?s" using dir_load_keeps [OF ok1(1), of ?s] r f by auto
  have ok2: "vol_ok cont n v2 e2" "core v2 = core v" "same_env e e2" using l(2) ok1 by (simp_all add: keeps_def same_env_def)
  have ver: "v_version v2 = v_version v" using core_fields [OF ok2(2)] by simp
  define raw where "raw = entry_encode (v_version v) en"
  define at where "at = i mod ?n * ?z"
  define b where "b = img cont v e ?s"
  define b' where "b' = take at b @ raw @ drop (at + length raw) b"
  let ?v = "v2\<lparr>v_dir_buf := b', v_dir_dirty := True\<rparr>"
  have bb: "v_dir_buf v2 = b" using l(5) d(3) by (simp add: b_def)
  have p: "entry_put v e dir i en = (?v, e2)"
    using d(1) l(1) r(3) ver f by (simp add: entry_put_def entry_sizes Let_def raw_def at_def b'_def bb)
  have lb: "length b = 512" unfolding b_def by (rule img_length [OF assms(1) r(2)])
  have "length raw = ?z" using length_entry_encode [OF assms(3), of "v_version v"] by (simp add: raw_def entry_bytes_def)
  then have lb': "length b' = 512" using entry_place [of i "v_version v"] lb by (simp add: b'_def at_def)
  have vok: "vol_ok cont n ?v e2" using ok2(1) lb' l(4) r unfolding vol_ok_def geometry_ok_def by simp
  have nf: "v_fat_no v2 \<noteq> Some (?s - 1)"
  proof
    assume "v_fat_no v2 = Some (?s - 1)"
    then have "1 + (?s - 1) < v_dir_start v2" by (rule vol_okD(8) [OF ok2(1)])
    then show False using r core_fields [OF ok2(2)] by simp
  qed
  have i: "img cont ?v e2 = (img cont v e)(?s := b')"
  proof
    fix t
    show "img cont ?v e2 t = ((img cont v e)(?s := b')) t"
      unfolding d(3) [symmetric] l(3) [symmetric] using l(4) r(3) nf by (auto simp: img_def)
  qed
  have "keeps cont n v e ?v e2" using vok ok2 by (simp add: keeps_def)
  moreover have dist: "distinct secs" using dir_sectors_distinct [OF assms(2)] geometry_fields [OF g] by simp
  moreover have "entry_at (v_version v) (img cont ?v e2) secs j =
      (if j = i then entry_stored (v_version v) en else entry_at (v_version v) (img cont v e) secs j)"
    if "j < length secs * ?n" for j
    using entry_at_update [OF assms(3) dist assms(4) that _ at_def raw_def, of "img cont v e" "img cont ?v e2"] i lb
    unfolding b'_def b_def by simp
  ultimately show ?thesis using p i by (intro exI [of _ ?v] exI [of _ e2]) simp
qed

section \<open>Searching a directory\<close>

text \<open>A sound directory: its sectors, few enough for an index to count its entries.\<close>

definition dir_ok :: "'m volume \<Rightarrow> (nat \<Rightarrow> u8 list) \<Rightarrow> nat \<Rightarrow> nat list \<Rightarrow> bool" where
  "dir_ok v im dir secs \<longleftrightarrow> dir_sectors_are v (fat_at im) dir secs \<and> length secs * sector_entries (v_version v) < U32"

definition dir_entries :: "'m volume \<Rightarrow> (nat \<Rightarrow> u8 list) \<Rightarrow> nat list \<Rightarrow> entry list" where
  "dir_entries v im secs = map (entry_at (v_version v) im secs) [0..<length secs * sector_entries (v_version v)]"

definition entry_used :: "entry \<Rightarrow> bool" where
  "entry_used en \<longleftrightarrow> en_flags en AND E_USED \<noteq> 0"

text \<open>The first entry from index \<open>i\<close> on with a property.\<close>

fun first_entry :: "(entry \<Rightarrow> bool) \<Rightarrow> nat \<Rightarrow> entry list \<Rightarrow> (nat \<times> entry) option" where
  "first_entry p i [] = None"
| "first_entry p i (en # ens) = (if p en then Some (i, en) else first_entry p (i + 1) ens)"

lemma length_dir_entries [simp]: "length (dir_entries v im secs) = length secs * sector_entries (v_version v)"
  by (simp add: dir_entries_def)

lemma dir_ok_core:
  assumes "core v' = core v"
  shows "dir_ok v' im dir secs = dir_ok v im dir secs" "dir_entries v' im secs = dir_entries v im secs"
proof -
  note f = core_fields [OF assms]
  have "cluster_at v' = cluster_at v" using f by (auto simp: cluster_at_def)
  then show "dir_ok v' im dir secs = dir_ok v im dir secs" "dir_entries v' im secs = dir_entries v im secs"
    using f by (simp_all add: dir_ok_def dir_sectors_are_def chain_ok_def dir_entries_def)
qed

lemma entry_get_entries:
  assumes "vol_ok cont n v e" "dir_ok v (img cont v e) dir secs" "ens = dir_entries v (img cont v e) secs"
  shows "\<exists>v' e'. entry_get v e dir i = (if i < length ens then Some (ens ! i) else None, v', e') \<and>
    keeps cont n v e v' e' \<and> img cont v' e' = img cont v e"
proof -
  have "dir_sectors_are v (fat_at (img cont v e)) dir secs" using assms(2) by (simp add: dir_ok_def)
  from entry_get_spec [OF assms(1) this, of i] show ?thesis by (auto simp: assms(3) dir_entries_def)
qed

text \<open>The three loops, by the number of entries left.\<close>

lemma find_from_spec:
  assumes "vol_ok cont n v e" "dir_ok v (img cont v e) dir secs" "ens = dir_entries v (img cont v e) secs" "i \<le> length ens"
  shows "\<exists>v' e'. find_from v e dir name i = Some (first_entry (\<lambda>en. entry_used en \<and> en_str en = name) i (drop i ens), v', e') \<and>
    keeps cont n v e v' e' \<and> img cont v' e' = img cont v e"
  using assms
proof (induction "length ens - i" arbitrary: v e i)
  case 0
  then obtain v1 e1 where g: "entry_get v e dir i = (None, v1, e1)" "keeps cont n v e v1 e1" "img cont v1 e1 = img cont v e"
    using entry_get_entries [OF 0(2,3,4), of i] by auto
  then show ?case using 0 by (subst find_from.simps) simp
next
  case (Suc k)
  then have lt: "i < length ens" by simp
  obtain v1 e1 where g: "entry_get v e dir i = (Some (ens ! i), v1, e1)" "keeps cont n v e v1 e1" "img cont v1 e1 = img cont v e"
    using entry_get_entries [OF Suc.prems(1,2,3), of i] lt by auto
  have d: "drop i ens = ens ! i # drop (i + 1) ens" using lt by (simp add: Cons_nth_drop_Suc)
  show ?case
  proof (cases "entry_used (ens ! i) \<and> en_str (ens ! i) = name")
    case True
    then have "find_from v e dir name i = Some (Some (i, ens ! i), v1, e1)"
      using g(1) by (subst find_from.simps) (simp add: entry_used_def)
    then show ?thesis using g True d by simp
  next
    case False
    have c: "core v1 = core v" "vol_ok cont n v1 e1" using g(2) by (simp_all add: keeps_def)
    have k: "k = length ens - (i + 1)" using Suc.hyps(2) by simp
    have p: "dir_ok v1 (img cont v1 e1) dir secs" "ens = dir_entries v1 (img cont v1 e1) secs"
      using Suc.prems(2,3) dir_ok_core [OF c(1)] g(3) by simp_all
    have "add32 i 1 = i + 1" using lt Suc.prems(2,3) by (simp add: dir_ok_def)
    then have "find_from v e dir name i = find_from v1 e1 dir name (i + 1)"
      using g(1) False by (subst find_from.simps) (auto simp: entry_used_def)
    moreover obtain v' e' where "find_from v1 e1 dir name (i + 1) =
        Some (first_entry (\<lambda>en. entry_used en \<and> en_str en = name) (i + 1) (drop (i + 1) ens), v', e')"
      "keeps cont n v1 e1 v' e'" "img cont v' e' = img cont v1 e1"
      using Suc.hyps(1) [OF k c(2) p] lt by auto
    ultimately show ?thesis using keeps_trans [OF g(2)] g(3) d False by auto
  qed
qed

lemma find_in_spec:
  assumes "vol_ok cont n v e" "dir_ok v (img cont v e) dir secs"
  shows "\<exists>v' e'. find_in v e dir name =
      Some (first_entry (\<lambda>en. entry_used en \<and> en_str en = name) 0 (dir_entries v (img cont v e) secs), v', e') \<and>
    keeps cont n v e v' e' \<and> img cont v' e' = img cont v e"
  using find_from_spec [OF assms refl, of 0 name] by (simp add: find_in_def)

lemma dir_empty_from_spec:
  assumes "vol_ok cont n v e" "dir_ok v (img cont v e) dir secs" "ens = dir_entries v (img cont v e) secs" "i \<le> length ens"
  shows "\<exists>v' e'. dir_empty_from v e dir i = Some (list_all (\<lambda>en. \<not> entry_used en) (drop i ens), v', e') \<and>
    keeps cont n v e v' e' \<and> img cont v' e' = img cont v e"
  using assms
proof (induction "length ens - i" arbitrary: v e i)
  case 0
  then obtain v1 e1 where g: "entry_get v e dir i = (None, v1, e1)" "keeps cont n v e v1 e1" "img cont v1 e1 = img cont v e"
    using entry_get_entries [OF 0(2,3,4), of i] by auto
  then show ?case using 0 by (subst dir_empty_from.simps) simp
next
  case (Suc k)
  then have lt: "i < length ens" by simp
  obtain v1 e1 where g: "entry_get v e dir i = (Some (ens ! i), v1, e1)" "keeps cont n v e v1 e1" "img cont v1 e1 = img cont v e"
    using entry_get_entries [OF Suc.prems(1,2,3), of i] lt by auto
  have d: "drop i ens = ens ! i # drop (i + 1) ens" using lt by (simp add: Cons_nth_drop_Suc)
  show ?case
  proof (cases "entry_used (ens ! i)")
    case True
    then have "dir_empty_from v e dir i = Some (False, v1, e1)" using g(1) by (subst dir_empty_from.simps) (simp add: entry_used_def)
    then show ?thesis using g True d by simp
  next
    case False
    have c: "core v1 = core v" "vol_ok cont n v1 e1" using g(2) by (simp_all add: keeps_def)
    have k: "k = length ens - (i + 1)" using Suc.hyps(2) by simp
    have p: "dir_ok v1 (img cont v1 e1) dir secs" "ens = dir_entries v1 (img cont v1 e1) secs"
      using Suc.prems(2,3) dir_ok_core [OF c(1)] g(3) by simp_all
    have "add32 i 1 = i + 1" using lt Suc.prems(2,3) by (simp add: dir_ok_def)
    then have "dir_empty_from v e dir i = dir_empty_from v1 e1 dir (i + 1)"
      using g(1) False by (subst dir_empty_from.simps) (auto simp: entry_used_def)
    moreover obtain v' e' where "dir_empty_from v1 e1 dir (i + 1) = Some (list_all (\<lambda>en. \<not> entry_used en) (drop (i + 1) ens), v', e')"
      "keeps cont n v1 e1 v' e'" "img cont v' e' = img cont v1 e1"
      using Suc.hyps(1) [OF k c(2) p] lt by auto
    ultimately show ?thesis using keeps_trans [OF g(2)] g(3) d False by auto
  qed
qed

lemma dir_empty_spec:
  assumes "vol_ok cont n v e" "dir_ok v (img cont v e) dir secs"
  shows "\<exists>v' e'. dir_empty v e dir = Some (list_all (\<lambda>en. \<not> entry_used en) (dir_entries v (img cont v e) secs), v', e') \<and>
    keeps cont n v e v' e' \<and> img cont v' e' = img cont v e"
  using dir_empty_from_spec [OF assms refl, of 0] by (simp add: dir_empty_def)

section \<open>The main properties\<close>

lemma fat_at_cong:
  assumes "geometry_ok v n" "c \<le> v_clusters v" "\<And>s. s < v_dir_start v \<Longrightarrow> im' s = im s"
  shows "fat_at im' c = fat_at im c"
  using assms(3) [OF fat_sector_range(3) [OF assms(1,2)]] by (simp add: fat_at_def)

lemma dir_sectors_cong:
  assumes "dir_sectors_are v g dir secs" "\<And>c. c \<le> v_clusters v \<Longrightarrow> h c = g c"
  shows "dir_sectors_are v h dir secs"
proof (cases "dir = 0")
  case False
  then obtain cs where c: "chain g dir cs" "cs \<noteq> []" "chain_ok v cs" "secs = map (cluster_at v) cs"
    using assms(1) by (auto simp: dir_sectors_are_def)
  have "chain h dir cs = chain g dir cs" using c(3) assms(2) by (intro chain_cong) (auto simp: chain_ok_def)
  then show ?thesis using c False by (auto simp: dir_sectors_are_def)
qed (use assms in \<open>simp add: dir_sectors_are_def\<close>)

lemma entry_put_entries:
  assumes "vol_ok cont n v e" "dir_ok v (img cont v e) dir secs" "entry_ok en" "ens = dir_entries v (img cont v e) secs" "i < length ens"
  shows "\<exists>v' e'. entry_put v e dir i en = (v', e') \<and> keeps cont n v e v' e' \<and> dir_ok v' (img cont v' e') dir secs \<and>
    dir_entries v' (img cont v' e') secs = ens[i := entry_stored (v_version v) en] \<and>
    (\<forall>c \<le> v_clusters v. fat_at (img cont v' e') c = fat_at (img cont v e) c)"
proof -
  let ?n = "sector_entries (v_version v)"
  have d: "dir_sectors_are v (fat_at (img cont v e)) dir secs" using assms(2) by (simp add: dir_ok_def)
  have i: "i < length secs * ?n" using assms(4,5) by simp
  obtain v' e' where p: "entry_put v e dir i en = (v', e')" "keeps cont n v e v' e'"
    "\<forall>j < length secs * ?n. entry_at (v_version v) (img cont v' e') secs j =
        (if j = i then entry_stored (v_version v) en else entry_at (v_version v) (img cont v e) secs j)"
    "\<forall>s. s \<noteq> secs ! (i div ?n) \<longrightarrow> img cont v' e' s = img cont v e s"
    using entry_put_spec [OF assms(1) d assms(3) i] by blast
  have c: "core v' = core v" using p(2) by (simp add: keeps_def)
  have g: "geometry_ok v n" by (rule vol_okD(2) [OF assms(1)])
  have "secs ! (i div ?n) \<in> set secs" using i sector_entries_pos by (simp add: less_mult_imp_div_less)
  from dir_sectors_range(1) [OF g d this] have f: "fat_at (img cont v' e') c = fat_at (img cont v e) c" if "c \<le> v_clusters v" for c
    using fat_at_cong [OF g that, of "img cont v' e'" "img cont v e"] p(4) by auto
  have "dir_sectors_are v (fat_at (img cont v' e')) dir secs" using dir_sectors_cong [OF d f] by simp
  then have ok: "dir_ok v' (img cont v' e') dir secs" unfolding dir_ok_core(1) [OF c] using assms(2) by (simp add: dir_ok_def)
  have "dir_entries v' (img cont v' e') secs = ens[i := entry_stored (v_version v) en]"
    unfolding dir_ok_core(2) [OF c] assms(4) using p(3) i by (intro nth_equalityI) (auto simp: dir_entries_def nth_list_update)
  then show ?thesis using p(1,2) ok f by blast
qed

text \<open>
  C24: on a device that works a directory, the root area or a chain of clusters, is an array of entries: after
  \<open>entry_put\<close> at index \<open>i\<close>, \<open>entry_get\<close> finds there the entry as the volume's version can keep it (version 1 cuts the name to 23
  characters and the cluster to 16 bits and has no time), every other index holds what it held, and the end is where it was.
\<close>

theorem directory_is_array:
  assumes "vol_ok cont n v e" "dir_ok v (img cont v e) dir secs" "entry_ok en" "ens = dir_entries v (img cont v e) secs" "i < length ens"
  shows "\<exists>v1 e1. entry_put v e dir i en = (v1, e1) \<and>
    (\<forall>j. \<exists>v2 e2. entry_get v1 e1 dir j =
       (if j < length ens then Some (if j = i then entry_stored (v_version v) en else ens ! j) else None, v2, e2))"
proof -
  obtain v1 e1 where p: "entry_put v e dir i en = (v1, e1)" "keeps cont n v e v1 e1" "dir_ok v1 (img cont v1 e1) dir secs"
    "dir_entries v1 (img cont v1 e1) secs = ens[i := entry_stored (v_version v) en]"
    using entry_put_entries [OF assms] by blast
  have "\<exists>v2 e2. entry_get v1 e1 dir j =
       (if j < length ens then Some (if j = i then entry_stored (v_version v) en else ens ! j) else None, v2, e2)" for j
    using entry_get_entries [OF _ p(3) p(4) [symmetric], of n j] p(2) by (auto simp: keeps_def nth_list_update)
  then show ?thesis using p(1) by blast
qed

lemma ram_root_ok: "dir_ok ram_volume im 0 [2]"
proof -
  have "[2..<3] = [2 :: nat]" by (simp add: upt_rec)
  then show ?thesis by (simp add: dir_ok_def dir_sectors_are_def ram_volume_def sector_entries_def)
qed

lemma ram_root_entries: "length (dir_entries ram_volume (img ram_cont ram_volume ram_env) [2]) = 8"
  by (simp add: ram_volume_def sector_entries_def)

theorem directory_is_array_witness:
  "\<exists>v1 e1. entry_put ram_volume ram_env 0 3 (zero_entry\<lparr>en_size := 7\<rparr>) = (v1, e1) \<and>
    (\<exists>v2 e2. entry_get v1 e1 0 3 = (Some (zero_entry\<lparr>en_size := 7\<rparr>), v2, e2))"
proof -
  have ok: "entry_ok (zero_entry\<lparr>en_size := 7\<rparr>)" by (simp add: entry_ok_def zero_entry_def)
  have z: "(replicate 48 0)[47 := 0] = replicate 48 (0 :: u8)" by (rule nth_equalityI) (simp_all add: nth_list_update)
  have st: "entry_stored (v_version ram_volume) (zero_entry\<lparr>en_size := 7\<rparr>) = zero_entry\<lparr>en_size := 7\<rparr>"
    using z by (simp add: entry_stored_def ram_volume_def zero_entry_def)
  have lt: "3 < length (dir_entries ram_volume (img ram_cont ram_volume ram_env) [2])" by (simp only: ram_root_entries)
  obtain v1 e1 where p: "entry_put ram_volume ram_env 0 3 (zero_entry\<lparr>en_size := 7\<rparr>) = (v1, e1)"
    "\<forall>j. \<exists>v2 e2. entry_get v1 e1 0 j =
       (if j < length (dir_entries ram_volume (img ram_cont ram_volume ram_env) [2])
        then Some (if j = 3 then entry_stored (v_version ram_volume) (zero_entry\<lparr>en_size := 7\<rparr>)
                   else dir_entries ram_volume (img ram_cont ram_volume ram_env) [2] ! j) else None, v2, e2)"
    using directory_is_array [OF ram_volume_ok ram_root_ok ok refl lt] by blast
  from p(2) [rule_format, of 3] lt st have "\<exists>v2 e2. entry_get v1 e1 0 3 = (Some (zero_entry\<lparr>en_size := 7\<rparr>), v2, e2)" by simp
  then show ?thesis using p(1) by blast
qed

lemma first_entry_None: "first_entry p k xs = None \<longleftrightarrow> (\<forall>en \<in> set xs. \<not> p en)"
  by (induction p k xs rule: first_entry.induct) auto

lemma first_entry_Some:
  "first_entry p k xs = Some (i, en) \<Longrightarrow> \<exists>j. i = k + j \<and> j < length xs \<and> en = xs ! j \<and> p en \<and> (\<forall>l < j. \<not> p (xs ! l))"
proof (induction p k xs rule: first_entry.induct)
  case (2 p k x xs)
  show ?case
  proof (cases "p x")
    case True
    then show ?thesis using 2(2) by (intro exI [of _ 0]) auto
  next
    case False
    then obtain j where "i = k + 1 + j" "j < length xs" "en = xs ! j" "p en" "\<forall>l < j. \<not> p (xs ! l)" using 2 by auto
    then show ?thesis using False by (intro exI [of _ "Suc j"]) (auto simp: less_Suc_eq_0_disj)
  qed
qed simp

text \<open>
  C25: looking a name up in a sound directory returns, leaves the volume's image as it is, and finds the first
  used entry of that name, or none when no used entry has it.
\<close>

theorem find_in_first:
  assumes "vol_ok cont n v e" "dir_ok v (img cont v e) dir secs" "ens = dir_entries v (img cont v e) secs"
  shows "\<exists>found v' e'. find_in v e dir name = Some (found, v', e') \<and> vol_ok cont n v' e' \<and> img cont v' e' = img cont v e \<and>
    (case found of
       None \<Rightarrow> \<forall>en \<in> set ens. \<not> (entry_used en \<and> en_str en = name)
     | Some (i, en) \<Rightarrow> i < length ens \<and> en = ens ! i \<and> entry_used en \<and> en_str en = name \<and>
         (\<forall>j < i. \<not> (entry_used (ens ! j) \<and> en_str (ens ! j) = name)))"
proof -
  let ?p = "\<lambda>en. entry_used en \<and> en_str en = name"
  obtain v' e' where f: "find_in v e dir name = Some (first_entry ?p 0 ens, v', e')" "keeps cont n v e v' e'" "img cont v' e' = img cont v e"
    using find_in_spec [OF assms(1,2), of name] assms(3) by blast
  show ?thesis
  proof (cases "first_entry ?p 0 ens")
    case None
    then show ?thesis using f first_entry_None [of ?p 0 ens] by (auto simp: keeps_def)
  next
    case (Some r)
    then obtain i en where r: "r = (i, en)" by (cases r)
    with Some have "first_entry ?p 0 ens = Some (i, en)" by simp
    from first_entry_Some [OF this] show ?thesis using f Some r by (auto simp: keeps_def)
  qed
qed

theorem find_in_first_witness:
  "\<exists>found v' e'. find_in ram_volume ram_env 0 [65] = Some (found, v', e')"
  using find_in_first [OF ram_volume_ok ram_root_ok refl, of "[65]"] by blast

end
