(* ===== verification/Fs_Check.thy ===== *)
theory Fs_Check
  imports Fs_Path Fs_Dir
begin

text \<open>
  CeresFS: the check of a volume (\<open>fs_check\<close>). The checker's marks, a bit per cluster, are the bytes \<open>calloc\<close> returned; the
  report and the marks are threaded through. The walk of a chain and of a directory are \<open>None\<close> when they do not return.
\<close>

record check_report =
  r_files :: nat
  r_directories :: nat
  r_used :: nat
  r_lost :: nat
  r_crossed :: nat
  r_bad_chains :: nat
  r_bad_sizes :: nat

definition zero_report :: check_report where
  "zero_report = \<lparr>r_files = 0, r_directories = 0, r_used = 0, r_lost = 0, r_crossed = 0, r_bad_chains = 0, r_bad_sizes = 0\<rparr>"

record checker =
  k_marks :: "u8 list"
  k_repair :: bool
  k_report :: check_report

definition marked :: "checker \<Rightarrow> nat \<Rightarrow> bool" where
  "marked k c = bit (k_marks k ! (c div 8)) (c mod 8)"

definition mark :: "nat \<Rightarrow> checker \<Rightarrow> checker" where
  "mark c k = k\<lparr>k_marks := (k_marks k)[c div 8 := (k_marks k ! (c div 8)) OR push_bit (c mod 8) 1]\<rparr>"

definition count_bad_chain :: "checker \<Rightarrow> checker" where
  "count_bad_chain k = k\<lparr>k_report := (k_report k)\<lparr>r_bad_chains := add32 (r_bad_chains (k_report k)) 1\<rparr>\<rparr>"

definition count_crossed :: "checker \<Rightarrow> checker" where
  "count_crossed k = k\<lparr>k_report := (k_report k)\<lparr>r_crossed := add32 (r_crossed (k_report k)) 1\<rparr>\<rparr>"

definition count_bad_size :: "checker \<Rightarrow> checker" where
  "count_bad_size k = k\<lparr>k_report := (k_report k)\<lparr>r_bad_sizes := add32 (r_bad_sizes (k_report k)) 1\<rparr>\<rparr>"

definition count_file :: "checker \<Rightarrow> checker" where
  "count_file k = k\<lparr>k_report := (k_report k)\<lparr>r_files := add32 (r_files (k_report k)) 1\<rparr>\<rparr>"

definition count_directory :: "checker \<Rightarrow> checker" where
  "count_directory k = k\<lparr>k_report := (k_report k)\<lparr>r_directories := add32 (r_directories (k_report k)) 1\<rparr>\<rparr>"

section \<open>A chain\<close>

text \<open>The chain has been followed from \<open>first\<close> to \<open>c\<close>, over \<open>cnt\<close> clusters of which \<open>prev\<close> is the last (0: none).\<close>

partial_function (option) chain_from ::
  "checker \<Rightarrow> 'm volume \<Rightarrow> 'm env \<Rightarrow> nat \<Rightarrow> nat \<Rightarrow> nat \<Rightarrow> nat \<Rightarrow> (nat \<times> nat \<times> checker \<times> 'm volume \<times> 'm env) option" where
  "chain_from k v e first c prev cnt =
     (if c = 0 \<or> c = FAT_END then Some (cnt, first, k, v, e)
      else if v_clusters v < c \<or> marked k c then
        let k = (if v_clusters v < c then count_bad_chain k else count_crossed k)
        in if k_repair k then
             if prev = 0 then Some (cnt, 0, k, v, e)
             else case fat_set v e prev FAT_END of (v, e) \<Rightarrow> Some (cnt, first, k, v, e)
           else Some (cnt, first, k, v, e)
      else
        case fat_get v e c of
          (nxt, v, e) \<Rightarrow>
            if nxt = FAT_FREE then
              if k_repair k then
                case fat_set v e c FAT_END of (v, e) \<Rightarrow> Some (cnt + 1, first, count_bad_chain (mark c k), v, e)
              else Some (cnt + 1, first, count_bad_chain (mark c k), v, e)
            else chain_from (mark c k) v e first nxt c (cnt + 1))"

definition check_chain ::
  "checker \<Rightarrow> 'm volume \<Rightarrow> 'm env \<Rightarrow> nat \<Rightarrow> (nat \<times> nat \<times> checker \<times> 'm volume \<times> 'm env) option" where
  "check_chain k v e first = chain_from k v e first first 0 0"

section \<open>A directory\<close>

text \<open>\<open>for (n = 1; n < need; n++) c = fat_get(v, c)\<close>, \<open>left\<close> turns of it.\<close>

fun follow :: "nat \<Rightarrow> 'm volume \<Rightarrow> 'm env \<Rightarrow> nat \<Rightarrow> nat \<times> 'm volume \<times> 'm env" where
  "follow 0 v e c = (c, v, e)"
| "follow (Suc left) v e c = (case fat_get v e c of (nxt, v, e) \<Rightarrow> follow left v e nxt)"

text \<open>The size of a file against the \<open>cnt\<close> clusters of its chain: the entry, and whether it changed.\<close>

definition check_size ::
  "checker \<Rightarrow> 'm volume \<Rightarrow> 'm env \<Rightarrow> entry \<Rightarrow> nat \<Rightarrow> (entry \<times> bool) \<times> checker \<times> 'm volume \<times> 'm env" where
  "check_size k v e en cnt =
     (let need = sub32 (add32 (en_size en) BLOCKDEV_SECTOR) 1 div BLOCKDEV_SECTOR
      in if cnt < need then
           let k = count_bad_size k
           in if k_repair k then ((en\<lparr>en_size := mul32 cnt BLOCKDEV_SECTOR\<rparr>, True), k, v, e) else ((en, False), k, v, e)
         else if need < cnt then
           let k = count_bad_size k
           in if k_repair k then
                if need = 0 then
                  case free_chain v e (en_first en) of (v, e) \<Rightarrow> ((en\<lparr>en_first := 0\<rparr>, True), k, v, e)
                else
                  case follow (need - 1) v e (en_first en) of
                    (c, v, e) \<Rightarrow>
                      (case fat_get v e c of
                         (rest, v, e) \<Rightarrow>
                           (case fat_set v e c FAT_END of
                              (v, e) \<Rightarrow> (case free_chain v e rest of (v, e) \<Rightarrow> ((en, True), k, v, e))))
              else ((en, False), k, v, e)
         else ((en, False), k, v, e))"

text \<open>The end of the loop's body.\<close>

definition put_changed :: "checker \<Rightarrow> 'm volume \<Rightarrow> 'm env \<Rightarrow> nat \<Rightarrow> nat \<Rightarrow> entry \<Rightarrow> bool \<Rightarrow> checker \<times> 'm volume \<times> 'm env" where
  "put_changed k v e dir i en changed =
     (if changed \<and> k_repair k then case entry_put v e dir i en of (v, e) \<Rightarrow> (k, v, e) else (k, v, e))"

text \<open>Whether a used entry is a directory the check goes into.\<close>

definition walks_into :: "entry \<Rightarrow> nat \<Rightarrow> nat \<Rightarrow> nat \<Rightarrow> bool" where
  "walks_into en first depth cnt \<longleftrightarrow> en_flags en AND E_DIR \<noteq> 0 \<and> first \<noteq> 0 \<and> depth < MAX_PARTS \<and> 0 < cnt"

text \<open>The body for an entry it does not go into: \<open>first\<close> and \<open>cnt\<close> are what its chain came to.\<close>

definition check_leaf ::
  "checker \<Rightarrow> 'm volume \<Rightarrow> 'm env \<Rightarrow> nat \<Rightarrow> nat \<Rightarrow> entry \<Rightarrow> nat \<Rightarrow> nat \<Rightarrow> checker \<times> 'm volume \<times> 'm env" where
  "check_leaf k v e dir i en first cnt =
     (let changed = (first \<noteq> en_first en); en = en\<lparr>en_first := first\<rparr>
      in if en_flags en AND E_DIR \<noteq> 0 then
           if first = 0 then
             let k = count_bad_chain (count_directory k)
             in if k_repair k then put_changed k v e dir i (en\<lparr>en_flags := E_USED, en_size := 0\<rparr>) True
                else put_changed k v e dir i en changed
           else put_changed (count_directory k) v e dir i en changed
         else
           case check_size (count_file k) v e en cnt of
             ((en, sized), k, v, e) \<Rightarrow> put_changed k v e dir i en (changed \<or> sized))"

text \<open>The body after the check has been in the directory \<open>en\<close> is.\<close>

definition check_after ::
  "checker \<Rightarrow> 'm volume \<Rightarrow> 'm env \<Rightarrow> nat \<Rightarrow> nat \<Rightarrow> entry \<Rightarrow> nat \<Rightarrow> checker \<times> 'm volume \<times> 'm env" where
  "check_after k v e dir i en first =
     (case entry_get v e dir i of
        (r, v, e) \<Rightarrow>
          put_changed k v e dir i ((case r of Some en' \<Rightarrow> en' | None \<Rightarrow> en)\<lparr>en_first := first\<rparr>) (first \<noteq> en_first en))"

text \<open>Entry \<open>i\<close> of directory \<open>dir\<close> on; \<open>depth\<close> levels lead to it.\<close>

partial_function (option) check_from ::
  "checker \<Rightarrow> 'm volume \<Rightarrow> 'm env \<Rightarrow> nat \<Rightarrow> nat \<Rightarrow> nat \<Rightarrow> (checker \<times> 'm volume \<times> 'm env) option" where
  "check_from k v e dir depth i =
     (case entry_get v e dir i of
        (None, v, e) \<Rightarrow> Some (k, v, e)
      | (Some en, v, e) \<Rightarrow>
          Option.bind
            (if en_flags en AND E_USED = 0 then Some (k, v, e)
             else
               Option.bind (check_chain k v e (en_first en)) (\<lambda>(cnt, first, k, v, e).
                 if walks_into en first depth cnt then
                   Option.bind (check_from (count_directory k) v e first (depth + 1) 0) (\<lambda>(k, v, e).
                     Some (check_after k v e dir i en first))
                 else Some (check_leaf k v e dir i en first cnt)))
            (\<lambda>(k, v, e). check_from k v e dir depth (add32 i 1)))"

definition check_dir :: "checker \<Rightarrow> 'm volume \<Rightarrow> 'm env \<Rightarrow> nat \<Rightarrow> nat \<Rightarrow> (checker \<times> 'm volume \<times> 'm env) option" where
  "check_dir k v e dir depth = check_from k v e dir depth 0"

section \<open>A volume\<close>

text \<open>The loop over the clusters from \<open>c\<close> on.\<close>

fun check_lost :: "nat \<Rightarrow> checker \<Rightarrow> 'm volume \<Rightarrow> 'm env \<Rightarrow> nat \<Rightarrow> checker \<times> 'm volume \<times> 'm env" where
  "check_lost 0 k v e c = (k, v, e)"
| "check_lost (Suc left) k v e c =
     (if marked k c then
        check_lost left (k\<lparr>k_report := (k_report k)\<lparr>r_used := add32 (r_used (k_report k)) 1\<rparr>\<rparr>) v e (c + 1)
      else case fat_get v e c of
        (x, v, e) \<Rightarrow>
          if x \<noteq> FAT_FREE then
            let k = k\<lparr>k_report := (k_report k)\<lparr>r_lost := add32 (r_lost (k_report k)) 1\<rparr>\<rparr>
            in if k_repair k then case fat_set v e c FAT_FREE of (v, e) \<Rightarrow> check_lost left k v e (c + 1)
               else check_lost left k v e (c + 1)
          else check_lost left k v e (c + 1))"

definition problems :: "check_report \<Rightarrow> nat" where
  "problems r = add32 (add32 (add32 (r_lost r) (r_crossed r)) (r_bad_chains r)) (r_bad_sizes r)"

text \<open>\<open>alloc\<close> says whether \<open>calloc\<close> succeeds.\<close>

definition fs_check ::
  "u8 list option \<Rightarrow> bool \<Rightarrow> bool \<Rightarrow> 'm fs \<Rightarrow> ((int \<times> check_report option) \<times> 'm fs) option" where
  "fs_check point repair alloc st =
     (case named_opt point st of
        None \<Rightarrow> Some ((-1, None), set_errno ENODEV st)
      | Some vi \<Rightarrow>
          if repair \<and> has_open_files vi st then Some ((-1, None), set_errno EBUSY st)
          else if repair \<and> \<not> fst (writable vi st) then Some ((-1, None), snd (writable vi st))
          else
            let st = sync_volume vi st
            in if \<not> alloc then Some ((-1, None), set_errno ENOMEM st)
               else
                 let k = \<lparr>k_marks = replicate (v_clusters (fs_volumes st ! vi) div 8 + 1) 0, k_repair = repair,
                          k_report = zero_report\<rparr>
                 in (case try_vol vi st (\<lambda>v e. check_dir k v e 0 0) of
                       None \<Rightarrow> None
                     | Some (k, st) \<Rightarrow>
                         (case ask_vol vi st (\<lambda>v e. check_lost (v_clusters v) k v e 1) of
                            (k, st) \<Rightarrow>
                              let st = (if repair then sync_volume vi st else st)
                              in (case fs_finish vi (to_long (problems (k_report k))) st of
                                    (r, st) \<Rightarrow> Some ((r, Some (k_report k)), st)))))"

section \<open>The marks\<close>

definition marks_ok :: "'m volume \<Rightarrow> checker \<Rightarrow> bool" where
  "marks_ok v k \<longleftrightarrow> length (k_marks k) = v_clusters v div 8 + 1"

definition unmarked :: "'m volume \<Rightarrow> checker \<Rightarrow> nat set" where
  "unmarked v k = {c. 1 \<le> c \<and> c \<le> v_clusters v \<and> \<not> marked k c}"

lemma finite_unmarked [simp]: "finite (unmarked v k)"
  by (rule finite_subset [of _ "{..v_clusters v}"]) (auto simp: unmarked_def)

lemma marked_mark:
  assumes "marks_ok v k" "c \<le> v_clusters v"
  shows "marked (mark c k) d \<longleftrightarrow> d = c \<or> marked k d"
proof -
  have l: "c div 8 < length (k_marks k)" using assms by (simp add: marks_ok_def div_le_mono less_Suc_eq_le)
  have b: "bit (x OR push_bit (c mod 8) 1 :: u8) (d mod 8) \<longleftrightarrow> bit x (d mod 8) \<or> d mod 8 = c mod 8" for x :: u8
    by (auto simp: bit_simps)
  have "d = c \<longleftrightarrow> d div 8 = c div 8 \<and> d mod 8 = c mod 8" by (metis div_mult_mod_eq)
  then show ?thesis using l b by (cases "d div 8 = c div 8") (auto simp: marked_def mark_def)
qed

lemma mark_simps [simp]:
  "marks_ok v (mark c k) = marks_ok v k" "k_repair (mark c k) = k_repair k" "k_report (mark c k) = k_report k"
  "marks_ok v (count_bad_chain k) = marks_ok v k" "marks_ok v (count_crossed k) = marks_ok v k"
  "marked (count_bad_chain k) = marked k" "marked (count_crossed k) = marked k"
  "k_repair (count_bad_chain k) = k_repair k" "k_repair (count_crossed k) = k_repair k"
  by (auto simp: marks_ok_def mark_def count_bad_chain_def count_crossed_def marked_def)

section \<open>What the check of a chain comes to\<close>

text \<open>From \<open>c\<close> the links run through \<open>cs\<close> and lead to \<open>d\<close>.\<close>

fun path :: "(nat \<Rightarrow> nat) \<Rightarrow> nat \<Rightarrow> nat list \<Rightarrow> nat \<Rightarrow> bool" where
  "path g c [] d \<longleftrightarrow> c = d"
| "path g c (x # xs) d \<longleftrightarrow> c = x \<and> path g (g x) xs d"

lemma path_chain: "chain g c cs \<longleftrightarrow> path g c cs FAT_END"
  by (induction cs arbitrary: c) auto

lemma path_snoc: "path g c (cs @ [x]) d \<longleftrightarrow> path g c cs x \<and> g x = d"
  by (induction cs arbitrary: c) auto

lemma path_update: "x \<notin> set cs \<Longrightarrow> path (g(x := y)) c cs d = path g c cs d"
  by (induction cs arbitrary: c) auto

lemma path_cut: "path g c (cs @ [x]) d \<Longrightarrow> x \<notin> set cs \<Longrightarrow> path (g(x := y)) c (cs @ [x]) y"
  by (simp add: path_snoc path_update)

text \<open>
  \<open>cs\<close> are the clusters of the chain found sound, \<open>first\<close> where it then begins. \<open>sound\<close>: nothing of it was reported.
\<close>

definition chain_checked ::
  "('m \<Rightarrow> nat \<Rightarrow> u8 list) \<Rightarrow> nat \<Rightarrow> checker \<Rightarrow> 'm volume \<Rightarrow> 'm env \<Rightarrow> nat \<Rightarrow> nat list \<Rightarrow> nat list \<Rightarrow>
   nat \<Rightarrow> checker \<Rightarrow> 'm volume \<Rightarrow> 'm env \<Rightarrow> bool" where
  "chain_checked cont n k v e first cs0 cs first' k' v' e' \<longleftrightarrow>
     (let g = fat_at (img cont v e); g' = fat_at (img cont v' e')
      in fat_step cont n v e v' e' g' \<and> (\<exists>new. cs = cs0 @ new \<and> distinct new \<and> set new \<subseteq> unmarked v k \<and>
           (\<forall>d. 1 \<le> d \<longrightarrow> marked k' d \<longleftrightarrow> d \<in> set new \<or> marked k d)) \<and>
         marks_ok v' k' \<and> k_repair k' = k_repair k \<and>
         (k_repair k \<longrightarrow> (\<forall>c. c \<notin> set cs \<longrightarrow> g' c = g c) \<and> (first' = 0 \<and> cs = [] \<or> first' = first \<and> chain g' first' cs)) \<and>
         (\<not> k_repair k \<longrightarrow> first' = first \<and> img cont v' e' = img cont v e) \<and>
         (k_report k' = k_report k \<longrightarrow> first' = first \<and> img cont v' e' = img cont v e \<and> (first = 0 \<and> cs = [] \<or> chain g first cs)))"

lemma add32_Suc_ne: "add32 x 1 \<noteq> x"
proof (cases "x < U32")
  case True
  then show ?thesis by (cases "x = U32 - 1") (auto simp: add32_def)
next
  case False
  then show ?thesis by (metis add32_def mod_less_divisor zero_less_numeral zero_less_power)
qed

lemma counts_differ [simp]: "k_report (count_bad_chain k) \<noteq> k_report k" "k_report (count_crossed k) \<noteq> k_report k"
  using add32_Suc_ne by (auto simp: count_bad_chain_def count_crossed_def check_report.defs dest: arg_cong [of _ _ r_bad_chains] arg_cong [of _ _ r_crossed])

lemma unmarked_mark:
  assumes "marks_ok v k" "c \<in> unmarked v k" "core v1 = core v"
  shows "unmarked v1 (mark c k) = unmarked v k - {c}"
  using assms core_fields [OF assms(3)] marked_mark [OF assms(1)] by (auto simp: unmarked_def)

lemma chain_from_spec:
  assumes "vol_ok cont n v e" "marks_ok v k" "path (fat_at (img cont v e)) first cs0 c"
    "distinct cs0" "\<forall>x \<in> set cs0. 1 \<le> x \<and> x \<le> v_clusters v \<and> marked k x"
    "prev = (if cs0 = [] then 0 else last cs0)" "cs0 \<noteq> [] \<Longrightarrow> c \<noteq> 0"
  shows "\<exists>cs first' k' v' e'. chain_from k v e first c prev (length cs0) = Some (length cs, first', k', v', e') \<and>
    chain_checked cont n k v e first cs0 cs first' k' v' e'"
  using assms
proof (induction "card (unmarked v k)" arbitrary: v e k cs0 c prev rule: less_induct)
  case less
  let ?g = "fat_at (img cont v e)"
  note vok = less.prems(1) and mok = less.prems(2)
  have st0: "fat_step cont n v e v e ?g" using keeps_step [OF keeps_refl [OF vok] refl] .
  consider (stop) "c = 0 \<or> c = FAT_END" | (bad) "c \<noteq> 0" "c \<noteq> FAT_END" "v_clusters v < c \<or> marked k c"
    | (go) "c \<noteq> 0" "c \<noteq> FAT_END" "c \<le> v_clusters v" "\<not> marked k c" by fastforce
  then show ?case
  proof cases
    case stop
    have e: "chain_from k v e first c prev (length cs0) = Some (length cs0, first, k, v, e)"
      using stop by (subst chain_from.simps) simp
    have "first = 0 \<and> cs0 = [] \<or> chain ?g first cs0"
      using stop less.prems(3,7) by (cases "cs0 = []") (auto simp: path_chain)
    then have "chain_checked cont n k v e first cs0 cs0 first k v e"
      using st0 mok by (auto simp: chain_checked_def Let_def)
    then show ?thesis using e by blast
  next
    case bad
    define k1 where "k1 = (if v_clusters v < c then count_bad_chain k else count_crossed k)"
    have k1: "marks_ok v k1" "k_repair k1 = k_repair k" "marked k1 = marked k" "k_report k1 \<noteq> k_report k"
      using mok by (simp_all add: k1_def)
    have e: "chain_from k v e first c prev (length cs0) =
      (if k_repair k then
         if prev = 0 then Some (length cs0, 0, k1, v, e)
         else case fat_set v e prev FAT_END of (v, e) \<Rightarrow> Some (length cs0, first, k1, v, e)
       else Some (length cs0, first, k1, v, e))"
      using bad by (subst chain_from.simps) (simp add: k1_def)
    show ?thesis
    proof (cases "k_repair k \<and> cs0 \<noteq> []")
      case False
      have "cs0 \<noteq> [] \<Longrightarrow> 1 \<le> last cs0" using less.prems(5) last_in_set [of cs0] by blast
      then have "prev = 0 \<longleftrightarrow> cs0 = []" using less.prems(6) by auto
      then show ?thesis using e False st0 k1
        by (intro exI [of _ cs0] exI [of _ "if k_repair k then 0 else first"] exI [of _ k1] exI [of _ v] exI [of _ e])
           (auto simp: chain_checked_def Let_def)
    next
      case True
      then obtain ys p where ys: "cs0 = ys @ [p]" by (metis append_butlast_last_id)
      then have p: "prev = p" "1 \<le> p" "p \<le> v_clusters v" "p \<notin> set ys" using less.prems(4-6) by auto
      obtain v1 e1 where w: "fat_set v e p FAT_END = (v1, e1)" "fat_step cont n v e v1 e1 (?g(p := FAT_END))"
        using fat_set_step [OF vok p(3), of FAT_END] by (auto simp: FAT_END_def)
      note f = fat_step_fields [OF w(2)]
      have "chain (?g(p := FAT_END)) first cs0" using path_cut [of ?g first ys p c] less.prems(3) p(4) ys by (simp add: path_chain)
      then have "chain_checked cont n k v e first cs0 cs0 first k1 v1 e1"
        using w(2) k1 True f(6,12) ys by (auto simp: chain_checked_def Let_def marks_ok_def)
      then show ?thesis using e True p(1,2) w(1) by auto
    qed
  next
    case go
    obtain v1 e1 where r: "fat_get v e c = (?g c, v1, e1)" "keeps cont n v e v1 e1" "img cont v1 e1 = img cont v e"
      using fat_get_at [OF vok go(3)] by blast
    have ok1: "vol_ok cont n v1 e1" "core v1 = core v" using r(2) by (simp_all add: keeps_def)
    note f1 = core_fields [OF ok1(2)] and st1 = keeps_step [OF r(2,3)]
    have mm: "marked (mark c k) d \<longleftrightarrow> d = c \<or> marked k d" for d by (rule marked_mark [OF mok go(3)])
    have cu: "c \<in> unmarked v k" using go by (simp add: unmarked_def)
    have nc: "c \<notin> set cs0" using go(4) less.prems(5) by auto
    have mok1: "marks_ok v1 k = marks_ok v k" for k using f1 by (simp add: marks_ok_def)
    show ?thesis
    proof (cases "?g c = FAT_FREE")
      case True
      define k1 where "k1 = count_bad_chain (mark c k)"
      have k1: "marks_ok v k1" "k_repair k1 = k_repair k" "marked k1 = marked (mark c k)" "k_report k1 \<noteq> k_report k"
        using mok counts_differ(1) [of "mark c k"] by (simp_all add: k1_def)
      have e: "chain_from k v e first c prev (length cs0) =
        (if k_repair k then case fat_set v1 e1 c FAT_END of (v, e) \<Rightarrow> Some (length cs0 + 1, first, k1, v, e)
         else Some (length cs0 + 1, first, k1, v1, e1))"
        using go r(1) True by (subst chain_from.simps) (simp add: k1_def)
      have new: "\<exists>new. cs0 @ [c] = cs0 @ new \<and> distinct new \<and> set new \<subseteq> unmarked v k \<and>
          (\<forall>d. 1 \<le> d \<longrightarrow> marked k1 d \<longleftrightarrow> d \<in> set new \<or> marked k d)"
        using cu k1(3) mm by (intro exI [of _ "[c]"]) auto
      show ?thesis
      proof (cases "k_repair k")
        case False
        then have "chain_checked cont n k v e first cs0 (cs0 @ [c]) first k1 v1 e1"
          using st1 k1 mok1 new r(3) by (auto simp: chain_checked_def Let_def)
        then show ?thesis using e False by (intro exI [of _ "cs0 @ [c]"]) auto
      next
        case rep: True
        obtain v2 e2 where w: "fat_set v1 e1 c FAT_END = (v2, e2)" "fat_step cont n v1 e1 v2 e2 (?g(c := FAT_END))"
          using fat_set_step [OF ok1(1), of c FAT_END] go(3) f1 r(3) by (auto simp: FAT_END_def)
        note s2 = fat_step_trans [OF st1 w(2)]
        note f2 = fat_step_fields [OF s2]
        have "chain (?g(c := FAT_END)) first (cs0 @ [c])"
          using path_cut [of ?g first cs0 c FAT_FREE] less.prems(3) nc True by (simp add: path_chain path_snoc)
        then have "chain_checked cont n k v e first cs0 (cs0 @ [c]) first k1 v2 e2"
          using s2 k1 new rep f2(6,12) by (auto simp: chain_checked_def Let_def marks_ok_def)
        then show ?thesis using e rep w(1) by (intro exI [of _ "cs0 @ [c]"]) auto
      qed
    next
      case False
      have e: "chain_from k v e first c prev (length cs0) = chain_from (mark c k) v1 e1 first (?g c) c (length (cs0 @ [c]))"
        using go r(1) False by (subst chain_from.simps) simp
      have um: "unmarked v1 (mark c k) = unmarked v k - {c}" by (rule unmarked_mark [OF mok cu ok1(2)])
      then have "card (unmarked v1 (mark c k)) < card (unmarked v k)"
        using cu psubset_card_mono [OF finite_unmarked, of "unmarked v1 (mark c k)" v k] by blast
      moreover have "marks_ok v1 (mark c k)" using mok mok1 by simp
      moreover have "path (fat_at (img cont v1 e1)) first (cs0 @ [c]) (?g c)" using less.prems(3) r(3) by (simp add: path_snoc)
      moreover have "distinct (cs0 @ [c])" using less.prems(4) nc by simp
      moreover have "\<forall>x \<in> set (cs0 @ [c]). 1 \<le> x \<and> x \<le> v_clusters v1 \<and> marked (mark c k) x"
        using less.prems(5) go f1 mm by auto
      moreover have "c = (if cs0 @ [c] = [] then 0 else last (cs0 @ [c]))" by simp
      moreover have "?g c \<noteq> 0" using False by (simp add: FAT_FREE_def)
      ultimately obtain cs first' k' v' e' where i: "chain_from (mark c k) v1 e1 first (?g c) c (length (cs0 @ [c])) = Some (length cs, first', k', v', e')"
        "chain_checked cont n (mark c k) v1 e1 first (cs0 @ [c]) cs first' k' v' e'"
        using less.hyps [of v1 "mark c k" e1 "cs0 @ [c]" "?g c" c] ok1(1) by blast
      from i(2) obtain new where new: "cs = (cs0 @ [c]) @ new" "distinct new" "set new \<subseteq> unmarked v1 (mark c k)"
        "\<forall>d. 1 \<le> d \<longrightarrow> marked k' d \<longleftrightarrow> d \<in> set new \<or> marked (mark c k) d" by (auto simp: chain_checked_def Let_def)
      have "\<exists>new. cs = cs0 @ new \<and> distinct new \<and> set new \<subseteq> unmarked v k \<and> (\<forall>d. 1 \<le> d \<longrightarrow> marked k' d \<longleftrightarrow> d \<in> set new \<or> marked k d)"
        using new um cu mm by (intro exI [of _ "c # new"]) auto
      moreover have "fat_step cont n v e v' e' (fat_at (img cont v' e'))"
        using i(2) fat_step_trans [OF st1] by (auto simp: chain_checked_def Let_def)
      ultimately have "chain_checked cont n k v e first cs0 cs first' k' v' e'"
        using i(2) r(3) by (auto simp: chain_checked_def Let_def)
      then show ?thesis using e i(1) by auto
    qed
  qed
qed

section \<open>The main properties\<close>

text \<open>
  C26: the walk of \<open>fs_check\<close> along a chain returns on any FAT, circles included. It counts and marks the clusters of the part
  that is sound, each in range and marked by no chain before; with \<open>repair\<close> what is left in the FAT from the new first
  cluster is exactly a chain of these that ends, and no other number of the FAT has changed; without it nothing is written.
  When nothing was reported the chain was sound as it stood.
\<close>

theorem check_chain_sound:
  assumes "vol_ok cont n v e" "marks_ok v k" "g = fat_at (img cont v e)"
  shows "\<exists>cs first' k' v' e'. check_chain k v e first = Some (length cs, first', k', v', e') \<and>
    vol_ok cont n v' e' \<and> distinct cs \<and> set cs \<subseteq> unmarked v k \<and>
    (\<forall>d. 1 \<le> d \<longrightarrow> marked k' d \<longleftrightarrow> d \<in> set cs \<or> marked k d) \<and>
    (if k_repair k
     then (\<forall>c. c \<notin> set cs \<longrightarrow> fat_at (img cont v' e') c = g c) \<and>
       (if first' = 0 then cs = [] else first' = first \<and> chain (fat_at (img cont v' e')) first' cs)
     else first' = first \<and> img cont v' e' = img cont v e) \<and>
    (k_report k' = k_report k \<longrightarrow> (if first = 0 then cs = [] else chain g first cs))"
proof -
  obtain cs first' k' v' e' where c: "check_chain k v e first = Some (length cs, first', k', v', e')"
    "chain_checked cont n k v e first [] cs first' k' v' e'"
    using chain_from_spec [OF assms(1,2), of first "[]" first 0] by (auto simp: check_chain_def)
  then have "\<exists>new. cs = [] @ new \<and> distinct new \<and> set new \<subseteq> unmarked v k \<and>
           (\<forall>d. 1 \<le> d \<longrightarrow> marked k' d \<longleftrightarrow> d \<in> set new \<or> marked k d)" by (simp add: chain_checked_def Let_def)
  moreover have "chain h 0 cs \<Longrightarrow> cs = []" if "set cs \<subseteq> unmarked v k" for h
    using that by (cases cs) (auto simp: unmarked_def)
  ultimately show ?thesis using c assms(3)
    by (intro exI [of _ cs] exI [of _ first'] exI [of _ k'] exI [of _ v'] exI [of _ e'])
       (auto simp: chain_checked_def Let_def fat_step_def)
qed

definition ram_checker :: checker where
  "ram_checker = \<lparr>k_marks = [0], k_repair = True, k_report = zero_report\<rparr>"

lemma ram_marks_ok: "marks_ok ram_volume ram_checker"
  by (simp add: marks_ok_def ram_checker_def ram_volume_def)

theorem check_chain_sound_witness:
  "\<exists>(cs :: nat list) first' k' v' e'. check_chain ram_checker ram_volume ram_env 2 = Some (length cs, first', k', v', e') \<and>
     vol_ok ram_cont 8 v' e' \<and> distinct cs"
  using check_chain_sound [OF ram_volume_ok ram_marks_ok refl, of 2] by blast

section \<open>What the check does not see\<close>

text \<open>An entry whose first cluster is the mark of an end passes: nothing is reported, nothing changes.\<close>

lemma check_chain_end_unnoticed: "check_chain k v e FAT_END = Some (0, FAT_END, k, v, e)"
  unfolding check_chain_def by (subst chain_from.simps) simp

text \<open>The sum that rounds a size up to clusters wraps: a size near 2^32 needs none.\<close>

lemma check_size_wraps:
  assumes "U32 - 511 \<le> en_size en" "en_size en < U32" "0 < cnt" "k_repair k"
  shows "check_size k v e en cnt =
    (case free_chain v e (en_first en) of (v, e) \<Rightarrow> ((en\<lparr>en_first := 0\<rparr>, True), count_bad_size k, v, e))"
proof -
  define x where "x = en_size en - (U32 - 511)"
  have x: "en_size en = U32 - 511 + x" "x < 511" using assms(1,2) by (simp_all add: x_def)
  have "add32 (en_size en) 512 = x + 1" using x by (simp add: add32_def mod_if)
  then have "sub32 (add32 (en_size en) 512) 1 div 512 = 0" using x by simp
  moreover have "k_repair (count_bad_size k)" using assms(4) by (simp add: count_bad_size_def)
  ultimately show ?thesis using assms(3) by (simp add: check_size_def BLOCKDEV_SECTOR_def Let_def)
qed

text \<open>
  A directory whose chain never ends, which with finitely many clusters is a chain that comes back to one
  of its own: every link leads to a cluster of the volume. Its entry \<open>i\<close> is in the cluster that so many
  links lead to.
\<close>

definition endless :: "'m volume \<Rightarrow> (nat \<Rightarrow> u8 list) \<Rightarrow> nat \<Rightarrow> bool" where
  "endless v im c \<longleftrightarrow> (\<forall>j. 1 \<le> (fat_at im ^^ j) c \<and> (fat_at im ^^ j) c \<le> v_clusters v)"

definition endless_entry :: "'m volume \<Rightarrow> (nat \<Rightarrow> u8 list) \<Rightarrow> nat \<Rightarrow> nat \<Rightarrow> entry" where
  "endless_entry v im c i =
     entry_at (v_version v) im [cluster_at v ((fat_at im ^^ (i div sector_entries (v_version v))) c)]
       (i mod sector_entries (v_version v))"

lemma endless_core: "core v' = core v \<Longrightarrow> endless v' im c = endless v im c"
  "core v' = core v \<Longrightarrow> endless_entry v' im c i = endless_entry v im c i"
  using core_fields [of v' v] by (simp_all add: endless_def endless_entry_def cluster_at_def)

lemma endless_next: "endless v im c \<Longrightarrow> endless v im (fat_at im c)"
  unfolding endless_def by (metis comp_apply funpow_Suc_right)

lemma endless_first: "endless v im c \<Longrightarrow> 1 \<le> c \<and> c \<le> v_clusters v"
  unfolding endless_def by (metis funpow_0)

lemma endless_walk:
  assumes "vol_ok cont n v e" "endless v (img cont v e) c"
  shows "\<exists>v' e'. dir_walk s v e c False = (cluster_at v ((fat_at (img cont v e) ^^ s) c), v', e') \<and>
    keeps cont n v e v' e' \<and> img cont v' e' = img cont v e"
  using assms
proof (induction s arbitrary: v e c)
  case 0
  then show ?case
    using cluster_sector_at(1) [OF vol_okD(2) [OF 0(1)], of c] endless_first [OF 0(2)] keeps_refl by fastforce
next
  case (Suc s)
  let ?g = "fat_at (img cont v e)"
  note c = endless_first [OF Suc.prems(2)] and c' = endless_first [OF endless_next [OF Suc.prems(2)]]
  obtain v1 e1 where r: "fat_get v e c = (?g c, v1, e1)" "keeps cont n v e v1 e1" "img cont v1 e1 = img cont v e"
    using fat_get_at [OF Suc.prems(1)] c by blast
  have ok1: "vol_ok cont n v1 e1" "core v1 = core v" using r(2) by (simp_all add: keeps_def)
  note f = core_fields [OF ok1(2)]
  have cl: "cluster_at v1 = cluster_at v" using f by (auto simp: cluster_at_def)
  obtain v' e' where i: "dir_walk s v1 e1 (?g c) False = (cluster_at v ((?g ^^ s) (?g c)), v', e')"
      "keeps cont n v1 e1 v' e'" "img cont v' e' = img cont v1 e1"
    using Suc.IH [OF ok1(1), of "?g c"] endless_next [OF Suc.prems(2)] endless_core(1) [OF ok1(2)] r(3) cl by metis
  have "?g c \<noteq> FAT_END" "?g c \<noteq> FAT_FREE"
    using c' geometry_fields [OF vol_okD(2) [OF Suc.prems(1)]] by (auto simp: FAT_END_def FAT_FREE_def)
  moreover have "(?g ^^ Suc s) c = (?g ^^ s) (?g c)" by (simp only: funpow_Suc_right comp_apply)
  ultimately show ?case using r i keeps_trans [OF r(2) i(2)] f c' by auto
qed

lemma endless_get:
  assumes "vol_ok cont n v e" "endless v (img cont v e) c"
  shows "\<exists>v' e'. entry_get v e c i = (Some (endless_entry v (img cont v e) c i), v', e') \<and> keeps cont n v e v' e' \<and>
    img cont v' e' = img cont v e"
proof -
  let ?ver = "v_version v" and ?d = "(fat_at (img cont v e) ^^ (i div sector_entries (v_version v))) c"
  have g: "geometry_ok v n" by (rule vol_okD(2) [OF assms(1)])
  have d: "1 \<le> ?d" "?d \<le> v_clusters v" and c: "1 \<le> c" using assms(2) endless_first by (auto simp: endless_def)
  note cs = cluster_sector_at [OF g d]
  have s: "v_dir_start v \<le> cluster_at v ?d" "cluster_at v ?d \<noteq> 0" using cs(2) g by (auto simp: geometry_ok_def)
  obtain v1 e1 where w: "dir_walk (i div per_sector v) v e c False = (cluster_at v ?d, v1, e1)" "keeps cont n v e v1 e1"
      "img cont v1 e1 = img cont v e"
    using endless_walk [OF assms] by (metis entry_sizes(2))
  have ok1: "vol_ok cont n v1 e1" "core v1 = core v" using w(2) by (simp_all add: keeps_def)
  obtain v2 e2 where l: "dir_load v1 e1 (cluster_at v ?d) = (v2, e2)" "keeps cont n v1 e1 v2 e2" "img cont v2 e2 = img cont v1 e1"
    "v_dir_buf v2 = img cont v1 e1 (cluster_at v ?d)"
    using dir_load_keeps [OF ok1(1), of "cluster_at v ?d"] s cs(3) core_fields [OF ok1(2)] by auto
  have ok2: "core v2 = core v" using l(2) ok1(2) by (simp add: keeps_def)
  note f = core_fields [OF ok2]
  have "entry_get v e c i = (Some (endless_entry v (img cont v e) c i), v2, e2)"
    using w(1,3) l(1,3,4) s(2) c f sector_entries_pos [of ?ver]
    by (simp add: entry_get_def dir_sector_def entry_sizes endless_entry_def entry_at_def)
  then show ?thesis using keeps_trans [OF w(2) l(2)] w(3) l(3) by metis
qed

text \<open>Without repair the checks of a chain and of a file write nothing.\<close>

lemma count_repair [simp]:
  "k_repair (count_bad_chain k) = k_repair k" "k_repair (count_crossed k) = k_repair k" "k_repair (mark c k) = k_repair k"
  "k_repair (count_bad_size k) = k_repair k" "k_repair (count_file k) = k_repair k" "k_repair (count_directory k) = k_repair k"
  by (simp_all add: count_bad_chain_def count_crossed_def mark_def count_bad_size_def count_file_def count_directory_def)

lemma chain_from_reads:
  assumes "chain_from k v e first c prev cnt = Some (cnt', first', k', v', e')"
  shows "vol_ok cont n v e \<Longrightarrow> \<not> k_repair k \<Longrightarrow> first' = first \<and> cnt \<le> cnt' \<and> \<not> k_repair k' \<and> keeps cont n v e v' e' \<and> img cont v' e' = img cont v e"
proof -
  have "vol_ok cont n v e \<longrightarrow> \<not> k_repair k \<longrightarrow> (case (cnt', first', k', v', e') of (cnt', first', k', v', e') \<Rightarrow>
      first' = first \<and> cnt \<le> cnt' \<and> \<not> k_repair k' \<and> keeps cont n v e v' e' \<and> img cont v' e' = img cont v e)"
  proof (rule chain_from.raw_induct [where P = "\<lambda>k v e first c prev cnt r. vol_ok cont n v e \<longrightarrow> \<not> k_repair k \<longrightarrow>
      (case r of (cnt', first', k', v', e') \<Rightarrow> first' = first \<and> cnt \<le> cnt' \<and> \<not> k_repair k' \<and> keeps cont n v e v' e' \<and> img cont v' e' = img cont v e)", OF _ assms],
      goal_cases)
    case (1 chain_from' k v e first c prev cnt r)
    show ?case
    proof (intro impI)
      assume ok: "vol_ok cont n v e" and nr: "\<not> k_repair k"
      have me: "keeps cont n v e v e" by (rule keeps_refl [OF ok])
      show "case r of (cnt', first', k', v', e') \<Rightarrow> first' = first \<and> cnt \<le> cnt' \<and> \<not> k_repair k' \<and> keeps cont n v e v' e' \<and> img cont v' e' = img cont v e"
      proof (cases "c = 0 \<or> c = FAT_END \<or> v_clusters v < c \<or> marked k c")
        case True
        then show ?thesis using 1(2) nr me by (auto simp: Let_def split: if_splits)
      next
        case False
        obtain x v1 e1 where g: "fat_get v e c = (x, v1, e1)" "keeps cont n v e v1 e1" "img cont v1 e1 = img cont v e"
          using fat_get_at [OF ok, of c] False by force
        show ?thesis
        proof (cases "x = FAT_FREE")
          case True
          then show ?thesis using 1(2) False nr g by auto
        next
          case nf: False
          then have "chain_from' (mark c k) v1 e1 first x c (cnt + 1) = Some r" using 1(2) False g(1) by simp
          then have "case r of (cnt', first', k', v', e') \<Rightarrow> first' = first \<and> cnt + 1 \<le> cnt' \<and> \<not> k_repair k' \<and> keeps cont n v1 e1 v' e' \<and> img cont v' e' = img cont v1 e1"
            using 1(1) [of "mark c k" v1 e1 first x c "cnt + 1" r] g(2) nr by (simp add: keeps_def)
          then show ?thesis using keeps_trans [OF g(2)] g(3) by auto
        qed
      qed
    qed
  qed
  then show "vol_ok cont n v e \<Longrightarrow> \<not> k_repair k \<Longrightarrow> first' = first \<and> cnt \<le> cnt' \<and> \<not> k_repair k' \<and> keeps cont n v e v' e' \<and> img cont v' e' = img cont v e" by simp
qed

lemma check_size_reads: "\<not> k_repair k \<Longrightarrow> \<exists>r k'. check_size k v e en cnt = (r, k', v, e) \<and> \<not> k_repair k'"
  by (auto simp: check_size_def Let_def)

lemma check_leaf_reads: "\<not> k_repair k \<Longrightarrow> \<exists>k'. check_leaf k v e dir i en first cnt = (k', v, e) \<and> \<not> k_repair k'"
  using check_size_reads [of "count_file k" v e "en\<lparr>en_first := first\<rparr>" cnt]
  by (auto simp: check_leaf_def put_changed_def Let_def)

lemma endless_check:
  assumes "check_from k v e dir depth i = Some r"
  shows "\<not> (vol_ok cont n v e \<and> \<not> k_repair k \<and> endless v (img cont v e) dir \<and>
    (\<forall>i. entry_used (endless_entry v (img cont v e) dir i) \<longrightarrow> en_flags (endless_entry v (img cont v e) dir i) AND E_DIR = 0))"
proof (rule check_from.raw_induct [where P = "\<lambda>k v e dir depth i r. \<not> (vol_ok cont n v e \<and> \<not> k_repair k \<and>
    endless v (img cont v e) dir \<and> (\<forall>i. entry_used (endless_entry v (img cont v e) dir i) \<longrightarrow>
      en_flags (endless_entry v (img cont v e) dir i) AND E_DIR = 0))", OF _ assms], goal_cases)
  case (1 check_from' k v e dir depth i r)
  show ?case
  proof
    assume a: "vol_ok cont n v e \<and> \<not> k_repair k \<and> endless v (img cont v e) dir \<and>
      (\<forall>i. entry_used (endless_entry v (img cont v e) dir i) \<longrightarrow> en_flags (endless_entry v (img cont v e) dir i) AND E_DIR = 0)"
    let ?en = "endless_entry v (img cont v e) dir i"
    obtain v1 e1 where g: "entry_get v e dir i = (Some ?en, v1, e1)" "keeps cont n v e v1 e1" "img cont v1 e1 = img cont v e"
      using endless_get a by blast
    have ok1: "vol_ok cont n v1 e1" "core v1 = core v" using g(2) by (simp_all add: keeps_def)
    have again: False if "check_from' k' v' e' dir depth (add32 i 1) = Some r" "\<not> k_repair k'" "keeps cont n v1 e1 v' e'"
        "img cont v' e' = img cont v1 e1" for k' v' e'
    proof -
      have k: "vol_ok cont n v' e'" "core v' = core v" using that(3) ok1(2) by (simp_all add: keeps_def)
      show False
        using 1(1) [OF that(1)] a that(2) k(1) unfolding that(4) g(3) endless_core [OF k(2)] by blast
    qed
    show False
    proof (cases "entry_used ?en")
      case False
      then show False using 1(2) g(1) again [of k v1 e1] a keeps_refl [OF ok1(1)] by (simp add: entry_used_def)
    next
      case True
      then have fl: "en_flags ?en AND E_DIR = 0" "en_flags ?en AND E_USED \<noteq> 0" using a by (auto simp: entry_used_def)
      obtain cnt first k2 v2 e2 where ch: "check_chain k v1 e1 (en_first ?en) = Some (cnt, first, k2, v2, e2)"
        using 1(2) g(1) fl(2) by (cases "check_chain k v1 e1 (en_first ?en)") auto
      have c2: "\<not> k_repair k2" "keeps cont n v1 e1 v2 e2" "img cont v2 e2 = img cont v1 e1"
        using chain_from_reads [OF ch [unfolded check_chain_def] ok1(1)] a by blast+
      obtain k3 where lf: "check_leaf k2 v2 e2 dir i ?en first cnt = (k3, v2, e2)" "\<not> k_repair k3"
        using check_leaf_reads [OF c2(1)] by blast
      have "\<not> walks_into ?en first depth cnt" using fl(1) by (simp add: walks_into_def)
      then have "check_from' k3 v2 e2 dir depth (add32 i 1) = Some r" using 1(2) g(1) fl(2) ch lf(1) by simp
      then show False by (rule again [OF _ lf(2) c2(2,3)])
    qed
  qed
qed

lemma endless_find:
  assumes "find_from v e dir name i = Some r"
  shows "\<not> (vol_ok cont n v e \<and> endless v (img cont v e) dir \<and>
    (\<forall>i. \<not> (entry_used (endless_entry v (img cont v e) dir i) \<and> en_str (endless_entry v (img cont v e) dir i) = name)))"
proof (rule find_from.raw_induct [where P = "\<lambda>v e dir name i r. \<not> (vol_ok cont n v e \<and> endless v (img cont v e) dir \<and>
    (\<forall>i. \<not> (entry_used (endless_entry v (img cont v e) dir i) \<and> en_str (endless_entry v (img cont v e) dir i) = name)))",
    OF _ assms], goal_cases)
  case (1 find_from' v e dir name i r)
  show ?case
  proof
    assume a: "vol_ok cont n v e \<and> endless v (img cont v e) dir \<and>
      (\<forall>i. \<not> (entry_used (endless_entry v (img cont v e) dir i) \<and> en_str (endless_entry v (img cont v e) dir i) = name))"
    let ?en = "endless_entry v (img cont v e) dir i"
    obtain v1 e1 where g: "entry_get v e dir i = (Some ?en, v1, e1)" "keeps cont n v e v1 e1" "img cont v1 e1 = img cont v e"
      using endless_get a by blast
    have k: "vol_ok cont n v1 e1" "core v1 = core v" using g(2) by (simp_all add: keeps_def)
    have "\<not> (entry_used ?en \<and> en_str ?en = name)" using a by blast
    then have "find_from' v1 e1 dir name (add32 i 1) = Some r" using 1(2) g(1) by (auto simp: entry_used_def)
    from 1(1) [OF this] show False using a k(1) unfolding g(3) endless_core [OF k(2)] by blast
  qed
qed

text \<open>From the entries of the root before it, the check comes to a used entry of an endless directory.\<close>

lemma check_comes_to:
  assumes "vol_ok cont n v e" "\<not> k_repair k" "dir_ok v (img cont v e) 0 secs" "ens = dir_entries v (img cont v e) secs"
    "i \<le> j" "j < length ens" "\<forall>i < j. \<not> entry_used (ens ! i)" "entry_used (ens ! j)" "en_flags (ens ! j) AND E_DIR \<noteq> 0"
    "c = en_first (ens ! j)" "\<not> marked k c" "endless v (img cont v e) c"
    "\<forall>i. entry_used (endless_entry v (img cont v e) c i) \<longrightarrow> en_flags (endless_entry v (img cont v e) c i) AND E_DIR = 0"
  shows "check_from k v e 0 0 i = None"
  using assms
proof (induction "j - i" arbitrary: v e i)
  case 0
  then have i: "i = j" by simp
  obtain v1 e1 where g: "entry_get v e 0 j = (Some (ens ! j), v1, e1)" "keeps cont n v e v1 e1" "img cont v1 e1 = img cont v e"
    using entry_get_entries [OF 0(2,4,5), of j] 0(7) by auto
  have ok1: "vol_ok cont n v1 e1" "core v1 = core v" using g(2) by (simp_all add: keeps_def)
  have en: "endless v1 (img cont v1 e1) c" using 0(13) endless_core(1) [OF ok1(2)] g(3) by simp
  note c = endless_first [OF en] and c' = endless_first [OF endless_next [OF en]]
  have U: "en_flags (ens ! j) AND E_USED \<noteq> 0" using 0(9) by (simp add: entry_used_def)
  show ?case
  proof (cases "check_chain k v1 e1 c")
    case None
    then show ?thesis using g(1) i U 0(11) by (subst check_from.simps) simp
  next
    case (Some q)
    obtain cnt first k2 v2 e2 where q: "q = (cnt, first, k2, v2, e2)" by (cases q)
    have r: "first = c \<and> \<not> k_repair k2 \<and> keeps cont n v1 e1 v2 e2 \<and> img cont v2 e2 = img cont v1 e1"
      using chain_from_reads [OF Some [unfolded check_chain_def q] ok1(1) 0(3)] by blast
    obtain v3 e3 where f: "fat_get v1 e1 c = (fat_at (img cont v1 e1) c, v3, e3)" "keeps cont n v1 e1 v3 e3"
      using fat_get_at [OF ok1(1)] c by blast
    have ne: "c \<noteq> 0" "c \<noteq> FAT_END" "fat_at (img cont v1 e1) c \<noteq> FAT_FREE"
      using c c' geometry_fields [OF vol_okD(2) [OF ok1(1)]] by (auto simp: FAT_END_def FAT_FREE_def)
    have "chain_from (mark c k) v3 e3 c (fat_at (img cont v1 e1) c) c 1 = Some q"
      using Some c ne f(1) 0(12) unfolding check_chain_def by (subst (asm) chain_from.simps) (simp add: Let_def)
    then have "1 \<le> cnt" using chain_from_reads [of "mark c k" v3 e3 c "fat_at (img cont v1 e1) c" c 1 cnt first k2 v2 e2 cont n] q f(2) 0(3)
      by (simp add: keeps_def)
    then have w: "walks_into (ens ! j) first 0 cnt" using 0(10) r ne(1) by (simp add: walks_into_def MAX_PARTS_def)
    have k2: "vol_ok cont n v2 e2" "core v2 = core v1" using r by (simp_all add: keeps_def)
    have "check_from (count_directory k2) v2 e2 c (0 + 1) 0 = None"
    proof (rule ccontr)
      assume "check_from (count_directory k2) v2 e2 c (0 + 1) 0 \<noteq> None"
      then obtain z where "check_from (count_directory k2) v2 e2 c (0 + 1) 0 = Some z" by auto
      from endless_check [OF this, of cont n] show False
        using k2(1) r en 0(14) unfolding endless_core [OF k2(2)] endless_core [OF ok1(2)] by (auto simp: g(3))
    qed
    then show ?thesis using g(1) i U 0(11) Some q w r by (subst check_from.simps) simp
  qed
next
  case (Suc d)
  then have lt: "i < j" by simp
  then have il: "i < length ens" using Suc.prems(6) by simp
  obtain v1 e1 where g: "entry_get v e 0 i = (Some (ens ! i), v1, e1)" "keeps cont n v e v1 e1" "img cont v1 e1 = img cont v e"
    using entry_get_entries [OF Suc.prems(1,3,4), of i] il by auto
  have ok1: "vol_ok cont n v1 e1" "core v1 = core v" using g(2) by (simp_all add: keeps_def)
  have p: "dir_ok v1 (img cont v1 e1) 0 secs" "ens = dir_entries v1 (img cont v1 e1) secs"
    using Suc.prems(3,4) dir_ok_core [OF ok1(2)] g(3) by simp_all
  have "add32 i 1 = i + 1" using il Suc.prems(3,4) by (simp add: dir_ok_def)
  moreover have "\<not> entry_used (ens ! i)" using Suc.prems(7) lt by blast
  ultimately have "check_from k v e 0 0 i = check_from k v1 e1 0 0 (i + 1)"
    using g(1) by (subst check_from.simps) (simp add: entry_used_def)
  moreover have "check_from k v1 e1 0 0 (i + 1) = None"
    by (rule Suc.hyps(1) [OF _ ok1(1) Suc.prems(2) p])
      (use Suc.hyps(2) Suc.prems lt endless_core [OF ok1(2)] g(3) in simp_all)
  ultimately show ?case by simp
qed

lemma dev_flush_keeps:
  assumes "vol_ok cont n v e"
  shows "\<exists>v' e'. dev_flush v e = (v', e') \<and> keeps cont n v e v' e' \<and> img cont v' e' = img cont v e"
proof (cases "bd_flush (v_dev v)")
  case (Some f)
  then obtain m' where f: "f (mach e) = (0, m')" "cont m' = cont (mach e)"
    using vol_okD(1) [OF assms] unfolding device_ok_def by blast
  have "vol_ok cont n v (e\<lparr>mach := m'\<rparr>)" using assms f(2) by (simp add: vol_ok_def)
  moreover have "img cont v (e\<lparr>mach := m'\<rparr>) = img cont v e" by (rule ext) (simp add: img_def f(2))
  ultimately show ?thesis using Some f(1) assms keeps_refl [OF assms]
    by (auto simp: dev_flush_def keeps_def same_env_def vol_ok_def device_ok_def)
qed (use assms keeps_refl in \<open>auto simp: dev_flush_def\<close>)

lemma sync_keeps:
  assumes "vol_ok cont n (fs_volumes st ! vi) (fs_env st)" "vi < length (fs_volumes st)" "length (fs_files st) = FS_MAX_OPEN"
    "\<not> has_open_files vi st"
  shows "\<exists>v' e'. sync_volume vi st = st\<lparr>fs_volumes := (fs_volumes st)[vi := v'], fs_env := e'\<rparr> \<and>
    keeps cont n (fs_volumes st ! vi) (fs_env st) v' e' \<and> img cont v' e' = img cont (fs_volumes st ! vi) (fs_env st)"
proof (cases "v_mounted (fs_volumes st ! vi)")
  case True
  have "\<forall>i \<in> set is. i < length (fs_files st) \<Longrightarrow> sync_files is vi st = st" for "is"
    using assms(4) by (induction "is") (auto simp: has_open_files_def list_ex_length)
  then have sf: "sync_files [0..<FS_MAX_OPEN] vi st = st" using assms(3) by simp
  obtain v1 e1 where f: "fat_flush (fs_volumes st ! vi) (fs_env st) = (v1, e1)" "keeps cont n (fs_volumes st ! vi) (fs_env st) v1 e1"
      "img cont v1 e1 = img cont (fs_volumes st ! vi) (fs_env st)" using fat_flush_keeps [OF assms(1)] by blast
  then obtain v2 e2 where d: "dir_flush v1 e1 = (v2, e2)" "keeps cont n v1 e1 v2 e2" "img cont v2 e2 = img cont v1 e1"
    using dir_flush_keeps [of cont n v1 e1] by (auto simp: keeps_def)
  then obtain v3 e3 where v: "dev_flush v2 e2 = (v3, e3)" "keeps cont n v2 e2 v3 e3" "img cont v3 e3 = img cont v2 e2"
    using dev_flush_keeps [of cont n v2 e2] by (auto simp: keeps_def)
  have "sync_volume vi st = st\<lparr>fs_volumes := (fs_volumes st)[vi := v3], fs_env := e3\<rparr>"
    using True sf f(1) d(1) v(1) assms(2) by (simp add: sync_volume_def on_vol_def Let_def)
  then show ?thesis using f d v keeps_trans by metis
next
  case False
  then show ?thesis using keeps_refl [OF assms(1)]
    by (intro exI [of _ "fs_volumes st ! vi"] exI [of _ "fs_env st"]) (simp add: sync_volume_def)
qed

text \<open>
  C27: A directory whose chain never ends (it comes back to one of its own clusters) makes the library loop
  for ever: looking up a name that no used entry of it has never returns, and \<open>fs_check\<close> without \<open>repair\<close>
  of a mounted volume never returns when the first used entry of the root is such a directory and it has
  no directories in it. The check has counted the crossing but goes into the directory all the same.
\<close>

theorem circular_directory_hangs:
  assumes "vol_ok cont n v e" "v = fs_volumes st ! vi" "e = fs_env st" "im = img cont v e" "endless v im c"
  shows "((\<forall>i. \<not> (entry_used (endless_entry v im c i) \<and> en_str (endless_entry v im c i) = name)) \<longrightarrow> find_in v e c name = None) \<and>
    (named_opt point st = Some vi \<longrightarrow> vi < length (fs_volumes st) \<longrightarrow> length (fs_files st) = FS_MAX_OPEN \<longrightarrow>
     \<not> has_open_files vi st \<longrightarrow> dir_ok v im 0 secs \<longrightarrow> j < length (dir_entries v im secs) \<longrightarrow>
     (\<forall>i < j. \<not> entry_used (dir_entries v im secs ! i)) \<longrightarrow> entry_used (dir_entries v im secs ! j) \<longrightarrow>
     en_flags (dir_entries v im secs ! j) AND E_DIR \<noteq> 0 \<longrightarrow> en_first (dir_entries v im secs ! j) = c \<longrightarrow>
     (\<forall>i. entry_used (endless_entry v im c i) \<longrightarrow> en_flags (endless_entry v im c i) AND E_DIR = 0) \<longrightarrow>
     fs_check point False True st = None)"
proof (intro conjI impI)
  assume no: "\<forall>i. \<not> (entry_used (endless_entry v im c i) \<and> en_str (endless_entry v im c i) = name)"
  show "find_in v e c name = None"
  proof (cases "find_from v e c name 0")
    case (Some r)
    from endless_find [OF this, of cont n] show ?thesis using assms(1,4,5) no by blast
  qed (simp add: find_in_def)
next
  assume a: "named_opt point st = Some vi" "vi < length (fs_volumes st)" "length (fs_files st) = FS_MAX_OPEN"
    "\<not> has_open_files vi st" "dir_ok v im 0 secs" "j < length (dir_entries v im secs)"
    "\<forall>i < j. \<not> entry_used (dir_entries v im secs ! i)" "entry_used (dir_entries v im secs ! j)"
    "en_flags (dir_entries v im secs ! j) AND E_DIR \<noteq> 0" "en_first (dir_entries v im secs ! j) = c"
    "\<forall>i. entry_used (endless_entry v im c i) \<longrightarrow> en_flags (endless_entry v im c i) AND E_DIR = 0"
  obtain v' e' where s: "sync_volume vi st = st\<lparr>fs_volumes := (fs_volumes st)[vi := v'], fs_env := e'\<rparr>"
      "keeps cont n v e v' e'" "img cont v' e' = im"
    using sync_keeps [OF _ a(2-4), of cont n] assms(1-4) by auto
  have k: "vol_ok cont n v' e'" "core v' = core v" using s(2) by (simp_all add: keeps_def)
  let ?k = "\<lparr>k_marks = replicate (v_clusters v' div 8 + 1) 0, k_repair = False, k_report = zero_report\<rparr>"
  have m: "\<not> marked ?k c"
  proof -
    have "c div 8 < v_clusters v' div 8 + 1" using endless_first [OF assms(5)] core_fields [OF k(2)] by (simp add: div_le_mono le_imp_less_Suc)
    then show ?thesis by (simp add: marked_def del: replicate_Suc)
  qed
  have de: "dir_entries v' im secs = dir_entries v im secs" "dir_ok v' im 0 secs"
    using dir_ok_core [OF k(2)] a(5) by simp_all
  have "check_from ?k v' e' 0 0 0 = None"
    by (rule check_comes_to [of cont n v' e' ?k secs _ 0 j c, OF k(1) _ _ refl])
      (use a m de endless_core [OF k(2)] assms(5) s(3) in simp_all)
  then show "fs_check point False True st = None"
    using a(1,2) s(1) by (simp add: fs_check_def try_vol_def check_dir_def Let_def)
qed

text \<open>Such a volume: the root holds one directory, cluster 2, whose chain is 2, 3, 2, 3 and so on.\<close>

definition circular_entry :: entry where
  "circular_entry = zero_entry\<lparr>en_first := 2, en_flags := 3\<rparr>"

definition circular_env :: "(nat \<Rightarrow> u8 list) env" where
  "circular_env = ram_env\<lparr>mach := (\<lambda>s. if s = 1 then [0, 0, 0, 0, 3, 0, 2, 0] else if s = 2 then entry_encode 2 circular_entry else [])\<rparr>"

definition circular_fs :: "(nat \<Rightarrow> u8 list) fs" where
  "circular_fs = \<lparr>fs_volumes = [ram_volume], fs_files = replicate 8 zero_ofile, fs_env = circular_env\<rparr>"

lemma circular_img:
  "img ram_cont ram_volume circular_env s =
    (if s = 1 then [0, 0, 0, 0, 3, 0, 2, 0] @ replicate 504 0
     else if s = 2 then entry_encode 2 circular_entry @ replicate 448 0 else replicate 512 0)"
proof -
  have "length (entry_encode 2 circular_entry) = 64"
    using length_entry_encode [of circular_entry 2] by (simp add: circular_entry_def entry_ok_def zero_entry_def)
  then show ?thesis by (cases s) (auto simp: img_def ram_volume_def circular_env_def ram_cont_def)
qed

lemma circular_volume: "vol_ok ram_cont 8 ram_volume circular_env"
  using ram_volume_ok by (simp add: vol_ok_def ram_volume_def)

lemma circular_endless:
  "endless ram_volume (img ram_cont ram_volume circular_env) 2"
  "\<not> entry_used (endless_entry ram_volume (img ram_cont ram_volume circular_env) 2 i)"
proof -
  let ?g = "fat_at (img ram_cont ram_volume circular_env)"
  have "?g 2 = 3" "?g 3 = 2" unfolding fat_at_def by (simp_all add: circular_img)
  then have two: "(?g ^^ j) 2 = 2 \<or> (?g ^^ j) 2 = 3" for j by (induction j) auto
  show "endless ram_volume (img ram_cont ram_volume circular_env) 2"
  proof (unfold endless_def, intro allI)
    show "1 \<le> (?g ^^ j) 2 \<and> (?g ^^ j) 2 \<le> v_clusters ram_volume" for j
      using two [of j] by (auto simp: ram_volume_def)
  qed
  let ?s = "cluster_at ram_volume ((?g ^^ (i div 8)) 2)"
  have s: "?s = 4 \<or> ?s = 5" using two [of "i div 8"] by (auto simp: cluster_at_def ram_volume_def)
  then have im: "img ram_cont ram_volume circular_env ?s = replicate 512 0" by (auto simp: circular_img)
  have "i mod 8 < 8" by simp
  then have "le32 (drop (i mod 8 * 64) (replicate 512 0)) 60 = le32 (replicate 64 0) 60" by (intro le32_cong) simp
  also have "\<dots> = 0" by (simp add: le32_def le16_def)
  finally show "\<not> entry_used (endless_entry ram_volume (img ram_cont ram_volume circular_env) 2 i)"
    using im by (simp add: endless_entry_def entry_at_def sector_entries_def entry_bytes_def entry_decode_def entry_used_def
      ram_volume_def)
qed

theorem circular_directory_hangs_witness:
  "find_in ram_volume circular_env 2 [65] = None \<and> fs_check (Some []) False True circular_fs = None"
proof -
  let ?v = ram_volume and ?e = circular_env
  have ok: "entry_ok circular_entry" by (simp add: circular_entry_def entry_ok_def zero_entry_def)
  have "entry_stored 2 circular_entry = circular_entry"
  proof -
    have "(replicate 48 0)[47 := 0] = replicate 48 (0 :: u8)" by (rule nth_equalityI) (simp_all add: nth_list_update)
    then show ?thesis by (simp add: entry_stored_def circular_entry_def zero_entry_def)
  qed
  moreover have "v_version ?v = 2" by (simp add: ram_volume_def)
  ultimately have en: "dir_entries ?v (img ram_cont ?v ?e) [2] ! 0 = circular_entry"
    using entry_decode_encode [OF ok, of 2 "replicate 448 0"]
    by (simp add: dir_entries_def entry_at_def circular_img sector_entries_def)
  have l: "0 < length (dir_entries ?v (img ram_cont ?v ?e) [2])" by (simp add: sector_entries_def)
  have ce: "entry_used circular_entry" "en_flags circular_entry AND E_DIR \<noteq> 0" "en_first circular_entry = 2"
    by (simp_all add: circular_entry_def entry_used_def E_USED_def E_DIR_def)
  have fs: "?v = fs_volumes circular_fs ! 0" "?e = fs_env circular_fs" "named_opt (Some []) circular_fs = Some 0"
    "0 < length (fs_volumes circular_fs)" "length (fs_files circular_fs) = FS_MAX_OPEN" "\<not> has_open_files 0 circular_fs"
    by (simp_all add: circular_fs_def named_opt_def volume_named_def FS_MAX_VOLUMES_def eval_nat_numeral ram_volume_def
      FS_MAX_OPEN_def has_open_files_def zero_ofile_def)
  show ?thesis
    using circular_directory_hangs [OF circular_volume fs(1,2) refl circular_endless(1), of "[65]" "Some []" "[2]" 0]
      fs(3-6) ram_root_ok l circular_endless(2) en ce by simp
qed

end
