(* ===== verification/Fs_Format.thy ===== *)
theory Fs_Format
  imports Fs_Mount Fs_Dir
begin

text \<open>
  CeresFS: what formatting leaves on a device is what mounting accepts, and what mounting accepts.
\<close>

section \<open>The size of the FAT\<close>

lemma fat_clusters_exact:
  assumes "fats + dirs < tot" "tot < U32"
  shows "fat_clusters tot fats dirs = min (tot - 1 - fats - dirs) 65534"
proof -
  have "sub32 tot 1 = tot - 1" "sub32 (tot - 1) fats = tot - 1 - fats" "sub32 (tot - 1 - fats) dirs = tot - 1 - fats - dirs"
    using assms by simp_all
  then show ?thesis by (simp add: fat_clusters_def Let_def MAX_CLUSTERS_def)
qed

text \<open>At least one sector, and never more than a FAT of the whole device would take.\<close>

lemma fat_size_spec:
  assumes "8 \<le> tot" "tot < U32" "1 \<le> dirs" "32 * dirs \<le> max 32 tot" "1 \<le> fats" "512 * fats \<le> 2 * tot + 513" "fats \<le> 256"
  shows "\<exists>f n. fat_size tot dirs fats = (f, n) \<and> 1 \<le> f \<and> f \<le> 256 \<and> n = min (tot - 1 - f - dirs) 65534 \<and> 0 < n \<and>
    1 + f + dirs + n \<le> tot \<and> 2 * n + 2 \<le> 512 * f"
  using assms(5-7)
proof (induction "256 - fats" arbitrary: fats rule: less_induct)
  case less
  have lt: "fats + dirs + 1 < tot" using assms(1,3,4) less.prems by (simp add: max_def split: if_splits)
  then have c: "fat_clusters tot fats dirs = min (tot - 1 - fats - dirs) 65534" using fat_clusters_exact assms(2) by simp
  let ?n = "min (tot - 1 - fats - dirs) 65534"
  have need: "fat_need ?n = (2 * ?n + 513) div 512" by (rule fat_need_exact) simp
  show ?case
  proof (cases "fat_need ?n \<le> fats")
    case True
    then have "fat_size tot dirs fats = (fats, ?n)" by (simp add: fat_size.simps [of tot dirs fats] Let_def c)
    moreover have "2 * ?n + 2 \<le> 512 * fats" using True need by linarith
    ultimately show ?thesis using less.prems lt by (intro exI [of _ fats] exI [of _ ?n]) auto
  next
    case False
    have "?n \<le> tot" by simp
    then have b: "512 * fat_need ?n \<le> 2 * tot + 513" unfolding need using div_times_less_eq_dividend [of "2 * ?n + 513" 512] by linarith
    have m: "fat_need ?n \<le> 256" by (rule fat_need_le) simp
    have "fat_size tot dirs fats = fat_size tot dirs (fat_need ?n)" using False by (simp add: fat_size.simps [of tot dirs fats] Let_def c)
    moreover have "256 - fat_need ?n < 256 - fats" "1 \<le> fat_need ?n" using False less.prems m by linarith+
    ultimately show ?thesis using less.hyps [of "fat_need ?n"] b m by presburger
  qed
qed

text \<open>It is the number of sectors the entries would take were one sector enough for them.\<close>

lemma fat_size_exact:
  assumes "dirs + 1 < tot" "tot < U32" "k = (2 * min (tot - 2 - dirs) 65534 + 513) div 512" "k + dirs < tot"
  shows "fst (fat_size tot dirs 1) = k"
proof -
  have c1: "fat_clusters tot 1 dirs = min (tot - 2 - dirs) 65534" using fat_clusters_exact [of 1 dirs tot] assms(1,2) by simp
  have n1: "fat_need (fat_clusters tot 1 dirs) = k" unfolding c1 assms(3) by (rule fat_need_exact) simp
  have k1: "1 \<le> k" unfolding assms(3) by linarith
  show ?thesis
  proof (cases "k \<le> 1")
    case True
    then have k: "k = 1" using k1 by simp
    show ?thesis using n1 unfolding k by (subst fat_size.simps) (simp add: Let_def)
  next
    case False
    have ck: "fat_clusters tot k dirs = min (tot - 1 - k - dirs) 65534" using fat_clusters_exact [of k dirs tot] assms(2,4) by simp
    have le: "min (tot - 1 - k - dirs) 65534 \<le> min (tot - 2 - dirs) 65534" using False by auto
    have "fat_need (fat_clusters tot k dirs) = (2 * min (tot - 1 - k - dirs) 65534 + 513) div 512"
      unfolding ck by (rule fat_need_exact) simp
    also have "\<dots> \<le> (2 * min (tot - 2 - dirs) 65534 + 513) div 512"
      by (intro div_le_mono add_le_mono1 mult_le_mono2 le)
    also have "\<dots> = k" by (rule assms(3) [symmetric])
    finally have "fst (fat_size tot dirs k) = k" by (subst fat_size.simps) (simp add: Let_def)
    moreover have "fat_size tot dirs 1 = fat_size tot dirs k"
      unfolding fat_size.simps [of tot dirs 1] Let_def n1 using False by (simp only: if_False)
    ultimately show ?thesis by simp
  qed
qed

section \<open>The superblock\<close>

lemma length_put_word [simp]: "length (put_word i x sb) = length sb"
  by (simp add: put_word_def)

lemma sb_word_put:
  assumes "length sb = 512" "i < 128" "j < 128" "x < U32"
  shows "sb_word (put_word i x sb) j = (if j = i then x else sb_word sb j)"
proof (cases "j = i")
  case True
  then show ?thesis using assms by (simp add: sb_word_def put_word_def le32_put_le32)
next
  case False
  then have "4 * j + 3 < 4 * i \<or> 4 * i + 3 < 4 * j" by arith
  then show ?thesis using False by (simp add: sb_word_def put_word_def le32_put_le32_other)
qed

lemma superblock_words:
  assumes "version \<le> 2" "tot < U32" "fats < U32" "dirs < U32" "1 + fats + dirs < U32" "n < U32" "sb = superblock version tot fats dirs n"
  shows "sb_word sb 0 = (if version = 1 then MAGIC_V1 else MAGIC_V2)" "sb_word sb 1 = version" "sb_word sb 2 = tot" "sb_word sb 3 = 1"
    "sb_word sb 4 = fats" "sb_word sb 5 = 1 + fats" "sb_word sb 6 = dirs" "sb_word sb 7 = 1 + fats + dirs" "sb_word sb 8 = n"
    "length sb = 512"
  using assms unfolding superblock_def
  by (simp_all add: sb_word_put zero_sector_def BLOCKDEV_SECTOR_def MAGIC_V1_def MAGIC_V2_def)

section \<open>The sectors written\<close>

lemma length_zero_sector [simp]: "length zero_sector = 512"
  by (simp add: zero_sector_def BLOCKDEV_SECTOR_def)

lemma zero_sectors_spec:
  assumes "device_ok dev cont n" "s + left \<le> n"
  shows "\<exists>m'. zero_sectors dev m s left bad = (bad, m') \<and>
    cont m' = (\<lambda>t. if s \<le> t \<and> t < s + left then zero_sector else cont m t)"
  using assms(2)
proof (induction left arbitrary: s m)
  case 0
  have "(\<lambda>t. if s \<le> t \<and> t < s + 0 then zero_sector else cont m t) = cont m" by (rule ext) auto
  then show ?case by simp
next
  case (Suc left)
  obtain m1 where w: "bd_write dev m s zero_sector = (0, m1)" "cont m1 = (cont m)(s := zero_sector)"
    using device_write [OF assms(1), of s zero_sector m] Suc.prems by auto
  obtain m2 where i: "zero_sectors dev m1 (s + 1) left bad = (bad, m2)"
    "cont m2 = (\<lambda>t. if s + 1 \<le> t \<and> t < s + 1 + left then zero_sector else cont m1 t)"
    using Suc.IH [of "s + 1" m1] Suc.prems by auto
  have "cont m2 = (\<lambda>t. if s \<le> t \<and> t < s + Suc left then zero_sector else cont m t)"
    unfolding i(2) w(2) by (rule ext) auto
  then show ?case using w(1) i(1) by simp
qed

definition format_dirs :: "nat \<Rightarrow> nat" where
  "format_dirs tot = (let d = tot div 32; d = (if d < 1 then 1 else d) in if 16 < d then 16 else d)"

lemma format_dirs_range: "1 \<le> format_dirs tot" "format_dirs tot \<le> 16" "32 * format_dirs tot \<le> max 32 tot"
  by (auto simp: format_dirs_def Let_def)

lemma format_device_spec:
  assumes "device_ok dev cont n" "8 \<le> n" "version = 1 \<or> version = 2" "dirs = format_dirs n"
  shows "\<exists>m' fats c. fs_format_device (Some dev) version st = (0, st\<lparr>fs_env := (fs_env st)\<lparr>mach := m'\<rparr>\<rparr>) \<and>
    1 \<le> fats \<and> fats \<le> 256 \<and> fats = (2 * min (n - 2 - dirs) 65534 + 513) div 512 \<and>
    c = min (n - 1 - fats - dirs) 65534 \<and> 0 < c \<and> 1 + fats + dirs + c \<le> n \<and> 2 * c + 2 \<le> 512 * fats \<and>
    cont m' 0 = superblock version n fats dirs c \<and> (\<forall>s. 1 \<le> s \<and> s \<le> fats + dirs \<longrightarrow> cont m' s = zero_sector)"
proof -
  have n: "n < U32" "\<not> bd_read_only dev" "bd_sectors dev m = n" for m using assms(1) by (simp_all add: device_ok_def)
  note d = format_dirs_range [of n, folded assms(4)]
  obtain fats c where f: "fat_size n dirs 1 = (fats, c)" "1 \<le> fats" "fats \<le> 256" "c = min (n - 1 - fats - dirs) 65534" "0 < c"
    "1 + fats + dirs + c \<le> n" "2 * c + 2 \<le> 512 * fats"
    using fat_size_spec [OF assms(2) n(1) d(1,3), of 1] assms(2) by auto
  let ?k = "(2 * min (n - 2 - dirs) 65534 + 513) div 512"
  have "dirs + 1 < n" using d(3) assms(2) by (simp add: max_def split: if_splits)
  moreover have "512 * ?k \<le> 2 * n + 513" using div_times_less_eq_dividend [of "2 * min (n - 2 - dirs) 65534 + 513" 512] by linarith
  then have "?k + dirs < n" using d(3) assms(2) by (simp add: max_def split: if_splits)
  ultimately have fk: "fats = ?k" using fat_size_exact [OF _ n(1) refl, of dirs] f(1) by simp
  let ?sb = "superblock version n fats dirs c"
  have l: "length ?sb = 512" by (simp add: superblock_def)
  obtain m1 where w: "bd_write dev (mach (fs_env st)) 0 ?sb = (0, m1)" "cont m1 = (cont (mach (fs_env st)))(0 := ?sb)"
    using device_write [OF assms(1), of 0 ?sb "mach (fs_env st)"] l assms(2) by auto
  obtain m2 where z: "zero_sectors dev m1 1 (fats + dirs) False = (False, m2)"
    "cont m2 = (\<lambda>t. if 1 \<le> t \<and> t < 1 + (fats + dirs) then zero_sector else cont m1 t)"
    using zero_sectors_spec [OF assms(1), of 1 "fats + dirs" m1 False] f(6) by auto
  obtain m3 where fl: "(case bd_flush dev of None \<Rightarrow> (False, m2) | Some g \<Rightarrow> (case g m2 of (r, m) \<Rightarrow> (False \<or> r \<noteq> 0, m))) = (False, m3)"
    "cont m3 = cont m2"
  proof (cases "bd_flush dev")
    case None
    then show ?thesis using that by simp
  next
    case (Some g)
    then obtain m' where "g m2 = (0, m')" "cont m' = cont m2" using assms(1) unfolding device_ok_def by blast
    then show ?thesis using that Some by simp
  qed
  have "fs_format_device (Some dev) version st = (0, st\<lparr>fs_env := (fs_env st)\<lparr>mach := m3\<rparr>\<rparr>)"
    using assms(2,3) n w(1) z(1) fl(1) f(1) assms(4) by (auto simp: fs_format_device_def Let_def format_dirs_def)
  moreover have "cont m3 0 = ?sb" "\<forall>s. 1 \<le> s \<and> s \<le> fats + dirs \<longrightarrow> cont m3 s = zero_sector" using z(2) w(2) fl(2) by auto
  ultimately show ?thesis using f fk by blast
qed

section \<open>Mounting what was formatted\<close>

lemma on_vol_sel [simp]:
  "fs_volumes (set_errno x st) = fs_volumes st" "fs_files (set_errno x st) = fs_files st"
  by (simp_all add: set_errno_def)

lemma sb_good:
  assumes "8 \<le> n" "n < U32" "version = 1 \<or> version = 2" "1 \<le> fats" "fats \<le> 256" "1 \<le> dirs" "dirs \<le> 16" "0 < c" "c \<le> 65534"
    "1 + fats + dirs + c \<le> n" "2 * c + 2 \<le> 512 * fats" "sb = superblock version n fats dirs c"
  shows "superblock_version sb = version \<and> \<not> superblock_bad sb n"
proof -
  have v2: "version \<le> 2" using assms(3) by auto
  have lt: "fats < U32" "dirs < U32" "1 + fats + dirs < U32" "c < U32" using assms(5,7,9) by simp_all
  have w: "sb_word sb 0 = (if version = 1 then MAGIC_V1 else MAGIC_V2)" "sb_word sb 1 = version" "sb_word sb 2 = n" "sb_word sb 3 = 1"
    "sb_word sb 4 = fats" "sb_word sb 5 = 1 + fats" "sb_word sb 6 = dirs" "sb_word sb 7 = 1 + fats + dirs" "sb_word sb 8 = c"
    using superblock_words(1-9) [OF _ assms(2) _ _ _ _ assms(12)] v2 lt by simp_all
  have v: "superblock_version sb = version" using assms(3) w(1) by (auto simp: superblock_version_def MAGIC_V1_def MAGIC_V2_def)
  have a: "add32 1 fats = 1 + fats" "add32 (1 + fats) dirs = 1 + fats + dirs" "add32 (1 + fats + dirs) c = 1 + fats + dirs + c"
    "add32 c 1 = c + 1" "mul32 (c + 1) 2 = 2 * c + 2" "mul32 fats 512 = 512 * fats"
    using assms by simp_all
  have "\<not> superblock_bad sb n"
    unfolding superblock_bad_def Let_def w v MAX_CLUSTERS_def BLOCKDEV_SECTOR_def a using assms by auto
  then show ?thesis using v by simp
qed

lemma mount_into_spec:
  assumes "device_ok dev cont n" "8 \<le> n" "\<not> v_mounted (fs_volumes st ! vi)" "vi < length (fs_volumes st)"
    "cont (mach (fs_env st)) 0 = sb" "\<not> superblock_bad sb n"
  shows "\<exists>v m'. mount_into vi point dev st =
      (0, st\<lparr>fs_volumes := (fs_volumes st)[vi := v], fs_env := (fs_env st)\<lparr>mach := m'\<rparr>\<rparr>) \<and> cont m' = cont (mach (fs_env st)) \<and>
    v = (reset_volume (zero_volume dev))\<lparr>v_version := superblock_version sb, v_fat_start := sb_word sb 3, v_fat_sectors := sb_word sb 4,
       v_dir_start := sb_word sb 5, v_dir_sectors := sb_word sb 6, v_data_start := sb_word sb 7,
       v_clusters := sb_word sb 8, v_free_cache_valid := False, v_point := point, v_mounted := True\<rparr>"
proof -
  obtain m' where r: "bd_read dev (mach (fs_env st)) 0 zero_sector = (0, sb, m')" "cont m' = cont (mach (fs_env st))"
    using device_read [OF assms(1), of 0 "mach (fs_env st)" zero_sector] assms(2,5) by auto
  have t: "bd_sectors dev m' = n" using assms(1) by (simp add: device_ok_def)
  let ?v0 = "reset_volume (zero_volume dev)"
  have z: "v_dev ?v0 = dev" "\<not> v_io_bad ?v0" by (simp_all add: reset_volume_def zero_volume_def)
  let ?v = "?v0\<lparr>v_version := superblock_version sb, v_fat_start := sb_word sb 3, v_fat_sectors := sb_word sb 4,
       v_dir_start := sb_word sb 5, v_dir_sectors := sb_word sb 6, v_data_start := sb_word sb 7,
       v_clusters := sb_word sb 8, v_free_cache_valid := False, v_point := point, v_mounted := True\<rparr>"
  have "mount_into vi point dev st = (0, st\<lparr>fs_volumes := (fs_volumes st)[vi := ?v], fs_env := (fs_env st)\<lparr>mach := m'\<rparr>\<rparr>)"
    using assms(3,4,6) r t z by (simp add: mount_into_def on_vol_def ask_vol_def rd_def Let_def)
  then show ?thesis using r(2) by blast
qed

lemma ascii_disk: "ascii ''disk'' = [100, 105, 115, 107]"
  by (simp add: ascii_def)

definition all_free :: "('m \<Rightarrow> nat \<Rightarrow> u8 list) \<Rightarrow> 'm volume \<Rightarrow> 'm env \<Rightarrow> bool" where
  "all_free cont v e \<longleftrightarrow>
     free_clusters v (fat_at (img cont v e)) = {1..v_clusters v} \<and>
     list_all (\<lambda>en. \<not> entry_used en) (dir_entries v (img cont v e) [v_dir_start v..<v_data_start v])"

lemma zero_entries_unused:
  assumes "im s = zero_sector" "secs ! (i div sector_entries version) = s"
  shows "\<not> entry_used (entry_at version im secs i)"
proof -
  let ?p = "drop (i mod sector_entries version * entry_bytes version) zero_sector"
  have pl: "i mod sector_entries version * entry_bytes version + entry_bytes version \<le> 512" by (rule entry_place)
  then have z: "k < entry_bytes version \<Longrightarrow> ?p ! k = 0" for k by (simp add: zero_sector_def BLOCKDEV_SECTOR_def)
  have "en_flags (entry_decode version ?p) = 0"
  proof (cases "version = 1")
    case True
    then show ?thesis using z [of 26] z [of 27] by (simp add: entry_decode_def entry_bytes_def)
  next
    case False
    then have "le32 ?p 60 = 0" using z [of 60] z [of 61] z [of 62] z [of 63] by (simp add: le32_def le16_def entry_bytes_def)
    then show ?thesis using False by (simp add: entry_decode_def)
  qed
  then show ?thesis using assms by (simp add: entry_at_def entry_used_def)
qed

text \<open>A volume mounted from a table and a root of zeros, the length of the table \<open>fats\<close> sectors, of the root \<open>dirs\<close>, with \<open>c\<close> clusters.\<close>

lemma fresh_volume:
  assumes "device_ok dev cont n" "version = 1 \<or> version = 2" "1 \<le> fats" "fats \<le> 256" "1 \<le> dirs" "0 < c" "c \<le> 65534"
    "1 + fats + dirs + c \<le> n" "2 * c + 2 \<le> 512 * fats" "\<forall>s. 1 \<le> s \<and> s \<le> fats + dirs \<longrightarrow> cont (mach e) s = zero_sector"
    "v = (reset_volume (zero_volume dev))\<lparr>v_version := version, v_fat_start := 1, v_fat_sectors := fats,
       v_dir_start := 1 + fats, v_dir_sectors := dirs, v_data_start := 1 + fats + dirs,
       v_clusters := c, v_free_cache_valid := False, v_point := pt, v_mounted := True\<rparr>"
  shows "vol_ok cont n v e" "cache_ok cont v e" "all_free cont v e"
proof -
  have vf: "v_dev v = dev" "v_version v = version" "v_fat_start v = 1" "v_fat_sectors v = fats" "v_dir_start v = 1 + fats"
    "v_dir_sectors v = dirs" "v_data_start v = 1 + fats + dirs" "v_clusters v = c" "\<not> v_free_cache_valid v" "v_mounted v"
    "v_fat_no v = None" "v_dir_sec v = 0" "\<not> v_io_bad v" "v_free_hint v = 0"
    "v_fat_buf v = zero_sector" "v_dir_buf v = zero_sector"
    by (simp_all add: assms(11) reset_volume_def zero_volume_def)
  show vok: "vol_ok cont n v e" unfolding vol_ok_def geometry_ok_def vf
    using assms(1-9) vf(13) by (simp add: device_ok_def)
  have im: "img cont v e s = cont (mach e) s" for s by (cases s) (simp_all add: img_def vf)
  have zs: "1 \<le> s \<Longrightarrow> s < 1 + fats + dirs \<Longrightarrow> img cont v e s = zero_sector" for s using assms(10) im by simp
  have "fat_at (img cont v e) x = FAT_FREE" if "x \<le> c" for x
  proof -
    have "1 + 2 * x div 512 < v_dir_start v" using fat_sector_range(3) [OF vol_okD(2) [OF vok], of x] that vf by simp
    moreover have "2 * x mod 512 = 2 * (x mod 256)" using mult_mod_right [of 2 x 256] by simp
    ultimately show ?thesis using zs [of "1 + 2 * x div 512"] vf(5)
      by (simp add: fat_at_def zero_sector_def BLOCKDEV_SECTOR_def FAT_FREE_def)
  qed
  then have "free_clusters v (fat_at (img cont v e)) = {1..v_clusters v}" using vf by (auto simp: free_clusters_def)
  moreover have "list_all (\<lambda>en. \<not> entry_used en) (dir_entries v (img cont v e) [v_dir_start v..<v_data_start v])"
  proof -
    let ?ss = "[v_dir_start v..<v_data_start v]" and ?k = "sector_entries (v_version v)"
    have "\<not> entry_used (entry_at (v_version v) (img cont v e) ?ss i)" if "i < length ?ss * ?k" for i
    proof (rule zero_entries_unused [OF _ refl])
      have "i div ?k < length ?ss" using that sector_entries_pos by (simp add: less_mult_imp_div_less)
      then have lt: "i div ?k < v_data_start v - v_dir_start v" by (simp only: length_upt)
      then have "?ss ! (i div ?k) = v_dir_start v + i div ?k" by (intro nth_upt) linarith
      moreover have "i div ?k < dirs" using lt vf(5,7) by linarith
      ultimately have "?ss ! (i div ?k) = v_dir_start v + i div ?k" "i div ?k < dirs" by simp_all
      then show "img cont v e (?ss ! (i div ?k)) = zero_sector" using zs vf(5) by simp
    qed
    then show ?thesis by (auto simp: dir_entries_def list_all_iff)
  qed
  ultimately show "all_free cont v e" by (simp add: all_free_def)
  show "cache_ok cont v e" using vf by (simp add: cache_ok_def)
qed

text \<open>
  C28: Formatting a device of \<open>n\<close> sectors, at least 8, that works, with either version, succeeds and leaves it
  mounted as the disk, with exactly this geometry: one sector of root in 32 of the device, at least 1 and
  at most 16; as many sectors of FAT as the entries take of the clusters there would be if the FAT took one;
  and a cluster for every other sector but the first, up to 65534. Every cluster is free and no entry of the
  root is used.
\<close>

theorem format_then_mount:
  assumes "device_ok dev cont n" "8 \<le> n" "version = 1 \<or> version = 2" "0 < length (fs_volumes st)"
    "v_mounted (fs_volumes st ! 0) \<longrightarrow> \<not> has_open_files 0 st"
  shows "\<exists>st' v. fs_format_version dev version st = (0, st') \<and> v = fs_volumes st' ! 0 \<and> fs_files st' = fs_files st \<and>
    v_mounted v \<and> v_version v = version \<and> v_point v = ascii ''disk'' \<and>
    v_dir_sectors v = max 1 (min 16 (n div 32)) \<and>
    v_fat_sectors v = (2 * min (n - 2 - v_dir_sectors v) 65534 + 513) div 512 \<and>
    v_clusters v = min (n - 1 - v_fat_sectors v - v_dir_sectors v) 65534 \<and>
    v_fat_start v = 1 \<and> v_dir_start v = 1 + v_fat_sectors v \<and> v_data_start v = v_dir_start v + v_dir_sectors v \<and>
    vol_ok cont n v (fs_env st') \<and> cache_ok cont v (fs_env st') \<and> all_free cont v (fs_env st')"
proof -
  define st1 where "st1 = (if v_mounted (fs_volumes st ! 0)
    then on_vol 0 st (\<lambda>v e. (reset_volume (v\<lparr>v_mounted := False\<rparr>), e)) else st)"
  have s1: "\<not> v_mounted (fs_volumes st1 ! 0)" "0 < length (fs_volumes st1)" "fs_files st1 = fs_files st"
    using assms(4) by (auto simp: st1_def on_vol_def reset_volume_def)
  define dirs where "dirs = format_dirs n"
  note d = format_dirs_range [of n, folded dirs_def]
  obtain m1 fats c where f: "fs_format_device (Some dev) version st1 = (0, st1\<lparr>fs_env := (fs_env st1)\<lparr>mach := m1\<rparr>\<rparr>)"
    "1 \<le> fats" "fats \<le> 256" "c = min (n - 1 - fats - dirs) 65534" "0 < c" "1 + fats + dirs + c \<le> n" "2 * c + 2 \<le> 512 * fats"
    "cont m1 0 = superblock version n fats dirs c" "\<forall>s. 1 \<le> s \<and> s \<le> fats + dirs \<longrightarrow> cont m1 s = zero_sector"
    "fats = (2 * min (n - 2 - dirs) 65534 + 513) div 512"
    using format_device_spec [OF assms(1-3) dirs_def, of st1] by blast
  let ?sb = "superblock version n fats dirs c"
  have n: "n < U32" using assms(1) by (simp add: device_ok_def)
  have c: "c \<le> 65534" using f(4) by simp
  have v2: "version \<le> 2" using assms(3) by auto
  have lt: "fats < U32" "dirs < U32" "1 + fats + dirs < U32" "c < U32" using f(3) d(2) c by simp_all
  have w: "sb_word ?sb 3 = 1" "sb_word ?sb 4 = fats" "sb_word ?sb 5 = 1 + fats" "sb_word ?sb 6 = dirs"
    "sb_word ?sb 7 = 1 + fats + dirs" "sb_word ?sb 8 = c"
    using superblock_words(4-9) [OF _ n _ _ _ _ refl, of version fats dirs c] v2 lt by simp_all
  have good: "superblock_version ?sb = version" "\<not> superblock_bad ?sb n"
    using sb_good [OF assms(2) n assms(3) f(2,3) d(1,2) f(5) c f(6,7) refl] by simp_all
  let ?st2 = "st1\<lparr>fs_env := (fs_env st1)\<lparr>mach := m1\<rparr>\<rparr>"
  obtain v m2 where m: "mount_into 0 (ascii ''disk'') dev ?st2 =
      (0, ?st2\<lparr>fs_volumes := (fs_volumes ?st2)[0 := v], fs_env := (fs_env ?st2)\<lparr>mach := m2\<rparr>\<rparr>)" "cont m2 = cont m1"
    "v = (reset_volume (zero_volume dev))\<lparr>v_version := version, v_fat_start := 1, v_fat_sectors := fats,
       v_dir_start := 1 + fats, v_dir_sectors := dirs, v_data_start := 1 + fats + dirs,
       v_clusters := c, v_free_cache_valid := False, v_point := ascii ''disk'', v_mounted := True\<rparr>"
    using mount_into_spec [OF assms(1,2), of ?st2 0 ?sb "ascii ''disk''"] s1 f(8) good w by auto
  let ?st3 = "?st2\<lparr>fs_volumes := (fs_volumes ?st2)[0 := v], fs_env := (fs_env ?st2)\<lparr>mach := m2\<rparr>\<rparr>"
  have "fs_mount_device (Some (ascii ''disk'')) (Some dev) ?st2 = (0, ?st3)"
    using m(1) by (simp add: fs_mount_device_def valid_point_def ascii_disk FS_POINT_MAX_def COLON_def SLASH_def)
  then have fin: "fs_format_version dev version st = (0, ?st3)"
    using assms(5) f(1) unfolding fs_format_version_def st1_def [symmetric] Let_def by auto
  note fv = fresh_volume [of dev cont n version fats dirs c "fs_env ?st3" v, OF assms(1,3) f(2,3) d(1) f(5) c f(6,7) _ m(3)]
  have z: "\<forall>s. 1 \<le> s \<and> s \<le> fats + dirs \<longrightarrow> cont (mach (fs_env ?st3)) s = zero_sector" using f(9) m(2) by simp
  have sel: "v_dir_sectors v = dirs" "v_fat_sectors v = fats" "v_clusters v = c" "v_fat_start v = 1" "v_dir_start v = 1 + fats"
    "v_data_start v = 1 + fats + dirs" by (simp_all add: m(3))
  have "dirs = max 1 (min 16 (n div 32))" by (simp add: dirs_def format_dirs_def Let_def)
  then have geo: "v_dir_sectors v = max 1 (min 16 (n div 32))" "v_fat_sectors v = (2 * min (n - 2 - v_dir_sectors v) 65534 + 513) div 512"
    "v_clusters v = min (n - 1 - v_fat_sectors v - v_dir_sectors v) 65534" "v_fat_start v = 1" "v_dir_start v = 1 + v_fat_sectors v"
    "v_data_start v = v_dir_start v + v_dir_sectors v"
    unfolding sel using f(4,10) by (simp_all only:)
  have vol: "v = fs_volumes ?st3 ! 0" "fs_files ?st3 = fs_files st" using s1(2,3) by simp_all
  have "v_mounted v" "v_version v = version" "v_point v = ascii ''disk''" by (simp_all add: m(3))
  then show ?thesis using fin fv [OF z] geo vol by blast
qed

definition ram_fs :: "(nat \<Rightarrow> u8 list) fs" where
  "ram_fs = \<lparr>fs_volumes = replicate 5 (zero_volume (ram_disk 64)), fs_files = replicate 8 zero_ofile, fs_env = ram_env\<rparr>"

theorem format_then_mount_witness:
  "\<exists>st'. fs_format_version (ram_disk 64) 2 ram_fs = (0, st') \<and> all_free ram_cont (fs_volumes st' ! 0) (fs_env st') \<and>
     v_clusters (fs_volumes st' ! 0) = 60"
  using format_then_mount [OF ram_disk_ok, of 64 2 ram_fs] by (auto simp: ram_fs_def zero_volume_def)

end
