(* ===== verification/Fs_Data.thy ===== *)
theory Fs_Data
  imports Fs_File Fs_Dir
begin

text \<open>
  CeresFS: what an open file holds on a device that works. A file is the bytes of the clusters of its chain, the one in its
  buffer in place of the one on the device, up to its size; \<open>fs_read\<close> and \<open>fs_write\<close> act on these bytes.
\<close>

section \<open>The contents of an open file\<close>

text \<open>Sector of cluster \<open>c\<close>: the buffer when it holds that cluster.\<close>

definition file_sector :: "('m \<Rightarrow> nat \<Rightarrow> u8 list) \<Rightarrow> ofile \<Rightarrow> 'm volume \<Rightarrow> 'm env \<Rightarrow> nat \<Rightarrow> u8 list" where
  "file_sector cont f v e c = (if c = f_buf_cluster f then f_buf f else img cont v e (cluster_at v c))"

definition file_data :: "('m \<Rightarrow> nat \<Rightarrow> u8 list) \<Rightarrow> ofile \<Rightarrow> 'm volume \<Rightarrow> 'm env \<Rightarrow> nat list \<Rightarrow> u8 list" where
  "file_data cont f v e cs = concat (map (file_sector cont f v e) cs)"

definition file_bytes :: "('m \<Rightarrow> nat \<Rightarrow> u8 list) \<Rightarrow> ofile \<Rightarrow> 'm volume \<Rightarrow> 'm env \<Rightarrow> nat list \<Rightarrow> u8 list" where
  "file_bytes cont f v e cs = take (f_size f) (file_data cont f v e cs)"

text \<open>
  A sound open file with the clusters \<open>cs\<close>: the chain from its first cluster, long enough for its size, the place
  remembered in it, the buffer of one of its clusters; the cached directory sector is none of its clusters and no free one.
\<close>

definition file_ok :: "('m \<Rightarrow> nat \<Rightarrow> u8 list) \<Rightarrow> nat \<Rightarrow> ofile \<Rightarrow> 'm volume \<Rightarrow> 'm env \<Rightarrow> nat list \<Rightarrow> bool" where
  "file_ok cont n f v e cs \<longleftrightarrow>
     vol_ok cont n v e \<and> chain_ok v cs \<and>
     (if f_first f = 0 then cs = [] else cs \<noteq> [] \<and> chain (fat_at (img cont v e)) (f_first f) cs) \<and>
     f_size f \<le> 512 * length cs \<and>
     (f_cur_cluster f \<noteq> 0 \<longrightarrow> f_cur_index f < length cs \<and> cs ! f_cur_index f = f_cur_cluster f) \<and>
     (f_buf_cluster f = 0 \<or> f_buf_cluster f \<in> set cs) \<and> length (f_buf f) = 512 \<and>
     (f_buf_cluster f \<noteq> 0 \<and> \<not> f_buf_dirty f \<longrightarrow> f_buf f = img cont v e (cluster_at v (f_buf_cluster f))) \<and>
     (\<forall>c \<in> set cs \<union> free_clusters v (fat_at (img cont v e)). v_dir_sec v \<noteq> cluster_at v c)"

lemma file_okD:
  assumes "file_ok cont n f v e cs"
  shows "vol_ok cont n v e" "chain_ok v cs" "f_size f \<le> 512 * length cs" "length (f_buf f) = 512"
    "f_first f = 0 \<Longrightarrow> cs = []" "f_first f \<noteq> 0 \<Longrightarrow> cs \<noteq> [] \<and> chain (fat_at (img cont v e)) (f_first f) cs"
    "f_cur_cluster f \<noteq> 0 \<Longrightarrow> f_cur_index f < length cs \<and> cs ! f_cur_index f = f_cur_cluster f"
    "f_buf_cluster f = 0 \<or> f_buf_cluster f \<in> set cs"
    "f_buf_cluster f \<noteq> 0 \<Longrightarrow> \<not> f_buf_dirty f \<Longrightarrow> f_buf f = img cont v e (cluster_at v (f_buf_cluster f))"
    "\<And>c. c \<in> set cs \<union> free_clusters v (fat_at (img cont v e)) \<Longrightarrow> v_dir_sec v \<noteq> cluster_at v c"
  using assms by (auto simp: file_ok_def split: if_splits)

lemma cluster_at_inj:
  assumes "geometry_ok v n" "1 \<le> c" "1 \<le> d" "cluster_at v c = cluster_at v d"
  shows "c = d"
  using assms geometry_fields [OF assms(1)] by (simp add: cluster_at_def)

lemma data_above: "geometry_ok v n \<Longrightarrow> 1 \<le> c \<Longrightarrow> v_dir_start v \<le> cluster_at v c"
  by (auto simp: geometry_ok_def cluster_at_def)

lemma cluster_range:
  assumes "vol_ok cont n v e" "chain_ok v cs" "c \<in> set cs"
  shows "1 \<le> c" "c \<le> v_clusters v" "cluster_sector v c = cluster_at v c" "v_data_start v \<le> cluster_at v c" "cluster_at v c < n"
    "v_dir_start v \<le> cluster_at v c"
proof -
  show c: "1 \<le> c" "c \<le> v_clusters v" using assms(2,3) by (auto simp: chain_ok_def)
  note g = vol_okD(2) [OF assms(1)]
  show "cluster_sector v c = cluster_at v c" "v_data_start v \<le> cluster_at v c" "cluster_at v c < n"
    using cluster_sector_at [OF g c] by simp_all
  then show "v_dir_start v \<le> cluster_at v c" using g by (auto simp: geometry_ok_def)
qed

section \<open>The buffer\<close>

text \<open>A data sector outside the caches is written.\<close>

lemma wr_data:
  assumes "vol_ok cont n v e" "v_dir_start v \<le> s" "s < n" "v_dir_sec v \<noteq> s" "length d = 512"
  shows "\<exists>e'. wr v e s d = (v, e') \<and> keeps cont n v e v e' \<and> img cont v e' = (img cont v e)(s := d)"
proof -
  obtain m' where w: "bd_write (v_dev v) (mach e) s d = (0, m')" "cont m' = (cont (mach e))(s := d)"
    using device_write [OF vol_okD(1) [OF assms(1)] assms(3,5)] by blast
  have ro: "\<not> bd_read_only (v_dev v)" using vol_okD(1) [OF assms(1)] by (simp add: device_ok_def)
  let ?e = "e\<lparr>mach := m'\<rparr>"
  have nf: "v_fat_no v = Some k \<Longrightarrow> 1 + k \<noteq> s" for k using vol_okD(8) [OF assms(1), of k] assms(2) by auto
  have s0: "0 < s" using assms(2) geometry_fields [OF vol_okD(2) [OF assms(1)]] by simp
  have "wr v e s d = (v, ?e)" using w(1) ro by (simp add: wr_def)
  moreover have "vol_ok cont n v ?e" using assms(1,4) nf unfolding vol_ok_def by (auto simp: w(2))
  moreover have "img cont v ?e = (img cont v e)(s := d)"
  proof
    fix t
    show "img cont v ?e t = ((img cont v e)(s := d)) t"
      using nf [of "s - 1"] s0 assms(4) by (auto simp: img_def w(2))
  qed
  ultimately show ?thesis by (auto simp: keeps_def same_env_def)
qed

lemma buf_flush_spec:
  assumes "file_ok cont n f v e cs"
  shows "\<exists>e'. buf_flush f v e = (f\<lparr>f_buf_dirty := False\<rparr>, v, e') \<and> file_ok cont n (f\<lparr>f_buf_dirty := False\<rparr>) v e' cs \<and> keeps cont n v e v e' \<and>
    (\<forall>c \<in> set cs. file_sector cont (f\<lparr>f_buf_dirty := False\<rparr>) v e' c = file_sector cont f v e c) \<and>
    (\<forall>s. s \<notin> cluster_at v ` set cs \<longrightarrow> img cont v e' s = img cont v e s) \<and>
    (f_buf_cluster f \<noteq> 0 \<longrightarrow> img cont v e' (cluster_at v (f_buf_cluster f)) = f_buf f)"
proof (cases "f_buf_dirty f \<and> f_buf_cluster f \<noteq> 0")
  case False
  have "file_ok cont n (f\<lparr>f_buf_dirty := False\<rparr>) v e cs" using assms False by (auto simp: file_ok_def)
  moreover have "buf_flush f v e = (f\<lparr>f_buf_dirty := False\<rparr>, v, e)" using False by (auto simp: buf_flush_def)
  ultimately show ?thesis using keeps_refl [OF file_okD(1) [OF assms]] False file_okD(9) [OF assms]
    by (intro exI [of _ e]) (auto simp: file_sector_def)
next
  case True
  let ?b = "f_buf_cluster f"
  have b: "?b \<in> set cs" using True file_okD(8) [OF assms] by auto
  note v = file_okD(1) [OF assms] and r = cluster_range [OF file_okD(1,2) [OF assms] b]
  obtain e' where w: "wr v e (cluster_at v ?b) (f_buf f) = (v, e')" "keeps cont n v e v e'"
    "img cont v e' = (img cont v e)(cluster_at v ?b := f_buf f)"
    using wr_data [OF v r(6,5)] file_okD(4,10) [OF assms] b by blast
  have fl: "buf_flush f v e = (f\<lparr>f_buf_dirty := False\<rparr>, v, e')" using True w(1) r(3) by (simp add: buf_flush_def)
  have fat: "fat_at (img cont v e') c = fat_at (img cont v e) c" if "c \<le> v_clusters v" for c
    using fat_at_cong [OF vol_okD(2) [OF v] that, of "img cont v e'" "img cont v e"] w(3) r(6) by auto
  have "chain (fat_at (img cont v e')) d cs = chain (fat_at (img cont v e)) d cs" for d
    using fat file_okD(2) [OF assms] by (intro chain_cong) (auto simp: chain_ok_def)
  moreover have "free_clusters v (fat_at (img cont v e')) = free_clusters v (fat_at (img cont v e))"
    using fat by (auto simp: free_clusters_def)
  ultimately have "file_ok cont n (f\<lparr>f_buf_dirty := False\<rparr>) v e' cs"
    using assms w(2,3) by (simp add: file_ok_def keeps_def)
  moreover have "file_sector cont (f\<lparr>f_buf_dirty := False\<rparr>) v e' c = file_sector cont f v e c" if "c \<in> set cs" for c
    using that r(1) cluster_range(1) [OF v file_okD(2) [OF assms] that] cluster_at_inj [OF vol_okD(2) [OF v], of c ?b] w(3)
    by (auto simp: file_sector_def)
  ultimately show ?thesis using fl w b by (intro exI [of _ e']) auto
qed

lemma buf_load_spec:
  assumes "file_ok cont n f v e cs" "c \<in> set cs"
  shows "\<exists>buf e' dirty. buf_load f v e c fresh = (f\<lparr>f_buf := buf, f_buf_cluster := c, f_buf_dirty := dirty\<rparr>, v, e') \<and>
    keeps cont n v e v e' \<and> length buf = 512 \<and> (\<not> fresh \<longrightarrow> buf = file_sector cont f v e c) \<and>
    (\<not> dirty \<longrightarrow> fresh \<or> buf = img cont v e' (cluster_at v c)) \<and>
    (\<forall>d \<in> set cs. d \<noteq> c \<longrightarrow> img cont v e' (cluster_at v d) = file_sector cont f v e d) \<and>
    (\<forall>s. s \<notin> cluster_at v ` set cs \<longrightarrow> img cont v e' s = img cont v e s)"
proof (cases "f_buf_cluster f = c")
  case True
  have c0: "c \<noteq> 0" using cluster_range(1) [OF file_okD(1,2) [OF assms(1)] assms(2)] by simp
  have "buf_load f v e c fresh = (f\<lparr>f_buf := f_buf f, f_buf_cluster := c, f_buf_dirty := f_buf_dirty f\<rparr>, v, e)"
    using True by (simp add: buf_load_def)
  then show ?thesis using keeps_refl [OF file_okD(1) [OF assms(1)]] file_okD(4,9) [OF assms(1)] True c0
    by (intro exI [of _ "f_buf f"] exI [of _ e] exI [of _ "f_buf_dirty f"]) (auto simp: file_sector_def)
next
  case False
  let ?f = "f\<lparr>f_buf_dirty := False\<rparr>"
  obtain e1 where fl: "buf_flush f v e = (?f, v, e1)" "file_ok cont n ?f v e1 cs" "keeps cont n v e v e1"
    "\<forall>c \<in> set cs. file_sector cont ?f v e1 c = file_sector cont f v e c"
    "\<forall>s. s \<notin> cluster_at v ` set cs \<longrightarrow> img cont v e1 s = img cont v e s"
    "f_buf_cluster f \<noteq> 0 \<longrightarrow> img cont v e1 (cluster_at v (f_buf_cluster f)) = f_buf f"
    using buf_flush_spec [OF assms(1)] by blast
  have all: "img cont v e1 (cluster_at v d) = file_sector cont f v e d" if "d \<in> set cs" for d
  proof (cases "d = f_buf_cluster f")
    case True
    then show ?thesis using fl(6) cluster_range(1) [OF file_okD(1,2) [OF assms(1)] that] by (simp add: file_sector_def)
  next
    case False
    then show ?thesis using fl(4) that by (auto simp: file_sector_def)
  qed
  show ?thesis
  proof (cases fresh)
    case True
    then have "buf_load f v e c fresh = (f\<lparr>f_buf := zero_sector, f_buf_cluster := c, f_buf_dirty := False\<rparr>, v, e1)"
      using False fl(1) by (simp add: buf_load_def)
    then show ?thesis using fl(3,5) all True
      by (intro exI [of _ zero_sector] exI [of _ e1] exI [of _ False]) (auto simp: zero_sector_def BLOCKDEV_SECTOR_def)
  next
    case nf: False
    note v1 = file_okD(1) [OF fl(2)] and r = cluster_range [OF file_okD(1,2) [OF fl(2)] assms(2)]
    let ?s = "cluster_at v c"
    obtain m' where rr: "bd_read (v_dev v) (mach e1) ?s (f_buf ?f) = (0, cont (mach e1) ?s, m')" "cont m' = cont (mach e1)"
      using device_read [OF vol_okD(1) [OF v1] r(5)] by blast
    let ?e = "e1\<lparr>mach := m'\<rparr>"
    have nofat: "v_fat_no v \<noteq> Some (?s - 1)"
    proof
      assume "v_fat_no v = Some (?s - 1)"
      then have "1 + (?s - 1) < v_dir_start v" by (rule vol_okD(8) [OF v1])
      then show False using r(6) by simp
    qed
    have im: "img cont v ?e = img cont v e1" by (rule ext) (simp add: img_def rr(2))
    have "img cont v e1 ?s = cont (mach e1) ?s" using nofat file_okD(10) [OF fl(2), of c] assms(2) by (simp add: img_def)
    then have b: "cont (mach e1) ?s = file_sector cont f v e c" using all [OF assms(2)] by simp
    have "vol_ok cont n v ?e" using v1 rr(2) by (simp add: vol_ok_def)
    then have k: "keeps cont n v e v ?e" using fl(3) by (simp add: keeps_def same_env_def)
    have "buf_load f v e c fresh = (f\<lparr>f_buf := file_sector cont f v e c, f_buf_cluster := c, f_buf_dirty := False\<rparr>, v, ?e)"
      using False nf fl(1) r(3) rr(1) b by (simp add: buf_load_def rd_def vol_okD(3) [OF v1])
    moreover have "length (file_sector cont f v e c) = 512" using device_length [OF vol_okD(1) [OF v1] r(5), of "mach e1"] b by simp
    ultimately show ?thesis using k nf im all assms(2) fl(5)
      by (intro exI [of _ "file_sector cont f v e c"] exI [of _ ?e] exI [of _ False]) auto
  qed
qed

section \<open>The FAT leaves the cached directory sector alone\<close>

lemma dir_sec_rd: "rd v e s b = (b', v', e') \<Longrightarrow> v_dir_sec v' = v_dir_sec v"
  by (auto simp: rd_def split: prod.splits if_splits)

lemma dir_sec_wr: "wr v e s d = (v', e') \<Longrightarrow> v_dir_sec v' = v_dir_sec v"
  by (auto simp: wr_def split: prod.splits if_splits)

lemma dir_sec_fat_load: "fat_load v e k = (v', e') \<Longrightarrow> v_dir_sec v' = v_dir_sec v"
  by (auto simp: fat_load_def fat_flush_def split: prod.splits if_splits option.splits dest!: dir_sec_rd dir_sec_wr)

lemma dir_sec_fat_get: "fat_get v e c = (x, v', e') \<Longrightarrow> v_dir_sec v' = v_dir_sec v"
  by (auto simp: fat_get_def Let_def split: prod.splits dest!: dir_sec_fat_load)

lemma dir_sec_fat_set: "fat_set v e c x = (v', e') \<Longrightarrow> v_dir_sec v' = v_dir_sec v"
  by (auto simp: fat_set_def Let_def split: prod.splits dest!: dir_sec_fat_load)

lemma dir_sec_alloc_from: "alloc_from left v e k = (c, v', e') \<Longrightarrow> v_dir_sec v' = v_dir_sec v"
  by (induction left arbitrary: v e k)
    (auto simp: Let_def split: prod.splits if_splits dest!: dir_sec_fat_get dir_sec_fat_set)

lemma dir_sec_alloc: "alloc_cluster v e = (c, v', e') \<Longrightarrow> v_dir_sec v' = v_dir_sec v"
  by (simp add: alloc_cluster_def dir_sec_alloc_from)

section \<open>The cluster of a place\<close>

lemma chain_nth:
  assumes "chain g c cs" "i < length cs"
  shows "g (cs ! i) = (if Suc i < length cs then cs ! Suc i else FAT_END)"
  using assms
proof (induction cs arbitrary: c i)
  case (Cons x xs)
  then show ?case by (cases i; cases xs) auto
qed simp

text \<open>The table after cluster \<open>c\<close> is put at the end of the chain \<open>cs\<close>.\<close>

definition grown :: "(nat \<Rightarrow> nat) \<Rightarrow> nat list \<Rightarrow> nat \<Rightarrow> nat \<Rightarrow> nat" where
  "grown g cs c = (if cs = [] then g(c := FAT_END) else g(c := FAT_END, last cs := c))"

lemma chain_grown:
  assumes "chain g d cs" "c \<notin> set cs" "distinct cs" "cs \<noteq> []"
  shows "chain (g(c := FAT_END, last cs := c)) d (cs @ [c])"
  using assms
proof (induction cs arbitrary: d)
  case (Cons x xs)
  show ?case
  proof (cases xs)
    case Nil
    then show ?thesis using Cons.prems by auto
  next
    case (Cons y ys)
    have "x \<noteq> last xs" using Cons.prems(3) Cons by (auto simp: last_ConsR)
    then show ?thesis using Cons.IH [of "g x"] Cons.prems Cons by (auto simp: last_ConsR)
  qed
qed simp

lemma free_grown:
  assumes "c \<in> free_clusters v g" "chain_ok v cs" "chain g d cs \<or> cs = []"
  shows "free_clusters v (grown g cs c) = free_clusters v g - {c}" "c \<notin> set cs"
proof -
  have z: "g x \<noteq> FAT_FREE" if x: "x \<in> set cs" for x
  proof -
    obtain i where i: "i < length cs" "x = cs ! i" using x by (auto simp: in_set_conv_nth)
    then have "g x = (if Suc i < length cs then cs ! Suc i else FAT_END)" using assms(3) chain_nth [of g d cs i] by auto
    moreover have "Suc i < length cs \<Longrightarrow> 1 \<le> cs ! Suc i" using assms(2) by (simp add: chain_ok_def)
    ultimately show ?thesis by (auto simp: FAT_FREE_def FAT_END_def)
  qed
  then show n: "c \<notin> set cs" using assms(1) by (auto simp: free_clusters_def)
  have "cs \<noteq> [] \<Longrightarrow> g (last cs) \<noteq> FAT_FREE" using z by simp
  moreover have "c \<noteq> FAT_FREE" using assms(1) by (auto simp: free_clusters_def FAT_FREE_def)
  ultimately show "free_clusters v (grown g cs c) = free_clusters v g - {c}"
    by (auto simp: free_clusters_def grown_def FAT_END_def FAT_FREE_def)
qed

lemma locate_walk_in:
  assumes "vol_ok cont n v e" "chain (fat_at (img cont v e)) d cs" "chain_ok v cs" "i + left < length cs"
  shows "\<exists>v' e'. locate_walk left f v e i (cs ! i) grow =
      (cs ! (i + left), f\<lparr>f_cur_index := i + left, f_cur_cluster := cs ! (i + left)\<rparr>, v', e') \<and>
    keeps cont n v e v' e' \<and> img cont v' e' = img cont v e \<and> v_dir_sec v' = v_dir_sec v"
  using assms
proof (induction left arbitrary: v e i)
  case 0
  then show ?case using keeps_refl by auto
next
  case (Suc left)
  let ?g = "fat_at (img cont v e)"
  have r: "1 \<le> cs ! i" "cs ! i \<le> v_clusters v" "1 \<le> cs ! Suc i" "cs ! Suc i \<le> v_clusters v"
    using Suc.prems(3,4) by (auto simp: chain_ok_def)
  obtain v1 e1 where g: "fat_get v e (cs ! i) = (?g (cs ! i), v1, e1)" "keeps cont n v e v1 e1" "img cont v1 e1 = img cont v e"
    using fat_get_at [OF Suc.prems(1) r(2)] by blast
  have nx: "?g (cs ! i) = cs ! Suc i" using chain_nth [OF Suc.prems(2), of i] Suc.prems(4) by simp
  have k: "vol_ok cont n v1 e1" "v_clusters v1 = v_clusters v" using g(2) core_fields [of v1 v] by (simp_all add: keeps_def)
  have ne: "cs ! Suc i \<noteq> FAT_END" using r(4) geometry_fields [OF vol_okD(2) [OF Suc.prems(1)]] by (simp add: FAT_END_def)
  have "locate_walk (Suc left) f v e i (cs ! i) grow = locate_walk left f v1 e1 (Suc i) (cs ! Suc i) grow"
    using g(1) nx ne r(3,4) k(2) by simp
  moreover obtain v' e' where "locate_walk left f v1 e1 (Suc i) (cs ! Suc i) grow =
      (cs ! (Suc i + left), f\<lparr>f_cur_index := Suc i + left, f_cur_cluster := cs ! (Suc i + left)\<rparr>, v', e')"
    "keeps cont n v1 e1 v' e'" "img cont v' e' = img cont v1 e1" "v_dir_sec v' = v_dir_sec v1"
    using Suc.IH [OF k(1), of "Suc i"] Suc.prems(2,3,4) g(3) k(2) by (auto simp: chain_ok_clusters)
  ultimately show ?case using keeps_trans [OF g(2)] g(3) dir_sec_fat_get [OF g(1)] by (intro exI [of _ v'] exI [of _ e']) simp
qed

lemma locate_walk_end:
  assumes "vol_ok cont n v e" "g = fat_at (img cont v e)" "chain g d cs" "chain_ok v cs" "i < length cs" "i + left = length cs"
  shows "\<exists>c v' e'. v_dir_sec v' = v_dir_sec v \<and>
    (if free_clusters v g = {}
     then locate_walk left f v e i (cs ! i) True = (0, f, v', e'\<lparr>errno := ENOSPC\<rparr>) \<and> fat_step cont n v e v' e' g
     else locate_walk left f v e i (cs ! i) True = (c, f\<lparr>f_cur_index := length cs, f_cur_cluster := c\<rparr>, v', e') \<and>
       c \<in> free_clusters v g \<and> fat_step cont n v e v' e' (grown g cs c))"
  using assms
proof (induction left arbitrary: v e i)
  case 0
  then show ?case by simp
next
  case (Suc left)
  have r: "cs ! i \<le> v_clusters v" "1 \<le> cs ! i" using Suc.prems(4,5) by (auto simp: chain_ok_def)
  obtain v1 e1 where r1: "fat_get v e (cs ! i) = (g (cs ! i), v1, e1)" "keeps cont n v e v1 e1" "img cont v1 e1 = img cont v e"
    using fat_get_at [OF Suc.prems(1) r(1)] Suc.prems(2) by blast
  have k: "vol_ok cont n v1 e1" "v_clusters v1 = v_clusters v" using r1(2) core_fields [of v1 v] by (simp_all add: keeps_def)
  have fr: "free_clusters v1 h = free_clusters v h" for h using k(2) by (simp add: free_clusters_def)
  have g1: "g = fat_at (img cont v1 e1)" using r1(3) Suc.prems(2) by simp
  note s1 = keeps_step [OF r1(2,3), folded Suc.prems(2)] and d1 = dir_sec_fat_get [OF r1(1)]
  show ?case
  proof (cases "Suc i < length cs")
    case True
    have r2: "1 \<le> cs ! Suc i" "cs ! Suc i \<le> v_clusters v" using Suc.prems(4) True by (auto simp: chain_ok_def)
    have ne: "cs ! Suc i \<noteq> FAT_END" using r2 geometry_fields [OF vol_okD(2) [OF Suc.prems(1)]] by (simp add: FAT_END_def)
    have "g (cs ! i) = cs ! Suc i" using chain_nth [OF Suc.prems(3,5)] True by simp
    then have e: "locate_walk (Suc left) f v e i (cs ! i) True = locate_walk left f v1 e1 (Suc i) (cs ! Suc i) True"
      using r1(1) ne r2 k(2) by simp
    show ?thesis using Suc.IH [OF k(1) g1 Suc.prems(3) _ True] Suc.prems(4,6) k(2) unfolding e fr d1
      by (auto simp: chain_ok_clusters intro: fat_step_trans [OF s1] split: if_splits)
  next
    case False
    then have l: "left = 0" "Suc i = length cs" and c0: "cs \<noteq> []" using Suc.prems(5,6) by auto
    have fin: "g (cs ! i) = FAT_END" using chain_nth [OF Suc.prems(3,5)] False by simp
    have last: "last cs = cs ! i" using last_conv_nth [OF c0] l(2) [symmetric] by simp
    obtain c v2 e2 where a: "alloc_cluster v1 e1 = (c, v2, e2)"
      "if free_clusters v1 g = {} then c = 0 \<and> fat_step cont n v1 e1 v2 e2 g
       else c \<in> free_clusters v1 g \<and> fat_step cont n v1 e1 v2 e2 (g(c := FAT_END))"
      using alloc_cluster_spec [OF k(1) g1] by blast
    show ?thesis
    proof (cases "free_clusters v g = {}")
      case True
      then have "locate_walk (Suc left) f v e i (cs ! i) True = (0, f, v2, e2\<lparr>errno := ENOSPC\<rparr>)"
        "fat_step cont n v1 e1 v2 e2 g" using r1(1) fin a fr by simp_all
      then show ?thesis using True fat_step_trans [OF s1] d1 dir_sec_alloc [OF a(1)]
        by (intro exI [of _ c] exI [of _ v2] exI [of _ e2]) simp
    next
      case False
      then have c: "c \<in> free_clusters v g" "fat_step cont n v1 e1 v2 e2 (g(c := FAT_END))" using a(2) fr by simp_all
      then have cn: "c \<noteq> 0" "c < 65536" using geometry_fields [OF vol_okD(2) [OF Suc.prems(1)]] by (auto simp: free_clusters_def)
      note f2 = fat_step_fields [OF c(2)]
      obtain v3 e3 where w: "fat_set v2 e2 (cs ! i) c = (v3, e3)" "fat_step cont n v2 e2 v3 e3 (g(c := FAT_END, cs ! i := c))"
        using fat_set_step [OF f2(10), of "cs ! i" c] r(1) k(2) f2(6,12) cn(2) by auto
      have "locate_walk (Suc left) f v e i (cs ! i) True = (c, f\<lparr>f_cur_index := length cs, f_cur_cluster := c\<rparr>, v3, e3)"
        using r1(1) fin a(1) cn(1) w(1) l by simp
      moreover have "fat_step cont n v e v3 e3 (grown g cs c)"
        using fat_step_trans [OF s1 fat_step_trans [OF c(2) w(2)]] c0 last by (simp add: grown_def)
      ultimately show ?thesis using False c(1) d1 dir_sec_alloc [OF a(1)] dir_sec_fat_set [OF w(1)]
        by (intro exI [of _ c] exI [of _ v3] exI [of _ e3]) simp
    qed
  qed
qed

text \<open>
  What an operation on an open file may do: append free clusters to its chain, and change these and its own clusters. All else,
  of the table, of the device and of the file's place in its directory, stays.
\<close>

definition file_step ::
  "('m \<Rightarrow> nat \<Rightarrow> u8 list) \<Rightarrow> nat \<Rightarrow> ofile \<Rightarrow> 'm volume \<Rightarrow> 'm env \<Rightarrow> nat list \<Rightarrow> ofile \<Rightarrow> 'm volume \<Rightarrow> 'm env \<Rightarrow> nat list \<Rightarrow> bool" where
  "file_step cont n f v e cs f' v' e' cs' \<longleftrightarrow>
     file_ok cont n f' v' e' cs' \<and> vol_rest v' = vol_rest v \<and> rtc e' = rtc e \<and>
     (\<exists>xs. cs' = cs @ xs \<and> set xs \<subseteq> free_clusters v (fat_at (img cont v e))) \<and>
     free_clusters v (fat_at (img cont v' e')) = free_clusters v (fat_at (img cont v e)) - set cs' \<and>
     (\<forall>d. d \<le> v_clusters v \<and> d \<notin> set cs' \<longrightarrow> fat_at (img cont v' e') d = fat_at (img cont v e) d) \<and>
     (\<forall>s. (s = 0 \<or> v_dir_start v \<le> s) \<and> s \<notin> cluster_at v ` set cs' \<longrightarrow> img cont v' e' s = img cont v e s) \<and>
     (cache_ok cont v e \<longrightarrow> cache_ok cont v' e') \<and>
     f_used f' = f_used f \<and> f_vol f' = f_vol f \<and> f_flags f' = f_flags f \<and> f_dir f' = f_dir f \<and> f_index f' = f_index f"

lemma vol_rest_sel:
  "v_clusters (vol_rest v) = v_clusters v" "v_dir_start (vol_rest v) = v_dir_start v" "v_data_start (vol_rest v) = v_data_start v"
  "v_dev (vol_rest v) = v_dev v" "v_mounted (vol_rest v) = v_mounted v" "v_version (vol_rest v) = v_version v"
  by (simp_all add: vol_rest_def core_def)

lemma vol_rest_fields:
  assumes "vol_rest v' = vol_rest v"
  shows "v_clusters v' = v_clusters v" "v_dir_start v' = v_dir_start v" "v_data_start v' = v_data_start v"
    "v_dev v' = v_dev v" "v_mounted v' = v_mounted v" "v_version v' = v_version v"
  using assms vol_rest_sel [of v] vol_rest_sel [of v'] by simp_all

lemma vol_rest_cluster_at: "vol_rest v' = vol_rest v \<Longrightarrow> cluster_at v' = cluster_at v"
  using vol_rest_fields [of v' v] by (intro ext) (simp add: cluster_at_def)

lemma free_clusters_cong: "v_clusters v' = v_clusters v \<Longrightarrow> free_clusters v' g = free_clusters v g"
  by (simp add: free_clusters_def)

lemma file_stepD:
  assumes "file_step cont n f v e cs f' v' e' cs'"
  shows "file_ok cont n f' v' e' cs'" "vol_rest v' = vol_rest v" "rtc e' = rtc e"
    "\<exists>xs. cs' = cs @ xs \<and> set xs \<subseteq> free_clusters v (fat_at (img cont v e))"
    "free_clusters v (fat_at (img cont v' e')) = free_clusters v (fat_at (img cont v e)) - set cs'"
    "\<And>d. d \<le> v_clusters v \<Longrightarrow> d \<notin> set cs' \<Longrightarrow> fat_at (img cont v' e') d = fat_at (img cont v e) d"
    "\<And>s. s = 0 \<or> v_dir_start v \<le> s \<Longrightarrow> s \<notin> cluster_at v ` set cs' \<Longrightarrow> img cont v' e' s = img cont v e s"
    "cache_ok cont v e \<Longrightarrow> cache_ok cont v' e'"
    "f_used f' = f_used f" "f_vol f' = f_vol f" "f_flags f' = f_flags f" "f_dir f' = f_dir f" "f_index f' = f_index f"
  using assms unfolding file_step_def by blast+

lemma file_step_trans:
  assumes "file_step cont n f v e cs f1 v1 e1 cs1" "file_step cont n f1 v1 e1 cs1 f2 v2 e2 cs2"
  shows "file_step cont n f v e cs f2 v2 e2 cs2"
proof -
  note s = file_stepD [OF assms(1)] and t = file_stepD [OF assms(2)]
  note r = vol_rest_fields [OF s(2)] and ca = vol_rest_cluster_at [OF s(2)]
  have fr: "free_clusters v1 g = free_clusters v g" for g by (rule free_clusters_cong [OF r(1)])
  obtain xs ys where x: "cs1 = cs @ xs" "set xs \<subseteq> free_clusters v (fat_at (img cont v e))" "cs2 = cs1 @ ys"
    "set ys \<subseteq> free_clusters v (fat_at (img cont v1 e1))" using s(4) t(4) fr by auto
  have h4: "\<exists>zs. cs2 = cs @ zs \<and> set zs \<subseteq> free_clusters v (fat_at (img cont v e))"
    using x s(5) by (intro exI [of _ "xs @ ys"]) auto
  have h5: "free_clusters v (fat_at (img cont v2 e2)) = free_clusters v (fat_at (img cont v e)) - set cs2"
    using s(5) t(5) x(3) fr by auto
  have h6: "d \<le> v_clusters v \<Longrightarrow> d \<notin> set cs2 \<Longrightarrow> fat_at (img cont v2 e2) d = fat_at (img cont v e) d" for d
    using s(6) [of d] t(6) [of d] x(3) r by simp
  have h7: "s = 0 \<or> v_dir_start v \<le> s \<Longrightarrow> s \<notin> cluster_at v ` set cs2 \<Longrightarrow> img cont v2 e2 s = img cont v e s" for s
    using s(7) [of s] t(7) [of s] x(3) r(2) ca by (simp add: image_Un)
  have "vol_rest v2 = vol_rest v" "rtc e2 = rtc e" "f_used f2 = f_used f" "f_vol f2 = f_vol f" "f_flags f2 = f_flags f"
    "f_dir f2 = f_dir f" "f_index f2 = f_index f" using s(2,3,9-13) t(2,3,9-13) by simp_all
  then show ?thesis unfolding file_step_def using t(1) h4 h5 h6 h7 s(8) t(8) by blast
qed

lemma file_ok_same:
  assumes "file_ok cont n f v e cs" "keeps cont n v e v' e'" "img cont v' e' = img cont v e" "v_dir_sec v' = v_dir_sec v"
  shows "file_ok cont n f v' e' cs"
proof -
  have "vol_ok cont n v' e'" "v_clusters v' = v_clusters v" "v_data_start v' = v_data_start v"
    using assms(2) core_fields [of v' v] by (auto simp: keeps_def)
  then show ?thesis using assms(1,3,4) by (simp add: file_ok_def chain_ok_def free_clusters_def cluster_at_def)
qed

lemma locate_in:
  assumes "file_ok cont n f v e cs" "index < length cs"
  shows "\<exists>v' e'. locate f v e index grow = (cs ! index, f\<lparr>f_cur_index := index, f_cur_cluster := cs ! index\<rparr>, v', e') \<and>
    keeps cont n v e v' e' \<and> img cont v' e' = img cont v e \<and> v_dir_sec v' = v_dir_sec v"
proof -
  note v = file_okD(1) [OF assms(1)] and ch = file_okD(2) [OF assms(1)]
  have f0: "f_first f \<noteq> 0" using assms(2) file_okD(5) [OF assms(1)] by fastforce
  note c = file_okD(6) [OF assms(1) f0]
  then have hd: "f_first f = cs ! 0" by (cases cs) auto
  show ?thesis
  proof (cases "f_cur_cluster f \<noteq> 0 \<and> f_cur_index f \<le> index")
    case True
    then have "locate f v e index grow = locate_walk (index - f_cur_index f) f v e (f_cur_index f) (cs ! f_cur_index f) grow"
      using f0 file_okD(7) [OF assms(1)] by (simp add: locate_def locate_from_def)
    then show ?thesis using locate_walk_in [OF v _ ch, of "f_first f" "f_cur_index f" "index - f_cur_index f" f grow] c True assms(2)
      by simp
  next
    case False
    then have "locate f v e index grow = locate_walk index f v e 0 (cs ! 0) grow"
      using f0 hd by (auto simp: locate_def locate_from_def)
    then show ?thesis using locate_walk_in [OF v _ ch, of "f_first f" 0 index f grow] c assms(2) by simp
  qed
qed

lemma file_ok_fat_step:
  assumes "file_ok cont n f v e cs" "fat_step cont n v e v' e' (fat_at (img cont v e))" "v_dir_sec v' = v_dir_sec v"
  shows "file_step cont n f v e cs f v' (e'\<lparr>errno := x\<rparr>) cs"
proof -
  note f = fat_step_fields [OF assms(2)] and v = vol_okD(2) [OF file_okD(1) [OF assms(1)]]
  let ?e = "e'\<lparr>errno := x\<rparr>"
  have i: "img cont v' ?e = img cont v' e'" by (rule ext) (simp add: img_def)
  have d: "img cont v' e' (cluster_at v c) = img cont v e (cluster_at v c)" if "1 \<le> c" for c
    using f(13) data_above [OF v that] by blast
  have ca: "cluster_at v' = cluster_at v" using f(5) by (intro ext) (simp add: cluster_at_def)
  have fr: "free_clusters v' h = free_clusters v h" for h using f(6) by (rule free_clusters_cong)
  have one: "f_buf_cluster f \<noteq> 0 \<Longrightarrow> 1 \<le> f_buf_cluster f" by simp
  have "vol_ok cont n v' ?e" using f(10) by (simp add: vol_ok_def)
  then have "file_ok cont n f v' ?e cs"
    using assms(1,3) f(12) d [OF one] by (simp add: file_ok_def i ca fr chain_ok_clusters [OF _ f(6)])
  moreover have "free_clusters v (fat_at (img cont v e)) \<inter> set cs = {}"
    using free_grown(2) [of _ v "fat_at (img cont v e)" cs "f_first f"] file_okD(2,5,6) [OF assms(1)] by blast
  moreover have "cache_ok cont v' ?e" if "cache_ok cont v e" using cache_ok_step [OF assms(2) that] by (simp add: cache_ok_def i)
  moreover have "rtc e' = rtc e" "vol_rest v' = vol_rest v" using assms(2) by (simp_all add: fat_step_def same_env_def)
  ultimately show ?thesis unfolding file_step_def i f(12) using f(13) by auto
qed

lemma file_ok_grown:
  assumes "file_ok cont n f v e cs" "c \<in> free_clusters v (fat_at (img cont v e))"
    "fat_step cont n v e v' e' (grown (fat_at (img cont v e)) cs c)" "v_dir_sec v' = v_dir_sec v"
    "f' = (if cs = [] then f\<lparr>f_first := c, f_meta_dirty := True\<rparr> else f)\<lparr>f_cur_index := length cs, f_cur_cluster := c\<rparr>"
  shows "file_step cont n f v e cs f' v' e' (cs @ [c])"
proof -
  note f = fat_step_fields [OF assms(3)] and v = vol_okD(2) [OF file_okD(1) [OF assms(1)]]
  let ?g = "fat_at (img cont v e)"
  have d: "img cont v' e' (cluster_at v x) = img cont v e (cluster_at v x)" if "1 \<le> x" for x
    using f(13) data_above [OF v that] by blast
  have ca: "cluster_at v' = cluster_at v" using f(5) by (intro ext) (simp add: cluster_at_def)
  have fr: "free_clusters v' h = free_clusters v h" for h using f(6) by (rule free_clusters_cong)
  have ch: "chain ?g (f_first f) cs \<or> cs = []" using file_okD(5,6) [OF assms(1)] by blast
  note g = free_grown [OF assms(2) file_okD(2) [OF assms(1)] ch]
  have c: "1 \<le> c" "c \<le> v_clusters v" using assms(2) by (auto simp: free_clusters_def)
  have ok: "chain_ok v' (cs @ [c])" using file_okD(2) [OF assms(1)] g(2) c f(6) by (auto simp: chain_ok_def)
  have f0: "f_first f = 0 \<longleftrightarrow> cs = []" using file_okD(5,6) [OF assms(1)] by blast
  have chain: "chain (grown ?g cs c) (f_first f') (cs @ [c])"
  proof (cases "cs = []")
    case False
    then have "chain ?g (f_first f) cs" using ch by simp
    then show ?thesis using chain_grown [OF _ g(2) _ False] file_okD(2) [OF assms(1)] False
      by (simp add: assms(5) grown_def chain_ok_def)
  qed (simp add: assms(5) grown_def)
  have f1: "f_first f' \<noteq> 0" using f0 c(1) by (auto simp: assms(5))
  have b: "f_buf f' = f_buf f" "f_buf_cluster f' = f_buf_cluster f" "f_buf_dirty f' = f_buf_dirty f" "f_size f' = f_size f"
    "f_cur_index f' = length cs" "f_cur_cluster f' = c" by (simp_all add: assms(5))
  have one: "f_buf_cluster f \<noteq> 0 \<Longrightarrow> 1 \<le> f_buf_cluster f" by simp
  have buf: "f_buf_cluster f \<noteq> 0 \<and> \<not> f_buf_dirty f \<longrightarrow> f_buf f = img cont v e (cluster_at v (f_buf_cluster f))"
    using file_okD(9) [OF assms(1)] by blast
  have ds: "v_dir_sec v \<noteq> cluster_at v x" if "x \<in> set (cs @ [c]) \<union> (free_clusters v ?g - {c})" for x
    using file_okD(10) [OF assms(1), of x] that assms(2) by auto
  have "file_ok cont n f' v' e' (cs @ [c])"
    unfolding file_ok_def b ca fr f(12) g(1) assms(4) using f(10) ok chain f1 file_okD(3,4,8) [OF assms(1)] buf d [OF one] ds
    by auto
  moreover have "\<exists>xs. cs @ [c] = cs @ xs \<and> set xs \<subseteq> free_clusters v ?g" using assms(2) by simp
  moreover have "free_clusters v ?g - {c} = free_clusters v ?g - set (cs @ [c])"
    using free_grown(2) [OF _ file_okD(2) [OF assms(1)] ch] by auto
  moreover have "grown ?g cs c x = ?g x" if "x \<notin> set (cs @ [c])" for x using that by (auto simp: grown_def)
  moreover have "rtc e' = rtc e" "vol_rest v' = vol_rest v" using assms(3) by (simp_all add: fat_step_def same_env_def)
  moreover have "f_used f' = f_used f" "f_vol f' = f_vol f" "f_flags f' = f_flags f" "f_dir f' = f_dir f" "f_index f' = f_index f"
    by (simp_all add: assms(5))
  ultimately show ?thesis unfolding file_step_def f(12) g(1) using f(13) cache_ok_step [OF assms(3)] by blast
qed

lemma locate_end:
  assumes "file_ok cont n f v e cs" "fr = free_clusters v (fat_at (img cont v e))"
  shows "\<exists>c v' e'. (\<forall>s. v_dir_start v \<le> s \<longrightarrow> img cont v' e' s = img cont v e s) \<and>
    (if fr = {}
     then locate f v e (length cs) True = (0, f, v', e') \<and> errno e' = ENOSPC \<and> file_step cont n f v e cs f v' e' cs
     else \<exists>f'. locate f v e (length cs) True = (c, f', v', e') \<and> c \<in> fr \<and> file_step cont n f v e cs f' v' e' (cs @ [c]) \<and>
       errno e' = errno e \<and>
       f' = (if cs = [] then f\<lparr>f_first := c, f_meta_dirty := True\<rparr> else f)\<lparr>f_cur_index := length cs, f_cur_cluster := c\<rparr>)"
proof -
  note v = file_okD(1) [OF assms(1)] and ch = file_okD(2) [OF assms(1)]
  let ?g = "fat_at (img cont v e)" and ?f = "(\<lambda>c. (if cs = [] then f\<lparr>f_first := c, f_meta_dirty := True\<rparr> else f)\<lparr>f_cur_index := length cs, f_cur_cluster := c\<rparr>)"
  have "\<exists>c v' e'. v_dir_sec v' = v_dir_sec v \<and>
    (if fr = {} then locate f v e (length cs) True = (0, f, v', e'\<lparr>errno := ENOSPC\<rparr>) \<and> fat_step cont n v e v' e' ?g
     else locate f v e (length cs) True = (c, ?f c, v', e') \<and> c \<in> fr \<and> fat_step cont n v e v' e' (grown ?g cs c))"
  proof (cases "cs = []")
    case True
    then have f0: "f_first f = 0" using file_okD(6) [OF assms(1)] by blast
    obtain c v1 e1 where a: "alloc_cluster v e = (c, v1, e1)"
      "if fr = {} then c = 0 \<and> fat_step cont n v e v1 e1 ?g else c \<in> fr \<and> fat_step cont n v e v1 e1 (?g(c := FAT_END))"
      using alloc_cluster_spec [OF v refl] unfolding assms(2) by blast
    show ?thesis
    proof (cases "fr = {}")
      case fr: True
      then show ?thesis using a True f0 dir_sec_alloc [OF a(1)]
        by (intro exI [of _ c] exI [of _ v1] exI [of _ e1]) (simp add: locate_def)
    next
      case False
      then have "c \<in> fr" "fat_step cont n v e v1 e1 (?g(c := FAT_END))" using a(2) by simp_all
      moreover have "c \<noteq> 0" using calculation(1) by (auto simp: assms(2) free_clusters_def)
      ultimately show ?thesis using False a(1) True f0 dir_sec_alloc [OF a(1)]
        by (intro exI [of _ c] exI [of _ v1] exI [of _ e1]) (simp add: locate_def locate_from_def grown_def)
    qed
  next
    case False
    then have f0: "f_first f \<noteq> 0" using file_okD(5) [OF assms(1)] by blast
    note c = file_okD(6) [OF assms(1) f0]
    then have hd: "f_first f = cs ! 0" by (cases cs) auto
    have "\<exists>i. i < length cs \<and> locate f v e (length cs) True = locate_walk (length cs - i) f v e i (cs ! i) True"
    proof (cases "f_cur_cluster f \<noteq> 0 \<and> f_cur_index f \<le> length cs")
      case True
      then show ?thesis using f0 file_okD(7) [OF assms(1)] by (intro exI [of _ "f_cur_index f"]) (simp add: locate_def locate_from_def)
    next
      case no: False
      then show ?thesis using f0 hd False by (intro exI [of _ 0]) (auto simp: locate_def locate_from_def)
    qed
    then obtain i where i: "i < length cs" "locate f v e (length cs) True = locate_walk (length cs - i) f v e i (cs ! i) True"
      by blast
    then have il: "i + (length cs - i) = length cs" by simp
    have f: "(if cs = [] then f\<lparr>f_first := c, f_meta_dirty := True\<rparr> else f) = f" for c using False by simp
    show ?thesis using locate_walk_end [OF v refl conjunct2 [OF c] ch i(1) il, of f] unfolding assms(2) f i(2) .
  qed
  then obtain c v' e' where r: "v_dir_sec v' = v_dir_sec v"
    "if fr = {} then locate f v e (length cs) True = (0, f, v', e'\<lparr>errno := ENOSPC\<rparr>) \<and> fat_step cont n v e v' e' ?g
     else locate f v e (length cs) True = (c, ?f c, v', e') \<and> c \<in> fr \<and> fat_step cont n v e v' e' (grown ?g cs c)" by blast
  show ?thesis
  proof (cases "fr = {}")
    case True
    then have s: "fat_step cont n v e v' e' ?g" using r(2) by simp
    have "img cont v' (e'\<lparr>errno := ENOSPC\<rparr>) = img cont v' e'" by (rule ext) (simp add: img_def)
    then show ?thesis using True r(2) file_ok_fat_step [OF assms(1) s r(1), of ENOSPC] fat_step_fields(13) [OF s]
      by (intro exI [of _ c] exI [of _ v'] exI [of _ "e'\<lparr>errno := ENOSPC\<rparr>"]) simp
  next
    case False
    then have s: "fat_step cont n v e v' e' (grown ?g cs c)" "c \<in> fr" using r(2) by simp_all
    have "errno e' = errno e" using fat_step_fields(11) [OF s(1)] by (simp add: same_env_def)
    then show ?thesis using False r(2) s(2) file_ok_grown [OF assms(1) s(2) [unfolded assms(2)] s(1) r(1) refl] fat_step_fields(13) [OF s(1)]
      by (intro exI [of _ c] exI [of _ v'] exI [of _ e']) simp
  qed
qed

end
