(* ===== verification/Fs_Rw.thy ===== *)
theory Fs_Rw
  imports Fs_Data
begin

text \<open>
  CeresFS: reading and writing. On a device that works, \<open>fs_read\<close> returns a slice of the bytes of the file, and
  \<open>fs_write\<close> puts the bytes given over them, as many as the file and the free clusters have room for.
\<close>

section \<open>Bytes in sectors\<close>

definition overwrite :: "nat \<Rightarrow> 'a list \<Rightarrow> 'a list \<Rightarrow> 'a list" where
  "overwrite pos x b = take pos b @ x @ drop (pos + length x) b"

lemma overwrite_Nil [simp]: "overwrite pos [] b = b"
  by (simp add: overwrite_def)

lemma length_overwrite: "pos \<le> length b \<Longrightarrow> length (overwrite pos x b) = max (length b) (pos + length x)"
  by (simp add: overwrite_def)

lemma overwrite_append:
  assumes "pos \<le> length b"
  shows "overwrite (pos + length x) y (overwrite pos x b) = overwrite pos (x @ y) b"
  using assms by (simp add: overwrite_def ac_simps)

lemma take_overwrite:
  assumes "pos \<le> sz" "sz \<le> length d" "pos + length x \<le> length d"
  shows "take (max sz (pos + length x)) (overwrite pos x d) = overwrite pos x (take sz d)"
proof (cases "pos + length x \<le> sz")
  case True
  then have "max sz (pos + length x) - (pos + length x) = sz - (pos + length x)" "max sz (pos + length x) = sz" by simp_all
  moreover have "take sz (take pos d) = take pos d" using assms(1) by (simp add: min_def)
  moreover have "take sz x = x" "sz - pos - length x = sz - (pos + length x)" "length x \<le> sz - pos" using True by simp_all
  ultimately show ?thesis using assms by (auto simp: overwrite_def min_def drop_take)
next
  case False
  then show ?thesis using assms by (simp add: overwrite_def min_def max_def)
qed

lemma length_sectors: "\<forall>c \<in> set cs. length (F c) = 512 \<Longrightarrow> length (concat (map F cs)) = 512 * length cs"
  by (induction cs) auto

lemma sectors_update:
  assumes "distinct cs" "i < length cs" "\<forall>c \<in> set cs. length (F c) = 512"
  shows "concat (map (F(cs ! i := b)) cs) = take (512 * i) (concat (map F cs)) @ b @ drop (512 * i + 512) (concat (map F cs))"
  using assms
proof (induction cs arbitrary: i)
  case (Cons x xs)
  show ?case
  proof (cases i)
    case 0
    have "map (F(x := b)) xs = map F xs" using Cons.prems(1) by auto
    then show ?thesis using 0 Cons.prems(3) by (simp del: map_eq_conv fun_upd_apply add: fun_upd_same)
  next
    case (Suc j)
    then show ?thesis using Cons by (auto simp: add.commute)
  qed
qed simp

lemma sector_of:
  assumes "i < length cs" "\<forall>c \<in> set cs. length (F c) = 512"
  shows "take 512 (drop (512 * i) (concat (map F cs))) = F (cs ! i)"
  using assms
proof (induction cs arbitrary: i)
  case (Cons x xs)
  then show ?case by (cases i) auto
qed simp

section \<open>A change of the buffer\<close>

lemma file_sector_length:
  assumes "file_ok cont n f v e cs" "c \<in> set cs"
  shows "length (file_sector cont f v e c) = 512"
  using file_okD(4) [OF assms(1)] img_length [OF file_okD(1) [OF assms(1)] cluster_range(5) [OF file_okD(1,2) [OF assms(1)] assms(2)]]
  by (simp add: file_sector_def)

lemma file_data_length:
  assumes "file_ok cont n f v e cs"
  shows "length (file_data cont f v e cs) = 512 * length cs" "length (file_bytes cont f v e cs) = f_size f"
  using length_sectors [of cs "file_sector cont f v e"] file_sector_length [OF assms] file_okD(3) [OF assms]
  by (simp_all add: file_data_def file_bytes_def)

lemma free_not_in_chain:
  assumes "file_ok cont n f v e cs"
  shows "free_clusters v (fat_at (img cont v e)) \<inter> set cs = {}"
  using free_grown(2) [of _ v "fat_at (img cont v e)" cs "f_first f"] file_okD(2,5,6) [OF assms] by blast

text \<open>The buffer becomes that of cluster \<open>c\<close>, the others are on the device.\<close>

lemma buffer_step:
  assumes "file_ok cont n f v e cs" "c \<in> set cs" "keeps cont n v e v e'"
    "\<forall>d \<in> set cs. d \<noteq> c \<longrightarrow> img cont v e' (cluster_at v d) = file_sector cont f v e d"
    "\<forall>s. s \<notin> cluster_at v ` set cs \<longrightarrow> img cont v e' s = img cont v e s"
    "f_buf_cluster f' = c" "length (f_buf f') = 512" "f_buf_dirty f' \<or> f_buf f' = img cont v e' (cluster_at v c)"
    "f_size f' \<le> 512 * length cs" "f_first f' = f_first f"
    "f_cur_cluster f' \<noteq> 0 \<longrightarrow> f_cur_index f' < length cs \<and> cs ! f_cur_index f' = f_cur_cluster f'"
    "f_used f' = f_used f" "f_vol f' = f_vol f" "f_flags f' = f_flags f" "f_dir f' = f_dir f" "f_index f' = f_index f"
  shows "file_step cont n f v e cs f' v e' cs"
    "d \<in> set cs \<Longrightarrow> file_sector cont f' v e' d = (if d = c then f_buf f' else file_sector cont f v e d)"
proof -
  note v = file_okD(1) [OF assms(1)] and ch = file_okD(2) [OF assms(1)]
  have img: "img cont v e' s = img cont v e s" if "s < v_dir_start v" for s
  proof -
    have "s \<notin> cluster_at v ` set cs" using cluster_range(6) [OF v ch] that by (auto simp: not_le [symmetric])
    then show ?thesis using assms(5) by blast
  qed
  have fat: "fat_at (img cont v e') d = fat_at (img cont v e) d" if "d \<le> v_clusters v" for d
    using fat_at_cong [OF vol_okD(2) [OF v] that] img by blast
  have chain: "chain (fat_at (img cont v e')) d cs = chain (fat_at (img cont v e)) d cs" for d
    using fat ch by (intro chain_cong) (auto simp: chain_ok_def)
  have free: "free_clusters v (fat_at (img cont v e')) = free_clusters v (fat_at (img cont v e))"
    using fat by (auto simp: free_clusters_def)
  have c0: "c \<noteq> 0" using cluster_range(1) [OF v ch assms(2)] by simp
  have "vol_ok cont n v e'" using assms(3) by (simp add: keeps_def)
  moreover have "if f_first f' = 0 then cs = [] else cs \<noteq> [] \<and> chain (fat_at (img cont v e')) (f_first f') cs"
    using file_okD(5,6) [OF assms(1)] chain assms(10) by simp
  moreover have "f_buf_cluster f' \<noteq> 0 \<and> \<not> f_buf_dirty f' \<longrightarrow> f_buf f' = img cont v e' (cluster_at v (f_buf_cluster f'))"
    using assms(6,8) by blast
  ultimately have ok: "file_ok cont n f' v e' cs"
    unfolding file_ok_def free using ch assms(2,6,7,9,11) file_okD(10) [OF assms(1)] by blast
  have "free_clusters v (fat_at (img cont v e)) - set cs = free_clusters v (fat_at (img cont v e))"
    using free_not_in_chain [OF assms(1)] by blast
  moreover have "cache_ok cont v e'" if "cache_ok cont v e" using that free by (simp add: cache_ok_def)
  moreover have "rtc e' = rtc e" using assms(3) by (simp add: keeps_def same_env_def)
  ultimately show "file_step cont n f v e cs f' v e' cs"
    unfolding file_step_def free using ok fat assms(5,12-16) by simp
  show "d \<in> set cs \<Longrightarrow> file_sector cont f' v e' d = (if d = c then f_buf f' else file_sector cont f v e d)"
    using assms(4,6) by (simp add: file_sector_def)
qed

section \<open>Writing\<close>

text \<open>One turn of the loop of \<open>fs_write\<close> after its cluster has been found.\<close>

definition put_chunk :: "ofile \<Rightarrow> u8 list \<Rightarrow> nat \<Rightarrow> ofile" where
  "put_chunk f inp chunk =
     (let off = f_pos f mod 512;
          f = f\<lparr>f_buf := take off (f_buf f) @ take chunk inp @ drop (off + chunk) (f_buf f),
                f_buf_dirty := True, f_modified := True, f_pos := add32 (f_pos f) chunk\<rparr>
      in if f_size f < f_pos f then f\<lparr>f_size := f_pos f, f_meta_dirty := True\<rparr> else f)"

lemma put_chunk_fields:
  "f_buf (put_chunk f inp k) = take (f_pos f mod 512) (f_buf f) @ take k inp @ drop (f_pos f mod 512 + k) (f_buf f)"
  "f_buf_dirty (put_chunk f inp k)" "f_pos (put_chunk f inp k) = add32 (f_pos f) k"
  "f_size (put_chunk f inp k) = max (f_size f) (add32 (f_pos f) k)" "f_buf_cluster (put_chunk f inp k) = f_buf_cluster f"
  "f_first (put_chunk f inp k) = f_first f" "f_cur_index (put_chunk f inp k) = f_cur_index f"
  "f_cur_cluster (put_chunk f inp k) = f_cur_cluster f" "f_used (put_chunk f inp k) = f_used f" "f_vol (put_chunk f inp k) = f_vol f"
  "f_flags (put_chunk f inp k) = f_flags f" "f_dir (put_chunk f inp k) = f_dir f" "f_index (put_chunk f inp k) = f_index f"
  by (simp_all add: put_chunk_def Let_def)

lemma put_chunk_step:
  assumes "file_ok cont n f v e cs" "f_pos f \<le> f_size f" "i = f_pos f div 512" "i < length cs"
    "k = min (512 - f_pos f mod 512) (length inp)"
  shows "\<exists>f1 e'. buf_load f v e (cs ! i) (f_size f \<le> mul32 i 512) = (f1, v, e') \<and>
    file_step cont n f v e cs (put_chunk f1 inp k) v e' cs \<and> errno e' = errno e \<and>
    f_pos (put_chunk f1 inp k) = f_pos f + k \<and> f_size (put_chunk f1 inp k) = max (f_size f) (f_pos f + k) \<and>
    file_bytes cont (put_chunk f1 inp k) v e' cs = overwrite (f_pos f) (take k inp) (file_bytes cont f v e cs)"
proof -
  let ?off = "f_pos f mod 512" and ?c = "cs ! i" and ?D = "file_data cont f v e cs"
  note v = file_okD(1) [OF assms(1)] and ch = file_okD(2) [OF assms(1)]
  have c: "?c \<in> set cs" using assms(4) by simp
  have pos: "f_pos f = 512 * i + ?off" "?off < 512" using assms(3) by simp_all
  have len: "length cs \<le> 65534" using chain_ok_length [OF ch] geometry_fields [OF vol_okD(2) [OF v]] by simp
  have k: "?off + k \<le> 512" "k \<le> length inp" using assms(5) pos(2) by simp_all
  have fit: "f_pos f + k \<le> 512 * length cs" using pos(1) k(1) assms(4) by linarith
  have "f_pos f + k < U32" using fit len by simp
  then have add: "add32 (f_pos f) k = f_pos f + k" by simp
  have mul: "mul32 i 512 = 512 * i" using assms(4) len by (subst mul32_exact) simp_all
  obtain buf e' dirty where b: "buf_load f v e ?c (f_size f \<le> 512 * i) =
      (f\<lparr>f_buf := buf, f_buf_cluster := ?c, f_buf_dirty := dirty\<rparr>, v, e')"
    "keeps cont n v e v e'" "length buf = 512" "\<not> f_size f \<le> 512 * i \<longrightarrow> buf = file_sector cont f v e ?c"
    "\<forall>d \<in> set cs. d \<noteq> ?c \<longrightarrow> img cont v e' (cluster_at v d) = file_sector cont f v e d"
    "\<forall>s. s \<notin> cluster_at v ` set cs \<longrightarrow> img cont v e' s = img cont v e s"
    using buf_load_spec [OF assms(1) c, of "f_size f \<le> 512 * i"] by (elim exE conjE) (rule that, assumption+)
  let ?f1 = "f\<lparr>f_buf := buf, f_buf_cluster := ?c, f_buf_dirty := dirty\<rparr>"
  let ?f = "put_chunk ?f1 inp k"
  have fs: "f_pos ?f = f_pos f + k" "f_size ?f = max (f_size f) (f_pos f + k)" "f_buf_cluster ?f = ?c" "f_buf_dirty ?f"
    "f_buf ?f = take ?off buf @ take k inp @ drop (?off + k) buf"
    by (simp_all add: put_chunk_fields add)
  have lb: "length (f_buf ?f) = 512" using fs(5) b(3) k by simp
  have sz: "f_size ?f \<le> 512 * length cs" using fs(2) fit file_okD(3) [OF assms(1)] by simp
  have cur: "f_cur_cluster ?f \<noteq> 0 \<longrightarrow> f_cur_index ?f < length cs \<and> cs ! f_cur_index ?f = f_cur_cluster ?f"
    using file_okD(7) [OF assms(1)] by (simp add: put_chunk_fields)
  note st = buffer_step [OF assms(1) c b(2,5,6) fs(3) lb disjI1 [OF fs(4)] sz _ cur]
  have step: "file_step cont n f v e cs ?f v e' cs" by (rule st(1)) (simp_all add: put_chunk_fields)
  have sec: "file_sector cont ?f v e' d = (if d = ?c then f_buf ?f else file_sector cont f v e d)" if "d \<in> set cs" for d
    by (rule st(2)) (simp_all add: put_chunk_fields that)
  have all: "\<forall>d \<in> set cs. length (file_sector cont f v e d) = 512" using file_sector_length [OF assms(1)] by blast
  have "map (file_sector cont ?f v e') cs = map ((file_sector cont f v e)(?c := f_buf ?f)) cs"
    using sec by (intro map_cong refl) simp
  then have D: "file_data cont ?f v e' cs = take (512 * i) ?D @ f_buf ?f @ drop (512 * i + 512) ?D"
    using sectors_update [OF _ assms(4) all, of "f_buf ?f"] ch by (simp only: file_data_def chain_ok_def)
  have lD: "length ?D = 512 * length cs" by (rule file_data_length(1) [OF assms(1)])
  have i1: "512 * i + 512 \<le> length ?D" using lD assms(4) by linarith
  have bytes: "file_bytes cont ?f v e' cs = overwrite (f_pos f) (take k inp) (file_bytes cont f v e cs)"
  proof (cases "f_size f \<le> 512 * i")
    case True
    then have p: "f_pos f = 512 * i" "f_size f = 512 * i" "?off = 0" using assms(2) pos by linarith+
    then have "f_size ?f = 512 * i + k" using fs(2) by simp
    moreover have "take k (f_buf ?f) = take k inp" using fs(5) p(3) k(2) by simp
    ultimately show ?thesis unfolding file_bytes_def D overwrite_def using p i1 k lb by simp
  next
    case False
    then have buf: "buf = take 512 (drop (512 * i) ?D)" using b(4) sector_of [OF assms(4) all] by (simp add: file_data_def)
    have "take (512 * i) ?D @ f_buf ?f @ drop (512 * i + 512) ?D = overwrite (f_pos f) (take k inp) ?D"
    proof -
      have a: "take (512 * i) ?D @ take ?off buf = take (f_pos f) ?D"
        using pos i1 by (simp add: buf take_add [symmetric] add.commute)
      have b: "drop (?off + k) buf @ drop (512 * i + 512) ?D = drop (f_pos f + k) ?D"
      proof -
        have "drop (?off + k) (take 512 (drop (512 * i) ?D) @ drop 512 (drop (512 * i) ?D)) = drop (?off + k) (drop (512 * i) ?D)"
          by (simp only: append_take_drop_id)
        then show ?thesis using i1 k pos(1) by (simp add: buf ac_simps)
      qed
      have "take (512 * i) ?D @ f_buf ?f @ drop (512 * i + 512) ?D =
        (take (512 * i) ?D @ take ?off buf) @ take k inp @ (drop (?off + k) buf @ drop (512 * i + 512) ?D)" by (simp add: fs(5))
      also have "\<dots> = take (f_pos f) ?D @ take k inp @ drop (f_pos f + k) ?D" by (simp only: a b)
      finally show ?thesis using k(2) by (simp add: overwrite_def min_def)
    qed
    then have "file_data cont ?f v e' cs = overwrite (f_pos f) (take k inp) ?D" using D by simp
    moreover have "f_size ?f = max (f_size f) (f_pos f + length (take k inp))" using fs(2) k(2) by simp
    moreover have "f_pos f + length (take k inp) \<le> length ?D" using fit lD k(2) by simp
    ultimately show ?thesis unfolding file_bytes_def using take_overwrite [OF assms(2), of ?D "take k inp"] file_okD(3) [OF assms(1)] lD
      by simp
  qed
  have "errno e' = errno e" using b(2) by (simp add: keeps_def same_env_def)
  then show ?thesis using b(1) step fs(1,2) bytes by (auto simp: mul)
qed

lemma bytes_same:
  assumes "file_ok cont n f v e cs" "file_ok cont n f1 v1 e1 (cs @ xs)" "vol_rest v1 = vol_rest v"
    "\<forall>s. v_dir_start v \<le> s \<longrightarrow> img cont v1 e1 s = img cont v e s"
    "f_buf f1 = f_buf f" "f_buf_cluster f1 = f_buf_cluster f" "f_size f1 = f_size f"
  shows "file_bytes cont f1 v1 e1 (cs @ xs) = file_bytes cont f v e cs"
proof -
  have "file_sector cont f1 v1 e1 c = file_sector cont f v e c" if "c \<in> set cs" for c
    using assms(4-6) cluster_range(6) [OF file_okD(1,2) [OF assms(1)] that] vol_rest_cluster_at [OF assms(3)]
    by (simp add: file_sector_def)
  then have "map (file_sector cont f1 v1 e1) cs = map (file_sector cont f v e) cs" by simp
  moreover have "length (file_data cont f v e cs) = 512 * length cs" by (rule file_data_length(1) [OF assms(1)])
  ultimately show ?thesis using file_okD(3) [OF assms(1)] assms(7)
    by (simp add: file_bytes_def file_data_def del: map_eq_conv)
qed

lemma file_ok_cur:
  assumes "file_ok cont n f v e cs" "i < length cs"
  shows "file_ok cont n (f\<lparr>f_cur_index := i, f_cur_cluster := cs ! i\<rparr>) v e cs"
  using assms by (auto simp: file_ok_def)

lemma file_step_same:
  assumes "file_ok cont n f v e cs" "file_ok cont n f' v' e' cs" "keeps cont n v e v' e'" "img cont v' e' = img cont v e"
    "f_used f' = f_used f" "f_vol f' = f_vol f" "f_flags f' = f_flags f" "f_dir f' = f_dir f" "f_index f' = f_index f"
  shows "file_step cont n f v e cs f' v' e' cs"
proof -
  have "free_clusters v (fat_at (img cont v e)) - set cs = free_clusters v (fat_at (img cont v e))"
    using free_not_in_chain [OF assms(1)] by blast
  moreover have "cache_ok cont v e \<Longrightarrow> cache_ok cont v' e'" by (rule cache_ok_step [OF keeps_step [OF assms(3,4)]])
  moreover have "vol_rest v' = vol_rest v" using assms(3) by (intro vol_rest_core) (simp add: keeps_def)
  moreover have "rtc e' = rtc e" using assms(3) by (simp add: keeps_def same_env_def)
  ultimately show ?thesis using assms(2,5-9) unfolding file_step_def assms(4) by simp
qed

text \<open>Finding the cluster of a place at most one behind the chain, growing it there.\<close>

lemma locate_grow:
  assumes "file_ok cont n f v e cs" "i \<le> length cs" "fr = free_clusters v (fat_at (img cont v e))"
  shows "if i = length cs \<and> fr = {}
    then \<exists>v' e'. locate f v e i True = (0, f, v', e') \<and> errno e' = ENOSPC \<and> file_step cont n f v e cs f v' e' cs \<and>
      file_bytes cont f v' e' cs = file_bytes cont f v e cs
    else \<exists>f1 v1 e1 cs1. locate f v e i True = (cs1 ! i, f1, v1, e1) \<and> i < length cs1 \<and> errno e1 = errno e \<and>
      file_step cont n f v e cs f1 v1 e1 cs1 \<and> file_bytes cont f1 v1 e1 cs1 = file_bytes cont f v e cs \<and>
      f_pos f1 = f_pos f \<and> f_size f1 = f_size f \<and>
      length cs1 + card (free_clusters v1 (fat_at (img cont v1 e1))) = length cs + card fr"
proof (cases "i = length cs")
  case False
  then have i: "i < length cs" using assms(2) by simp
  obtain v1 e1 where l: "locate f v e i True = (cs ! i, f\<lparr>f_cur_index := i, f_cur_cluster := cs ! i\<rparr>, v1, e1)"
    "keeps cont n v e v1 e1" "img cont v1 e1 = img cont v e" "v_dir_sec v1 = v_dir_sec v"
    using locate_in [OF assms(1) i] by blast
  let ?f = "f\<lparr>f_cur_index := i, f_cur_cluster := cs ! i\<rparr>"
  have ok: "file_ok cont n ?f v1 e1 cs" by (rule file_ok_cur [OF file_ok_same [OF assms(1) l(2-4)] i])
  have st: "file_step cont n f v e cs ?f v1 e1 cs" by (rule file_step_same [OF assms(1) ok l(2,3)]) simp_all
  have "file_bytes cont ?f v1 e1 (cs @ []) = file_bytes cont f v e cs"
    by (rule bytes_same [OF assms(1) _ file_stepD(2) [OF st]]) (simp_all add: ok l(3))
  moreover have "errno e1 = errno e" using l(2) by (simp add: keeps_def same_env_def)
  moreover have "free_clusters v1 (fat_at (img cont v1 e1)) = fr"
    using assms(3) l(3) free_clusters_cong [OF vol_rest_fields(1) [OF file_stepD(2) [OF st]]] by simp
  ultimately show ?thesis using False i l(1) st by (auto intro!: exI [of _ ?f] exI [of _ v1] exI [of _ e1] exI [of _ cs])
next
  case True
  obtain c v1 e1 where l: "\<forall>s. v_dir_start v \<le> s \<longrightarrow> img cont v1 e1 s = img cont v e s"
    "if fr = {}
     then locate f v e (length cs) True = (0, f, v1, e1) \<and> errno e1 = ENOSPC \<and> file_step cont n f v e cs f v1 e1 cs
     else \<exists>f'. locate f v e (length cs) True = (c, f', v1, e1) \<and> c \<in> fr \<and> file_step cont n f v e cs f' v1 e1 (cs @ [c]) \<and>
       errno e1 = errno e \<and>
       f' = (if cs = [] then f\<lparr>f_first := c, f_meta_dirty := True\<rparr> else f)\<lparr>f_cur_index := length cs, f_cur_cluster := c\<rparr>"
    using locate_end [OF assms(1,3)] by (elim exE conjE) (rule that, assumption+)
  show ?thesis
  proof (cases "fr = {}")
    case fr: True
    then have st: "file_step cont n f v e cs f v1 e1 cs" using l(2) by simp
    have "file_bytes cont f v1 e1 (cs @ []) = file_bytes cont f v e cs"
      by (rule bytes_same [OF assms(1) _ file_stepD(2) [OF st] l(1)]) (simp_all add: file_stepD(1) [OF st])
    then show ?thesis using l(2) fr True by auto
  next
    case fr: False
    then obtain f1 where st: "locate f v e i True = (c, f1, v1, e1)" "c \<in> fr" "file_step cont n f v e cs f1 v1 e1 (cs @ [c])"
      "errno e1 = errno e"
      and f1: "f1 = (if cs = [] then f\<lparr>f_first := c, f_meta_dirty := True\<rparr> else f)\<lparr>f_cur_index := length cs, f_cur_cluster := c\<rparr>"
      using l(2) True by auto
    have ff: "f_pos f1 = f_pos f" "f_size f1 = f_size f" "f_buf f1 = f_buf f" "f_buf_cluster f1 = f_buf_cluster f" by (simp_all add: f1)
    have b: "file_bytes cont f1 v1 e1 (cs @ [c]) = file_bytes cont f v e cs"
      by (rule bytes_same [OF assms(1) file_stepD(1) [OF st(3)] file_stepD(2) [OF st(3)] l(1) ff(3,4,2)])
    have "free_clusters v1 (fat_at (img cont v1 e1)) = fr - set (cs @ [c])"
      using assms(3) file_stepD(5) [OF st(3)] free_clusters_cong [OF vol_rest_fields(1) [OF file_stepD(2) [OF st(3)]]] by simp
    moreover have "fr - set (cs @ [c]) = fr - {c}" using free_not_in_chain [OF assms(1)] assms(3) by auto
    moreover have "card fr = Suc (card (fr - {c}))" using st(2) assms(3) by (metis card_Suc_Diff1 finite_free_clusters)
    ultimately have "length (cs @ [c]) + card (free_clusters v1 (fat_at (img cont v1 e1))) = length cs + card fr" by simp
    moreover have "locate f v e i True = ((cs @ [c]) ! i, f1, v1, e1)" "i < length (cs @ [c])" using st(1) True by simp_all
    ultimately show ?thesis using fr st(3,4) b ff(1,2) by (simp only: simp_thms if_False) blast
  qed
qed

lemma write_loop_turn:
  assumes "inp \<noteq> []" "locate f v e (f_pos f div 512) True = (c, f1, v1, e1)" "f_pos f1 = f_pos f" "f_size f1 = f_size f"
    "buf_load f1 v1 e1 c (f_size f \<le> mul32 (f_pos f div 512) 512) = (f2, v2, e2)" "f_pos f2 = f_pos f1" "c \<noteq> 0"
    "k = min (512 - f_pos f mod 512) (length inp)"
  shows "write_loop f v e inp written = write_loop (put_chunk f2 inp k) v2 e2 (drop k inp) (written + k)"
  using assms by (subst write_loop.simps) (simp add: BLOCKDEV_SECTOR_def Let_def put_chunk_def)

lemma buf_load_pos: "buf_load f v e c fresh = (f', v', e') \<Longrightarrow> f_pos f' = f_pos f"
  by (auto simp: buf_load_def buf_flush_def split: if_splits prod.splits)

lemma write_loop_spec:
  assumes "file_ok cont n f v e cs" "f_pos f \<le> f_size f"
    "w = min (length inp) (512 * (length cs + card (free_clusters v (fat_at (img cont v e)))) - f_pos f)"
  shows "\<exists>f' v' e' cs'. write_loop f v e inp written = (written + w, drop w inp, f', v', e') \<and>
    file_step cont n f v e cs f' v' e' cs' \<and> f_pos f' = f_pos f + w \<and>
    file_bytes cont f' v' e' cs' = overwrite (f_pos f) (take w inp) (file_bytes cont f v e cs) \<and>
    errno e' = (if w < length inp then ENOSPC else errno e)"
  using assms
proof (induction "length inp" arbitrary: f v e cs inp written w rule: less_induct)
  case less
  let ?i = "f_pos f div 512" and ?fr = "free_clusters v (fat_at (img cont v e))"
  note ok = less.prems(1)
  have self: "file_step cont n f v e cs f v e cs" by (rule file_step_same [OF ok ok keeps_refl [OF file_okD(1) [OF ok]] refl]) simp_all
  show ?case
  proof (cases "inp = []")
    case True
    then show ?thesis using self less.prems(3)
      by (intro exI [of _ f] exI [of _ v] exI [of _ e] exI [of _ cs]) (simp add: write_loop.simps)
  next
    case False
    have i: "?i \<le> length cs" using less.prems(2) file_okD(3) [OF ok] by linarith
    note lg = locate_grow [OF ok i refl]
    show ?thesis
    proof (cases "?i = length cs \<and> ?fr = {}")
      case True
      then obtain v' e' where l: "locate f v e ?i True = (0, f, v', e')" "errno e' = ENOSPC" "file_step cont n f v e cs f v' e' cs"
        "file_bytes cont f v' e' cs = file_bytes cont f v e cs" using lg by (simp only: simp_thms if_True) blast
      have "512 * ?i \<le> f_pos f" by simp
      then have w: "w = 0" using less.prems(3) True by simp
      have "write_loop f v e inp written = (written, inp, f, v', e')"
        using l(1) False by (subst write_loop.simps) (simp add: BLOCKDEV_SECTOR_def Let_def)
      then show ?thesis using l(2-4) w False
        by (intro exI [of _ f] exI [of _ v'] exI [of _ e'] exI [of _ cs]) simp
    next
      case no: False
      obtain f1 v1 e1 cs1 where l: "locate f v e ?i True = (cs1 ! ?i, f1, v1, e1)" "?i < length cs1" "errno e1 = errno e"
        "file_step cont n f v e cs f1 v1 e1 cs1" "file_bytes cont f1 v1 e1 cs1 = file_bytes cont f v e cs"
        "f_pos f1 = f_pos f" "f_size f1 = f_size f"
        "length cs1 + card (free_clusters v1 (fat_at (img cont v1 e1))) = length cs + card ?fr"
        using lg no by (simp only: simp_thms if_False) blast
      define k where "k = min (512 - f_pos f mod 512) (length inp)"
      have k: "k = min (512 - f_pos f1 mod 512) (length inp)" "0 < k" "k \<le> length inp" using False by (simp_all add: k_def l(6))
      note ok1 = file_stepD(1) [OF l(4)]
      have "?i = f_pos f1 div 512" "f_pos f1 \<le> f_size f1" using l(6,7) less.prems(2) by simp_all
      note pc = put_chunk_step [OF ok1 this(2,1) l(2) k(1)]
      obtain f2 e2 where b: "buf_load f1 v1 e1 (cs1 ! ?i) (f_size f1 \<le> mul32 ?i 512) = (f2, v1, e2)"
        "file_step cont n f1 v1 e1 cs1 (put_chunk f2 inp k) v1 e2 cs1" "errno e2 = errno e1"
        "f_pos (put_chunk f2 inp k) = f_pos f + k" "f_size (put_chunk f2 inp k) = max (f_size f) (f_pos f + k)"
        "file_bytes cont (put_chunk f2 inp k) v1 e2 cs1 = overwrite (f_pos f) (take k inp) (file_bytes cont f v e cs)"
        using pc l(5-7) by (elim exE conjE) (rule that, simp_all)
      let ?f = "put_chunk f2 inp k"
      have c0: "cs1 ! ?i \<noteq> 0" using cluster_range(1) [OF file_okD(1,2) [OF ok1], of "cs1 ! ?i"] l(2) by simp
      have turn: "write_loop f v e inp written = write_loop ?f v1 e2 (drop k inp) (written + k)"
        by (rule write_loop_turn [OF False l(1,6,7) _ buf_load_pos [OF b(1)] c0 k_def]) (use b(1) l(7) in simp)
      note ok2 = file_stepD(1) [OF b(2)]
      have fr2: "free_clusters v1 (fat_at (img cont v1 e2)) = free_clusters v1 (fat_at (img cont v1 e1))"
        using file_stepD(5) [OF b(2)] free_not_in_chain [OF ok1] by blast
      have p2: "f_pos ?f \<le> f_size ?f" using b(4,5) by simp
      have dec: "length (drop k inp) < length inp" using k(2) False by simp
      have "k \<le> 512 - f_pos f mod 512" "512 * ?i + f_pos f mod 512 = f_pos f" "f_pos f mod 512 < 512" by (simp_all add: k_def)
      then have "f_pos f + k \<le> 512 * length cs1" using l(2) by linarith
      then have wk: "w = k + min (length (drop k inp)) (512 * (length cs1 + card (free_clusters v1 (fat_at (img cont v1 e2)))) - f_pos ?f)"
        (is "w = k + ?w") using less.prems(3) k(3) l(8) unfolding fr2 b(4) by simp
      obtain f' v' e' cs' where h: "write_loop ?f v1 e2 (drop k inp) (written + k) = (written + k + ?w, drop ?w (drop k inp), f', v', e')"
        "file_step cont n ?f v1 e2 cs1 f' v' e' cs'" "f_pos f' = f_pos ?f + ?w"
        "file_bytes cont f' v' e' cs' = overwrite (f_pos ?f) (take ?w (drop k inp)) (file_bytes cont ?f v1 e2 cs1)"
        "errno e' = (if ?w < length (drop k inp) then ENOSPC else errno e2)"
        using less.hyps [OF dec ok2 p2 refl, of "written + k"] by (elim exE conjE) (rule that, assumption+)
      have "write_loop f v e inp written = (written + w, drop w inp, f', v', e')" using turn h(1) unfolding wk by (simp add: ac_simps)
      moreover have "file_step cont n f v e cs f' v' e' cs'" by (rule file_step_trans [OF file_step_trans [OF l(4) b(2)] h(2)])
      moreover have "f_pos f' = f_pos f + w" using h(3) b(4) wk by simp
      moreover have "file_bytes cont f' v' e' cs' = overwrite (f_pos f) (take w inp) (file_bytes cont f v e cs)"
      proof -
        have len: "f_pos f \<le> length (file_bytes cont f v e cs)" using less.prems(2) file_data_length(2) [OF ok] by simp
        have "length (take k inp) = k" "take w inp = take k inp @ take ?w (drop k inp)" using k(3) wk by (simp_all add: take_add)
        then show ?thesis using h(4) overwrite_append [OF len, of "take k inp"] b(4,6) by simp
      qed
      moreover have "errno e' = (if w < length inp then ENOSPC else errno e)"
      proof -
        have "?w < length (drop k inp) \<longleftrightarrow> w < length inp" using k(3) unfolding wk length_drop by linarith
        then show ?thesis using h(5) b(3) l(3) by simp
      qed
      ultimately show ?thesis by blast
    qed
  qed
qed

section \<open>Reading\<close>

lemma read_chunk_step:
  assumes "file_ok cont n f v e cs" "i = f_pos f div 512" "f_pos f + m \<le> f_size f" "0 < m" "k = min (512 - f_pos f mod 512) m"
  shows "i < length cs \<and> (\<exists>f1 e'. buf_load f v e (cs ! i) False = (f1, v, e') \<and> f_pos f1 = f_pos f \<and>
    file_step cont n f v e cs (f1\<lparr>f_pos := add32 (f_pos f1) k\<rparr>) v e' cs \<and> errno e' = errno e \<and> f_size f1 = f_size f \<and>
    file_bytes cont (f1\<lparr>f_pos := add32 (f_pos f1) k\<rparr>) v e' cs = file_bytes cont f v e cs \<and>
    take k (drop (f_pos f mod 512) (f_buf f1)) = take k (drop (f_pos f) (file_bytes cont f v e cs)))"
proof -
  let ?off = "f_pos f mod 512" and ?c = "cs ! i" and ?D = "file_data cont f v e cs"
  note v = file_okD(1) [OF assms(1)] and ch = file_okD(2) [OF assms(1)]
  have pos: "f_pos f = 512 * i + ?off" "?off < 512" using assms(2) by simp_all
  have lt: "f_pos f < 512 * length cs" using assms(3,4) file_okD(3) [OF assms(1)] by linarith
  then have i: "i < length cs" using pos by linarith
  then have c: "?c \<in> set cs" by simp
  obtain buf e' dirty where b: "buf_load f v e ?c False = (f\<lparr>f_buf := buf, f_buf_cluster := ?c, f_buf_dirty := dirty\<rparr>, v, e')"
    "keeps cont n v e v e'" "length buf = 512" "\<not> False \<longrightarrow> buf = file_sector cont f v e ?c"
    "\<not> dirty \<longrightarrow> False \<or> buf = img cont v e' (cluster_at v ?c)"
    "\<forall>d \<in> set cs. d \<noteq> ?c \<longrightarrow> img cont v e' (cluster_at v d) = file_sector cont f v e d"
    "\<forall>s. s \<notin> cluster_at v ` set cs \<longrightarrow> img cont v e' s = img cont v e s"
    using buf_load_spec [OF assms(1) c, of False] by (elim exE conjE) (rule that, assumption+)
  let ?f1 = "f\<lparr>f_buf := buf, f_buf_cluster := ?c, f_buf_dirty := dirty\<rparr>"
  let ?f = "?f1\<lparr>f_pos := add32 (f_pos ?f1) k\<rparr>"
  have d: "f_buf_dirty ?f \<or> f_buf ?f = img cont v e' (cluster_at v ?c)" using b(5) by auto
  have fs: "f_buf_cluster ?f = ?c" "length (f_buf ?f) = 512" "f_size ?f \<le> 512 * length cs" "f_first ?f = f_first f"
    using b(3) file_okD(3) [OF assms(1)] by simp_all
  have cur: "f_cur_cluster ?f \<noteq> 0 \<longrightarrow> f_cur_index ?f < length cs \<and> cs ! f_cur_index ?f = f_cur_cluster ?f"
    using file_okD(7) [OF assms(1)] by simp
  note st = buffer_step [OF assms(1) c b(2,6,7) fs(1,2) d fs(3,4) cur]
  have step: "file_step cont n f v e cs ?f v e' cs" by (rule st(1)) simp_all
  have sec: "file_sector cont ?f v e' d = file_sector cont f v e d" if "d \<in> set cs" for d
  proof -
    have "file_sector cont ?f v e' d = (if d = ?c then f_buf ?f else file_sector cont f v e d)"
      by (rule st(2)) (simp_all add: that)
    then show ?thesis using b(4) by simp
  qed
  have "map (file_sector cont ?f v e') cs = map (file_sector cont f v e) cs" using sec by simp
  then have bytes: "file_bytes cont ?f v e' cs = file_bytes cont f v e cs" by (simp add: file_bytes_def file_data_def del: map_eq_conv)
  have all: "\<forall>d \<in> set cs. length (file_sector cont f v e d) = 512" using file_sector_length [OF assms(1)] by blast
  have buf: "buf = take 512 (drop (512 * i) ?D)" using b(4) sector_of [OF i all] by (simp add: file_data_def)
  have k: "?off + k \<le> 512" "f_pos f + k \<le> f_size f" using assms(3,5) pos(2) by simp_all
  have "take k (drop ?off buf) = take k (drop (f_pos f) ?D)"
  proof -
    have "drop ?off buf = take (512 - ?off) (drop (f_pos f) ?D)" using pos(1) by (simp add: buf drop_take add.commute)
    then show ?thesis using k(1) by (simp add: min_def)
  qed
  also have "\<dots> = take k (drop (f_pos f) (file_bytes cont f v e cs))" using k(2) by (simp add: file_bytes_def drop_take)
  finally have out: "take k (drop ?off (f_buf ?f1)) = take k (drop (f_pos f) (file_bytes cont f v e cs))" by simp
  have "errno e' = errno e" using b(2) by (simp add: keeps_def same_env_def)
  moreover have "f_pos ?f1 = f_pos f" "f_size ?f1 = f_size f" by simp_all
  ultimately show ?thesis using i b(1) step bytes out by blast
qed

lemma read_loop_spec:
  assumes "file_ok cont n f v e cs" "f_pos f + m \<le> f_size f"
  shows "\<exists>f' v' e'. read_loop f v e m out = (out @ take m (drop (f_pos f) (file_bytes cont f v e cs)), f', v', e') \<and>
    file_step cont n f v e cs f' v' e' cs \<and> f_pos f' = f_pos f + m \<and> f_size f' = f_size f \<and> errno e' = errno e \<and>
    file_bytes cont f' v' e' cs = file_bytes cont f v e cs"
  using assms
proof (induction m arbitrary: f v e out rule: less_induct)
  case (less m)
  let ?i = "f_pos f div 512" and ?B = "file_bytes cont f v e cs"
  note ok = less.prems(1)
  show ?case
  proof (cases "m = 0")
    case True
    have "file_step cont n f v e cs f v e cs" by (rule file_step_same [OF ok ok keeps_refl [OF file_okD(1) [OF ok]] refl]) simp_all
    then show ?thesis using True by (intro exI [of _ f] exI [of _ v] exI [of _ e]) (simp add: read_loop.simps)
  next
    case False
    define k where "k = min (512 - f_pos f mod 512) m"
    have k: "0 < k" "k \<le> m" using False by (simp_all add: k_def)
    have i: "?i < length cs" using read_chunk_step [OF ok refl less.prems(2) _ k_def] False by simp
    obtain v1 e1 where l: "locate f v e ?i False = (cs ! ?i, f\<lparr>f_cur_index := ?i, f_cur_cluster := cs ! ?i\<rparr>, v1, e1)"
      "keeps cont n v e v1 e1" "img cont v1 e1 = img cont v e" "v_dir_sec v1 = v_dir_sec v"
      using locate_in [OF ok i] by blast
    let ?f0 = "f\<lparr>f_cur_index := ?i, f_cur_cluster := cs ! ?i\<rparr>"
    have ok0: "file_ok cont n ?f0 v1 e1 cs" by (rule file_ok_cur [OF file_ok_same [OF ok l(2-4)] i])
    have s0: "file_step cont n f v e cs ?f0 v1 e1 cs" by (rule file_step_same [OF ok ok0 l(2,3)]) simp_all
    have b0: "file_bytes cont ?f0 v1 e1 (cs @ []) = ?B"
      by (rule bytes_same [OF ok _ file_stepD(2) [OF s0]]) (simp_all add: ok0 l(3))
    have c0: "cs ! ?i \<noteq> 0" using cluster_range(1) [OF file_okD(1,2) [OF ok], of "cs ! ?i"] i by simp
    have p0: "f_pos ?f0 = f_pos f" "f_size ?f0 = f_size f" "errno e1 = errno e" using l(2) by (simp_all add: keeps_def same_env_def)
    have m: "0 < m" using False by simp
    obtain f1 e2 where b: "buf_load ?f0 v1 e1 (cs ! ?i) False = (f1, v1, e2)" "f_pos f1 = f_pos f"
      "file_step cont n ?f0 v1 e1 cs (f1\<lparr>f_pos := add32 (f_pos f1) k\<rparr>) v1 e2 cs" "errno e2 = errno e1" "f_size f1 = f_size f"
      "file_bytes cont (f1\<lparr>f_pos := add32 (f_pos f1) k\<rparr>) v1 e2 cs = ?B"
      "take k (drop (f_pos f mod 512) (f_buf f1)) = take k (drop (f_pos f) ?B)"
    proof -
      have "?i = f_pos ?f0 div 512" "f_pos ?f0 + m \<le> f_size ?f0" "k = min (512 - f_pos ?f0 mod 512) m"
        using less.prems(2) by (simp_all add: k_def)
      note rc = conjunct2 [OF read_chunk_step [OF ok0 this(1,2) m this(3)]]
      have b0': "file_bytes cont ?f0 v1 e1 cs = ?B" using b0 by simp
      show ?thesis using rc unfolding b0' p0(1,2) by (elim exE conjE) (rule that, assumption+)
    qed
    let ?f = "f1\<lparr>f_pos := add32 (f_pos f1) k\<rparr>"
    have turn: "read_loop f v e m out = read_loop ?f v1 e2 (m - k) (out @ take k (drop (f_pos f) ?B))"
      using l(1) c0 b(1,2,7) False by (subst read_loop.simps) (simp add: BLOCKDEV_SECTOR_def Let_def k_def)
    have len: "length cs \<le> 65534" using chain_ok_length [OF file_okD(2) [OF ok]] geometry_fields [OF vol_okD(2) [OF file_okD(1) [OF ok]]] by simp
    have fit: "f_pos f + k \<le> 512 * length cs" using less.prems(2) k(2) file_okD(3) [OF ok] by linarith
    have "f_pos f + k < U32" using fit len by simp
    then have p: "f_pos ?f = f_pos f + k" using b(2) by simp
    have sz: "f_size ?f = f_size f" using b(5) by simp
    have "m - k < m" "f_pos ?f + (m - k) \<le> f_size ?f" using k less.prems(2) p sz by simp_all
    then obtain f' v' e' where h: "read_loop ?f v1 e2 (m - k) (out @ take k (drop (f_pos f) ?B)) =
        ((out @ take k (drop (f_pos f) ?B)) @ take (m - k) (drop (f_pos ?f) (file_bytes cont ?f v1 e2 cs)), f', v', e')"
      "file_step cont n ?f v1 e2 cs f' v' e' cs" "f_pos f' = f_pos ?f + (m - k)" "f_size f' = f_size ?f" "errno e' = errno e2"
      "file_bytes cont f' v' e' cs = file_bytes cont ?f v1 e2 cs"
      using less.IH [OF _ file_stepD(1) [OF b(3)], of "m - k"] by blast
    have "take m (drop (f_pos f) ?B) = take k (drop (f_pos f) ?B) @ take (m - k) (drop (f_pos f + k) ?B)"
      using take_add [of k "m - k" "drop (f_pos f) ?B"] k(2) by (simp add: add.commute)
    then have "read_loop f v e m out = (out @ take m (drop (f_pos f) ?B), f', v', e')" using turn h(1) p b(6) by simp
    moreover have "file_step cont n f v e cs f' v' e' cs" by (rule file_step_trans [OF file_step_trans [OF s0 b(3)] h(2)])
    ultimately show ?thesis using h(3-6) p sz k(2) b(4,6) p0(3) by simp
  qed
qed

section \<open>Descriptors\<close>

text \<open>
  Descriptor \<open>fd\<close> is open, its file has the clusters \<open>cs\<close>, it stands within the file. What it shows is the bytes of the file
  and the place in them.
\<close>

definition fd_file :: "'m fs \<Rightarrow> int \<Rightarrow> ofile" where
  "fd_file st fd = fs_files st ! nat fd"

definition fd_volume :: "'m fs \<Rightarrow> int \<Rightarrow> 'm volume" where
  "fd_volume st fd = fs_volumes st ! f_vol (fd_file st fd)"

definition fd_open :: "('m \<Rightarrow> nat \<Rightarrow> u8 list) \<Rightarrow> nat \<Rightarrow> 'm fs \<Rightarrow> int \<Rightarrow> nat list \<Rightarrow> bool" where
  "fd_open cont n st fd cs \<longleftrightarrow>
     0 \<le> fd \<and> fd < int FS_MAX_OPEN \<and> nat fd < length (fs_files st) \<and> f_vol (fd_file st fd) < length (fs_volumes st) \<and>
     f_used (fd_file st fd) \<and> v_mounted (fd_volume st fd) \<and>
     file_ok cont n (fd_file st fd) (fd_volume st fd) (fs_env st) cs \<and> f_pos (fd_file st fd) \<le> f_size (fd_file st fd)"

definition fd_bytes :: "('m \<Rightarrow> nat \<Rightarrow> u8 list) \<Rightarrow> 'm fs \<Rightarrow> int \<Rightarrow> nat list \<Rightarrow> u8 list" where
  "fd_bytes cont st fd cs = file_bytes cont (fd_file st fd) (fd_volume st fd) (fs_env st) cs"

definition fd_free :: "('m \<Rightarrow> nat \<Rightarrow> u8 list) \<Rightarrow> 'm fs \<Rightarrow> int \<Rightarrow> nat" where
  "fd_free cont st fd = card (free_clusters (fd_volume st fd) (fat_at (img cont (fd_volume st fd) (fs_env st))))"

text \<open>The state with another file, volume and environment for descriptor \<open>fd\<close>.\<close>

definition fd_put :: "'m fs \<Rightarrow> int \<Rightarrow> ofile \<Rightarrow> 'm volume \<Rightarrow> 'm env \<Rightarrow> 'm fs" where
  "fd_put st fd f v e =
     st\<lparr>fs_files := (fs_files st)[nat fd := f], fs_volumes := (fs_volumes st)[f_vol (fd_file st fd) := v], fs_env := e\<rparr>"

lemma fd_put_step:
  assumes "fd_open cont n st fd cs" "f0 = fd_file st fd \<or> f0 = (fd_file st fd)\<lparr>f_pos := p\<rparr>"
    "file_step cont n f0 (fd_volume st fd) (fs_env st) cs f v e cs'" "f_pos f \<le> f_size f"
  shows "fd_open cont n (fd_put st fd f v e) fd cs'" "fd_bytes cont (fd_put st fd f v e) fd cs' = file_bytes cont f v e cs'"
    "fd_file (fd_put st fd f v e) fd = f" "f_vol f = f_vol (fd_file st fd)" "f_flags f = f_flags (fd_file st fd)"
proof -
  note s = file_stepD [OF assms(3)]
  have fv: "f_used f = f_used (fd_file st fd)" "f_vol f = f_vol (fd_file st fd)" using s(9,10) assms(2) by auto
  show "f_vol f = f_vol (fd_file st fd)" by (fact fv(2))
  show "f_flags f = f_flags (fd_file st fd)" using s(11) assms(2) by auto
  have le: "nat fd < length (fs_files st)" "f_vol (fd_file st fd) < length (fs_volumes st)" using assms(1) by (simp_all add: fd_open_def)
  show ff: "fd_file (fd_put st fd f v e) fd = f" using le by (simp add: fd_put_def fd_file_def)
  have vv: "fd_volume (fd_put st fd f v e) fd = v" using le fv(2) by (simp add: fd_volume_def ff) (simp add: fd_put_def)
  have ee: "fs_env (fd_put st fd f v e) = e" by (simp add: fd_put_def)
  have ll: "length (fs_files (fd_put st fd f v e)) = length (fs_files st)" "length (fs_volumes (fd_put st fd f v e)) = length (fs_volumes st)"
    by (simp_all add: fd_put_def)
  have "v_mounted v" using vol_rest_fields(5) [OF s(2)] assms(1) by (simp add: fd_open_def)
  then show "fd_open cont n (fd_put st fd f v e) fd cs'"
    using assms(1,4) s(1) fv unfolding fd_open_def ff vv ee ll by simp
  show "fd_bytes cont (fd_put st fd f v e) fd cs' = file_bytes cont f v e cs'" by (simp only: fd_bytes_def ff vv ee)
qed

lemma fd_valid: "fd_open cont n st fd cs \<Longrightarrow> valid_fd fd st = (True, st)"
  by (simp add: fd_open_def valid_fd_def fd_file_def fd_volume_def)

lemma file_ok_pos: "file_ok cont n (f\<lparr>f_pos := p\<rparr>) v e cs = file_ok cont n f v e cs"
  by (simp add: file_ok_def)

lemma file_bytes_pos: "file_bytes cont (f\<lparr>f_pos := p\<rparr>) v e cs = file_bytes cont f v e cs"
proof -
  have "file_sector cont (f\<lparr>f_pos := p\<rparr>) v e = file_sector cont f v e" by (rule ext) (simp add: file_sector_def)
  then show ?thesis by (simp add: file_bytes_def file_data_def)
qed

lemma fs_done_ok: "vol_ok cont n v e \<Longrightarrow> fs_done v e r = (r, v, e)"
  by (simp add: fs_done_def vol_okD(3))

lemma file_size_max:
  assumes "file_ok cont n f v e cs"
  shows "f_size f < 2 ^ 31"
proof -
  have "length cs \<le> v_clusters v" "v_clusters v \<le> 65534"
    using chain_ok_length [OF file_okD(2) [OF assms]] geometry_fields [OF vol_okD(2) [OF file_okD(1) [OF assms]]] by simp_all
  then show ?thesis using file_okD(3) [OF assms] by simp
qed

lemma fs_read_open:
  assumes "fd_open cont n st fd cs" "f_flags (fd_file st fd) AND FS_O_RDONLY \<noteq> 0"
    "p = f_pos (fd_file st fd)" "k = min m (length (fd_bytes cont st fd cs) - p)"
  shows "\<exists>st'. fs_read fd m st = ((int k, take k (drop p (fd_bytes cont st fd cs))), st') \<and> fd_open cont n st' fd cs \<and>
    fd_bytes cont st' fd cs = fd_bytes cont st fd cs \<and> f_pos (fd_file st' fd) = p + k \<and> f_flags (fd_file st' fd) = f_flags (fd_file st fd)"
proof -
  let ?f = "fd_file st fd" and ?v = "fd_volume st fd" and ?e = "fs_env st"
  have ok: "file_ok cont n ?f ?v ?e cs" and pos: "f_pos ?f \<le> f_size ?f" using assms(1) by (simp_all add: fd_open_def)
  have len: "length (fd_bytes cont st fd cs) = f_size ?f" using file_data_length(2) [OF ok] by (simp add: fd_bytes_def)
  have sm: "f_size ?f < 2 ^ 31" by (rule file_size_max [OF ok])
  then have sub: "sub32 (f_size ?f) (f_pos ?f) = f_size ?f - f_pos ?f" using pos by simp
  have k: "(if f_size ?f - f_pos ?f < m \<and> f_pos ?f \<le> f_size ?f then f_size ?f - f_pos ?f else if f_size ?f < f_pos ?f then 0 else m) = k"
    using pos assms(3,4) len by auto
  have fit: "f_pos ?f + k \<le> f_size ?f" using pos assms(3,4) len by simp
  obtain f' v' e' where r: "read_loop ?f ?v ?e k [] = ([] @ take k (drop (f_pos ?f) (file_bytes cont ?f ?v ?e cs)), f', v', e')"
    "file_step cont n ?f ?v ?e cs f' v' e' cs" "f_pos f' = f_pos ?f + k" "f_size f' = f_size ?f" "errno e' = errno ?e"
    "file_bytes cont f' v' e' cs = file_bytes cont ?f ?v ?e cs"
    using read_loop_spec [OF ok fit, of "[]"] by blast
  have lk: "length (take k (drop p (fd_bytes cont st fd cs))) = k" using assms(4) by simp
  have "fs_read fd m st = ((int k, take k (drop p (fd_bytes cont st fd cs))), fd_put st fd f' v' e')"
    unfolding fs_read_def fd_valid [OF assms(1)] Let_def prod.case bool.case fd_file_def [symmetric] fd_volume_def [symmetric] sub k
    using assms(2,3) r(1) lk fs_done_ok [OF file_okD(1) [OF file_stepD(1) [OF r(2)]]] by (simp add: fd_bytes_def fd_put_def)
  moreover have "f_pos f' \<le> f_size f'" using r(3,4) fit by simp
  ultimately show ?thesis using fd_put_step [OF assms(1) disjI1 [OF refl] r(2)] r(3,6) assms(3)
    by (auto simp: fd_bytes_def)
qed

lemma fs_write_open:
  assumes "fd_open cont n st fd cs" "f_flags (fd_file st fd) AND FS_O_WRONLY \<noteq> 0"
    "p = (if f_flags (fd_file st fd) AND FS_O_APPEND \<noteq> 0 then length (fd_bytes cont st fd cs) else f_pos (fd_file st fd))"
    "w = min (length inp) (512 * (length cs + fd_free cont st fd) - p)"
  shows "\<exists>st' cs'. fs_write fd inp st = (if w = 0 \<and> inp \<noteq> [] then - 1 else int w, st') \<and> fd_open cont n st' fd cs' \<and>
    fd_bytes cont st' fd cs' = overwrite p (take w inp) (fd_bytes cont st fd cs) \<and> f_pos (fd_file st' fd) = p + w \<and>
    f_flags (fd_file st' fd) = f_flags (fd_file st fd) \<and>
    errno (fs_env st') = (if w < length inp then ENOSPC else errno (fs_env st))"
proof -
  let ?f0 = "fd_file st fd" and ?v = "fd_volume st fd" and ?e = "fs_env st"
  define f where "f = (if f_flags ?f0 AND FS_O_APPEND \<noteq> 0 then ?f0\<lparr>f_pos := f_size ?f0\<rparr> else ?f0)"
  have ok0: "file_ok cont n ?f0 ?v ?e cs" and pos0: "f_pos ?f0 \<le> f_size ?f0" using assms(1) by (simp_all add: fd_open_def)
  have len: "length (fd_bytes cont st fd cs) = f_size ?f0" using file_data_length(2) [OF ok0] by (simp add: fd_bytes_def)
  have f: "file_ok cont n f ?v ?e cs" "f_pos f = p" "f_size f = f_size ?f0" "f_pos f \<le> f_size f"
    "file_bytes cont f ?v ?e cs = fd_bytes cont st fd cs"
    using ok0 pos0 assms(3) len by (simp_all add: f_def file_ok_pos file_bytes_pos fd_bytes_def)
  have fd: "f = ?f0 \<or> f = ?f0\<lparr>f_pos := f_size ?f0\<rparr>" by (simp add: f_def)
  obtain f' v' e' cs' where r: "write_loop f ?v ?e inp 0 = (0 + w, drop w inp, f', v', e')"
    "file_step cont n f ?v ?e cs f' v' e' cs'" "f_pos f' = f_pos f + w"
    "file_bytes cont f' v' e' cs' = overwrite (f_pos f) (take w inp) (file_bytes cont f ?v ?e cs)"
    "errno e' = (if w < length inp then ENOSPC else errno ?e)"
    using write_loop_spec [OF f(1,4), of w inp 0] assms(4) f(2) by (auto simp: fd_free_def)
  have wl: "w \<le> length inp" using assms(4) by simp
  have sz: "f_pos f' \<le> f_size f'"
  proof -
    have "f_size f' = length (overwrite (f_pos f) (take w inp) (fd_bytes cont st fd cs))"
      using file_data_length(2) [OF file_stepD(1) [OF r(2)]] r(4) f(5) by simp
    then show ?thesis using r(3) wl f(3,4) len by (simp add: length_overwrite)
  qed
  note fp = fd_put_step [OF assms(1) fd r(2) sz]
  have e: "drop w inp \<noteq> [] \<longleftrightarrow> inp \<noteq> []" if "w = 0" using that by simp
  have "fs_write fd inp st = (if w = 0 \<and> inp \<noteq> [] then - 1 else int w, fd_put st fd f' v' e')"
    unfolding fs_write_def fd_valid [OF assms(1)] Let_def prod.case bool.case fd_file_def [symmetric] fd_volume_def [symmetric] f_def [symmetric]
    using assms(2) r(1) e fs_done_ok [OF file_okD(1) [OF file_stepD(1) [OF r(2)]]] by (simp add: fd_put_def)
  then show ?thesis using fp r(3-5) f(2,5) by (auto simp: fd_put_def)
qed

lemma fs_seek_open:
  assumes "fd_open cont n st fd cs" "p \<le> length (fd_bytes cont st fd cs)"
  shows "\<exists>st'. fs_seek fd (int p) 0 st = Some (0, st') \<and> fd_open cont n st' fd cs \<and>
    fd_bytes cont st' fd cs = fd_bytes cont st fd cs \<and> f_pos (fd_file st' fd) = p \<and> f_flags (fd_file st' fd) = f_flags (fd_file st fd)"
proof -
  let ?f = "fd_file st fd" and ?v = "fd_volume st fd"
  have ok: "file_ok cont n ?f ?v (fs_env st) cs" using assms(1) by (simp add: fd_open_def)
  have p: "p \<le> f_size ?f" using assms(2) file_data_length(2) [OF ok] by (simp add: fd_bytes_def)
  have sm: "f_size ?f < 2 ^ 31" by (rule file_size_max [OF ok])
  let ?st = "st\<lparr>fs_files := (fs_files st)[nat fd := ?f\<lparr>f_pos := p\<rparr>]\<rparr>"
  have "fs_seek fd (int p) 0 st = Some (0, ?st)"
    unfolding fs_seek_def fd_valid [OF assms(1)] Let_def prod.case bool.case fd_file_def [symmetric]
    using p sm by (simp add: add_long_def to_long_def)
  moreover have "nat fd < length (fs_files st)" using assms(1) by (simp add: fd_open_def)
  then have ff: "fd_file ?st fd = ?f\<lparr>f_pos := p\<rparr>" "fd_volume ?st fd = ?v" by (simp_all add: fd_file_def fd_volume_def)
  moreover have "fd_open cont n ?st fd cs" using assms(1) p unfolding fd_open_def ff by (simp add: file_ok_pos)
  moreover have "fd_bytes cont ?st fd cs = fd_bytes cont st fd cs" unfolding fd_bytes_def ff by (simp add: file_bytes_pos)
  ultimately show ?thesis by auto
qed

text \<open>
  C29: on a device that works, an open file is an array of bytes with a place in it. \<open>fs_read\<close> returns the bytes from the
  place on, as many as there are; \<open>fs_write\<close> puts bytes over those at the place, or at the end with \<open>FS_O_APPEND\<close>, growing the file,
  exactly as many as its clusters and the free ones hold, with \<open>ENOSPC\<close> when these are fewer than given; \<open>fs_seek\<close>
  moves the place. Whatever the caches and the buffer hold, each keeps the file sound.
\<close>

theorem file_refines_bytes:
  assumes "fd_open cont n st fd cs" "B = fd_bytes cont st fd cs" "f = fd_file st fd" "p \<le> length B"
    "q = (if f_flags f AND FS_O_APPEND \<noteq> 0 then length B else f_pos f)" "k = min m (length B - f_pos f)"
    "w = min (length inp) (512 * (length cs + fd_free cont st fd) - q)"
  shows "(f_flags f AND FS_O_RDONLY \<noteq> 0 \<longrightarrow> (\<exists>st'. fs_read fd m st = ((int k, take k (drop (f_pos f) B)), st') \<and>
      fd_open cont n st' fd cs \<and> fd_bytes cont st' fd cs = B \<and> f_pos (fd_file st' fd) = f_pos f + k)) \<and>
    (f_flags f AND FS_O_WRONLY \<noteq> 0 \<longrightarrow> (\<exists>st' cs'. fs_write fd inp st = (if w = 0 \<and> inp \<noteq> [] then - 1 else int w, st') \<and>
      fd_open cont n st' fd cs' \<and> fd_bytes cont st' fd cs' = overwrite q (take w inp) B \<and> f_pos (fd_file st' fd) = q + w \<and>
      errno (fs_env st') = (if w < length inp then ENOSPC else errno (fs_env st)))) \<and>
    (\<exists>st'. fs_seek fd (int p) 0 st = Some (0, st') \<and> fd_open cont n st' fd cs \<and> fd_bytes cont st' fd cs = B \<and>
      f_pos (fd_file st' fd) = p)"
proof (intro conjI impI)
  assume "f_flags f AND FS_O_RDONLY \<noteq> 0"
  then show "\<exists>st'. fs_read fd m st = ((int k, take k (drop (f_pos f) B)), st') \<and>
      fd_open cont n st' fd cs \<and> fd_bytes cont st' fd cs = B \<and> f_pos (fd_file st' fd) = f_pos f + k"
    using fs_read_open [OF assms(1), of "f_pos f" k m] assms(2,3,6) by blast
next
  assume "f_flags f AND FS_O_WRONLY \<noteq> 0"
  then show "\<exists>st' cs'. fs_write fd inp st = (if w = 0 \<and> inp \<noteq> [] then - 1 else int w, st') \<and>
      fd_open cont n st' fd cs' \<and> fd_bytes cont st' fd cs' = overwrite q (take w inp) B \<and> f_pos (fd_file st' fd) = q + w \<and>
      errno (fs_env st') = (if w < length inp then ENOSPC else errno (fs_env st))"
    using fs_write_open [OF assms(1), of q w inp] assms(2,3,5,7) by blast
next
  show "\<exists>st'. fs_seek fd (int p) 0 st = Some (0, st') \<and> fd_open cont n st' fd cs \<and> fd_bytes cont st' fd cs = B \<and>
      f_pos (fd_file st' fd) = p"
    using fs_seek_open [OF assms(1)] assms(2,4) by blast
qed

text \<open>A new file on the volume in memory, open for both.\<close>

definition ram_file :: ofile where
  "ram_file = zero_ofile\<lparr>f_used := True, f_flags := 3\<rparr>"

definition ram_open :: "(nat \<Rightarrow> u8 list) fs" where
  "ram_open = \<lparr>fs_volumes = [ram_volume], fs_files = [ram_file], fs_env = ram_env\<rparr>"

lemma ram_open_ok: "fd_open ram_cont 8 ram_open 0 []"
  using ram_volume_ok by (auto simp: fd_open_def ram_open_def ram_file_def fd_file_def fd_volume_def file_ok_def zero_ofile_def
      FS_MAX_OPEN_def chain_ok_def zero_sector_def BLOCKDEV_SECTOR_def ram_volume_def cluster_at_def)

lemma ram_open_free: "fd_free ram_cont ram_open 0 = 5"
proof -
  have "free_clusters ram_volume (fat_at (img ram_cont ram_volume ram_env)) = {1..5}"
    by (auto simp: free_clusters_def ram_volume_fat FAT_FREE_def) (auto simp: ram_volume_def)
  then show ?thesis by (simp add: fd_free_def fd_volume_def fd_file_def ram_open_def ram_file_def zero_ofile_def)
qed

theorem file_refines_bytes_witness:
  "\<exists>st' cs'. fs_write 0 [1, 2, 3] ram_open = (3, st') \<and> fd_bytes ram_cont st' 0 cs' = [1, 2, 3]"
proof -
  have "fd_bytes ram_cont ram_open 0 [] = []" by (simp add: fd_bytes_def file_bytes_def file_data_def)
  moreover have "f_flags (fd_file ram_open 0) = 3" "f_pos (fd_file ram_open 0) = 0"
    by (simp_all add: fd_file_def ram_open_def ram_file_def zero_ofile_def)
  ultimately show ?thesis
    using file_refines_bytes [OF ram_open_ok refl refl le0 refl refl refl, of 0 "[1, 2, 3]"] ram_open_free
    by (auto simp: FS_O_WRONLY_def FS_O_APPEND_def overwrite_def)
qed

end
