(* ===== verification/Slotmap.thy ===== *)
theory Slotmap
  imports Vector
begin

text \<open>
  \<open>include/ceres/ds/slotmap.h\<close>: handles of an index and a generation into a growable array. A handle that was removed stays
  stale. A read through \<open>NULL\<close>, which C does not define, is \<open>None\<close>.
\<close>

section \<open>The slot map\<close>

record sm_handle =
  h_index :: nat
  h_gen :: nat

record 'a slotmap =
  sm_slots :: "'a vector"
  sm_gens :: "nat vector"
  sm_free_list :: "nat vector"

definition sm_init :: "nat \<Rightarrow> 'a slotmap" where
  "sm_init elem_size = \<lparr>sm_slots = vector_init elem_size, sm_gens = vector_init 4, sm_free_list = vector_init 4\<rparr>"

definition sm_free :: "'a slotmap \<Rightarrow> 'a slotmap" where
  "sm_free m = \<lparr>sm_slots = vector_free (sm_slots m), sm_gens = vector_free (sm_gens m), sm_free_list = vector_free (sm_free_list m)\<rparr>"


definition sm_valid :: "'a slotmap \<Rightarrow> sm_handle \<Rightarrow> bool option" where
  "sm_valid m h =
     (if v_len (sm_slots m) \<le> h_index h then Some False
      else case vector_get (sm_gens m) (h_index h) of
        None \<Rightarrow> None
      | Some g \<Rightarrow> Some (g = h_gen h))"

text \<open>The pointer returned is the index of the slot.\<close>

definition sm_get :: "'a slotmap \<Rightarrow> sm_handle \<Rightarrow> nat option option" where
  "sm_get m h =
     (case sm_valid m h of
        None \<Rightarrow> None
      | Some ok \<Rightarrow> Some (if ok then vector_at (sm_slots m) (h_index h) else None))"

definition sm_insert :: "allocs \<Rightarrow> 'a slotmap \<Rightarrow> 'a \<Rightarrow> ('a slotmap \<times> sm_handle) option" where
  "sm_insert al m item =
     (if 0 < v_len (sm_free_list m) then
        case vector_last (sm_free_list m) of
          None \<Rightarrow> None
        | Some p \<Rightarrow>
            (case v_data (sm_free_list m) ! p of
               None \<Rightarrow> None
             | Some i \<Rightarrow>
                 let m = m\<lparr>sm_free_list := vector_pop (sm_free_list m)\<rparr>
                 in case vector_get (sm_gens m) i of
                      None \<Rightarrow> None
                    | Some g \<Rightarrow>
                        (case vector_at (sm_slots m) i of
                           None \<Rightarrow> None
                         | Some q \<Rightarrow> Some (m\<lparr>sm_slots := vector_put (sm_slots m) i item\<rparr>, \<lparr>h_index = i, h_gen = g\<rparr>)))
      else
        case (if v_len (sm_slots m) = v_cap (sm_slots m) then
                let want = (if v_cap (sm_slots m) = 0 then 4 else mul32 (v_cap (sm_slots m)) 2)
                in if want < v_cap (sm_slots m) then (m, False)
                   else case vector_reserve al (sm_slots m) want of (s, r) \<Rightarrow>
                     let m = m\<lparr>sm_slots := s\<rparr>
                     in if r \<noteq> 0 then (m, False)
                        else case vector_reserve (al_drop 1 al) (sm_gens m) want of (g, r) \<Rightarrow>
                          (m\<lparr>sm_gens := g\<rparr>, r = 0)
              else (m, True)) of
          (m, False) \<Rightarrow> Some (m, \<lparr>h_index = UINT_MAX, h_gen = 0\<rparr>)
        | (m, True) \<Rightarrow>
            let h = \<lparr>h_index = v_len (sm_slots m), h_gen = 0\<rparr>;
                m = m\<lparr>sm_slots := fst (vector_push_copy (al_drop 2 al) (sm_slots m) item)\<rparr>;
                m = m\<lparr>sm_gens := fst (vector_push_copy (al_drop 3 al) (sm_gens m) 0)\<rparr>
            in Some (m, h))"


section \<open>What a slot map holds\<close>

text \<open>
  \<open>L\<close> are the indices in use, \<open>D\<close> the handles removed so far. The two arrays are in step, the indices free to be used again are
  distinct and not in use, and a removed handle has a generation below that of its slot.
\<close>

definition sm_ok :: "'a slotmap \<Rightarrow> nat set \<Rightarrow> sm_handle set \<Rightarrow> bool" where
  "sm_ok m L D \<longleftrightarrow>
     vec_wf (sm_slots m) \<and> vec_wf (sm_gens m) \<and> vec_wf (sm_free_list m) \<and> v_elem (sm_gens m) = 4 \<and>
     v_len (sm_gens m) = v_len (sm_slots m) \<and> v_cap (sm_slots m) \<le> v_cap (sm_gens m) \<and>
     distinct (vlist (sm_free_list m)) \<and> set (vlist (sm_free_list m)) \<union> L \<subseteq> {..<v_len (sm_slots m)} \<and>
     set (vlist (sm_free_list m)) \<inter> L = {} \<and>
     (\<forall>h \<in> D. h_index h < v_len (sm_slots m) \<and> h_gen h < vlist (sm_gens m) ! h_index h)"




lemma sm_init_ok: "e < U32 \<Longrightarrow> sm_ok (sm_init e) {} {}"
  by (simp add: sm_ok_def sm_init_def vec_wf_def vector_init_def vlist_def all_written_def)















text \<open>
  C31: out of memory in the second reservation puts the arrays out of step, and the comment in \<open>sm_insert\<close> that a push
  with room cannot fail does not hold: from an empty map an insertion that gets its first block and not its second one, then one
  that gets none, gives out handle 0 as if stored, and \<open>sm_valid\<close> of that handle reads through \<open>NULL\<close>.
\<close>

theorem slotmap_out_of_step:
  "\<exists>m1 h1 m2 h2. sm_insert (\<lambda>i. i = 0) (sm_init 4 :: nat slotmap) x = Some (m1, h1) \<and> h_index h1 = UINT_MAX \<and>
     sm_insert (\<lambda>i. False) m1 x = Some (m2, h2) \<and> h_index h2 = 0 \<and> sm_valid m2 h2 = None \<and> sm_get m2 h2 = None"
  by (simp add: sm_insert_def sm_init_def vector_init_def vector_reserve_def Let_def al_drop_def vector_push_copy_def
      make_room_for_one_def sm_valid_def sm_get_def vector_get_def vector_at_def)

end
