(* ===== verification/Dsu.thy ===== *)
theory Dsu
  imports Prelude
begin

text \<open>
  \<open>include/ceres/ds/dsu.h\<close>: disjoint sets of the numbers below \<open>n\<close>, a forest of parents with path halving and union by rank.
  \<open>None\<close> is an access outside the two arrays, or a loop that does not end.
\<close>

section \<open>The forest\<close>

record dsu =
  d_parent :: "nat list"
  d_rank :: "u8 list"
  d_n :: nat

definition dsu_init :: "nat list \<Rightarrow> u8 list \<Rightarrow> nat \<Rightarrow> dsu option" where
  "dsu_init parent rank n =
     (if length parent < n \<or> length rank < n then None
      else Some \<lparr>d_parent = [0..<n] @ drop n parent, d_rank = replicate n 0 @ drop n rank, d_n = n\<rparr>)"

partial_function (option) dsu_find :: "dsu \<Rightarrow> nat \<Rightarrow> (nat \<times> dsu) option" where
  "dsu_find d x =
     (if length (d_parent d) \<le> x then None
      else if d_parent d ! x = x then Some (x, d)
      else if length (d_parent d) \<le> d_parent d ! x then None
      else let d = d\<lparr>d_parent := (d_parent d)[x := d_parent d ! (d_parent d ! x)]\<rparr>
           in dsu_find d (d_parent d ! x))"

definition dsu_connected :: "dsu \<Rightarrow> nat \<Rightarrow> nat \<Rightarrow> (bool \<times> dsu) option" where
  "dsu_connected d a b =
     (case dsu_find d a of
        None \<Rightarrow> None
      | Some (ra, d) \<Rightarrow> (case dsu_find d b of None \<Rightarrow> None | Some (rb, d) \<Rightarrow> Some (ra = rb, d)))"

definition dsu_link :: "dsu \<Rightarrow> nat \<Rightarrow> nat \<Rightarrow> dsu" where
  "dsu_link d ra rb =
     (let d = d\<lparr>d_parent := (d_parent d)[rb := ra]\<rparr>
      in if d_rank d ! ra = d_rank d ! rb then d\<lparr>d_rank := (d_rank d)[ra := d_rank d ! ra + 1]\<rparr> else d)"

definition dsu_union :: "dsu \<Rightarrow> nat \<Rightarrow> nat \<Rightarrow> dsu option" where
  "dsu_union d a b =
     (case dsu_find d a of
        None \<Rightarrow> None
      | Some (ra, d) \<Rightarrow>
          (case dsu_find d b of
             None \<Rightarrow> None
           | Some (rb, d) \<Rightarrow>
               if ra = rb then Some d
               else if length (d_rank d) \<le> ra \<or> length (d_rank d) \<le> rb then None
               else if d_rank d ! ra < d_rank d ! rb then Some (dsu_link d rb ra) else Some (dsu_link d ra rb)))"

section \<open>The partition\<close>

text \<open>\<open>leads p x r\<close>: the parents from \<open>x\<close> end in the root \<open>r\<close>.\<close>

inductive leads :: "nat list \<Rightarrow> nat \<Rightarrow> nat \<Rightarrow> bool" for p :: "nat list" where
  root: "r < length p \<Longrightarrow> p ! r = r \<Longrightarrow> leads p r r"
| up: "x < length p \<Longrightarrow> p ! x \<noteq> x \<Longrightarrow> leads p (p ! x) r \<Longrightarrow> leads p x r"

inductive_cases leads_cases: "leads p x r"

lemma leads_root: "leads p x r \<Longrightarrow> r < length p \<and> p ! r = r"
  by (induction rule: leads.induct) auto

lemma leads_range: "leads p x r \<Longrightarrow> x < length p"
  by (induction rule: leads.induct) auto

lemma leads_unique: "leads p x r \<Longrightarrow> leads p x s \<Longrightarrow> s = r"
  by (induction rule: leads.induct) (auto elim: leads_cases)

definition same :: "dsu \<Rightarrow> nat \<Rightarrow> nat \<Rightarrow> bool" where
  "same d x y \<longleftrightarrow> (\<exists>r. leads (d_parent d) x r \<and> leads (d_parent d) y r)"

definition members :: "nat list \<Rightarrow> nat \<Rightarrow> nat set" where
  "members p r = {x. leads p x r}"

lemma members_sub: "members p r \<subseteq> {..<length p}"
  using leads_range by (auto simp: members_def)

lemma finite_members [simp]: "finite (members p r)"
  using finite_subset [OF members_sub] by simp

text \<open>Ranks grow along the parents, and a root of rank \<open>k\<close> has at least \<open>2 ^ k\<close> members.\<close>

definition dsu_ok :: "dsu \<Rightarrow> bool" where
  "dsu_ok d \<longleftrightarrow>
     d_n d < U32 \<and> length (d_parent d) = d_n d \<and> length (d_rank d) = d_n d \<and>
     (\<forall>x < d_n d. d_parent d ! x < d_n d \<and> (d_parent d ! x \<noteq> x \<longrightarrow> d_rank d ! x < d_rank d ! (d_parent d ! x))) \<and>
     (\<forall>r < d_n d. d_parent d ! r = r \<longrightarrow> 2 ^ unat (d_rank d ! r) \<le> card (members (d_parent d) r))"

lemma dsu_okD:
  assumes "dsu_ok d"
  shows "d_n d < U32" "length (d_parent d) = d_n d" "length (d_rank d) = d_n d"
    "\<And>x. x < d_n d \<Longrightarrow> d_parent d ! x < d_n d"
    "\<And>x. x < d_n d \<Longrightarrow> d_parent d ! x \<noteq> x \<Longrightarrow> d_rank d ! x < d_rank d ! (d_parent d ! x)"
    "\<And>r. r < d_n d \<Longrightarrow> d_parent d ! r = r \<Longrightarrow> 2 ^ unat (d_rank d ! r) \<le> card (members (d_parent d) r)"
  using assms by (auto simp: dsu_ok_def)

text \<open>Going up ends, for ranks are bytes.\<close>

lemma rank_induct [consumes 1, case_names less]:
  assumes "x < (n :: nat)" "\<And>x. x < n \<Longrightarrow> (\<And>y. y < n \<Longrightarrow> (rank ! x :: u8) < rank ! y \<Longrightarrow> P y) \<Longrightarrow> P x"
  shows "P x"
  using assms(1)
proof (induction "256 - unat (rank ! x)" arbitrary: x rule: less_induct)
  case less
  show ?case
  proof (rule assms(2) [OF less.prems])
    fix y
    assume "y < n" "rank ! x < rank ! y"
    then have "unat (rank ! x) < unat (rank ! y)" by (simp add: word_less_nat_alt)
    then have "256 - unat (rank ! y) < 256 - unat (rank ! x)" using unat_u8_less [of "rank ! x"] by (intro diff_less_mono2) simp_all
    then show "P y" using less.hyps \<open>y < n\<close> by blast
  qed
qed

lemma leads_total:
  assumes "dsu_ok d" "x < d_n d"
  shows "\<exists>r. leads (d_parent d) x r"
  using assms(2)
proof (induction x rule: rank_induct [where rank = "d_rank d"])
  case (less x)
  note k = dsu_okD [OF assms(1)]
  show ?case
  proof (cases "d_parent d ! x = x")
    case True
    then show ?thesis using less(1) k(2) leads.root [of x "d_parent d"] by auto
  next
    case False
    then obtain r where "leads (d_parent d) (d_parent d ! x) r" using less(2) [OF k(4) [OF less(1)] k(5) [OF less(1)]] by blast
    then show ?thesis using less(1) k(2) False leads.up [of x "d_parent d" r] by auto
  qed
qed

lemma rank_up2:
  assumes "dsu_ok d" "x < d_n d" "d_parent d ! x \<noteq> x"
  shows "d_rank d ! x < d_rank d ! (d_parent d ! (d_parent d ! x))" "d_parent d ! (d_parent d ! x) < d_n d"
proof -
  note k = dsu_okD [OF assms(1)]
  have px: "d_parent d ! x < d_n d" by (rule k(4) [OF assms(2)])
  then show "d_parent d ! (d_parent d ! x) < d_n d" by (rule k(4))
  show "d_rank d ! x < d_rank d ! (d_parent d ! (d_parent d ! x))"
  proof (cases "d_parent d ! (d_parent d ! x) = d_parent d ! x")
    case True
    then show ?thesis using k(5) [OF assms(2,3)] by simp
  next
    case False
    show ?thesis by (rule order_less_trans [OF k(5) [OF assms(2,3)] k(5) [OF px False]])
  qed
qed

section \<open>Halving a path\<close>

lemma halve_leads:
  assumes "dsu_ok d" "x < d_n d" "d_parent d ! x \<noteq> x" "p' = (d_parent d)[x := d_parent d ! (d_parent d ! x)]"
  shows "leads p' y r \<longleftrightarrow> leads (d_parent d) y r"
proof -
  let ?p = "d_parent d"
  note k = dsu_okD [OF assms(1)]
  have px: "?p ! x < d_n d" "?p ! (?p ! x) < d_n d" using k(4) assms(2) by blast+
  have "?p ! (?p ! x) \<noteq> x" using rank_up2(1) [OF assms(1-3)] by auto
  then have p': "length p' = length ?p" "p' ! x = ?p ! (?p ! x)" "p' ! x \<noteq> x" "\<And>z. z \<noteq> x \<Longrightarrow> p' ! z = ?p ! z"
    using assms(2,4) k(2) by auto
  have to: "leads p' y r" if "leads ?p y r" for y r
    using that
  proof (induction rule: leads.induct)
    case (root r)
    then show ?case using p' assms(3) by (metis leads.root)
  next
    case (up y r)
    show ?case
    proof (cases "y = x")
      case False
      then show ?thesis using up p' by (simp add: leads.up)
    next
      case True
      have "leads p' (p' ! x) r"
      proof (cases "?p ! (?p ! x) = ?p ! x")
        case True
        then show ?thesis using up.IH \<open>y = x\<close> p'(2) by simp
      next
        case False
        have e: "p' ! (?p ! x) = ?p ! (?p ! x)" using p'(4) assms(3) by blast
        have "leads p' (?p ! x) r" using up.IH \<open>y = x\<close> by simp
        then show ?thesis using e False p'(2) by (auto elim: leads_cases)
      qed
      then show ?thesis using True p'(1,3) assms(2) k(2) by (simp add: leads.up)
    qed
  qed
  show ?thesis
  proof
    assume l: "leads p' y r"
    then obtain s where s: "leads ?p y s" using leads_total [OF assms(1), of y] leads_range [OF l] p'(1) k(2) by auto
    then show "leads ?p y r" using leads_unique [OF l to [OF s]] by simp
  qed (rule to)
qed

lemma halve_ok:
  assumes "dsu_ok d" "x < d_n d" "d_parent d ! x \<noteq> x"
  shows "dsu_ok (d\<lparr>d_parent := (d_parent d)[x := d_parent d ! (d_parent d ! x)]\<rparr>)"
proof -
  let ?p = "d_parent d"
  let ?q = "?p[x := ?p ! (?p ! x)]"
  note k = dsu_okD [OF assms(1)]
  have l: "leads ?q y r = leads ?p y r" for y r by (rule halve_leads [OF assms refl])
  have px: "?p ! x < d_n d" "?p ! (?p ! x) < d_n d" using k(4) assms(2) by blast+
  have rank: "d_rank d ! x < d_rank d ! (?p ! (?p ! x))" by (rule rank_up2(1) [OF assms])
  have root: "?p ! r = r" if "r < d_n d" "?q ! r = r" for r
  proof -
    have "leads ?q r r" using that k(2) by (auto intro: leads.root)
    then show ?thesis using l leads_root by blast
  qed
  have up: "?q ! y < d_n d \<and> (?q ! y \<noteq> y \<longrightarrow> d_rank d ! y < d_rank d ! (?q ! y))" if "y < d_n d" for y
    using that k(2) k(4) [OF that] k(5) [OF that] px(2) rank by (cases "y = x") simp_all
  have "2 ^ unat (d_rank d ! r) \<le> card (members ?q r)" if "r < d_n d" "?q ! r = r" for r
    using k(6) [OF that(1) root [OF that]] by (simp add: members_def l)
  then show ?thesis using k(1-3) up by (simp add: dsu_ok_def)
qed

lemma dsu_find_spec:
  assumes "dsu_ok d" "x < d_n d"
  shows "\<exists>r d'. dsu_find d x = Some (r, d') \<and> leads (d_parent d) x r \<and> dsu_ok d' \<and> d_n d' = d_n d \<and> d_rank d' = d_rank d \<and>
    leads (d_parent d') = leads (d_parent d)"
proof -
  have "\<forall>d'. dsu_ok d' \<and> d_n d' = d_n d \<and> d_rank d' = d_rank d \<longrightarrow>
    (\<exists>r d''. dsu_find d' x = Some (r, d'') \<and> leads (d_parent d') x r \<and> dsu_ok d'' \<and> d_n d'' = d_n d' \<and> d_rank d'' = d_rank d' \<and>
      leads (d_parent d'') = leads (d_parent d'))"
    using assms(2)
  proof (induction x rule: rank_induct [where rank = "d_rank d"])
    case (less x)
    show ?case
    proof (intro allI impI, elim conjE)
      fix d'
      assume a: "dsu_ok d'" "d_n d' = d_n d" "d_rank d' = d_rank d"
      let ?p = "d_parent d'"
      note k = dsu_okD [OF a(1)]
      have x: "x < d_n d'" using less(1) a(2) by simp
      show "\<exists>r d''. dsu_find d' x = Some (r, d'') \<and> leads ?p x r \<and> dsu_ok d'' \<and> d_n d'' = d_n d' \<and> d_rank d'' = d_rank d' \<and>
          leads (d_parent d'') = leads ?p"
      proof (cases "?p ! x = x")
        case True
        then show ?thesis using x k(2) a(1) by (subst dsu_find.simps) (auto intro: leads.root)
      next
        case False
        let ?y = "?p ! (?p ! x)"
        let ?d = "d'\<lparr>d_parent := ?p[x := ?y]\<rparr>"
        have px: "?p ! x < d_n d'" "?y < d_n d'" using k(4) x by blast+
        have l: "leads (d_parent ?d) = leads ?p" using halve_leads [OF a(1) x False refl] by (intro ext) simp
        have rank: "d_rank d ! x < d_rank d ! ?y" using rank_up2(1) [OF a(1) x False] a(3) by simp
        have e: "dsu_find d' x = dsu_find ?d ?y"
          using x px(1) k(2) False by (subst dsu_find.simps) (simp add: Let_def)
        have yn: "?y < d_n d" using px(2) a(2) by simp
        have "dsu_ok ?d \<and> d_n ?d = d_n d \<and> d_rank ?d = d_rank d" using halve_ok [OF a(1) x False] a(2,3) by simp
        then obtain r d'' where h: "dsu_find ?d ?y = Some (r, d'')" "leads ?p ?y r" "dsu_ok d''" "d_n d'' = d_n d'"
          "d_rank d'' = d_rank d'" "leads (d_parent d'') = leads ?p"
          using less(2) [OF yn rank] l by auto
        have "leads ?p (?p ! x) r"
        proof (cases "?y = ?p ! x")
          case True
          then show ?thesis using h(2) by simp
        next
          case ne: False
          show ?thesis by (rule leads.up [OF _ ne h(2)]) (use px(1) k(2) in simp)
        qed
        then have "leads ?p x r" using x False k(2) by (auto intro: leads.up)
        then show ?thesis using e h by auto
      qed
    qed
  qed
  then show ?thesis using assms(1) by blast
qed

section \<open>Joining two sets\<close>

lemma link_leads:
  assumes "dsu_ok d" "hi < d_n d" "d_parent d ! hi = hi" "lo < d_n d" "d_parent d ! lo = lo" "hi \<noteq> lo"
    "p' = (d_parent d)[lo := hi]"
  shows "leads p' y r \<longleftrightarrow> (\<exists>s. leads (d_parent d) y s \<and> r = (if s = lo then hi else s))"
proof -
  let ?p = "d_parent d"
  note k = dsu_okD [OF assms(1)]
  have p': "length p' = length ?p" "p' ! lo = hi" "\<And>z. z \<noteq> lo \<Longrightarrow> p' ! z = ?p ! z" using assms(4,7) k(2) by auto
  have hi: "leads p' hi hi" by (rule leads.root) (use p' assms(2,3,6) k(2) in simp_all)
  have to: "leads p' y (if s = lo then hi else s)" if "leads ?p y s" for y s
    using that
  proof (induction rule: leads.induct)
    case (root r)
    then show ?case
    proof (cases "r = lo")
      case True
      then show ?thesis using p' assms(6) hi root leads.up [of lo p' hi] by simp
    next
      case False
      then show ?thesis using p' root leads.root [of r p'] by simp
    qed
  next
    case (up y s)
    then have "y \<noteq> lo" using assms(5) by auto
    then show ?case using up p' leads.up [of y p'] by simp
  qed
  show ?thesis
  proof
    assume l: "leads p' y r"
    then obtain s where s: "leads ?p y s" using leads_total [OF assms(1), of y] leads_range [OF l] p'(1) k(2) by auto
    then show "\<exists>s. leads ?p y s \<and> r = (if s = lo then hi else s)" using leads_unique [OF to [OF s] l] by auto
  qed (use to in auto)
qed

lemma root_rank_small:
  assumes "dsu_ok d" "r < d_n d" "d_parent d ! r = r"
  shows "unat (d_rank d ! r) \<le> 31"
proof -
  note k = dsu_okD [OF assms(1)]
  have "(2 :: nat) ^ unat (d_rank d ! r) \<le> card (members (d_parent d) r)" by (rule k(6) [OF assms(2,3)])
  also have "\<dots> \<le> card {..<d_n d}" using members_sub [of "d_parent d" r] k(2) by (intro card_mono) auto
  also have "\<dots> < 2 ^ 32" using k(1) by simp
  finally have "unat (d_rank d ! r) < 32" by (rule power_less_imp_less_exp [rotated]) simp
  then show ?thesis by simp
qed

lemma link_ok:
  assumes "dsu_ok d" "hi < d_n d" "d_parent d ! hi = hi" "lo < d_n d" "d_parent d ! lo = lo" "hi \<noteq> lo"
    "d_rank d ! lo \<le> d_rank d ! hi"
  shows "dsu_ok (dsu_link d hi lo)"
proof -
  let ?p = "d_parent d" and ?d = "dsu_link d hi lo" and ?R = "d_rank d"
  let ?q = "?p[lo := hi]"
  note k = dsu_okD [OF assms(1)]
  have small: "unat (?R ! hi) \<le> 31" by (rule root_rank_small [OF assms(1-3)])
  then have inc: "unat (?R ! hi + 1) = unat (?R ! hi) + 1" by (simp add: unat_plus_if_size word_size)
  have dl: "d_parent ?d = ?q" "d_n ?d = d_n d" "d_rank ?d = (if ?R ! hi = ?R ! lo then ?R[hi := ?R ! hi + 1] else ?R)"
    by (simp_all add: dsu_link_def Let_def)
  have l: "leads ?q y r \<longleftrightarrow> (\<exists>s. leads ?p y s \<and> r = (if s = lo then hi else s))" for y r
    by (rule link_leads [OF assms(1-6) refl])
  have rk: "d_rank ?d ! x = (if x = hi \<and> ?R ! hi = ?R ! lo then ?R ! hi + 1 else ?R ! x)" if "x < d_n d" for x
    using that k(3) by (simp add: dl(3))
  have le: "?R ! x \<le> d_rank ?d ! x" if "x < d_n d" for x
  proof -
    have "?R ! hi \<le> ?R ! hi + 1" using inc by (simp add: word_le_nat_alt)
    then show ?thesis using rk [OF that] by auto
  qed
  have lt: "?R ! lo < d_rank ?d ! hi" 
  proof (cases "?R ! hi = ?R ! lo")
    case True
    then show ?thesis using rk [OF assms(2)] inc by (simp add: word_less_nat_alt)
  next
    case False
    then show ?thesis using rk [OF assms(2)] assms(7) by simp
  qed
  have up: "?q ! x < d_n d \<and> (?q ! x \<noteq> x \<longrightarrow> d_rank ?d ! x < d_rank ?d ! (?q ! x))" if x: "x < d_n d" for x
  proof (cases "x = lo")
    case True
    then show ?thesis using lt rk [OF assms(4)] assms(2,4,6) k(2) by simp
  next
    case False
    then have q: "?q ! x = ?p ! x" by simp
    have "d_rank ?d ! x < d_rank ?d ! (?p ! x)" if "?p ! x \<noteq> x"
    proof -
      have "x \<noteq> hi" using that assms(3) by auto
      then have "d_rank ?d ! x = ?R ! x" using rk [OF x] by simp
      then show ?thesis using k(5) [OF x that] le [OF k(4) [OF x]] by simp
    qed
    then show ?thesis using q k(4) [OF x] by simp
  qed
  have "2 ^ unat (d_rank ?d ! r) \<le> card (members ?q r)" if r: "r < d_n d" "?q ! r = r" for r
  proof (cases "r = hi")
    case True
    have "members ?q hi = members ?p hi \<union> members ?p lo" using l assms(6) by (auto simp: members_def)
    moreover have "members ?p hi \<inter> members ?p lo = {}" using leads_unique assms(6) by (auto simp: members_def)
    ultimately have c: "card (members ?q hi) = card (members ?p hi) + card (members ?p lo)" by (simp add: card_Un_disjoint)
    have "2 ^ unat (?R ! hi) \<le> card (members ?p hi)" "2 ^ unat (?R ! lo) \<le> card (members ?p lo)"
      using k(6) assms(2-5) by blast+
    then show ?thesis using c rk [OF r(1)] inc True by auto
  next
    case False
    then have "r \<noteq> lo" using r(2) assms(4,6) k(2) by auto
    then have "?p ! r = r" "members ?q r = members ?p r" using r(2) l False by (auto simp: members_def)
    then show ?thesis using k(6) [OF r(1)] rk [OF r(1)] False by simp
  qed
  moreover have "length (d_rank ?d) = d_n d" using k(3) by (simp add: dl(3))
  ultimately show ?thesis using k(1,2) up by (simp add: dsu_ok_def dl(1,2))
qed

lemma dsu_find_roots:
  assumes "dsu_ok d" "a < d_n d" "b < d_n d"
  shows "\<exists>ra d1 rb d2. dsu_find d a = Some (ra, d1) \<and> dsu_find d1 b = Some (rb, d2) \<and> dsu_ok d2 \<and> d_n d2 = d_n d \<and>
    leads (d_parent d2) = leads (d_parent d) \<and> leads (d_parent d) a ra \<and> leads (d_parent d) b rb"
proof -
  obtain ra d1 where 1: "dsu_find d a = Some (ra, d1)" "leads (d_parent d) a ra" "dsu_ok d1" "d_n d1 = d_n d"
    "leads (d_parent d1) = leads (d_parent d)" using dsu_find_spec [OF assms(1,2)] by blast
  have "b < d_n d1" using 1(4) assms(3) by simp
  then obtain rb d2 where "dsu_find d1 b = Some (rb, d2)" "leads (d_parent d1) b rb" "dsu_ok d2" "d_n d2 = d_n d1"
    "leads (d_parent d2) = leads (d_parent d1)" using dsu_find_spec [OF 1(3)] by blast
  then show ?thesis using 1 by auto
qed

lemma same_leads: "leads (d_parent d) x r \<Longrightarrow> leads (d_parent d) y s \<Longrightarrow> same d x y \<longleftrightarrow> r = s"
  unfolding same_def by (metis leads_unique)

lemma same_sym: "same d x y \<Longrightarrow> same d y x"
  by (auto simp: same_def)

lemma same_trans: "same d x y \<Longrightarrow> same d y z \<Longrightarrow> same d x z"
  unfolding same_def by (metis leads_unique)

lemma dsu_union_spec:
  assumes "dsu_ok d" "a < d_n d" "b < d_n d"
  shows "\<exists>d'. dsu_union d a b = Some d' \<and> dsu_ok d' \<and> d_n d' = d_n d \<and>
    (\<forall>x y. x < d_n d \<longrightarrow> y < d_n d \<longrightarrow> same d' x y = (same d x y \<or> same d x a \<and> same d b y \<or> same d x b \<and> same d a y))"
proof -
  obtain ra d1 rb d2 where f: "dsu_find d a = Some (ra, d1)" "dsu_find d1 b = Some (rb, d2)" "dsu_ok d2" "d_n d2 = d_n d"
    "leads (d_parent d2) = leads (d_parent d)" "leads (d_parent d) a ra" "leads (d_parent d) b rb"
    using dsu_find_roots [OF assms] by blast
  have sd: "same d2 = same d" using f(5) by (intro ext) (simp add: same_def)
  note k = dsu_okD [OF f(3)]
  have roots: "ra < d_n d2" "d_parent d2 ! ra = ra" "rb < d_n d2" "d_parent d2 ! rb = rb"
    using leads_root [of "d_parent d2" a ra] leads_root [of "d_parent d2" b rb] f(5-7) k(2) by simp_all
  show ?thesis
  proof (cases "ra = rb")
    case True
    then have "dsu_union d a b = Some d2" using f(1,2) by (simp add: dsu_union_def)
    moreover have ab: "same d a b" using f(6,7) True by (auto simp: same_def)
    have j: "same d x y" if "same d x a \<and> same d b y \<or> same d x b \<and> same d a y" for x y
      using that same_trans [OF same_trans [OF _ ab], of x y] same_trans [OF same_trans [OF _ same_sym [OF ab]], of x y] by blast
    have "same d2 x y = (same d x y \<or> same d x a \<and> same d b y \<or> same d x b \<and> same d a y)" for x y
      unfolding sd using j [of x y] by blast
    ultimately show ?thesis using f(3,4) by blast
  next
    case False
    define hi lo where "hi = (if d_rank d2 ! ra < d_rank d2 ! rb then rb else ra)"
      and "lo = (if d_rank d2 ! ra < d_rank d2 ! rb then ra else rb)"
    have hl: "hi < d_n d2" "d_parent d2 ! hi = hi" "lo < d_n d2" "d_parent d2 ! lo = lo" "hi \<noteq> lo" "d_rank d2 ! lo \<le> d_rank d2 ! hi"
      "{hi, lo} = {ra, rb}"
      using roots False by (auto simp: hi_def lo_def)
    let ?d = "dsu_link d2 hi lo"
    have "dsu_union d a b = Some ?d"
      using f(1,2) False roots k(3) by (simp add: dsu_union_def hi_def lo_def)
    moreover have "dsu_ok ?d" by (rule link_ok [OF f(3) hl(1-6)])
    moreover have "d_n ?d = d_n d" using f(4) by (simp add: dsu_link_def Let_def)
    moreover have "same ?d x y = (same d x y \<or> same d x a \<and> same d b y \<or> same d x b \<and> same d a y)"
      if xy: "x < d_n d" "y < d_n d" for x y
    proof -
      obtain r s where rs: "leads (d_parent d) x r" "leads (d_parent d) y s"
        using leads_total [OF assms(1) xy(1)] leads_total [OF assms(1) xy(2)] by blast
      have "leads (d_parent ?d) z (if t = lo then hi else t)" if "leads (d_parent d) z t" for z t
        using link_leads [OF f(3) hl(1-5) refl, of z] that f(5) by (auto simp: dsu_link_def Let_def)
      then have "same ?d x y \<longleftrightarrow> (if r = lo then hi else r) = (if s = lo then hi else s)"
        using rs by (intro same_leads) blast+
      also have "\<dots> \<longleftrightarrow> r = s \<or> r = ra \<and> s = rb \<or> r = rb \<and> s = ra" using hl(5,7) by (auto simp: doubleton_eq_iff)
      finally show ?thesis using same_leads [OF rs] same_leads [OF rs(1) f(6)] same_leads [OF f(7) rs(2)]
          same_leads [OF rs(1) f(7)] same_leads [OF f(6) rs(2)] by auto
    qed
    ultimately show ?thesis by blast
  qed
qed

text \<open>
  C32: a disjoint-set forest is a partition of the numbers below \<open>n\<close>. Looking up returns, however the paths run: the same root for
  two numbers exactly when they are in one set; \<open>dsu_connected\<close> says so and keeps the partition although it moves nodes;
  \<open>dsu_union\<close> joins the two sets and no others; no rank of a root passes 31, so the bytes never wrap.
\<close>

theorem dsu_refines_partition:
  assumes "dsu_ok d" "a < d_n d" "b < d_n d"
  shows "(\<exists>d'. dsu_connected d a b = Some (same d a b, d') \<and> dsu_ok d' \<and> d_n d' = d_n d \<and> same d' = same d) \<and>
    (\<exists>d'. dsu_union d a b = Some d' \<and> dsu_ok d' \<and> d_n d' = d_n d \<and>
      (\<forall>x y. x < d_n d \<longrightarrow> y < d_n d \<longrightarrow> same d' x y = (same d x y \<or> same d x a \<and> same d b y \<or> same d x b \<and> same d a y))) \<and>
    (d_parent d ! a = a \<longrightarrow> unat (d_rank d ! a) \<le> 31)"
proof (intro conjI impI)
  obtain ra d1 rb d2 where f: "dsu_find d a = Some (ra, d1)" "dsu_find d1 b = Some (rb, d2)" "dsu_ok d2" "d_n d2 = d_n d"
    "leads (d_parent d2) = leads (d_parent d)" "leads (d_parent d) a ra" "leads (d_parent d) b rb"
    using dsu_find_roots [OF assms] by blast
  have "same d2 = same d" using f(5) by (intro ext) (simp add: same_def)
  then show "\<exists>d'. dsu_connected d a b = Some (same d a b, d') \<and> dsu_ok d' \<and> d_n d' = d_n d \<and> same d' = same d"
    using f same_leads [OF f(6,7)] by (auto simp: dsu_connected_def)
qed (use dsu_union_spec [OF assms] root_rank_small [OF assms(1,2)] in blast)+

definition dsu_four :: dsu where
  "dsu_four = \<lparr>d_parent = [0, 1, 2, 3], d_rank = [0, 0, 0, 0], d_n = 4\<rparr>"

lemma dsu_four_ok: "dsu_ok dsu_four"
proof -
  have "card (members [0, 1, 2, 3] r) \<ge> 1" if "r < 4" "[0, 1, 2, 3] ! r = r" for r
  proof -
    have "leads [0, 1, 2, 3] r r" using that by (auto intro: leads.root)
    then have "r \<in> members [0, 1, 2, 3] r" by (simp add: members_def)
    then show ?thesis using finite_members card_gt_0_iff by (metis One_nat_def Suc_leI empty_iff)
  qed
  moreover have "x < 4 \<Longrightarrow> [0, 0, 0, 0 :: u8] ! x = 0" for x :: nat
    by (cases x) (auto simp: nth_Cons numeral_eq_Suc less_Suc_eq split: nat.splits)
  moreover have "x < 4 \<Longrightarrow> [0, 1, 2, 3] ! x = x" for x :: nat
    by (cases x) (auto simp: nth_Cons numeral_eq_Suc less_Suc_eq split: nat.splits)
  ultimately show ?thesis by (auto simp: dsu_ok_def dsu_four_def)
qed

theorem dsu_refines_partition_witness:
  "\<exists>d'. dsu_init [9, 9, 9, 9] [7, 7, 7, 7] 4 = Some dsu_four \<and> dsu_union dsu_four 1 3 = Some d' \<and> dsu_ok d'"
proof -
  have "dsu_init [9, 9, 9, 9] [7, 7, 7, 7] 4 = Some dsu_four" by (simp add: dsu_init_def dsu_four_def upt_rec numeral_eq_Suc)
  then show ?thesis using dsu_refines_partition [OF dsu_four_ok, of 1 3] by (auto simp: dsu_four_def)
qed

end
