(* ===== verification/Sort_Stable.thy ===== *)
theory Sort_Stable
  imports Prelude
begin

text \<open>
  \<open>src/ceres/sort.c\<close>: the stable bottom-up merge sort. An array is the list of its elements, a pointer into it an index; the
  copies of elements by words or by bytes are copies of elements. A loop whose counter wraps for ever is \<open>None\<close>.
\<close>

section \<open>The sort\<close>

definition RUN :: nat where "RUN = 8"

text \<open>The place for \<open>hold\<close> among the first \<open>j\<close> elements.\<close>

fun slide :: "'a comparator \<Rightarrow> 'a list \<Rightarrow> 'a \<Rightarrow> nat \<Rightarrow> nat" where
  "slide cmp a hold 0 = 0"
| "slide cmp a hold (Suc j) = (if 0 < cmp (a ! j) hold then slide cmp a hold j else Suc j)"

definition insertion_step :: "'a comparator \<Rightarrow> nat \<Rightarrow> 'a list \<Rightarrow> 'a list" where
  "insertion_step cmp i a =
     (if cmp (a ! (i - 1)) (a ! i) \<le> 0 then a
      else let hold = a ! i; j = slide cmp a hold i
           in (take (j + 1) a @ take (i - j) (drop j a) @ drop (i + 1) a)[j := hold])"

definition insertion_run :: "'a comparator \<Rightarrow> 'a list \<Rightarrow> 'a list" where
  "insertion_run cmp a = fold (insertion_step cmp) [1..<length a] a"

function merge_loop :: "'a comparator \<Rightarrow> 'a list \<Rightarrow> 'a list \<Rightarrow> nat \<Rightarrow> nat \<Rightarrow> nat \<Rightarrow> nat \<Rightarrow> nat \<Rightarrow> 'a list" where
  "merge_loop cmp dst src a mid b hi out =
     (if a < mid \<and> b < hi then
        if cmp (src ! a) (src ! b) \<le> 0 then merge_loop cmp (dst[out := src ! a]) src (a + 1) mid b hi (out + 1)
        else merge_loop cmp (dst[out := src ! b]) src a mid (b + 1) hi (out + 1)
      else if a < mid then take out dst @ take (mid - a) (drop a src) @ drop (out + (mid - a)) dst
      else if b < hi then take out dst @ take (hi - b) (drop b src) @ drop (out + (hi - b)) dst
      else dst)"
  by pat_completeness auto
termination by (relation "measure (\<lambda>(cmp, dst, src, a, mid, b, hi, out). (mid - a) + (hi - b))") auto

declare merge_loop.simps [simp del]

text \<open>\<open>merge\<close>: the runs \<open>[lo, mid)\<close> and \<open>[mid, hi)\<close> of \<open>src\<close> into \<open>dst\<close>.\<close>

definition merge_runs :: "'a comparator \<Rightarrow> 'a list \<Rightarrow> 'a list \<Rightarrow> nat \<Rightarrow> nat \<Rightarrow> nat \<Rightarrow> 'a list" where
  "merge_runs cmp dst src lo mid hi =
     (if cmp (src ! (mid - 1)) (src ! mid) \<le> 0
      then take lo dst @ take (hi - lo) (drop lo src) @ drop hi dst
      else merge_loop cmp dst src lo mid mid hi lo)"

partial_function (option) sort_runs :: "'a comparator \<Rightarrow> 'a list \<Rightarrow> nat \<Rightarrow> 'a list option" where
  "sort_runs cmp a lo =
     (if lo < length a then
        let k = min (length a - lo) RUN
        in sort_runs cmp (take lo a @ insertion_run cmp (take k (drop lo a)) @ drop (lo + k) a) (add32 lo RUN)
      else Some a)"

partial_function (option) merge_pass :: "'a comparator \<Rightarrow> nat \<Rightarrow> 'a list \<Rightarrow> 'a list \<Rightarrow> nat \<Rightarrow> 'a list option" where
  "merge_pass cmp width dst src lo =
     (let n = length src
      in if lo < n then
           let mid = (if add32 lo width < n then add32 lo width else n);
               hi = (if add32 lo (mul32 2 width) < n then add32 lo (mul32 2 width) else n);
               dst = (if mid < hi then merge_runs cmp dst src lo mid hi
                      else take lo dst @ take (hi - lo) (drop lo src) @ drop hi dst)
           in merge_pass cmp width dst src (add32 lo (mul32 2 width))
         else Some dst)"

text \<open>The passes, the two arrays changing roles; \<open>swapped\<close> tells that \<open>src\<close> is the buffer.\<close>

partial_function (option) merge_passes :: "'a comparator \<Rightarrow> nat \<Rightarrow> 'a list \<Rightarrow> 'a list \<Rightarrow> bool \<Rightarrow> ('a list \<times> bool) option" where
  "merge_passes cmp width src dst swapped =
     (if width < length src then
        Option.bind (merge_pass cmp width dst src 0) (\<lambda>dst. merge_passes cmp (mul32 width 2) dst src (\<not> swapped))
      else Some (src, swapped))"

text \<open>
  \<open>sort_stable\<close> on the elements \<open>xs\<close> of \<open>sz\<close> bytes. \<open>junk\<close> is what the buffer from \<open>malloc\<close> holds. When the last pass
  left the result in the buffer it is copied back: either way the array holds it.
\<close>

definition sort_stable :: "allocs \<Rightarrow> 'a list \<Rightarrow> 'a list \<Rightarrow> nat \<Rightarrow> 'a comparator \<Rightarrow> ('a list \<times> int) option" where
  "sort_stable al junk xs sz cmp =
     (if length xs < 2 \<or> sz = 0 then Some (xs, 0)
      else if UINT_MAX div sz - 1 < length xs then Some (xs, -1)
      else if \<not> al 0 then Some (xs, -1)
      else Option.bind (sort_runs cmp xs 0)
             (\<lambda>a. Option.bind (merge_passes cmp RUN a (take (length xs) junk) False) (\<lambda>(res, swapped). Some (res, 0))))"

section \<open>Stable rearrangement\<close>

text \<open>Elements that compare equal keep their order.\<close>

definition stable_perm :: "'a comparator \<Rightarrow> 'a list \<Rightarrow> 'a list \<Rightarrow> bool" where
  "stable_perm cmp xs ys \<longleftrightarrow> mset ys = mset xs \<and> (\<forall>x. filter (\<lambda>y. cmp x y = 0) ys = filter (\<lambda>y. cmp x y = 0) xs)"

lemma stable_perm_refl [simp]: "stable_perm cmp xs xs"
  by (simp add: stable_perm_def)

lemma stable_perm_trans: "stable_perm cmp xs ys \<Longrightarrow> stable_perm cmp ys zs \<Longrightarrow> stable_perm cmp xs zs"
  by (simp add: stable_perm_def)

lemma stable_perm_append: "stable_perm cmp xs ys \<Longrightarrow> stable_perm cmp us vs \<Longrightarrow> stable_perm cmp (xs @ us) (ys @ vs)"
  by (simp add: stable_perm_def)

lemma stable_perm_length: "stable_perm cmp xs ys \<Longrightarrow> length ys = length xs"
  by (auto simp: stable_perm_def dest: mset_eq_length)

lemma stable_perm_set: "stable_perm cmp xs ys \<Longrightarrow> set ys = set xs"
  by (auto simp: stable_perm_def dest: mset_eq_setD)

text \<open>The merge of two lists.\<close>

fun fmerge :: "'a comparator \<Rightarrow> 'a list \<Rightarrow> 'a list \<Rightarrow> 'a list" where
  "fmerge cmp [] ys = ys"
| "fmerge cmp xs [] = xs"
| "fmerge cmp (x # xs) (y # ys) = (if cmp x y \<le> 0 then x # fmerge cmp xs (y # ys) else y # fmerge cmp (x # xs) ys)"

lemma mset_fmerge: "mset (fmerge cmp xs ys) = mset xs + mset ys"
  by (induction cmp xs ys rule: fmerge.induct) auto

lemma set_fmerge: "set (fmerge cmp xs ys) = set xs \<union> set ys"
  by (metis mset_fmerge set_mset_mset set_mset_union)

lemma length_fmerge [simp]: "length (fmerge cmp xs ys) = length xs + length ys"
  by (metis mset_fmerge size_mset size_union)

lemma fmerge_Nil2 [simp]: "fmerge cmp xs [] = xs"
  by (cases xs) auto

context total_cmp
begin

lemma fmerge_sorted: "cmp_sorted cmp xs \<Longrightarrow> cmp_sorted cmp ys \<Longrightarrow> cmp_sorted cmp (fmerge cmp xs ys)"
proof (induction xs arbitrary: ys)
  case (Cons x xs)
  note outer = Cons.IH and sx = Cons.prems(1)
  from Cons.prems(2) show ?case
  proof (induction ys)
    case (Cons y ys)
    show ?case
    proof (cases "cmp x y \<le> 0")
      case True
      then have "\<forall>z \<in> set (y # ys). cmp x z \<le> 0" using Cons.prems cmp_trans by auto
      then show ?thesis using True Cons.prems sx outer [of "y # ys"] by (auto simp: set_fmerge)
    next
      case False
      then have "cmp y x \<le> 0" using cmp_total by auto
      then have "\<forall>z \<in> set (x # xs). cmp y z \<le> 0" using sx cmp_trans by auto
      then show ?thesis using False Cons.prems Cons.IH by (auto simp: set_fmerge)
    qed
  qed (use sx in simp)
qed simp

text \<open>Taking from the right run passes no element equal to the one taken.\<close>

lemma none_equal:
  assumes "\<forall>z \<in> set xs. cmp y z < 0" "cmp x y = 0"
  shows "filter (\<lambda>z. cmp x z = 0) xs = []"
  using assms cmp_eq_less_cong by (auto simp: filter_empty_conv) (metis cmp_refl cmp_eq_sym cmp_eq_eq_cong order_less_irrefl)

lemma filter_fmerge:
  "cmp_sorted cmp xs \<Longrightarrow>
    filter (\<lambda>z. cmp w z = 0) (fmerge cmp xs ys) = filter (\<lambda>z. cmp w z = 0) xs @ filter (\<lambda>z. cmp w z = 0) ys"
proof (induction xs arbitrary: ys)
  case (Cons x xs)
  note outer = Cons.IH and sx = Cons.prems
  show ?case
  proof (induction ys)
    case (Cons y ys)
    show ?case
    proof (cases "cmp x y \<le> 0")
      case True
      then show ?thesis using sx outer [of "y # ys"] by simp
    next
      case False
      then have "cmp y x < 0" using cmp_sym by auto
      then have "\<forall>z \<in> set (x # xs). cmp y z < 0" using sx cmp_less_trans by auto
      then have "cmp w y = 0 \<Longrightarrow> filter (\<lambda>z. cmp w z = 0) (x # xs) = []" by (rule none_equal)
      then show ?thesis using False Cons.IH by (cases "cmp w y = 0") auto
    qed
  qed simp
qed simp

lemma fmerge_stable: "cmp_sorted cmp xs \<Longrightarrow> stable_perm cmp (xs @ ys) (fmerge cmp xs ys)"
  by (simp add: stable_perm_def mset_fmerge filter_fmerge)

lemma fmerge_in_order:
  "cmp_sorted cmp xs \<Longrightarrow> cmp_sorted cmp ys \<Longrightarrow> xs \<noteq> [] \<Longrightarrow> ys \<noteq> [] \<Longrightarrow> cmp (last xs) (hd ys) \<le> 0 \<Longrightarrow> fmerge cmp xs ys = xs @ ys"
proof (induction xs)
  case (Cons x xs)
  obtain y zs where y: "ys = y # zs" using Cons.prems(4) by (cases ys) auto
  show ?case
  proof (cases "xs = []")
    case True
    then show ?thesis using Cons.prems y by simp
  next
    case False
    then have "cmp x (last xs) \<le> 0" using Cons.prems(1) by simp
    then have "cmp x y \<le> 0" using Cons.prems(5) False y cmp_trans by auto
    then show ?thesis using Cons False y by simp
  qed
qed simp

section \<open>Insertion\<close>

lemma slide_spec:
  assumes "j \<le> length a" "cmp_sorted cmp (take j a)"
  shows "slide cmp a hold j \<le> j \<and> (\<forall>z \<in> set (take (slide cmp a hold j) a). cmp z hold \<le> 0) \<and>
    (\<forall>z \<in> set (take (j - slide cmp a hold j) (drop (slide cmp a hold j) a)). cmp hold z < 0)"
  using assms
proof (induction j)
  case (Suc j)
  have t: "take (Suc j) a = take j a @ [a ! j]" using Suc.prems(1) by (simp add: take_Suc_conv_app_nth)
  have s: "cmp_sorted cmp (take j a)" "\<forall>z \<in> set (take j a). cmp z (a ! j) \<le> 0"
    using Suc.prems(2) by (simp_all add: t cmp_sorted_append)
  show ?case
  proof (cases "0 < cmp (a ! j) hold")
    case True
    let ?k = "slide cmp a hold j"
    have ih: "?k \<le> j" "\<forall>z \<in> set (take ?k a). cmp z hold \<le> 0" "\<forall>z \<in> set (take (j - ?k) (drop ?k a)). cmp hold z < 0"
      using Suc.IH s(1) Suc.prems(1) by auto
    have "take (Suc j - ?k) (drop ?k a) = take (j - ?k) (drop ?k a) @ [a ! j]"
      using ih(1) Suc.prems(1) by (simp add: Suc_diff_le take_Suc_conv_app_nth)
    then show ?thesis using True ih cmp_sym by auto
  next
    case False
    then have "cmp (a ! j) hold \<le> 0" by simp
    then have "\<forall>z \<in> set (take (Suc j) a). cmp z hold \<le> 0" using s(2) cmp_trans by (auto simp: t)
    then show ?thesis using False by simp
  qed
qed simp

lemma insertion_step_spec:
  assumes "0 < i" "i < length a" "cmp_sorted cmp (take i a)"
  shows "cmp_sorted cmp (take (Suc i) (insertion_step cmp i a)) \<and> stable_perm cmp a (insertion_step cmp i a)"
proof -
  have t: "take (Suc i) a = take i a @ [a ! i]" using assms(2) by (simp add: take_Suc_conv_app_nth)
  show ?thesis
  proof (cases "cmp (a ! (i - 1)) (a ! i) \<le> 0")
    case True
    have "take i a = take (i - 1) a @ [a ! (i - 1)]" using assms(1,2) take_Suc_conv_app_nth [of "i - 1" a] by simp
    then have "\<forall>z \<in> set (take i a). cmp z (a ! i) \<le> 0"
      using assms(3) True cmp_trans by (auto simp: cmp_sorted_append)
    then show ?thesis using True assms(3) by (simp add: insertion_step_def t cmp_sorted_append)
  next
    case False
    define h where "h = a ! i"
    define j where "j = slide cmp a h i"
    have j: "j \<le> i" "\<forall>z \<in> set (take j a). cmp z h \<le> 0" "\<forall>z \<in> set (take (i - j) (drop j a)). cmp h z < 0"
      using slide_spec [of i a h] assms(2,3) by (simp_all add: j_def)
    let ?A = "take j a" and ?B = "take (i - j) (drop j a)" and ?C = "drop (Suc i) a"
    have a: "a = ?A @ ?B @ h # ?C"
      using j(1) assms(2) by (metis h_def append.assoc id_take_nth_drop le_add_diff_inverse take_add)
    have ti: "take i a = ?A @ ?B" using j(1) by (metis le_add_diff_inverse take_add)
    have "take (j + 1) a @ ?B @ ?C = ?A @ a ! j # ?B @ ?C" using j(1) assms(2) by (simp add: take_Suc_conv_app_nth)
    then have "(take (j + 1) a @ ?B @ ?C)[j := h] = ?A @ h # ?B @ ?C"
      using j(1) assms(2) by (simp add: list_update_append)
    then have r: "insertion_step cmp i a = ?A @ h # ?B @ ?C"
      using False by (simp add: insertion_step_def Let_def h_def [symmetric] j_def [symmetric])
    have s: "cmp_sorted cmp ?A" "cmp_sorted cmp ?B" "\<forall>x \<in> set ?A. \<forall>y \<in> set ?B. cmp x y \<le> 0"
      using assms(3) unfolding ti by (simp_all add: cmp_sorted_append)
    have "length (?A @ h # ?B) = Suc i" using j(1) assms(2) by simp
    then have "take (Suc i) (?A @ h # ?B @ ?C) = ?A @ h # ?B" by (metis append_Cons append_assoc append_eq_conv_conj)
    moreover have "cmp_sorted cmp (?A @ h # ?B)" using s j(2,3) by (auto simp: cmp_sorted_append intro: less_imp_le)
    moreover have "stable_perm cmp (?A @ ?B @ h # ?C) (?A @ h # ?B @ ?C)"
    proof -
      have "filter (\<lambda>z. cmp w z = 0) ?B = []" if "cmp w h = 0" for w by (rule none_equal [OF j(3) that])
      then show ?thesis by (auto simp: stable_perm_def)
    qed
    ultimately show ?thesis using r a by simp
  qed
qed

lemma insertion_run_spec: "cmp_sorted cmp (insertion_run cmp a) \<and> stable_perm cmp a (insertion_run cmp a)"
proof -
  have "cmp_sorted cmp (take (max 1 k) (fold (insertion_step cmp) [1..<k] a)) \<and> stable_perm cmp a (fold (insertion_step cmp) [1..<k] a)"
    if "k \<le> length a" for k
    using that
  proof (induction k)
    case 0
    then show ?case by (cases a) simp_all
  next
    case (Suc k)
    show ?case
    proof (cases "k = 0")
      case True
      then show ?thesis by (cases a) simp_all
    next
      case False
      let ?b = "fold (insertion_step cmp) [1..<k] a"
      have b: "cmp_sorted cmp (take k ?b)" "stable_perm cmp a ?b" using Suc False by (simp_all add: max_def split: if_splits)
      have "k < length ?b" using stable_perm_length [OF b(2)] Suc.prems by simp
      then show ?thesis using insertion_step_spec [of k ?b] b False stable_perm_trans [OF b(2)] by (simp add: max_def)
    qed
  qed
  from this [of "length a"] show ?thesis unfolding insertion_run_def
    using stable_perm_length [of cmp a "fold (insertion_step cmp) [1..<length a] a"] by simp
qed

end

section \<open>Merging in arrays\<close>

lemma seg_Cons: "a < m \<Longrightarrow> m \<le> length xs \<Longrightarrow> take (m - a) (drop a xs) = xs ! a # take (m - Suc a) (drop (Suc a) xs)"
  by (metis Cons_nth_drop_Suc Suc_diff_Suc order_less_le_trans take_Suc_Cons)

lemma take_Suc_stored: "out < length dst \<Longrightarrow> take (Suc out) (dst[out := x]) @ ys = take out dst @ x # ys"
  by (simp add: take_Suc_conv_app_nth)

lemma merge_loop_spec:
  "a \<le> mid \<Longrightarrow> mid \<le> length src \<Longrightarrow> b \<le> hi \<Longrightarrow> hi \<le> length src \<Longrightarrow> out + (mid - a) + (hi - b) \<le> length dst \<Longrightarrow>
   merge_loop cmp dst src a mid b hi out =
     take out dst @ fmerge cmp (take (mid - a) (drop a src)) (take (hi - b) (drop b src)) @ drop (out + (mid - a) + (hi - b)) dst"
proof (induction cmp dst src a mid b hi out rule: merge_loop.induct)
  case (1 cmp dst src a mid b hi out)
  let ?L = "take (mid - a) (drop a src)" and ?R = "take (hi - b) (drop b src)"
  show ?case
  proof (cases "a < mid \<and> b < hi")
    case True
    then have l: "?L = src ! a # take (mid - Suc a) (drop (Suc a) src)" "?R = src ! b # take (hi - Suc b) (drop (Suc b) src)"
      using "1.prems"(2,4) by (simp_all add: seg_Cons)
    have lt: "out < length dst" using "1.prems"(5) True by linarith
    have d: "drop (out + (mid - a) + (hi - b)) (dst[out := x]) = drop (out + (mid - a) + (hi - b)) dst" for x
      by (rule drop_update_cancel) (use True in linarith)
    show ?thesis
    proof (cases "cmp (src ! a) (src ! b) \<le> 0")
      case le: True
      have e: "Suc out + (mid - Suc a) + (hi - b) = out + (mid - a) + (hi - b)" using True by linarith
      have "merge_loop cmp dst src a mid b hi out = take (Suc out) (dst[out := src ! a]) @
          fmerge cmp (take (mid - Suc a) (drop (Suc a) src)) ?R @ drop (out + (mid - a) + (hi - b)) dst"
        using "1.IH"(1) [OF True le] True le "1.prems" e d by (subst merge_loop.simps) simp
      then show ?thesis using l le True lt by (simp add: take_Suc_stored)
    next
      case gt: False
      have e: "Suc out + (mid - a) + (hi - Suc b) = out + (mid - a) + (hi - b)" using True by linarith
      have "merge_loop cmp dst src a mid b hi out = take (Suc out) (dst[out := src ! b]) @
          fmerge cmp ?L (take (hi - Suc b) (drop (Suc b) src)) @ drop (out + (mid - a) + (hi - b)) dst"
        using "1.IH"(2) [OF True gt] True gt "1.prems" e d by (subst merge_loop.simps) simp
      then show ?thesis using l gt True lt by (simp add: take_Suc_stored)
    qed
  next
    case False
    then show ?thesis using "1.prems" by (subst merge_loop.simps) auto
  qed
qed

function fpass :: "'a comparator \<Rightarrow> nat \<Rightarrow> 'a list \<Rightarrow> 'a list" where
  "fpass cmp w xs = (if xs = [] \<or> w = 0 then [] else fmerge cmp (take w xs) (take w (drop w xs)) @ fpass cmp w (drop (2 * w) xs))"
  by pat_completeness auto
termination by (relation "measure (\<lambda>(cmp, w, xs). length xs)") auto

declare fpass.simps [simp del]

function fruns :: "'a comparator \<Rightarrow> 'a list \<Rightarrow> 'a list" where
  "fruns cmp xs = (if xs = [] then [] else insertion_run cmp (take 8 xs) @ fruns cmp (drop 8 xs))"
  by pat_completeness auto
termination by (relation "measure (\<lambda>(cmp, xs). length xs)") auto

declare fruns.simps [simp del]

lemma fpass_Nil [simp]: "fpass cmp w [] = []" "fruns cmp [] = []"
  by (simp_all add: fpass.simps fruns.simps)

definition sorted_blocks :: "'a comparator \<Rightarrow> nat \<Rightarrow> 'a list \<Rightarrow> bool" where
  "sorted_blocks cmp w xs \<longleftrightarrow> (\<forall>k. cmp_sorted cmp (take w (drop (k * w) xs)))"

lemma sorted_blocks_first: "sorted_blocks cmp w xs \<Longrightarrow> cmp_sorted cmp (take w xs) \<and> cmp_sorted cmp (take w (drop w xs))"
proof -
  assume "sorted_blocks cmp w xs"
  then have "cmp_sorted cmp (take w (drop (k * w) xs))" for k by (simp add: sorted_blocks_def)
  from this [of 0] this [of 1] show ?thesis by simp
qed

lemma sorted_blocks_drop: "sorted_blocks cmp w xs \<Longrightarrow> sorted_blocks cmp w (drop (j * w) xs)"
proof -
  assume b: "sorted_blocks cmp w xs"
  have "cmp_sorted cmp (take w (drop (k * w) (drop (j * w) xs)))" for k
    using b [unfolded sorted_blocks_def, rule_format, of "k + j"] by (simp add: add_mult_distrib add.commute)
  then show ?thesis by (simp add: sorted_blocks_def)
qed

lemma sorted_blocks_append:
  assumes "cmp_sorted cmp xs" "sorted_blocks cmp w ys" "length xs = w \<or> length xs < w \<and> ys = []"
  shows "sorted_blocks cmp w (xs @ ys)"
proof -
  have "cmp_sorted cmp (take w (drop (k * w) (xs @ ys)))" for k
  proof (cases k)
    case 0
    then show ?thesis using assms(1,3) by auto
  next
    case (Suc j)
    then show ?thesis using assms(2,3) by (auto simp: sorted_blocks_def)
  qed
  then show ?thesis by (simp add: sorted_blocks_def)
qed

lemma sorted_blocks_Nil [simp]: "sorted_blocks cmp w []"
  by (simp add: sorted_blocks_def)

context total_cmp
begin

lemma merge_runs_spec:
  assumes "lo < mid" "mid < hi" "hi \<le> length src" "length dst = length src"
    "cmp_sorted cmp (take (mid - lo) (drop lo src))" "cmp_sorted cmp (take (hi - mid) (drop mid src))"
  shows "merge_runs cmp dst src lo mid hi =
    take lo dst @ fmerge cmp (take (mid - lo) (drop lo src)) (take (hi - mid) (drop mid src)) @ drop hi dst"
proof (cases "cmp (src ! (mid - 1)) (src ! mid) \<le> 0")
  case True
  let ?L = "take (mid - lo) (drop lo src)" and ?R = "take (hi - mid) (drop mid src)"
  have n: "?L \<noteq> []" "?R \<noteq> []" using assms(1-3) by auto
  have "last ?L = src ! (mid - 1)" using assms(1-3) n(1) by (simp add: last_conv_nth)
  moreover have "hd ?R = src ! mid" using assms(2,3) n(2) by (simp add: hd_conv_nth)
  ultimately have "fmerge cmp ?L ?R = ?L @ ?R" using fmerge_in_order [OF assms(5,6) n] True by simp
  moreover have "take (hi - lo) (drop lo src) = ?L @ ?R"
    using assms(1,2) take_add [of "mid - lo" "hi - mid" "drop lo src"] by simp
  ultimately show ?thesis using True by (simp add: merge_runs_def)
next
  case False
  have "lo + (mid - lo) + (hi - mid) = hi" using assms(1,2) by simp
  then show ?thesis using merge_loop_spec [of lo mid src mid hi lo dst cmp] assms(1-4) False by (simp add: merge_runs_def)
qed

lemma fpass_spec:
  "sorted_blocks cmp w xs \<Longrightarrow> 0 < w \<Longrightarrow> sorted_blocks cmp (2 * w) (fpass cmp w xs) \<and> stable_perm cmp xs (fpass cmp w xs)"
proof (induction xs rule: length_induct)
  case (1 xs)
  show ?case
  proof (cases "xs = []")
    case False
    let ?A = "take w xs" and ?B = "take w (drop w xs)" and ?C = "drop (2 * w) xs"
    have e: "fpass cmp w xs = fmerge cmp ?A ?B @ fpass cmp w ?C" using False "1.prems"(2) by (subst fpass.simps) simp
    note s = sorted_blocks_first [OF "1.prems"(1)]
    have "length ?C < length xs" using False "1.prems"(2) by (cases xs) auto
    then have ih: "sorted_blocks cmp (2 * w) (fpass cmp w ?C)" "stable_perm cmp ?C (fpass cmp w ?C)"
      using "1.IH" "1.prems"(2) sorted_blocks_drop [OF "1.prems"(1), of 2] by blast+
    have len: "length (fmerge cmp ?A ?B) = 2 * w \<or> length (fmerge cmp ?A ?B) < 2 * w \<and> fpass cmp w ?C = []"
      by (cases "2 * w \<le> length xs") (auto simp: min_def)
    have "sorted_blocks cmp (2 * w) (fpass cmp w xs)"
      unfolding e by (rule sorted_blocks_append [OF fmerge_sorted ih(1) len]) (use s in simp_all)
    moreover have "xs = (?A @ ?B) @ ?C" by (metis append_take_drop_id mult_2 take_add)
    then have "stable_perm cmp xs (fpass cmp w xs)"
      unfolding e using stable_perm_append [OF fmerge_stable [OF conjunct1 [OF s], of ?B] ih(2)] by metis
    ultimately show ?thesis by blast
  qed simp
qed

lemma fruns_spec: "sorted_blocks cmp 8 (fruns cmp xs) \<and> stable_perm cmp xs (fruns cmp xs)"
proof (induction xs rule: length_induct)
  case (1 xs)
  show ?case
  proof (cases "xs = []")
    case False
    have e: "fruns cmp xs = insertion_run cmp (take 8 xs) @ fruns cmp (drop 8 xs)" using False by (subst fruns.simps) simp
    have "length (drop 8 xs) < length xs" using False by (cases xs) auto
    then have ih: "sorted_blocks cmp 8 (fruns cmp (drop 8 xs))" "stable_perm cmp (drop 8 xs) (fruns cmp (drop 8 xs))"
      using "1.IH" by blast+
    note r = insertion_run_spec [of "take 8 xs"]
    have "length (insertion_run cmp (take 8 xs)) = 8 \<or> length (insertion_run cmp (take 8 xs)) < 8 \<and> fruns cmp (drop 8 xs) = []"
      using stable_perm_length [OF conjunct2 [OF r]] by (cases "8 \<le> length xs") auto
    then have "sorted_blocks cmp 8 (fruns cmp xs)" unfolding e using r ih(1) by (intro sorted_blocks_append) auto
    moreover have "stable_perm cmp (take 8 xs @ drop 8 xs) (fruns cmp xs)" unfolding e using r ih(2) by (intro stable_perm_append) auto
    ultimately show ?thesis by simp
  qed simp
qed

lemma sort_runs_eq:
  "lo \<le> length a \<Longrightarrow> length a + 8 < U32 \<Longrightarrow> sort_runs cmp a lo = Some (take lo a @ fruns cmp (drop lo a))"
proof (induction "length a - lo" arbitrary: a lo rule: less_induct)
  case less
  show ?case
  proof (cases "lo < length a")
    case False
    then show ?thesis using less.prems by (subst sort_runs.simps) simp
  next
    case True
    let ?k = "min (length a - lo) 8" and ?r = "insertion_run cmp (take 8 (drop lo a))"
    have t: "take ?k (drop lo a) = take 8 (drop lo a)" by (auto simp: min_def)
    have lr: "length ?r = ?k" using stable_perm_length [of cmp "take 8 (drop lo a)" ?r] insertion_run_spec by simp
    let ?a = "take lo a @ ?r @ drop (lo + ?k) a"
    have la: "length ?a = length a" using lr True by simp
    have "add32 lo 8 = lo + 8" using less.prems True by simp
    then have e: "sort_runs cmp a lo = sort_runs cmp ?a (lo + 8)"
      using True by (subst sort_runs.simps) (simp add: RUN_def Let_def t)
    have tr: "take lo ?a = take lo a" using True by simp
    show ?thesis
    proof (cases "lo + 8 \<le> length a")
      case le: True
      have "sort_runs cmp ?a (lo + 8) = Some (take (lo + 8) ?a @ fruns cmp (drop (lo + 8) ?a))"
        using less.hyps [of ?a "lo + 8"] less.prems le la True by simp
      moreover have "take (lo + 8) ?a = take lo a @ ?r" "drop (lo + 8) ?a = drop (lo + 8) a" using lr le by simp_all
      moreover have "fruns cmp (drop lo a) = ?r @ fruns cmp (drop (lo + 8) a)" using True by (subst fruns.simps) (simp add: add.commute)
      ultimately show ?thesis using e by simp
    next
      case gt: False
      have "sort_runs cmp ?a (lo + 8) = Some ?a" using gt la by (subst sort_runs.simps) simp
      moreover have "fruns cmp (drop lo a) = ?r" using True gt by (subst fruns.simps) simp
      moreover have "?a = take lo a @ ?r" using gt by simp
      ultimately show ?thesis using e by simp
    qed
  qed
qed

lemma merge_pass_eq:
  assumes "0 < w" "length src + 2 * w < U32"
  shows "lo \<le> length src \<Longrightarrow> length dst = length src \<Longrightarrow> sorted_blocks cmp w (drop lo src) \<Longrightarrow>
    merge_pass cmp w dst src lo = Some (take lo dst @ fpass cmp w (drop lo src))"
proof (induction "length src - lo" arbitrary: lo dst rule: less_induct)
  case less
  let ?n = "length src"
  show ?case
  proof (cases "lo < ?n")
    case False
    then show ?thesis using less.prems by (subst merge_pass.simps) (simp add: Let_def)
  next
    case True
    have w2: "mul32 2 w = 2 * w" "add32 lo w = lo + w" "add32 lo (2 * w) = lo + 2 * w" using assms True by simp_all
    define mid hi where "mid = min (lo + w) ?n" and "hi = min (lo + 2 * w) ?n"
    let ?A = "take w (drop lo src)" and ?B = "take w (drop (lo + w) src)"
    define d where "d = take lo dst @ fmerge cmp ?A ?B @ drop hi dst"
    note s = sorted_blocks_first [OF less.prems(3)]
    have segs: "take (mid - lo) (drop lo src) = ?A" "take (hi - mid) (drop mid src) = ?B"
      by (auto simp: mid_def hi_def min_def)
    have lm: "lo < mid" "hi \<le> ?n" "mid \<le> hi" using True assms(1) by (simp_all add: mid_def hi_def)
    have m: "(if mid < hi then merge_runs cmp dst src lo mid hi else take lo dst @ take (hi - lo) (drop lo src) @ drop hi dst) = d"
    proof (cases "mid < hi")
      case mh: True
      then show ?thesis using merge_runs_spec [OF lm(1) mh lm(2) less.prems(2)] segs s by (simp add: d_def add.commute)
    next
      case False
      then have "mid = hi" using lm(3) by simp
      then have "?n \<le> lo + w" "take (hi - lo) (drop lo src) = ?A" using segs assms(1) by (simp_all add: mid_def hi_def min_def split: if_splits)
      then show ?thesis using False by (simp add: d_def)
    qed
    have len: "length (fmerge cmp ?A ?B) = hi - lo" using True by (auto simp: hi_def min_def)
    then have ld: "length d = ?n" using lm True less.prems(2) by (simp add: d_def)
    have ml: "(if lo + w < ?n then lo + w else ?n) = mid" "(if lo + 2 * w < ?n then lo + 2 * w else ?n) = hi"
      by (simp_all add: mid_def hi_def min_def)
    have e: "merge_pass cmp w dst src lo = merge_pass cmp w d src (lo + 2 * w)"
      by (subst merge_pass.simps) (simp only: Let_def w2 ml m True if_True)
    have fp: "fpass cmp w (drop lo src) = fmerge cmp ?A ?B @ fpass cmp w (drop (lo + 2 * w) src)"
      using True assms(1) by (subst fpass.simps) (simp add: add.commute add.left_commute)
    show ?thesis
    proof (cases "lo + 2 * w \<le> ?n")
      case le: True
      have "sorted_blocks cmp w (drop (lo + 2 * w) src)" using sorted_blocks_drop [OF less.prems(3), of 2] by (simp add: add.commute)
      then have "merge_pass cmp w d src (lo + 2 * w) = Some (take (lo + 2 * w) d @ fpass cmp w (drop (lo + 2 * w) src))"
        using less.hyps [of "lo + 2 * w" d] le ld assms(1) True by simp
      moreover have "take (lo + 2 * w) d = take lo dst @ fmerge cmp ?A ?B" using len le less.prems(2) by (simp add: d_def hi_def)
      ultimately show ?thesis using e fp by simp
    next
      case gt: False
      then have "merge_pass cmp w d src (lo + 2 * w) = Some d" by (subst merge_pass.simps) (simp add: Let_def)
      moreover have "d = take lo dst @ fmerge cmp ?A ?B" using gt less.prems(2) by (simp add: d_def hi_def)
      ultimately show ?thesis using e fp gt by simp
    qed
  qed
qed

lemma merge_passes_spec:
  "sorted_blocks cmp w src \<Longrightarrow> 0 < w \<Longrightarrow> length src < 2 ^ 30 \<Longrightarrow> length dst = length src \<Longrightarrow>
   \<exists>res b. merge_passes cmp w src dst swapped = Some (res, b) \<and> cmp_sorted cmp res \<and> stable_perm cmp src res"
proof (induction "length src - w" arbitrary: w src dst swapped rule: less_induct)
  case less
  show ?case
  proof (cases "w < length src")
    case False
    then have "cmp_sorted cmp src" using sorted_blocks_first [OF less.prems(1)] by simp
    then show ?thesis using False by (subst merge_passes.simps) simp
  next
    case True
    let ?d = "fpass cmp w src"
    have "merge_pass cmp w dst src 0 = Some ?d"
      using merge_pass_eq [OF less.prems(2), of src 0 dst] less.prems(1,3,4) True by simp
    moreover have "mul32 w 2 = 2 * w" using True less.prems(3) by (simp add: mult.commute)
    ultimately have e: "merge_passes cmp w src dst swapped = merge_passes cmp (2 * w) ?d src (\<not> swapped)"
      using True by (subst merge_passes.simps) simp
    note f = fpass_spec [OF less.prems(1,2)]
    have len: "length ?d = length src" using f stable_perm_length by blast
    have "length ?d - 2 * w < length src - w" "0 < 2 * w" "length ?d < 2 ^ 30" using True less.prems len by simp_all
    moreover have "length src = length ?d" using len by simp
    ultimately obtain res b where "merge_passes cmp (2 * w) ?d src (\<not> swapped) = Some (res, b)" "cmp_sorted cmp res" "stable_perm cmp ?d res"
      using less.hyps [of ?d "2 * w" src "\<not> swapped"] conjunct1 [OF f] by blast
    then show ?thesis using e stable_perm_trans [OF conjunct2 [OF f]] by auto
  qed
qed

end

text \<open>
  C33: \<open>sort_stable\<close> returns. It gives the elements in order, each one as often as before and those that compare equal in the order
  they had, or -1 with the array untouched when the buffer cannot be had and for no other reason. The buffer's old bytes do not matter. The bound on
  the elements is the address space, which has to hold the array and the buffer.
\<close>

theorem sort_stable_correct:
  assumes "total_cmp cmp" "0 < sz" "length xs < 2 ^ 30" "length xs * sz < 2 ^ 31" "length xs \<le> length junk"
  shows "\<exists>ys r. sort_stable al junk xs sz cmp = Some (ys, r) \<and>
    (if 2 \<le> length xs \<and> \<not> al 0 then r = -1 \<and> ys = xs else r = 0 \<and> cmp_sorted cmp ys \<and> stable_perm cmp xs ys)"
proof (cases "length xs < 2")
  case True
  then have "cmp_sorted cmp xs" by (cases xs; cases "tl xs") (auto simp: less_Suc_eq)
  then show ?thesis using True by (simp add: sort_stable_def)
next
  case False
  have "(length xs + 1) * sz \<le> UINT_MAX"
  proof -
    define q where "q = length xs * sz"
    have "1 * sz \<le> length xs * sz" using False by (intro mult_right_mono) simp_all
    then have "sz \<le> q" "q < 2 ^ 31" using assms(4) by (simp_all add: q_def)
    moreover have "(length xs + 1) * sz = q + sz" by (simp add: q_def)
    ultimately show ?thesis by simp
  qed
  then have fit: "length xs + 1 \<le> UINT_MAX div sz" using assms(2) by (simp add: less_eq_div_iff_mult_less_eq)
  show ?thesis
  proof (cases "al 0")
    case no: False
    then show ?thesis using False assms(2) by (simp add: sort_stable_def)
  next
    case True
    let ?a = "fruns cmp xs"
    note f = total_cmp.fruns_spec [OF assms(1), of xs]
    have r: "sort_runs cmp xs 0 = Some ?a" using total_cmp.sort_runs_eq [OF assms(1), of 0 xs] assms(3) by simp
    have len: "length ?a = length xs" using f stable_perm_length by blast
    obtain res b where m: "merge_passes cmp 8 ?a (take (length xs) junk) False = Some (res, b)" "cmp_sorted cmp res" "stable_perm cmp ?a res"
      using total_cmp.merge_passes_spec [OF assms(1), of 8 ?a "take (length xs) junk" False] f len assms(3,5) by auto
    have "sort_stable al junk xs sz cmp = Some (res, 0)"
      using False True fit assms(2) r m(1) by (simp add: sort_stable_def RUN_def)
    then show ?thesis using True m f stable_perm_trans by auto
  qed
qed

definition int_cmp :: "int comparator" where
  "int_cmp x y = (if x < y then -1 else if x = y then 0 else 1)"

lemma int_cmp_total: "total_cmp int_cmp"
  by unfold_locales (auto simp: int_cmp_def split: if_splits)

theorem sort_stable_correct_witness:
  "\<exists>ys r. sort_stable (\<lambda>_. True) [0, 0, 0] [3, 1, 2] 4 int_cmp = Some (ys, r) \<and> r = 0 \<and> cmp_sorted int_cmp ys"
  using sort_stable_correct [OF int_cmp_total, of 4 "[3, 1, 2]" "[0, 0, 0]" "\<lambda>_. True"] by auto

end
