(* ===== verification/Qsort.thy ===== *)
theory Qsort
  imports Bits Vector Sort_Stable
begin

text \<open>
  \<open>src/qsort.c\<close>: \<open>qsort\<close>, an introsort; \<open>bsearch\<close> of \<open>src/stdlib.c\<close>; and the functions of \<open>vector.c\<close> on them. A range of the
  array is the list of its elements, \<open>base\<close> is its start; \<open>None\<close> is a scan that leaves the range. The exchange by words or
  by bytes is an exchange of elements, and the two kinds of comparator (with a context and without) are one.
\<close>

section \<open>The sort\<close>

definition swap_elements :: "'a list \<Rightarrow> nat \<Rightarrow> nat \<Rightarrow> 'a list" where
  "swap_elements a i j = a[i := a ! j, j := a ! i]"

fun insert_back :: "'a comparator \<Rightarrow> 'a list \<Rightarrow> nat \<Rightarrow> 'a list" where
  "insert_back cmp a 0 = a"
| "insert_back cmp a (Suc j) = (if 0 < cmp (a ! j) (a ! Suc j) then insert_back cmp (swap_elements a j (Suc j)) j else a)"

definition insertion_sort :: "'a comparator \<Rightarrow> 'a list \<Rightarrow> 'a list" where
  "insertion_sort cmp a = fold (\<lambda>i a. insert_back cmp a i) [1..<length a] a"

function sift_down :: "'a comparator \<Rightarrow> 'a list \<Rightarrow> nat \<Rightarrow> nat \<Rightarrow> 'a list" where
  "sift_down cmp a r n =
     (let child = 2 * r + 1
      in if n \<le> child then a
         else
           let child = (if child + 1 < n \<and> cmp (a ! child) (a ! (child + 1)) < 0 then child + 1 else child)
           in if 0 \<le> cmp (a ! r) (a ! child) then a
              else sift_down cmp (swap_elements a r child) child n)"
  by pat_completeness auto
termination by (relation "measure (\<lambda>(cmp, a, r, n). n - r)") (auto split: if_splits)

declare sift_down.simps [simp del]

definition heap_sort :: "'a comparator \<Rightarrow> 'a list \<Rightarrow> 'a list" where
  "heap_sort cmp a =
     (let n = length a;
          a = fold (\<lambda>i a. sift_down cmp a (i - 1) n) (rev [1..<n div 2 + 1]) a
      in fold (\<lambda>last a. sift_down cmp (swap_elements a 0 last) 0 last) (rev [1..<n]) a)"

text \<open>The two scans of the partition, towards each other: \<open>p\<close> is the pivot.\<close>

function scan_up :: "'a comparator \<Rightarrow> 'a list \<Rightarrow> nat \<Rightarrow> nat \<Rightarrow> nat option" where
  "scan_up cmp a p i =
     (if length a \<le> i + 1 then None
      else if cmp (a ! (i + 1)) (a ! p) < 0 then scan_up cmp a p (i + 1) else Some (i + 1))"
  by pat_completeness auto
termination by (relation "measure (\<lambda>(cmp, a, p, i). length a - i)") auto

fun scan_down :: "'a comparator \<Rightarrow> 'a list \<Rightarrow> nat \<Rightarrow> nat \<Rightarrow> nat option" where
  "scan_down cmp a p 0 = None"
| "scan_down cmp a p (Suc j) = (if 0 < cmp (a ! j) (a ! p) then scan_down cmp a p j else Some j)"

lemma scan_down_less: "scan_down cmp a p j = Some j' \<Longrightarrow> j' < j"
  by (induction j) (auto split: if_splits)

declare scan_up.simps [simp del]

function partition_loop :: "'a comparator \<Rightarrow> 'a list \<Rightarrow> nat \<Rightarrow> nat \<Rightarrow> nat \<Rightarrow> (nat \<times> 'a list) option" where
  "partition_loop cmp a p i j =
     (case scan_up cmp a p i of
        None \<Rightarrow> None
      | Some i \<Rightarrow>
          (case scan_down cmp a p j of
             None \<Rightarrow> None
           | Some j \<Rightarrow> if j \<le> i then Some (i, a) else partition_loop cmp (swap_elements a i j) p i j))"
  by pat_completeness auto
termination by (relation "measure (\<lambda>(cmp, a, p, i, j). j)") (auto dest: scan_down_less)

declare partition_loop.simps [simp del]

text \<open>The median of three goes next to the end.\<close>

definition swap_if :: "'a comparator \<Rightarrow> nat \<Rightarrow> nat \<Rightarrow> 'a list \<Rightarrow> 'a list" where
  "swap_if cmp i j a = (if cmp (a ! i) (a ! j) < 0 then swap_elements a i j else a)"

definition median3 :: "'a comparator \<Rightarrow> 'a list \<Rightarrow> 'a list" where
  "median3 cmp a =
     (let mid = length a div 2; hi = length a - 1;
          a = swap_if cmp mid 0 a;
          a = swap_if cmp hi 0 a;
          a = swap_if cmp hi mid a
      in swap_elements a mid (hi - 1))"

fun intro_sort :: "'a comparator \<Rightarrow> nat \<Rightarrow> 'a list \<Rightarrow> 'a list option" where
  "intro_sort cmp 0 a = Some (if 12 < length a then heap_sort cmp a else insertion_sort cmp a)"
| "intro_sort cmp (Suc depth) a =
     (if 12 < length a then
        let n = length a; a = median3 cmp a; pivot = n - 2
        in case partition_loop cmp a pivot 0 pivot of
             None \<Rightarrow> None
           | Some (i, a) \<Rightarrow>
               let a = swap_elements a i pivot; left = i; right = n - left - 1
               in if left < right then
                    (case intro_sort cmp depth (take left a) of
                       None \<Rightarrow> None
                     | Some l \<Rightarrow>
                         (case intro_sort cmp depth (drop (i + 1) a) of None \<Rightarrow> None | Some r \<Rightarrow> Some (l @ a ! i # r)))
                  else
                    (case intro_sort cmp depth (drop (i + 1) a) of
                       None \<Rightarrow> None
                     | Some r \<Rightarrow>
                         (case intro_sort cmp depth (take left a) of None \<Rightarrow> None | Some l \<Rightarrow> Some (l @ a ! i # r)))
      else Some (insertion_sort cmp a))"

definition qsort :: "'a list \<Rightarrow> nat \<Rightarrow> 'a comparator \<Rightarrow> 'a list option" where
  "qsort a sz cmp = (if length a < 2 \<or> sz = 0 then Some a else intro_sort cmp (2 * (31 - bit_clz (of_nat (length a)))) a)"

function bsearch_loop :: "'a comparator \<Rightarrow> 'a \<Rightarrow> 'a list \<Rightarrow> nat \<Rightarrow> nat \<Rightarrow> nat option" where
  "bsearch_loop cmp key a lo hi =
     (if lo < hi then
        let mid = lo + (hi - lo) div 2; c = cmp key (a ! mid)
        in if c = 0 then Some mid
           else if c < 0 then bsearch_loop cmp key a lo mid
           else bsearch_loop cmp key a (mid + 1) hi
      else None)"
  by pat_completeness auto
termination by (relation "measure (\<lambda>(cmp, key, a, lo, hi). hi - lo)") auto

declare bsearch_loop.simps [simp del]

definition bsearch :: "'a \<Rightarrow> 'a list \<Rightarrow> 'a comparator \<Rightarrow> nat option" where
  "bsearch key a cmp = bsearch_loop cmp key a 0 (length a)"

section \<open>Exchanges\<close>

lemma swap_simps [simp]:
  "length (swap_elements a i j) = length a"
  "i < length a \<Longrightarrow> j < length a \<Longrightarrow> mset (swap_elements a i j) = mset a"
  "i < length a \<Longrightarrow> j < length a \<Longrightarrow> swap_elements a i j ! k = (if k = j then a ! i else if k = i then a ! j else a ! k)"
  by (simp_all add: swap_elements_def mset_swap2 nth_list_update)

lemma drop_swap [simp]: "i < n \<Longrightarrow> j < n \<Longrightarrow> drop n (swap_elements a i j) = drop n a"
  by (simp add: swap_elements_def)

lemma take_swap [simp]: "n \<le> i \<Longrightarrow> n \<le> j \<Longrightarrow> take n (swap_elements a i j) = take n a"
  by (simp add: swap_elements_def)

lemma mset_take_eq:
  assumes "mset b = mset a" "drop n b = drop n a"
  shows "mset (take n b) = mset (take n a)"
proof -
  have "mset (take n b) + mset (drop n b) = mset (take n a) + mset (drop n a)"
    using assms(1) by (metis append_take_drop_id mset_append)
  then show ?thesis using assms(2) by simp
qed

context total_cmp
begin

section \<open>Insertion\<close>

lemma insert_back_spec:
  "j < length a \<Longrightarrow> \<exists>P1 P2. take j a = P1 @ P2 \<and> insert_back cmp a j = P1 @ a ! j # P2 @ drop (Suc j) a \<and>
    (\<forall>z \<in> set P2. cmp (a ! j) z < 0) \<and> (P1 = [] \<or> cmp (last P1) (a ! j) \<le> 0)"
proof (induction j arbitrary: a)
  case 0
  then show ?case by (simp add: Cons_nth_drop_Suc)
next
  case (Suc j)
  have t: "take (Suc j) a = take j a @ [a ! j]" using Suc.prems by (simp add: take_Suc_conv_app_nth)
  show ?case
  proof (cases "0 < cmp (a ! j) (a ! Suc j)")
    case True
    let ?b = "swap_elements a j (Suc j)"
    have b: "take j ?b = take j a" "?b ! j = a ! Suc j" "drop (Suc j) ?b = a ! j # drop (Suc (Suc j)) a"
    proof -
      show "take j ?b = take j a" "?b ! j = a ! Suc j" using Suc.prems by simp_all
      have "drop (Suc j) ?b = ?b ! Suc j # drop (Suc (Suc j)) ?b" using Suc.prems by (intro Cons_nth_drop_Suc [symmetric]) simp
      then show "drop (Suc j) ?b = a ! j # drop (Suc (Suc j)) a" using Suc.prems by simp
    qed
    obtain P1 P2 where p: "take j ?b = P1 @ P2" "insert_back cmp ?b j = P1 @ ?b ! j # P2 @ drop (Suc j) ?b"
      "\<forall>z \<in> set P2. cmp (?b ! j) z < 0" "P1 = [] \<or> cmp (last P1) (?b ! j) \<le> 0"
      using Suc.IH [of ?b] Suc.prems by auto
    have "cmp (a ! Suc j) (a ! j) < 0" using True cmp_sym by auto
    then show ?thesis using p b True t by (intro exI [of _ P1] exI [of _ "P2 @ [a ! j]"]) auto
  next
    case False
    have "insert_back cmp a (Suc j) = take (Suc j) a @ a ! Suc j # drop (Suc (Suc j)) a"
      using False Suc.prems by (simp add: id_take_nth_drop [symmetric])
    then show ?thesis using False by (intro exI [of _ "take (Suc j) a"] exI [of _ "[]"]) (simp add: t)
  qed
qed

lemma insert_back_sorted:
  assumes "i < length a" "cmp_sorted cmp (take i a)"
  shows "cmp_sorted cmp (take (Suc i) (insert_back cmp a i)) \<and> mset (insert_back cmp a i) = mset a \<and> length (insert_back cmp a i) = length a"
proof -
  obtain P1 P2 where p: "take i a = P1 @ P2" "insert_back cmp a i = P1 @ a ! i # P2 @ drop (Suc i) a"
    "\<forall>z \<in> set P2. cmp (a ! i) z < 0" "P1 = [] \<or> cmp (last P1) (a ! i) \<le> 0"
    using insert_back_spec [OF assms(1)] by blast
  have s: "cmp_sorted cmp P1" "cmp_sorted cmp P2" "\<forall>x \<in> set P1. \<forall>y \<in> set P2. cmp x y \<le> 0"
    using assms(2) p(1) by (auto simp: cmp_sorted_append)
  have le: "\<forall>z \<in> set P1. cmp z (a ! i) \<le> 0"
  proof (cases "P1 = []")
    case False
    then obtain Q where q: "P1 = Q @ [last P1]" by (metis append_butlast_last_id)
    then have "\<forall>z \<in> set Q. cmp z (last P1) \<le> 0" using s(1) by (metis cmp_sorted_append list.set_intros(1))
    then show ?thesis using p(4) False q cmp_trans by (metis Un_iff set_append set_ConsD empty_iff list.set(1))
  qed simp
  have "length (take i a) = i" using assms(1) by simp
  then have len: "length (P1 @ a ! i # P2) = Suc i" using p(1) by simp
  then have "take (Suc i) (insert_back cmp a i) = P1 @ a ! i # P2" using p(2) by (metis append_Cons append_assoc append_eq_conv_conj)
  moreover have "cmp_sorted cmp (P1 @ a ! i # P2)" using s le p(3) by (auto simp: cmp_sorted_append intro: less_imp_le)
  moreover have "mset (take i a @ a ! i # drop (Suc i) a) = mset (insert_back cmp a i)" using p(1,2) by simp
  then have m: "mset (insert_back cmp a i) = mset a" using assms(1) by (simp add: id_take_nth_drop [symmetric])
  ultimately show ?thesis using mset_eq_length [OF m] by simp
qed

lemma insertion_sort_spec: "cmp_sorted cmp (insertion_sort cmp a) \<and> mset (insertion_sort cmp a) = mset a"
proof -
  let ?f = "\<lambda>i a. insert_back cmp a i"
  have "cmp_sorted cmp (take (max 1 k) (fold ?f [1..<k] a)) \<and> mset (fold ?f [1..<k] a) = mset a \<and> length (fold ?f [1..<k] a) = length a"
    if "k \<le> length a" for k
    using that
  proof (induction k)
    case 0
    then show ?case by (cases a) simp_all
  next
    case (Suc k)
    show ?case
    proof (cases "k = 0")
      case True
      then show ?thesis by (cases a) simp_all
    next
      case False
      then show ?thesis using Suc insert_back_sorted [of k "fold ?f [1..<k] a"] by (simp add: max_def split: if_splits)
    qed
  qed
  note all = this
  have h: "cmp_sorted cmp (take (max 1 (length a)) (insertion_sort cmp a)) \<and> mset (insertion_sort cmp a) = mset a \<and> length (insertion_sort cmp a) = length a"
    unfolding insertion_sort_def by (rule all [OF order_refl])
  then show ?thesis by (metis take_all max.cobounded2)
qed

section \<open>The heap\<close>

text \<open>From \<open>k\<close> on no element among the first \<open>n\<close> is less than its children, but perhaps \<open>r\<close>.\<close>

definition heap_but :: "'a list \<Rightarrow> nat \<Rightarrow> nat \<Rightarrow> nat \<Rightarrow> bool" where
  "heap_but a k n r \<longleftrightarrow> (\<forall>c. c < n \<longrightarrow> 0 < c \<longrightarrow> k \<le> (c - 1) div 2 \<longrightarrow> (c - 1) div 2 \<noteq> r \<longrightarrow> cmp (a ! c) (a ! ((c - 1) div 2)) \<le> 0)"

definition heap :: "'a list \<Rightarrow> nat \<Rightarrow> nat \<Rightarrow> bool" where
  "heap a k n \<longleftrightarrow> (\<forall>c. c < n \<longrightarrow> 0 < c \<longrightarrow> k \<le> (c - 1) div 2 \<longrightarrow> cmp (a ! c) (a ! ((c - 1) div 2)) \<le> 0)"

text \<open>The element at \<open>r\<close> sinks: its children are no greater than its parent.\<close>

definition under :: "'a list \<Rightarrow> nat \<Rightarrow> nat \<Rightarrow> nat \<Rightarrow> bool" where
  "under a k n r \<longleftrightarrow> (\<forall>c. c < n \<longrightarrow> 0 < c \<longrightarrow> (c - 1) div 2 = r \<longrightarrow> 0 < r \<longrightarrow> k \<le> (r - 1) div 2 \<longrightarrow> cmp (a ! c) (a ! ((r - 1) div 2)) \<le> 0)"

lemma child_cases: "0 < c \<Longrightarrow> (c - 1) div 2 = r \<longleftrightarrow> c = 2 * r + 1 \<or> c = 2 * r + (2::nat)"
  by linarith

lemma sift_down_spec:
  "n \<le> length a \<Longrightarrow> k \<le> r \<Longrightarrow> heap_but a k n r \<Longrightarrow> under a k n r \<Longrightarrow>
    heap (sift_down cmp a r n) k n \<and> mset (sift_down cmp a r n) = mset a \<and> drop n (sift_down cmp a r n) = drop n a"
proof (induction "n - r" arbitrary: a r rule: less_induct)
  case less
  show ?case
  proof (cases "n \<le> 2 * r + 1")
    case True
    have "heap a k n" unfolding heap_def
    proof (intro allI impI)
      fix c assume c: "c < n" "0 < c" "k \<le> (c - 1) div 2"
      then have "(c - 1) div 2 \<noteq> r" using True by linarith
      then show "cmp (a ! c) (a ! ((c - 1) div 2)) \<le> 0" using less.prems(3) c by (auto simp: heap_but_def)
    qed
    then show ?thesis using True by (subst (1 2 3) sift_down.simps) simp
  next
    case False
    define ch where "ch = (if 2 * r + 1 + 1 < n \<and> cmp (a ! (2 * r + 1)) (a ! (2 * r + 1 + 1)) < 0 then 2 * r + 1 + 1 else 2 * r + 1)"
    have ch: "ch < n" "r < ch" "0 < ch" "(ch - 1) div 2 = r" using False by (auto simp: ch_def)
    have most: "cmp (a ! c) (a ! ch) \<le> 0" if "c < n" "0 < c" "(c - 1) div 2 = r" for c
    proof -
      have "c = 2 * r + 1 \<or> c = 2 * r + 2" using that child_cases by blast
      then show ?thesis
        using that(1) cmp_le_iff [of "a ! (2 * r + 2)" "a ! (2 * r + 1)"] by (auto simp: ch_def less_imp_le not_less split: if_splits)
    qed
    have e: "sift_down cmp a r n = (if 0 \<le> cmp (a ! r) (a ! ch) then a else sift_down cmp (swap_elements a r ch) ch n)"
      using False by (subst sift_down.simps) (simp only: Let_def ch_def if_False)
    show ?thesis
    proof (cases "0 \<le> cmp (a ! r) (a ! ch)")
      case True
      then have le: "cmp (a ! ch) (a ! r) \<le> 0" using cmp_sym by (metis not_less)
      have "heap a k n" unfolding heap_def
      proof (intro allI impI)
        fix c assume c: "c < n" "0 < c" "k \<le> (c - 1) div 2"
        show "cmp (a ! c) (a ! ((c - 1) div 2)) \<le> 0"
        proof (cases "(c - 1) div 2 = r")
          case True
          then show ?thesis using most [OF c(1,2) True] le cmp_trans by blast
        qed (use less.prems(3) c in \<open>auto simp: heap_but_def\<close>)
      qed
      then show ?thesis using True e by simp
    next
      case sink: False
      let ?b = "swap_elements a r ch"
      have lt: "cmp (a ! r) (a ! ch) < 0" using sink by simp
      have rl: "r < length a" "ch < length a" using ch less.prems(1) by simp_all
      have "heap_but ?b k n ch" unfolding heap_but_def
      proof (intro allI impI)
        fix c assume c: "c < n" "0 < c" "k \<le> (c - 1) div 2" "(c - 1) div 2 \<noteq> ch"
        let ?p = "(c - 1) div 2"
        have cp: "?p < c" using c(2) by linarith
        show "cmp (?b ! c) (?b ! ?p) \<le> 0"
        proof (cases "?p = r")
          case True
          then show ?thesis using c cp rl most [OF c(1,2) True] lt ch by (cases "c = ch") auto
        next
          case False
          show ?thesis
          proof (cases "c = r")
            case True
            then have "cmp (a ! ch) (a ! ?p) \<le> 0" using less.prems(4) ch c by (auto simp: under_def)
            then show ?thesis using True cp ch rl c(4) False by simp
          next
            case cr: False
            have "c \<noteq> ch" using False ch(4) by auto
            then show ?thesis using cr False c rl less.prems(3) by (auto simp: heap_but_def)
          qed
        qed
      qed
      moreover have "under ?b k n ch" unfolding under_def
      proof (intro allI impI)
        fix c assume c: "c < n" "0 < c" "(c - 1) div 2 = ch" "0 < ch" "k \<le> (ch - 1) div 2"
        have "c \<noteq> r" "c \<noteq> ch" using c ch by linarith+
        moreover have "cmp (a ! c) (a ! ch) \<le> 0" using less.prems(2,3) c ch unfolding heap_but_def by (metis le_trans less_imp_le less_irrefl)
        ultimately show "cmp (?b ! c) (?b ! ((ch - 1) div 2)) \<le> 0" using rl ch by simp
      qed
      ultimately have "heap (sift_down cmp ?b ch n) k n \<and> mset (sift_down cmp ?b ch n) = mset ?b \<and> drop n (sift_down cmp ?b ch n) = drop n ?b"
        using less.hyps [of ch ?b] less.prems(1,2) ch by simp
      then show ?thesis using e sink rl ch by simp
    qed
  qed
qed

text \<open>The two phases.\<close>

lemma heap_build_spec:
  assumes "k \<le> length a div 2" "b = fold (\<lambda>i a'. sift_down cmp a' (i - 1) (length a)) (rev [k + 1..<length a div 2 + 1]) a"
  shows "heap b k (length a) \<and> mset b = mset a"
  using assms
proof (induction "length a div 2 - k" arbitrary: k b)
  case 0
  then show ?case by (auto simp: heap_def)
next
  case (Suc d)
  let ?n = "length a"
  let ?b = "fold (\<lambda>i a'. sift_down cmp a' (i - 1) (length a)) (rev [k + 1 + 1..<length a div 2 + 1]) a"
  have k: "k < ?n div 2" using Suc.hyps(2) by linarith
  have ih: "heap ?b (k + 1) ?n" "mset ?b = mset a" using Suc.hyps(1) [of "k + 1" ?b] Suc.hyps(2) k by auto
  have len: "length ?b = ?n" using mset_eq_length [OF ih(2)] .
  have up: "[k + 1..<?n div 2 + 1] = (k + 1) # [k + 1 + 1..<?n div 2 + 1]" using k by (simp add: upt_conv_Cons)
  have b: "b = sift_down cmp ?b k ?n" unfolding Suc.prems(2) up by (simp add: len del: upt_Suc)
  have "heap_but ?b k ?n k" using ih(1) unfolding heap_def heap_but_def
    by (metis Suc_eq_plus1 Suc_leI le_neq_implies_less)
  moreover have "under ?b k ?n k" unfolding under_def by auto
  ultimately show ?case using sift_down_spec [of ?n ?b k k] len ih(2) b by simp
qed

lemma heap_root: "heap a 0 n \<Longrightarrow> c < n \<Longrightarrow> cmp (a ! c) (a ! 0) \<le> 0"
proof (induction c rule: less_induct)
  case (less c)
  show ?case
  proof (cases "c = 0")
    case False
    then have "(c - 1) div 2 < c" "cmp (a ! c) (a ! ((c - 1) div 2)) \<le> 0" using less.prems by (auto simp: heap_def)
    then show ?thesis using less.IH [of "(c - 1) div 2"] less.prems cmp_trans by (meson less_trans)
  qed simp
qed

lemma heap_drain_spec:
  assumes "0 < m" "m \<le> length a" "heap a 0 m" "cmp_sorted cmp (drop m a)" "\<forall>x \<in> set (take m a). \<forall>y \<in> set (drop m a). cmp x y \<le> 0"
  shows "cmp_sorted cmp (fold (\<lambda>last a. sift_down cmp (swap_elements a 0 last) 0 last) (rev [1..<m]) a) \<and>
    mset (fold (\<lambda>last a. sift_down cmp (swap_elements a 0 last) 0 last) (rev [1..<m]) a) = mset a"
  using assms
proof (induction m arbitrary: a)
  case (Suc m)
  let ?f = "\<lambda>last a. sift_down cmp (swap_elements a 0 last) 0 last"
  show ?case
  proof (cases "m = 0")
    case True
    then obtain x xs where "a = x # xs" using Suc.prems(2) by (cases a) auto
    then show ?thesis using True Suc.prems by simp
  next
    case False
    define c where "c = swap_elements a 0 m"
    define b where "b = sift_down cmp c 0 m"
    have l: "m < length a" "length c = length a" using Suc.prems(2) by (simp_all add: c_def)
    have l0: "0 < length a" using l(1) by linarith
    have "heap_but c 0 m 0" unfolding heap_but_def
    proof (intro allI impI)
      fix i assume i: "i < m" "0 < i" "0 \<le> (i - 1) div 2" "(i - 1) div 2 \<noteq> 0"
      then have "(i - 1) div 2 < m" by linarith
      then show "cmp (c ! i) (c ! ((i - 1) div 2)) \<le> 0" using i l(1) l0 Suc.prems(3) by (simp add: heap_def c_def)
    qed
    moreover have "under c 0 m 0" by (simp add: under_def)
    ultimately have b: "heap b 0 m" "mset b = mset c" "drop m b = drop m c" using sift_down_spec [of m c 0 0] l by (simp_all add: b_def)
    have mc: "mset c = mset a" using l l0 by (simp add: c_def)
    have lb: "length b = length a" using mset_eq_length [OF b(2)] l by simp
    have "drop m c = c ! m # drop (Suc m) c" using l by (intro Cons_nth_drop_Suc [symmetric]) simp
    then have d: "drop m b = a ! 0 # drop (Suc m) a" using b(3) l l0 by (simp add: c_def)
    have "mset (take (Suc m) c) = mset (take (Suc m) a)" by (rule mset_take_eq [OF mc]) (use l in \<open>simp add: c_def\<close>)
    moreover have "mset (take m b) = mset (take m c)" by (rule mset_take_eq [OF b(2,3)])
    moreover have "set (take m c) \<subseteq> set (take (Suc m) c)" by (simp add: set_take_subset_set_take)
    ultimately have sub: "set (take m b) \<subseteq> set (take (Suc m) a)" by (metis mset_eq_setD)
    have root: "cmp x (a ! 0) \<le> 0" if "x \<in> set (take (Suc m) a)" for x
      using that heap_root [OF Suc.prems(3)] Suc.prems(2) by (auto simp: in_set_conv_nth)
    have a0: "a ! 0 \<in> set (take (Suc m) a)" using l by (cases a) auto
    have "cmp_sorted cmp (drop m b)" using Suc.prems(4,5) a0 by (simp add: d)
    moreover have "\<forall>x \<in> set (take m b). \<forall>y \<in> set (drop m b). cmp x y \<le> 0" using sub root Suc.prems(5) by (auto simp: d)
    ultimately have "cmp_sorted cmp (fold ?f (rev [1..<m]) b) \<and> mset (fold ?f (rev [1..<m]) b) = mset b"
      using Suc.IH [of b] False b(1) l lb by simp
    moreover have "fold ?f (rev [1..<Suc m]) a = fold ?f (rev [1..<m]) b" using False by (simp add: b_def c_def)
    ultimately show ?thesis using b(2) mc by (simp only:)
  qed
qed simp

lemma heap_sort_spec:
  assumes "a \<noteq> []"
  shows "cmp_sorted cmp (heap_sort cmp a) \<and> mset (heap_sort cmp a) = mset a"
proof -
  define b where "b = fold (\<lambda>i a'. sift_down cmp a' (i - 1) (length a)) (rev [1..<length a div 2 + 1]) a"
  have b: "heap b 0 (length a)" "mset b = mset a" using heap_build_spec [of 0 a b] by (simp_all add: b_def del: upt_Suc)
  have len: "length b = length a" using mset_eq_length [OF b(2)] .
  have "heap_sort cmp a = fold (\<lambda>last a. sift_down cmp (swap_elements a 0 last) 0 last) (rev [1..<length b]) b"
    by (simp only: heap_sort_def Let_def len) (simp only: b_def)
  then show ?thesis using heap_drain_spec [of "length b" b] b assms len by (simp del: upt_Suc)
qed

section \<open>The partition\<close>

lemma scan_up_spec:
  "i < j \<Longrightarrow> j < length a \<Longrightarrow> 0 \<le> cmp (a ! j) (a ! p) \<Longrightarrow>
   \<exists>i'. scan_up cmp a p i = Some i' \<and> i < i' \<and> i' \<le> j \<and> 0 \<le> cmp (a ! i') (a ! p) \<and> (\<forall>k. i < k \<longrightarrow> k < i' \<longrightarrow> cmp (a ! k) (a ! p) < 0)"
proof (induction "j - i" arbitrary: i)
  case (Suc d)
  show ?case
  proof (cases "cmp (a ! (i + 1)) (a ! p) < 0")
    case True
    then have "i + 1 < j" using Suc.prems by (metis Suc_eq_plus1 Suc_lessI not_less)
    moreover have d: "d = j - (i + 1)" using Suc.hyps(2) by linarith
    ultimately obtain i' where "scan_up cmp a p (i + 1) = Some i'" "i + 1 < i'" "i' \<le> j" "0 \<le> cmp (a ! i') (a ! p)"
      "\<forall>k. i + 1 < k \<longrightarrow> k < i' \<longrightarrow> cmp (a ! k) (a ! p) < 0"
      using Suc.hyps(1) [of "i + 1"] d Suc.prems by blast
    moreover have "scan_up cmp a p i = scan_up cmp a p (i + 1)" using True Suc.prems by (subst scan_up.simps) simp
    ultimately show ?thesis using True by (metis Suc_eq_plus1 Suc_lessD Suc_lessI)
  next
    case False
    then have "scan_up cmp a p i = Some (i + 1)" using Suc.prems by (subst scan_up.simps) simp
    then show ?thesis using False Suc.prems by (intro exI [of _ "i + 1"]) auto
  qed
qed simp

lemma scan_down_spec:
  "i < j \<Longrightarrow> cmp (a ! i) (a ! p) \<le> 0 \<Longrightarrow>
   \<exists>j'. scan_down cmp a p j = Some j' \<and> i \<le> j' \<and> j' < j \<and> cmp (a ! j') (a ! p) \<le> 0 \<and> (\<forall>k. j' < k \<longrightarrow> k < j \<longrightarrow> 0 < cmp (a ! k) (a ! p))"
proof (induction j)
  case (Suc j)
  show ?case
  proof (cases "0 < cmp (a ! j) (a ! p)")
    case True
    then have "i < j" using Suc.prems by (metis less_antisym not_less)
    then obtain j' where "scan_down cmp a p j = Some j'" "i \<le> j'" "j' < j" "cmp (a ! j') (a ! p) \<le> 0"
      "\<forall>k. j' < k \<longrightarrow> k < j \<longrightarrow> 0 < cmp (a ! k) (a ! p)"
      using Suc by auto
    then show ?thesis using True by (intro exI [of _ j']) (auto simp: less_Suc_eq)
  next
    case False
    then show ?thesis using Suc.prems by (intro exI [of _ j]) auto
  qed
qed simp

lemma partition_loop_spec:
  "i < j \<Longrightarrow> j \<le> p \<Longrightarrow> p < length a \<Longrightarrow> (\<forall>k \<le> i. cmp (a ! k) (a ! p) \<le> 0) \<Longrightarrow> (\<forall>k. j \<le> k \<longrightarrow> k < length a \<longrightarrow> 0 \<le> cmp (a ! k) (a ! p)) \<Longrightarrow>
   \<exists>i' b. partition_loop cmp a p i j = Some (i', b) \<and> mset b = mset a \<and> i < i' \<and> i' \<le> p \<and> b ! p = a ! p \<and>
     (\<forall>k < i'. cmp (b ! k) (a ! p) \<le> 0) \<and> (\<forall>k. i' \<le> k \<longrightarrow> k < length a \<longrightarrow> 0 \<le> cmp (b ! k) (a ! p))"
proof (induction j arbitrary: i a rule: less_induct)
  case (less j)
  have jl: "j < length a" "0 \<le> cmp (a ! j) (a ! p)" "cmp (a ! i) (a ! p) \<le> 0" using less.prems by simp_all
  obtain u where u: "scan_up cmp a p i = Some u" "i < u" "u \<le> j" "0 \<le> cmp (a ! u) (a ! p)"
    "\<forall>k. i < k \<longrightarrow> k < u \<longrightarrow> cmp (a ! k) (a ! p) < 0"
    using scan_up_spec [OF less.prems(1) jl(1,2)] by blast
  obtain d where d: "scan_down cmp a p j = Some d" "i \<le> d" "d < j" "cmp (a ! d) (a ! p) \<le> 0"
    "\<forall>k. d < k \<longrightarrow> k < j \<longrightarrow> 0 < cmp (a ! k) (a ! p)"
    using scan_down_spec [OF less.prems(1) jl(3)] by blast
  have low: "cmp (a ! k) (a ! p) \<le> 0" if "k < u" for k
    using that u(5) less.prems(4) by (cases "k \<le> i") (auto intro: less_imp_le)
  have high: "0 \<le> cmp (a ! k) (a ! p)" if "d < k" "k < length a" for k
    using that d(5) less.prems(5) by (cases "j \<le> k") (auto intro: less_imp_le)
  show ?case
  proof (cases "d \<le> u")
    case True
    have "0 \<le> cmp (a ! k) (a ! p)" if "u \<le> k" "k < length a" for k
      using that high [of k] u(4) True by (cases "k = u") auto
    moreover have "partition_loop cmp a p i j = Some (u, a)" using u(1) d(1) True by (subst partition_loop.simps) simp
    ultimately show ?thesis using low u(2,3) less.prems(2) by (intro exI [of _ u] exI [of _ a]) auto
  next
    case False
    let ?b = "swap_elements a u d"
    have ul: "u < length a" "d < length a" "u \<noteq> p" "d \<noteq> p" using False d(3) jl(1) less.prems(2) by simp_all
    then have bp: "?b ! p = a ! p" by simp
    have "\<forall>k \<le> u. cmp (?b ! k) (?b ! p) \<le> 0" using ul low d(4) False by (auto simp: le_less)
    moreover have "\<forall>k. d \<le> k \<longrightarrow> k < length ?b \<longrightarrow> 0 \<le> cmp (?b ! k) (?b ! p)" using ul high u(4) False by (auto simp: le_less)
    moreover have "u < d" "d \<le> p" "p < length ?b" using False d(3) less.prems(2,3) by simp_all
    ultimately obtain i' b where b: "partition_loop cmp ?b p u d = Some (i', b)" "mset b = mset ?b" "u < i'" "i' \<le> p" "b ! p = a ! p"
      "\<forall>k < i'. cmp (b ! k) (a ! p) \<le> 0" "\<forall>k. i' \<le> k \<longrightarrow> k < length a \<longrightarrow> 0 \<le> cmp (b ! k) (a ! p)"
      using less.IH [OF d(3), of u ?b] bp by auto
    moreover have "partition_loop cmp a p i j = partition_loop cmp ?b p u d" using u(1) d(1) False by (subst partition_loop.simps) simp
    ultimately show ?thesis using u(2) ul by (intro exI [of _ i'] exI [of _ b]) simp
  qed
qed

lemma swap_if_spec:
  "i < length a \<Longrightarrow> j < length a \<Longrightarrow> i \<noteq> j \<Longrightarrow>
    length (swap_if cmp i j a) = length a \<and> mset (swap_if cmp i j a) = mset a \<and> cmp (swap_if cmp i j a ! j) (swap_if cmp i j a ! i) \<le> 0 \<and>
    (\<forall>k. k \<noteq> i \<longrightarrow> k \<noteq> j \<longrightarrow> swap_if cmp i j a ! k = a ! k)"
  using cmp_le_iff [of "a ! j" "a ! i"] by (auto simp: swap_if_def)

text \<open>The first element is no greater than the median, and the last no less.\<close>

lemma median3_spec:
  assumes "12 < length a"
  shows "mset (median3 cmp a) = mset a \<and> cmp (median3 cmp a ! 0) (median3 cmp a ! (length a - 2)) \<le> 0 \<and>
    cmp (median3 cmp a ! (length a - 2)) (median3 cmp a ! (length a - 1)) \<le> 0"
proof -
  define m h where "m = length a div 2" and "h = length a - 1"
  have ix: "0 < m" "m < h - 1" "h < length a" "h - 1 < h" "0 < length a" "m < length a" "h - 1 < length a" using assms unfolding m_def h_def by linarith+
  define a1 where "a1 = swap_if cmp m 0 a"
  define a2 where "a2 = swap_if cmp h 0 a1"
  define a3 where "a3 = swap_if cmp h m a2"
  have s1: "length a1 = length a" "mset a1 = mset a" "cmp (a1 ! 0) (a1 ! m) \<le> 0" "\<And>k. k \<noteq> m \<Longrightarrow> k \<noteq> 0 \<Longrightarrow> a1 ! k = a ! k"
    using swap_if_spec [of m a 0] ix by (auto simp: a1_def)
  have s2: "length a2 = length a" "mset a2 = mset a" "cmp (a2 ! 0) (a2 ! h) \<le> 0" "\<And>k. k \<noteq> h \<Longrightarrow> k \<noteq> 0 \<Longrightarrow> a2 ! k = a1 ! k"
    using swap_if_spec [of h a1 0] ix s1 by (auto simp: a2_def)
  have "cmp (a2 ! 0) (a1 ! 0) \<le> 0" using ix s1(1) cmp_le_iff by (auto simp: a2_def swap_if_def intro: less_imp_le)
  then have om: "cmp (a2 ! 0) (a2 ! m) \<le> 0" using s1(3) s2(4) [of m] ix cmp_trans by auto
  have s3: "length a3 = length a" "mset a3 = mset a" "cmp (a3 ! m) (a3 ! h) \<le> 0" "\<And>k. k \<noteq> h \<Longrightarrow> k \<noteq> m \<Longrightarrow> a3 ! k = a2 ! k"
    using swap_if_spec [of h a2 m] ix s2 by (auto simp: a3_def)
  have "cmp (a3 ! 0) (a3 ! m) \<le> 0" using om s2(1,3) s3(4) [of 0] ix by (auto simp: a3_def swap_if_def)
  moreover have "median3 cmp a = swap_elements a3 m (h - 1)" by (simp add: median3_def Let_def a1_def a2_def a3_def m_def h_def)
  moreover have "length a - 2 = h - 1" by (simp add: h_def)
  ultimately show ?thesis using s3(1,2,3) ix h_def by simp
qed

section \<open>The sort and the search\<close>

lemma sorted_three:
  assumes "cmp_sorted cmp l" "cmp_sorted cmp r" "\<forall>x \<in> set l. cmp x p \<le> 0" "\<forall>x \<in> set r. 0 \<le> cmp x p"
  shows "cmp_sorted cmp (l @ p # r)"
  using assms cmp_trans cmp_le_iff by (auto simp: cmp_sorted_append)

text \<open>One partition of a long range.\<close>

lemma partition_spec:
  assumes "12 < length a" "p = length a - 2"
  shows "\<exists>i b. partition_loop cmp (median3 cmp a) p 0 p = Some (i, b) \<and> i \<le> p \<and> mset (swap_elements b i p) = mset a \<and>
    (\<forall>x \<in> set (take i (swap_elements b i p)). cmp x (swap_elements b i p ! i) \<le> 0) \<and>
    (\<forall>x \<in> set (drop (i + 1) (swap_elements b i p)). 0 \<le> cmp x (swap_elements b i p ! i))"
proof -
  let ?m = "median3 cmp a"
  note m = median3_spec [OF assms(1)]
  have len: "length ?m = length a" using m mset_eq_length by blast
  have last: "k = p \<or> k = length a - 1" if "p \<le> k" "k < length a" for k using that assms(2) by linarith
  have ge: "\<forall>k. p \<le> k \<longrightarrow> k < length ?m \<longrightarrow> 0 \<le> cmp (?m ! k) (?m ! p)"
    using last m assms(2) cmp_le_iff len by (metis cmp_refl order_refl)
  have ix0: "0 < p" "p < length ?m" using assms len by linarith+
  have le: "\<forall>k \<le> 0. cmp (?m ! k) (?m ! p) \<le> 0" using m assms(2) by simp
  obtain i b where b: "partition_loop cmp ?m p 0 p = Some (i, b)" "mset b = mset ?m" "i \<le> p" "b ! p = ?m ! p"
    "\<forall>k < i. cmp (b ! k) (?m ! p) \<le> 0" "\<forall>k. i \<le> k \<longrightarrow> k < length ?m \<longrightarrow> 0 \<le> cmp (b ! k) (?m ! p)"
    using partition_loop_spec [OF ix0(1) order_refl ix0(2) le ge] by blast
  let ?s = "swap_elements b i p"
  have ix: "length b = length a" "p < length b" "i < length b" using mset_eq_length [OF b(2)] len assms b(3) by simp_all
  have si: "?s ! i = ?m ! p" using ix b(3,4) by simp
  have "\<forall>x \<in> set (take i ?s). cmp x (?s ! i) \<le> 0" unfolding si using b(3,5) by (auto simp: in_set_conv_nth)
  moreover have "0 \<le> cmp x (?s ! i)" if x: "x \<in> set (drop (i + 1) ?s)" for x
  proof -
    obtain k where k: "x = ?s ! (i + 1 + k)" "i + 1 + k < length a" using x ix by (auto simp: in_set_conv_nth)
    then show ?thesis unfolding si using b(6) ix len by (cases "i + 1 + k = p") auto
  qed
  ultimately show ?thesis using b(1,2,3) m ix by (intro exI [of _ i] exI [of _ b]) simp
qed

lemma intro_sort_spec:
  "\<exists>ys. intro_sort cmp depth a = Some ys \<and> cmp_sorted cmp ys \<and> mset ys = mset a"
proof (induction depth arbitrary: a)
  case 0
  have "a \<noteq> []" if "12 < length a" using that by auto
  then show ?case using heap_sort_spec [of a] insertion_sort_spec [of a] by simp
next
  case (Suc depth)
  show ?case
  proof (cases "12 < length a")
    case False
    then show ?thesis using insertion_sort_spec by simp
  next
    case True
    define p where "p = length a - 2"
    obtain i b where b: "partition_loop cmp (median3 cmp a) p 0 p = Some (i, b)" "i \<le> p" "mset (swap_elements b i p) = mset a"
      "\<forall>x \<in> set (take i (swap_elements b i p)). cmp x (swap_elements b i p ! i) \<le> 0"
      "\<forall>x \<in> set (drop (i + 1) (swap_elements b i p)). 0 \<le> cmp x (swap_elements b i p ! i)"
      using partition_spec [OF True p_def] by blast
    define s where "s = swap_elements b i p"
    obtain l where l: "intro_sort cmp depth (take i s) = Some l" "cmp_sorted cmp l" "mset l = mset (take i s)" using Suc.IH by blast
    obtain r where r: "intro_sort cmp depth (drop (i + 1) s) = Some r" "cmp_sorted cmp r" "mset r = mset (drop (i + 1) s)" using Suc.IH by blast
    have e: "intro_sort cmp (Suc depth) a = Some (l @ s ! i # r)"
      using True b(1) l(1) r(1) by (simp add: Let_def p_def [symmetric] s_def [symmetric])
    have "cmp_sorted cmp (l @ s ! i # r)"
      using b(4,5) l(2,3) r(2,3) by (intro sorted_three) (metis s_def mset_eq_setD)+
    moreover have "length s = length a" using b(3) mset_eq_length s_def by blast
    then have "s = take i s @ s ! i # drop (i + 1) s" using b(2) True p_def by (simp add: id_take_nth_drop)
    then have "mset s = mset (take i s) + add_mset (s ! i) (mset (drop (i + 1) s))" by (metis mset.simps(2) mset_append)
    ultimately show ?thesis using e b(3) l(3) r(3) s_def by simp
  qed
qed

lemma bsearch_loop_spec:
  "cmp_sorted cmp a \<Longrightarrow> hi \<le> length a \<Longrightarrow> (\<forall>k < lo. cmp key (a ! k) \<noteq> 0) \<Longrightarrow> (\<forall>k. hi \<le> k \<longrightarrow> k < length a \<longrightarrow> cmp key (a ! k) \<noteq> 0) \<Longrightarrow>
   (case bsearch_loop cmp key a lo hi of None \<Rightarrow> \<forall>k < length a. cmp key (a ! k) \<noteq> 0 | Some i \<Rightarrow> i < length a \<and> cmp key (a ! i) = 0)"
proof (induction "hi - lo" arbitrary: lo hi rule: less_induct)
  case less
  show ?case
  proof (cases "lo < hi")
    case False
    then have "\<forall>k < length a. cmp key (a ! k) \<noteq> 0" using less.prems(3,4) by (meson not_less order_trans)
    then show ?thesis using False by (subst bsearch_loop.simps) simp
  next
    case True
    define mid where "mid = lo + (hi - lo) div 2"
    have mid: "lo \<le> mid" "mid < hi" using True unfolding mid_def by linarith+
    have le: "cmp (a ! k) (a ! l) \<le> 0" if "k \<le> l" "l < length a" for k l
      using less.prems(1) that unfolding cmp_sorted_def by (cases "k = l") (auto intro: sorted_wrt_nth_less)
    have e: "bsearch_loop cmp key a lo hi = (if cmp key (a ! mid) = 0 then Some mid
      else if cmp key (a ! mid) < 0 then bsearch_loop cmp key a lo mid else bsearch_loop cmp key a (mid + 1) hi)"
      using True by (subst bsearch_loop.simps) (simp add: Let_def mid_def)
    consider "cmp key (a ! mid) = 0" | "cmp key (a ! mid) < 0" | "0 < cmp key (a ! mid)" by linarith
    then show ?thesis
    proof cases
      case 1
      then show ?thesis using e mid less.prems(2) by simp
    next
      case 2
      have "cmp key (a ! k) \<noteq> 0" if "mid \<le> k" "k < length a" for k using cmp_less_trans [OF 2 le [OF that]] by simp
      then show ?thesis using less.hyps [of mid lo] 2 e mid less.prems by simp
    next
      case 3
      have "cmp key (a ! k) \<noteq> 0" if "k < mid + 1" for k
      proof -
        have "cmp (a ! k) (a ! mid) \<le> 0" using le that mid less.prems(2) by simp
        moreover have "cmp (a ! mid) key < 0" using 3 cmp_sym by blast
        ultimately have "cmp (a ! k) key < 0" using cmp_le_less_trans by blast
        then show ?thesis using cmp_eq_sym [of key "a ! k"] by simp
      qed
      then show ?thesis using less.hyps [of hi "mid + 1"] 3 e mid less.prems by simp
    qed
  qed
qed

end

lemma qsort_spec:
  assumes "total_cmp cmp" "0 < sz"
  shows "\<exists>ys. qsort xs sz cmp = Some ys \<and> cmp_sorted cmp ys \<and> mset ys = mset xs"
proof (cases "length xs < 2")
  case True
  then have "cmp_sorted cmp xs" by (cases xs; cases "tl xs") auto
  then show ?thesis using True by (simp add: qsort_def)
next
  case False
  then show ?thesis using total_cmp.intro_sort_spec [OF assms(1)] assms(2) by (simp add: qsort_def)
qed

section \<open>The vector's sorts\<close>

text \<open>The elements at the vector's storage. A sort changes the first \<open>v_len\<close> of its slots.\<close>

definition v_set :: "'a vector \<Rightarrow> 'a list \<Rightarrow> 'a vector" where
  "v_set v ys = v\<lparr>v_data := map Some ys @ drop (length ys) (v_data v)\<rparr>"

definition vector_sort :: "'a vector \<Rightarrow> 'a comparator \<Rightarrow> 'a vector option" where
  "vector_sort v cmp = (if 1 < v_len v then map_option (v_set v) (qsort (vlist v) (v_elem v) cmp) else Some v)"

definition vector_sort_stable :: "allocs \<Rightarrow> 'a list \<Rightarrow> 'a vector \<Rightarrow> 'a comparator \<Rightarrow> ('a vector \<times> int) option" where
  "vector_sort_stable al junk v cmp = map_option (\<lambda>(ys, r). (v_set v ys, r)) (sort_stable al junk (vlist v) (v_elem v) cmp)"

lemma v_set_spec:
  assumes "vec_wf v" "length ys = v_len v"
  shows "vec_wf (v_set v ys)" "vlist (v_set v ys) = ys" "v_len (v_set v ys) = v_len v"
  using vec_wfI [of "v_set v ys" ys] assms vec_wf_len [OF assms(1)] by (simp_all add: v_set_def vec_wf_def)

lemma vector_sort_spec:
  assumes "vec_wf v" "total_cmp cmp"
  shows "\<exists>w. vector_sort v cmp = Some w \<and> vec_wf w \<and> cmp_sorted cmp (vlist w) \<and> mset (vlist w) = mset (vlist v)"
proof (cases "1 < v_len v")
  case True
  have "0 < v_elem v" using assms(1) by (simp add: vec_wf_def)
  then obtain ys where ys: "qsort (vlist v) (v_elem v) cmp = Some ys" "cmp_sorted cmp ys" "mset ys = mset (vlist v)"
    using qsort_spec [OF assms(2)] by blast
  have "length ys = v_len v" using mset_eq_length [OF ys(3)] assms(1) by simp
  then show ?thesis using True ys v_set_spec [OF assms(1)] by (simp add: vector_sort_def)
next
  case False
  then have "length (vlist v) \<le> 1" using assms(1) by simp
  then have "cmp_sorted cmp (vlist v)" by (cases "vlist v"; cases "tl (vlist v)") auto
  then show ?thesis using False assms(1) by (simp add: vector_sort_def)
qed

text \<open>
  C34: \<open>qsort\<close> sorts: with a comparator that is a total order up to equality neither scan of a partition leaves its range and the
  result is the elements in order, each as often as before. \<open>bsearch\<close> on it finds an element equal to the key when there is one, and
  \<open>NULL\<close> when there is none.
\<close>

theorem qsort_bsearch_correct:
  assumes "total_cmp cmp" "0 < sz"
  shows "\<exists>ys. qsort xs sz cmp = Some ys \<and> cmp_sorted cmp ys \<and> mset ys = mset xs \<and>
    (case bsearch key ys cmp of
       None \<Rightarrow> \<forall>x \<in> set xs. cmp key x \<noteq> 0
     | Some i \<Rightarrow> i < length ys \<and> cmp key (ys ! i) = 0)"
proof -
  obtain ys where ys: "qsort xs sz cmp = Some ys" "cmp_sorted cmp ys" "mset ys = mset xs" using qsort_spec [OF assms] by blast
  have "\<forall>k < length ys. cmp key (ys ! k) \<noteq> 0 \<Longrightarrow> \<forall>x \<in> set xs. cmp key x \<noteq> 0"
    using mset_eq_setD [OF ys(3)] by (metis in_set_conv_nth)
  then show ?thesis
    using ys total_cmp.bsearch_loop_spec [OF assms(1) ys(2) order_refl, of 0 key] by (auto simp: bsearch_def split: option.splits)
qed

theorem qsort_bsearch_correct_witness:
  "\<exists>ys. qsort [3, 1, 2] 4 int_cmp = Some ys \<and> mset ys = mset [3, 1, 2] \<and>
    (case bsearch 2 ys int_cmp of None \<Rightarrow> False | Some i \<Rightarrow> ys ! i = 2)"
proof -
  obtain ys where ys: "qsort [3, 1, 2] 4 int_cmp = Some ys" "mset ys = mset [3, 1, 2]"
    "case bsearch 2 ys int_cmp of None \<Rightarrow> \<forall>x \<in> set [3, 1, 2]. int_cmp 2 x \<noteq> 0 | Some i \<Rightarrow> i < length ys \<and> int_cmp 2 (ys ! i) = 0"
    using qsort_bsearch_correct [OF int_cmp_total, of 4 "[3, 1, 2]" 2] by auto
  have "case bsearch 2 ys int_cmp of None \<Rightarrow> False | Some i \<Rightarrow> ys ! i = 2"
    using ys(3) by (cases "bsearch 2 ys int_cmp") (auto simp: int_cmp_def split: if_splits)
  then show ?thesis using ys(1,2) by blast
qed

end
