(* ===== verification/Memory.thy ===== *)
theory Memory
  imports Bits
begin

text \<open>
  The machine's memory as bytes: what \<open>src/malloc.c\<close> reads and writes through pointers. An address is its number. A word is little-endian, as
  the machine has it; \<open>memset\<close> and \<open>memcpy\<close> are the functions of the C library on ranges that do not overlap.
\<close>

type_synonym mem = "nat \<Rightarrow> u8"

definition ld32 :: "mem \<Rightarrow> nat \<Rightarrow> u32" where
  "ld32 m a = le32 [m a, m (a + 1), m (a + 2), m (a + 3)] 0"

definition st32 :: "mem \<Rightarrow> nat \<Rightarrow> u32 \<Rightarrow> mem" where
  "st32 m a v =
     (let p = put_le32 [0, 0, 0, 0] 0 v
      in m(a := p ! 0, a + 1 := p ! 1, a + 2 := p ! 2, a + 3 := p ! 3))"

definition mem_set :: "mem \<Rightarrow> nat \<Rightarrow> u8 \<Rightarrow> nat \<Rightarrow> mem" where
  "mem_set m d c n = (\<lambda>x. if d \<le> x \<and> x < d + n then c else m x)"

definition mem_copy :: "mem \<Rightarrow> nat \<Rightarrow> nat \<Rightarrow> nat \<Rightarrow> mem" where
  "mem_copy m d s n = (\<lambda>x. if d \<le> x \<and> x < d + n then m (s + (x - d)) else m x)"

lemma list4: "length p = 4 \<Longrightarrow> [p ! 0, p ! 1, p ! 2, p ! 3] = (p :: 'a list)"
  by (auto simp: length_Suc_conv numeral_eq_Suc)

lemma ld32_st32_same [simp]: "ld32 (st32 m a v) a = v"
proof -
  let ?p = "put_le32 [0, 0, 0, 0] 0 v"
  have "ld32 (st32 m a v) a = le32 [?p ! 0, ?p ! 1, ?p ! 2, ?p ! 3] 0" by (simp add: ld32_def st32_def Let_def)
  also have "[?p ! 0, ?p ! 1, ?p ! 2, ?p ! 3] = ?p" by (rule list4) simp
  finally show ?thesis by (simp add: le32_put_le32)
qed

lemma st32_other: "x < a \<or> a + 4 \<le> x \<Longrightarrow> st32 m a v x = m x"
  by (auto simp: st32_def Let_def)

text \<open>Words at different multiples of four are independent.\<close>

lemma ld32_st32_other: "4 dvd a \<Longrightarrow> 4 dvd b \<Longrightarrow> a \<noteq> b \<Longrightarrow> ld32 (st32 m a v) b = ld32 m b"
proof -
  assume "4 dvd a" "4 dvd b" "a \<noteq> b"
  then have "b + 4 \<le> a \<or> a + 4 \<le> b" by (elim dvdE) auto
  then show ?thesis by (auto simp: ld32_def st32_other)
qed

lemma ld32_cong: "(\<And>x. a \<le> x \<Longrightarrow> x < a + 4 \<Longrightarrow> m x = m' x) \<Longrightarrow> ld32 m a = ld32 m' a"
  by (simp add: ld32_def)

end
