(* ===== verification/Malloc.thy ===== *)
theory Malloc
  imports Memory
begin

text \<open>
  \<open>src/malloc.c\<close>, the segregated fit allocator, as it is built without \<open>CERES_HEAP_DEBUG\<close>. A block is the address of its header in a
  memory of bytes, a pointer an address, 0 the null pointer. The machine is part of the state: where the image ends and the stack
  pointer is, the stack limit it was last told, and what a scheduler's hook and an error handler that returns are called with. Sums and differences of
  addresses and sizes wrap as \<open>unsigned int\<close>.
\<close>

section \<open>The state\<close>

record heap =
  hp_mem :: mem
  hp_bins :: "nat \<Rightarrow> nat"
  hp_fl_map :: u32
  hp_sl_map :: "nat \<Rightarrow> u32"
  hp_first :: nat
  hp_epilogue :: nat
  hp_reserve :: nat
  hp_main_sp :: nat
  hp_hooked :: bool
  hp_sp :: nat
  hp_start :: nat
  hp_stack_limit :: nat
  hp_hook_calls :: "nat list"
  hp_errors :: "(string \<times> nat) list"
  hp_errno :: nat

definition HDR :: nat where "HDR = 8"
definition B_FREE :: u32 where "B_FREE = 1"
definition B_PREV_FREE :: u32 where "B_PREV_FREE = 2"
definition MIN_PAYLOAD :: nat where "MIN_PAYLOAD = 8"
definition MIN_SPLIT :: nat where "MIN_SPLIT = HDR + MIN_PAYLOAD"
definition MAX_REQUEST :: nat where "MAX_REQUEST = 0x40000000"
definition SMALL :: nat where "SMALL = 64"
definition SL_COUNT :: nat where "SL_COUNT = 8"
definition FL_COUNT :: nat where "FL_COUNT = 26"
definition HEAP_ENOMEM :: nat where "HEAP_ENOMEM = 12"
definition HEAP_EINVAL :: nat where "HEAP_EINVAL = 22"

lemmas heap_consts = HDR_def B_FREE_def B_PREV_FREE_def MIN_PAYLOAD_def MIN_SPLIT_def SL_COUNT_def FL_COUNT_def

text \<open>The fields of \<open>struct blk\<close>.\<close>

definition prev_size :: "heap \<Rightarrow> nat \<Rightarrow> nat" where "prev_size h b = unat (ld32 (hp_mem h) b)"
definition head :: "heap \<Rightarrow> nat \<Rightarrow> u32" where "head h b = ld32 (hp_mem h) (b + 4)"
definition next_free :: "heap \<Rightarrow> nat \<Rightarrow> nat" where "next_free h b = unat (ld32 (hp_mem h) (b + 8))"
definition prev_free :: "heap \<Rightarrow> nat \<Rightarrow> nat" where "prev_free h b = unat (ld32 (hp_mem h) (b + 12))"

definition set_prev_size :: "nat \<Rightarrow> nat \<Rightarrow> heap \<Rightarrow> heap" where
  "set_prev_size b v h = h\<lparr>hp_mem := st32 (hp_mem h) b (of_nat v)\<rparr>"
definition set_head :: "nat \<Rightarrow> u32 \<Rightarrow> heap \<Rightarrow> heap" where
  "set_head b v h = h\<lparr>hp_mem := st32 (hp_mem h) (b + 4) v\<rparr>"
definition set_next_free :: "nat \<Rightarrow> nat \<Rightarrow> heap \<Rightarrow> heap" where
  "set_next_free b v h = h\<lparr>hp_mem := st32 (hp_mem h) (b + 8) (of_nat v)\<rparr>"
definition set_prev_free :: "nat \<Rightarrow> nat \<Rightarrow> heap \<Rightarrow> heap" where
  "set_prev_free b v h = h\<lparr>hp_mem := st32 (hp_mem h) (b + 12) (of_nat v)\<rparr>"

definition SIZE :: "heap \<Rightarrow> nat \<Rightarrow> nat" where "SIZE h b = unat (head h b AND NOT 7)"
definition PAYLOAD :: "nat \<Rightarrow> nat" where "PAYLOAD b = add32 b HDR"
definition OF :: "nat \<Rightarrow> nat" where "OF p = sub32 p HDR"
definition NEXT_PHYS :: "heap \<Rightarrow> nat \<Rightarrow> nat" where "NEXT_PHYS h b = add32 (PAYLOAD b) (SIZE h b)"
definition PREV_PHYS :: "heap \<Rightarrow> nat \<Rightarrow> nat" where "PREV_PHYS h b = sub32 (sub32 b HDR) (prev_size h b)"
definition ALIGN8 :: "nat \<Rightarrow> nat" where "ALIGN8 n = unat ((of_nat n + 7 :: u32) AND NOT 7)"

section \<open>The size classes\<close>

definition top_bit :: "nat \<Rightarrow> nat" where
  "top_bit x = 31 - bit_clz (of_nat x)"

definition bin_of :: "nat \<Rightarrow> nat" where
  "bin_of sz =
     (if sz < SMALL then drop_bit 3 sz
      else let t = top_bit sz in push_bit 3 (t - 5) OR (drop_bit (t - 3) sz AND 7))"

definition unlink_free :: "nat \<Rightarrow> heap \<Rightarrow> heap" where
  "unlink_free b h =
     (let i = bin_of (SIZE h b); nxt = next_free h b; prev = prev_free h b;
          h = (if prev \<noteq> 0 then set_next_free prev nxt h else h\<lparr>hp_bins := (hp_bins h)(i := nxt)\<rparr>)
      in if nxt \<noteq> 0 then set_prev_free nxt prev h
         else if prev = 0 then
           let fl = i div 8;
               h = h\<lparr>hp_sl_map := (hp_sl_map h)(fl := hp_sl_map h fl AND NOT (push_bit (i mod 8) 1))\<rparr>
           in if hp_sl_map h fl = 0 then h\<lparr>hp_fl_map := hp_fl_map h AND NOT (push_bit fl 1)\<rparr> else h
         else h)"

definition round_up :: "nat \<Rightarrow> nat" where
  "round_up sz = (if SMALL \<le> sz then add32 sz (2 ^ (top_bit sz - 3) - 1) else sz)"

definition find :: "heap \<Rightarrow> nat \<Rightarrow> nat" where
  "find h sz =
     (let i = bin_of (round_up sz); fl = i div 8; sl = i mod 8
      in if FL_COUNT \<le> fl then 0
         else let sl_bits = hp_sl_map h fl AND push_bit sl (NOT 0)
           in if sl_bits = 0 then
                let fl_bits = (if fl + 1 < 32 then hp_fl_map h AND push_bit (fl + 1) (NOT 0) else 0)
                in if fl_bits = 0 then 0
                   else let fl = bit_ctz fl_bits in hp_bins h (fl * SL_COUNT + bit_ctz (hp_sl_map h fl))
              else hp_bins h (fl * SL_COUNT + bit_ctz sl_bits))"

section \<open>The edges of the heap\<close>

definition heap_set_stack_reserve :: "nat \<Rightarrow> heap \<Rightarrow> heap" where
  "heap_set_stack_reserve bytes h = h\<lparr>hp_reserve := bytes\<rparr>"

definition heap_limit :: "heap \<Rightarrow> nat" where
  "heap_limit h =
     (let sp = (if hp_main_sp h \<noteq> 0 then hp_main_sp h else hp_sp h)
      in if hp_reserve h < sp then sp - hp_reserve h else 0)"

definition heap_top_moved :: "nat \<Rightarrow> heap \<Rightarrow> heap" where
  "heap_top_moved to h =
     (if hp_hooked h then h\<lparr>hp_hook_calls := hp_hook_calls h @ [to]\<rparr> else h\<lparr>hp_stack_limit := to\<rparr>)"

definition heap_brk :: "heap \<Rightarrow> nat" where
  "heap_brk h = add32 (hp_epilogue h) HDR"

definition start_heap :: "heap \<Rightarrow> heap \<times> bool" where
  "start_heap h =
     (if hp_first h \<noteq> 0 then (h, True)
      else let start = ALIGN8 (hp_start h)
        in if heap_limit h < add32 start HDR then (h, False)
           else let h = h\<lparr>hp_first := start, hp_epilogue := start\<rparr>;
                    h = set_head start 0 (set_prev_size start 0 h)
                in (heap_top_moved (heap_brk h) h, True))"

definition move_top :: "nat \<Rightarrow> heap \<Rightarrow> heap \<times> bool" where
  "move_top to h =
     (if to < hp_first h \<or> heap_limit h < add32 to HDR then (h, False)
      else let h = set_head to 0 (set_prev_size to 0 (h\<lparr>hp_epilogue := to\<rparr>))
           in (heap_top_moved (heap_brk h) h, True))"

text \<open>The end of \<open>grow\<close>: the block at \<open>b\<close>, the last one when it is free, takes \<open>sz\<close> bytes up to a new top.\<close>

definition grow_to :: "nat \<Rightarrow> nat \<Rightarrow> u32 \<Rightarrow> heap \<Rightarrow> heap \<times> nat" where
  "grow_to b sz flags h =
     (if add32 (PAYLOAD b) sz < PAYLOAD b then (h, 0)
      else let old_epilogue = hp_epilogue h
        in case move_top (add32 (PAYLOAD b) sz) h of (h, ok) \<Rightarrow>
             if \<not> ok then (h, 0)
             else let h = (if b \<noteq> old_epilogue then unlink_free b h else h)
               in (set_head b (of_nat sz OR flags) h, b))"

definition grow :: "nat \<Rightarrow> heap \<Rightarrow> heap \<times> nat" where
  "grow sz h =
     (let e = hp_epilogue h
      in if head h e AND B_PREV_FREE \<noteq> 0 then
           let b = PREV_PHYS h e; flags = head h b AND B_PREV_FREE
           in if sz \<le> SIZE h b then
                let h = unlink_free b h;
                    h = set_head b (head h b AND NOT B_FREE) h;
                    h = set_head e (head h e AND NOT B_PREV_FREE) h
                in (h, b)
              else grow_to b sz flags h
         else grow_to e sz (head h e AND B_PREV_FREE) h)"

section \<open>Free blocks\<close>

definition insert_free :: "nat \<Rightarrow> heap \<Rightarrow> heap" where
  "insert_free b h =
     (let h = set_head b (head h b OR B_FREE) h;
          nxt = NEXT_PHYS h b;
          h = set_prev_size nxt (SIZE h b) h;
          h = set_head nxt (head h nxt OR B_PREV_FREE) h;
          i = bin_of (SIZE h b);
          fl = i div 8;
          h = set_prev_free b 0 h;
          h = set_next_free b (hp_bins h i) h;
          h = (if hp_bins h i \<noteq> 0 then set_prev_free (hp_bins h i) b h else h)
      in h\<lparr>hp_bins := (hp_bins h)(i := b),
           hp_sl_map := (hp_sl_map h)(fl := hp_sl_map h fl OR push_bit (i mod 8) 1),
           hp_fl_map := hp_fl_map h OR push_bit fl 1\<rparr>)"

definition release :: "nat \<Rightarrow> heap \<Rightarrow> heap" where
  "release b h =
     (let nxt = NEXT_PHYS h b;
          h = (if head h nxt AND B_FREE \<noteq> 0 then
                 let h = unlink_free nxt h in set_head b (head h b + of_nat (add32 HDR (SIZE h nxt))) h
               else h)
      in if head h b AND B_PREV_FREE \<noteq> 0 then
           let prev = PREV_PHYS h b;
               h = unlink_free prev h;
               h = set_head prev ((head h prev AND NOT B_FREE) + of_nat HDR + of_nat (SIZE h b)) h
           in insert_free prev h
         else insert_free b h)"

definition trim :: "nat \<Rightarrow> nat \<Rightarrow> heap \<Rightarrow> heap" where
  "trim b sz h =
     (if sub32 (SIZE h b) sz < MIN_SPLIT then h
      else let rest = add32 (PAYLOAD b) sz;
               h = set_head rest (of_nat (sub32 (sub32 (SIZE h b) sz) HDR)) h;
               h = set_head b (of_nat sz OR (head h b AND B_PREV_FREE)) h
           in release rest h)"

section \<open>Errors\<close>

definition heap_error :: "string \<Rightarrow> nat \<Rightarrow> heap \<Rightarrow> heap" where
  "heap_error what p h = h\<lparr>hp_errors := hp_errors h @ [(what, p)]\<rparr>"

definition in_heap :: "heap \<Rightarrow> nat \<Rightarrow> bool" where
  "in_heap h p \<longleftrightarrow> hp_first h \<noteq> 0 \<and> p mod 8 = 0 \<and> PAYLOAD (hp_first h) \<le> p \<and> p < hp_epilogue h"

definition live_block :: "heap \<Rightarrow> nat \<Rightarrow> bool" where
  "live_block h p \<longleftrightarrow>
     in_heap h p \<and>
     (let b = OF p
      in \<not> (head h b AND (B_FREE OR 4) \<noteq> 0 \<or> SIZE h b < MIN_PAYLOAD) \<and>
         (let fin = add32 (PAYLOAD b) (SIZE h b)
          in \<not> (fin < PAYLOAD b \<or> hp_epilogue h < fin)) \<and>
         head h (NEXT_PHYS h b) AND B_PREV_FREE = 0 \<and>
         (head h b AND B_PREV_FREE \<noteq> 0 \<longrightarrow>
            (let below = sub32 (sub32 b HDR) (prev_size h b)
             in \<not> (prev_size h b < MIN_PAYLOAD \<or> below < hp_first h \<or> b \<le> below)) \<and>
            (let prev = PREV_PHYS h b in head h prev AND B_FREE \<noteq> 0 \<and> SIZE h prev = prev_size h b)))"

section \<open>The interface\<close>

definition block_size :: "nat \<Rightarrow> nat" where
  "block_size n = (let sz = ALIGN8 n in if sz < MIN_PAYLOAD then MIN_PAYLOAD else sz)"

definition take_block :: "nat \<Rightarrow> heap \<Rightarrow> heap \<times> nat" where
  "take_block sz h =
     (case start_heap h of (h, ok) \<Rightarrow>
        if \<not> ok then (h, 0)
        else let b = find h sz
          in if b \<noteq> 0 then
               let h = unlink_free b h;
                   h = set_head b (head h b AND NOT B_FREE) h;
                   nxt = NEXT_PHYS h b;
                   h = set_head nxt (head h nxt AND NOT B_PREV_FREE) h
               in (h, b)
             else grow sz h)"

definition malloc :: "nat \<Rightarrow> heap \<Rightarrow> heap \<times> nat" where
  "malloc n h =
     (if n = 0 then (h, 0)
      else if MAX_REQUEST < n then (h\<lparr>hp_errno := HEAP_ENOMEM\<rparr>, 0)
      else let sz = block_size n
        in case take_block sz h of (h, b) \<Rightarrow>
             if b = 0 then (h\<lparr>hp_errno := HEAP_ENOMEM\<rparr>, 0) else (trim b sz h, PAYLOAD b))"

definition free_ptr :: "nat \<Rightarrow> heap \<Rightarrow> heap" where
  "free_ptr p h =
     (if p = 0 then h
      else if \<not> in_heap h p then heap_error ''free of a pointer malloc did not return'' p h
      else if head h (OF p) AND B_FREE \<noteq> 0 then heap_error ''double free'' p h
      else if \<not> live_block h p then heap_error ''free of a pointer that is not a live block'' p h
      else release (OF p) h)"

definition calloc :: "nat \<Rightarrow> nat \<Rightarrow> heap \<Rightarrow> heap \<times> nat" where
  "calloc n sz h =
     (if sz \<noteq> 0 \<and> UINT_MAX div sz < n then (h\<lparr>hp_errno := HEAP_ENOMEM\<rparr>, 0)
      else let tot = mul32 n sz
        in case malloc tot h of (h, p) \<Rightarrow> (if p \<noteq> 0 then h\<lparr>hp_mem := mem_set (hp_mem h) p 0 tot\<rparr> else h, p))"

definition malloc_usable_size :: "heap \<Rightarrow> nat \<Rightarrow> nat" where
  "malloc_usable_size h p = (if p = 0 \<or> \<not> live_block h p then 0 else SIZE h (OF p))"

text \<open>The three ways \<open>realloc\<close> lets a block grow: into the free block above, past the top, and by moving.\<close>

definition realloc_move :: "nat \<Rightarrow> nat \<Rightarrow> heap \<Rightarrow> heap \<times> nat" where
  "realloc_move p n h =
     (case malloc n h of (h, q) \<Rightarrow>
        if q = 0 then (h, 0)
        else (free_ptr p (h\<lparr>hp_mem := mem_copy (hp_mem h) q p (SIZE h (OF p))\<rparr>), q))"

definition realloc_grow :: "nat \<Rightarrow> nat \<Rightarrow> nat \<Rightarrow> heap \<Rightarrow> heap \<times> nat" where
  "realloc_grow p n sz h =
     (let b = OF p;
          nxt = NEXT_PHYS h b;
          room = (if head h nxt AND B_FREE \<noteq> 0 then add32 (SIZE h b) (add32 HDR (SIZE h nxt)) else SIZE h b);
          above = (if head h nxt AND B_FREE \<noteq> 0 then NEXT_PHYS h nxt else nxt)
      in if head h nxt AND B_FREE \<noteq> 0 \<and> sz \<le> room then
           let h = unlink_free nxt h;
               h = set_head b (head h b + of_nat (add32 HDR (SIZE h nxt))) h;
               up = NEXT_PHYS h b;
               h = set_head up (head h up AND NOT B_PREV_FREE) h
           in (trim b sz h, p)
         else if above = hp_epilogue h \<and> PAYLOAD b < add32 (PAYLOAD b) sz then
           (case move_top (add32 (PAYLOAD b) sz) h of (h', ok) \<Rightarrow>
              if ok then
                let h' = (if nxt \<noteq> above then unlink_free nxt h' else h')
                in (set_head b (of_nat sz OR (head h' b AND B_PREV_FREE)) h', p)
              else realloc_move p n h)
         else realloc_move p n h)"

definition realloc :: "nat \<Rightarrow> nat \<Rightarrow> heap \<Rightarrow> heap \<times> nat" where
  "realloc p n h =
     (if p = 0 then malloc n h
      else if n = 0 then (free_ptr p h, 0)
      else if \<not> live_block h p then
        (heap_error
           (if \<not> in_heap h p then ''realloc of a pointer malloc did not return''
            else if head h (OF p) AND B_FREE \<noteq> 0 then ''realloc of a freed block''
            else ''realloc of a pointer that is not a live block'') p h, 0)
      else if MAX_REQUEST < n then (h\<lparr>hp_errno := HEAP_ENOMEM\<rparr>, 0)
      else let sz = block_size n
        in if sz \<le> SIZE h (OF p) then (trim (OF p) sz h, p) else realloc_grow p n sz h)"

definition cut_front :: "nat \<Rightarrow> nat \<Rightarrow> heap \<Rightarrow> heap \<times> nat" where
  "cut_front b alignment h =
     (let at = PAYLOAD b;
          want = unat ((of_nat at + of_nat alignment - 1 :: u32) AND NOT (of_nat alignment - 1))
      in if want \<noteq> at then
           let want = (if sub32 want at < MIN_SPLIT then add32 want alignment else want);
               front = sub32 want at;
               nb = OF want;
               h = set_head nb (of_nat (sub32 (SIZE h b) front)) h;
               h = set_head b (of_nat (sub32 front HDR) OR (head h b AND B_PREV_FREE)) h
           in (release b h, nb)
         else (h, b))"

definition aligned_alloc :: "nat \<Rightarrow> nat \<Rightarrow> heap \<Rightarrow> heap \<times> nat" where
  "aligned_alloc alignment n h =
     (if alignment = 0 \<or> (of_nat alignment :: u32) AND (of_nat alignment - 1) \<noteq> 0 then (h\<lparr>hp_errno := HEAP_EINVAL\<rparr>, 0)
      else if MAX_REQUEST < alignment then (h\<lparr>hp_errno := HEAP_ENOMEM\<rparr>, 0)
      else if alignment \<le> 8 then malloc n h
      else if n = 0 then (h, 0)
      else if MAX_REQUEST < n then (h\<lparr>hp_errno := HEAP_ENOMEM\<rparr>, 0)
      else let sz = block_size n
        in case take_block (add32 (add32 sz alignment) MIN_SPLIT) h of (h, b) \<Rightarrow>
             if b = 0 then (h\<lparr>hp_errno := HEAP_ENOMEM\<rparr>, 0)
             else case cut_front b alignment h of (h, b) \<Rightarrow> (trim b sz h, PAYLOAD b))"

text \<open>\<open>posix_memalign\<close> with an \<open>out\<close> that is not null: what it returns, and what is stored through \<open>out\<close>.\<close>

definition posix_memalign :: "nat \<Rightarrow> nat \<Rightarrow> heap \<Rightarrow> heap \<times> nat \<times> nat option" where
  "posix_memalign alignment n h =
     (if alignment < 4 \<or> (of_nat alignment :: u32) AND (of_nat alignment - 1) \<noteq> 0 then (h, HEAP_EINVAL, None)
      else case (if n = 0 then (h, 0) else aligned_alloc alignment n h) of (h', p) \<Rightarrow>
        let h'' = h'\<lparr>hp_errno := hp_errno h\<rparr>
        in if n \<noteq> 0 \<and> p = 0 then (h'', if hp_errno h' = HEAP_EINVAL then HEAP_EINVAL else HEAP_ENOMEM, None)
           else (h'', 0, Some p))"

end
