(* ===== verification/Malloc_Class.thy ===== *)
theory Malloc_Class
  imports Malloc
begin

text \<open>Header words and size classes: what the flag bits of \<open>head\<close> do to the size, and which sizes a list holds.\<close>

section \<open>Header words\<close>

definition hd_word :: "nat \<Rightarrow> bool \<Rightarrow> bool \<Rightarrow> u32" where
  "hd_word s f p = of_nat s OR (if f then 1 else 0) OR (if p then 2 else 0)"

lemma bit_low_8: "8 dvd s \<Longrightarrow> k < 3 \<Longrightarrow> \<not> bit (s :: nat) k"
  by (elim dvdE) (auto simp: bit_iff_odd numeral_3_eq_3 less_Suc_eq)

lemma bit_1_u32: "bit (1 :: u32) k \<longleftrightarrow> k = 0"
  by (simp add: bit_1_iff)

lemma bit_2_u32: "bit (2 :: u32) k \<longleftrightarrow> k = 1"
  by (auto simp: bit_2_iff)

lemma bit_7_u32: "bit (7 :: u32) k \<longleftrightarrow> k < 3"
proof -
  have "(7 :: u32) = mask 3" by (simp add: mask_eq_exp_minus_1)
  then show ?thesis using bit_mask_iff [of 3 k, where ?'a = u32] by (simp only:) auto
qed

lemma bit_4_u32: "bit (4 :: u32) k \<longleftrightarrow> k = 2"
  using bit_exp_iff [of 2 k, where ?'a = u32] by auto

lemma bit_masks:
  "bit (2 :: int) k \<longleftrightarrow> k = 1" "bit (7 :: int) k \<longleftrightarrow> k < 3" "bit (4 :: int) k \<longleftrightarrow> k = 2"
  "bit (- 2 :: int) k \<longleftrightarrow> k \<noteq> 0" "bit (- 3 :: int) k \<longleftrightarrow> k \<noteq> 1" "bit (- 8 :: int) k \<longleftrightarrow> 3 \<le> k"
proof -
  have m: "(2 :: int) = push_bit 1 1" "(4 :: int) = push_bit 2 1" "(7 :: int) = mask 3" by (simp_all add: mask_eq_exp_minus_1)
  show pos: "bit (2 :: int) k \<longleftrightarrow> k = 1" "bit (7 :: int) k \<longleftrightarrow> k < 3" "bit (4 :: int) k \<longleftrightarrow> k = 2"
    unfolding m by (auto simp only: bit_push_bit_iff bit_mask_iff bit_1_iff possible_bit_int)
  show "bit (- 2 :: int) k \<longleftrightarrow> k \<noteq> 0" "bit (- 3 :: int) k \<longleftrightarrow> k \<noteq> 1" "bit (- 8 :: int) k \<longleftrightarrow> 3 \<le> k"
    using bit_not_int_iff [of 1 k] bit_not_int_iff [of 2 k] bit_not_int_iff [of 7 k] pos by (auto simp: bit_1_iff)
qed

lemma bit_hd_word:
  "8 dvd s \<Longrightarrow> bit (hd_word s f p) k \<longleftrightarrow> k < 32 \<and> (if k = 0 then f else if k = 1 then p else bit s k)"
  using bit_low_8 [of s k] bit_low_8 [of s 0] bit_low_8 [of s 1]
  by (auto simp: hd_word_def bit_or_iff bit_of_nat_iff bit_1_u32 bit_2_u32 bit_masks possible_bit_word)

lemma hd_word_masks:
  assumes "8 dvd s"
  shows "hd_word s f p OR 1 = hd_word s True p" "hd_word s f p AND NOT 1 = hd_word s False p"
    "hd_word s f p OR 2 = hd_word s f True" "hd_word s f p AND NOT 2 = hd_word s f False"
    "hd_word s f p AND 2 = hd_word 0 False p" "hd_word s f p AND NOT 7 = of_nat s"
    "of_nat s OR hd_word 0 False p = hd_word s False p"
proof -
  have low: "bit s k \<Longrightarrow> 3 \<le> k" for k using bit_low_8 [OF assms, of k] by linarith
  show "hd_word s f p OR 1 = hd_word s True p" "hd_word s f p AND NOT 1 = hd_word s False p"
    "hd_word s f p OR 2 = hd_word s f True" "hd_word s f p AND NOT 2 = hd_word s f False"
    "hd_word s f p AND 2 = hd_word 0 False p" "hd_word s f p AND NOT 7 = of_nat s"
    "of_nat s OR hd_word 0 False p = hd_word s False p"
    using assms
    by (auto intro!: bit_word_eqI simp: bit_hd_word bit_or_iff bit_and_iff bit_not_iff bit_1_u32 bit_2_u32 bit_7_u32 bit_masks bit_of_nat_iff possible_bit_word
      dest: low split: if_splits) (use low in force)+
qed

lemma hd_word_flags:
  assumes "8 dvd s"
  shows "hd_word s f p AND 1 \<noteq> 0 \<longleftrightarrow> f" "hd_word s f p AND 2 \<noteq> 0 \<longleftrightarrow> p" "hd_word s f p AND (1 OR 4) \<noteq> 0 \<longleftrightarrow> f"
proof -
  have b: "x AND 1 \<noteq> 0 \<longleftrightarrow> bit x 0" "x AND 2 \<noteq> 0 \<longleftrightarrow> bit x 1" "x AND 4 \<noteq> 0 \<longleftrightarrow> bit x 2" for x :: u32
    using bit_iff_and_push_bit_not_eq_0 [of x 0] bit_iff_and_push_bit_not_eq_0 [of x 1] bit_iff_and_push_bit_not_eq_0 [of x 2] by simp_all
  have n: "\<not> bit (hd_word s f p) 2" using assms bit_low_8 [OF assms, of 2] by (simp add: bit_hd_word)
  show "hd_word s f p AND 1 \<noteq> 0 \<longleftrightarrow> f" "hd_word s f p AND 2 \<noteq> 0 \<longleftrightarrow> p" unfolding b using assms by (simp_all add: bit_hd_word)
  have "hd_word s f p AND (1 OR 4) \<noteq> 0 \<longleftrightarrow> hd_word s f p AND 1 \<noteq> 0 \<or> hd_word s f p AND 4 \<noteq> 0"
    by (simp only: bit.conj_disj_distrib or_eq_0_iff de_Morgan_conj)
  then show "hd_word s f p AND (1 OR 4) \<noteq> 0 \<longleftrightarrow> f" unfolding b using assms n by (simp add: bit_hd_word)
qed

lemma hd_word_size: "8 dvd s \<Longrightarrow> s < U32 \<Longrightarrow> unat (hd_word s f p AND NOT 7) = s"
  by (simp only: hd_word_masks(6) unat_of_nat_u32)

lemma hd_word_sum: "8 dvd s \<Longrightarrow> hd_word s f p = of_nat s + (if f then 1 else 0) + (if p then 2 else 0)"
proof -
  assume s: "8 dvd s"
  have "of_nat s AND (if f then 1 else 0) = (0 :: u32)" "(of_nat s OR (if f then 1 else 0)) AND (if p then 2 else 0) = (0 :: u32)"
    using bit_low_8 [OF s, of 0] bit_low_8 [OF s, of 1]
    by (auto intro!: bit_word_eqI simp: bit_and_iff bit_or_iff bit_1_u32 bit_2_u32 bit_masks bit_of_nat_iff possible_bit_word)
  then show ?thesis unfolding hd_word_def by (simp only: disjunctive_add_eq_or or.assoc)
qed

lemma hd_word_0 [simp]: "hd_word 0 False False = 0"
  by (simp add: hd_word_def)

lemma hd_word_of_nat: "of_nat s = hd_word s False False"
  by (simp add: hd_word_def)

lemma hd_word_add: "8 dvd s \<Longrightarrow> 8 dvd t \<Longrightarrow> hd_word s f p + of_nat t = hd_word (s + t) f p"
  by (simp add: hd_word_sum)

section \<open>Size classes\<close>

lemma top_bit_bounds:
  assumes "0 < n" "n < U32"
  shows "2 ^ top_bit n \<le> n" "n < 2 * 2 ^ top_bit n" "top_bit n < 32"
proof -
  have u: "unat (of_nat n :: u32) = n" using assms(2) by simp
  then have "(of_nat n :: u32) \<noteq> 0" using assms(1) by (metis unat_0 less_irrefl)
  then show "2 ^ top_bit n \<le> n" "n < 2 * 2 ^ top_bit n" "top_bit n < 32"
    using bit_log2_bounds [of "of_nat n"] bit_clz_bounds(3) [of "of_nat n"] u by (simp_all add: top_bit_def bit_log2_def)
qed

lemma top_bit_unique: "2 ^ t \<le> n \<Longrightarrow> n < 2 * 2 ^ t \<Longrightarrow> n < U32 \<Longrightarrow> top_bit n = t"
proof -
  assume a: "2 ^ t \<le> n" "n < 2 * 2 ^ t" "n < U32"
  have n: "0 < n" using a(1) by (rule less_le_trans [rotated]) simp
  note b = top_bit_bounds [OF n a(3)]
  have "(2::nat) ^ top_bit n < 2 ^ Suc t" "(2::nat) ^ t < 2 ^ Suc (top_bit n)"
    using a b by (simp_all only: power_Suc)
  then have "top_bit n < Suc t" "t < Suc (top_bit n)" by (simp_all only: power_strict_increasing_iff one_less_numeral_iff semiring_norm)
  then show ?thesis by simp
qed

text \<open>The class of a large size, as arithmetic.\<close>

lemma bin_of_large:
  assumes "64 \<le> n" "n < U32"
  shows "6 \<le> top_bit n" "bin_of n = 8 * (top_bit n - 6) + n div 2 ^ (top_bit n - 3)" "8 \<le> n div 2 ^ (top_bit n - 3)" "n div 2 ^ (top_bit n - 3) < 16"
proof -
  let ?t = "top_bit n"
  have n: "0 < n" using assms by simp
  note b = top_bit_bounds [OF n assms(2)]
  have "(2::nat) ^ 6 < 2 ^ Suc ?t" using b(2) assms(1) by simp
  then have t: "6 < Suc ?t" by (simp only: power_strict_increasing_iff one_less_numeral_iff semiring_norm)
  then show t6: "6 \<le> ?t" by simp
  have e: "(2::nat) ^ ?t = 8 * 2 ^ (?t - 3)" using t6 power_add [of "2::nat" 3 "?t - 3"] by simp
  show lo: "8 \<le> n div 2 ^ (?t - 3)" using b(1) e by (simp add: less_eq_div_iff_mult_less_eq)
  show hi: "n div 2 ^ (?t - 3) < 16" using b(2) e by (simp add: div_less_iff_less_mult)
  have "drop_bit (?t - 3) n AND 7 = (n div 2 ^ (?t - 3)) mod 8"
    using nat_and_pow2_minus_1 [of "n div 2 ^ (?t - 3)" 3] by (simp add: drop_bit_eq_div)
  also have "\<dots> = n div 2 ^ (?t - 3) - 8" using lo hi by (simp add: mod_if)
  finally have d: "drop_bit (?t - 3) n AND 7 = n div 2 ^ (?t - 3) - 8" .
  have "push_bit 3 (?t - 5) OR (drop_bit (?t - 3) n AND 7) = (?t - 5) * 2 ^ 3 + (drop_bit (?t - 3) n AND 7)"
    unfolding push_bit_eq_mult by (rule nat_or_add) (use d hi in simp)
  moreover have "?t - 5 = Suc (?t - 6)" using t6 by simp
  ultimately show "bin_of n = 8 * (?t - 6) + n div 2 ^ (?t - 3)" using assms(1) lo by (simp add: bin_of_def SMALL_def Let_def d)
qed

lemma bin_of_small: "n < 64 \<Longrightarrow> bin_of n = n div 8"
  by (simp add: bin_of_def SMALL_def drop_bit_eq_div)


lemma bin_of_less: "n < 2 ^ 31 \<Longrightarrow> bin_of n < 208"
proof (cases "n < 64")
  case False
  assume n: "n < 2 ^ 31"
  then have b: "64 \<le> n" "n < U32" using False by simp_all
  have "(2::nat) ^ top_bit n < 2 ^ 31" using top_bit_bounds(1) [of n] b n by linarith
  then have "top_bit n < 31" by (simp only: power_strict_increasing_iff one_less_numeral_iff semiring_norm)
  then show ?thesis using bin_of_large [OF b] by linarith
qed (simp add: bin_of_small)

lemma top_bit_mono: "0 < m \<Longrightarrow> m \<le> n \<Longrightarrow> n < U32 \<Longrightarrow> top_bit m \<le> top_bit n"
proof (rule ccontr)
  assume a: "0 < m" "m \<le> n" "n < U32" "\<not> top_bit m \<le> top_bit n"
  have n: "0 < n" using a(1,2) by linarith
  have "(2::nat) ^ Suc (top_bit n) \<le> 2 ^ top_bit m" using a(4) by (intro power_increasing) simp_all
  then show False using top_bit_bounds(1) [of m] top_bit_bounds(2) [OF n a(3)] a by simp
qed

lemma bin_of_mono: "m \<le> n \<Longrightarrow> n < U32 \<Longrightarrow> bin_of m \<le> bin_of n"
proof -
  assume a: "m \<le> n" "n < U32"
  consider "n < 64" | "m < 64" "64 \<le> n" | "64 \<le> m" by linarith
  then show ?thesis
  proof cases
    case 1
    then show ?thesis using a(1) by (simp add: bin_of_small div_le_mono)
  next
    case 2
    then show ?thesis using bin_of_large [OF 2(2) a(2)] by (simp add: bin_of_small)
  next
    case 3
    have lm: "m < U32" "64 \<le> n" using 3 a by simp_all
    note m = bin_of_large [OF 3 lm(1)] and n = bin_of_large [OF lm(2) a(2)]
    have "top_bit m \<le> top_bit n" using top_bit_mono a 3 by simp
    then show ?thesis
    proof (cases "top_bit m = top_bit n")
      case True
      then show ?thesis using m n a(1) by (simp add: div_le_mono)
    next
      case False
      then show ?thesis using m n \<open>top_bit m \<le> top_bit n\<close> by linarith
    qed
  qed
qed

text \<open>The list a request is looked for from on holds no smaller block.\<close>

lemma bin_of_boundary:
  assumes "64 \<le> L" "L < U32" "2 ^ (top_bit L - 3) dvd L" "m < L"
  shows "bin_of m < bin_of L"
proof (cases "m < 64")
  case True
  then show ?thesis using bin_of_large [OF assms(1,2)] by (simp add: bin_of_small)
next
  case False
  then have m: "64 \<le> m" "m < U32" using assms by simp_all
  note bm = bin_of_large [OF m] and bL = bin_of_large [OF assms(1,2)]
  have t: "top_bit m \<le> top_bit L" using top_bit_mono assms(2,4) m by simp
  show ?thesis
  proof (cases "top_bit m = top_bit L")
    case True
    obtain k where k: "L = 2 ^ (top_bit L - 3) * k" using assms(3) by (rule dvdE)
    have "m div 2 ^ (top_bit L - 3) < k"
      using assms(4) k by (simp add: div_less_iff_less_mult mult.commute)
    moreover have "L div 2 ^ (top_bit L - 3) = k" using k by (metis nonzero_mult_div_cancel_left power_not_zero zero_neq_numeral)
    ultimately show ?thesis using bm bL True by simp
  next
    case False
    then show ?thesis using bm bL t by linarith
  qed
qed

lemma round_up_boundary:
  assumes "64 \<le> n" "n \<le> 3 * 2 ^ 30"
  shows "\<exists>L. n \<le> L \<and> L < U32 \<and> 2 ^ (top_bit L - 3) dvd L \<and> bin_of L = bin_of (round_up n) \<and> round_up n < U32"
proof -
  define t q where "t = top_bit n" and "q = (2::nat) ^ (t - 3)"
  have n: "0 < n" "n < U32" using assms by simp_all
  note b = top_bit_bounds [OF n, folded t_def]
  have t6: "6 \<le> t" using bin_of_large(1) [OF assms(1) n(2)] by (simp add: t_def)
  have e: "(2::nat) ^ t = 8 * q" using t6 power_add [of "2::nat" 3 "t - 3"] by (simp add: q_def)
  have q0: "0 < q" by (simp add: q_def)
  have "(2::nat) ^ (t - 3) \<le> 2 ^ 28" using b(3) by (intro power_increasing) simp_all
  then have qle: "q \<le> 2 ^ 28" by (simp only: q_def)
  define r where "r = n + q - 1"
  have r: "round_up n = r" "r < U32" using assms qle q0 by (simp_all add: round_up_def SMALL_def t_def [symmetric] q_def [symmetric] r_def add32_def)
  define L where "L = r div q * q"
  have L: "L \<le> r" "r < L + q" "n \<le> L" "q dvd L"
    using div_mult_mod_eq [of r q] mod_less_divisor [OF q0, of r] q0 unfolding L_def r_def by linarith+ (simp add: L_def)
  show ?thesis
  proof (cases "L < 2 ^ Suc t")
    case True
    have tl: "top_bit L = t" using b(1) L True r(2) by (intro top_bit_unique) simp_all
    have "r < 2 ^ Suc t"
    proof -
      obtain k where k: "L = q * k" using L(4) by (rule dvdE)
      then have "q * k < q * 16" using True e by simp
      then have "k + 1 \<le> 16" using q0 by simp
      then have "q * (k + 1) \<le> q * 16" by (rule mult_le_mono2)
      moreover have "q * (k + 1) = L + q" "(2::nat) ^ Suc t = q * 16" using k e by simp_all
      ultimately show ?thesis using L(2) by linarith
    qed
    then have tr: "top_bit r = t" using b(1) L r(2) by (intro top_bit_unique) simp_all
    have "L div q = r div q" using q0 by (simp add: L_def)
    moreover have "64 \<le> L" "64 \<le> r" "L < U32" using assms(1) L r(2) by linarith+
    ultimately have "bin_of L = bin_of r" using bin_of_large(2) [of L] bin_of_large(2) [of r] tl tr r(2) by (simp add: q_def)
    then show ?thesis using L tl r by (intro exI [of _ L]) (simp add: q_def)
  next
    case False
    have r2: "r < 2 ^ Suc t + q" using b(2) q0 unfolding r_def by simp
    have "L = 2 ^ Suc t"
    proof -
      obtain k where k: "L = q * k" using L(4) by (rule dvdE)
      have "(2::nat) ^ Suc t = q * 16" "q * 17 = q * 16 + q" using e by simp_all
      then have "q * 16 \<le> q * k" "q * k < q * 17" using False k r2 L(1) by linarith+
      then have "k = 16" using q0 by simp
      then show ?thesis using k e by simp
    qed
    then have Lt: "L = 2 * 2 ^ t" by simp
    have tl: "top_bit L = Suc t" using L r(2) Lt by (intro top_bit_unique) simp_all
    have tr: "top_bit r = Suc t" using L Lt r2 r(2) e q0 by (intro top_bit_unique) simp_all
    have "Suc t - 3 = Suc (t - 3)" using t6 by simp
    then have q2: "(2::nat) ^ (Suc t - 3) = 2 * q" by (simp only: q_def power_Suc)
    have "r div (2 * q) = 8" "L div (2 * q) = 8" using Lt e L r2 q0 by (auto intro!: div_nat_eqI)
    moreover have "64 \<le> L" "64 \<le> r" "L < U32" using assms(1) L r(2) by linarith+
    ultimately have "bin_of L = bin_of r" using bin_of_large(2) [of L] bin_of_large(2) [of r] tl tr r(2) q2 by simp
    moreover have "2 ^ (top_bit L - 3) dvd L" using tl q2 Lt e by simp
    ultimately show ?thesis using L r by (intro exI [of _ L]) simp
  qed
qed

lemma class_fits:
  assumes "8 dvd n" "8 dvd s" "n \<le> 3 * 2 ^ 30" "bin_of (round_up n) \<le> bin_of s"
  shows "n \<le> s"
proof (cases "n < 64")
  case True
  then have "n div 8 \<le> bin_of s" using assms(4) by (simp add: round_up_def SMALL_def bin_of_small)
  then show ?thesis using assms(1,2) True by (cases "s < 64") (auto simp: bin_of_small elim!: dvdE)
next
  case False
  then obtain L where L: "n \<le> L" "L < U32" "2 ^ (top_bit L - 3) dvd L" "bin_of L = bin_of (round_up n)"
    using round_up_boundary [of n] assms(3) by auto
  show ?thesis
  proof (rule ccontr)
    assume "\<not> n \<le> s"
    then have "s < L" using L(1) by simp
    then have "bin_of s < bin_of L" using bin_of_boundary [of L s] L False by simp
    then show False using L(4) assms(4) by simp
  qed
qed

section \<open>Rounding addresses\<close>

lemma round_down_u32: "n < U32 \<Longrightarrow> unat ((of_nat n :: u32) AND NOT (mask j)) = n div 2 ^ j * 2 ^ j"
proof -
  assume n: "n < U32"
  have p: "n div 2 ^ j * 2 ^ j = push_bit j (drop_bit j n)" by (simp add: push_bit_eq_mult drop_bit_eq_div)
  have "(of_nat n :: u32) AND NOT (mask j) = of_nat (n div 2 ^ j * 2 ^ j)"
  proof (rule bit_word_eqI)
    fix k assume k: "k < LENGTH(32)"
    have "bit (n div 2 ^ j * 2 ^ j) k \<longleftrightarrow> j \<le> k \<and> bit n k"
      unfolding p by (simp only: bit_push_bit_iff bit_drop_bit_eq possible_bit_nat comp_apply) (metis le_add_diff_inverse)
    then show "bit ((of_nat n :: u32) AND NOT (mask j)) k = bit (of_nat (n div 2 ^ j * 2 ^ j) :: u32) k"
      using k by (simp only: bit_and_iff bit_not_iff bit_mask_iff bit_of_nat_iff possible_bit_word) auto
  qed
  moreover have "n div 2 ^ j * 2 ^ j \<le> n" by simp
  then have "n div 2 ^ j * 2 ^ j < U32" using n by (rule le_less_trans)
  ultimately show ?thesis by (simp only: unat_of_nat_u32)
qed

lemma pow2_u32:
  assumes "(of_nat a :: u32) AND (of_nat a - 1) = 0" "0 < a" "a < U32"
  shows "\<exists>j < 32. a = 2 ^ j"
proof (rule ccontr)
  assume n: "\<not> ?thesis"
  define t where "t = top_bit a"
  note b = top_bit_bounds [OF assms(2,3), folded t_def]
  have "2 ^ t \<noteq> a" using n b(3) by blast
  then have lo: "2 ^ t \<le> a - 1" using b(1) by linarith
  have "a div 2 ^ t = 1" "(a - 1) div 2 ^ t = 1" using b(1,2) lo by (auto intro!: div_nat_eqI)
  then have "bit a t" "bit (a - 1) t" by (simp_all add: bit_iff_odd)
  then have "bit (of_nat a :: u32) t" "bit (of_nat (a - 1) :: u32) t" using b(3) by (simp_all add: bit_of_nat_iff possible_bit_word)
  moreover have "(of_nat (a - 1) :: u32) = of_nat a - 1" using assms(2) by (simp add: of_nat_diff)
  ultimately have "bit ((of_nat a :: u32) AND (of_nat a - 1)) t" by (simp add: bit_and_iff)
  then show False using assms(1) by simp
qed

end
