(* ===== verification/Malloc_Lists.thy ===== *)
theory Malloc_Lists
  imports Malloc_Class
begin

text \<open>The free lists: the doubly linked lists in memory and the two bitmaps, and what listing and unlisting a block does to them.\<close>

section \<open>Fields\<close>

lemma dvd_8_4: "8 dvd b \<Longrightarrow> 4 dvd (b :: nat)"
  by (elim dvdE) simp

lemma field_addr:
  assumes "8 dvd (b :: nat)" "8 dvd c"
  shows "b + 4 \<noteq> c" "b \<noteq> c + 4" "b + 12 \<noteq> c" "b \<noteq> c + 12" "b + 8 \<noteq> c + 4" "b + 4 \<noteq> c + 8" "b + 12 \<noteq> c + 8" "b + 8 \<noteq> c + 12"
  using assms by (elim dvdE, presburger)+

lemma fields:
  assumes "8 dvd b" "8 dvd c"
  shows "head (set_head b w h) c = (if b = c then w else head h c)"
    "head (set_prev_size b v h) c = head h c"
    "head (set_next_free b v h) c = head h c"
    "head (set_prev_free b v h) c = (if c = b + 8 then of_nat v else head h c)"
    "prev_size (set_prev_size b v h) c = (if b = c then unat (of_nat v :: u32) else prev_size h c)"
    "prev_size (set_head b w h) c = prev_size h c"
    "prev_size (set_next_free b v h) c = (if c = b + 8 then unat (of_nat v :: u32) else prev_size h c)"
    "prev_size (set_prev_free b v h) c = prev_size h c"
    "next_free (set_next_free b v h) c = (if b = c then unat (of_nat v :: u32) else next_free h c)"
    "next_free (set_prev_free b v h) c = next_free h c"
    "next_free (set_head b w h) c = next_free h c"
    "next_free (set_prev_size b v h) c = (if b = c + 8 then unat (of_nat v :: u32) else next_free h c)"
    "prev_free (set_prev_free b v h) c = (if b = c then unat (of_nat v :: u32) else prev_free h c)"
    "prev_free (set_next_free b v h) c = prev_free h c"
    "prev_free (set_prev_size b v h) c = prev_free h c"
    "prev_free (set_head b w h) c = (if b = c + 8 then unat w else prev_free h c)"
  using field_addr [OF assms] dvd_8_4 [OF assms(1)] dvd_8_4 [OF assms(2)]
  by (auto simp: head_def prev_size_def next_free_def prev_free_def set_head_def set_prev_size_def set_next_free_def set_prev_free_def
      ld32_st32_other add.assoc dvd_add_left_iff dvd_add_right_iff)

lemma bytes:
  "x < b + 4 \<or> b + 8 \<le> x \<Longrightarrow> hp_mem (set_head b w h) x = hp_mem h x"
  "x < b \<or> b + 4 \<le> x \<Longrightarrow> hp_mem (set_prev_size b v h) x = hp_mem h x"
  "x < b + 8 \<or> b + 12 \<le> x \<Longrightarrow> hp_mem (set_next_free b v h) x = hp_mem h x"
  "x < b + 12 \<or> b + 16 \<le> x \<Longrightarrow> hp_mem (set_prev_free b v h) x = hp_mem h x"
  by (auto simp: set_head_def set_prev_size_def set_next_free_def set_prev_free_def intro!: st32_other)

lemma fields_of_mem [simp]:
  "head (h\<lparr>hp_bins := B\<rparr>) = head h" "head (h\<lparr>hp_sl_map := S\<rparr>) = head h" "head (h\<lparr>hp_fl_map := f\<rparr>) = head h"
  "prev_size (h\<lparr>hp_bins := B\<rparr>) = prev_size h" "prev_size (h\<lparr>hp_sl_map := S\<rparr>) = prev_size h" "prev_size (h\<lparr>hp_fl_map := f\<rparr>) = prev_size h"
  "next_free (h\<lparr>hp_bins := B\<rparr>) = next_free h" "next_free (h\<lparr>hp_sl_map := S\<rparr>) = next_free h" "next_free (h\<lparr>hp_fl_map := f\<rparr>) = next_free h"
  "prev_free (h\<lparr>hp_bins := B\<rparr>) = prev_free h" "prev_free (h\<lparr>hp_sl_map := S\<rparr>) = prev_free h" "prev_free (h\<lparr>hp_fl_map := f\<rparr>) = prev_free h"
  by (auto simp: head_def prev_size_def next_free_def prev_free_def)

text \<open>What the operations on blocks leave alone.\<close>

definition core :: "heap \<Rightarrow> heap" where
  "core h = h\<lparr>hp_mem := \<lambda>_. 0, hp_bins := \<lambda>_. 0, hp_fl_map := 0, hp_sl_map := \<lambda>_. 0\<rparr>"

lemma core_set [simp]:
  "core (set_head b w h) = core h" "core (set_prev_size b v h) = core h" "core (set_next_free b v h) = core h"
  "core (set_prev_free b v h) = core h" "core (h\<lparr>hp_bins := B\<rparr>) = core h" "core (h\<lparr>hp_sl_map := S\<rparr>) = core h"
  "core (h\<lparr>hp_fl_map := f\<rparr>) = core h" "core (h\<lparr>hp_mem := m\<rparr>) = core h"
  by (simp_all add: core_def set_head_def set_prev_size_def set_next_free_def set_prev_free_def)

lemma core_same:
  assumes "core h' = core h"
  shows "hp_first h' = hp_first h" "hp_epilogue h' = hp_epilogue h" "hp_errno h' = hp_errno h" "heap_limit h' = heap_limit h"
    "hp_start h' = hp_start h" "hp_errors h' = hp_errors h"
proof -
  have c: "hp_first h = hp_first (core h)" "hp_epilogue h = hp_epilogue (core h)" "hp_errno h = hp_errno (core h)" "heap_limit h = heap_limit (core h)"
    "hp_start h = hp_start (core h)" "hp_errors h = hp_errors (core h)" for h
    by (simp_all add: core_def heap_limit_def Let_def)
  show "hp_first h' = hp_first h" "hp_epilogue h' = hp_epilogue h" "hp_errno h' = hp_errno h" "heap_limit h' = heap_limit h"
    "hp_start h' = hp_start h" "hp_errors h' = hp_errors h"
    unfolding c [of h'] c [of h] assms by (rule refl)+
qed

lemma set_same [simp]:
  "hp_bins (set_head b w h) = hp_bins h" "hp_bins (set_prev_size b v h) = hp_bins h" "hp_bins (set_next_free b v h) = hp_bins h"
  "hp_bins (set_prev_free b v h) = hp_bins h" "hp_sl_map (set_head b w h) = hp_sl_map h" "hp_sl_map (set_prev_size b v h) = hp_sl_map h"
  "hp_sl_map (set_next_free b v h) = hp_sl_map h" "hp_sl_map (set_prev_free b v h) = hp_sl_map h"
  "hp_fl_map (set_head b w h) = hp_fl_map h" "hp_fl_map (set_prev_size b v h) = hp_fl_map h" "hp_fl_map (set_next_free b v h) = hp_fl_map h"
  "hp_fl_map (set_prev_free b v h) = hp_fl_map h"
  by (simp_all add: set_head_def set_prev_size_def set_next_free_def set_prev_free_def)

section \<open>The lists\<close>

text \<open>From \<open>x\<close>, whose predecessor is \<open>p\<close>, along \<open>as\<close> to \<open>y\<close>, whose predecessor is \<open>q\<close>.\<close>

fun dseg :: "heap \<Rightarrow> nat \<Rightarrow> nat list \<Rightarrow> nat \<Rightarrow> nat \<Rightarrow> nat \<Rightarrow> bool" where
  "dseg h p [] x q y \<longleftrightarrow> p = q \<and> x = y"
| "dseg h p (a # as) x q y \<longleftrightarrow> x = a \<and> a \<noteq> 0 \<and> prev_free h a = p \<and> dseg h a as (next_free h a) q y"

lemma dseg_append: "dseg h p (as @ bs) x q y \<longleftrightarrow> (\<exists>r z. dseg h p as x r z \<and> dseg h r bs z q y)"
  by (induction as arbitrary: p x) auto

lemma dseg_frame:
  "(\<And>a. a \<in> set as \<Longrightarrow> next_free h' a = next_free h a \<and> prev_free h' a = prev_free h a) \<Longrightarrow> dseg h' p as x q y = dseg h p as x q y"
  by (induction as arbitrary: p x) auto

lemma dseg_last: "dseg h p as x q y \<Longrightarrow> as \<noteq> [] \<Longrightarrow> q = last as \<and> q \<noteq> 0 \<and> x = hd as \<and> x \<noteq> 0"
proof (induction as arbitrary: p x)
  case (Cons a as)
  then show ?case by (cases as) auto
qed simp

lemma dseg_nonzero: "dseg h p as x q y \<Longrightarrow> 0 \<notin> set as"
  by (induction as arbitrary: p x) auto

definition members :: "(nat \<times> nat) set \<Rightarrow> nat \<Rightarrow> nat set" where
  "members F i = {a. \<exists>s. (a, s) \<in> F \<and> bin_of s = i}"

definition lists_ok :: "heap \<Rightarrow> (nat \<times> nat) set \<Rightarrow> bool" where
  "lists_ok h F \<longleftrightarrow> (\<exists>L. \<forall>i. distinct (L i) \<and> set (L i) = members F i \<and> (\<exists>q. dseg h 0 (L i) (hp_bins h i) q 0))"

definition maps_ok :: "heap \<Rightarrow> bool" where
  "maps_ok h \<longleftrightarrow> (\<forall>i. bit (hp_sl_map h (i div 8)) (i mod 8) \<longleftrightarrow> hp_bins h i \<noteq> 0) \<and>
    (\<forall>f k. 8 \<le> k \<longrightarrow> \<not> bit (hp_sl_map h f) k) \<and> (\<forall>f. bit (hp_fl_map h) f \<longleftrightarrow> hp_sl_map h f \<noteq> 0)"

text \<open>The free blocks: aligned addresses in memory, one size each.\<close>

definition sane :: "(nat \<times> nat) set \<Rightarrow> bool" where
  "sane F \<longleftrightarrow> (\<forall>(a, s) \<in> F. 8 dvd a \<and> a \<noteq> 0 \<and> a < U32 \<and> s < 2 ^ 31 \<and> (\<forall>t. (a, t) \<in> F \<longrightarrow> t = s))"

text \<open>Headers away from the links of the free blocks, and bytes there, stay.\<close>

definition links_only :: "(nat \<times> nat) set \<Rightarrow> heap \<Rightarrow> heap \<Rightarrow> bool" where
  "links_only F h h' \<longleftrightarrow> core h' = core h \<and>
     (\<forall>c. 8 dvd c \<longrightarrow> (\<forall>(a, t) \<in> F. c \<noteq> a + 8) \<longrightarrow> head h' c = head h c \<and> prev_size h' c = prev_size h c) \<and>
     (\<forall>x. (\<forall>(a, t) \<in> F. x < a + 8 \<or> a + 16 \<le> x) \<longrightarrow> hp_mem h' x = hp_mem h x)"

lemma bit_clear_u32: "bit (w AND NOT (push_bit k 1) :: u32) j \<longleftrightarrow> bit w j \<and> j \<noteq> k"
  using bit_imp_le_length [of w j] by (auto simp: bit_and_iff bit_not_iff bit_push_bit_iff bit_1_u32 bit_exp_iff possible_bit_word)

lemma bit_set_u32: "bit (w OR push_bit k 1 :: u32) j \<longleftrightarrow> bit w j \<or> (j = k \<and> k < 32)"
  by (auto simp: bit_or_iff bit_push_bit_iff bit_1_u32 bit_exp_iff possible_bit_word)

lemma bit_pow_u32:
  "bit (w AND NOT (2 ^ k) :: u32) j \<longleftrightarrow> bit w j \<and> j \<noteq> k" "bit (w OR 2 ^ k :: u32) j \<longleftrightarrow> bit w j \<or> (j = k \<and> k < 32)"
  using bit_clear_u32 [of w k j] bit_set_u32 [of w k j] by (simp_all add: push_bit_eq_mult)

lemma sane_members:
  assumes "sane F" "(b, s) \<in> F"
  shows "members (F - {(b, s)}) i = (if i = bin_of s then members F i - {b} else members F i)"
  using assms by (auto simp: sane_def members_def)

lemma sane_disjoint: "sane F \<Longrightarrow> a \<in> members F i \<Longrightarrow> a \<in> members F j \<Longrightarrow> i = j"
  by (auto simp: sane_def members_def)

lemma sane_addr: "sane F \<Longrightarrow> a \<in> members F i \<Longrightarrow> 8 dvd a \<and> a \<noteq> 0 \<and> a < U32"
  by (auto simp: sane_def members_def)

text \<open>The two links around a block are joined.\<close>

definition unlinked :: "nat \<Rightarrow> nat \<Rightarrow> nat \<Rightarrow> heap \<Rightarrow> heap" where
  "unlinked i p n h =
     (let h = (if p \<noteq> 0 then set_next_free p n h else h\<lparr>hp_bins := (hp_bins h)(i := n)\<rparr>)
      in if n \<noteq> 0 then set_prev_free n p h else h)"

lemma unlinked_dseg:
  assumes d: "dseg h 0 (as @ b # bs) (hp_bins h i) q 0" "distinct (as @ b # bs)" "\<forall>a \<in> set (as @ b # bs). 8 dvd a \<and> a < U32"
  shows "\<exists>q. dseg (unlinked i (prev_free h b) (next_free h b) h) 0 (as @ bs) (hp_bins (unlinked i (prev_free h b) (next_free h b) h) i) q 0"
proof -
  define p n where "p = prev_free h b" and "n = next_free h b"
  define h1 where "h1 = (if p \<noteq> 0 then set_next_free p n h else h\<lparr>hp_bins := (hp_bins h)(i := n)\<rparr>)"
  define h2 where "h2 = unlinked i p n h"
  have h2: "h2 = (if n \<noteq> 0 then set_prev_free n p h1 else h1)" by (simp add: h2_def unlinked_def h1_def Let_def)
  have s: "dseg h 0 as (hp_bins h i) p b" "dseg h b bs n q 0" using d(1) by (auto simp: dseg_append p_def n_def)
  have lt: "p < U32" "n < U32" by (simp_all add: p_def n_def prev_free_def next_free_def)
  have A: "dseg h1 0 as (hp_bins h1 i) p n"
  proof (cases "as = []")
    case True
    then show ?thesis using s(1) by (simp add: h1_def)
  next
    case False
    then have "p = last as" "p \<noteq> 0" using dseg_last [OF s(1)] by simp_all
    then obtain as' where as': "as = as' @ [p]" using False by (metis append_butlast_last_id)
    have pa: "8 dvd p" "p \<notin> set as'" using d(2,3) as' by auto
    have "dseg h 0 as' (hp_bins h i) (prev_free h p) p" using s(1) by (auto simp: as' dseg_append)
    moreover have "dseg h1 0 as' (hp_bins h i) (prev_free h p) p = dseg h 0 as' (hp_bins h i) (prev_free h p) p"
      by (rule dseg_frame) (use d(3) as' pa \<open>p \<noteq> 0\<close> in \<open>auto simp: h1_def fields\<close>)
    moreover have "next_free h1 p = n" "prev_free h1 p = prev_free h p" using pa lt \<open>p \<noteq> 0\<close> by (simp_all add: h1_def fields)
    ultimately show ?thesis using \<open>p \<noteq> 0\<close> by (auto simp: as' dseg_append h1_def)
  qed
  have nb: "n \<in> set bs" if "n \<noteq> 0" using that s(2) by (cases bs) auto
  have B: "dseg h2 0 as (hp_bins h2 i) p n"
  proof -
    have "dseg h2 0 as (hp_bins h2 i) p n = dseg h1 0 as (hp_bins h2 i) p n"
      by (rule dseg_frame) (use d(2,3) nb in \<open>auto simp: h2 fields\<close>)
    moreover have "hp_bins h2 = hp_bins h1" by (simp add: h2)
    ultimately show ?thesis using A by simp
  qed
  have p_as: "p = 0 \<or> p \<in> set as" using dseg_last [OF s(1)] s(1) by (cases "as = []") (auto simp: last_in_set)
  then have p_out: "p \<notin> set bs" using d(2) dseg_nonzero [OF s(2)] by auto
  have C: "\<exists>q. dseg h2 p bs n q 0"
  proof (cases bs)
    case Nil
    then show ?thesis using s(2) by simp
  next
    case (Cons c cs)
    have c: "c = n" "n \<noteq> 0" "dseg h n cs (next_free h n) q 0" using s(2) Cons by auto
    have na: "8 dvd n" "n \<notin> set cs" "p \<noteq> n" using d(2,3) Cons c p_out by auto
    have pd: "p \<noteq> 0 \<Longrightarrow> 8 dvd p" using p_as d(3) by auto
    have "dseg h2 n cs (next_free h n) q 0 = dseg h n cs (next_free h n) q 0"
      by (rule dseg_frame) (use d(2,3) Cons c na p_out pd in \<open>auto simp: h2 h1_def fields\<close>)
    moreover have "next_free h2 n = next_free h n" "prev_free h2 n = p" using na c(2) lt pd by (auto simp: h2 h1_def fields)
    ultimately show ?thesis using c Cons by auto
  qed
  show ?thesis using B C unfolding dseg_append h2_def p_def n_def by blast
qed

text \<open>Other lists do not pass the two blocks.\<close>

lemma unlinked_other:
  assumes "\<forall>a \<in> set cs. 8 dvd a \<and> a \<noteq> p \<and> a \<noteq> n" "p \<noteq> 0 \<longrightarrow> 8 dvd p" "n \<noteq> 0 \<longrightarrow> 8 dvd n" "j \<noteq> i"
  shows "dseg (unlinked i p n h) r cs (hp_bins (unlinked i p n h) j) q y = dseg h r cs (hp_bins h j) q y"
proof -
  have "hp_bins (unlinked i p n h) j = hp_bins h j" using assms(4) by (simp add: unlinked_def Let_def)
  moreover have "dseg (unlinked i p n h) r cs (hp_bins h j) q y = dseg h r cs (hp_bins h j) q y"
    by (rule dseg_frame) (use assms in \<open>auto simp: unlinked_def Let_def fields\<close>)
  ultimately show ?thesis by simp
qed

definition cleared :: "nat \<Rightarrow> heap \<Rightarrow> heap" where
  "cleared i h =
     (let fl = i div 8; h = h\<lparr>hp_sl_map := (hp_sl_map h)(fl := hp_sl_map h fl AND NOT (push_bit (i mod 8) 1))\<rparr>
      in if hp_sl_map h fl = 0 then h\<lparr>hp_fl_map := hp_fl_map h AND NOT (push_bit fl 1)\<rparr> else h)"

lemma unlink_free_eq:
  "unlink_free b h =
     (let i = bin_of (SIZE h b); p = prev_free h b; n = next_free h b
      in if n = 0 \<and> p = 0 then cleared i (unlinked i p n h) else unlinked i p n h)"
  by (simp add: unlink_free_def unlinked_def cleared_def Let_def)

lemma cleared_same [simp]:
  "hp_bins (cleared i h) = hp_bins h" "hp_mem (cleared i h) = hp_mem h" "core (cleared i h) = core h" "next_free (cleared i h) = next_free h"
  "prev_free (cleared i h) = prev_free h" "head (cleared i h) = head h" "prev_size (cleared i h) = prev_size h"
  by (simp_all add: cleared_def Let_def)

lemma u32_eq_0_iff: "(w :: u32) = 0 \<longleftrightarrow> (\<forall>k. \<not> bit w k)"
  by (metis bit_0_eq bit_eqI bot_apply bot_bool_def)

lemma cleared_maps:
  assumes "maps_ok h" "hp_bins h i \<noteq> 0"
  shows "maps_ok (cleared i (h\<lparr>hp_bins := (hp_bins h)(i := 0)\<rparr>))"
proof -
  define fl where "fl = i div 8"
  define w where "w = hp_sl_map h fl AND NOT (push_bit (i mod 8) 1)"
  have w: "bit w k \<longleftrightarrow> bit (hp_sl_map h fl) k \<and> k \<noteq> i mod 8" for k unfolding w_def by (rule bit_clear_u32)
  have m: "\<And>j. bit (hp_sl_map h (j div 8)) (j mod 8) \<longleftrightarrow> hp_bins h j \<noteq> 0" "\<And>f k. 8 \<le> k \<Longrightarrow> \<not> bit (hp_sl_map h f) k"
    "\<And>f. bit (hp_fl_map h) f \<longleftrightarrow> hp_sl_map h f \<noteq> 0" using assms(1) by (auto simp: maps_ok_def)
  let ?h = "cleared i (h\<lparr>hp_bins := (hp_bins h)(i := 0)\<rparr>)"
  have h: "hp_sl_map ?h = (hp_sl_map h)(fl := w)" "hp_bins ?h = (hp_bins h)(i := 0)"
    "hp_fl_map ?h = (if w = 0 then hp_fl_map h AND NOT (push_bit fl 1) else hp_fl_map h)"
    by (simp_all add: cleared_def Let_def fl_def w_def)
  have "bit (hp_sl_map ?h (j div 8)) (j mod 8) \<longleftrightarrow> hp_bins ?h j \<noteq> 0" for j
  proof (cases "j div 8 = fl")
    case True
    then have "j = i \<longleftrightarrow> j mod 8 = i mod 8" unfolding fl_def by (metis div_mod_decomp)
    then show ?thesis using m(1) [of j] True by (auto simp: h w)
  next
    case False
    then have "j \<noteq> i" by (auto simp: fl_def)
    then show ?thesis using m(1) [of j] False by (simp add: h)
  qed
  moreover have "\<not> bit (hp_sl_map ?h f) k" if "8 \<le> k" for f k using m(2) [OF that] by (simp add: h w)
  moreover have "bit (hp_fl_map ?h) f \<longleftrightarrow> hp_sl_map ?h f \<noteq> 0" for f
  proof -
    have "hp_sl_map h fl \<noteq> 0" using m(1) [of i] assms(2) by (auto simp: fl_def)
    then show ?thesis using m(3) [of f] by (auto simp: h bit_pow_u32)
  qed
  ultimately show ?thesis by (simp add: maps_ok_def)
qed

lemma dseg_cleared [simp]: "dseg (cleared i h) p as x q y = dseg h p as x q y"
  by (rule dseg_frame) simp

lemma dseg_neighbours:
  assumes "dseg h 0 (as @ b # bs) x q 0"
  shows "prev_free h b = 0 \<and> as = [] \<or> prev_free h b \<noteq> 0 \<and> prev_free h b \<in> set as"
    "next_free h b = 0 \<and> bs = [] \<or> next_free h b \<noteq> 0 \<and> next_free h b \<in> set bs"
proof -
  have s: "dseg h 0 as x (prev_free h b) b" "dseg h b bs (next_free h b) q 0" using assms by (auto simp: dseg_append)
  show "prev_free h b = 0 \<and> as = [] \<or> prev_free h b \<noteq> 0 \<and> prev_free h b \<in> set as"
    using s(1) dseg_last [OF s(1)] by (cases "as = []") auto
  show "next_free h b = 0 \<and> bs = [] \<or> next_free h b \<noteq> 0 \<and> next_free h b \<in> set bs"
    using s(2) dseg_last [OF s(2)] by (cases "bs = []") auto
qed

lemma links_only_set:
  assumes "(p, t) \<in> F" "8 dvd p"
  shows "links_only F h (set_next_free p v h)" "links_only F h (set_prev_free p v h)"
proof -
  have c: "c \<noteq> p + 8" if "\<forall>(a, t) \<in> F. c \<noteq> a + 8" for c using that assms(1) by auto
  have x: "x < p + 8 \<or> p + 16 \<le> x" if "\<forall>(a, t) \<in> F. x < a + 8 \<or> a + 16 \<le> x" for x using that assms(1) by auto
  have f: "head (set_next_free p v h) c = head h c \<and> prev_size (set_next_free p v h) c = prev_size h c \<and>
    head (set_prev_free p v h) c = head h c \<and> prev_size (set_prev_free p v h) c = prev_size h c" if "8 dvd c" "c \<noteq> p + 8" for c
    using that fields [OF assms(2) that(1)] by simp
  have m: "hp_mem (set_next_free p v h) x = hp_mem h x \<and> hp_mem (set_prev_free p v h) x = hp_mem h x" if "x < p + 8 \<or> p + 16 \<le> x" for x
    using that by (auto intro!: bytes)
  show "links_only F h (set_next_free p v h)" "links_only F h (set_prev_free p v h)"
    unfolding links_only_def using f [OF _ c] m [OF x] by simp_all
qed

lemma links_only_trans: "links_only F h h' \<Longrightarrow> links_only F h' h'' \<Longrightarrow> links_only F h h''"
  by (simp add: links_only_def)

lemma links_only_lists [simp]: "links_only F h (h\<lparr>hp_bins := B\<rparr>)" "links_only F h h"
  by (simp_all add: links_only_def)

lemma links_only_cleared: "links_only F h (cleared i g) = links_only F h g"
  by (simp add: links_only_def)

lemma unlinked_links_only:
  assumes "p \<noteq> 0 \<longrightarrow> 8 dvd p \<and> (\<exists>t. (p, t) \<in> F)" "n \<noteq> 0 \<longrightarrow> 8 dvd n \<and> (\<exists>t. (n, t) \<in> F)"
  shows "links_only F h (unlinked i p n h)"
proof -
  define h1 where "h1 = (if p \<noteq> 0 then set_next_free p n h else h\<lparr>hp_bins := (hp_bins h)(i := n)\<rparr>)"
  have h2: "unlinked i p n h = (if n \<noteq> 0 then set_prev_free n p h1 else h1)" by (simp add: unlinked_def h1_def Let_def)
  have "links_only F h h1" using assms(1) links_only_set(1) by (auto simp: h1_def)
  moreover have "links_only F h1 (unlinked i p n h)" using assms(2) links_only_set(2) by (auto simp: h2)
  ultimately show ?thesis by (rule links_only_trans)
qed

lemma unlinked_maps:
  assumes "maps_ok h" "hp_bins h i \<noteq> 0" "p \<noteq> 0 \<or> n \<noteq> 0"
  shows "maps_ok (unlinked i p n h)"
  using assms by (auto simp: maps_ok_def unlinked_def Let_def)

lemma unlink_free_spec:
  assumes "lists_ok h F" "maps_ok h" "sane F" "(b, s) \<in> F" "SIZE h b = s"
  shows "lists_ok (unlink_free b h) (F - {(b, s)}) \<and> maps_ok (unlink_free b h) \<and> links_only F h (unlink_free b h)"
proof -
  define i where "i = bin_of s"
  define p n where "p = prev_free h b" and "n = next_free h b"
  obtain L where L: "\<And>j. distinct (L j)" "\<And>j. set (L j) = members F j" "\<And>j. \<exists>q. dseg h 0 (L j) (hp_bins h j) q 0"
    using assms(1) unfolding lists_ok_def by blast
  have "b \<in> set (L i)" using assms(4) by (auto simp: L(2) members_def i_def)
  then obtain as bs where ab: "L i = as @ b # bs" by (auto simp: in_set_conv_decomp)
  obtain q where q: "dseg h 0 (as @ b # bs) (hp_bins h i) q 0" using L(3) [of i] ab by auto
  note nbr = dseg_neighbours [OF q, folded p_def n_def]
  have addr: "8 dvd a \<and> a \<noteq> 0 \<and> a < U32" "\<exists>t. (a, t) \<in> F" if "a \<in> set (L j)" for a j
    using that sane_addr [OF assms(3)] unfolding L(2) by (auto simp: members_def)
  have pn: "p \<noteq> 0 \<longrightarrow> p \<in> set (L i)" "n \<noteq> 0 \<longrightarrow> n \<in> set (L i)" using nbr by (auto simp: ab)
  let ?u = "unlinked i p n h"
  have u: "unlink_free b h = (if n = 0 \<and> p = 0 then cleared i ?u else ?u)"
    by (simp add: unlink_free_eq assms(5) i_def p_def n_def Let_def)
  have lo: "links_only F h ?u" using pn addr by (intro unlinked_links_only) auto
  have "\<exists>q. dseg ?u 0 (as @ bs) (hp_bins ?u i) q 0"
    using unlinked_dseg [OF q] L(1) [of i] addr [of _ i] unfolding ab p_def n_def by auto
  moreover have "\<exists>q. dseg ?u 0 (L j) (hp_bins ?u j) q 0" if "j \<noteq> i" for j
  proof -
    have "\<forall>a \<in> set (L j). 8 dvd a \<and> a \<noteq> p \<and> a \<noteq> n"
      using that addr pn sane_disjoint [OF assms(3)] unfolding L(2) by metis
    then have "dseg ?u 0 (L j) (hp_bins ?u j) q 0 = dseg h 0 (L j) (hp_bins h j) q 0" for q
      using pn addr that by (intro unlinked_other) auto
    then show ?thesis using L(3) by auto
  qed
  ultimately have d: "\<exists>q. dseg ?u 0 ((L(i := as @ bs)) j) (hp_bins ?u j) q 0" for j by simp
  have "distinct ((L(i := as @ bs)) j) \<and> set ((L(i := as @ bs)) j) = members (F - {(b, s)}) j" for j
    using L(1) [of j] L(2) [of j] L(1) [of i] L(2) [of i] sane_members [OF assms(3,4), of j] by (auto simp: ab i_def [symmetric])
  then have "lists_ok ?u (F - {(b, s)})" unfolding lists_ok_def using d by (intro exI [of _ "L(i := as @ bs)"]) auto
  then have l: "lists_ok (unlink_free b h) (F - {(b, s)})"
    unfolding u lists_ok_def by (cases "n = 0 \<and> p = 0") (simp_all only: if_True if_False simp_thms dseg_cleared cleared_same)
  have bi: "hp_bins h i \<noteq> 0" using dseg_last [OF q] by simp
  have "maps_ok (unlink_free b h)"
  proof (cases "n = 0 \<and> p = 0")
    case True
    then show ?thesis using cleared_maps [OF assms(2) bi] u by (simp add: unlinked_def)
  next
    case False
    then show ?thesis using unlinked_maps [OF assms(2) bi] u by auto
  qed
  moreover have "links_only F h (unlink_free b h)"
    using lo unfolding u by (simp only: links_only_cleared simp_thms split: if_split)
  ultimately show ?thesis using l by blast
qed

section \<open>Listing a block\<close>

definition listed :: "nat \<Rightarrow> nat \<Rightarrow> heap \<Rightarrow> heap" where
  "listed b i h =
     (let h = set_prev_free b 0 h;
          h = set_next_free b (hp_bins h i) h;
          h = (if hp_bins h i \<noteq> 0 then set_prev_free (hp_bins h i) b h else h)
      in h\<lparr>hp_bins := (hp_bins h)(i := b),
           hp_sl_map := (hp_sl_map h)(i div 8 := hp_sl_map h (i div 8) OR push_bit (i mod 8) 1),
           hp_fl_map := hp_fl_map h OR push_bit (i div 8) 1\<rparr>)"

lemma listed_maps:
  assumes "maps_ok h" "i < 208" "b \<noteq> 0"
  shows "maps_ok (listed b i h)"
proof -
  let ?h = "listed b i h"
  define fl where "fl = i div 8"
  define w where "w = hp_sl_map h fl OR push_bit (i mod 8) 1"
  have w: "bit w k \<longleftrightarrow> bit (hp_sl_map h fl) k \<or> k = i mod 8" for k unfolding w_def bit_set_u32 by (auto intro: less_le_trans [of _ 8])
  have m: "\<And>j. bit (hp_sl_map h (j div 8)) (j mod 8) \<longleftrightarrow> hp_bins h j \<noteq> 0" "\<And>f k. 8 \<le> k \<Longrightarrow> \<not> bit (hp_sl_map h f) k"
    "\<And>f. bit (hp_fl_map h) f \<longleftrightarrow> hp_sl_map h f \<noteq> 0" using assms(1) by (auto simp: maps_ok_def)
  have h: "hp_sl_map ?h = (hp_sl_map h)(fl := w)" "hp_bins ?h = (hp_bins h)(i := b)" "hp_fl_map ?h = hp_fl_map h OR push_bit fl 1"
    by (simp_all add: listed_def Let_def fl_def w_def)
  have "bit (hp_sl_map ?h (j div 8)) (j mod 8) \<longleftrightarrow> hp_bins ?h j \<noteq> 0" for j
  proof (cases "j div 8 = fl")
    case True
    then have "j = i \<longleftrightarrow> j mod 8 = i mod 8" unfolding fl_def by (metis div_mod_decomp)
    then show ?thesis using m(1) [of j] True assms(3) by (auto simp: h w)
  next
    case False
    then have "j \<noteq> i" by (auto simp: fl_def)
    then show ?thesis using m(1) [of j] False by (simp add: h)
  qed
  moreover have "\<not> bit (hp_sl_map ?h f) k" if "8 \<le> k" for f k
  proof -
    have "k \<noteq> i mod 8" using that mod_less_divisor [of 8 i] by linarith
    then show ?thesis using m(2) [OF that] by (simp add: h w)
  qed
  moreover have "bit (hp_fl_map ?h) f \<longleftrightarrow> hp_sl_map ?h f \<noteq> 0" for f
  proof -
    have "fl < 32" using assms(2) by (simp add: fl_def)
    moreover have "w \<noteq> 0" using w u32_eq_0_iff by blast
    ultimately show ?thesis using m(3) [of f] unfolding h(3) bit_set_u32 by (auto simp: h)
  qed
  ultimately show ?thesis by (simp add: maps_ok_def)
qed

lemma listed_links_only:
  assumes "(b, s) \<in> F" "8 dvd b" "hp_bins h i \<noteq> 0 \<longrightarrow> 8 dvd hp_bins h i \<and> (\<exists>t. (hp_bins h i, t) \<in> F)"
  shows "links_only F h (listed b i h)"
proof -
  have r: "links_only F h (g\<lparr>hp_bins := B, hp_sl_map := S, hp_fl_map := f\<rparr>)" if "links_only F h g" for g B S f
    using that by (simp add: links_only_def)
  have "links_only F h (set_prev_free b 0 h)" using assms by (intro links_only_set)
  then have a: "links_only F h (set_next_free b (hp_bins h i) (set_prev_free b 0 h))"
    using links_only_trans links_only_set(1) [OF assms(1,2)] by blast
  show ?thesis
  proof (cases "hp_bins h i = 0")
    case True
    then show ?thesis using r [OF a] by (simp add: listed_def Let_def)
  next
    case False
    then obtain t where "(hp_bins h i, t) \<in> F" "8 dvd hp_bins h i" using assms(3) by auto
    then have "links_only F h (set_prev_free (hp_bins h i) b (set_next_free b (hp_bins h i) (set_prev_free b 0 h)))"
      using links_only_trans [OF a] links_only_set(2) by blast
    then show ?thesis using r False by (simp add: listed_def Let_def)
  qed
qed

lemma listed_dseg:
  assumes "dseg h 0 as (hp_bins h i) q 0" "distinct (b # as)" "\<forall>a \<in> set (b # as). 8 dvd a \<and> a \<noteq> 0 \<and> a < U32"
  shows "\<exists>q. dseg (listed b i h) 0 (b # as) (hp_bins (listed b i h) i) q 0"
proof -
  define x where "x = hp_bins h i"
  have x: "x = 0 \<and> as = [] \<or> x \<noteq> 0 \<and> x = hd as \<and> x \<in> set as"
    using assms(1) dseg_last [OF assms(1)] by (cases "as = []") (auto simp: x_def)
  then have xlt: "x < U32" "x \<noteq> 0 \<longrightarrow> 8 dvd x" "x \<noteq> b" using assms(2,3) by auto
  have b: "8 dvd b" "b < U32" using assms(3) by auto
  have f: "next_free (listed b i h) a = (if a = b then x else next_free h a)"
    "prev_free (listed b i h) a = (if a = b then 0 else if a = x \<and> x \<noteq> 0 then b else prev_free h a)" if "8 dvd a" for a
    using that b xlt by (auto simp: listed_def Let_def x_def fields next_free_def [of "h\<lparr>hp_bins := _, hp_sl_map := _, hp_fl_map := _\<rparr>" for h])
  have "\<exists>q. dseg (listed b i h) b as x q 0"
  proof (cases as)
    case Nil
    then show ?thesis using x by simp
  next
    case (Cons c cs)
    have c: "c = x" "x \<noteq> 0" using x Cons by auto
    have "dseg (listed b i h) x cs (next_free h x) q 0 = dseg h x cs (next_free h x) q 0"
      by (rule dseg_frame) (use assms(2,3) Cons c f in auto)
    moreover have "dseg h x cs (next_free h x) q 0" using assms(1) Cons c by simp
    ultimately show ?thesis using Cons c f [of x] xlt by auto
  qed
  moreover have "hp_bins (listed b i h) i = b" by (simp add: listed_def Let_def)
  ultimately show ?thesis using f [OF b(1)] assms(3) by auto
qed

lemma listed_spec:
  assumes "lists_ok h F" "maps_ok h" "sane (insert (b, s) F)" "\<And>t. (b, t) \<notin> F"
  shows "lists_ok (listed b (bin_of s) h) (insert (b, s) F) \<and> maps_ok (listed b (bin_of s) h) \<and>
    links_only (insert (b, s) F) h (listed b (bin_of s) h)"
proof -
  define i where "i = bin_of s"
  let ?F = "insert (b, s) F"
  obtain L where L: "\<And>j. distinct (L j)" "\<And>j. set (L j) = members F j" "\<And>j. \<exists>q. dseg h 0 (L j) (hp_bins h j) q 0"
    using assms(1) unfolding lists_ok_def by blast
  have b: "8 dvd b" "b \<noteq> 0" "b < U32" "i < 208" using assms(3) bin_of_less by (auto simp: sane_def i_def)
  have mem: "members ?F j = (if j = i then insert b (members F j) else members F j)" for j by (auto simp: members_def i_def)
  have bL: "b \<notin> set (L j)" for j using assms(4) by (auto simp: L(2) members_def)
  have addr: "8 dvd a \<and> a \<noteq> 0 \<and> a < U32" "\<exists>t. (a, t) \<in> F" if "a \<in> set (L j)" for a j
  proof -
    have a: "a \<in> members F j" using that L(2) by simp
    then have "a \<in> members ?F j" by (auto simp: mem)
    then show "8 dvd a \<and> a \<noteq> 0 \<and> a < U32" by (rule sane_addr [OF assms(3)])
    show "\<exists>t. (a, t) \<in> F" using a by (auto simp: members_def)
  qed
  define x where "x = hp_bins h i"
  have x: "x \<noteq> 0 \<longrightarrow> x \<in> set (L i)" using L(3) [of i] dseg_last by (cases "L i") (auto simp: x_def)
  obtain q where q: "dseg h 0 (L i) (hp_bins h i) q 0" using L(3) by blast
  have "\<exists>q. dseg (listed b i h) 0 (b # L i) (hp_bins (listed b i h) i) q 0"
    using listed_dseg [OF q] L(1) bL b addr by auto
  moreover have "\<exists>q. dseg (listed b i h) 0 (L j) (hp_bins (listed b i h) j) q 0" if "j \<noteq> i" for j
  proof -
    have no: "a \<noteq> b \<and> a \<noteq> x" if "a \<in> set (L j)" for a
      using that bL x sane_disjoint [OF assms(3), of a j i] \<open>j \<noteq> i\<close> addr(1) unfolding L(2) mem by auto
    have "dseg (listed b i h) 0 (L j) (hp_bins h j) q 0 = dseg h 0 (L j) (hp_bins h j) q 0" for q
      by (rule dseg_frame)
        (use no b x addr in \<open>auto simp: listed_def Let_def x_def [symmetric] fields
          next_free_def [of "h\<lparr>hp_bins := _, hp_sl_map := _, hp_fl_map := _\<rparr>" for h] dest: no\<close>)
    moreover have "hp_bins (listed b i h) j = hp_bins h j" using that by (simp add: listed_def Let_def)
    ultimately show ?thesis using L(3) [of j] by simp
  qed
  ultimately have d: "\<exists>q. dseg (listed b i h) 0 ((L(i := b # L i)) j) (hp_bins (listed b i h) j) q 0" for j by simp
  have "distinct ((L(i := b # L i)) j) \<and> set ((L(i := b # L i)) j) = members ?F j" for j
    using L(1) L(2) bL by (simp add: mem)
  then have "lists_ok (listed b i h) ?F" unfolding lists_ok_def using d by (intro exI [of _ "L(i := b # L i)"]) auto
  moreover have "maps_ok (listed b i h)" using listed_maps [OF assms(2) b(4,2)] .
  moreover have "hp_bins h i \<noteq> 0 \<longrightarrow> 8 dvd hp_bins h i \<and> (\<exists>t. (hp_bins h i, t) \<in> ?F)" using x addr [of x i] by (auto simp: x_def)
  then have "links_only ?F h (listed b i h)" by (intro listed_links_only [of b s]) (use b in simp_all)
  ultimately show ?thesis by (simp add: i_def)
qed

section \<open>Finding a block\<close>

lemma lists_head:
  assumes "lists_ok h F" "hp_bins h j \<noteq> 0"
  shows "\<exists>s. (hp_bins h j, s) \<in> F \<and> bin_of s = j"
proof -
  obtain as q where d: "set as = members F j" "dseg h 0 as (hp_bins h j) q 0" using assms(1) unfolding lists_ok_def by blast
  then have "as \<noteq> []" using assms(2) by auto
  then have "hp_bins h j \<in> members F j" using dseg_last [OF d(2)] d(1) by (metis hd_in_set)
  then show ?thesis by (auto simp: members_def)
qed

lemma bit_not_shift: "bit (w AND push_bit sl (NOT 0) :: u32) k \<longleftrightarrow> bit w k \<and> sl \<le> k"
  using bit_imp_le_length [of w k] by (auto simp: bit_and_iff bit_push_bit_iff bit_not_iff bit_mask_iff possible_bit_word)

lemma find_spec:
  assumes "lists_ok h F" "maps_ok h" "find h n \<noteq> 0"
  shows "\<exists>s. (find h n, s) \<in> F \<and> bin_of (round_up n) \<le> bin_of s"
proof -
  define i fl sl where "i = bin_of (round_up n)" and "fl = i div 8" and "sl = i mod 8"
  have i: "i = fl * 8 + sl" by (simp add: fl_def sl_def)
  have m: "\<And>j. bit (hp_sl_map h (j div 8)) (j mod 8) \<longleftrightarrow> hp_bins h j \<noteq> 0" "\<And>f k. bit (hp_sl_map h f) k \<Longrightarrow> k < 8"
    "\<And>f. bit (hp_fl_map h) f \<longleftrightarrow> hp_sl_map h f \<noteq> 0" using assms(2) unfolding maps_ok_def by (simp_all, metis not_le)
  have hit: "hp_bins h (f * 8 + k) \<noteq> 0" if "bit (hp_sl_map h f) k" for f k
    using m(1) [of "f * 8 + k"] m(2) [OF that] that by simp
  define w where "w = hp_sl_map h fl AND push_bit sl (NOT 0)"
  have "\<exists>j. i \<le> j \<and> find h n = hp_bins h j \<and> hp_bins h j \<noteq> 0"
  proof (cases "w = 0")
    case False
    have k: "bit (hp_sl_map h fl) (bit_ctz w)" "sl \<le> bit_ctz w" using bit_ctz_bit [OF False] unfolding w_def bit_not_shift by auto
    have "find h n = hp_bins h (fl * 8 + bit_ctz w)" using assms(3) False by (auto simp: find_def Let_def i_def [symmetric] fl_def [symmetric] sl_def [symmetric] w_def SL_COUNT_def split: if_splits)
    then show ?thesis using k hit [OF k(1)] by (intro exI [of _ "fl * 8 + bit_ctz w"]) (simp add: i)
  next
    case True
    define v where "v = (if fl + 1 < 32 then hp_fl_map h AND push_bit (fl + 1) (NOT 0) else 0)"
    have v: "v \<noteq> 0" and e: "find h n = hp_bins h (bit_ctz v * 8 + bit_ctz (hp_sl_map h (bit_ctz v)))"
      using assms(3) True unfolding w_def
      by (auto simp: find_def Let_def i_def [symmetric] fl_def [symmetric] sl_def [symmetric] v_def SL_COUNT_def split: if_splits)
    have "bit v (bit_ctz v)" using bit_ctz_bit [OF v] by simp
    then have f: "bit (hp_fl_map h) (bit_ctz v)" "fl + 1 \<le> bit_ctz v" unfolding v_def by (auto simp only: bit_not_shift bit_0_eq split: if_splits)
    then have "hp_sl_map h (bit_ctz v) \<noteq> 0" using m(3) by blast
    then have k: "bit (hp_sl_map h (bit_ctz v)) (bit_ctz (hp_sl_map h (bit_ctz v)))" using bit_ctz_bit by blast
    have "sl < 8" by (simp add: sl_def)
    then show ?thesis using e f(2) hit [OF k]
      by (intro exI [of _ "bit_ctz v * 8 + bit_ctz (hp_sl_map h (bit_ctz v))"]) (simp add: i)
  qed
  then show ?thesis using lists_head [OF assms(1)] by (metis i_def)
qed

end
