(* ===== verification/Malloc_Tiles.thy ===== *)
theory Malloc_Tiles
  imports Malloc_Lists
begin

text \<open>The blocks tile the heap: their headers, their places, and the invariant of the whole heap.\<close>

section \<open>Tilings\<close>

text \<open>The sizes of the blocks and which are free, in address order.\<close>

type_synonym tiling = "(nat \<times> bool) list"

fun span :: "tiling \<Rightarrow> nat" where
  "span [] = 0"
| "span ((s, f) # bs) = 8 + s + span bs"

fun blocks :: "nat \<Rightarrow> tiling \<Rightarrow> (nat \<times> nat \<times> bool) set" where
  "blocks a [] = {}"
| "blocks a ((s, f) # bs) = insert (a, s, f) (blocks (a + 8 + s) bs)"

definition wfs :: "tiling \<Rightarrow> bool" where
  "wfs bs \<longleftrightarrow> (\<forall>(s, f) \<in> set bs. 8 dvd s \<and> 8 \<le> s)"

definition hdr :: "heap \<Rightarrow> nat \<Rightarrow> nat \<Rightarrow> bool \<Rightarrow> bool \<Rightarrow> nat \<Rightarrow> bool" where
  "hdr h a s f pf ps \<longleftrightarrow> head h a = hd_word s f pf \<and> (pf \<longrightarrow> prev_size h a = ps)"

fun segs :: "heap \<Rightarrow> nat \<Rightarrow> bool \<Rightarrow> nat \<Rightarrow> tiling \<Rightarrow> bool" where
  "segs h a pf ps [] \<longleftrightarrow> True"
| "segs h a pf ps ((s, f) # bs) \<longleftrightarrow> hdr h a s f pf ps \<and> \<not> (f \<and> pf) \<and> segs h (a + 8 + s) f s bs"

fun tiles :: "heap \<Rightarrow> nat \<Rightarrow> bool \<Rightarrow> nat \<Rightarrow> tiling \<Rightarrow> bool" where
  "tiles h a pf ps [] \<longleftrightarrow> hdr h a 0 False pf ps"
| "tiles h a pf ps ((s, f) # bs) \<longleftrightarrow> hdr h a s f pf ps \<and> \<not> (f \<and> pf) \<and> tiles h (a + 8 + s) f s bs"

definition lastf :: "bool \<Rightarrow> tiling \<Rightarrow> bool" where
  "lastf pf bs = (if bs = [] then pf else snd (last bs))"

definition lasts :: "nat \<Rightarrow> tiling \<Rightarrow> nat" where
  "lasts ps bs = (if bs = [] then ps else fst (last bs))"

lemma last_simps [simp]:
  "lastf pf [] = pf" "lasts ps [] = ps" "lastf pf ((s, f) # bs) = lastf f bs" "lasts ps ((s, f) # bs) = lasts s bs"
  "lastf pf (bs @ [(s, f)]) = f" "lasts ps (bs @ [(s, f)]) = s"
  by (simp_all add: lastf_def lasts_def)

lemma span_append [simp]: "span (xs @ ys) = span xs + span ys"
  by (induction xs) auto

lemma blocks_append [simp]: "blocks a (xs @ ys) = blocks a xs \<union> blocks (a + span xs) ys"
  by (induction xs arbitrary: a) (auto simp: add.assoc)

lemma wfs_simps [simp]: "wfs []" "wfs ((s, f) # bs) \<longleftrightarrow> 8 dvd s \<and> 8 \<le> s \<and> wfs bs" "wfs (xs @ ys) \<longleftrightarrow> wfs xs \<and> wfs ys"
  by (auto simp: wfs_def)

lemma segs_append [simp]:
  "segs h a pf ps (xs @ ys) \<longleftrightarrow> segs h a pf ps xs \<and> segs h (a + span xs) (lastf pf xs) (lasts ps xs) ys"
  by (induction xs arbitrary: a pf ps) (auto simp: add.assoc)

lemma tiles_append [simp]:
  "tiles h a pf ps (xs @ ys) \<longleftrightarrow> segs h a pf ps xs \<and> tiles h (a + span xs) (lastf pf xs) (lasts ps xs) ys"
  by (induction xs arbitrary: a pf ps) (auto simp: add.assoc)

lemma span_dvd: "wfs bs \<Longrightarrow> 8 dvd span bs"
  by (induction bs) auto

lemma blocks_bounds: "(x, s, f) \<in> blocks a bs \<Longrightarrow> a \<le> x \<and> x + 8 + s \<le> a + span bs"
  by (induction bs arbitrary: a) (auto, fastforce+)

lemma blocks_wfs: "(x, s, f) \<in> blocks a bs \<Longrightarrow> wfs bs \<Longrightarrow> 8 dvd a \<Longrightarrow> 8 dvd x \<and> 8 dvd s \<and> 8 \<le> s"
  by (induction bs arbitrary: a) auto

text \<open>Two blocks, or a block and the end, are apart.\<close>

lemma blocks_apart:
  "(x, s, f) \<in> blocks a bs \<Longrightarrow> (y, t, g) \<in> blocks a bs \<Longrightarrow> (x, s, f) = (y, t, g) \<or> x + 8 + s \<le> y \<or> y + 8 + t \<le> x"
proof (induction bs arbitrary: a)
  case (Cons p bs)
  obtain u k where p: "p = (u, k)" by fastforce
  show ?case
    using Cons.prems Cons.IH [of "a + 8 + u"] blocks_bounds [of x s f "a + 8 + u" bs] blocks_bounds [of y t g "a + 8 + u" bs] by (auto simp: p)
qed simp

definition starts :: "nat \<Rightarrow> tiling \<Rightarrow> nat set" where
  "starts a bs = fst ` blocks a bs"

lemma starts_simps [simp]: "starts a [] = {}" "starts a ((s, f) # bs) = insert a (starts (a + 8 + s) bs)"
  "starts a (xs @ ys) = starts a xs \<union> starts (a + span xs) ys"
  by (auto simp: starts_def image_Un)

lemma starts_bounds: "c \<in> starts a bs \<Longrightarrow> a \<le> c \<and> c + 8 \<le> a + span bs"
  by (auto simp: starts_def dest!: blocks_bounds)

lemma starts_dvd: "c \<in> starts a bs \<Longrightarrow> wfs bs \<Longrightarrow> 8 dvd a \<Longrightarrow> 8 dvd c"
  by (auto simp: starts_def dest: blocks_wfs)

lemma start_apart:
  assumes "(x, s, f) \<in> blocks a bs" "c \<in> starts a bs \<or> c = a + span bs"
  shows "c \<le> x \<or> x + 8 + s \<le> c"
  using assms blocks_apart [OF assms(1)] blocks_bounds [OF assms(1)] by (force simp: starts_def)

lemma segs_frame:
  "(\<And>c. c \<in> starts a bs \<Longrightarrow> head h' c = head h c \<and> prev_size h' c = prev_size h c) \<Longrightarrow> segs h' a pf ps bs = segs h a pf ps bs"
  by (induction bs arbitrary: a pf ps) (auto simp: hdr_def)

lemma tiles_frame:
  "(\<And>c. c \<in> starts a bs \<or> c = a + span bs \<Longrightarrow> head h' c = head h c \<and> prev_size h' c = prev_size h c) \<Longrightarrow>
    tiles h' a pf ps bs = tiles h a pf ps bs"
proof (induction bs arbitrary: a pf ps)
  case (Cons p bs)
  obtain u k where p: "p = (u, k)" by fastforce
  have "tiles h' (a + 8 + u) k u bs = tiles h (a + 8 + u) k u bs" by (rule Cons.IH) (rule Cons.prems, auto simp: p)
  then show ?case using Cons.prems [of a] by (simp add: p hdr_def)
qed (simp add: hdr_def)

text \<open>The first header of a tiling, with another word about the block below.\<close>

definition firstf :: "tiling \<Rightarrow> bool" where
  "firstf bs = (case bs of [] \<Rightarrow> False | (s, f) # _ \<Rightarrow> f)"

definition firsts :: "tiling \<Rightarrow> nat" where
  "firsts bs = (case bs of [] \<Rightarrow> 0 | (s, f) # _ \<Rightarrow> s)"

lemma first_simps [simp]: "firstf [] = False" "firstf ((s, f) # bs) = f" "firsts [] = 0" "firsts ((s, f) # bs) = s"
  by (simp_all add: firstf_def firsts_def)

lemma firsts_dvd [simp]: "wfs bs \<Longrightarrow> 8 dvd firsts bs"
  by (cases bs) (auto simp: wfs_def)

lemma tiles_first: "tiles h a pf ps bs \<Longrightarrow> head h a = hd_word (firsts bs) (firstf bs) pf \<and> \<not> (firstf bs \<and> pf) \<and> (pf \<longrightarrow> prev_size h a = ps)"
  by (cases bs) (auto simp: hdr_def)

lemma tiles_change:
  assumes "tiles h a pf ps bs" "head h' a = hd_word (firsts bs) (firstf bs) pf'" "pf' \<longrightarrow> prev_size h' a = ps'" "\<not> (firstf bs \<and> pf')"
    "\<And>c. c \<in> starts a bs \<or> c = a + span bs \<Longrightarrow> c \<noteq> a \<Longrightarrow> head h' c = head h c \<and> prev_size h' c = prev_size h c"
  shows "tiles h' a pf' ps' bs"
proof (cases bs)
  case Nil
  then show ?thesis using assms(2,3) by (simp add: hdr_def)
next
  case (Cons p cs)
  obtain u k where p: "p = (u, k)" by fastforce
  have "tiles h' (a + 8 + u) k u cs = tiles h (a + 8 + u) k u cs"
  proof (rule tiles_frame)
    fix c assume c: "c \<in> starts (a + 8 + u) cs \<or> c = a + 8 + u + span cs"
    then have "c \<noteq> a" using starts_bounds by fastforce
    then show "head h' c = head h c \<and> prev_size h' c = prev_size h c" using c assms(5) [of c] by (auto simp: Cons p)
  qed
  then show ?thesis using assms(1-4) by (simp add: Cons p hdr_def)
qed

section \<open>Free and used blocks\<close>

definition frees :: "nat \<Rightarrow> tiling \<Rightarrow> (nat \<times> nat) set" where
  "frees a bs = {(x, s). (x, s, True) \<in> blocks a bs}"

definition useds :: "nat \<Rightarrow> tiling \<Rightarrow> (nat \<times> nat) set" where
  "useds a bs = {(x, s). (x, s, False) \<in> blocks a bs}"

lemma frees_simps [simp]:
  "frees a [] = {}" "frees a ((s, f) # bs) = (if f then insert (a, s) (frees (a + 8 + s) bs) else frees (a + 8 + s) bs)"
  "frees a (xs @ ys) = frees a xs \<union> frees (a + span xs) ys"
  "useds a [] = {}" "useds a ((s, f) # bs) = (if f then useds (a + 8 + s) bs else insert (a, s) (useds (a + 8 + s) bs))"
  "useds a (xs @ ys) = useds a xs \<union> useds (a + span xs) ys"
  by (auto simp: frees_def useds_def)

lemma frees_sane:
  assumes "wfs bs" "8 dvd a" "a \<noteq> 0" "a + span bs \<le> 2 ^ 31"
  shows "sane (frees a bs)"
proof -
  have "8 dvd x \<and> x \<noteq> 0 \<and> x < U32 \<and> s < 2 ^ 31 \<and> (\<forall>t. (x, t) \<in> frees a bs \<longrightarrow> t = s)" if "(x, s) \<in> frees a bs" for x s
  proof -
    have b: "(x, s, True) \<in> blocks a bs" using that by (simp add: frees_def)
    have "t = s" if "(x, t) \<in> frees a bs" for t using blocks_apart [OF b, of x t True] that by (auto simp: frees_def)
    then show ?thesis using blocks_bounds [OF b] blocks_wfs [OF b assms(1,2)] assms(3,4) by auto
  qed
  then show ?thesis by (auto simp: sane_def)
qed

text \<open>Changes to the links of free blocks leave every header.\<close>

lemma links_only_headers:
  assumes "links_only F h h'" "F \<subseteq> {(x, s). \<exists>f. (x, s, f) \<in> blocks a bs}" "wfs bs" "8 dvd a" "c \<in> starts a bs \<or> c = a + span bs"
  shows "head h' c = head h c \<and> prev_size h' c = prev_size h c"
proof -
  have "8 dvd c" using assms(3-5) starts_dvd span_dvd by auto
  moreover have "c \<noteq> x + 8" if xt: "(x, t) \<in> F" for x t
  proof -
    obtain f where b: "(x, t, f) \<in> blocks a bs" using subsetD [OF assms(2) xt] by auto
    then show ?thesis using start_apart [OF b assms(5)] blocks_wfs [OF b assms(3,4)] by auto
  qed
  then have "\<forall>(x, t) \<in> F. c \<noteq> x + 8" by auto
  ultimately show ?thesis using assms(1) unfolding links_only_def by blast
qed

section \<open>Contents\<close>

text \<open>The bytes that belong to the holders of the used blocks.\<close>

definition pay :: "nat \<Rightarrow> nat \<Rightarrow> nat set" where
  "pay u s = {u + 8..<u + 8 + s}"

definition pays :: "(nat \<times> nat) set \<Rightarrow> nat set" where
  "pays U = (\<Union>(u, s) \<in> U. pay u s)"

definition same_on :: "nat set \<Rightarrow> heap \<Rightarrow> heap \<Rightarrow> bool" where
  "same_on X h h' \<longleftrightarrow> (\<forall>x \<in> X. hp_mem h' x = hp_mem h x)"

lemma same_on_refl [simp]: "same_on X h h"
  by (simp add: same_on_def)

lemma same_on_trans: "same_on X h h' \<Longrightarrow> same_on X h' h'' \<Longrightarrow> same_on X h h''"
  by (simp add: same_on_def)

lemma same_on_mono: "same_on X h h' \<Longrightarrow> Y \<subseteq> X \<Longrightarrow> same_on Y h h'"
  by (auto simp: same_on_def)

text \<open>Eight bytes from \<open>c\<close> on are outside of \<open>X\<close>.\<close>

definition off :: "nat set \<Rightarrow> nat \<Rightarrow> bool" where
  "off X c \<longleftrightarrow> (\<forall>x \<in> X. x < c \<or> c + 8 \<le> x)"

lemma same_on_set:
  "off X c \<Longrightarrow> same_on X h (set_head c w g) = same_on X h g" "off X c \<Longrightarrow> same_on X h (set_prev_size c v g) = same_on X h g"
  by (force simp: same_on_def off_def bytes)+

lemma same_on_links:
  assumes "links_only F h h'" "\<And>a t. (a, t) \<in> F \<Longrightarrow> off X (a + 8)"
  shows "same_on X h h'"
  unfolding same_on_def
proof
  fix x assume "x \<in> X"
  then have "\<forall>(a, t) \<in> F. x < a + 8 \<or> a + 16 \<le> x" using assms(2) unfolding off_def by fastforce
  then show "hp_mem h' x = hp_mem h x" using assms(1) by (simp add: links_only_def)
qed

lemma off_Un: "off (X \<union> Y) c \<longleftrightarrow> off X c \<and> off Y c"
  by (auto simp: off_def)

lemma off_pays: "off (pays U) c \<longleftrightarrow> (\<forall>(u, s) \<in> U. off (pay u s) c)"
  by (auto simp: off_def pays_def)

lemma off_pay: "c \<le> u \<or> u + 8 + s \<le> c \<Longrightarrow> off (pay u s) c"
  by (auto simp: off_def pay_def)

lemma off_start:
  assumes "U \<subseteq> {(x, s). \<exists>f. (x, s, f) \<in> blocks a bs}" "c \<in> starts a bs \<or> c = a + span bs"
  shows "off (pays U) c"
  unfolding off_pays using assms start_apart by (blast intro: off_pay)

lemma off_link:
  assumes "U \<subseteq> {(x, s). \<exists>f. (x, s, f) \<in> blocks a bs}" "(y, t, g) \<in> blocks a bs" "(y, t) \<notin> U" "8 \<le> t"
  shows "off (pays U) (y + 8)"
proof -
  have "off (pay u s) (y + 8)" if u: "(u, s) \<in> U" for u s
  proof -
    obtain f where "(u, s, f) \<in> blocks a bs" using assms(1) u by auto
    then have "u + 8 + s \<le> y \<or> y + 8 + t \<le> u" using blocks_apart [OF _ assms(2)] u assms(3) by blast
    then show ?thesis using assms(4) by (intro off_pay) linarith
  qed
  then show ?thesis unfolding off_pays by auto
qed

end
