(* ===== verification/Malloc_Ops.thy ===== *)
theory Malloc_Ops
  imports Malloc_Tiles
begin

text \<open>The invariant of the heap, and what each internal operation of the allocator does to the tiling.\<close>

definition heap_inv :: "heap \<Rightarrow> tiling \<Rightarrow> bool" where
  "heap_inv h bs \<longleftrightarrow> hp_first h \<noteq> 0 \<and> 8 dvd hp_first h \<and> wfs bs \<and> tiles h (hp_first h) False 0 bs \<and>
     hp_epilogue h = hp_first h + span bs \<and> hp_epilogue h + 8 \<le> 2 ^ 30 \<and> lists_ok h (frees (hp_first h) bs) \<and> maps_ok h"

text \<open>
  The same while the block above \<open>xs\<close> is in transit: it is used, of \<open>s\<close> bytes, and the header above it says anything about it.
\<close>

definition loose :: "heap \<Rightarrow> tiling \<Rightarrow> nat \<Rightarrow> tiling \<Rightarrow> bool" where
  "loose h xs s ys \<longleftrightarrow> hp_first h \<noteq> 0 \<and> 8 dvd hp_first h \<and> wfs (xs @ (s, False) # ys) \<and> segs h (hp_first h) False 0 xs \<and>
     hdr h (hp_first h + span xs) s False (lastf False xs) (lasts 0 xs) \<and> (\<exists>pf ps. tiles h (hp_first h + span xs + 8 + s) pf ps ys) \<and>
     hp_epilogue h = hp_first h + span (xs @ (s, False) # ys) \<and> hp_epilogue h + 8 \<le> 2 ^ 30 \<and>
     lists_ok h (frees (hp_first h) (xs @ (s, False) # ys)) \<and> maps_ok h"

lemma inv_loose: "heap_inv h (xs @ (s, False) # ys) \<Longrightarrow> loose h xs s ys"
  by (auto simp: heap_inv_def loose_def)

lemma lists_ok_frame:
  assumes "\<And>a s. (a, s) \<in> F \<Longrightarrow> next_free h' a = next_free h a \<and> prev_free h' a = prev_free h a" "hp_bins h' = hp_bins h"
  shows "lists_ok h' F = lists_ok h F"
proof -
  have d: "dseg h' 0 as x q y = dseg h 0 as x q y" if "set as = members F i" for as x q y i
    by (rule dseg_frame) (use that assms(1) in \<open>auto simp: members_def\<close>)
  show ?thesis unfolding lists_ok_def assms(2) using d by (metis (no_types, lifting))
qed

lemma lists_ok_header:
  assumes "8 dvd c" "\<And>a s. (a, s) \<in> F \<Longrightarrow> 8 dvd a \<and> c \<noteq> a + 8"
  shows "lists_ok (set_head c w h) F = lists_ok h F" "lists_ok (set_prev_size c v h) F = lists_ok h F"
  by (rule lists_ok_frame; use assms in \<open>auto simp: fields\<close>)+

lemma maps_ok_header [simp]: "maps_ok (set_head c w h) = maps_ok h" "maps_ok (set_prev_size c v h) = maps_ok h"
  by (simp_all add: maps_ok_def)

text \<open>A header is no link.\<close>

lemma header_no_link:
  assumes "wfs bs" "8 dvd a" "c \<in> starts a bs \<or> c = a + span bs"
  shows "8 dvd c" "\<And>x s. (x, s) \<in> frees a bs \<Longrightarrow> 8 dvd x \<and> c \<noteq> x + 8"
proof -
  show "8 dvd c" using assms starts_dvd span_dvd by auto
  fix x s assume "(x, s) \<in> frees a bs"
  then have b: "(x, s, True) \<in> blocks a bs" by (simp add: frees_def)
  then show "8 dvd x \<and> c \<noteq> x + 8" using start_apart [OF b assms(3)] blocks_wfs [OF b assms(1,2)] by auto
qed

lemma frees_sub: "frees a bs \<subseteq> {(x, s). \<exists>f. (x, s, f) \<in> blocks a bs}" "useds a bs \<subseteq> {(x, s). \<exists>f. (x, s, f) \<in> blocks a bs}"
  by (auto simp: frees_def useds_def)

lemma frees_bounds: "(x, s) \<in> frees a bs \<Longrightarrow> a \<le> x \<and> x + 8 + s \<le> a + span bs" "(x, s) \<in> useds a bs \<Longrightarrow> a \<le> x \<and> x + 8 + s \<le> a + span bs"
  by (auto simp: frees_def useds_def dest: blocks_bounds)

text \<open>The contents of used blocks are off the headers and off the links of free blocks.\<close>

lemma off_used:
  assumes "wfs bs" "8 dvd a"
  shows "c \<in> starts a bs \<or> c = a + span bs \<Longrightarrow> off (pays (useds a bs)) c" "(x, s) \<in> frees a bs \<Longrightarrow> off (pays (useds a bs)) (x + 8)"
proof -
  show "off (pays (useds a bs)) c" if "c \<in> starts a bs \<or> c = a + span bs" using off_start [OF frees_sub(2) that] .
  show "off (pays (useds a bs)) (x + 8)" if "(x, s) \<in> frees a bs"
  proof -
    have b: "(x, s, True) \<in> blocks a bs" using that by (simp add: frees_def)
    have "(x, s) \<notin> useds a bs" using blocks_apart [OF b, of x s False] blocks_wfs [OF b assms] by (auto simp: useds_def)
    then show ?thesis using off_link [OF frees_sub(2) b] blocks_wfs [OF b assms] by blast
  qed
qed

text \<open>Taking a free block off its list.\<close>

lemma unlink_inv:
  assumes "wfs bs" "8 dvd a" "a \<noteq> 0" "a + span bs \<le> 2 ^ 31" "lists_ok h (frees a bs)" "maps_ok h" "(b, s) \<in> frees a bs" "SIZE h b = s"
  shows "lists_ok (unlink_free b h) (frees a bs - {(b, s)})" "maps_ok (unlink_free b h)" "core (unlink_free b h) = core h"
    "\<And>c. c \<in> starts a bs \<or> c = a + span bs \<Longrightarrow> head (unlink_free b h) c = head h c \<and> prev_size (unlink_free b h) c = prev_size h c"
    "same_on (pays (useds a bs)) h (unlink_free b h)"
proof -
  note u = unlink_free_spec [OF assms(5,6) frees_sane [OF assms(1-4)] assms(7,8)]
  show "lists_ok (unlink_free b h) (frees a bs - {(b, s)})" "maps_ok (unlink_free b h)" using u by blast+
  have l: "links_only (frees a bs) h (unlink_free b h)" using u by blast
  show "core (unlink_free b h) = core h" using l by (simp add: links_only_def)
  show "head (unlink_free b h) c = head h c \<and> prev_size (unlink_free b h) c = prev_size h c" if "c \<in> starts a bs \<or> c = a + span bs" for c
    using links_only_headers [OF l frees_sub(1) assms(1,2) that] .
  show "same_on (pays (useds a bs)) h (unlink_free b h)" using same_on_links [OF l] off_used(2) [OF assms(1,2)] by blast
qed

lemma size_of_head: "head h b = hd_word s f p \<Longrightarrow> 8 dvd s \<Longrightarrow> s < U32 \<Longrightarrow> SIZE h b = s"
  unfolding SIZE_def by (simp only: hd_word_size)

lemma loose_size:
  assumes "loose h xs s ys"
  shows "SIZE h (hp_first h + span xs) = s" "NEXT_PHYS h (hp_first h + span xs) = hp_first h + span xs + 8 + s"
    "PAYLOAD (hp_first h + span xs) = hp_first h + span xs + 8" "8 \<le> s" "8 dvd s" "hp_first h + span xs + 8 + s + 8 \<le> 2 ^ 30"
    "8 dvd hp_first h + span xs"
proof -
  have s: "8 dvd s" "hp_first h + span xs + 8 + s + 8 \<le> 2 ^ 30" "8 dvd hp_first h + span xs" "8 \<le> s"
    using assms span_dvd [of xs] by (auto simp: loose_def)
  then have lt: "s < U32" by simp
  have "head h (hp_first h + span xs) = hd_word s False (lastf False xs)" using assms by (simp add: loose_def hdr_def)
  then show "SIZE h (hp_first h + span xs) = s" by (rule size_of_head) (use s lt in auto)
  moreover show "PAYLOAD (hp_first h + span xs) = hp_first h + span xs + 8" using s(2) by (simp add: PAYLOAD_def HDR_def)
  ultimately show "NEXT_PHYS h (hp_first h + span xs) = hp_first h + span xs + 8 + s" using s(2) by (simp add: NEXT_PHYS_def)
  show "8 \<le> s" "8 dvd s" "hp_first h + span xs + 8 + s + 8 \<le> 2 ^ 30" "8 dvd hp_first h + span xs" using s by auto
qed

text \<open>The block in transit takes in the free block above it.\<close>

lemma merge_next:
  assumes "loose h xs s ((t, True) # ys)" "b = hp_first h + span xs" "n = b + 8 + s"
    "h' = set_head b (head (unlink_free n h) b + of_nat (8 + t)) (unlink_free n h)"
  shows "loose h' xs (s + 8 + t) ys" "core h' = core h" "same_on (pays (useds (hp_first h) (xs @ (s, False) # (t, True) # ys))) h h'" "SIZE h n = t"
    "\<not> firstf ys" "SIZE (unlink_free n h) n = t"
proof -
  define a W where "a = hp_first h" and "W = xs @ (s, False) # (t, True) # ys"
  have l: "a \<noteq> 0" "8 dvd a" "wfs W" "segs h a False 0 xs" "hdr h b s False (lastf False xs) (lasts 0 xs)"
    "hp_epilogue h = a + span W" "hp_epilogue h + 8 \<le> 2 ^ 30" "lists_ok h (frees a W)" "maps_ok h"
    using assms(1) by (simp_all add: loose_def W_def a_def assms(2))
  obtain pf ps where t: "tiles h n pf ps ((t, True) # ys)" using assms(1) by (auto simp: loose_def assms(2,3) add.assoc)
  have hn: "head h n = hd_word t True pf" "tiles h (n + 8 + t) True t ys" using t by (auto simp: hdr_def)
  show "\<not> firstf ys" using tiles_first [OF hn(2)] by simp
  have w: "8 dvd s" "8 \<le> s" "8 dvd t" "8 \<le> t" "wfs xs" "wfs ys" using l(3) by (simp_all add: W_def)
  have e: "n + 8 + t + span ys = a + span W" by (simp add: W_def assms(2,3) a_def)
  have lt: "t < U32" "a + span W \<le> 2 ^ 31" using l(6,7) e by simp_all
  show st: "SIZE h n = t" by (rule size_of_head [OF hn(1) w(3) lt(1)])
  have nf: "(n, t) \<in> frees a W" by (simp add: W_def assms(2,3) a_def add.assoc)
  note u = unlink_inv [OF l(3,2,1) lt(2) l(8,9) nf st]
  let ?u = "unlink_free n h"
  have nW: "n \<in> starts a W" by (simp add: W_def assms(2,3) a_def add.assoc)
  then have "head ?u n = hd_word t True pf" using u(4) [of n] hn(1) by simp
  then show "SIZE ?u n = t" by (rule size_of_head [OF _ w(3) lt(1)])
  have bW: "b \<in> starts a W" by (simp add: W_def assms(2) a_def)
  note nl = header_no_link [OF l(3,2) disjI1 [OF bW]]
  have hb: "head ?u b + of_nat (8 + t) = hd_word (s + 8 + t) False (lastf False xs)"
    using u(4) [of b] bW l(5) hd_word_add [of s "8 + t"] w by (simp add: hdr_def add.assoc)
  have sub: "starts a (xs @ (s + 8 + t, False) # ys) \<subseteq> starts a W" by (auto simp: W_def add.assoc)
  have f: "head h' c = (if c = b then hd_word (s + 8 + t) False (lastf False xs) else head h c) \<and> prev_size h' c = prev_size h c"
    if "c \<in> starts a W \<or> c = a + span W" for c
  proof -
    have "8 dvd c" using header_no_link(1) [OF l(3,2) that] .
    then show ?thesis using u(4) [OF that] hb nl(1) by (auto simp: assms(4) fields)
  qed
  have core: "core h' = core h" using u(3) by (simp add: assms(4))
  then show "core h' = core h" .
  note same = core_same [OF core]
  have "segs h' a False 0 xs = segs h a False 0 xs"
  proof (rule segs_frame)
    fix c assume c: "c \<in> starts a xs"
    then have "c \<noteq> b" using starts_bounds [OF c] by (simp add: assms(2) a_def)
    then show "head h' c = head h c \<and> prev_size h' c = prev_size h c" using f [of c] c by (simp add: W_def)
  qed
  moreover have "hdr h' b (s + 8 + t) False (lastf False xs) (lasts 0 xs)" using f [of b] bW l(5) by (simp add: hdr_def)
  moreover have "tiles h' (n + 8 + t) True t ys = tiles h (n + 8 + t) True t ys"
  proof (rule tiles_frame)
    fix c assume c: "c \<in> starts (n + 8 + t) ys \<or> c = n + 8 + t + span ys"
    then have "c \<noteq> b" using starts_bounds [of c "n + 8 + t" ys] by (auto simp: assms(3))
    moreover have "c \<in> starts a W \<or> c = a + span W" using c by (auto simp: W_def assms(2,3) a_def add.assoc)
    ultimately show "head h' c = head h c \<and> prev_size h' c = prev_size h c" using f [of c] by simp
  qed
  moreover have "frees a (xs @ (s + 8 + t, False) # ys) = frees a W - {(n, t)}"
  proof -
    have "(n, t) \<notin> frees a xs" "(n, t) \<notin> frees (n + 8 + t) ys"
      using frees_bounds(1) [of n t] w(4) by (fastforce simp: assms(2,3) a_def)+
    then show ?thesis by (auto simp: W_def assms(2,3) a_def add.assoc)
  qed
  moreover have "lists_ok h' (frees a W - {(n, t)})"
    unfolding assms(4) by (subst lists_ok_header(1)) (use nl u(1) in auto)
  moreover have "maps_ok h'" using u(2) by (simp add: assms(4))
  ultimately show "loose h' xs (s + 8 + t) ys"
    unfolding loose_def same a_def [symmetric] assms(2) [folded a_def, symmetric]
    using l hn(2) w e by (auto simp: assms(3) add.assoc W_def)
  have "same_on (pays (useds a W)) h ?u" by (rule u(5))
  moreover have "off (pays (useds a W)) b" using off_used(1) [OF l(3,2)] bW by blast
  ultimately show "same_on (pays (useds (hp_first h) (xs @ (s, False) # (t, True) # ys))) h h'"
    unfolding assms(4) a_def [symmetric] W_def [symmetric] by (simp add: same_on_set)
qed

text \<open>The free block below takes in the block in transit.\<close>

lemma merge_prev:
  assumes "loose h (xs @ [(u, True)]) s ys" "d = hp_first h + span xs" "b = d + 8 + u"
    "h' = set_head d ((head (unlink_free d h) d AND NOT 1) + of_nat 8 + of_nat s) (unlink_free d h)"
  shows "loose h' xs (u + 8 + s) ys" "core h' = core h" "same_on (pays (useds (hp_first h) (xs @ (u, True) # (s, False) # ys))) h h'"
    "PREV_PHYS h b = d" "SIZE (unlink_free d h) b = s" "\<not> lastf False xs" "head h' b = hd_word s False True"
proof -
  define a W where "a = hp_first h" and "W = xs @ (u, True) # (s, False) # ys"
  have l: "a \<noteq> 0" "8 dvd a" "wfs W" "segs h a False 0 xs" "hdr h d u True (lastf False xs) (lasts 0 xs)" "\<not> lastf False xs"
    "hdr h b s False True u" "hp_epilogue h = a + span W" "hp_epilogue h + 8 \<le> 2 ^ 30" "lists_ok h (frees a W)" "maps_ok h"
    using assms(1) by (auto simp: loose_def W_def a_def assms(2,3) add.assoc)
  obtain pf ps where t: "tiles h (b + 8 + s) pf ps ys" using assms(1) by (auto simp: loose_def assms(2,3) add.assoc)
  show nl0: "\<not> lastf False xs" by (rule l(6))
  have w: "8 dvd s" "8 \<le> s" "8 dvd u" "8 \<le> u" "wfs xs" "wfs ys" using l(3) by (simp_all add: W_def)
  have e: "b + 8 + s + span ys = a + span W" by (simp add: W_def assms(2,3) a_def)
  have lt: "u < U32" "s < U32" "a + span W \<le> 2 ^ 31" "b < U32" using l(8,9) e by (simp_all add: assms(3))
  have hd: "head h d = hd_word u True (lastf False xs)" "head h b = hd_word s False True" "prev_size h b = u" using l(5,7) by (simp_all add: hdr_def)
  show "PREV_PHYS h b = d" unfolding PREV_PHYS_def hd(3) using lt by (simp add: HDR_def assms(3))
  have st: "SIZE h d = u" by (rule size_of_head [OF hd(1) w(3) lt(1)])
  have df: "(d, u) \<in> frees a W" by (simp add: W_def assms(2,3) a_def add.assoc)
  note un = unlink_inv [OF l(3,2,1) lt(3) l(10,11) df st]
  let ?u = "unlink_free d h"
  have dW: "d \<in> starts a W" and bW: "b \<in> starts a W" by (simp_all add: W_def assms(2,3) a_def)
  have hb: "head ?u b = hd_word s False True" using un(4) [of b] bW hd(2) by simp
  show "SIZE ?u b = s" by (rule size_of_head [OF hb w(1) lt(2)])
  note nl = header_no_link [OF l(3,2) disjI1 [OF dW]]
  have "head ?u d = hd_word u True (lastf False xs)" using un(4) [of d] dW hd(1) by simp
  then have "(head ?u d AND NOT 1) + of_nat 8 + of_nat s = hd_word u False (lastf False xs) + of_nat 8 + of_nat s"
    by (simp only: hd_word_masks(2) [OF w(3)])
  also have "\<dots> = hd_word (u + 8 + s) False (lastf False xs)"
    unfolding hd_word_add [OF w(3) dvd_refl] by (rule hd_word_add) (use w in simp_all)
  finally have hd': "(head ?u d AND NOT 1) + of_nat 8 + of_nat s = hd_word (u + 8 + s) False (lastf False xs)" .
  have f: "head h' c = (if c = d then hd_word (u + 8 + s) False (lastf False xs) else head h c) \<and> prev_size h' c = prev_size h c"
    if "c \<in> starts a W \<or> c = a + span W" for c
  proof -
    have "8 dvd c" using header_no_link(1) [OF l(3,2) that] .
    then show ?thesis using un(4) [OF that] nl(1) unfolding assms(4) hd' by (auto simp: fields)
  qed
  have "b \<noteq> d" by (simp add: assms(3))
  then show "head h' b = hd_word s False True" using f [of b] bW hd(2) by simp
  have core: "core h' = core h" using un(3) by (simp add: assms(4))
  then show "core h' = core h" .
  note same = core_same [OF core]
  have "segs h' a False 0 xs = segs h a False 0 xs"
  proof (rule segs_frame)
    fix c assume c: "c \<in> starts a xs"
    then have "c \<noteq> d" using starts_bounds [OF c] by (simp add: assms(2) a_def)
    then show "head h' c = head h c \<and> prev_size h' c = prev_size h c" using f [of c] c by (simp add: W_def)
  qed
  moreover have "hdr h' d (u + 8 + s) False (lastf False xs) (lasts 0 xs)" using f [of d] dW l(5) by (simp add: hdr_def)
  moreover have "tiles h' (b + 8 + s) pf ps ys = tiles h (b + 8 + s) pf ps ys"
  proof (rule tiles_frame)
    fix c assume c: "c \<in> starts (b + 8 + s) ys \<or> c = b + 8 + s + span ys"
    then have "c \<noteq> d" using starts_bounds [of c "b + 8 + s" ys] by (auto simp: assms(3))
    moreover have "c \<in> starts a W \<or> c = a + span W" using c by (auto simp: W_def assms(2,3) a_def add.assoc)
    ultimately show "head h' c = head h c \<and> prev_size h' c = prev_size h c" using f [of c] by simp
  qed
  moreover have "frees a (xs @ (u + 8 + s, False) # ys) = frees a W - {(d, u)}"
  proof -
    have "(d, u) \<notin> frees a xs" "(d, u) \<notin> frees (b + 8 + s) ys"
      using frees_bounds(1) [of d u] w(4) by (fastforce simp: assms(2,3) a_def)+
    then show ?thesis by (auto simp: W_def assms(2,3) a_def add.assoc)
  qed
  moreover have "lists_ok h' (frees a W - {(d, u)})"
    unfolding assms(4) by (subst lists_ok_header(1)) (use nl un(1) in auto)
  moreover have "maps_ok h'" using un(2) by (simp add: assms(4))
  ultimately show "loose h' xs (u + 8 + s) ys"
    unfolding loose_def same a_def [symmetric] assms(2) [folded a_def, symmetric]
    using l t w e by (auto simp: assms(3) add.assoc W_def)
  have "same_on (pays (useds a W)) h ?u" by (rule un(5))
  moreover have "off (pays (useds a W)) d" using off_used(1) [OF l(3,2)] dW by blast
  ultimately show "same_on (pays (useds (hp_first h) (xs @ (u, True) # (s, False) # ys))) h h'"
    unfolding assms(4) a_def [symmetric] W_def [symmetric] by (simp add: same_on_set)
qed

text \<open>A free block is taken off its list and becomes the block in transit.\<close>

lemma open_free:
  assumes "heap_inv h (xs @ (s, True) # ys)" "b = hp_first h + span xs"
    "h' = set_head b (head (unlink_free b h) b AND NOT 1) (unlink_free b h)"
  shows "loose h' xs s ys" "core h' = core h" "same_on (pays (useds (hp_first h) (xs @ (s, True) # ys))) h h'" "\<not> lastf False xs" "\<not> firstf ys"
proof -
  define a W where "a = hp_first h" and "W = xs @ (s, True) # ys"
  have l: "a \<noteq> 0" "8 dvd a" "wfs W" "segs h a False 0 xs" "hdr h b s True (lastf False xs) (lasts 0 xs)" "\<not> lastf False xs"
    "tiles h (b + 8 + s) True s ys" "hp_epilogue h = a + span W" "hp_epilogue h + 8 \<le> 2 ^ 30" "lists_ok h (frees a W)" "maps_ok h"
    using assms(1) by (auto simp: heap_inv_def W_def a_def assms(2) add.assoc)
  show "\<not> lastf False xs" by (rule l(6))
  show "\<not> firstf ys" using tiles_first [OF l(7)] by simp
  have w: "8 dvd s" "8 \<le> s" "wfs xs" "wfs ys" using l(3) by (simp_all add: W_def)
  have e: "b + 8 + s + span ys = a + span W" by (simp add: W_def assms(2) a_def)
  have lt: "s < U32" "a + span W \<le> 2 ^ 31" using l(8,9) e by simp_all
  have hd: "head h b = hd_word s True (lastf False xs)" using l(5) by (simp add: hdr_def)
  have st: "SIZE h b = s" by (rule size_of_head [OF hd w(1) lt(1)])
  have df: "(b, s) \<in> frees a W" by (simp add: W_def assms(2) a_def add.assoc)
  note un = unlink_inv [OF l(3,2,1) lt(2) l(10,11) df st]
  let ?u = "unlink_free b h"
  have bW: "b \<in> starts a W" by (simp add: W_def assms(2) a_def)
  note nl = header_no_link [OF l(3,2) disjI1 [OF bW]]
  have "head ?u b = hd_word s True (lastf False xs)" using un(4) [of b] bW hd by simp
  then have hd': "head ?u b AND NOT 1 = hd_word s False (lastf False xs)" by (simp only: hd_word_masks(2) [OF w(1)])
  have f: "head h' c = (if c = b then hd_word s False (lastf False xs) else head h c) \<and> prev_size h' c = prev_size h c"
    if "c \<in> starts a W \<or> c = a + span W" for c
  proof -
    have "8 dvd c" using header_no_link(1) [OF l(3,2) that] .
    then show ?thesis using un(4) [OF that] nl(1) unfolding assms(3) hd' by (auto simp: fields)
  qed
  have core: "core h' = core h" using un(3) by (simp add: assms(3))
  then show "core h' = core h" .
  note same = core_same [OF core]
  have "segs h' a False 0 xs = segs h a False 0 xs"
  proof (rule segs_frame)
    fix c assume c: "c \<in> starts a xs"
    then have "c \<noteq> b" using starts_bounds [OF c] by (simp add: assms(2) a_def)
    then show "head h' c = head h c \<and> prev_size h' c = prev_size h c" using f [of c] c by (simp add: W_def)
  qed
  moreover have "hdr h' b s False (lastf False xs) (lasts 0 xs)" using f [of b] bW l(5) by (simp add: hdr_def)
  moreover have "tiles h' (b + 8 + s) True s ys = tiles h (b + 8 + s) True s ys"
  proof (rule tiles_frame)
    fix c assume c: "c \<in> starts (b + 8 + s) ys \<or> c = b + 8 + s + span ys"
    then have "c \<noteq> b" using starts_bounds [of c "b + 8 + s" ys] by auto
    moreover have "c \<in> starts a W \<or> c = a + span W" using c by (auto simp: W_def assms(2) a_def add.assoc)
    ultimately show "head h' c = head h c \<and> prev_size h' c = prev_size h c" using f [of c] by simp
  qed
  moreover have "frees a (xs @ (s, False) # ys) = frees a W - {(b, s)}"
  proof -
    have "(b, s) \<notin> frees a xs" "(b, s) \<notin> frees (b + 8 + s) ys" using frees_bounds(1) [of b s] w(2) by (fastforce simp: assms(2) a_def)+
    then show ?thesis by (auto simp: W_def assms(2) a_def add.assoc)
  qed
  moreover have "lists_ok h' (frees a W - {(b, s)})"
    unfolding assms(3) by (subst lists_ok_header(1)) (use nl un(1) in auto)
  moreover have "maps_ok h'" using un(2) by (simp add: assms(3))
  ultimately show "loose h' xs s ys"
    unfolding loose_def same a_def [symmetric] assms(2) [folded a_def, symmetric]
    using l w e by (auto simp: add.assoc W_def)
  have "same_on (pays (useds a W)) h ?u" by (rule un(5))
  moreover have "off (pays (useds a W)) b" using off_used(1) [OF l(3,2)] bW by blast
  ultimately show "same_on (pays (useds (hp_first h) (xs @ (s, True) # ys))) h h'"
    unfolding assms(3) a_def [symmetric] W_def [symmetric] by (simp add: same_on_set)
qed

text \<open>The block in transit is announced as used to the block above it.\<close>

lemma close_used:
  assumes "loose h xs s ys" "n = hp_first h + span xs + 8 + s" "h' = set_head n (head h n AND NOT 2) h"
  shows "heap_inv h' (xs @ (s, False) # ys)" "core h' = core h" "same_on (pays (useds (hp_first h) (xs @ (s, False) # ys))) h h'"
proof -
  define a b W where "a = hp_first h" and "b = a + span xs" and "W = xs @ (s, False) # ys"
  have l: "a \<noteq> 0" "8 dvd a" "wfs W" "segs h a False 0 xs" "hdr h b s False (lastf False xs) (lasts 0 xs)"
    "hp_epilogue h = a + span W" "hp_epilogue h + 8 \<le> 2 ^ 30" "lists_ok h (frees a W)" "maps_ok h"
    using assms(1) by (auto simp: loose_def W_def a_def b_def add.assoc)
  obtain pf ps where t: "tiles h n pf ps ys" using assms(1) by (auto simp: loose_def assms(2))
  have w: "8 dvd s" "8 \<le> s" "wfs xs" "wfs ys" using l(3) by (simp_all add: W_def)
  have nb: "n = b + 8 + s" by (simp add: assms(2) a_def b_def)
  have e: "n + span ys = a + span W" by (simp add: W_def nb b_def)
  have nW: "n \<in> starts a W \<or> n = a + span W"
    using e by (cases ys) (auto simp: W_def nb b_def add.assoc)
  note nl = header_no_link [OF l(3,2) nW]
  have hn: "head h n AND NOT 2 = hd_word (firsts ys) (firstf ys) False"
    using tiles_first [OF t] hd_word_masks(4) [of "firsts ys"] w by simp
  have f: "head h' c = (if c = n then hd_word (firsts ys) (firstf ys) False else head h c) \<and> prev_size h' c = prev_size h c"
    if "c \<in> starts a W \<or> c = a + span W" for c
  proof -
    have "8 dvd c" using header_no_link(1) [OF l(3,2) that] .
    then show ?thesis using nl(1) unfolding assms(3) hn by (auto simp: fields)
  qed
  have core: "core h' = core h" by (simp add: assms(3))
  then show "core h' = core h" .
  note same = core_same [OF core]
  have "segs h' a False 0 xs = segs h a False 0 xs"
  proof (rule segs_frame)
    fix c assume c: "c \<in> starts a xs"
    then have "c \<noteq> n" using starts_bounds [OF c] by (simp add: nb b_def)
    then show "head h' c = head h c \<and> prev_size h' c = prev_size h c" using f [of c] c by (simp add: W_def)
  qed
  moreover have "hdr h' b s False (lastf False xs) (lasts 0 xs)" using f [of b] l(5) by (simp add: hdr_def W_def b_def nb)
  moreover have "tiles h' n False s ys"
  proof (rule tiles_change [OF t])
    show "head h' n = hd_word (firsts ys) (firstf ys) False" using f [OF nW] by simp
    fix c assume c: "c \<in> starts n ys \<or> c = n + span ys" "c \<noteq> n"
    then have "c \<in> starts a W \<or> c = a + span W" by (auto simp: W_def nb b_def add.assoc)
    then show "head h' c = head h c \<and> prev_size h' c = prev_size h c" using f [of c] c by simp
  qed simp_all
  moreover have "lists_ok h' (frees a W)" unfolding assms(3) by (subst lists_ok_header(1)) (use nl l(8) in auto)
  moreover have "maps_ok h'" using l(9) by (simp add: assms(3))
  ultimately show "heap_inv h' (xs @ (s, False) # ys)"
    unfolding heap_inv_def same a_def [symmetric] W_def [symmetric] using l by (simp add: W_def b_def nb add.assoc)
  have "off (pays (useds a W)) n" using off_used(1) [OF l(3,2) nW] .
  then show "same_on (pays (useds (hp_first h) (xs @ (s, False) # ys))) h h'"
    unfolding assms(3) a_def [symmetric] W_def [symmetric] by (simp add: same_on_set)
qed

text \<open>The block in transit goes into its list.\<close>

lemma insert_free_eq:
  "insert_free b h =
     (let h = set_head b (head h b OR B_FREE) h; nxt = NEXT_PHYS h b; h = set_prev_size nxt (SIZE h b) h;
          h = set_head nxt (head h nxt OR B_PREV_FREE) h
      in listed b (bin_of (SIZE h b)) h)"
  by (simp add: insert_free_def listed_def Let_def)

lemma insert_spec:
  assumes "loose h xs s ys" "\<not> lastf False xs" "\<not> firstf ys" "b = hp_first h + span xs"
  shows "heap_inv (insert_free b h) (xs @ (s, True) # ys)" "core (insert_free b h) = core h"
    "same_on (pays (useds (hp_first h) (xs @ (s, True) # ys))) h (insert_free b h)"
    "\<And>c. \<lbrakk>8 dvd c; c \<noteq> b; c \<noteq> b + 8 + s; \<forall>(x, t) \<in> frees (hp_first h) (xs @ (s, True) # ys). c \<noteq> x + 8\<rbrakk> \<Longrightarrow>
      head (insert_free b h) c = head h c"
proof -
  define a n W W' where "a = hp_first h" and "n = b + 8 + s" and "W = xs @ (s, False) # ys" and "W' = xs @ (s, True) # ys"
  have l: "a \<noteq> 0" "8 dvd a" "wfs W" "segs h a False 0 xs" "hdr h b s False False (lasts 0 xs)"
    "hp_epilogue h = a + span W" "hp_epilogue h + 8 \<le> 2 ^ 30" "lists_ok h (frees a W)" "maps_ok h"
    using assms(1,2) by (auto simp: loose_def W_def a_def assms(4) add.assoc)
  obtain pf ps where t: "tiles h n pf ps ys" using assms(1) by (auto simp: loose_def n_def assms(4))
  have w: "8 dvd s" "8 \<le> s" "wfs xs" "wfs ys" "wfs W'" using l(3) by (simp_all add: W_def W'_def)
  have e: "n + span ys = a + span W" "span W' = span W" by (simp_all add: W_def W'_def n_def assms(4) a_def)
  have sW: "starts a W' = starts a W" by (simp add: W_def W'_def)
  have bW: "b \<in> starts a W" by (simp add: W_def assms(4) a_def)
  have nW: "n \<in> starts a W \<or> n = a + span W" using e by (cases ys) (auto simp: W_def n_def assms(4) a_def add.assoc)
  have "s \<le> n" by (simp add: n_def)
  then have lt: "s < U32" "n < U32" using l(6,7) e by simp_all
  define h1 where "h1 = set_head b (head h b OR 1) h"
  define h2 where "h2 = set_prev_size n s h1"
  define h3 where "h3 = set_head n (head h2 n OR 2) h2"
  have d8: "8 dvd b" "8 dvd n" using header_no_link(1) [OF l(3,2)] bW nW by blast+
  have bn: "b \<noteq> n" by (simp add: n_def)
  have "head h b OR 1 = hd_word s True False" using l(5) hd_word_masks(1) [OF w(1)] by (simp add: hdr_def)
  then have hb: "head h1 b = hd_word s True False" using d8 by (simp add: h1_def fields)
  have sz1: "SIZE h1 b = s" by (rule size_of_head [OF hb w(1) lt(1)])
  have "NEXT_PHYS h1 b = n" unfolding NEXT_PHYS_def sz1 PAYLOAD_def using lt(2) by (simp add: n_def HDR_def)
  have "head h3 b = hd_word s True False" using d8 bn hb by (simp add: h3_def h2_def fields)
  then have sz3: "SIZE h3 b = s" by (rule size_of_head [OF _ w(1) lt(1)])
  have ins: "insert_free b h = listed b (bin_of s) h3"
    unfolding insert_free_eq Let_def B_FREE_def B_PREV_FREE_def h1_def [symmetric] \<open>NEXT_PHYS h1 b = n\<close> sz1 h2_def [symmetric] h3_def [symmetric] sz3 ..
  note nlb = header_no_link [OF l(3,2) disjI1 [OF bW]] and nln = header_no_link [OF l(3,2) nW]
  have "lists_ok h3 (frees a W) = lists_ok h (frees a W)"
    unfolding h3_def h2_def h1_def by (simp only: lists_ok_header [OF nlb] lists_ok_header [OF nln])
  then have lo: "lists_ok h3 (frees a W)" using l(8) by simp
  have mo: "maps_ok h3" using l(9) by (simp add: h3_def h2_def h1_def)
  have fW': "frees a W' = insert (b, s) (frees a W)" by (auto simp: W_def W'_def assms(4) a_def add.assoc)
  have sane: "sane (insert (b, s) (frees a W))" using frees_sane [OF w(5) l(2,1)] e l(6,7) by (simp add: fW')
  have out: "(b, t) \<notin> frees a W" for t
    using frees_bounds(1) [of b t a xs] frees_bounds(1) [of b t n ys] by (auto simp: W_def n_def assms(4) a_def add.assoc)
  note li = listed_spec [OF lo mo sane out]
  have lk: "links_only (frees a W') h3 (listed b (bin_of s) h3)" using li by (simp add: fW')
  have c3: "core h3 = core h" by (simp add: h3_def h2_def h1_def)
  have "core (listed b (bin_of s) h3) = core h3" using lk by (simp add: links_only_def)
  then have core: "core (insert_free b h) = core h" using c3 ins by simp
  then show "core (insert_free b h) = core h" .
  note same = core_same [OF core]
  have "head h2 n OR 2 = hd_word (firsts ys) (firstf ys) True"
    using tiles_first [OF t] hd_word_masks(3) [of "firsts ys" "firstf ys" pf] w d8 bn by (simp add: h2_def h1_def fields)
  then have f3: "head h3 c = (if c = b then hd_word s True False else if c = n then hd_word (firsts ys) (firstf ys) True else head h c) \<and>
      prev_size h3 c = (if c = n then s else prev_size h c)" if "8 dvd c" for c
    using that d8 bn lt(1) hb by (auto simp: h3_def h2_def h1_def fields)
  show "head (insert_free b h) c = head h c"
    if "8 dvd c" "c \<noteq> b" "c \<noteq> b + 8 + s" "\<forall>(x, t) \<in> frees (hp_first h) (xs @ (s, True) # ys). c \<noteq> x + 8" for c
  proof -
    have "head (insert_free b h) c = head h3 c" using lk that(1,4) by (simp add: links_only_def ins W'_def a_def)
    then show ?thesis using f3 [OF that(1)] that(2,3) by (simp add: n_def)
  qed
  have f: "head (insert_free b h) c = (if c = b then hd_word s True False else if c = n then hd_word (firsts ys) (firstf ys) True else head h c) \<and>
      prev_size (insert_free b h) c = (if c = n then s else prev_size h c)" if c: "c \<in> starts a W \<or> c = a + span W" for c
    using links_only_headers [OF lk frees_sub(1) w(5) l(2)] c f3 [OF header_no_link(1) [OF l(3,2) c]] by (simp add: sW e ins)
  have "segs (insert_free b h) a False 0 xs = segs h a False 0 xs"
  proof (rule segs_frame)
    fix c assume c: "c \<in> starts a xs"
    then have "c \<noteq> b" "c \<noteq> n" using starts_bounds [OF c] by (simp_all add: n_def assms(4) a_def)
    then show "head (insert_free b h) c = head h c \<and> prev_size (insert_free b h) c = prev_size h c" using f [of c] c by (simp add: W_def)
  qed
  moreover have "hdr (insert_free b h) b s True False (lasts 0 xs)" using f [of b] bW by (simp add: hdr_def)
  moreover have "tiles (insert_free b h) n True s ys"
  proof (rule tiles_change [OF t])
    show "head (insert_free b h) n = hd_word (firsts ys) (firstf ys) True" "True \<longrightarrow> prev_size (insert_free b h) n = s"
      using f [OF nW] bn by simp_all
    show "\<not> (firstf ys \<and> True)" using assms(3) by simp
    fix c assume c: "c \<in> starts n ys \<or> c = n + span ys" "c \<noteq> n"
    then have "c \<in> starts a W \<or> c = a + span W" by (auto simp: W_def n_def assms(4) a_def add.assoc)
    moreover have "c \<noteq> b" using c starts_bounds [of c n ys] by (auto simp: n_def)
    ultimately show "head (insert_free b h) c = head h c \<and> prev_size (insert_free b h) c = prev_size h c" using f [of c] c by simp
  qed
  moreover have "lists_ok (insert_free b h) (frees a W')" "maps_ok (insert_free b h)" using li by (simp_all add: ins fW')
  ultimately show "heap_inv (insert_free b h) (xs @ (s, True) # ys)"
    unfolding heap_inv_def same a_def [symmetric] W'_def [symmetric]
    using l e w assms(2) by (simp add: W'_def n_def assms(4) a_def add.assoc)
  have X: "off (pays (useds a W')) b" "off (pays (useds a W')) n" using off_used(1) [OF w(5) l(2)] bW nW by (auto simp: sW e)
  then have "same_on (pays (useds a W')) h h3" by (simp add: h3_def h2_def h1_def same_on_set)
  moreover have "same_on (pays (useds a W')) h3 (insert_free b h)"
    unfolding ins using same_on_links [OF lk] off_used(2) [OF w(5) l(2)] by blast
  ultimately show "same_on (pays (useds (hp_first h) (xs @ (s, True) # ys))) h (insert_free b h)"
    unfolding a_def [symmetric] W'_def [symmetric] by (rule same_on_trans)
qed

text \<open>A used block is cut in two used ones.\<close>

lemma split_used:
  assumes "heap_inv h (xs @ (s, False) # ys)" "b = hp_first h + span xs" "8 dvd k" "8 \<le> k" "k + 16 \<le> s" "r = b + 8 + k"
    "h1 = set_head r (of_nat (s - k - 8)) h" "h' = set_head b (of_nat k OR (head h1 b AND 2)) h1"
  shows "heap_inv h' (xs @ (k, False) # (s - k - 8, False) # ys)" "core h' = core h"
    "same_on (pays (useds (hp_first h) (xs @ (k, False) # (s - k - 8, False) # ys))) h h'"
proof -
  define a n u W W' where "a = hp_first h" and "n = b + 8 + s" and "u = s - k - 8" and "W = xs @ (s, False) # ys" and
    "W' = xs @ (k, False) # (u, False) # ys"
  have l: "a \<noteq> 0" "8 dvd a" "wfs W" "segs h a False 0 xs" "hdr h b s False (lastf False xs) (lasts 0 xs)" "tiles h n False s ys"
    "hp_epilogue h = a + span W" "hp_epilogue h + 8 \<le> 2 ^ 30" "lists_ok h (frees a W)" "maps_ok h"
    using assms(1) by (auto simp: heap_inv_def W_def a_def assms(2) n_def add.assoc)
  have su: "s = k + 8 + u" using assms(5) by (simp add: u_def)
  have w: "8 dvd s" "8 \<le> u" "wfs xs" "wfs ys" using l(3) assms(5) su by (simp_all add: W_def)
  have u8: "8 dvd u" using w(1) assms(3) unfolding u_def by (simp add: dvd_diff_nat)
  have wW': "wfs W'" using w u8 assms(3,4) by (simp add: W'_def)
  have rn: "r + 8 + u = n" by (simp add: assms(6) n_def su)
  have e: "span W' = span W" "n + span ys = a + span W" "frees a W' = frees a W"
    using rn by (simp_all add: W_def W'_def su n_def assms(2,6) a_def add.assoc add.left_commute)
  have st: "b \<in> starts a W'" "r \<in> starts a W'" by (simp_all add: W'_def assms(2,6) a_def add.assoc)
  note nlb = header_no_link [OF wW' l(2) disjI1 [OF st(1)]] and nlr = header_no_link [OF wW' l(2) disjI1 [OF st(2)]]
  have br: "b \<noteq> r" by (simp add: assms(6))
  have hb: "head h1 b = hd_word s False (lastf False xs)" using l(5) nlb(1) nlr(1) br by (simp add: assms(7) fields hdr_def)
  have "of_nat k OR (head h1 b AND 2) = hd_word k False (lastf False xs)"
    unfolding hb hd_word_masks(5) [OF w(1)] hd_word_masks(7) [OF assms(3)] ..
  then have f: "head h' c = (if c = b then hd_word k False (lastf False xs) else if c = r then hd_word u False False else head h c) \<and>
      prev_size h' c = prev_size h c" if "8 dvd c" for c
    using that nlb(1) nlr(1) by (auto simp: assms(7,8) fields u_def hd_word_of_nat)
  have core: "core h' = core h" by (simp add: assms(7,8))
  then show "core h' = core h" .
  note same = core_same [OF core]
  have "segs h' a False 0 xs = segs h a False 0 xs"
  proof (rule segs_frame)
    fix c assume c: "c \<in> starts a xs"
    then have "c \<noteq> b" "c \<noteq> r" using starts_bounds [OF c] by (simp_all add: assms(2,6) a_def)
    then show "head h' c = head h c \<and> prev_size h' c = prev_size h c" using f [of c] starts_dvd [OF c w(3) l(2)] by simp
  qed
  moreover have "hdr h' b k False (lastf False xs) (lasts 0 xs)" "hdr h' r u False False k"
    using f [OF nlb(1)] f [OF nlr(1)] br l(5) by (simp_all add: hdr_def)
  moreover have "tiles h' n False u ys"
  proof (rule tiles_change [OF l(6)])
    have d: "8 dvd c" "c \<noteq> b" "c \<noteq> r" if "c \<in> starts n ys \<or> c = n + span ys \<or> c = n" for c
    proof -
      have "8 dvd n" using nlr(1) u8 rn by (metis dvd_add dvd_refl)
      then show "8 dvd c" using that starts_dvd w(4) span_dvd by auto
      have "n \<le> c" using that starts_bounds by auto
      then show "c \<noteq> b" "c \<noteq> r" using rn by (simp_all add: n_def)
    qed
    show "head h' n = hd_word (firsts ys) (firstf ys) False" using tiles_first [OF l(6)] f [of n] d [of n] by simp
    show "head h' c = head h c \<and> prev_size h' c = prev_size h c" if "c \<in> starts n ys \<or> c = n + span ys" "c \<noteq> n" for c
      using f [of c] d [of c] that by auto
  qed simp_all
  moreover have "lists_ok h' (frees a W') = lists_ok h (frees a W')"
    unfolding assms(7,8) by (simp only: lists_ok_header(1) [OF nlb] lists_ok_header(1) [OF nlr])
  moreover have "maps_ok h'" using l(10) by (simp add: assms(7,8))
  ultimately show "heap_inv h' (xs @ (k, False) # (s - k - 8, False) # ys)"
    unfolding heap_inv_def same a_def [symmetric] u_def [symmetric] W'_def [symmetric]
    using l e wW' by (simp add: W'_def assms(2,6) a_def add.assoc n_def su)
  have "off (pays (useds a W')) b" "off (pays (useds a W')) r" using off_used(1) [OF wW' l(2)] st by blast+
  then show "same_on (pays (useds (hp_first h) (xs @ (k, False) # (s - k - 8, False) # ys))) h h'"
    unfolding a_def [symmetric] u_def [symmetric] W'_def [symmetric] assms(7,8) by (simp add: same_on_set)
qed

end
