(* ===== verification/Malloc_Calls.thy ===== *)
theory Malloc_Calls
  imports Malloc_Ops
begin

text \<open>Freeing, cutting and finding blocks, and growing the heap, on a heap that satisfies the invariant.\<close>

section \<open>Freeing a used block\<close>

lemma next_flag:
  assumes "loose h xs s ys" "n = hp_first h + span xs + 8 + s"
  shows "head h n AND 1 \<noteq> 0 \<longleftrightarrow> firstf ys"
proof -
  obtain pf ps where "tiles h n pf ps ys" using assms by (auto simp: loose_def)
  moreover have "8 dvd firsts ys" using assms(1) by (simp add: loose_def)
  ultimately show ?thesis using tiles_first hd_word_flags(1) by metis
qed

lemma prev_flag:
  assumes "loose h xs s ys" "b = hp_first h + span xs"
  shows "head h b AND 2 \<noteq> 0 \<longleftrightarrow> lastf False xs"
proof -
  have "head h b = hd_word s False (lastf False xs)" "8 dvd s" using assms by (simp_all add: loose_def hdr_def)
  then show ?thesis using hd_word_flags(2) by metis
qed

text \<open>The header left behind by a block that was released says so, wherever the block went.\<close>

definition dead :: "heap \<Rightarrow> nat \<Rightarrow> bool" where
  "dead h b \<longleftrightarrow> head h b AND 1 \<noteq> 0 \<or> head h (NEXT_PHYS h b) AND 2 \<noteq> 0"

lemma swallowed_dead:
  assumes "heap_inv h (zs @ (u + 8 + s, True) # ys)" "b = hp_first h + span zs + 8 + u" "head h b = hd_word s False True" "8 dvd s"
  shows "dead h b"
proof -
  have l: "tiles h (hp_first h + span zs + 8 + (u + 8 + s)) True (u + 8 + s) ys" "hp_epilogue h + 8 \<le> 2 ^ 30"
    "hp_epilogue h = hp_first h + span (zs @ (u + 8 + s, True) # ys)" "wfs ys"
    using assms(1) by (simp_all add: heap_inv_def add.assoc)
  have lt: "b + 8 + s < U32" "s < U32" using l(2,3) by (simp_all add: assms(2))
  have "SIZE h b = s" by (rule size_of_head [OF assms(3,4) lt(2)])
  then have n: "NEXT_PHYS h b = b + 8 + s" using lt(1) by (simp add: NEXT_PHYS_def PAYLOAD_def HDR_def)
  have "head h (b + 8 + s) = hd_word (firsts ys) (firstf ys) True"
    using tiles_first [OF l(1)] by (simp add: assms(2) add.assoc)
  then show ?thesis unfolding dead_def n using hd_word_flags(2) [OF firsts_dvd [OF l(4)]] by simp
qed

lemma release_loose:
  assumes "loose h xs s ys" "b = hp_first h + span xs"
  shows "\<exists>bs'. heap_inv (release b h) bs' \<and> useds (hp_first h) bs' = useds (hp_first h) xs \<union> useds (b + 8 + s) ys \<and>
    core (release b h) = core h \<and> same_on (pays (useds (hp_first h) bs')) h (release b h) \<and> dead (release b h) b"
proof -
  define a n where "a = hp_first h" and "n = b + 8 + s"
  note sz = loose_size [OF assms(1)]
  have nx: "NEXT_PHYS h b = n" using sz(2) by (simp add: n_def assms(2))
  define h1 where "h1 = (if head h n AND 1 \<noteq> 0 then set_head b (head (unlink_free n h) b + of_nat (add32 8 (SIZE (unlink_free n h) n))) (unlink_free n h) else h)"
  have "\<exists>s1 ys1. loose h1 xs s1 ys1 \<and> \<not> firstf ys1 \<and> useds (b + 8 + s1) ys1 = useds n ys \<and> core h1 = core h \<and> same_on (pays (useds a xs \<union> useds n ys)) h h1"
  proof (cases "firstf ys")
    case False
    then have "h1 = h" using next_flag [OF assms(1)] by (simp add: h1_def n_def assms(2))
    then show ?thesis using False assms(1) by (intro exI [of _ s] exI [of _ ys]) (simp add: n_def)
  next
    case True
    then obtain t zs where ys: "ys = (t, True) # zs" by (cases ys) auto
    have l: "loose h xs s ((t, True) # zs)" using assms(1) ys by simp
    define h' where "h' = set_head b (head (unlink_free n h) b + of_nat (8 + t)) (unlink_free n h)"
    note m = merge_next [OF l assms(2) n_def h'_def]
    have "8 + t < U32" using assms(1) ys by (simp add: loose_def)
    then have "h1 = h'" using True next_flag [OF assms(1)] m(6) by (simp add: h1_def h'_def n_def assms(2))
    moreover have "same_on (pays (useds a xs \<union> useds n ys)) h h'"
      by (rule same_on_mono [OF m(3)]) (auto simp: ys pays_def a_def n_def assms(2) add.assoc)
    ultimately show ?thesis using m(1,2,5) ys by (intro exI [of _ "s + 8 + t"] exI [of _ zs]) (simp add: n_def add.assoc)
  qed
  then obtain s1 ys1 where l1: "loose h1 xs s1 ys1" "\<not> firstf ys1" "useds (b + 8 + s1) ys1 = useds n ys" "core h1 = core h"
    "same_on (pays (useds a xs \<union> useds n ys)) h h1" by blast
  have a1: "hp_first h1 = a" using core_same(1) [OF l1(4)] by (simp add: a_def)
  have b1: "b = hp_first h1 + span xs" using a1 by (simp add: assms(2) a_def)
  have rel: "release b h = (if head h1 b AND 2 \<noteq> 0 then
      insert_free (PREV_PHYS h1 b)
        (set_head (PREV_PHYS h1 b) ((head (unlink_free (PREV_PHYS h1 b) h1) (PREV_PHYS h1 b) AND NOT 1) + of_nat 8 +
          of_nat (SIZE (unlink_free (PREV_PHYS h1 b) h1) b)) (unlink_free (PREV_PHYS h1 b) h1))
     else insert_free b h1)"
    by (simp only: release_def Let_def nx heap_consts h1_def)
  show ?thesis
  proof (cases "lastf False xs")
    case False
    then have r: "release b h = insert_free b h1" using rel prev_flag [OF l1(1) b1] by simp
    note i = insert_spec [OF l1(1) False l1(2) b1, folded r]
    have u: "useds a (xs @ (s1, True) # ys1) = useds a xs \<union> useds n ys" using l1(3) b1 a1 by simp
    have dd: "dead (release b h) b"
    proof -
      have f: "hp_first (release b h) = hp_first h1" using core_same(1) [OF i(2)] .
      have "8 dvd s1" using l1(1) by (simp add: loose_def)
      moreover have "head (release b h) b = hd_word s1 True (lastf False xs)" using i(1) b1 f by (simp add: heap_inv_def hdr_def)
      ultimately show ?thesis using hd_word_flags(1) by (simp add: dead_def)
    qed
    show ?thesis using i(1-3) l1(4,5) same_on_trans [OF l1(5)] u a1 dd
      by (intro exI [of _ "xs @ (s1, True) # ys1"]) (simp add: a_def n_def)
  next
    case True
    then obtain u zs where xs: "xs = zs @ [(u, True)]" by (cases xs rule: rev_cases) (auto simp: lastf_def)
    define d where "d = hp_first h1 + span zs"
    define h2 where "h2 = set_head d ((head (unlink_free d h1) d AND NOT 1) + of_nat 8 + of_nat s1) (unlink_free d h1)"
    have bd: "b = d + 8 + u" using b1 by (simp add: d_def xs)
    note m = merge_prev [OF l1(1) [unfolded xs] d_def bd h2_def]
    have r: "release b h = insert_free d h2" using rel prev_flag [OF l1(1) b1] True m(4,5) by (simp add: h2_def)
    have d2: "d = hp_first h2 + span zs" using core_same(1) [OF m(2)] by (simp add: d_def)
    note i = insert_spec [OF m(1,6) l1(2) d2, folded r]
    have a2: "hp_first h2 = a" using core_same(1) [OF m(2)] a1 by simp
    have u: "useds a (zs @ (u + 8 + s1, True) # ys1) = useds a xs \<union> useds n ys"
      using l1(3) b1 a1 by (simp add: xs bd d_def add.assoc)
    have "same_on (pays (useds a xs \<union> useds n ys)) h1 h2"
      by (rule same_on_mono [OF m(3)]) (use l1(3) in \<open>auto simp: xs pays_def a1 bd d_def add.assoc\<close>)
    then have "same_on (pays (useds a xs \<union> useds n ys)) h (release b h)"
      using same_on_trans [OF l1(5)] same_on_trans i(3) u a2 by metis
    moreover have "dead (release b h) b"
    proof (rule swallowed_dead [OF i(1)])
      have ff: "hp_first (release b h) = a" using core_same(1) [OF i(2)] a2 by simp
      show "b = hp_first (release b h) + span zs + 8 + u" unfolding ff by (simp add: bd d_def a1)
      show s8: "8 dvd s1" using l1(1) by (simp add: loose_def)
      have w: "wfs (zs @ (u, True) # (s1, False) # ys1)" "8 dvd a" using l1(1) by (simp_all add: loose_def xs a1)
      have "head (release b h) b = head h2 b"
      proof (rule i(4))
        show "8 dvd b" using w span_dvd [of zs] by (simp add: bd d_def a1)
        show "b \<noteq> d" "b \<noteq> d + 8 + (u + 8 + s1)" by (simp_all add: bd)
        show "\<forall>(x, t) \<in> frees (hp_first h2) (zs @ (u + 8 + s1, True) # ys1). b \<noteq> x + 8"
          using frees_bounds(1) [of _ _ a zs] frees_bounds(1) [of _ _ "d + 8 + (u + 8 + s1)" ys1] w(1)
          by (fastforce simp: a2 bd d_def a1 add.assoc)
      qed
      then show "head (release b h) b = hd_word s1 False True" using m(7) by simp
    qed
    ultimately show ?thesis using i(1,2) m(2) l1(4) u
      by (intro exI [of _ "zs @ (u + 8 + s1, True) # ys1"]) (simp add: a_def n_def)
  qed
qed

section \<open>Cutting a block down\<close>

lemma inv_size:
  assumes "heap_inv h (xs @ (s, False) # ys)" "b = hp_first h + span xs"
  shows "SIZE h b = s" "PAYLOAD b = b + 8" "8 \<le> s" "8 dvd s" "b + 8 + s + 8 \<le> 2 ^ 30" "8 dvd b" "NEXT_PHYS h b = b + 8 + s"
  using loose_size [OF inv_loose [OF assms(1)]] by (auto simp: assms(2))

lemma trim_spec:
  assumes "heap_inv h (xs @ (s, False) # ys)" "b = hp_first h + span xs" "8 dvd k" "8 \<le> k" "k \<le> s"
  shows "\<exists>bs' s'. heap_inv (trim b k h) bs' \<and> k \<le> s' \<and> s' \<le> s \<and> s' < k + 16 \<and>
    useds (hp_first h) bs' = insert (b, s') (useds (hp_first h) xs \<union> useds (b + 8 + s) ys) \<and>
    core (trim b k h) = core h \<and> same_on (pays (useds (hp_first h) bs')) h (trim b k h)"
proof (cases "s - k < 16")
  case True
  have "s < U32" using inv_size(5) [OF assms(1,2)] by simp
  then have "trim b k h = h" using True assms(5) inv_size(1) [OF assms(1,2)] by (simp add: trim_def heap_consts)
  then show ?thesis using assms True by (intro exI [of _ "xs @ (s, False) # ys"] exI [of _ s]) simp
next
  case False
  note sz = inv_size [OF assms(1,2)]
  have lt: "s < U32" "b + 8 + k < U32" using sz(5) assms(5) by simp_all
  define r where "r = b + 8 + k"
  define h1 where "h1 = set_head r (of_nat (s - k - 8)) h"
  define h' where "h' = set_head b (of_nat k OR (head h1 b AND 2)) h1"
  have k16: "k + 16 \<le> s" using False by simp
  note sp = split_used [OF assms(1-4) k16 r_def h1_def h'_def]
  have a': "hp_first h' = hp_first h" using core_same(1) [OF sp(2)] .
  have tr: "trim b k h = release r h'"
    using False lt assms(5) by (simp add: trim_def Let_def heap_consts sz(1,2) r_def h1_def h'_def)
  have l: "loose h' (xs @ [(k, False)]) (s - k - 8) ys" using inv_loose [of h' "xs @ [(k, False)]"] sp(1) by simp
  have r: "r = hp_first h' + span (xs @ [(k, False)])" by (simp add: r_def assms(2) a')
  obtain bs' where bs: "heap_inv (release r h') bs'"
    "useds (hp_first h') bs' = useds (hp_first h') (xs @ [(k, False)]) \<union> useds (r + 8 + (s - k - 8)) ys"
    "core (release r h') = core h'" "same_on (pays (useds (hp_first h') bs')) h' (release r h')"
    using release_loose [OF l r] by blast
  have n: "r + 8 + (s - k - 8) = b + 8 + s" using False by (simp add: r_def)
  have u: "useds (hp_first h) bs' = insert (b, k) (useds (hp_first h) xs \<union> useds (b + 8 + s) ys)"
    using bs(2) [unfolded n] by (simp add: a' assms(2))
  have "same_on (pays (useds (hp_first h) bs')) h h'"
    by (rule same_on_mono [OF sp(3)]) (use n in \<open>auto simp: u pays_def assms(2) r_def add.assoc\<close>)
  then have "same_on (pays (useds (hp_first h) bs')) h (release r h')" using bs(4) same_on_trans a' by metis
  then show ?thesis using bs(1,3) sp(2) u assms(5) by (intro exI [of _ bs'] exI [of _ k]) (simp add: tr)
qed

section \<open>Taking a block\<close>

text \<open>\<open>b\<close> is now a used block of at least \<open>n\<close> bytes; the blocks of the tiling \<open>bs\<close> that were used are the other used ones.\<close>

definition taken :: "heap \<Rightarrow> tiling \<Rightarrow> nat \<Rightarrow> heap \<Rightarrow> nat \<Rightarrow> bool" where
  "taken h bs n h' b \<longleftrightarrow> (\<exists>xs s ys. heap_inv h' (xs @ (s, False) # ys) \<and> b = hp_first h + span xs \<and> n \<le> s \<and>
     useds (hp_first h) bs = useds (hp_first h) xs \<union> useds (b + 8 + s) ys \<and> same_on (pays (useds (hp_first h) bs)) h h')"

definition env_same :: "heap \<Rightarrow> heap \<Rightarrow> bool" where
  "env_same h h' \<longleftrightarrow> hp_first h' = hp_first h \<and> heap_limit h' = heap_limit h \<and> hp_start h' = hp_start h \<and> hp_errors h' = hp_errors h"

lemma core_env: "core h' = core h \<Longrightarrow> env_same h h'"
  unfolding env_same_def by (intro conjI core_same)

lemma env_refl [simp]: "env_same h h"
  by (simp add: env_same_def)

lemma env_trans: "env_same h h' \<Longrightarrow> env_same h' h'' \<Longrightarrow> env_same h h''"
  by (simp add: env_same_def)

lemma block_split: "(x, s, f) \<in> blocks a bs \<Longrightarrow> \<exists>xs ys. bs = xs @ (s, f) # ys \<and> x = a + span xs"
proof (induction bs arbitrary: a)
  case (Cons p bs)
  obtain t g where p: "p = (t, g)" by fastforce
  show ?case
  proof (cases "(x, s, f) = (a, t, g)")
    case True
    then show ?thesis using p by (intro exI [of _ "[]"] exI [of _ bs]) simp
  next
    case False
    then obtain xs ys where "bs = xs @ (s, f) # ys" "x = a + 8 + t + span xs" using Cons p by fastforce
    then show ?thesis using p by (intro exI [of _ "(t, g) # xs"] exI [of _ ys]) simp
  qed
qed simp

lemma find_inv:
  assumes "heap_inv h bs" "find h n \<noteq> 0" "8 dvd n" "n \<le> 3 * 2 ^ 30"
  shows "\<exists>xs s ys. bs = xs @ (s, True) # ys \<and> find h n = hp_first h + span xs \<and> n \<le> s"
proof -
  have "lists_ok h (frees (hp_first h) bs)" "maps_ok h" using assms(1) by (simp_all add: heap_inv_def)
  then obtain s where s: "(find h n, s) \<in> frees (hp_first h) bs" "bin_of (round_up n) \<le> bin_of s"
    using find_spec [OF _ _ assms(2)] by blast
  have b: "(find h n, s, True) \<in> blocks (hp_first h) bs" using s(1) by (simp add: frees_def)
  then have "8 dvd s" using blocks_wfs assms(1) by (auto simp: heap_inv_def)
  then have "n \<le> s" using class_fits [OF assms(3) _ assms(4) s(2)] by blast
  then show ?thesis using block_split [OF b] by blast
qed

text \<open>A free block is opened and closed again as a used one.\<close>

lemma use_free:
  assumes "heap_inv h (xs @ (s, True) # ys)" "b = hp_first h + span xs" "n \<le> s" "u = set_head b (head (unlink_free b h) b AND NOT 1) (unlink_free b h)"
    "c = b + 8 + s" "h' = set_head c (head u c AND NOT 2) u"
  shows "taken h (xs @ (s, True) # ys) n h' b" "core h' = core h" "NEXT_PHYS u b = c"
proof -
  note o = open_free [OF assms(1,2,4)]
  have a: "hp_first u = hp_first h" using core_same(1) [OF o(2)] .
  have cu: "c = hp_first u + span xs + 8 + s" by (simp add: a assms(2,5))
  note cl = close_used [OF o(1) cu assms(6)]
  show "core h' = core h" using cl(2) o(2) by simp
  show "NEXT_PHYS u b = c" using loose_size(2) [OF o(1)] by (simp add: a assms(2,5))
  let ?U = "useds (hp_first h) (xs @ (s, True) # ys)"
  have "same_on (pays ?U) u h'" by (rule same_on_mono [OF cl(3)]) (auto simp: pays_def a)
  then have "same_on (pays ?U) h h'" using o(3) same_on_trans by blast
  then show "taken h (xs @ (s, True) # ys) n h' b"
    unfolding taken_def using cl(1) assms(2,3) by (intro exI [of _ xs] exI [of _ s] exI [of _ ys]) (simp add: add.assoc)
qed

section \<open>Growing the heap\<close>

text \<open>A new top: the epilogue's header at \<open>to\<close>, and the machine told.\<close>

definition topped :: "nat \<Rightarrow> heap \<Rightarrow> heap" where
  "topped to h = (let h = set_head to 0 (set_prev_size to 0 (h\<lparr>hp_epilogue := to\<rparr>)) in heap_top_moved (heap_brk h) h)"

lemma move_top_eq: "move_top to h = (if to < hp_first h \<or> heap_limit h < add32 to 8 then (h, False) else (topped to h, True))"
  by (simp add: move_top_def topped_def Let_def HDR_def)

lemma topped_same [simp]:
  "hp_first (topped to h) = hp_first h" "hp_epilogue (topped to h) = to" "heap_limit (topped to h) = heap_limit h" "hp_start (topped to h) = hp_start h"
  "hp_errors (topped to h) = hp_errors h" "hp_bins (topped to h) = hp_bins h" "hp_sl_map (topped to h) = hp_sl_map h" "hp_fl_map (topped to h) = hp_fl_map h"
  "env_same h (topped to h)" "maps_ok (topped to h) = maps_ok h" "hp_errno (topped to h) = hp_errno h"
  by (simp_all add: topped_def Let_def heap_top_moved_def set_head_def set_prev_size_def heap_limit_def env_same_def maps_ok_def)

lemma mem_fields_cong:
  assumes "hp_mem h = hp_mem g"
  shows "head h c = head g c" "prev_size h c = prev_size g c" "next_free h c = next_free g c" "prev_free h c = prev_free g c"
  using assms by (simp_all add: head_def prev_size_def next_free_def prev_free_def)

lemma topped_mem: "hp_mem (topped to h) = hp_mem (set_head to 0 (set_prev_size to 0 h))"
  by (simp add: topped_def Let_def heap_top_moved_def set_head_def set_prev_size_def)

lemma topped_fields:
  assumes "8 dvd to" "8 dvd c"
  shows "head (topped to h) c = (if c = to then 0 else head h c)" "prev_size (topped to h) c = (if c = to then 0 else prev_size h c)"
    "to \<noteq> c + 8 \<Longrightarrow> next_free (topped to h) c = next_free h c \<and> prev_free (topped to h) c = prev_free h c"
  using assms unfolding mem_fields_cong [OF topped_mem] by (auto simp: fields)

lemma topped_lists:
  assumes "8 dvd to" "\<And>a s. (a, s) \<in> F \<Longrightarrow> 8 dvd a \<and> to \<noteq> a + 8"
  shows "lists_ok (topped to h) F = lists_ok h F"
  by (rule lists_ok_frame) (use assms topped_fields(3) in auto)

lemma topped_same_on: "off X to \<Longrightarrow> same_on X h (topped to h)"
  using same_on_set [of X to h 0 "set_prev_size to 0 h"] same_on_set(2) [of X to h 0 h] by (simp add: same_on_def topped_mem)

text \<open>Above the last block: what lies from the end on is no block and no content.\<close>

lemma above_end:
  assumes "wfs bs" "8 dvd a" "a + span bs \<le> c"
  shows "\<And>x s. (x, s) \<in> frees a bs \<Longrightarrow> 8 dvd x \<and> c \<noteq> x + 8" "off (pays (useds a bs)) c"
proof -
  fix x s assume "(x, s) \<in> frees a bs"
  then have b: "(x, s, True) \<in> blocks a bs" by (simp add: frees_def)
  show "8 dvd x \<and> c \<noteq> x + 8" using blocks_bounds [OF b] blocks_wfs [OF b assms(1,2)] assms(3) by auto
next
  show "off (pays (useds a bs)) c" unfolding off_pays
  proof (intro ballI, clarify)
    fix u s assume "(u, s) \<in> useds a bs"
    then have "u + 8 + s \<le> a + span bs" by (rule frees_bounds(2) [THEN conjunct2])
    then show "off (pay u s) c" using assms(3) by (intro off_pay) simp
  qed
qed

lemma extend_end:
  assumes "heap_inv h bs" "\<not> lastf False bs" "e = hp_epilogue h" "8 dvd n" "8 \<le> n" "e + 8 + n + 8 \<le> 2 ^ 30"
    "h' = set_head e (of_nat n) (topped (e + 8 + n) h)"
  shows "heap_inv h' (bs @ [(n, False)])" "env_same h h'" "same_on (pays (useds (hp_first h) bs)) h h'"
proof -
  define a to where "a = hp_first h" and "to = e + 8 + n"
  have l: "a \<noteq> 0" "8 dvd a" "wfs bs" "tiles h a False 0 bs" "e = a + span bs" "lists_ok h (frees a bs)" "maps_ok h"
    using assms(1,3) by (auto simp: heap_inv_def a_def)
  have e8: "8 dvd e" "8 dvd to" using l(2,3,5) span_dvd assms(4) by (auto simp: to_def)
  have ne: "e \<noteq> to" by (simp add: to_def)
  have same: "hp_first h' = a" "hp_epilogue h' = to" by (simp_all add: assms(7) a_def to_def set_head_def)
  have f: "head h' c = (if c = e then hd_word n False False else if c = to then 0 else head h c) \<and> prev_size h' c = (if c = to then 0 else prev_size h c)"
    if "8 dvd c" for c
    using that e8 ne topped_fields(1,2) [OF e8(2) that, of h] by (simp add: assms(7) to_def [symmetric] fields hd_word_of_nat)
  have "segs h' a False 0 bs = segs h a False 0 bs"
  proof (rule segs_frame)
    fix c assume c: "c \<in> starts a bs"
    then have "c \<noteq> e" "c \<noteq> to" using starts_bounds [OF c] by (simp_all add: l(5) to_def)
    then show "head h' c = head h c \<and> prev_size h' c = prev_size h c" using f starts_dvd [OF c l(3,2)] by simp
  qed
  moreover have "segs h a False 0 bs" using l(4) tiles_append [of h a False 0 bs "[]"] by simp
  moreover have "hdr h' e n False False (lasts 0 bs)" "hdr h' to 0 False False n" using f [OF e8(1)] f [OF e8(2)] ne by (simp_all add: hdr_def)
  moreover have "lists_ok h' (frees a bs)"
  proof -
    have "a + span bs \<le> e" "a + span bs \<le> to" using l(5) by (simp_all add: to_def)
    note x = above_end(1) [OF l(3,2) this(1)] above_end(1) [OF l(3,2) this(2)]
    have "lists_ok (topped to h) (frees a bs)" by (subst topped_lists) (use e8 x l(6) in auto)
    then show ?thesis unfolding assms(7) to_def [symmetric] by (subst lists_ok_header(1)) (use e8 x in auto)
  qed
  moreover have "maps_ok h'" using l(7) by (simp add: assms(7))
  ultimately show "heap_inv h' (bs @ [(n, False)])"
    unfolding heap_inv_def same using l assms(2,4,5,6) by (simp add: to_def add.assoc)
  have "env_same (topped to h) h'" unfolding assms(7) to_def [symmetric] by (rule core_env) simp
  then show "env_same h h'" using env_trans [OF topped_same(9)] by blast
  have "off (pays (useds a bs)) e" "off (pays (useds a bs)) to" by (rule above_end(2) [OF l(3,2)], simp add: l(5) to_def)+
  then show "same_on (pays (useds (hp_first h) bs)) h h'"
    using topped_same_on unfolding assms(7) to_def [symmetric] a_def [symmetric] by (simp add: same_on_set)
qed

text \<open>The last block, free, is extended over the new ground and becomes used.\<close>

lemma extend_last:
  assumes "heap_inv h (xs @ [(t, True)])" "b = hp_first h + span xs" "8 dvd n" "t < n" "b + 8 + n + 8 \<le> 2 ^ 30"
    "h' = set_head b (of_nat n OR hd_word 0 False False) (unlink_free b (topped (b + 8 + n) h))"
  shows "heap_inv h' (xs @ [(n, False)])" "env_same h h'" "same_on (pays (useds (hp_first h) (xs @ [(t, True)]))) h h'"
proof -
  define a to W where "a = hp_first h" and "to = b + 8 + n" and "W = xs @ [(t, True)]"
  have l: "a \<noteq> 0" "8 dvd a" "wfs W" "segs h a False 0 xs" "hdr h b t True (lastf False xs) (lasts 0 xs)" "\<not> lastf False xs"
    "hp_epilogue h = a + span W" "hp_epilogue h + 8 \<le> 2 ^ 30" "lists_ok h (frees a W)" "maps_ok h"
    using assms(1) by (auto simp: heap_inv_def W_def a_def assms(2) add.assoc)
  have w: "8 dvd t" "8 \<le> t" "wfs xs" using l(3) by (simp_all add: W_def)
  have e: "a + span W = b + 8 + t" by (simp add: W_def assms(2) a_def)
  have b8: "8 dvd b" "8 dvd to" using l(2) span_dvd [OF w(3)] assms(2,3) by (auto simp: a_def to_def)
  have lt: "t < U32" "a + span W \<le> 2 ^ 31" "a + span W \<le> to" "b \<noteq> to" using l(7,8) e assms(4) by (simp_all add: to_def)
  let ?g = "topped to h"
  have bW: "b \<in> starts a W" by (simp add: W_def assms(2) a_def)
  have g: "head ?g c = head h c \<and> prev_size ?g c = prev_size h c" if "c \<in> starts a W" for c
    using topped_fields(1,2) [OF b8(2) starts_dvd [OF that l(3,2)]] starts_bounds [OF that] lt(3) by simp
  have lo: "lists_ok ?g (frees a W)" by (subst topped_lists) (use b8 above_end(1) [OF l(3,2) lt(3)] l(9) in auto)
  have hdb: "head ?g b = hd_word t True (lastf False xs)" using g [OF bW] l(5) by (simp add: hdr_def)
  have st: "SIZE ?g b = t" by (rule size_of_head [OF hdb w(1) lt(1)])
  have df: "(b, t) \<in> frees a W" by (simp add: W_def assms(2) a_def)
  have mo: "maps_ok ?g" using l(10) by simp
  note un = unlink_inv [OF l(3,2,1) lt(2) lo mo df st]
  let ?u = "unlink_free b ?g"
  have u_to: "head ?u to = 0 \<and> prev_size ?u to = 0"
  proof -
    have "sane (frees a W)" using frees_sane [OF l(3,2,1) lt(2)] .
    then have "links_only (frees a W) ?g ?u" using unlink_free_spec [OF lo mo _ df st] by blast
    moreover have "\<forall>(x, s) \<in> frees a W. to \<noteq> x + 8" using above_end(1) [OF l(3,2) lt(3)] by auto
    ultimately have "head ?u to = head ?g to \<and> prev_size ?u to = prev_size ?g to" using b8 unfolding links_only_def by blast
    then show ?thesis using topped_fields(1,2) [OF b8(2,2), of h] by simp
  qed
  have same: "hp_first h' = a" "hp_epilogue h' = to"
    using core_same(1,2) [OF un(3)] by (simp_all add: assms(6) a_def to_def set_head_def)
  have hn: "of_nat n OR hd_word 0 False False = hd_word n False False" using hd_word_masks(7) [OF assms(3)] .
  have h': "h' = set_head b (hd_word n False False) ?u" unfolding assms(6) hn to_def ..
  have f: "head h' c = (if c = b then hd_word n False False else head h c) \<and> prev_size h' c = prev_size h c" if c: "c \<in> starts a W" for c
    using un(4) [OF disjI1 [OF c]] g [OF c] b8(1) starts_dvd [OF c l(3,2)] by (simp add: h' fields)
  have "segs h' a False 0 xs = segs h a False 0 xs"
  proof (rule segs_frame)
    fix c assume c: "c \<in> starts a xs"
    then have "c \<noteq> b" using starts_bounds [OF c] by (simp add: assms(2) a_def)
    then show "head h' c = head h c \<and> prev_size h' c = prev_size h c" using f [of c] c by (simp add: W_def)
  qed
  moreover have "hdr h' b n False False (lasts 0 xs)" using f [OF bW] by (simp add: hdr_def)
  moreover have "hdr h' to 0 False False n" using u_to b8 lt(4) by (simp add: h' fields hdr_def)
  moreover have "lists_ok h' (frees a xs)"
  proof -
    have "(b, t) \<notin> frees a xs" using frees_bounds(1) [of b t a xs] by (auto simp: assms(2) a_def)
    then have "frees a W - {(b, t)} = frees a xs" by (auto simp: W_def assms(2) a_def)
    then have "lists_ok ?u (frees a xs)" using un(1) by simp
    moreover have "8 dvd x \<and> b \<noteq> x + 8" if "(x, s) \<in> frees a xs" for x s
      using above_end(1) [OF w(3) l(2) _ that, of b] by (simp add: assms(2) a_def)
    ultimately show ?thesis unfolding h' by (subst lists_ok_header(1)) (use b8 in auto)
  qed
  moreover have "maps_ok h'" using un(2) by (simp add: h')
  ultimately show "heap_inv h' (xs @ [(n, False)])"
    unfolding heap_inv_def same using l w assms(3,4,5) by (simp add: to_def assms(2) a_def add.assoc)
  have "env_same ?g ?u" by (rule core_env [OF un(3)])
  moreover have "env_same ?u h'" unfolding h' by (rule core_env) simp
  ultimately show "env_same h h'" using env_trans topped_same(9) by blast
  let ?X = "pays (useds a W)"
  have "off ?X to" by (rule above_end(2) [OF l(3,2) lt(3)])
  then have "same_on ?X h ?u" using same_on_trans [OF topped_same_on un(5)] by blast
  moreover have "off ?X b" using off_used(1) [OF l(3,2)] bW by blast
  ultimately show "same_on (pays (useds (hp_first h) (xs @ [(t, True)]))) h h'"
    unfolding h' a_def [symmetric] W_def [symmetric] by (simp add: same_on_set)
qed

lemma inv_end:
  assumes "heap_inv h bs" "e = hp_epilogue h"
  shows "head h e = hd_word 0 False (lastf False bs)" "head h e AND 2 \<noteq> 0 \<longleftrightarrow> lastf False bs" "lastf False bs \<Longrightarrow> prev_size h e = lasts 0 bs"
    "e + 8 \<le> 2 ^ 30" "8 dvd e" "PAYLOAD e = e + 8"
proof -
  have l: "tiles h (hp_first h) False 0 bs" "e = hp_first h + span bs" "e + 8 \<le> 2 ^ 30" "wfs bs" "8 dvd hp_first h"
    using assms by (simp_all add: heap_inv_def)
  have t: "hdr h e 0 False (lastf False bs) (lasts 0 bs)" using l(1,2) tiles_append [of h "hp_first h" False 0 bs "[]"] by simp
  then show "head h e = hd_word 0 False (lastf False bs)" "lastf False bs \<Longrightarrow> prev_size h e = lasts 0 bs" by (simp_all add: hdr_def)
  then show "head h e AND 2 \<noteq> 0 \<longleftrightarrow> lastf False bs" using hd_word_flags(2) [of 0 False "lastf False bs"] by simp
  show "e + 8 \<le> 2 ^ 30" "8 dvd e" "PAYLOAD e = e + 8" using l span_dvd by (auto simp: PAYLOAD_def HDR_def)
qed

text \<open>Growing fails only for want of room below the limit.\<close>

lemma grow_to_eq:
  assumes "b + 16 \<le> 2 ^ 30" "n \<le> 2 ^ 31 + 64" "hp_first h \<le> b"
  shows "grow_to b n fl h =
    (if heap_limit h < b + 8 + n + 8 then (h, 0)
     else (set_head b (of_nat n OR fl) (if b \<noteq> hp_epilogue h then unlink_free b (topped (b + 8 + n) h) else topped (b + 8 + n) h), b))"
  using assms by (simp add: grow_to_def PAYLOAD_def HDR_def move_top_eq Let_def)

lemma grow_spec:
  assumes "heap_inv h bs" "8 dvd n" "8 \<le> n" "n \<le> 2 ^ 31 + 64" "heap_limit h \<le> 2 ^ 30" "grow n h = (h', b)"
  shows "if b = 0 then h' = h \<and> heap_limit h < hp_epilogue h + 8 + n + 8 else taken h bs n h' b \<and> env_same h h'"
proof -
  define e where "e = hp_epilogue h"
  note ie = inv_end [OF assms(1) e_def]
  have l: "hp_first h \<noteq> 0" "e = hp_first h + span bs" using assms(1) by (simp_all add: heap_inv_def e_def)
  show ?thesis
  proof (cases "lastf False bs")
    case False
    then have "head h e AND 2 = 0" using ie(2) by blast
    then have g: "grow n h = grow_to e n 0 h" by (simp add: grow_def Let_def e_def heap_consts)
    have e0: "hp_first h \<le> e" "e + 16 \<le> 2 ^ 30 \<or> e + 8 = 2 ^ 30" using l ie(4,5) by auto
    show ?thesis
    proof (cases "e + 16 \<le> 2 ^ 30")
      case True
      note gt = grow_to_eq [OF True assms(4) e0(1), of 0]
      show ?thesis
      proof (cases "heap_limit h < e + 8 + n + 8")
        case True
        then show ?thesis using assms(6) g gt by (simp add: e_def)
      next
        case no: False
        then have h': "h' = set_head e (of_nat n) (topped (e + 8 + n) h)" "b = e" using assms(6) g gt by (simp_all add: e_def)
        have lim: "e + 8 + n + 8 \<le> 2 ^ 30" using no assms(5) by simp
        note x = extend_end [OF assms(1) False e_def assms(2,3) lim h'(1)]
        have "taken h bs n h' b"
          unfolding taken_def using x(1,3) l(2) h'(2) by (intro exI [of _ bs] exI [of _ n] exI [of _ "[]"]) simp
        then show ?thesis using x(2) l h'(2) by simp
      qed
    next
      case edge: False
      then have "e + 8 = 2 ^ 30" using e0(2) by blast
      then have "grow_to e n 0 h = (h, 0)"
        using assms(3-5) by (simp add: grow_to_def PAYLOAD_def HDR_def move_top_eq Let_def)
      then show ?thesis using assms(3,5,6) g \<open>e + 8 = 2 ^ 30\<close> by (simp add: e_def)
    qed
  next
    case True
    then obtain xs t where bs: "bs = xs @ [(t, True)]" by (cases bs rule: rev_cases) (auto simp: lastf_def)
    define c where "c = hp_first h + span xs"
    have ec: "e = c + 8 + t" using l(2) by (simp add: bs c_def)
    have w: "8 dvd t" "8 \<le> t" "t < U32" using assms(1) ie(4) ec by (simp_all add: heap_inv_def bs)
    have cp: "PREV_PHYS h e = c" unfolding PREV_PHYS_def ie(3) [OF True] using ie(4) by (simp add: bs HDR_def ec)
    have hc: "head h c = hd_word t True (lastf False xs)" "\<not> lastf False xs" using assms(1) by (auto simp: heap_inv_def bs c_def hdr_def)
    have st: "SIZE h c = t" by (rule size_of_head [OF hc(1) w(1,3)])
    have fl: "head h c AND 2 = hd_word 0 False False" using hc hd_word_masks(5) [OF w(1)] by simp
    have c0: "c \<noteq> 0" "c + 16 \<le> 2 ^ 30" "hp_first h \<le> c" using l(1) ec ie(4) w by (simp_all add: c_def)
    have ne: "head h e AND 2 \<noteq> 0" using ie(2) True by blast
    have inv: "heap_inv h (xs @ (t, True) # [])" using assms(1) bs by simp
    show ?thesis
    proof (cases "n \<le> t")
      case fits: True
      define u where "u = set_head c (head (unlink_free c h) c AND NOT 1) (unlink_free c h)"
      have g: "grow n h = (set_head e (head u e AND NOT 2) u, c)"
        using ne fits by (simp add: grow_def Let_def e_def [symmetric] heap_consts cp st u_def)
      then have h': "h' = set_head e (head u e AND NOT 2) u" "b = c" using assms(6) by simp_all
      note x = use_free [OF inv c_def fits u_def ec h'(1)]
      show ?thesis using x(1) core_env [OF x(2)] c0(1) bs h'(2) by simp
    next
      case no: False
      have g: "grow n h = grow_to c n (hd_word 0 False False) h"
        using ne no fl by (simp add: grow_def Let_def e_def [symmetric] heap_consts cp st)
      have ce: "c \<noteq> hp_epilogue h" using ec e_def by simp
      note gt = grow_to_eq [OF c0(2) assms(4) c0(3), of "hd_word 0 False False"]
      show ?thesis
      proof (cases "heap_limit h < c + 8 + n + 8")
        case True
        then show ?thesis using assms(6) g gt ec by (simp add: e_def)
      next
        case room: False
        then have h': "h' = set_head c (of_nat n OR hd_word 0 False False) (unlink_free c (topped (c + 8 + n) h))" "b = c"
          using assms(6) g gt ce by simp_all
        have lim: "c + 8 + n + 8 \<le> 2 ^ 30" "t < n" using room assms(5) no by simp_all
        note x = extend_last [OF inv c_def assms(2) lim(2,1) h'(1)]
        have "taken h bs n h' b"
          unfolding taken_def using x(1,3) h'(2) bs by (intro exI [of _ xs] exI [of _ n] exI [of _ "[]"]) (simp add: c_def)
        then show ?thesis using x(2) c0(1) h'(2) by simp
      qed
    qed
  qed
qed

section \<open>Live blocks\<close>

lemma live_block_used:
  assumes "heap_inv h (xs @ (s, False) # ys)" "b = hp_first h + span xs"
  shows "live_block h (b + 8)" "in_heap h (b + 8)" "OF (b + 8) = b" "SIZE h b = s" "head h b AND 1 = 0"
proof -
  note i = inv_size [OF assms]
  have l: "hp_first h \<noteq> 0" "8 dvd hp_first h" "segs h (hp_first h) False 0 xs" "hdr h b s False (lastf False xs) (lasts 0 xs)"
    "tiles h (b + 8 + s) False s ys" "hp_epilogue h = b + 8 + s + span ys" "wfs ys"
    using assms by (auto simp: heap_inv_def add.assoc)
  show of: "OF (b + 8) = b" "SIZE h b = s" using i by (simp_all add: OF_def HDR_def)
  have m8: "(b + 8) mod 8 = 0" using i(6) by auto
  have "PAYLOAD (hp_first h) = hp_first h + 8" using i(5) assms(2) by (simp add: PAYLOAD_def HDR_def)
  then show ih: "in_heap h (b + 8)" unfolding in_heap_def using l(1,6) i(3) m8 by (simp add: assms(2))
  have hb: "head h b = hd_word s False (lastf False xs)" using l(4) by (simp add: hdr_def)
  have f: "head h b AND 1 = 0" "head h b AND (1 OR 4) = 0" "head h b AND 2 \<noteq> 0 \<longleftrightarrow> lastf False xs"
    unfolding hb using hd_word_flags [OF i(4)] by blast+
  then show "head h b AND 1 = 0" by blast
  have nx: "head h (b + 8 + s) AND 2 = 0"
    using tiles_first [OF l(5)] hd_word_flags(2) [of "firsts ys" "firstf ys" False] l(7) by simp
  have pv: "(let below = sub32 (sub32 b HDR) (prev_size h b) in \<not> (prev_size h b < MIN_PAYLOAD \<or> below < hp_first h \<or> b \<le> below)) \<and>
    (let prev = PREV_PHYS h b in head h prev AND B_FREE \<noteq> 0 \<and> SIZE h prev = prev_size h b)" if lf: "lastf False xs"
  proof -
    obtain u zs where xs: "xs = zs @ [(u, True)]" using lf by (cases xs rule: rev_cases) (auto simp: lastf_def)
    have ps: "prev_size h b = u" using l(4) lf by (simp add: hdr_def xs)
    define d where "d = hp_first h + span zs"
    have bd: "b = d + 8 + u" by (simp add: assms(2) xs d_def)
    have u: "8 dvd u" "8 \<le> u" "u < U32" "d \<le> b" using assms(1) i(5) bd by (simp_all add: heap_inv_def xs)
    have hd: "head h d = hd_word u True (lastf False zs)" using l(3) by (simp add: xs d_def hdr_def)
    have sd: "SIZE h d = u" by (rule size_of_head [OF hd u(1,3)])
    have dd: "sub32 (sub32 b HDR) u = d" using i(5) by (simp add: bd HDR_def)
    have "head h d AND 1 \<noteq> 0" unfolding hd using hd_word_flags(1) [OF u(1)] by blast
    moreover have "hp_first h \<le> d" "d < b" using u(2) by (simp_all add: d_def bd assms(2) xs)
    ultimately show ?thesis unfolding PREV_PHYS_def ps dd Let_def using u(2) sd by (simp add: heap_consts)
  qed
  show "live_block h (b + 8)"
    unfolding live_block_def Let_def of i(2,7) using ih f(2,3) i(3,5) nx pv l(6) by (simp add: heap_consts Let_def)
qed

end
