(* ===== verification/Malloc_Spec.thy ===== *)
theory Malloc_Spec
  imports Malloc_Calls
begin

text \<open>
  What the allocator promises: the heap is a finite map from the pointers handed out to the sizes of their blocks. The calls change the map as
  their names say, a new block overlaps no other, and the contents of the other blocks stay.
\<close>

section \<open>The map of the live blocks\<close>

type_synonym store = "nat \<Rightarrow> nat option"

definition blocks_of :: "store \<Rightarrow> (nat \<times> nat) set" where
  "blocks_of M = {(b, s). M (b + 8) = Some s}"

definition unstarted :: "heap \<Rightarrow> bool" where
  "unstarted h \<longleftrightarrow> hp_first h = 0 \<and> lists_ok h {} \<and> maps_ok h"

definition heap_ok :: "heap \<Rightarrow> store \<Rightarrow> bool" where
  "heap_ok h M \<longleftrightarrow> (\<forall>p \<in> dom M. 8 \<le> p) \<and>
     (unstarted h \<and> M = Map.empty \<or> (\<exists>bs. heap_inv h bs \<and> useds (hp_first h) bs = blocks_of M))"

text \<open>The machine: where the heap starts and how far it may go now, below 1 GiB.\<close>

definition machine_ok :: "heap \<Rightarrow> bool" where
  "machine_ok h \<longleftrightarrow> 0 < hp_start h \<and> hp_start h < 2 ^ 30 \<and> heap_limit h \<le> 2 ^ 30"

text \<open>The bytes of every block of \<open>M\<close> are the same in \<open>h'\<close>.\<close>

definition contents_kept :: "store \<Rightarrow> heap \<Rightarrow> heap \<Rightarrow> bool" where
  "contents_kept M h h' \<longleftrightarrow> (\<forall>p s i. M p = Some s \<longrightarrow> i < s \<longrightarrow> hp_mem h' (p + i) = hp_mem h (p + i))"

definition fresh_block :: "store \<Rightarrow> heap \<Rightarrow> nat \<Rightarrow> nat \<Rightarrow> bool" where
  "fresh_block M h p s \<longleftrightarrow> 8 dvd p \<and> hp_first h + 8 \<le> p \<and> p + s \<le> hp_epilogue h \<and> M p = None \<and>
     (\<forall>q t. M q = Some t \<longrightarrow> p + s \<le> q \<or> q + t \<le> p)"

text \<open>Where the heap ends, or will begin.\<close>

definition heap_end :: "heap \<Rightarrow> nat" where
  "heap_end h = (if hp_first h = 0 then ALIGN8 (hp_start h) else hp_epilogue h)"

definition world_same :: "heap \<Rightarrow> heap \<Rightarrow> bool" where
  "world_same h h' \<longleftrightarrow> heap_limit h' = heap_limit h \<and> hp_start h' = hp_start h \<and> hp_errors h' = hp_errors h"

lemma world_refl [simp]: "world_same h h"
  by (simp add: world_same_def)

lemma world_trans: "world_same h h' \<Longrightarrow> world_same h' h'' \<Longrightarrow> world_same h h''"
  by (simp add: world_same_def)

lemma env_world: "env_same h h' \<Longrightarrow> world_same h h'"
  by (simp add: env_same_def world_same_def)

lemma core_world: "core h' = core h \<Longrightarrow> world_same h h'"
  by (rule env_world [OF core_env])

lemma blocks_of_upd: "8 \<le> p \<Longrightarrow> M p = None \<Longrightarrow> blocks_of (M(p \<mapsto> s)) = insert (p - 8, s) (blocks_of M)"
  by (auto simp: blocks_of_def split: if_splits)

lemma blocks_of_del: "8 \<le> p \<Longrightarrow> M p = Some s \<Longrightarrow> blocks_of (M(p := None)) = blocks_of M - {(p - 8, s)}"
  by (auto simp: blocks_of_def split: if_splits)

lemma contents_same_on: "same_on (pays (blocks_of M)) h h' \<Longrightarrow> \<forall>p \<in> dom M. 8 \<le> p \<Longrightarrow> contents_kept M h h'"
  unfolding contents_kept_def
proof (intro allI impI)
  fix p s i assume a: "same_on (pays (blocks_of M)) h h'" "\<forall>p \<in> dom M. 8 \<le> p" "M p = Some s" "i < s"
  then have p: "8 \<le> p" by (auto simp: dom_def)
  then have "(p - 8, s) \<in> blocks_of M" using a(3) by (simp add: blocks_of_def)
  then have "p + i \<in> pays (blocks_of M)" using a(4) p by (auto simp: pays_def pay_def intro!: bexI [of _ "(p - 8, s)"])
  then show "hp_mem h' (p + i) = hp_mem h (p + i)" using a(1) by (simp add: same_on_def)
qed

lemma contents_refl [simp]: "contents_kept M h h"
  by (simp add: contents_kept_def)

lemma contents_trans: "contents_kept M h h' \<Longrightarrow> contents_kept M h' h'' \<Longrightarrow> contents_kept M h h''"
  by (simp add: contents_kept_def)

lemma contents_sub: "contents_kept M h h' \<Longrightarrow> N \<subseteq>\<^sub>m M \<Longrightarrow> contents_kept N h h'"
  by (auto simp: contents_kept_def map_le_def dom_def)

text \<open>\<open>errno\<close> is no part of it.\<close>

lemma heap_ok_errno [simp]: "heap_ok (h\<lparr>hp_errno := e\<rparr>) M = heap_ok h M"
proof -
  have f: "head (h\<lparr>hp_errno := e\<rparr>) = head h" "prev_size (h\<lparr>hp_errno := e\<rparr>) = prev_size h" "next_free (h\<lparr>hp_errno := e\<rparr>) = next_free h"
    "prev_free (h\<lparr>hp_errno := e\<rparr>) = prev_free h"
    by (auto simp: head_def prev_size_def next_free_def prev_free_def)
  have "lists_ok (h\<lparr>hp_errno := e\<rparr>) F = lists_ok h F" for F by (rule lists_ok_frame) (simp_all add: f)
  moreover have "maps_ok (h\<lparr>hp_errno := e\<rparr>) = maps_ok h" by (simp add: maps_ok_def)
  moreover have "tiles (h\<lparr>hp_errno := e\<rparr>) a pf ps bs = tiles h a pf ps bs" for a pf ps bs by (rule tiles_frame) (simp add: f)
  ultimately show ?thesis by (simp add: heap_ok_def heap_inv_def unstarted_def)
qed

lemma errno_same [simp]:
  "contents_kept M h (g\<lparr>hp_errno := e\<rparr>) = contents_kept M h g" "world_same h (g\<lparr>hp_errno := e\<rparr>) = world_same h g"
  "heap_end (g\<lparr>hp_errno := e\<rparr>) = heap_end g"
  by (simp_all add: contents_kept_def world_same_def heap_limit_def heap_end_def Let_def)

section \<open>Starting and taking\<close>

lemma ALIGN8_bounds:
  assumes "n \<le> 2 ^ 31"
  shows "n \<le> ALIGN8 n" "ALIGN8 n < n + 8" "8 dvd ALIGN8 n"
proof -
  have "(of_nat n + 7 :: u32) = of_nat (n + 7)" "(7 :: u32) = mask 3" by (simp_all add: mask_eq_exp_minus_1)
  moreover have "n + 7 < U32" using assms by simp
  ultimately have e: "ALIGN8 n = (n + 7) div 8 * 8" using round_down_u32 [of "n + 7" 3] by (simp only: ALIGN8_def) simp
  show "n \<le> ALIGN8 n" "ALIGN8 n < n + 8" "8 dvd ALIGN8 n" unfolding e by (linarith, linarith, simp)
qed

lemma heap_ok_started: "heap_ok h M \<Longrightarrow> hp_first h \<noteq> 0 \<Longrightarrow> \<exists>bs. heap_inv h bs \<and> useds (hp_first h) bs = blocks_of M"
  by (auto simp: heap_ok_def unstarted_def)

lemma blocks_of_empty [simp]: "blocks_of Map.empty = {}"
  by (simp add: blocks_of_def)

lemma start_heap_spec:
  assumes "heap_ok h M" "machine_ok h" "start_heap h = (h', ok)"
  shows "world_same h h' \<and> contents_kept M h h' \<and> heap_ok h' M \<and> heap_end h' = heap_end h \<and>
    (if ok then hp_first h' \<noteq> 0 else h' = h \<and> heap_limit h < heap_end h + 8)"
proof (cases "hp_first h = 0")
  case False
  then show ?thesis using assms by (simp add: start_heap_def)
next
  case True
  then have u: "unstarted h" "M = Map.empty" using assms(1) by (auto simp: heap_ok_def heap_inv_def)
  define s where "s = ALIGN8 (hp_start h)"
  have m: "0 < hp_start h" "hp_start h < 2 ^ 30" "heap_limit h \<le> 2 ^ 30" using assms(2) by (simp_all add: machine_ok_def)
  have s: "0 < s" "8 dvd s" "s + 8 < U32" using ALIGN8_bounds [of "hp_start h"] m by (auto simp: s_def)
  show ?thesis
  proof (cases "heap_limit h < s + 8")
    case no: True
    then show ?thesis using assms(1,3) True s by (simp add: start_heap_def s_def HDR_def Let_def heap_end_def)
  next
    case False
    then have lim: "s + 8 \<le> 2 ^ 30" using m(3) by simp
    define g where "g = h\<lparr>hp_first := s\<rparr>"
    have h': "h' = topped s g" "ok"
      using assms(3) True False s by (simp_all add: start_heap_def topped_def s_def [symmetric] HDR_def Let_def g_def)
    have l: "lists_ok h' {} = lists_ok h {}" by (rule lists_ok_frame) (simp_all add: h' g_def)
    have "heap_inv h' []"
      unfolding heap_inv_def using s lim u(1) l topped_fields(1) [OF s(2,2), of g]
      by (simp add: h'(1) unstarted_def hdr_def) (simp add: g_def maps_ok_def)
    moreover have "hp_first h' = s" by (simp add: h'(1) g_def)
    moreover have "heap_limit g = heap_limit h" "hp_start g = hp_start h" "hp_errors g = hp_errors h"
      by (simp_all add: g_def heap_limit_def Let_def)
    then have "world_same h h'" by (simp add: h'(1) world_same_def)
    moreover have "heap_end h' = s" "heap_end h = s" using s True by (simp_all add: heap_end_def h'(1) g_def s_def)
    ultimately show ?thesis using s u(2) h'(2) by (auto simp: heap_ok_def contents_kept_def intro: exI [of _ "[]"])
  qed
qed

lemma machine_world: "machine_ok h \<Longrightarrow> world_same h h' \<Longrightarrow> machine_ok h'"
  by (simp add: machine_ok_def world_same_def)

text \<open>\<open>take\<close>: a used block of at least \<open>n\<close> bytes, the other used blocks being those of \<open>M\<close>.\<close>

lemma take_block_spec:
  assumes "heap_ok h M" "machine_ok h" "8 dvd n" "8 \<le> n" "n \<le> 2 ^ 31 + 64" "take_block n h = (h', b)"
  shows "world_same h h' \<and> contents_kept M h h' \<and>
    (if b = 0 then heap_ok h' M \<and> heap_limit h < heap_end h + 8 + n + 8
     else \<exists>xs s ys. heap_inv h' (xs @ (s, False) # ys) \<and> b = hp_first h' + span xs \<and> n \<le> s \<and>
       blocks_of M = useds (hp_first h') xs \<union> useds (b + 8 + s) ys)"
proof -
  have dom: "\<forall>p \<in> dom M. 8 \<le> p" using assms(1) by (simp add: heap_ok_def)
  obtain g ok where g: "start_heap h = (g, ok)" by fastforce
  note st = start_heap_spec [OF assms(1,2) g]
  show ?thesis
  proof (cases ok)
    case False
    then show ?thesis using st assms(1,6) g by (auto simp: take_block_def)
  next
    case True
    then obtain bs where bs: "heap_inv g bs" "useds (hp_first g) bs = blocks_of M" using st heap_ok_started [of g M] by auto
    have lim: "heap_limit g \<le> 2 ^ 30" "heap_limit g = heap_limit h" using st assms(2) by (simp_all add: machine_ok_def world_same_def)
    have fin: "world_same h h' \<and> contents_kept M h h' \<and>
      (\<exists>xs s ys. heap_inv h' (xs @ (s, False) # ys) \<and> b = hp_first h' + span xs \<and> n \<le> s \<and>
       blocks_of M = useds (hp_first h') xs \<union> useds (b + 8 + s) ys)" if t: "taken g bs n h' b" "env_same g h'"
    proof -
      have "same_on (pays (blocks_of M)) g h'" using t(1) bs(2) by (auto simp: taken_def)
      then have "contents_kept M h h'" using contents_trans contents_same_on dom st by blast
      moreover have f: "hp_first h' = hp_first g" using t(2) by (simp add: env_same_def)
      obtain xs s ys where x: "heap_inv h' (xs @ (s, False) # ys)" "b = hp_first g + span xs" "n \<le> s"
        "blocks_of M = useds (hp_first g) xs \<union> useds (b + 8 + s) ys" using t(1) bs(2) by (auto simp: taken_def)
      moreover have "world_same h h'" using world_trans st env_world [OF t(2)] by blast
      ultimately show ?thesis unfolding f by blast
    qed
    show ?thesis
    proof (cases "find g n = 0")
      case False
      have "n \<le> 3 * 2 ^ 30" using assms(5) by simp
      then obtain xs s ys where f: "bs = xs @ (s, True) # ys" "find g n = hp_first g + span xs" "n \<le> s"
        using find_inv [OF bs(1) False assms(3)] by blast
      define u where "u = set_head (find g n) (head (unlink_free (find g n) g) (find g n) AND NOT 1) (unlink_free (find g n) g)"
      define c where "c = find g n + 8 + s"
      define k where "k = set_head c (head u c AND NOT 2) u"
      note x = use_free [OF bs(1) [unfolded f(1)] f(2,3) u_def c_def k_def]
      have "take_block n h = (if find g n \<noteq> 0 then (k, find g n) else grow n g)"
        unfolding take_block_def g prod.case Let_def heap_consts u_def [symmetric] x(3) k_def [symmetric] using True by simp
      then have "h' = k" "b = find g n" using assms(6) False by simp_all
      then show ?thesis using fin x(1) core_env [OF x(2)] False f(1) by simp
    next
      case none: True
      then have "grow n g = (h', b)" using assms(6) g True by (simp add: take_block_def Let_def)
      note gr = grow_spec [OF bs(1) assms(3-5) lim(1) this]
      show ?thesis
      proof (cases "b = 0")
        case True
        then show ?thesis using gr st \<open>ok\<close> lim(2) by (auto simp: heap_end_def)
      next
        case False
        then show ?thesis using gr fin by simp
      qed
    qed
  qed
qed

section \<open>The calls\<close>

lemma block_size_bounds:
  assumes "0 < n" "n \<le> 2 ^ 30"
  shows "8 dvd block_size n" "8 \<le> block_size n" "n \<le> block_size n" "block_size n \<le> 2 ^ 30 + 8" "block_size n < n + 8"
  using ALIGN8_bounds [of n] assms by (auto simp: block_size_def Let_def heap_consts)

text \<open>A block of its own is cut to size and handed out.\<close>

lemma finish_block:
  assumes "heap_inv g (xs @ (s, False) # ys)" "b = hp_first g + span xs" "blocks_of M = useds (hp_first g) xs \<union> useds (b + 8 + s) ys"
    "\<forall>p \<in> dom M. 8 \<le> p" "8 dvd k" "8 \<le> k" "k \<le> s" "h' = trim b k g"
  shows "\<exists>s'. k \<le> s' \<and> s' \<le> s \<and> s' < k + 16 \<and> fresh_block M h' (b + 8) s' \<and> heap_ok h' (M(b + 8 \<mapsto> s')) \<and> contents_kept M g h' \<and>
    same_on (pay b s') g h'" "core h' = core g" "PAYLOAD b = b + 8" "b \<noteq> 0"
proof -
  obtain bs' s' where t: "heap_inv h' bs'" "k \<le> s'" "s' \<le> s" "s' < k + 16" "useds (hp_first g) bs' = insert (b, s') (blocks_of M)"
    "core h' = core g" "same_on (pays (useds (hp_first g) bs')) g h'"
    using trim_spec [OF assms(1,2,5-7)] by (auto simp: assms(3,8))
  note i = inv_size [OF assms(1,2)]
  have f: "hp_first h' = hp_first g" using core_same(1) [OF t(6)] .
  have none: "M (b + 8) = None"
  proof (rule ccontr)
    assume "M (b + 8) \<noteq> None"
    then obtain t where "(b, t) \<in> blocks_of M" by (auto simp: blocks_of_def)
    then show False using frees_bounds(2) [of b t] unfolding assms(3) by (fastforce simp: assms(2))
  qed
  have l: "wfs bs'" "8 dvd hp_first g" "hp_first g \<noteq> 0" "hp_epilogue h' = hp_first g + span bs'" using t(1) f by (simp_all add: heap_inv_def)
  have b: "(b, s', False) \<in> blocks (hp_first g) bs'" using t(5) by (auto simp: useds_def)
  have "b + 8 + s' \<le> q \<or> q + t' \<le> b + 8" if "M q = Some t'" for q t'
  proof -
    have q: "8 \<le> q" using that assms(4) by (auto simp: dom_def)
    then have "(q - 8, t') \<in> blocks_of M" using that by (simp add: blocks_of_def)
    then have "(q - 8, t', False) \<in> blocks (hp_first g) bs'" using t(5) by (auto simp: useds_def)
    moreover have "q \<noteq> b + 8" using that none by auto
    ultimately show ?thesis using blocks_apart [OF b, of "q - 8" t' False] q by auto
  qed
  then have "fresh_block M h' (b + 8) s'"
    unfolding fresh_block_def using none i(6) blocks_bounds [OF b] l f by simp
  moreover have "heap_ok h' (M(b + 8 \<mapsto> s'))"
    unfolding heap_ok_def using t(1,5) assms(4) blocks_of_upd [of "b + 8" M s'] none f by auto
  moreover have "contents_kept M g h'" using contents_same_on same_on_mono [OF t(7)] assms(4) unfolding t(5) pays_def by blast
  moreover have "same_on (pay b s') g h'" using same_on_mono [OF t(7)] unfolding t(5) pays_def by blast
  ultimately show "\<exists>s'. k \<le> s' \<and> s' \<le> s \<and> s' < k + 16 \<and> fresh_block M h' (b + 8) s' \<and> heap_ok h' (M(b + 8 \<mapsto> s')) \<and> contents_kept M g h' \<and>
    same_on (pay b s') g h'" using t(2-4) by blast
  show "core h' = core g" "PAYLOAD b = b + 8" "b \<noteq> 0" using t(6) i(2) l(3) by (auto simp: assms(2))
qed

text \<open>The outcome of a request for \<open>n\<close> bytes.\<close>

definition got_block :: "store \<Rightarrow> nat \<Rightarrow> heap \<Rightarrow> heap \<Rightarrow> nat \<Rightarrow> bool" where
  "got_block M n h h' p \<longleftrightarrow> p \<noteq> 0 \<and> (\<exists>s. n \<le> s \<and> s < n + 24 \<and> fresh_block M h' p s \<and> heap_ok h' (M(p \<mapsto> s)))"

lemma malloc_spec:
  assumes "heap_ok h M" "machine_ok h" "malloc n h = (h', p)"
  shows "world_same h h' \<and> contents_kept M h h' \<and>
    (if p = 0 then heap_ok h' M \<and> (n = 0 \<or> hp_errno h' = HEAP_ENOMEM \<and> (MAX_REQUEST < n \<or> heap_limit h < heap_end h + n + 24))
     else 0 < n \<and> n \<le> MAX_REQUEST \<and> got_block M n h h' p)"
proof (cases "n = 0 \<or> MAX_REQUEST < n")
  case True
  then show ?thesis using assms by (auto simp: malloc_def split: if_splits)
next
  case False
  have dom: "\<forall>p \<in> dom M. 8 \<le> p" using assms(1) by (simp add: heap_ok_def)
  have n: "0 < n" "n \<le> 2 ^ 30" using False by (simp_all add: MAX_REQUEST_def)
  note bs = block_size_bounds [OF n]
  obtain g b where g: "take_block (block_size n) h = (g, b)" by fastforce
  have le: "block_size n \<le> 2 ^ 31 + 64" using bs(4) by simp
  note tk = take_block_spec [OF assms(1,2) bs(1,2) le g]
  show ?thesis
  proof (cases "b = 0")
    case True
    then have "h' = g\<lparr>hp_errno := HEAP_ENOMEM\<rparr>" "p = 0" using assms(3) False g by (simp_all add: malloc_def Let_def)
    then show ?thesis using True tk bs(5) by simp
  next
    case nz: False
    then obtain xs s ys where x: "heap_inv g (xs @ (s, False) # ys)" "b = hp_first g + span xs" "block_size n \<le> s"
      "blocks_of M = useds (hp_first g) xs \<union> useds (b + 8 + s) ys" using tk by auto
    have m: "h' = trim b (block_size n) g" "p = PAYLOAD b" using assms(3) False g nz by (simp_all add: malloc_def Let_def)
    note f = finish_block [OF x(1,2,4) dom bs(1,2) x(3) m(1)]
    obtain s' where s': "block_size n \<le> s'" "s' < block_size n + 16" "fresh_block M h' (b + 8) s'" "heap_ok h' (M(b + 8 \<mapsto> s'))" "contents_kept M g h'"
      using f(1) by blast
    have "world_same h h'" using world_trans tk core_world [OF f(2)] by blast
    moreover have "contents_kept M h h'" using contents_trans tk s'(5) by blast
    moreover have "got_block M n h h' p" unfolding got_block_def m(2) f(3) using s' bs(3,5) by (auto intro!: exI [of _ s'])
    ultimately show ?thesis using n False m(2) f(3) by simp
  qed
qed

text \<open>A live block.\<close>

lemma used_place:
  assumes "useds a bs = insert (b, s) U" "(b, s) \<notin> U"
  shows "\<exists>xs ys. bs = xs @ (s, False) # ys \<and> b = a + span xs \<and> U = useds a xs \<union> useds (b + 8 + s) ys"
proof -
  have "(b, s, False) \<in> blocks a bs" using assms(1) by (auto simp: useds_def)
  then obtain xs ys where x: "bs = xs @ (s, False) # ys" "b = a + span xs" using block_split by blast
  have "(b, s) \<notin> useds a xs" "(b, s) \<notin> useds (b + 8 + s) ys"
    using frees_bounds(2) [of b s a xs] frees_bounds(2) [of b s "b + 8 + s" ys] x(2) by auto
  moreover have "insert (b, s) U = insert (b, s) (useds a xs \<union> useds (b + 8 + s) ys)" using assms(1) x by auto
  ultimately have "U = useds a xs \<union> useds (b + 8 + s) ys" using assms(2) by (simp add: insert_ident)
  then show ?thesis using x by blast
qed

lemma live_place:
  assumes "heap_ok h M" "M p = Some s"
  shows "\<exists>xs ys. heap_inv h (xs @ (s, False) # ys) \<and> p = hp_first h + span xs + 8 \<and> blocks_of (M(p := None)) = useds (hp_first h) xs \<union> useds (p + s) ys"
proof -
  have p: "8 \<le> p" using assms by (auto simp: heap_ok_def dom_def)
  obtain bs where bs: "heap_inv h bs" "useds (hp_first h) bs = blocks_of M" using assms by (auto simp: heap_ok_def)
  have del: "blocks_of (M(p := None)) = blocks_of M - {(p - 8, s)}" by (rule blocks_of_del [of p M s, OF p assms(2)])
  moreover have "(p - 8, s) \<in> blocks_of M" using p assms(2) by (simp add: blocks_of_def)
  ultimately have "useds (hp_first h) bs = insert (p - 8, s) (blocks_of (M(p := None)))" "(p - 8, s) \<notin> blocks_of (M(p := None))"
    using bs(2) by auto
  then obtain xs ys where x: "bs = xs @ (s, False) # ys" "p - 8 = hp_first h + span xs"
    "blocks_of (M(p := None)) = useds (hp_first h) xs \<union> useds (p - 8 + 8 + s) ys" using used_place by blast
  have "p = hp_first h + span xs + 8" "p - 8 + 8 + s = p + s" using x(2) p by linarith+
  then show ?thesis using bs(1) x(1,3) by metis
qed

lemma free_spec:
  assumes "heap_ok h M" "M p = Some s"
  shows "world_same h (free_ptr p h) \<and> heap_ok (free_ptr p h) (M(p := None)) \<and> contents_kept (M(p := None)) h (free_ptr p h) \<and>
    hp_errno (free_ptr p h) = hp_errno h"
proof -
  obtain xs ys where x: "heap_inv h (xs @ (s, False) # ys)" "p = hp_first h + span xs + 8"
    "blocks_of (M(p := None)) = useds (hp_first h) xs \<union> useds (p + s) ys" using live_place [OF assms] by blast
  define b where "b = hp_first h + span xs"
  have p: "p = b + 8" by (simp add: x(2) b_def)
  note l = live_block_used [OF x(1) b_def]
  have fr: "free_ptr p h = release b h" using l by (simp add: free_ptr_def p B_FREE_def)
  obtain bs' where r: "heap_inv (release b h) bs'" "useds (hp_first h) bs' = useds (hp_first h) xs \<union> useds (b + 8 + s) ys"
    "core (release b h) = core h" "same_on (pays (useds (hp_first h) bs')) h (release b h)"
    using release_loose [OF inv_loose [OF x(1)] b_def] by blast
  have u: "useds (hp_first h) bs' = blocks_of (M(p := None))" using r(2) x(3) p by simp
  have dom: "\<forall>q \<in> dom (M(p := None)). 8 \<le> q" using assms(1) by (auto simp: heap_ok_def)
  have "heap_ok (release b h) (M(p := None))" unfolding heap_ok_def using r(1) u dom core_same(1) [OF r(3)] by auto
  then show ?thesis unfolding fr using core_world [OF r(3)] contents_same_on [OF r(4) [unfolded u] dom] core_same(3) [OF r(3)] by simp
qed

lemma usable_spec:
  assumes "heap_ok h M" "M p = Some s"
  shows "malloc_usable_size h p = s"
proof -
  obtain xs ys where x: "heap_inv h (xs @ (s, False) # ys)" "p = hp_first h + span xs + 8" using live_place [OF assms] by blast
  show ?thesis using live_block_used(1,3,4) [OF x(1) refl] by (simp add: malloc_usable_size_def x(2))
qed

text \<open>The holder of a block may write into it.\<close>

lemma write_ok:
  assumes "heap_ok h M" "M p = Some s" "\<And>x. x < p \<or> p + s \<le> x \<Longrightarrow> m x = hp_mem h x"
  shows "heap_ok (h\<lparr>hp_mem := m\<rparr>) M"
proof -
  let ?h = "h\<lparr>hp_mem := m\<rparr>"
  have p: "8 \<le> p" using assms(1,2) by (auto simp: heap_ok_def dom_def)
  obtain bs where bs: "heap_inv h bs" "useds (hp_first h) bs = blocks_of M" using assms(1,2) by (auto simp: heap_ok_def)
  define a where "a = hp_first h"
  have l: "wfs bs" "8 dvd a" using bs(1) by (simp_all add: heap_inv_def a_def)
  have pb: "pay (p - 8) s \<subseteq> pays (useds a bs)" 
  proof -
    have "(p - 8, s) \<in> useds a bs" using p assms(2) bs(2) by (simp add: blocks_of_def a_def)
    then show ?thesis by (auto simp: pays_def)
  qed
  have cell: "ld32 m c = ld32 (hp_mem h) c \<and> ld32 m (c + 4) = ld32 (hp_mem h) (c + 4)" if o: "off (pays (useds a bs)) c" for c
  proof -
    have "m x = hp_mem h x" if "c \<le> x" "x < c + 8" for x
    proof (rule assms(3), rule ccontr)
      assume "\<not> (x < p \<or> p + s \<le> x)"
      then have "x \<in> pays (useds a bs)" using pb p by (auto simp: pay_def)
      then show False using o that by (auto simp: off_def)
    qed
    then show ?thesis by (auto intro!: ld32_cong)
  qed
  have hf: "head ?h c = head h c \<and> prev_size ?h c = prev_size h c" if "c \<in> starts a bs \<or> c = a + span bs" for c
    using cell [OF off_used(1) [OF l that]] by (simp add: head_def prev_size_def)
  have lf: "next_free ?h x = next_free h x \<and> prev_free ?h x = prev_free h x" if "(x, t) \<in> frees a bs" for x t
    using cell [OF off_used(2) [OF l that]] by (simp add: next_free_def prev_free_def add.assoc)
  have "lists_ok ?h (frees a bs) = lists_ok h (frees a bs)" by (rule lists_ok_frame) (use lf in auto)
  moreover have "tiles ?h a False 0 bs = tiles h a False 0 bs" by (rule tiles_frame) (rule hf)
  moreover have "maps_ok ?h = maps_ok h" by (simp add: maps_ok_def)
  ultimately have "heap_inv ?h bs" using bs(1) by (simp add: heap_inv_def a_def)
  then show ?thesis using bs(2) assms(1) by (auto simp: heap_ok_def)
qed

end
