(* ===== verification/Malloc_Realloc.thy ===== *)
theory Malloc_Realloc
  imports Malloc_Spec
begin

text \<open>\<open>realloc\<close>, \<open>calloc\<close> and \<open>aligned_alloc\<close>.\<close>

section \<open>Growing in place\<close>

text \<open>The last used block, with a free block above it or none, is extended over the new ground.\<close>

lemma extend_used:
  assumes "heap_inv h (xs @ (s, False) # ys)" "b = hp_first h + span xs" "ys = [] \<or> ys = [(t, True)]" "8 dvd k" "s + span ys < k"
    "b + 8 + k + 8 \<le> 2 ^ 30" "g = topped (b + 8 + k) h" "u = (if ys = [] then g else unlink_free (b + 8 + s) g)"
    "h' = set_head b (of_nat k OR (head u b AND 2)) u"
  shows "heap_inv h' (xs @ [(k, False)])" "env_same h h'" "same_on (pays (useds (hp_first h) (xs @ (s, False) # ys))) h h'"
proof -
  define a to n W where "a = hp_first h" and "to = b + 8 + k" and "n = b + 8 + s" and "W = xs @ (s, False) # ys"
  have l: "a \<noteq> 0" "8 dvd a" "wfs W" "segs h a False 0 xs" "hdr h b s False (lastf False xs) (lasts 0 xs)" "tiles h n False s ys"
    "hp_epilogue h = a + span W" "hp_epilogue h + 8 \<le> 2 ^ 30" "lists_ok h (frees a W)" "maps_ok h"
    using assms(1) by (auto simp: heap_inv_def W_def a_def assms(2) n_def add.assoc)
  have w: "8 dvd s" "8 \<le> s" "wfs xs" "wfs ys" using l(3) by (simp_all add: W_def)
  have e: "a + span W = n + span ys" by (simp add: W_def assms(2) a_def n_def)
  have b8: "8 dvd b" "8 dvd to" using l(2) span_dvd [OF w(3)] assms(2,4) by (auto simp: a_def to_def)
  have lt: "a + span W \<le> 2 ^ 31" "a + span W \<le> to" "b \<noteq> to" "8 \<le> k" using l(7,8) e assms(5) w(2) by (simp_all add: to_def n_def)
  have bW: "b \<in> starts a W" by (simp add: W_def assms(2) a_def)
  have g: "g = topped to h" by (simp add: assms(7) to_def)
  have gs: "head g c = head h c \<and> prev_size g c = prev_size h c" if "c \<in> starts a W" for c
    using topped_fields(1,2) [OF b8(2) starts_dvd [OF that l(3,2)]] starts_bounds [OF that] lt(2) by (simp add: g)
  have gto: "head g to = 0" using topped_fields(1) [OF b8(2,2)] by (simp add: g)
  have glo: "lists_ok g (frees a W)" unfolding g by (subst topped_lists) (use b8 above_end(1) [OF l(3,2) lt(2)] l(9) in auto)
  have gm: "maps_ok g" using l(10) by (simp add: g)
  let ?X = "pays (useds a W)"
  have gx: "same_on ?X h g" unfolding g by (rule topped_same_on) (rule above_end(2) [OF l(3,2) lt(2)])
  have U: "(\<forall>c \<in> starts a W. head u c = head h c \<and> prev_size u c = prev_size h c) \<and> head u to = 0 \<and> lists_ok u (frees a xs) \<and> maps_ok u \<and>
    core u = core g \<and> same_on ?X h u"
  proof (cases "ys = []")
    case True
    then show ?thesis using gs gto glo gm gx by (simp add: assms(8) W_def)
  next
    case False
    then have ys: "ys = [(t, True)]" using assms(3) by blast
    have nf: "(n, t) \<in> frees a W" by (simp add: W_def assms(2) a_def n_def ys add.assoc)
    have nW: "n \<in> starts a W" by (simp add: W_def assms(2) a_def n_def ys add.assoc)
    have t: "8 dvd t" "8 \<le> t" "t < U32" using w(4) lt(1) e by (simp_all add: ys)
    have "head h n = hd_word t True False" using l(6) by (simp add: ys hdr_def)
    then have st: "SIZE g n = t" using gs [OF nW] by (intro size_of_head [OF _ t(1,3)]) simp
    note un = unlink_inv [OF l(3,2,1) lt(1) glo gm nf st]
    have u: "u = unlink_free n g" using False by (simp add: assms(8) n_def)
    have "links_only (frees a W) g u" unfolding u using unlink_free_spec [OF glo gm frees_sane [OF l(3,2,1) lt(1)] nf st] by blast
    moreover have "\<forall>(x, s) \<in> frees a W. to \<noteq> x + 8" using above_end(1) [OF l(3,2) lt(2)] by auto
    ultimately have "head u to = head g to" using b8(2) unfolding links_only_def by blast
    moreover have "(n, t) \<notin> frees a xs" using frees_bounds(1) [of n t a xs] by (auto simp: n_def assms(2) a_def)
    then have "frees a W - {(n, t)} = frees a xs" by (auto simp: W_def assms(2) a_def n_def ys add.assoc)
    ultimately show ?thesis using un gs gto same_on_trans [OF gx un(5)] by (simp add: u)
  qed
  have hb: "of_nat k OR (head u b AND 2) = hd_word k False (lastf False xs)"
  proof -
    have "head u b = hd_word s False (lastf False xs)" using U bW l(5) by (simp add: hdr_def)
    then show ?thesis by (simp only: hd_word_masks(5) [OF w(1)] hd_word_masks(7) [OF assms(4)])
  qed
  have h': "h' = set_head b (hd_word k False (lastf False xs)) u" unfolding assms(9) hb ..
  have same: "hp_first h' = a" "hp_epilogue h' = to"
    using U core_same(1,2) [of u g] by (simp_all add: h' g a_def set_head_def)
  have f: "head h' c = (if c = b then hd_word k False (lastf False xs) else head h c) \<and> prev_size h' c = prev_size h c" if c: "c \<in> starts a W" for c
    using U c b8(1) starts_dvd [OF c l(3,2)] by (simp add: h' fields)
  have "segs h' a False 0 xs = segs h a False 0 xs"
  proof (rule segs_frame)
    fix c assume c: "c \<in> starts a xs"
    then have "c \<noteq> b" using starts_bounds [OF c] by (simp add: assms(2) a_def)
    then show "head h' c = head h c \<and> prev_size h' c = prev_size h c" using f [of c] c by (simp add: W_def)
  qed
  moreover have "hdr h' b k False (lastf False xs) (lasts 0 xs)" using f [OF bW] l(5) by (simp add: hdr_def)
  moreover have "hdr h' to 0 False False k" using U b8 lt(3) by (simp add: h' fields hdr_def)
  moreover have "lists_ok h' (frees a xs)"
  proof -
    have "8 dvd x \<and> b \<noteq> x + 8" if "(x, s) \<in> frees a xs" for x s
      using above_end(1) [OF w(3) l(2) _ that, of b] by (simp add: assms(2) a_def)
    then show ?thesis unfolding h' by (subst lists_ok_header(1)) (use b8 U in auto)
  qed
  moreover have "maps_ok h'" using U by (simp add: h')
  ultimately show "heap_inv h' (xs @ [(k, False)])"
    unfolding heap_inv_def same using l w assms(4,6) lt(4) by (simp add: to_def assms(2) a_def add.assoc)
  have "env_same g u" by (rule core_env) (use U in simp)
  moreover have "env_same u h'" unfolding h' by (rule core_env) simp
  ultimately show "env_same h h'" using env_trans topped_same(9) g by blast
  have "off ?X b" using off_used(1) [OF l(3,2)] bW by blast
  then show "same_on (pays (useds (hp_first h) (xs @ (s, False) # ys))) h h'"
    using U unfolding h' a_def [symmetric] W_def [symmetric] by (simp add: same_on_set)
qed

section \<open>\<open>realloc\<close>\<close>

text \<open>The outcome: the block at \<open>p\<close>, of \<open>s\<close> bytes, is now at \<open>q\<close> with what it held as far as it fits.\<close>

definition moved :: "store \<Rightarrow> nat \<Rightarrow> nat \<Rightarrow> nat \<Rightarrow> heap \<Rightarrow> heap \<Rightarrow> nat \<Rightarrow> bool" where
  "moved M p s n h h' q \<longleftrightarrow> got_block (M(p := None)) n h h' q \<and> contents_kept (M(p := None)) h h' \<and>
     (\<forall>i < min n s. hp_mem h' (q + i) = hp_mem h (p + i))"

lemma dom_del: "heap_ok h M \<Longrightarrow> \<forall>q \<in> dom (M(p := None)). 8 \<le> q"
  by (auto simp: heap_ok_def)

text \<open>After the block has the room, it is cut to size.\<close>

lemma resize_here:
  assumes "heap_ok h M" "M p = Some s0" "p = b + 8" "heap_inv g (xs @ (s, False) # ys)" "b = hp_first g + span xs"
    "blocks_of (M(p := None)) = useds (hp_first g) xs \<union> useds (b + 8 + s) ys" "0 < n" "n \<le> 2 ^ 30" "block_size n \<le> s" "s0 \<le> s"
    "same_on (pays (insert (b, s0) (blocks_of (M(p := None))))) h g" "world_same h g"
    "h' = trim b (block_size n) g"
  shows "world_same h h' \<and> moved M p s0 n h h' p"
proof -
  have dom: "\<forall>q \<in> dom (M(p := None)). 8 \<le> q" by (rule dom_del [OF assms(1)])
  note bs = block_size_bounds [OF assms(7,8)]
  note f = finish_block [OF assms(4-6) dom bs(1,2) assms(9,13)]
  obtain s' where s': "block_size n \<le> s'" "s' < block_size n + 16" "fresh_block (M(p := None)) h' (b + 8) s'"
    "heap_ok h' ((M(p := None))(b + 8 \<mapsto> s'))" "contents_kept (M(p := None)) g h'" "same_on (pay b s') g h'" using f(1) by blast
  have "contents_kept (M(p := None)) h g" using contents_same_on [OF same_on_mono [OF assms(11)] dom] by (auto simp: pays_def)
  then have c: "contents_kept (M(p := None)) h h'" using contents_trans s'(5) by blast
  have got: "got_block (M(p := None)) n h h' p" unfolding got_block_def using s'(1-4) bs(3,5) assms(3) by (auto intro!: exI [of _ s'])
  have "hp_mem h' (p + i) = hp_mem h (p + i)" if "i < min n s0" for i
  proof -
    have "p + i \<in> pay b s'" "p + i \<in> pay b s0" using that s'(1) bs(3) assms(3) by (auto simp: pay_def)
    then show ?thesis using s'(6) assms(11) by (auto simp: same_on_def pays_def)
  qed
  moreover have "world_same h h'" using world_trans [OF assms(12) core_world [OF f(2)]] .
  ultimately show ?thesis using c got by (simp add: moved_def)
qed

lemma got_ok: "got_block M n h h' p \<Longrightarrow> \<exists>s. n \<le> s \<and> fresh_block M h' p s \<and> heap_ok h' (M(p \<mapsto> s))"
  by (auto simp: got_block_def)

lemma heap_ok_live: "heap_ok h M \<Longrightarrow> M r = Some s \<Longrightarrow> \<exists>bs. heap_inv h bs \<and> useds (hp_first h) bs = blocks_of M"
  by (auto simp: heap_ok_def)

lemma realloc_move_spec:
  assumes "heap_ok h M" "machine_ok h" "M p = Some s0" "s0 \<le> n" "realloc_move p n h = (h', q)"
  shows "world_same h h' \<and> (if q = 0 then heap_ok h' M \<and> contents_kept M h h' \<and> (n = 0 \<or> hp_errno h' = HEAP_ENOMEM) else moved M p s0 n h h' q)"
proof -
  obtain g r where g: "malloc n h = (g, r)" by fastforce
  note ma = malloc_spec [OF assms(1,2) g]
  show ?thesis
  proof (cases "r = 0")
    case True
    then show ?thesis using ma assms(5) g by (auto simp: realloc_move_def)
  next
    case False
    then obtain s where s: "n \<le> s" "s < n + 24" "fresh_block M g r s" "heap_ok g (M(r \<mapsto> s))" using ma by (auto simp: got_block_def)
    define M' where "M' = M(r \<mapsto> s)"
    have pr: "p \<noteq> r" "r + s \<le> p \<or> p + s0 \<le> r" "8 dvd r" using s(3) assms(3) by (auto simp: fresh_block_def)
    have Mp: "M' p = Some s0" "M' r = Some s" using assms(3) pr(1) by (simp_all add: M'_def)
    have s': "heap_ok g M'" using s(4) by (simp add: M'_def)
    have sz: "SIZE g (OF p) = s0"
    proof -
      obtain xs ys where x: "heap_inv g (xs @ (s0, False) # ys)" "p = hp_first g + span xs + 8" using live_place [OF s' Mp(1)] by blast
      show ?thesis using live_block_used(3,4) [OF x(1) refl] by (simp add: x(2))
    qed
    define m where "m = mem_copy (hp_mem g) r p s0"
    define k where "k = g\<lparr>hp_mem := m\<rparr>"
    have mo: "m x = hp_mem g x" if "x < r \<or> r + s \<le> x" for x using that assms(4) s(1) by (auto simp: m_def mem_copy_def)
    have ok: "heap_ok k M'" unfolding k_def by (rule write_ok [OF s' Mp(2) mo])
    have h': "h' = free_ptr p k" "q = r" using assms(5) g False sz by (auto simp: realloc_move_def k_def m_def)
    note fr = free_spec [OF ok Mp(1), folded h'(1)]
    have eq: "M'(p := None) = (M(p := None))(r \<mapsto> s)" using pr(1) by (auto simp: M'_def)
    have kc: "contents_kept (M(p := None)) g k" unfolding contents_kept_def
    proof (intro allI impI)
      fix q' t i assume "(M(p := None)) q' = Some t" "i < t"
      then have "r + s \<le> q' \<or> q' + t \<le> r" using s(3) by (auto simp: fresh_block_def split: if_splits)
      then show "hp_mem k (q' + i) = hp_mem g (q' + i)" using mo [of "q' + i"] \<open>i < t\<close> by (auto simp: k_def)
    qed
    have sub: "M(p := None) \<subseteq>\<^sub>m M" "M(p := None) \<subseteq>\<^sub>m M'(p := None)" using s(3) by (auto simp: map_le_def M'_def fresh_block_def)
    have "contents_kept (M(p := None)) h h'"
      using contents_trans [OF contents_trans [OF contents_sub [OF _ sub(1)] kc] contents_sub [OF _ sub(2)]] ma fr by blast
    moreover have "fresh_block (M(p := None)) h' r s"
    proof -
      have "heap_ok h' (M'(p := None))" "(M'(p := None)) r = Some s" using fr pr(1) Mp(2) by auto
      then obtain bs where "heap_inv h' bs" "useds (hp_first h') bs = blocks_of (M'(p := None))" by (rule heap_ok_live [THEN exE]) blast
      moreover have "8 \<le> r" using s' Mp(2) by (auto simp: heap_ok_def dom_def)
      moreover have "(r - 8, s) \<in> blocks_of (M'(p := None))" using Mp(2) pr(1) \<open>8 \<le> r\<close> by (simp add: blocks_of_def)
      ultimately have "hp_first h' + 8 \<le> r \<and> r + s \<le> hp_epilogue h'" using frees_bounds(2) [of "r - 8" s "hp_first h'" bs] by (auto simp: heap_inv_def)
      then show ?thesis using s(3) by (auto simp: fresh_block_def split: if_splits)
    qed
    then have "got_block (M(p := None)) n h h' r" unfolding got_block_def using s(1,2) fr False eq by auto
    moreover have "hp_mem h' (r + i) = hp_mem h (p + i)" if "i < min n s0" for i
    proof -
      have "hp_mem h' (r + i) = hp_mem k (r + i)" using fr Mp(2) pr(1) that s(1) by (auto simp: contents_kept_def)
      also have "\<dots> = hp_mem g (p + i)" using that by (simp add: k_def m_def mem_copy_def)
      also have "\<dots> = hp_mem h (p + i)" using ma assms(3) that by (auto simp: contents_kept_def)
      finally show ?thesis .
    qed
    moreover have "world_same g k" by (simp add: k_def world_same_def heap_limit_def Let_def)
    then have "world_same h h'" using ma fr world_trans by blast
    ultimately show ?thesis using h'(2) False by (simp add: moved_def)
  qed
qed

lemma realloc_grow_spec:
  assumes "heap_ok h M" "machine_ok h" "M p = Some s0" "0 < n" "n \<le> 2 ^ 30" "s0 < block_size n" "realloc_grow p n (block_size n) h = (h', q)"
  shows "world_same h h' \<and> (if q = 0 then heap_ok h' M \<and> contents_kept M h h' \<and> hp_errno h' = HEAP_ENOMEM else moved M p s0 n h h' q)"
proof -
  obtain xs ys where x: "heap_inv h (xs @ (s0, False) # ys)" "p = hp_first h + span xs + 8"
    "blocks_of (M(p := None)) = useds (hp_first h) xs \<union> useds (p + s0) ys" using live_place [OF assms(1,3)] by blast
  define a b k nx where "a = hp_first h" and "b = a + span xs" and "k = block_size n" and "nx = b + 8 + s0"
  have p: "p = b + 8" by (simp add: x(2) a_def b_def)
  have bh: "b = hp_first h + span xs" by (simp add: a_def b_def)
  note l = live_block_used [OF x(1) bh] and i = inv_size [OF x(1) bh]
  note ks = block_size_bounds [OF assms(4,5), folded k_def]
  have p0: "p \<noteq> 0" by (simp add: p)
  have s0n: "s0 \<le> n"
  proof -
    obtain c d where "k = 8 * c" "s0 = 8 * d" using ks(1) i(4) by (auto elim!: dvdE)
    then show ?thesis using assms(6) ks(5) by (simp add: k_def)
  qed
  have lim: "heap_limit h \<le> 2 ^ 30" using assms(2) by (simp add: machine_ok_def)
  note lo = inv_loose [OF x(1)]
  have fl: "head h nx AND 1 \<noteq> 0 \<longleftrightarrow> firstf ys" using next_flag [OF lo] by (simp add: nx_def bh)
  have nxt: "NEXT_PHYS h b = nx" using i(7) by (simp add: nx_def)
  have epi: "hp_epilogue h = nx + span ys" "nx + span ys + 8 \<le> 2 ^ 30" "wfs ys" using x(1) by (simp_all add: heap_inv_def nx_def bh)
  have bl: "blocks_of (M(p := None)) = useds a xs \<union> useds nx ys" using x(3) p by (simp add: a_def nx_def)
  have W: "useds a (xs @ (s0, False) # ys) = insert (b, s0) (blocks_of (M(p := None)))" by (simp add: bl b_def nx_def)
  have mv: "?thesis" if "realloc_grow p n k h = realloc_move p n h"
  proof -
    have "realloc_move p n h = (h', q)" using that assms(7) by (simp add: k_def)
    then show ?thesis using realloc_move_spec [OF assms(1-3) s0n] assms(4) by (auto split: if_splits)
  qed
  define above where "above = (if firstf ys then NEXT_PHYS h nx else nx)"
  define room where "room = (if firstf ys then add32 s0 (add32 8 (SIZE h nx)) else s0)"
  have eq: "realloc_grow p n k h =
    (if firstf ys \<and> k \<le> room then
       let h = unlink_free nx h; h = set_head b (head h b + of_nat (add32 8 (SIZE h nx))) h; up = NEXT_PHYS h b;
           h = set_head up (head h up AND NOT 2) h in (trim b k h, p)
     else if above = hp_epilogue h then
       (case move_top (b + 8 + k) h of (h', ok) \<Rightarrow>
          if ok then let h' = (if nx \<noteq> above then unlink_free nx h' else h') in (set_head b (of_nat k OR (head h' b AND 2)) h', p)
          else realloc_move p n h)
     else realloc_move p n h)"
  proof -
    have "PAYLOAD b = b + 8" "add32 (b + 8) k = b + 8 + k" using i(2,5) ks(4) by simp_all
    then show ?thesis
      unfolding realloc_grow_def Let_def above_def room_def p l(3,4) nxt heap_consts fl using ks(2) by simp
  qed
  have top: "?thesis" if y: "ys = [] \<or> ys = [(t, True)]" "s0 + span ys < k" "\<not> heap_limit h < b + 8 + k + 8" "q = p"
    "u = (if ys = [] then topped (b + 8 + k) h else unlink_free nx (topped (b + 8 + k) h))" "h' = set_head b (of_nat k OR (head u b AND 2)) u" for t u
  proof -
    have lt: "b + 8 + k + 8 \<le> 2 ^ 30" using y(3) lim by simp
    have u: "u = (if ys = [] then topped (b + 8 + k) h else unlink_free (b + 8 + s0) (topped (b + 8 + k) h))" using y(5) by (simp add: nx_def)
    note x' = extend_used [OF x(1) bh y(1) ks(1) y(2) lt refl u y(6)]
    have a': "hp_first h' = a" using x'(2) by (simp add: env_same_def a_def)
    have b': "b = hp_first h' + span xs" by (simp add: a' b_def)
    have sz: "SIZE h' b = k" using inv_size(1) [of h' xs k "[]", OF x'(1) b'] .
    have "trim b (block_size n) h' = h'" using ks(4) sz by (simp add: trim_def heap_consts k_def [symmetric])
    moreover have "blocks_of (M(p := None)) = useds (hp_first h') xs \<union> useds (b + 8 + k) []" using y(1) by (auto simp: bl a')
    moreover have "same_on (pays (insert (b, s0) (blocks_of (M(p := None))))) h h'" using x'(3) W by (simp add: a_def)
    moreover have "world_same h h'" by (rule env_world [OF x'(2)])
    ultimately have "world_same h h' \<and> moved M p s0 n h h' p"
      using resize_here [OF assms(1,3) p x'(1) b' _ assms(4,5), of h'] assms(6) by (simp add: k_def)
    then show ?thesis using y(4) p0 by simp
  qed
  have mt: "move_top (b + 8 + k) h = (if heap_limit h < b + 8 + k + 8 then (h, False) else (topped (b + 8 + k) h, True))"
    using i(5) ks(4) by (simp add: move_top_eq bh)
  show ?thesis
  proof (cases "firstf ys")
    case True
    then obtain t zs where ys: "ys = (t, True) # zs" by (cases ys) auto
    have t: "8 dvd t" "8 \<le> t" "t < U32" using epi by (simp_all add: ys)
    have "head h nx = hd_word t True False" using x(1) by (simp add: heap_inv_def ys nx_def bh hdr_def add.assoc)
    then have st: "SIZE h nx = t" by (rule size_of_head [OF _ t(1,3)])
    have room: "room = s0 + 8 + t" "above = nx + 8 + t" using epi True st by (simp_all add: room_def above_def ys nx_def NEXT_PHYS_def PAYLOAD_def HDR_def)
    show ?thesis
    proof (cases "k \<le> room")
      case fits: True
      define u where "u = set_head b (head (unlink_free nx h) b + of_nat (8 + t)) (unlink_free nx h)"
      define c where "c = b + 8 + (s0 + 8 + t)"
      define g where "g = set_head c (head u c AND NOT 2) u"
      note m = merge_next [OF lo [unfolded ys] bh nx_def u_def]
      have a': "hp_first u = a" using core_same(1) [OF m(2)] by (simp add: a_def)
      have bu: "b = hp_first u + span xs" "c = hp_first u + span xs + 8 + (s0 + 8 + t)" by (simp_all add: a' b_def c_def)
      note cl = close_used [OF m(1) bu(2) g_def]
      have ag: "hp_first g = a" using core_same(1) [OF cl(2)] a' by simp
      have "NEXT_PHYS u b = c" using loose_size(2) [OF m(1)] by (simp add: bu)
      moreover have "add32 8 (SIZE (unlink_free nx h) nx) = 8 + t" using m(6) t epi by (simp add: ys)
      ultimately have e: "realloc_grow p n k h = (trim b k g, p)"
        unfolding eq using True fits by (simp only: Let_def u_def [symmetric] g_def [symmetric] simp_thms if_True)
      then have h': "h' = trim b (block_size n) g" "q = p" using assms(7) by (simp_all add: k_def)
      have same: "same_on (pays (insert (b, s0) (blocks_of (M(p := None))))) h g"
      proof -
        have "same_on (pays (insert (b, s0) (blocks_of (M(p := None))))) h u" using m(3) W by (simp add: a_def ys)
        moreover have "same_on (pays (insert (b, s0) (blocks_of (M(p := None))))) u g"
          by (rule same_on_mono [OF cl(3)]) (auto simp: pays_def pay_def bl a' ys b_def nx_def add.assoc; force)
        ultimately show ?thesis by (rule same_on_trans)
      qed
      have "blocks_of (M(p := None)) = useds (hp_first g) xs \<union> useds (b + 8 + (s0 + 8 + t)) zs" by (simp add: bl ag ys nx_def add.assoc)
      moreover have "block_size n \<le> s0 + 8 + t" "s0 \<le> s0 + 8 + t" "b = hp_first g + span xs" using fits room by (simp_all add: k_def ag b_def)
      moreover have "world_same h g" using core_world cl(2) m(2) by simp
      ultimately show ?thesis using resize_here [OF assms(1,3) p cl(1) _ _ assms(4,5) _ _ same _ h'(1)] h'(2) p0 by simp
    next
      case no: False
      show ?thesis
      proof (cases "zs = [] \<and> \<not> heap_limit h < b + 8 + k + 8")
        case True
        then have ep: "above = hp_epilogue h" "nx \<noteq> above" using room epi by (simp_all add: ys)
        have e: "realloc_grow p n k h = (let u = unlink_free nx (topped (b + 8 + k) h) in (set_head b (of_nat k OR (head u b AND 2)) u, p))"
          unfolding eq mt using no True ep by simp
        have "s0 + span ys < k" using no room True by (simp add: ys)
        then show ?thesis using e assms(7) True by (intro top [of t "unlink_free nx (topped (b + 8 + k) h)"]) (simp_all add: ys k_def Let_def)
      next
        case False
        have "above = hp_epilogue h \<longleftrightarrow> zs = []" using room epi by (cases zs) (auto simp: ys)
        then show ?thesis using no False by (intro mv) (auto simp: eq mt)
      qed
    qed
  next
    case False
    then have above: "above = nx" by (simp add: above_def)
    show ?thesis
    proof (cases "ys = [] \<and> \<not> heap_limit h < b + 8 + k + 8")
      case True
      then have e: "realloc_grow p n k h = (let u = topped (b + 8 + k) h in (set_head b (of_nat k OR (head u b AND 2)) u, p))"
        unfolding eq mt using above epi by simp
      then show ?thesis using assms(6,7) True by (intro top [of undefined "topped (b + 8 + k) h"]) (simp_all add: k_def Let_def)
    next
      case no: False
      have "above = hp_epilogue h \<longleftrightarrow> ys = []" using above epi by (cases ys) auto
      then show ?thesis using no False by (intro mv) (auto simp: eq mt)
    qed
  qed
qed

end
