(* ===== verification/Malloc_Aligned.thy ===== *)
theory Malloc_Aligned
  imports Malloc_Realloc
begin

text \<open>The specifications of \<open>realloc\<close>, \<open>calloc\<close> and \<open>aligned_alloc\<close>.\<close>

section \<open>\<open>realloc\<close> and \<open>calloc\<close>\<close>

lemma realloc_spec:
  assumes "heap_ok h M" "machine_ok h" "M p = Some s0" "realloc p n h = (h', q)"
  shows "world_same h h' \<and>
    (if n = 0 then q = 0 \<and> heap_ok h' (M(p := None)) \<and> contents_kept (M(p := None)) h h'
     else if q = 0 then heap_ok h' M \<and> contents_kept M h h' \<and> hp_errno h' = HEAP_ENOMEM
     else moved M p s0 n h h' q)"
proof -
  obtain xs ys where x: "heap_inv h (xs @ (s0, False) # ys)" "p = hp_first h + span xs + 8"
    "blocks_of (M(p := None)) = useds (hp_first h) xs \<union> useds (p + s0) ys" using live_place [OF assms(1,3)] by blast
  define b where "b = hp_first h + span xs"
  have p: "p = b + 8" by (simp add: x(2) b_def)
  note l = live_block_used [OF x(1) b_def]
  have e: "realloc p n h =
    (if n = 0 then (free_ptr p h, 0) else if MAX_REQUEST < n then (h\<lparr>hp_errno := HEAP_ENOMEM\<rparr>, 0)
     else if block_size n \<le> s0 then (trim b (block_size n) h, p) else realloc_grow p n (block_size n) h)"
    using l by (simp add: realloc_def p Let_def)
  consider "n = 0" | "MAX_REQUEST < n" | "0 < n" "n \<le> MAX_REQUEST" "block_size n \<le> s0" | "0 < n" "n \<le> MAX_REQUEST" "s0 < block_size n"
    by linarith
  then show ?thesis
  proof cases
    case 1
    then have "h' = free_ptr p h" "q = 0" using assms(4) e by simp_all
    then show ?thesis using 1 free_spec [OF assms(1,3)] by simp
  next
    case 2
    then have "h' = h\<lparr>hp_errno := HEAP_ENOMEM\<rparr>" "q = 0" "n \<noteq> 0" using assms(4) e by (simp_all split: if_splits)
    then show ?thesis using assms(1) by simp
  next
    case 3
    then have h': "h' = trim b (block_size n) h" "q = p" using assms(4) e by simp_all
    have bl: "blocks_of (M(p := None)) = useds (hp_first h) xs \<union> useds (b + 8 + s0) ys" using x(3) p by simp
    have "n \<le> 2 ^ 30" using 3(2) by (simp add: MAX_REQUEST_def)
    then show ?thesis
      using resize_here [OF assms(1,3) p x(1) b_def bl 3(1) _ 3(3) order_refl same_on_refl world_refl h'(1)] 3(1) h'(2) p by simp
  next
    case 4
    then have r: "realloc_grow p n (block_size n) h = (h', q)" using assms(4) e by simp
    have "n \<le> 2 ^ 30" using 4(2) by (simp add: MAX_REQUEST_def)
    then show ?thesis using realloc_grow_spec [OF assms(1-3) 4(1) _ 4(3) r] 4(1) by simp
  qed
qed

lemma calloc_no_overflow: "n < U32 \<Longrightarrow> sz < U32 \<Longrightarrow> \<not> (sz \<noteq> 0 \<and> UINT_MAX div sz < n) \<Longrightarrow> n * sz < U32"
proof (cases "sz = 0")
  case False
  assume "\<not> (sz \<noteq> 0 \<and> UINT_MAX div sz < n)"
  then have "n \<le> UINT_MAX div sz" using False by simp
  then have "n * sz \<le> UINT_MAX div sz * sz" by (rule mult_le_mono1)
  also have "\<dots> \<le> UINT_MAX" by simp
  finally show ?thesis by simp
qed simp

lemma calloc_spec:
  assumes "heap_ok h M" "machine_ok h" "n < U32" "sz < U32" "calloc n sz h = (h', p)"
  shows "world_same h h' \<and> contents_kept M h h' \<and>
    (if p = 0 then heap_ok h' M \<and> (n * sz = 0 \<or> hp_errno h' = HEAP_ENOMEM)
     else got_block M (n * sz) h h' p \<and> (\<forall>i < n * sz. hp_mem h' (p + i) = 0))"
proof (cases "sz \<noteq> 0 \<and> UINT_MAX div sz < n")
  case True
  then show ?thesis using assms(1,5) by (auto simp: calloc_def)
next
  case False
  have lt: "n * sz < U32" by (rule calloc_no_overflow [OF assms(3,4) False])
  then have tot: "mul32 n sz = n * sz" by (simp add: mul32_def)
  obtain g r where g: "malloc (n * sz) h = (g, r)" by fastforce
  have p: "p = r" using assms(5) False g by (auto simp: calloc_def tot Let_def)
  note ma = malloc_spec [OF assms(1,2) g]
  show ?thesis
  proof (cases "r = 0")
    case True
    then have "h' = g" using assms(5) False g by (auto simp: calloc_def tot Let_def)
    then show ?thesis using True ma p by auto
  next
    case nz: False
    then obtain s where s: "n * sz \<le> s" "s < n * sz + 24" "fresh_block M g r s" "heap_ok g (M(r \<mapsto> s))" using ma by (auto simp: got_block_def)
    define m where "m = mem_set (hp_mem g) r 0 (n * sz)"
    have h': "h' = g\<lparr>hp_mem := m\<rparr>" using assms(5) False g nz by (auto simp: calloc_def tot Let_def m_def)
    have mo: "m x = hp_mem g x" if "x < r \<or> r + s \<le> x" for x using that s(1) by (auto simp: m_def mem_set_def)
    have ok: "heap_ok h' (M(r \<mapsto> s))" unfolding h' by (rule write_ok [OF s(4) fun_upd_same mo])
    have kc: "contents_kept M g h'" unfolding contents_kept_def
    proof (intro allI impI)
      fix q' t i assume "M q' = Some t" "i < t"
      then have "r + s \<le> q' \<or> q' + t \<le> r" using s(3) by (auto simp: fresh_block_def)
      then show "hp_mem h' (q' + i) = hp_mem g (q' + i)" using mo [of "q' + i"] \<open>i < t\<close> by (auto simp: h')
    qed
    have "fresh_block M h' r s" using s(3) by (simp add: fresh_block_def h')
    then have "got_block M (n * sz) h h' r" unfolding got_block_def using s(1,2) nz ok by blast
    moreover have "hp_mem h' (r + i) = 0" if "i < n * sz" for i using that by (simp add: h' m_def mem_set_def)
    moreover have "world_same g h'" by (simp add: h' world_same_def heap_limit_def Let_def)
    ultimately show ?thesis using ma kc p nz world_trans contents_trans by (metis (no_types, lifting))
  qed
qed

section \<open>\<open>aligned_alloc\<close>\<close>

lemma pow2_masked: "(2 ^ j :: u32) AND (2 ^ j - 1) = 0"
  unfolding mask_eq_exp_minus_1 [symmetric] by (rule bit_word_eqI) (auto simp: bit_and_iff bit_exp_iff bit_mask_iff)

lemma dvd_8: "2 ^ j \<le> (8 :: nat) \<Longrightarrow> 2 ^ j dvd (8 :: nat)"
proof -
  assume "2 ^ j \<le> (8 :: nat)"
  then have "(2 :: nat) ^ j \<le> 2 ^ 3" by simp
  then have "j \<le> 3" by (simp only: power_increasing_iff)
  then show ?thesis using le_imp_power_dvd [of j 3 "2::nat"] by simp
qed

lemma want_bounds:
  assumes "A = 2 ^ j" "4 \<le> j" "A \<le> 2 ^ 30" "at < 2 ^ 30" "8 dvd at"
    "want = unat ((of_nat at + of_nat A - 1 :: u32) AND NOT (of_nat A - 1))"
  shows "A dvd want" "at \<le> want" "want < at + A" "8 dvd want - at" "8 dvd A"
proof -
  have A: "0 < A" "1 \<le> A" by (simp_all add: assms(1))
  have m: "(of_nat A :: u32) - 1 = mask j" by (simp add: assms(1) mask_eq_exp_minus_1)
  have "(of_nat at + of_nat A - 1 :: u32) = of_nat (at + A - 1)" using A(2) by (simp add: of_nat_diff)
  moreover have "at + A - 1 < U32" using assms(3,4) by simp
  ultimately have w: "want = (at + A - 1) div A * A" unfolding assms(6) m by (simp only: round_down_u32 assms(1))
  show d: "A dvd want" by (simp add: w)
  have "at + A - 1 = (at + A - 1) div A * A + (at + A - 1) mod A" "(at + A - 1) mod A < A" using A(1) by simp_all
  then show le: "at \<le> want" "want < at + A" unfolding w using A by linarith+
  have "(2::nat) ^ 3 dvd 2 ^ j" using assms(2) by (intro le_imp_power_dvd) simp
  then show "8 dvd A" by (simp add: assms(1))
  then have "8 dvd want" using d by (rule dvd_trans)
  then show "8 dvd want - at" using assms(5) by (rule dvd_diff_nat)
qed

lemma useds_cons: "useds a ((s, False) # ys) = insert (a, s) (useds (a + 8 + s) ys)"
  by simp

lemma cut_front_spec:
  assumes "heap_inv g (xs @ (s, False) # ys)" "b = hp_first g + span xs" "U = useds (hp_first g) xs \<union> useds (b + 8 + s) ys"
    "A = 2 ^ j" "4 \<le> j" "A \<le> 2 ^ 30" "8 \<le> n" "n + A + 16 \<le> s" "cut_front b A g = (k, c)"
  shows "\<exists>xs' s' ys'. heap_inv k (xs' @ (s', False) # ys') \<and> c = hp_first k + span xs' \<and> U = useds (hp_first k) xs' \<union> useds (c + 8 + s') ys' \<and>
    n \<le> s' \<and> A dvd c + 8 \<and> core k = core g \<and> same_on (pays U) g k"
proof -
  define at want where "at = b + 8" and "want = unat ((of_nat at + of_nat A - 1 :: u32) AND NOT (of_nat A - 1))"
  note i = inv_size [OF assms(1,2)]
  have at: "PAYLOAD b = at" "at < 2 ^ 30" "8 dvd at" using i(2,3,5,6) by (simp_all add: at_def)
  note w = want_bounds [OF assms(4-6) at(2,3) want_def]
  show ?thesis
  proof (cases "want = at")
    case True
    then have "k = g" "c = b" using assms(9) by (simp_all add: cut_front_def at(1) want_def [symmetric])
    then show ?thesis using assms(1-3,8) w(1) True by (intro exI [of _ xs], intro exI [of _ s], intro exI [of _ ys]) (simp add: at_def)
  next
    case False
    define want' front where "want' = (if want - at < 16 then want + A else want)" and "front = want' - at"
    have wl: "want + A < U32" "want < U32" using w(2,3) at(2) assms(6) by simp_all
    have ws: "sub32 want at = want - at" by (rule sub32_exact [OF w(2) wl(2)])
    have f: "16 \<le> front" "front \<le> A + 8" "8 dvd front" "want' = at + front" "A dvd want'"
    proof -
      obtain d where d: "want - at = 8 * d" using w(4) by (elim dvdE)
      have "d \<noteq> 0" using d False w(2) by auto
      moreover have A16: "16 \<le> A" using power_increasing [OF assms(5), of "2::nat"] by (simp add: assms(4))
      ultimately show "16 \<le> front" "front \<le> A + 8" using w(2,3) d by (auto simp: front_def want'_def)
      show "want' = at + front" using w(2) by (simp add: front_def want'_def)
      show "A dvd want'" using w(1) by (simp add: want'_def)
      have "front = (if want - at < 16 then (want - at) + A else want - at)" using w(2) by (simp add: front_def want'_def)
      then show "8 dvd front" using w(4,5) by simp
    qed
    define k0 r where "k0 = front - 8" and "r = b + 8 + k0"
    have k0: "8 dvd k0" "8 \<le> k0" "k0 + 16 \<le> s" "s - k0 - 8 = s - front" using f(1-3) assms(7,8) by (auto simp: k0_def)
    define h1 where "h1 = set_head r (of_nat (s - k0 - 8)) g"
    define h2 where "h2 = set_head b (of_nat k0 OR (head h1 b AND 2)) h1"
    note sp = split_used [OF assms(1,2) k0(1-3) r_def h1_def h2_def]
    have want'_lt: "want' < U32" using f(2,4) at(2) assms(6) by simp
    have ops: "(if sub32 want at < MIN_SPLIT then add32 want A else want) = want'" "sub32 want' at = front" "sub32 front HDR = k0" "OF want' = r"
      "sub32 (SIZE g b) front = s - k0 - 8"
    proof -
      show "(if sub32 want at < MIN_SPLIT then add32 want A else want) = want'" using ws wl by (simp add: want'_def heap_consts)
      show "sub32 want' at = front" using f(4) want'_lt by simp
      show "sub32 front HDR = k0" using f(1,4) want'_lt by (simp add: k0_def HDR_def)
      show "OF want' = r" using f(1,4) want'_lt by (simp add: OF_def r_def k0_def HDR_def at_def)
      show "sub32 (SIZE g b) front = s - k0 - 8" using i(1,5) k0(3,4) f(1) by simp
    qed
    have "cut_front b A g = (release b h2, r)"
      unfolding cut_front_def at(1) want_def [symmetric] Let_def ops heap_consts(3) h1_def [symmetric] h2_def [symmetric] using False by simp
    then have k: "k = release b h2" "c = r" using assms(9) by simp_all
    have f2: "hp_first h2 = hp_first g" using core_same(1) [OF sp(2)] .
    have b2: "b = hp_first h2 + span xs" by (simp add: f2 assms(2))
    obtain bs' where rl: "heap_inv k bs'" "useds (hp_first h2) bs' = useds (hp_first h2) xs \<union> useds (b + 8 + k0) ((s - k0 - 8, False) # ys)"
      "core k = core h2" "same_on (pays (useds (hp_first h2) bs')) h2 k"
      using release_loose [OF inv_loose [OF sp(1)] b2] unfolding k(1) by blast
    have fk: "hp_first k = hp_first g" using core_same(1) [OF rl(3)] f2 by simp
    have r8: "r + 8 + (s - k0 - 8) = b + 8 + s" using k0(3) by (simp add: r_def)
    have us: "useds (hp_first g) bs' = insert (r, s - k0 - 8) U" using rl(2) unfolding f2 useds_cons r_def [symmetric] r8 assms(3) by simp
    have "(r, s - k0 - 8) \<notin> U"
      using frees_bounds(2) [of r "s - k0 - 8" "hp_first g" xs] frees_bounds(2) [of r "s - k0 - 8" "b + 8 + s" ys] k0(3)
      by (auto simp: assms(2,3) r_def)
    then obtain xs' ys' where x': "bs' = xs' @ (s - k0 - 8, False) # ys'" "r = hp_first g + span xs'"
      "U = useds (hp_first g) xs' \<union> useds (r + 8 + (s - k0 - 8)) ys'" using used_place [OF us] by blast
    have "same_on (pays U) g h2" by (rule same_on_mono [OF sp(3)]) (use k0(3) in \<open>auto simp: pays_def assms(2,3) add.assoc\<close>)
    moreover have "same_on (pays U) h2 k" by (rule same_on_mono [OF rl(4)]) (auto simp: f2 us pays_def)
    ultimately have "same_on (pays U) g k" by (rule same_on_trans)
    moreover have "n \<le> s - k0 - 8" using f(1,2) assms(8) by (simp add: k0_def)
    moreover have "c + 8 = want'" using f(1,4) by (simp add: k(2) r_def k0_def at_def)
    moreover have "core k = core g" using rl(3) sp(2) by simp
    ultimately show ?thesis using rl(1) x' f(5) fk k(2)
      by (intro exI [of _ xs'], intro exI [of _ "s - k0 - 8"], intro exI [of _ ys']) simp
  qed
qed

lemma aligned_alloc_spec:
  assumes "heap_ok h M" "machine_ok h" "A < U32" "aligned_alloc A n h = (h', p)"
  shows "world_same h h' \<and> contents_kept M h h' \<and>
    (if p = 0 then heap_ok h' M \<and> (n = 0 \<or> hp_errno h' = (if \<exists>j. A = 2 ^ j then HEAP_ENOMEM else HEAP_EINVAL) )
     else (\<exists>j. A = 2 ^ j) \<and> A dvd p \<and> got_block M n h h' p)"
proof -
  note m1 = malloc_spec [OF assms(1,2)]
  show ?thesis
  proof (cases "\<exists>j. A = 2 ^ j")
    case False
    then have "A = 0 \<or> (of_nat A :: u32) AND (of_nat A - 1) \<noteq> 0" using pow2_u32 [OF _ _ assms(3)] by blast
    then have "h' = h\<lparr>hp_errno := HEAP_EINVAL\<rparr>" "p = 0" using assms(4) by (simp_all add: aligned_alloc_def)
    then show ?thesis using False assms(1) by simp
  next
    case True
    then obtain j where A: "A = 2 ^ j" ..
    have "(of_nat A :: u32) AND (of_nat A - 1) = 0" "A \<noteq> 0" using pow2_masked [of j] A by simp_all
    then have e: "aligned_alloc A n h =
      (if MAX_REQUEST < A then (h\<lparr>hp_errno := HEAP_ENOMEM\<rparr>, 0) else if A \<le> 8 then malloc n h else if n = 0 then (h, 0)
       else if MAX_REQUEST < n then (h\<lparr>hp_errno := HEAP_ENOMEM\<rparr>, 0)
       else case take_block (add32 (add32 (block_size n) A) MIN_SPLIT) h of (h, b) \<Rightarrow>
         if b = 0 then (h\<lparr>hp_errno := HEAP_ENOMEM\<rparr>, 0) else case cut_front b A h of (h, b) \<Rightarrow> (trim b (block_size n) h, PAYLOAD b))"
      by (simp add: aligned_alloc_def Let_def)
    consider "MAX_REQUEST < A \<or> 8 < A \<and> (n = 0 \<or> MAX_REQUEST < n)" | "A \<le> 8" | "8 < A" "A \<le> MAX_REQUEST" "0 < n" "n \<le> MAX_REQUEST" by linarith
    then show ?thesis
    proof cases
      case 1
      then have "(h', p) = (h\<lparr>hp_errno := HEAP_ENOMEM\<rparr>, 0) \<or> n = 0 \<and> (h', p) = (h, 0)" using assms(4) e by (auto split: if_splits simp: MAX_REQUEST_def)
      then show ?thesis using True assms(1) by auto
    next
      case 2
      then have m: "malloc n h = (h', p)" using assms(4) e by (simp add: MAX_REQUEST_def)
      have "A dvd 8" using 2 A dvd_8 [of j] by simp
      moreover have "8 dvd p" if "got_block M n h h' p" using that by (auto simp: got_block_def fresh_block_def)
      ultimately show ?thesis using m1 [OF m] True dvd_trans by (auto split: if_splits)
    next
      case 3
      have n: "0 < n" "n \<le> 2 ^ 30" and A30: "A \<le> 2 ^ 30" using 3 by (simp_all add: MAX_REQUEST_def)
      have j: "4 \<le> j"
      proof (rule ccontr)
        assume "\<not> 4 \<le> j"
        then have "(2::nat) ^ j \<le> 2 ^ 3" by (intro power_increasing) simp_all
        then show False using 3(1) A by simp
      qed
      note bs = block_size_bounds [OF n]
      define w where "w = block_size n + A + 16"
      have "8 dvd A" using le_imp_power_dvd [of 3 j "2::nat"] j by (simp add: A)
      then have w: "add32 (add32 (block_size n) A) MIN_SPLIT = w" "8 dvd w" "8 \<le> w" "w \<le> 2 ^ 31 + 64"
        using bs A30 by (simp_all add: w_def heap_consts add32_def)
      obtain g b where g: "take_block w h = (g, b)" by fastforce
      note tk = take_block_spec [OF assms(1,2) w(2-4) g]
      show ?thesis
      proof (cases "b = 0")
        case t: True
        then have "h' = g\<lparr>hp_errno := HEAP_ENOMEM\<rparr>" "p = 0" using assms(4) 3 g unfolding e w(1) by simp_all
        then show ?thesis using t tk True by simp
      next
        case nz: False
        then obtain xs s ys where x: "heap_inv g (xs @ (s, False) # ys)" "b = hp_first g + span xs" "w \<le> s"
          "blocks_of M = useds (hp_first g) xs \<union> useds (b + 8 + s) ys" using tk by auto
        obtain k c where kc: "cut_front b A g = (k, c)" by fastforce
        obtain xs' s' ys' where y: "heap_inv k (xs' @ (s', False) # ys')" "c = hp_first k + span xs'"
          "blocks_of M = useds (hp_first k) xs' \<union> useds (c + 8 + s') ys'" "block_size n \<le> s'" "A dvd c + 8" "core k = core g"
          "same_on (pays (blocks_of M)) g k"
          using cut_front_spec [OF x(1,2,4) A j A30 bs(2) x(3) [unfolded w_def] kc] by blast
        have m: "h' = trim c (block_size n) k" "p = PAYLOAD c" using assms(4) 3 g nz kc unfolding e w(1) by simp_all
        have dom: "\<forall>q \<in> dom M. 8 \<le> q" using assms(1) by (simp add: heap_ok_def)
        note f = finish_block [OF y(1-3) dom bs(1,2) y(4) m(1)]
        obtain t where t: "block_size n \<le> t" "t < block_size n + 16" "fresh_block M h' (c + 8) t" "heap_ok h' (M(c + 8 \<mapsto> t))" "contents_kept M k h'"
          using f(1) by blast
        have "world_same h h'" using world_trans [OF world_trans [OF _ core_world [OF y(6)]] core_world [OF f(2)]] tk by blast
        moreover have "contents_kept M h h'" using contents_trans [OF contents_trans [OF _ contents_same_on [OF y(7) dom]] t(5)] tk by blast
        moreover have "got_block M n h h' p" unfolding got_block_def m(2) f(3) using t bs(3,5) by (auto intro!: exI [of _ t])
        ultimately show ?thesis using True m(2) f(3) y(5) by simp
      qed
    qed
  qed
qed

end
