(* ===== verification/Malloc_Check.thy ===== *)
theory Malloc_Check
  imports Malloc_Aligned
begin

text \<open>
  The inspection functions: \<open>heap_stats\<close> and what rests on it, and \<open>heap_check\<close>. Their loops follow the headers and links they find, so they are
  partial functions; on a heap that satisfies the invariant they end, count exactly the blocks there are and report nothing.
\<close>

section \<open>Definitions\<close>

record heap_stats =
  st_start :: nat
  st_brk :: nat
  st_limit :: nat
  st_used :: nat
  st_free_bytes :: nat
  st_blocks :: nat
  st_free_blocks :: nat
  st_largest_free :: nat

definition stats_block :: "heap \<Rightarrow> nat \<Rightarrow> heap_stats \<Rightarrow> heap_stats" where
  "stats_block h b st =
     (let st = st\<lparr>st_blocks := st_blocks st + 1\<rparr>
      in if head h b AND B_FREE \<noteq> 0 then
           let st = st\<lparr>st_free_bytes := add32 (st_free_bytes st) (SIZE h b), st_free_blocks := st_free_blocks st + 1\<rparr>
           in if st_largest_free st < SIZE h b then st\<lparr>st_largest_free := SIZE h b\<rparr> else st
         else st\<lparr>st_used := add32 (st_used st) (SIZE h b)\<rparr>)"

partial_function (option) stats_walk :: "heap \<Rightarrow> nat \<Rightarrow> heap_stats \<Rightarrow> heap_stats option" where
  "stats_walk h b st = (if b = hp_epilogue h then Some st else stats_walk h (NEXT_PHYS h b) (stats_block h b st))"

definition heap_stats_of :: "heap \<Rightarrow> heap_stats option" where
  "heap_stats_of h =
     (let start = (if hp_first h \<noteq> 0 then hp_first h else ALIGN8 (hp_start h));
          st = \<lparr>st_start = start, st_brk = (if hp_first h \<noteq> 0 then heap_brk h else start), st_limit = heap_limit h, st_used = 0,
                st_free_bytes = 0, st_blocks = 0, st_free_blocks = 0, st_largest_free = 0\<rparr>
      in if hp_first h = 0 then Some st else stats_walk h (hp_first h) st)"

definition heap_used :: "heap \<Rightarrow> nat option" where
  "heap_used h = map_option st_used (heap_stats_of h)"

definition heap_free :: "heap \<Rightarrow> nat option" where
  "heap_free h = map_option st_free_bytes (heap_stats_of h)"

definition heap_blocks :: "heap \<Rightarrow> nat option" where
  "heap_blocks h = map_option st_blocks (heap_stats_of h)"

text \<open>\<open>heap_check\<close>: \<open>Inl\<close> is the address of the first block that breaks a rule.\<close>

partial_function (option) check_blocks :: "heap \<Rightarrow> nat \<Rightarrow> bool \<Rightarrow> nat \<Rightarrow> (nat + bool \<times> nat) option" where
  "check_blocks h b was_free n =
     (let low = hp_first h; high = hp_epilogue h
      in if b = high then Some (Inr (was_free, n))
         else if b < low \<or> high < b \<or> b mod 8 \<noteq> 0 \<or> SIZE h b < MIN_PAYLOAD \<or> head h b AND 4 \<noteq> 0 then Some (Inl b)
         else if sub32 (sub32 high b) HDR < SIZE h b then Some (Inl b)
         else if (head h b AND B_PREV_FREE \<noteq> 0) \<noteq> was_free then Some (Inl b)
         else let is_free = head h b AND B_FREE \<noteq> 0
           in if is_free \<and> was_free then Some (Inl b)
              else let nxt = NEXT_PHYS h b
                in if is_free \<and> prev_size h nxt \<noteq> SIZE h b then Some (Inl b)
                   else check_blocks h nxt is_free (if is_free then n + 1 else n))"

partial_function (option) check_list :: "heap \<Rightarrow> nat \<Rightarrow> nat \<Rightarrow> nat \<Rightarrow> nat \<Rightarrow> nat \<Rightarrow> (nat + nat) option" where
  "check_list h i free_blocks f before seen =
     (if f = 0 then Some (Inr seen)
      else if f < hp_first h \<or> hp_epilogue h \<le> f \<or> head h f AND B_FREE = 0 \<or> prev_free h f \<noteq> before \<or> bin_of (SIZE h f) \<noteq> i \<or>
          free_blocks < seen + 1 then Some (Inl f)
      else check_list h i free_blocks (next_free h f) f (seen + 1))"

primrec check_sls :: "heap \<Rightarrow> nat \<Rightarrow> nat \<Rightarrow> nat list \<Rightarrow> nat \<Rightarrow> (nat + nat) option" where
  "check_sls h free_blocks fl [] seen = Some (Inr seen)"
| "check_sls h free_blocks fl (sl # sls) seen =
     (let hd = hp_bins h (fl * SL_COUNT + sl); has = (hp_sl_map h fl AND push_bit sl 1 \<noteq> 0)
      in if (hd \<noteq> 0) \<noteq> has \<or> (has \<and> hp_fl_map h AND push_bit fl 1 = 0) then Some (Inl (if hd \<noteq> 0 then hd else hp_epilogue h))
         else case check_list h (fl * SL_COUNT + sl) free_blocks hd 0 seen of
             None \<Rightarrow> None
           | Some (Inl e) \<Rightarrow> Some (Inl e)
           | Some (Inr seen) \<Rightarrow> check_sls h free_blocks fl sls seen)"

primrec check_fls :: "heap \<Rightarrow> nat \<Rightarrow> nat list \<Rightarrow> nat \<Rightarrow> (nat + nat) option" where
  "check_fls h free_blocks [] seen = Some (Inr seen)"
| "check_fls h free_blocks (fl # fls) seen =
     (case check_sls h free_blocks fl [0..<SL_COUNT] seen of
        None \<Rightarrow> None
      | Some (Inl e) \<Rightarrow> Some (Inl e)
      | Some (Inr seen) \<Rightarrow>
          if hp_sl_map h fl = 0 \<and> hp_fl_map h AND push_bit fl 1 \<noteq> 0 then Some (Inl (hp_epilogue h)) else check_fls h free_blocks fls seen)"

definition heap_check :: "heap \<Rightarrow> nat option" where
  "heap_check h =
     (if hp_first h = 0 then Some 0
      else case check_blocks h (hp_first h) False 0 of
          None \<Rightarrow> None
        | Some (Inl b) \<Rightarrow> Some b
        | Some (Inr (was_free, free_blocks)) \<Rightarrow>
            if (head h (hp_epilogue h) AND B_PREV_FREE \<noteq> 0) \<noteq> was_free \<or> SIZE h (hp_epilogue h) \<noteq> 0 then Some (hp_epilogue h)
            else case check_fls h free_blocks [0..<FL_COUNT] 0 of
                None \<Rightarrow> None
              | Some (Inl e) \<Rightarrow> Some e
              | Some (Inr seen) \<Rightarrow> Some (if seen \<noteq> free_blocks then hp_epilogue h else 0))"

section \<open>The walk over the blocks\<close>

definition nfree :: "tiling \<Rightarrow> nat" where
  "nfree bs = length (filter snd bs)"

lemma nfree_simps [simp]: "nfree [] = 0" "nfree ((s, f) # bs) = (if f then 1 else 0) + nfree bs"
  by (simp_all add: nfree_def)

lemma tile_head:
  assumes "tiles h a pf ps ((s, f) # bs)" "wfs ((s, f) # bs)" "a + span ((s, f) # bs) \<le> 2 ^ 30"
  shows "SIZE h a = s" "NEXT_PHYS h a = a + 8 + s" "head h a AND 1 \<noteq> 0 \<longleftrightarrow> f" "head h a AND 2 \<noteq> 0 \<longleftrightarrow> pf" "head h a AND 4 = 0"
    "f \<Longrightarrow> prev_size h (a + 8 + s) = s" "8 dvd s" "8 \<le> s" "\<not> (f \<and> pf)" "tiles h (a + 8 + s) f s bs"
proof -
  have hd: "head h a = hd_word s f pf" using assms(1) by (simp add: hdr_def)
  show s: "8 dvd s" "8 \<le> s" using assms(2) by simp_all
  have lt: "s < U32" using assms(3) by simp
  show sz: "SIZE h a = s" by (rule size_of_head [OF hd s(1) lt])
  show "NEXT_PHYS h a = a + 8 + s" using assms(3) by (simp add: NEXT_PHYS_def PAYLOAD_def HDR_def sz)
  show "head h a AND 1 \<noteq> 0 \<longleftrightarrow> f" "head h a AND 2 \<noteq> 0 \<longleftrightarrow> pf" unfolding hd by (rule hd_word_flags [OF s(1)])+
  have "\<not> bit (hd_word s f pf) 2" using s(1) bit_low_8 [OF s(1), of 2] by (simp add: bit_hd_word)
  then show "head h a AND 4 = 0" unfolding hd using bit_iff_and_push_bit_not_eq_0 [of "hd_word s f pf" 2] by simp
  show t: "tiles h (a + 8 + s) f s bs" "\<not> (f \<and> pf)" using assms(1) by simp_all
  show "f \<Longrightarrow> prev_size h (a + 8 + s) = s" using tiles_first [OF t(1)] by simp
qed

lemma check_blocks_ok:
  "\<lbrakk>tiles h a pf ps bs; wfs bs; 8 dvd a; hp_first h \<le> a; hp_epilogue h = a + span bs; a + span bs \<le> 2 ^ 30\<rbrakk> \<Longrightarrow>
    check_blocks h a pf n = Some (Inr (lastf pf bs, n + nfree bs))"
proof (induction bs arbitrary: a pf ps n)
  case Nil
  then show ?case by (subst check_blocks.simps) simp
next
  case (Cons p bs)
  obtain s f where p: "p = (s, f)" by fastforce
  note t = tile_head [OF Cons.prems(1,2,6) [unfolded p]]
  have e: "hp_epilogue h = a + 8 + s + span bs" using Cons.prems(5) p by simp
  have lt: "a + 8 + s + span bs < U32" using Cons.prems(6) p by simp
  have "sub32 (sub32 (hp_epilogue h) a) 8 = s + span bs" using e lt by simp
  moreover have "a mod 8 = 0" using Cons.prems(3) by auto
  moreover have "check_blocks h (a + 8 + s) f (if f then n + 1 else n) = Some (Inr (lastf f bs, (if f then n + 1 else n) + nfree bs))"
    by (rule Cons.IH [OF t(10)]) (use Cons.prems t(7) p e in auto)
  ultimately show ?case
    using t Cons.prems(4) e p by (subst check_blocks.simps) (auto simp: Let_def heap_consts)
qed

lemma finite_frees [simp]: "finite (frees a bs)" "finite (useds a bs)"
  by (induction bs arbitrary: a) auto

lemma stats_walk_ok:
  "\<lbrakk>tiles h a pf ps bs; wfs bs; hp_epilogue h = a + span bs; a + span bs \<le> 2 ^ 30; st_used st + st_free_bytes st \<le> a\<rbrakk> \<Longrightarrow>
    \<exists>st'. stats_walk h a st = Some st' \<and> st_used st' = st_used st + (\<Sum>(x, s) \<in> useds a bs. s) \<and>
      st_free_bytes st' = st_free_bytes st + (\<Sum>(x, s) \<in> frees a bs. s) \<and> st_blocks st' = st_blocks st + card (useds a bs) + card (frees a bs) \<and>
      st_free_blocks st' = st_free_blocks st + card (frees a bs) \<and>
      st_start st' = st_start st \<and> st_brk st' = st_brk st \<and> st_limit st' = st_limit st"
proof (induction bs arbitrary: a pf ps st)
  case Nil
  then show ?case by (subst stats_walk.simps) simp
next
  case (Cons p bs)
  obtain s f where p: "p = (s, f)" by fastforce
  note t = tile_head [OF Cons.prems(1,2,4) [unfolded p]]
  have e: "hp_epilogue h = a + 8 + s + span bs" "a \<noteq> hp_epilogue h" using Cons.prems(3) p by simp_all
  have lt: "st_used st + s < U32" "st_free_bytes st + s < U32" using Cons.prems(4,5) p by simp_all
  define st1 where "st1 = stats_block h a st"
  have st1: "st_used st1 = st_used st + (if f then 0 else s)" "st_free_bytes st1 = st_free_bytes st + (if f then s else 0)"
    "st_blocks st1 = st_blocks st + 1" "st_free_blocks st1 = st_free_blocks st + (if f then 1 else 0)"
    "st_start st1 = st_start st" "st_brk st1 = st_brk st" "st_limit st1 = st_limit st"
    using lt t(1,3) by (auto simp: st1_def stats_block_def Let_def B_FREE_def)
  have nin: "(a, s) \<notin> useds (a + 8 + s) bs" "(a, s) \<notin> frees (a + 8 + s) bs"
    using frees_bounds [of a s "a + 8 + s" bs] by auto
  have pr: "wfs bs" "hp_epilogue h = a + 8 + s + span bs" "a + 8 + s + span bs \<le> 2 ^ 30" "st_used st1 + st_free_bytes st1 \<le> a + 8 + s"
    using Cons.prems(2,4,5) e p by (simp_all add: st1)
  obtain st' where "stats_walk h (a + 8 + s) st1 = Some st'" and
    st': "st_used st' = st_used st1 + (\<Sum>(x, s) \<in> useds (a + 8 + s) bs. s)"
      "st_free_bytes st' = st_free_bytes st1 + (\<Sum>(x, s) \<in> frees (a + 8 + s) bs. s)"
      "st_blocks st' = st_blocks st1 + card (useds (a + 8 + s) bs) + card (frees (a + 8 + s) bs)"
      "st_free_blocks st' = st_free_blocks st1 + card (frees (a + 8 + s) bs)"
      "st_start st' = st_start st1" "st_brk st' = st_brk st1" "st_limit st' = st_limit st1"
    using Cons.IH [OF t(10) pr] by blast
  then have "stats_walk h a st = Some st'" using e(2) by (subst stats_walk.simps) (simp add: t(2) st1_def)
  then show ?case using st' st1 nin by (intro exI [of _ st']) (simp add: p)
qed

section \<open>The walk over the lists\<close>

lemma check_list_ok:
  "\<lbrakk>dseg h before as f q 0; \<forall>a \<in> set as. hp_first h \<le> a \<and> a < hp_epilogue h \<and> head h a AND 1 \<noteq> 0 \<and> bin_of (SIZE h a) = i;
    seen + length as \<le> n\<rbrakk> \<Longrightarrow> check_list h i n f before seen = Some (Inr (seen + length as))"
proof (induction as arbitrary: before f seen)
  case Nil
  then show ?case by (subst check_list.simps) simp
next
  case (Cons a as)
  have "check_list h i n (next_free h a) a (seen + 1) = Some (Inr (seen + 1 + length as))"
    by (rule Cons.IH) (use Cons.prems in auto)
  then show ?case using Cons.prems by (subst check_list.simps) (auto simp: B_FREE_def)
qed

text \<open>What the walk finds list by list: \<open>L i\<close> is list \<open>i\<close>.\<close>

definition listing :: "heap \<Rightarrow> (nat \<Rightarrow> nat list) \<Rightarrow> bool" where
  "listing h L \<longleftrightarrow> (\<forall>i. (\<exists>q. dseg h 0 (L i) (hp_bins h i) q 0) \<and>
     (\<forall>a \<in> set (L i). hp_first h \<le> a \<and> a < hp_epilogue h \<and> head h a AND 1 \<noteq> 0 \<and> bin_of (SIZE h a) = i))"

lemma check_sls_ok:
  assumes "maps_ok h" "listing h L"
  shows "\<lbrakk>\<forall>sl \<in> set sls. sl < 8; seen + (\<Sum>sl\<leftarrow>sls. length (L (fl * 8 + sl))) \<le> n\<rbrakk> \<Longrightarrow>
    check_sls h n fl sls seen = Some (Inr (seen + (\<Sum>sl\<leftarrow>sls. length (L (fl * 8 + sl)))))"
proof (induction sls arbitrary: seen)
  case (Cons sl sls)
  obtain q where d: "dseg h 0 (L (fl * 8 + sl)) (hp_bins h (fl * 8 + sl)) q 0"
    "\<forall>a \<in> set (L (fl * 8 + sl)). hp_first h \<le> a \<and> a < hp_epilogue h \<and> head h a AND 1 \<noteq> 0 \<and> bin_of (SIZE h a) = fl * 8 + sl"
    using assms(2) unfolding listing_def by blast
  have dm: "(fl * 8 + sl) div 8 = fl" "(fl * 8 + sl) mod 8 = sl" using Cons.prems(1) by simp_all
  have m: "bit (hp_sl_map h fl) sl \<longleftrightarrow> hp_bins h (fl * 8 + sl) \<noteq> 0" "bit (hp_fl_map h) fl \<longleftrightarrow> hp_sl_map h fl \<noteq> 0"
    using assms(1) unfolding maps_ok_def by (metis dm, blast)
  have b: "hp_sl_map h fl AND push_bit sl 1 \<noteq> 0 \<longleftrightarrow> bit (hp_sl_map h fl) sl" "hp_fl_map h AND push_bit fl 1 \<noteq> 0 \<longleftrightarrow> bit (hp_fl_map h) fl"
    by (simp_all only: bit_iff_and_push_bit_not_eq_0)
  have z: "bit (hp_sl_map h fl) sl \<Longrightarrow> hp_sl_map h fl \<noteq> 0" by auto
  have cl: "check_list h (fl * 8 + sl) n (hp_bins h (fl * 8 + sl)) 0 seen = Some (Inr (seen + length (L (fl * 8 + sl))))"
    by (rule check_list_ok [OF d]) (use Cons.prems(2) in simp)
  have ih: "check_sls h n fl sls (seen + length (L (fl * 8 + sl))) =
    Some (Inr (seen + length (L (fl * 8 + sl)) + (\<Sum>sl\<leftarrow>sls. length (L (fl * 8 + sl)))))"
    by (rule Cons.IH) (use Cons.prems in auto)
  have c: "((hp_bins h (fl * 8 + sl) \<noteq> 0) \<noteq> (hp_sl_map h fl AND push_bit sl 1 \<noteq> 0) \<or>
    (hp_sl_map h fl AND push_bit sl 1 \<noteq> 0 \<and> hp_fl_map h AND push_bit fl 1 = 0)) = False"
    using m b z by blast
  show ?case unfolding check_sls.simps Let_def SL_COUNT_def c if_False cl by (simp add: ih add.assoc)
qed simp

lemma check_fls_ok:
  assumes "maps_ok h" "listing h L"
  shows "seen + (\<Sum>fl\<leftarrow>fls. \<Sum>sl\<leftarrow>[0..<8]. length (L (fl * 8 + sl))) \<le> n \<Longrightarrow>
    check_fls h n fls seen = Some (Inr (seen + (\<Sum>fl\<leftarrow>fls. \<Sum>sl\<leftarrow>[0..<8]. length (L (fl * 8 + sl)))))"
proof (induction fls arbitrary: seen)
  case (Cons fl fls)
  let ?g = "\<Sum>sl\<leftarrow>[0..<8]. length (L (fl * 8 + sl))"
  have s: "check_sls h n fl [0..<8] seen = Some (Inr (seen + ?g))"
    by (rule check_sls_ok [OF assms]) (use Cons.prems in auto)
  have ih: "check_fls h n fls (seen + ?g) = Some (Inr (seen + ?g + (\<Sum>fl\<leftarrow>fls. \<Sum>sl\<leftarrow>[0..<8]. length (L (fl * 8 + sl)))))"
    by (rule Cons.IH) (use Cons.prems in \<open>simp add: add.assoc\<close>)
  have "\<not> (hp_sl_map h fl = 0 \<and> hp_fl_map h AND push_bit fl 1 \<noteq> 0)"
    using assms(1) unfolding maps_ok_def bit_iff_and_push_bit_not_eq_0 [symmetric] by blast
  then show ?case using s ih by (simp only: check_fls.simps SL_COUNT_def option.case sum.case if_False list.map sum_list.Cons) (simp add: add.assoc)
qed simp

lemma sum_groups: "(\<Sum>fl\<leftarrow>[0..<26]. \<Sum>sl\<leftarrow>[0..<8]. g (fl * 8 + sl)) = (\<Sum>i<208::nat. g i :: nat)"
proof -
  have "(\<Sum>sl\<leftarrow>[0..<8]. g (fl * 8 + sl)) = sum g {fl * 8..<fl * 8 + 8}" for fl :: nat
    by (simp add: interv_sum_list_conv_sum_set_nat atLeast0LessThan sum.shift_bounds_nat_ivl [of g 0 "fl * 8" 8, simplified] add.commute flip: atLeast0LessThan)
  then show ?thesis using sum.nat_group [of g 8 26] by (simp add: interv_sum_list_conv_sum_set_nat atLeast0LessThan)
qed

lemma card_frees: "card (frees a bs) = nfree bs"
proof (induction bs arbitrary: a)
  case (Cons p bs)
  obtain s f where p: "p = (s, f)" by fastforce
  have "(a, s) \<notin> frees (a + 8 + s) bs" using frees_bounds(1) [of a s "a + 8 + s" bs] by auto
  then show ?case using Cons p by simp
qed simp

lemma listed_card:
  assumes "sane F" "finite F" "\<And>i. distinct (L i)" "\<And>i. set (L i) = members F i"
  shows "(\<Sum>i<208. length (L i)) = card F"
proof -
  have "(\<Sum>i<208. length (L i)) = (\<Sum>i<208. card (members F i))" by (simp add: assms(3) distinct_card flip: assms(4))
  also have "\<dots> = card (\<Union>i<208. members F i)"
    by (rule card_UN_disjoint [symmetric]) (use sane_disjoint [OF assms(1)] in \<open>auto simp flip: assms(4)\<close>)
  also have "(\<Union>i<208. members F i) = fst ` F"
  proof -
    have b: "bin_of s < 208" if "(a, s) \<in> F" for a s using that assms(1) by (intro bin_of_less) (auto simp: sane_def)
    show ?thesis
    proof (intro subset_antisym subsetI)
      fix a assume "a \<in> fst ` F"
      then obtain s where s: "(a, s) \<in> F" by auto
      then show "a \<in> (\<Union>i<208. members F i)" using b [OF s] by (intro UN_I [of "bin_of s"]) (auto simp: members_def)
    next
      fix a assume "a \<in> (\<Union>i<208. members F i)"
      then show "a \<in> fst ` F" by (force simp: members_def)
    qed
  qed
  also have "card (fst ` F) = card F" by (rule card_image) (use assms(1) in \<open>force simp: inj_on_def sane_def\<close>)
  finally show ?thesis .
qed

section \<open>Inspecting a good heap\<close>

lemma heap_check_inv:
  assumes "heap_inv h bs"
  shows "heap_check h = Some 0"
proof -
  define a where "a = hp_first h"
  have l: "a \<noteq> 0" "8 dvd a" "wfs bs" "tiles h a False 0 bs" "hp_epilogue h = a + span bs" "hp_epilogue h + 8 \<le> 2 ^ 30" "lists_ok h (frees a bs)" "maps_ok h"
    using assms by (simp_all add: heap_inv_def a_def)
  have cb: "check_blocks h a False 0 = Some (Inr (lastf False bs, nfree bs))"
    using check_blocks_ok [OF l(4,3,2) _ l(5), of 0] l(5,6) by (simp add: a_def)
  obtain L where L: "\<And>i. distinct (L i)" "\<And>i. set (L i) = members (frees a bs) i" "\<And>i. \<exists>q. dseg h 0 (L i) (hp_bins h i) q 0"
    using l(7) unfolding lists_ok_def by blast
  have sn: "sane (frees a bs)" by (rule frees_sane [OF l(3,2,1)]) (use l(5,6) in simp)
  have lst: "listing h L" unfolding listing_def
  proof (intro allI conjI ballI L(3))
    fix i x assume "x \<in> set (L i)"
    then obtain s where s: "(x, s) \<in> frees a bs" "bin_of s = i" by (auto simp: L(2) members_def)
    have b: "(x, s, True) \<in> blocks a bs" using s(1) by (simp add: frees_def)
    then obtain xs ys where x: "bs = xs @ (s, True) # ys" "x = a + span xs" using block_split by blast
    have "head h x = hd_word s True (lastf False xs)" using l(4) x by (simp add: hdr_def)
    moreover have "8 dvd s" using l(3) x by simp
    moreover have bd: "a \<le> x" "x + 8 + s \<le> a + span bs" using blocks_bounds [OF b] by auto
    moreover have "s < U32" using bd l(5,6) by simp
    ultimately show "hp_first h \<le> x" "x < hp_epilogue h" "head h x AND 1 \<noteq> 0" "bin_of (SIZE h x) = i"
      using size_of_head hd_word_flags(1) s(2) l(5) by (simp_all add: a_def [symmetric])
  qed
  have "(\<Sum>fl\<leftarrow>[0..<26]. \<Sum>sl\<leftarrow>[0..<8]. length (L (fl * 8 + sl))) = nfree bs"
    unfolding sum_groups [of "\<lambda>i. length (L i)"] listed_card [OF sn finite_frees(1) L(1,2)] by (rule card_frees)
  then have cf: "check_fls h (nfree bs) [0..<26] 0 = Some (Inr (nfree bs))"
    using check_fls_ok [OF l(8) lst, of 0 "[0..<26]" "nfree bs"] by (simp del: upt_Suc)
  have e: "head h (hp_epilogue h) AND 2 \<noteq> 0 \<longleftrightarrow> lastf False bs" "head h (hp_epilogue h) = hd_word 0 False (lastf False bs)"
    using inv_end(1,2) [OF assms refl] by auto
  then have "SIZE h (hp_epilogue h) = 0" by (intro size_of_head) auto
  then show ?thesis using cb cf e(1) l(1) by (simp add: heap_check_def a_def B_PREV_FREE_def FL_COUNT_def)
qed

lemma heap_check_ok: "heap_ok h M \<Longrightarrow> heap_check h = Some 0"
  by (cases "hp_first h = 0") (simp add: heap_check_def, blast dest: heap_ok_started heap_check_inv)

lemma blocks_of_sum:
  assumes "\<forall>p \<in> dom M. 8 \<le> p"
  shows "(\<Sum>(x, s) \<in> blocks_of M. s) = (\<Sum>p \<in> dom M. the (M p))" "card (blocks_of M) = card (dom M)"
proof -
  have b: "bij_betw (\<lambda>p. (p - 8, the (M p))) (dom M) (blocks_of M)"
  proof (rule bij_betwI')
    fix p q assume "p \<in> dom M" "q \<in> dom M"
    then have "8 \<le> p" "8 \<le> q" using assms by auto
    then show "((p - 8, the (M p)) = (q - 8, the (M q))) = (p = q)" by auto
  next
    fix p assume p: "p \<in> dom M"
    then have "8 \<le> p" using assms by auto
    then show "(p - 8, the (M p)) \<in> blocks_of M" using p by (auto simp: blocks_of_def)
  next
    fix y assume "y \<in> blocks_of M"
    then show "\<exists>p \<in> dom M. y = (p - 8, the (M p))" by (auto simp: blocks_of_def intro!: bexI [of _ "fst y + 8"])
  qed
  show "card (blocks_of M) = card (dom M)" using bij_betw_same_card [OF b] by simp
  show "(\<Sum>(x, s) \<in> blocks_of M. s) = (\<Sum>p \<in> dom M. the (M p))" using sum.reindex_bij_betw [OF b, of snd] by (simp add: case_prod_unfold)
qed

text \<open>The counts are those of the map of the live blocks.\<close>

lemma heap_stats_ok:
  assumes "heap_ok h M"
  shows "\<exists>st. heap_stats_of h = Some st \<and> st_used st = (\<Sum>p \<in> dom M. the (M p)) \<and> st_blocks st = card (dom M) + st_free_blocks st \<and>
    st_limit st = heap_limit h"
proof (cases "hp_first h = 0")
  case True
  then have "M = Map.empty" using assms by (auto simp: heap_ok_def heap_inv_def)
  then show ?thesis using True by (simp add: heap_stats_of_def Let_def)
next
  case False
  obtain bs where bs: "heap_inv h bs" "useds (hp_first h) bs = blocks_of M" using heap_ok_started [OF assms False] by blast
  have l: "wfs bs" "tiles h (hp_first h) False 0 bs" "hp_epilogue h = hp_first h + span bs" "hp_first h + span bs \<le> 2 ^ 30"
    using bs(1) by (simp_all add: heap_inv_def)
  define st where "st = \<lparr>st_start = hp_first h, st_brk = heap_brk h, st_limit = heap_limit h, st_used = 0, st_free_bytes = 0, st_blocks = 0,
    st_free_blocks = 0, st_largest_free = 0\<rparr>"
  have e: "heap_stats_of h = stats_walk h (hp_first h) st" using False by (simp add: heap_stats_of_def Let_def st_def)
  have dom: "\<forall>p \<in> dom M. 8 \<le> p" using assms by (simp add: heap_ok_def)
  have "st_used st + st_free_bytes st \<le> hp_first h" by (simp add: st_def)
  from stats_walk_ok [OF l(2,1,3,4) this]
  obtain st' where "stats_walk h (hp_first h) st = Some st'" "st_used st' = (\<Sum>(x, s) \<in> blocks_of M. s)"
    "st_blocks st' = card (blocks_of M) + card (frees (hp_first h) bs)" "st_free_blocks st' = card (frees (hp_first h) bs)" "st_limit st' = heap_limit h"
    by (auto simp: bs(2)) (auto simp: st_def)
  then show ?thesis unfolding e blocks_of_sum [OF dom] by (intro exI [of _ st']) simp
qed

end
