(* ===== verification/Allocator.thy ===== *)
theory Allocator
  imports Malloc_Check
begin

text \<open>
  What a program may rely on: the blocks it holds are arrays of bytes that nobody else touches. The contract of an allocator is a locale, the calls of
  \<open>src/malloc.c\<close> are instances of it, and every heap a program can reach by calling them and writing into its blocks keeps the contract.
\<close>

section \<open>The contract\<close>

text \<open>The arrays a program holds, by their pointers.\<close>

type_synonym arrays = "nat \<Rightarrow> u8 list option"

definition lens :: "arrays \<Rightarrow> store" where
  "lens A = (\<lambda>p. map_option length (A p))"

definition holds :: "('h \<Rightarrow> store \<Rightarrow> bool) \<Rightarrow> ('h \<Rightarrow> nat \<Rightarrow> u8) \<Rightarrow> 'h \<Rightarrow> arrays \<Rightarrow> bool" where
  "holds good byte h A \<longleftrightarrow> good h (lens A) \<and> (\<forall>p bs i. A p = Some bs \<longrightarrow> i < length bs \<longrightarrow> byte h (p + i) = bs ! i)"

definition array_at :: "('h \<Rightarrow> nat \<Rightarrow> u8) \<Rightarrow> 'h \<Rightarrow> nat \<Rightarrow> nat \<Rightarrow> u8 list" where
  "array_at byte h p s = map (\<lambda>i. byte h (p + i)) [0..<s]"

lemma length_array_at [simp]: "length (array_at byte h p s) = s"
  by (simp add: array_at_def)

lemma lens_simps [simp]: "lens (A(p \<mapsto> bs)) = (lens A)(p \<mapsto> length bs)" "lens (A(p := None)) = (lens A)(p := None)" "lens Map.empty = Map.empty"
  by (auto simp: lens_def)

lemma lens_eq: "lens A p = Some s \<longleftrightarrow> (\<exists>bs. A p = Some bs \<and> length bs = s)" "lens A p = None \<longleftrightarrow> A p = None"
  by (auto simp: lens_def)

definition kept :: "('h \<Rightarrow> nat \<Rightarrow> u8) \<Rightarrow> store \<Rightarrow> 'h \<Rightarrow> 'h \<Rightarrow> bool" where
  "kept byte M h h' \<longleftrightarrow> (\<forall>q s i. M q = Some s \<longrightarrow> i < s \<longrightarrow> byte h' (q + i) = byte h (q + i))"

locale allocator =
  fixes good :: "'h \<Rightarrow> store \<Rightarrow> bool" and byte :: "'h \<Rightarrow> nat \<Rightarrow> u8" and alloc :: "nat \<Rightarrow> 'h \<Rightarrow> 'h \<times> nat"
    and dealloc :: "nat \<Rightarrow> 'h \<Rightarrow> 'h" and poke :: "nat \<Rightarrow> u8 \<Rightarrow> 'h \<Rightarrow> 'h"
  assumes alloc_good: "good h M \<Longrightarrow> alloc n h = (h', p) \<Longrightarrow>
      kept byte M h h' \<and> (if p = 0 then good h' M else M p = None \<and> (\<exists>s \<ge> n. good h' (M(p \<mapsto> s))))"
    and dealloc_good: "good h M \<Longrightarrow> M p = Some s \<Longrightarrow> good (dealloc p h) (M(p := None)) \<and> kept byte (M(p := None)) h (dealloc p h)"
    and poke_good: "good h M \<Longrightarrow> M p = Some s \<Longrightarrow> i < s \<Longrightarrow> good (poke (p + i) v h) M"
    and poke_byte: "byte (poke a v h) x = (if x = a then v else byte h x)"
    and apart: "good h M \<Longrightarrow> M p = Some s \<Longrightarrow> M q = Some t \<Longrightarrow> p \<noteq> q \<Longrightarrow> p + s \<le> q \<or> q + t \<le> p"
begin

lemma holds_kept:
  assumes "holds good byte h A" "kept byte (lens A) h h'" "good h' (lens A)"
  shows "holds good byte h' A"
  using assms by (auto simp: holds_def kept_def lens_eq)

lemma holds_add:
  assumes "holds good byte h A" "kept byte (lens A) h h'" "A p = None" "good h' ((lens A)(p \<mapsto> s))"
  shows "holds good byte h' (A(p \<mapsto> array_at byte h' p s))"
  using assms by (auto simp: holds_def kept_def lens_eq array_at_def)

lemma alloc_holds:
  assumes "holds good byte h A" "alloc n h = (h', p)"
  shows "if p = 0 then holds good byte h' A else A p = None \<and> (\<exists>s \<ge> n. holds good byte h' (A(p \<mapsto> array_at byte h' p s)))"
proof -
  have "good h (lens A)" using assms(1) by (simp add: holds_def)
  note a = alloc_good [OF this assms(2)]
  show ?thesis
  proof (cases "p = 0")
    case True
    then show ?thesis using a holds_kept [OF assms(1)] by simp
  next
    case False
    then obtain s where s: "n \<le> s" "good h' ((lens A)(p \<mapsto> s))" "A p = None" using a by (auto simp: lens_eq)
    then have "holds good byte h' (A(p \<mapsto> array_at byte h' p s))" using holds_add [OF assms(1)] a by blast
    then show ?thesis using False s by auto
  qed
qed

lemma holds_drop: "good h ((lens A)(p := None)) \<Longrightarrow> holds good byte h A \<Longrightarrow> holds good byte h (A(p := None))"
  by (auto simp: holds_def split: if_splits)

lemma dealloc_holds:
  assumes "holds good byte h A" "A p = Some bs"
  shows "holds good byte (dealloc p h) (A(p := None))"
proof -
  have "good h (lens A)" "lens A p = Some (length bs)" using assms by (simp_all add: holds_def lens_def)
  note d = dealloc_good [OF this]
  then show ?thesis using assms by (auto simp: holds_def kept_def lens_eq split: if_splits)
qed

text \<open>A write into one array changes that array only.\<close>

lemma poke_holds:
  assumes "holds good byte h A" "A p = Some bs" "i < length bs"
  shows "holds good byte (poke (p + i) v h) (A(p \<mapsto> bs[i := v]))"
proof -
  have g: "good h (lens A)" "lens A p = Some (length bs)" using assms by (simp_all add: holds_def lens_def)
  have "byte (poke (p + i) v h) (q + j) = (if q = p then bs[i := v] else cs) ! j"
    if q: "if q = p then cs = bs else A q = Some cs" "j < length cs" for q cs j
  proof (cases "q = p")
    case True
    then show ?thesis using q assms by (auto simp: poke_byte holds_def nth_list_update)
  next
    case False
    then have "lens A q = Some (length cs)" using q by (simp add: lens_def)
    then have "q + length cs \<le> p \<or> p + length bs \<le> q" using apart [OF g(1) _ g(2) False] by blast
    then have "q + j \<noteq> p + i" using q(2) assms(3) by linarith
    then show ?thesis using False q assms(1) by (simp add: poke_byte holds_def)
  qed
  moreover have "lens (A(p \<mapsto> bs[i := v])) = lens A" using assms(2) by (auto simp: lens_def)
  moreover have "good (poke (p + i) v h) (lens A)" by (rule poke_good [OF g assms(3)])
  ultimately show ?thesis unfolding holds_def by (auto split: if_splits)
qed

end

section \<open>The calls of \<open>malloc.c\<close> keep the contract\<close>

definition heap_good :: "heap \<Rightarrow> store \<Rightarrow> bool" where
  "heap_good h M \<longleftrightarrow> heap_ok h M \<and> machine_ok h"

text \<open>A store of one byte by the program.\<close>

definition heap_poke :: "nat \<Rightarrow> u8 \<Rightarrow> heap \<Rightarrow> heap" where
  "heap_poke a v h = h\<lparr>hp_mem := (hp_mem h)(a := v)\<rparr>"

lemma kept_contents: "kept hp_mem M h h' = contents_kept M h h'"
  by (simp add: kept_def contents_kept_def)

lemma heap_block:
  assumes "heap_ok h M" "M p = Some s"
  shows "8 dvd p" "8 \<le> s" "8 dvd s" "hp_first h + 8 \<le> p" "p + s \<le> hp_epilogue h" "hp_first h \<noteq> 0" "p \<noteq> 0"
proof -
  obtain xs ys where x: "heap_inv h (xs @ (s, False) # ys)" "p = hp_first h + span xs + 8" using live_place [OF assms] by blast
  note i = inv_size [OF x(1) refl]
  show "8 dvd p" "8 \<le> s" "8 dvd s" "p \<noteq> 0" using i(3,4,6) by (simp_all add: x(2))
  show "hp_first h + 8 \<le> p" "p + s \<le> hp_epilogue h" "hp_first h \<noteq> 0" using x by (simp_all add: heap_inv_def)
qed

lemma heap_apart:
  assumes "heap_ok h M" "M p = Some s" "M q = Some t" "p \<noteq> q"
  shows "p + s \<le> q \<or> q + t \<le> p"
proof -
  have p: "8 \<le> p" "8 \<le> q" using assms by (auto simp: heap_ok_def dom_def)
  obtain bs where bs: "useds (hp_first h) bs = blocks_of M" using heap_ok_live [OF assms(1,2)] by blast
  have "(p - 8, s) \<in> blocks_of M" "(q - 8, t) \<in> blocks_of M" using p assms by (simp_all add: blocks_of_def)
  then have "(p - 8, s, False) \<in> blocks (hp_first h) bs" "(q - 8, t, False) \<in> blocks (hp_first h) bs" by (simp_all add: useds_def flip: bs)
  from blocks_apart [OF this] show ?thesis using p assms(4) by auto
qed

lemma got_good:
  assumes "got_block M n h h' p" "world_same h h'" "machine_ok h"
  shows "M p = None \<and> (\<exists>s \<ge> n. heap_good h' (M(p \<mapsto> s)))"
  using assms machine_world by (auto simp: got_block_def heap_good_def fresh_block_def)

interpretation hm: allocator heap_good hp_mem malloc free_ptr heap_poke
proof unfold_locales
  fix h M n h' p assume "heap_good h M" "malloc n h = (h', p)"
  then have g: "heap_ok h M" "machine_ok h" and m: "malloc n h = (h', p)" by (simp_all add: heap_good_def)
  note s = malloc_spec [OF g m]
  then show "kept hp_mem M h h' \<and> (if p = 0 then heap_good h' M else M p = None \<and> (\<exists>s \<ge> n. heap_good h' (M(p \<mapsto> s))))"
    using got_good [of M n h h' p] machine_world g by (simp add: kept_contents heap_good_def split: if_splits)
next
  fix h M p s assume "heap_good h M" "M p = Some s"
  then show "heap_good (free_ptr p h) (M(p := None)) \<and> kept hp_mem (M(p := None)) h (free_ptr p h)"
    using free_spec [of h M p s] machine_world by (auto simp: heap_good_def kept_contents)
next
  fix h M p s i v assume g: "heap_good h M" "M p = Some s" "i < s"
  have "heap_ok (h\<lparr>hp_mem := (hp_mem h)(p + i := v)\<rparr>) M" using g by (intro write_ok) (auto simp: heap_good_def)
  then show "heap_good (heap_poke (p + i) v h) M" using g(1) by (auto simp: heap_good_def heap_poke_def machine_ok_def heap_limit_def Let_def split: if_splits)
next
  fix a v h x show "hp_mem (heap_poke a v h) x = (if x = a then v else hp_mem h x)" by (simp add: heap_poke_def)
next
  fix h M p s q t assume "heap_good h M" "M p = Some s" "M q = Some t" "p \<noteq> q"
  then show "p + s \<le> q \<or> q + t \<le> p" using heap_apart [of h M p s q t] by (simp add: heap_good_def)
qed

interpretation ha: allocator heap_good hp_mem "aligned_alloc (2 ^ (j mod 32))" free_ptr heap_poke
proof unfold_locales
  fix h M n h' p assume "heap_good h M" "aligned_alloc (2 ^ (j mod 32)) n h = (h', p)"
  then have g: "heap_ok h M" "machine_ok h" and m: "aligned_alloc (2 ^ (j mod 32)) n h = (h', p)" by (simp_all add: heap_good_def)
  have "(2::nat) ^ (j mod 32) < U32" by (rule power_strict_increasing) simp_all
  note s = aligned_alloc_spec [OF g this m]
  then show "kept hp_mem M h h' \<and> (if p = 0 then heap_good h' M else M p = None \<and> (\<exists>s \<ge> n. heap_good h' (M(p \<mapsto> s))))"
    using got_good [of M n h h' p] machine_world g by (simp add: kept_contents heap_good_def split: if_splits)
qed (use hm.dealloc_good hm.poke_good hm.poke_byte hm.apart in blast)+

section \<open>Programs\<close>

text \<open>
  A program holds arrays, asks for more, gives them back, resizes them and writes into them; between its calls the stack pointer and the reserve
  may move. A block handed out holds what its memory holds.
\<close>

definition held :: "heap \<Rightarrow> nat \<Rightarrow> u8 list" where
  "held h p = array_at hp_mem h p (malloc_usable_size h p)"

definition with_block :: "heap \<times> nat \<Rightarrow> arrays \<Rightarrow> heap \<times> arrays" where
  "with_block r A = (fst r, if snd r = 0 then A else A(snd r \<mapsto> held (fst r) (snd r)))"

inductive client :: "heap \<times> arrays \<Rightarrow> heap \<times> arrays \<Rightarrow> bool" where
  c_malloc: "client (h, A) (with_block (malloc n h) A)"
| c_calloc: "n < U32 \<Longrightarrow> sz < U32 \<Longrightarrow> client (h, A) (with_block (calloc n sz h) A)"
| c_aligned: "j < 32 \<Longrightarrow> client (h, A) (with_block (aligned_alloc (2 ^ j) n h) A)"
| c_realloc: "A p = Some bs \<Longrightarrow> n \<noteq> 0 \<Longrightarrow> realloc p n h = (h', q) \<Longrightarrow>
    client (h, A) (h', if q = 0 then A else (A(p := None))(q \<mapsto> held h' q))"
| c_free: "A p = Some bs \<Longrightarrow> client (h, A) (free_ptr p h, A(p := None))"
| c_write: "A p = Some bs \<Longrightarrow> i < length bs \<Longrightarrow> client (h, A) (heap_poke (p + i) v h, A(p \<mapsto> bs[i := v]))"
| c_machine: "h' = h\<lparr>hp_sp := sp, hp_reserve := r\<rparr> \<Longrightarrow> machine_ok h' \<Longrightarrow> client (h, A) (h', A)"

definition booted :: "heap \<Rightarrow> bool" where
  "booted h \<longleftrightarrow> hp_first h = 0 \<and> (\<forall>i. hp_bins h i = 0) \<and> (\<forall>i. hp_sl_map h i = 0) \<and> hp_fl_map h = 0 \<and> machine_ok h"

abbreviation holds_heap :: "heap \<Rightarrow> arrays \<Rightarrow> bool" where
  "holds_heap \<equiv> holds heap_good hp_mem"

lemma booted_ok: "booted h \<Longrightarrow> heap_ok h Map.empty"
proof -
  assume b: "booted h"
  have "lists_ok h {}" unfolding lists_ok_def using b by (intro exI [of _ "\<lambda>_. []"]) (auto simp: booted_def members_def)
  then show ?thesis using b by (simp add: heap_ok_def unstarted_def booted_def maps_ok_def)
qed

lemma booted_holds: "booted h \<Longrightarrow> holds_heap h Map.empty"
  using booted_ok by (simp add: holds_def heap_good_def booted_def)

lemma held_array: "heap_ok h M \<Longrightarrow> M p = Some s \<Longrightarrow> held h p = array_at hp_mem h p s"
  by (simp add: held_def usable_spec)

lemma with_block_holds:
  assumes "holds_heap h A" "world_same h (fst r)" "contents_kept (lens A) h (fst r)"
    "if snd r = 0 then heap_ok (fst r) (lens A) else got_block (lens A) n h (fst r) (snd r)"
  shows "holds_heap (fst (with_block r A)) (snd (with_block r A))"
proof -
  have g: "machine_ok h" using assms(1) by (simp add: holds_def heap_good_def)
  show ?thesis
  proof (cases "snd r = 0")
    case True
    then show ?thesis using hm.holds_kept [OF assms(1)] assms machine_world [OF g assms(2)] by (simp add: with_block_def kept_contents heap_good_def)
  next
    case False
    then have "got_block (lens A) n h (fst r) (snd r)" using assms(4) by simp
    from got_good [OF this assms(2) g] obtain s where s: "lens A (snd r) = None" "heap_good (fst r) ((lens A)(snd r \<mapsto> s))" by blast
    have "heap_ok (fst r) ((lens A)(snd r \<mapsto> s))" using s(2) by (simp add: heap_good_def)
    from held_array [OF this] have h: "held (fst r) (snd r) = array_at hp_mem (fst r) (snd r) s" by simp
    show ?thesis using hm.holds_add [OF assms(1) _ _ s(2)] assms(3) s(1) False by (simp add: with_block_def h kept_contents lens_eq)
  qed
qed

lemma realloc_holds:
  assumes "holds_heap h A" "A p = Some bs" "n \<noteq> 0" "realloc p n h = (h', q)"
  shows "holds_heap h' (if q = 0 then A else (A(p := None))(q \<mapsto> held h' q))"
proof -
  have g: "heap_ok h (lens A)" "machine_ok h" using assms(1) by (simp_all add: holds_def heap_good_def)
  have l: "lens A p = Some (length bs)" using assms(2) by (simp add: lens_def)
  note r = realloc_spec [OF g l assms(4)]
  then have m: "machine_ok h'" using machine_world [OF g(2)] by blast
  show ?thesis
  proof (cases "q = 0")
    case True
    then show ?thesis using r assms(3) hm.holds_kept [OF assms(1)] m by (simp add: kept_contents heap_good_def)
  next
    case False
    then have mv: "moved (lens A) p (length bs) n h h' q" using r assms(3) by (auto split: if_splits)
    then obtain s where s: "fresh_block ((lens A)(p := None)) h' q s" "heap_ok h' (((lens A)(p := None))(q \<mapsto> s))" by (auto simp: moved_def got_block_def)
    have h: "held h' q = array_at hp_mem h' q s" using held_array [OF s(2)] by simp
    have k: "contents_kept ((lens A)(p := None)) h h'" using mv by (simp add: moved_def)
    have "(A(p := None)) q = None" using s(1) by (auto simp: fresh_block_def lens_eq)
    moreover have "\<forall>q' cs i. (A(p := None)) q' = Some cs \<longrightarrow> i < length cs \<longrightarrow> hp_mem h' (q' + i) = cs ! i"
      using k assms(1) by (auto simp: contents_kept_def holds_def lens_def split: if_splits)
    ultimately show ?thesis using False s(2) m unfolding holds_def heap_good_def by (auto simp: h array_at_def split: if_splits)
  qed
qed

lemma client_holds: "client x y \<Longrightarrow> holds_heap (fst x) (snd x) \<Longrightarrow> holds_heap (fst y) (snd y)"
proof (induction rule: client.induct)
  case (c_malloc h A n)
  then have h: "holds_heap h A" "heap_ok h (lens A)" "machine_ok h" by (simp_all add: holds_def heap_good_def)
  obtain h' p where m: "malloc n h = (h', p)" by fastforce
  show ?case by (rule with_block_holds [OF h(1), of _ n]) (use malloc_spec [OF h(2,3) m] in \<open>simp_all add: m split: if_splits\<close>)
next
  case (c_calloc n sz h A)
  then have h: "holds_heap h A" "heap_ok h (lens A)" "machine_ok h" by (simp_all add: holds_def heap_good_def)
  obtain h' p where m: "calloc n sz h = (h', p)" by fastforce
  show ?case
    by (rule with_block_holds [OF h(1), of _ "n * sz"]) (use calloc_spec [OF h(2,3) c_calloc(1,2) m] in \<open>simp_all add: m split: if_splits\<close>)
next
  case (c_aligned j h A n)
  then have h: "holds_heap h A" "heap_ok h (lens A)" "machine_ok h" by (simp_all add: holds_def heap_good_def)
  obtain h' p where m: "aligned_alloc (2 ^ j) n h = (h', p)" by fastforce
  have "(2::nat) ^ j < U32" using c_aligned(1) by (intro power_strict_increasing) simp_all
  then show ?case
    by (intro with_block_holds [OF h(1), of _ n]) (use aligned_alloc_spec [OF h(2,3) _ m] in \<open>simp_all add: m split: if_splits\<close>)
next
  case (c_realloc A p bs n h h' q)
  then show ?case using realloc_holds [of h A p bs n h' q] by simp
next
  case (c_free A p bs h)
  then show ?case unfolding fst_conv snd_conv by (blast intro: hm.dealloc_holds)
next
  case (c_write A p bs i h v)
  then show ?case unfolding fst_conv snd_conv by (blast intro: hm.poke_holds)
next
  case (c_machine h' r sp h A)
  have "heap_ok h' M = heap_ok h M" for M
  proof -
    have f: "head h' = head h" "prev_size h' = prev_size h" "next_free h' = next_free h" "prev_free h' = prev_free h"
      by (auto simp: c_machine(1) head_def prev_size_def next_free_def prev_free_def)
    have "lists_ok h' F = lists_ok h F" for F by (rule lists_ok_frame) (simp only: f, simp add: c_machine(1))
    moreover have "maps_ok h' = maps_ok h" by (simp add: maps_ok_def c_machine(1))
    moreover have "tiles h' a pf ps bs = tiles h a pf ps bs" for a pf ps bs by (rule tiles_frame) (simp only: f)
    moreover have "hp_first h' = hp_first h" "hp_epilogue h' = hp_epilogue h" by (simp_all add: c_machine(1))
    ultimately show ?thesis by (simp only: heap_ok_def heap_inv_def unstarted_def)
  qed
  then show ?case using c_machine by (simp add: holds_def heap_good_def)
qed

lemma reachable_holds: "client\<^sup>*\<^sup>* x y \<Longrightarrow> holds_heap (fst x) (snd x) \<Longrightarrow> holds_heap (fst y) (snd y)"
  by (induction rule: rtranclp_induct) (auto intro: client_holds)

text \<open>A pointer that has been freed is no live block.\<close>

lemma freed_dead:
  assumes "heap_ok h M" "M p = Some s"
  shows "in_heap (free_ptr p h) p" "\<not> live_block (free_ptr p h) p"
proof -
  obtain xs ys where x: "heap_inv h (xs @ (s, False) # ys)" "p = hp_first h + span xs + 8" using live_place [OF assms] by blast
  define b where "b = hp_first h + span xs"
  have p: "p = b + 8" by (simp add: x(2) b_def)
  note l = live_block_used [OF x(1) b_def]
  have fr: "free_ptr p h = release b h" using l by (simp add: free_ptr_def p B_FREE_def)
  obtain r: "core (release b h) = core h" "dead (release b h) b"
    using release_loose [OF inv_loose [OF x(1)] b_def] by blast
  have "hp_first (release b h) = hp_first h" "hp_epilogue (release b h) = hp_epilogue h" using core_same [OF r(1)] by simp_all
  then show "in_heap (free_ptr p h) p" using l(2) [folded p] by (simp add: fr in_heap_def)
  show "\<not> live_block (free_ptr p h) p"
  proof
    assume lv: "live_block (free_ptr p h) p"
    then have "live_block (release b h) p" unfolding fr .
    then have o: "head (release b h) b AND (1 OR 4) = 0" "head (release b h) (NEXT_PHYS (release b h) b) AND 2 = 0"
      unfolding live_block_def l(3) [folded p] Let_def heap_consts by blast+
    have "head (release b h) b AND 1 = (head (release b h) b AND (1 OR 4)) AND 1" by (simp add: and.assoc)
    then show False using r(2) o unfolding dead_def by simp
  qed
qed

section \<open>Properties\<close>

lemma sum_lens:
  assumes "holds_heap h A"
  shows "heap_used h = Some (\<Sum>p \<in> dom A. length (the (A p)))" "heap_check h = Some 0"
proof -
  have h: "heap_ok h (lens A)" using assms by (simp add: holds_def heap_good_def)
  have d: "dom (lens A) = dom A" by (auto simp: lens_def)
  have "(\<Sum>p \<in> dom A. the (lens A p)) = (\<Sum>p \<in> dom A. length (the (A p)))" by (rule sum.cong) (auto simp: lens_def)
  then show "heap_used h = Some (\<Sum>p \<in> dom A. length (the (A p)))" using heap_stats_ok [OF h] by (auto simp: heap_used_def d)
  show "heap_check h = Some 0" by (rule heap_check_ok [OF h])
qed

text \<open>
  C35: In every heap a program can reach from the start by \<open>malloc\<close>, \<open>calloc\<close>, \<open>aligned_alloc\<close>, \<open>realloc\<close>, \<open>free\<close> and writes inside its own blocks, while the
  stack pointer and the reserve move, each block it holds still has the bytes it last wrote there, is 8-aligned and lies inside the heap, no two blocks overlap,
  \<open>heap_check\<close> ends and finds nothing wrong, and \<open>heap_used\<close> is the sum of the sizes of exactly the blocks held.
\<close>

theorem reachable_heap:
  assumes "booted h0" "client\<^sup>*\<^sup>* (h0, Map.empty) (h, A)"
  shows "(\<forall>p bs. A p = Some bs \<longrightarrow> bs = held h p \<and> 8 dvd p \<and> hp_first h + 8 \<le> p \<and> p + length bs \<le> hp_epilogue h) \<and>
    (\<forall>p q bs cs. A p = Some bs \<longrightarrow> A q = Some cs \<longrightarrow> p \<noteq> q \<longrightarrow> p + length bs \<le> q \<or> q + length cs \<le> p) \<and>
    heap_check h = Some 0 \<and> heap_used h = Some (\<Sum>p \<in> dom A. length (the (A p)))"
proof -
  have h: "holds_heap h A" using reachable_holds [OF assms(2)] booted_holds [OF assms(1)] by simp
  then have g: "heap_ok h (lens A)" by (simp add: holds_def heap_good_def)
  have b: "bs = held h p \<and> 8 dvd p \<and> hp_first h + 8 \<le> p \<and> p + length bs \<le> hp_epilogue h" if a: "A p = Some bs" for p bs
  proof -
    have l: "lens A p = Some (length bs)" using a by (simp add: lens_def)
    have "bs = array_at hp_mem h p (length bs)" using h a by (intro nth_equalityI) (auto simp: holds_def array_at_def)
    then show ?thesis using held_array [OF g l] heap_block [OF g l] by simp
  qed
  have "p + length bs \<le> q \<or> q + length cs \<le> p" if "A p = Some bs" "A q = Some cs" "p \<noteq> q" for p q bs cs
    using heap_apart [OF g, of p _ q] that by (simp add: lens_def)
  then show ?thesis using b sum_lens [OF h] by blast
qed

text \<open>A machine with a megabyte of memory, at its start.\<close>

definition demo_heap :: heap where
  "demo_heap = \<lparr>hp_mem = \<lambda>_. 0, hp_bins = \<lambda>_. 0, hp_fl_map = 0, hp_sl_map = \<lambda>_. 0, hp_first = 0, hp_epilogue = 0, hp_reserve = 65536,
     hp_main_sp = 0, hp_hooked = False, hp_sp = 1048576, hp_start = 4096, hp_stack_limit = 0, hp_hook_calls = [], hp_errors = [], hp_errno = 0\<rparr>"

lemma demo_booted: "booted demo_heap" "heap_ok demo_heap Map.empty" "machine_ok demo_heap"
proof -
  show b: "booted demo_heap" "machine_ok demo_heap" by (simp_all add: booted_def demo_heap_def machine_ok_def heap_limit_def)
  show "heap_ok demo_heap Map.empty" by (rule booted_ok [OF b(1)])
qed

lemma demo_room: "\<not> heap_limit demo_heap < heap_end demo_heap + 10 + 24"
  using ALIGN8_bounds(2) [of 4096] by (simp add: demo_heap_def heap_limit_def heap_end_def)

lemma demo_malloc:
  "\<exists>h p s. malloc 10 demo_heap = (h, p) \<and> p \<noteq> 0 \<and> 10 \<le> s \<and> heap_ok h [p \<mapsto> s] \<and> machine_ok h \<and> hp_errors h = []"
proof -
  obtain h p where m: "malloc 10 demo_heap = (h, p)" by fastforce
  note s = malloc_spec [OF demo_booted(2,3) m]
  then have p: "p \<noteq> 0" using demo_room by (auto simp: MAX_REQUEST_def split: if_splits)
  then obtain s where "10 \<le> s" "heap_ok h [p \<mapsto> s]" using s by (auto simp: got_block_def)
  moreover have "world_same demo_heap h" using s by blast
  then have "machine_ok h" "hp_errors h = []" using demo_booted(3) by (auto simp: machine_ok_def world_same_def demo_heap_def)
  ultimately show ?thesis using m p by blast
qed

theorem reachable_heap_witness:
  "\<exists>h p. client\<^sup>*\<^sup>* (demo_heap, Map.empty) (h, [p \<mapsto> held h p]) \<and> 10 \<le> length (held h p) \<and> 8 dvd p \<and> heap_check h = Some 0"
proof -
  obtain h p s where m: "malloc 10 demo_heap = (h, p)" "p \<noteq> 0" "10 \<le> s" "heap_ok h [p \<mapsto> s]" using demo_malloc by blast
  have "client (demo_heap, Map.empty) (h, [p \<mapsto> held h p])" using c_malloc [of demo_heap Map.empty 10] m(1,2) by (simp add: with_block_def)
  then have c: "client\<^sup>*\<^sup>* (demo_heap, Map.empty) (h, [p \<mapsto> held h p])" by blast
  have "10 \<le> length (held h p)" using held_array [OF m(4), of p s] m(3) by simp
  note r = reachable_heap [OF demo_booted(1) c]
  have "8 dvd p" using r [THEN conjunct1, rule_format, of p "held h p"] by simp
  moreover have "heap_check h = Some 0" by (rule r [THEN conjunct2, THEN conjunct2, THEN conjunct1])
  ultimately show ?thesis using c \<open>10 \<le> length (held h p)\<close> by blast
qed

text \<open>
  C36: \<open>malloc\<close>, \<open>calloc\<close> and \<open>aligned_alloc\<close> hand out a block of at least the size asked for, overlapping no live block, 8-aligned (for \<open>aligned_alloc\<close>: as asked), zeroed by
  \<open>calloc\<close>, and add exactly it to the live blocks; or they return null and change nothing but \<open>errno\<close>, \<open>malloc\<close> only for 0 bytes, for more than 1 GiB or when the
  heap has no room left below the reserve, \<open>aligned_alloc\<close> with \<open>EINVAL\<close> exactly when the alignment is no power of two. The contents of the other blocks stay.
\<close>

theorem allocate_correct:
  assumes "heap_ok h M" "machine_ok h" "n < U32" "sz < U32" "al < U32"
  shows "(case malloc n h of (h', p) \<Rightarrow> contents_kept M h h' \<and>
      (if p = 0 then heap_ok h' M \<and> (n = 0 \<or> hp_errno h' = HEAP_ENOMEM \<and> (MAX_REQUEST < n \<or> heap_limit h < heap_end h + n + 24))
       else got_block M n h h' p)) \<and>
    (case calloc n sz h of (h', p) \<Rightarrow> contents_kept M h h' \<and>
      (if p = 0 then heap_ok h' M \<and> (n * sz = 0 \<or> hp_errno h' = HEAP_ENOMEM)
       else got_block M (n * sz) h h' p \<and> (\<forall>i < n * sz. hp_mem h' (p + i) = 0))) \<and>
    (case aligned_alloc al n h of (h', p) \<Rightarrow> contents_kept M h h' \<and>
      (if p = 0 then heap_ok h' M \<and> (n = 0 \<or> hp_errno h' = (if \<exists>j. al = 2 ^ j then HEAP_ENOMEM else HEAP_EINVAL))
       else al dvd p \<and> got_block M n h h' p))"
proof -
  obtain h1 p1 h2 p2 h3 p3 where e: "malloc n h = (h1, p1)" "calloc n sz h = (h2, p2)" "aligned_alloc al n h = (h3, p3)" by fastforce
  show ?thesis unfolding e prod.case
    using malloc_spec [OF assms(1,2) e(1)] calloc_spec [OF assms(1-4) e(2)] aligned_alloc_spec [OF assms(1,2,5) e(3)] by (simp split: if_splits)
qed

theorem allocate_correct_witness: "\<exists>h p. malloc 10 demo_heap = (h, p) \<and> got_block Map.empty 10 demo_heap h p"
proof -
  obtain h p where m: "malloc 10 demo_heap = (h, p)" by fastforce
  have "(10::nat) < U32" "(3::nat) < U32" "(64::nat) < U32" by simp_all
  note a = allocate_correct [OF demo_booted(2,3) this, THEN conjunct1, unfolded m prod.case]
  then have "p \<noteq> 0" using demo_room by (auto simp: MAX_REQUEST_def split: if_splits)
  then show ?thesis using a m by simp
qed

text \<open>
  C37: \<open>realloc\<close> of a live block returns a block of at least the new size that holds the bytes of the old one as far as they fit, whether it stayed, grew into the free
  block above or past the top, or moved; the old pointer is given up and the new block overlaps no other. For 0 bytes it frees; when there is no room it returns null with
  \<open>ENOMEM\<close> and the block and its contents are untouched. The contents of all other blocks stay.
\<close>

theorem realloc_correct:
  assumes "heap_ok h M" "machine_ok h" "M p = Some s" "realloc p n h = (h', q)"
  shows "if n = 0 then q = 0 \<and> heap_ok h' (M(p := None)) \<and> contents_kept (M(p := None)) h h'
    else if q = 0 then heap_ok h' M \<and> contents_kept M h h' \<and> hp_errno h' = HEAP_ENOMEM
    else contents_kept (M(p := None)) h h' \<and> got_block (M(p := None)) n h h' q \<and> (\<forall>i < min n s. hp_mem h' (q + i) = hp_mem h (p + i))"
  using realloc_spec [OF assms] by (auto simp: moved_def split: if_splits)

theorem realloc_correct_witness:
  "\<exists>h p h'. malloc 10 demo_heap = (h, p) \<and> realloc p 4 h = (h', p) \<and> got_block Map.empty 4 h h' p \<and> (\<forall>i < 4. hp_mem h' (p + i) = hp_mem h (p + i))"
proof -
  obtain h p s where m: "malloc 10 demo_heap = (h, p)" "heap_ok h [p \<mapsto> s]" "machine_ok h" "p \<noteq> 0" "10 \<le> s" using demo_malloc by blast
  obtain xs ys where x: "heap_inv h (xs @ (s, False) # ys)" "p = hp_first h + span xs + 8" using live_place [OF m(2), of p s] by auto
  have l: "live_block h p" "SIZE h (OF p) = s" using live_block_used(1,3,4) [OF x(1) refl] by (simp_all add: x(2))
  have "block_size 4 \<le> s" using block_size_bounds(1,5) [of 4] m(5) by (auto elim!: dvdE)
  then have r: "realloc p 4 h = (trim (OF p) (block_size 4) h, p)" using l m(4) by (simp add: realloc_def MAX_REQUEST_def Let_def)
  show ?thesis using realloc_correct [OF m(2,3) _ r, of s] m r by auto
qed

text \<open>
  C38: A block that was freed is never freed again: a second \<open>free\<close> of the same pointer calls the error handler and leaves the heap as it was, even when the block has
  been merged into a free neighbour below it or has swallowed the one above; \<open>malloc_usable_size\<close> of it is 0 and \<open>realloc\<close> of it reports it.
\<close>

theorem double_free_reported:
  assumes "heap_ok h M" "M p = Some s" "0 < n"
  shows "(\<exists>what. free_ptr p (free_ptr p h) = heap_error what p (free_ptr p h)) \<and> malloc_usable_size (free_ptr p h) p = 0 \<and>
    (\<exists>what. realloc p n (free_ptr p h) = (heap_error what p (free_ptr p h), 0))"
proof -
  define g where "g = free_ptr p h"
  have d: "in_heap g p" "\<not> live_block g p" "p \<noteq> 0" using freed_dead [OF assms(1,2)] heap_block(7) [OF assms(1,2)] by (simp_all add: g_def)
  then have "free_ptr p g = heap_error ''double free'' p g \<or> free_ptr p g = heap_error ''free of a pointer that is not a live block'' p g"
    by (simp add: free_ptr_def)
  then have "\<exists>what. free_ptr p g = heap_error what p g" by blast
  moreover have "\<exists>what. realloc p n g = (heap_error what p g, 0)" using d assms(3) by (simp add: realloc_def) blast
  ultimately show ?thesis using d by (simp add: malloc_usable_size_def g_def)
qed

theorem double_free_reported_witness:
  "\<exists>h p what. malloc 10 demo_heap = (h, p) \<and> hp_errors (free_ptr p (free_ptr p h)) = [(what, p)]"
proof -
  obtain h p s where m: "malloc 10 demo_heap = (h, p)" "heap_ok h [p \<mapsto> s]" "hp_errors h = []" using demo_malloc by blast
  have "hp_errors (free_ptr p h) = []" using free_spec [OF m(2), of p s] m(3) by (simp add: world_same_def)
  then show ?thesis using double_free_reported [OF m(2), of p s 1] m(1) by (auto simp: heap_error_def)
qed

end
