(* ===== verification/Lz.thy ===== *)
theory Lz
  imports Bits
begin

text \<open>
  \<open>src/ceres/lz.c\<close>: LZ4 blocks and frames. A source is the list of its bytes and a place in it; a destination is the list of the bytes it
  has room for, of which a function may use the first \<open>cap\<close>. A store or a copy outside a destination, or a read before what was written,
  is \<open>None\<close>; a result is the destination with \<open>Inl\<close> the error or \<open>Inr\<close> the bytes written. Lengths are below 2^31, as all memory is.
\<close>

datatype lz_error = LZ_EINVAL | LZ_ENOSPC

definition MIN_MATCH :: nat where "MIN_MATCH = 4"
definition MF_LIMIT :: nat where "MF_LIMIT = 12"
definition LAST_LITERALS :: nat where "LAST_LITERALS = 5"
definition HASH_BITS :: nat where "HASH_BITS = 12"

type_synonym lz_result = "(u8 list \<times> (lz_error + nat)) option"

section \<open>Decompression\<close>

text \<open>The bytes that go on a length: the new place and the length, or nothing when the source ends.\<close>

function more_length :: "u8 list \<Rightarrow> nat \<Rightarrow> nat \<Rightarrow> nat \<Rightarrow> (nat \<times> nat) option" where
  "more_length s lim ip len =
     (if length s \<le> ip then None
      else let b = unat (s ! ip); len = len + b
        in if b = 255 \<and> len \<le> lim then more_length s lim (ip + 1) len else Some (ip + 1, len))"
  by auto
termination by (relation "measure (\<lambda>(s, lim, ip, len). length s - ip)") auto

declare more_length.simps [simp del]

definition read_length :: "u8 list \<Rightarrow> nat \<Rightarrow> nat \<Rightarrow> nat \<Rightarrow> (nat \<times> nat) option" where
  "read_length s lim ip nibble = (if nibble = 15 then more_length s lim ip nibble else Some (ip, nibble))"

lemma more_length_place: "more_length s lim ip len = Some (ip', l) \<Longrightarrow> ip < ip' \<and> ip' \<le> length s"
proof (induction s lim ip len rule: more_length.induct)
  case (1 s lim ip len)
  show ?case
  proof (cases "length s \<le> ip \<or> \<not> (unat (s ! ip) = 255 \<and> len + unat (s ! ip) \<le> lim)")
    case True
    then show ?thesis using 1(2) by (subst (asm) more_length.simps) (auto simp: Let_def split: if_splits)
  next
    case False
    then have "more_length s lim (ip + 1) (len + unat (s ! ip)) = Some (ip', l)"
      using 1(2) by (subst (asm) more_length.simps) (auto simp: Let_def)
    then show ?thesis using 1(1) False by auto
  qed
qed

lemma read_length_place: "read_length s lim ip nib = Some (ip', l) \<Longrightarrow> ip \<le> ip' \<and> (ip \<le> length s \<longrightarrow> ip' \<le> length s)"
  using more_length_place by (fastforce simp: read_length_def split: if_splits)

text \<open>The copy of a match, byte by byte: it may overlap what it writes.\<close>

fun copy_match :: "nat \<Rightarrow> u8 list \<Rightarrow> nat \<Rightarrow> nat \<Rightarrow> u8 list option" where
  "copy_match 0 buf op offset = Some buf"
| "copy_match (Suc n) buf op offset =
     (if offset \<le> op \<and> op < length buf then copy_match n (buf[op := buf ! (op - offset)]) (op + 1) offset else None)"

text \<open>One sequence of a block: done with a result, or the next place in the source and in the destination.\<close>

datatype lz_step = Done "lz_error + nat" | Next nat nat

definition decode_match :: "u8 list \<Rightarrow> nat \<Rightarrow> nat \<Rightarrow> nat \<Rightarrow> nat \<Rightarrow> u8 list \<Rightarrow> (u8 list \<times> lz_step) option" where
  "decode_match s cap token ip op buf =
     (if length s - ip < 2 then Some (buf, Done (Inl LZ_EINVAL))
      else let offset = unat (s ! ip) OR push_bit 8 (unat (s ! (ip + 1))); ip = ip + 2
        in if offset = 0 \<or> op < offset then Some (buf, Done (Inl LZ_EINVAL))
           else case read_length s cap ip (token AND 15) of
               None \<Rightarrow> Some (buf, Done (Inl LZ_EINVAL))
             | Some (ip, len) \<Rightarrow>
                 let len = len + MIN_MATCH
                 in if sub32 cap op < len then Some (buf, Done (Inl LZ_ENOSPC))
                    else case copy_match len buf op offset of
                        None \<Rightarrow> None
                      | Some buf \<Rightarrow> Some (buf, Next ip (op + len)))"

definition decode_sequence :: "u8 list \<Rightarrow> nat \<Rightarrow> nat \<Rightarrow> nat \<Rightarrow> nat \<Rightarrow> u8 list \<Rightarrow> (u8 list \<times> lz_step) option" where
  "decode_sequence s cap pos ip op buf =
     (if length s \<le> ip then Some (buf, Done (Inl LZ_EINVAL))
      else let token = unat (s ! ip)
        in case read_length s (length s) (ip + 1) (drop_bit 4 token) of
            None \<Rightarrow> Some (buf, Done (Inl LZ_EINVAL))
          | Some (ip, literals) \<Rightarrow>
              if length s - ip < literals then Some (buf, Done (Inl LZ_EINVAL))
              else if sub32 cap op < literals then Some (buf, Done (Inl LZ_ENOSPC))
              else case mem_put buf op (take literals (drop ip s)) of
                  None \<Rightarrow> None
                | Some buf \<Rightarrow>
                    if ip + literals = length s then Some (buf, Done (Inr (op + literals - pos)))
                    else decode_match s cap token (ip + literals) (op + literals) buf)"

lemma decode_match_place: "decode_match s cap token ip op buf = Some (buf', Next ip' op') \<Longrightarrow> ip < ip'"
  by (auto simp: decode_match_def Let_def split: if_splits option.splits dest!: read_length_place)

lemma decode_sequence_place: "decode_sequence s cap pos ip op buf = Some (buf', Next ip' op') \<Longrightarrow> ip < ip' \<and> ip < length s"
  by (auto simp: decode_sequence_def Let_def split: if_splits option.splits dest!: read_length_place decode_match_place)

function lz_decode :: "u8 list \<Rightarrow> nat \<Rightarrow> nat \<Rightarrow> nat \<Rightarrow> nat \<Rightarrow> u8 list \<Rightarrow> lz_result" where
  "lz_decode s cap pos ip op buf =
     (case decode_sequence s cap pos ip op buf of
        None \<Rightarrow> None
      | Some (buf, Done r) \<Rightarrow> Some (buf, r)
      | Some (buf, Next ip op) \<Rightarrow> lz_decode s cap pos ip op buf)"
  by auto
termination
  by (relation "measure (\<lambda>(s, cap, pos, ip, op, buf). length s - ip)") (auto dest: decode_sequence_place)

declare lz_decode.simps [simp del]

definition lz4_decompress :: "u8 list \<Rightarrow> u8 list \<Rightarrow> nat \<Rightarrow> lz_result" where
  "lz4_decompress s dst cap = lz_decode s cap 0 0 0 dst"

section \<open>Frames\<close>

definition FRAME_MAGIC :: u32 where "FRAME_MAGIC = 0x184D2204"
definition SKIPPABLE_MASK :: u32 where "SKIPPABLE_MASK = 0xFFFFFFF0"
definition SKIPPABLE_MAGIC :: u32 where "SKIPPABLE_MAGIC = 0x184D2A50"

text \<open>The header at \<open>p\<close> of what is left of the source: its length, the flags and the content size.\<close>

definition frame_header :: "u8 list \<Rightarrow> nat \<Rightarrow> (nat \<times> nat \<times> int) option" where
  "frame_header s p =
     (let n = length s - p
      in if n < 7 \<or> le32 s p \<noteq> FRAME_MAGIC then None
         else let flg = unat (s ! (p + 4)); b5 = unat (s ! (p + 5))
           in if drop_bit 6 flg \<noteq> 1 \<or> flg AND 0x02 \<noteq> 0 \<or> b5 AND 0x8F \<noteq> 0 then None
              else if drop_bit 4 b5 AND 7 < 4 then None
              else if flg AND 0x08 \<noteq> 0 \<and> n < 15 then None
              else let content = (if flg AND 0x08 \<noteq> 0
                     then sint (ucast (le32 s (p + 6)) OR push_bit 32 (ucast (le32 s (p + 10))) :: u64) else - 1);
                       len = 7 + (if flg AND 0x08 \<noteq> 0 then 8 else 0) + (if flg AND 0x01 \<noteq> 0 then 4 else 0)
                in if n < len then None else Some (len, flg, content))"

definition lz4_frame_content_size :: "u8 list \<Rightarrow> int" where
  "lz4_frame_content_size s = (case frame_header s 0 of None \<Rightarrow> - 1 | Some (len, flags, content) \<Rightarrow> content)"

text \<open>
  The blocks of a frame from place \<open>p\<close> on, \<open>start\<close> being where the frame's output begins: one block, then the loop, which ends with the place after
  the end mark and the bytes written so far.
\<close>

datatype block_step = Block_Error lz_error | Block_End nat nat | Block_Next nat nat

definition decode_at :: "u8 list \<Rightarrow> nat \<Rightarrow> nat \<Rightarrow> nat \<Rightarrow> u8 list \<Rightarrow> lz_result" where
  "decode_at s base pos cap out =
     (case lz_decode s cap pos 0 pos (drop base out) of None \<Rightarrow> None | Some (buf, r) \<Rightarrow> Some (take base out @ buf, r))"

definition frame_block :: "u8 list \<Rightarrow> nat \<Rightarrow> nat \<Rightarrow> nat \<Rightarrow> nat \<Rightarrow> nat \<Rightarrow> u8 list \<Rightarrow> (u8 list \<times> block_step) option" where
  "frame_block s cap flags start p written out =
     (if length s - p < 4 then Some (out, Block_Error LZ_EINVAL)
      else let w = le32 s p; p = p + 4
        in if w = 0 then Some (out, Block_End p written)
           else let stored = (w AND 0x80000000 \<noteq> 0);
                    n = unat (w AND 0x7FFFFFFF);
                    independent = (flags AND 0x20 \<noteq> 0);
                    check = (flags AND 0x10 \<noteq> 0);
                    p' = p + n + (if check then 4 else 0)
             in if length s - p < n \<or> (check \<and> length s - p - n < 4) then Some (out, Block_Error LZ_EINVAL)
                else if stored then
                  if sub32 cap written < n then Some (out, Block_Error LZ_ENOSPC)
                  else map_option (\<lambda>out. (out, Block_Next p' (written + n))) (mem_put out written (take n (drop p s)))
                else case decode_at (take n (drop p s)) (if independent then written else start)
                         (if independent then 0 else written - start) (if independent then sub32 cap written else sub32 cap start) out of
                    None \<Rightarrow> None
                  | Some (out, Inl e) \<Rightarrow> Some (out, Block_Error e)
                  | Some (out, Inr got) \<Rightarrow> Some (out, Block_Next p' (written + got)))"

lemma frame_block_place:
  assumes "frame_block s cap flags start p written out = Some (out', r)" "p \<le> length s"
  shows "r = Block_End p' w' \<or> r = Block_Next p' w' \<Longrightarrow> p + 4 \<le> p' \<and> p' \<le> length s"
  using assms by (fastforce simp: frame_block_def Let_def split: if_splits option.splits sum.splits)

function frame_blocks :: "u8 list \<Rightarrow> nat \<Rightarrow> nat \<Rightarrow> nat \<Rightarrow> nat \<Rightarrow> nat \<Rightarrow> u8 list \<Rightarrow> (u8 list \<times> (lz_error + nat \<times> nat)) option" where
  "frame_blocks s cap flags start p written out =
     (case frame_block s cap flags start p written out of
        None \<Rightarrow> None
      | Some (out, Block_Error e) \<Rightarrow> Some (out, Inl e)
      | Some (out, Block_End p written) \<Rightarrow> Some (out, Inr (p, written))
      | Some (out, Block_Next p written) \<Rightarrow> frame_blocks s cap flags start p written out)"
  by auto
termination
proof (relation "measure (\<lambda>(s, cap, flags, start, p, written, out). length s - p)")
  fix s cap flags start p written out p1 out1 r p' w'
  assume a: "frame_block s cap flags start p written out = Some p1" "(out1, r) = p1" "r = Block_Next p' w'"
  have "\<not> length s - p < 4" using a by (auto simp: frame_block_def)
  then have "p' \<le> length s \<and> p + 4 \<le> p' \<and> p \<le> length s" using frame_block_place [of s cap flags start p written out out1 r p' w'] a by auto
  then show "((s, cap, flags, start, p', w', out1), s, cap, flags, start, p, written, out) \<in>
    measure (\<lambda>(s, cap, flags, start, p, written, out). length s - p)" by (simp add: diff_less_mono2)
qed simp

declare frame_blocks.simps [simp del]

lemma frame_blocks_place:
  "p \<le> length s \<Longrightarrow> frame_blocks s cap flags start p written out = Some (out', Inr (p', w')) \<Longrightarrow> p + 4 \<le> p' \<and> p' \<le> length s"
proof (induction s cap flags start p written out rule: frame_blocks.induct)
  case (1 s cap flags start p written out)
  from 1(3) obtain o1 r where r: "frame_block s cap flags start p written out = Some (o1, r)"
    by (subst (asm) frame_blocks.simps) (auto split: option.splits)
  show ?case
  proof (cases r)
    case (Block_Next p1 w1)
    have "frame_blocks s cap flags start p1 w1 o1 = Some (out', Inr (p', w'))" using 1(3) r Block_Next by (subst (asm) frame_blocks.simps) simp
    then show ?thesis using 1(1) [OF r refl Block_Next] frame_block_place [OF r 1(2)] Block_Next by force
  qed (use 1(3) r frame_block_place [OF r 1(2)] in \<open>subst (asm) frame_blocks.simps, auto\<close>)+
qed

lemma frame_header_length: "frame_header s p = Some (len, flags, content) \<Longrightarrow> 7 \<le> len \<and> p + len \<le> length s"
  by (auto simp: frame_header_def Let_def split: if_splits)

text \<open>One frame, skippable or not; the content checksum after it is skipped.\<close>

datatype frame_step = Frame_Error lz_error | Frame_None | Frame_Skipped nat | Frame_Read nat nat

definition read_frame :: "u8 list \<Rightarrow> nat \<Rightarrow> nat \<Rightarrow> nat \<Rightarrow> u8 list \<Rightarrow> (u8 list \<times> frame_step) option" where
  "read_frame s cap p written out =
     (if 8 \<le> length s - p \<and> le32 s p AND SKIPPABLE_MASK = SKIPPABLE_MAGIC then
        let n = unat (le32 s (p + 4))
        in Some (out, if length s - p - 8 < n then Frame_Error LZ_EINVAL else Frame_Skipped (p + 8 + n))
      else case frame_header s p of
          None \<Rightarrow> Some (out, Frame_None)
        | Some (header, flags, content) \<Rightarrow>
            if flags AND 0x01 \<noteq> 0 then Some (out, Frame_Error LZ_EINVAL)
            else case frame_blocks s cap flags written (p + header) written out of
                None \<Rightarrow> None
              | Some (out, Inl e) \<Rightarrow> Some (out, Frame_Error e)
              | Some (out, Inr (p, written)) \<Rightarrow>
                  Some (out, if flags AND 0x04 \<noteq> 0 then if length s - p < 4 then Frame_Error LZ_EINVAL else Frame_Read (p + 4) written
                             else Frame_Read p written))"

lemma read_frame_place:
  assumes "read_frame s cap p written out = Some (out', r)" "p < length s"
  shows "r = Frame_Skipped p' \<or> r = Frame_Read p' w' \<Longrightarrow> p < p'"
  using assms
  by (auto simp: read_frame_def Let_def split: if_splits option.splits sum.splits dest!: frame_header_length frame_blocks_place [rotated])

function decode_frames :: "u8 list \<Rightarrow> nat \<Rightarrow> nat \<Rightarrow> nat \<Rightarrow> nat \<Rightarrow> u8 list \<Rightarrow> lz_result" where
  "decode_frames s cap frames p written out =
     (if length s \<le> p then Some (out, if frames = 0 then Inl LZ_EINVAL else Inr written)
      else case read_frame s cap p written out of
          None \<Rightarrow> None
        | Some (out, Frame_Error e) \<Rightarrow> Some (out, Inl e)
        | Some (out, Frame_None) \<Rightarrow> Some (out, if 0 < frames then Inr written else Inl LZ_EINVAL)
        | Some (out, Frame_Skipped p) \<Rightarrow> decode_frames s cap frames p written out
        | Some (out, Frame_Read p written) \<Rightarrow> decode_frames s cap (frames + 1) p written out)"
  by auto
termination
  by (relation "measure (\<lambda>(s, cap, frames, p, written, out). length s - p)") (auto dest!: read_frame_place)

declare decode_frames.simps [simp del]

definition lz4_frame_decompress :: "u8 list \<Rightarrow> u8 list \<Rightarrow> nat \<Rightarrow> lz_result" where
  "lz4_frame_decompress s dst cap = decode_frames s cap 0 0 0 dst"

section \<open>Compression\<close>

definition lz_hash :: "u32 \<Rightarrow> nat" where
  "lz_hash v = unat (drop_bit (32 - HASH_BITS) (v * 2654435761))"

definition lz4_bound :: "nat \<Rightarrow> nat" where
  "lz4_bound n = add32 (add32 n (n div 255)) 16"

text \<open>The bytes of a length of 15 or more: the destination, the next place, and whether they fitted.\<close>

fun put_length :: "u8 list \<Rightarrow> nat \<Rightarrow> nat \<Rightarrow> nat \<Rightarrow> (u8 list \<times> nat \<times> bool) option" where
  "put_length dst op cap extra =
     (if cap \<le> op then Some (dst, op, False)
      else if 255 \<le> extra then
        case mem_set dst op 255 of None \<Rightarrow> None | Some dst \<Rightarrow> put_length dst (op + 1) cap (extra - 255)
      else map_option (\<lambda>dst. (dst, op + 1, True)) (mem_set dst op (of_nat extra)))"

declare put_length.simps [simp del]

definition put_rest :: "nat \<Rightarrow> u8 list \<Rightarrow> nat \<Rightarrow> nat \<Rightarrow> (u8 list \<times> nat \<times> bool) option" where
  "put_rest len dst op cap = (if 15 \<le> len then put_length dst op cap (len - 15) else Some (dst, op, True))"

definition nibble :: "nat \<Rightarrow> nat" where
  "nibble n = (if 15 \<le> n then 15 else n)"

text \<open>
  One sequence: literals \<open>src[anchor..at)\<close> and then, with a length, a match \<open>offset\<close> back; the token, the first byte, is stored last.
\<close>

definition put_offset :: "nat \<Rightarrow> nat \<Rightarrow> u8 list \<Rightarrow> nat \<Rightarrow> nat \<Rightarrow> nat \<Rightarrow> nat \<Rightarrow> (u8 list \<times> nat \<times> bool) option" where
  "put_offset offset len dst op cap token t =
     (if sub32 cap op < 2 then Some (dst, op, False)
      else case mem_put dst op [of_nat (offset AND 0xFF), of_nat (drop_bit 8 offset)] of
          None \<Rightarrow> None
        | Some dst \<Rightarrow>
            case put_rest (len - MIN_MATCH) dst (op + 2) cap of
              None \<Rightarrow> None
            | Some (dst, op, ok) \<Rightarrow>
                if ok then map_option (\<lambda>dst. (dst, op, True)) (mem_set dst token (of_nat (t OR nibble (len - MIN_MATCH))))
                else Some (dst, op, False))"

definition put_sequence :: "u8 list \<Rightarrow> nat \<Rightarrow> nat \<Rightarrow> nat \<Rightarrow> nat \<Rightarrow> u8 list \<Rightarrow> nat \<Rightarrow> nat \<Rightarrow> (u8 list \<times> nat \<times> bool) option" where
  "put_sequence src anchor at offset len dst op cap =
     (let literals = at - anchor; token = op; t = push_bit 4 (nibble literals)
      in if cap \<le> op then Some (dst, op, False)
         else case put_rest literals dst (op + 1) cap of
             None \<Rightarrow> None
           | Some (dst, op, ok) \<Rightarrow>
               if \<not> ok \<or> sub32 cap op < literals then Some (dst, op, False)
               else case mem_put dst op (take literals (drop anchor src)) of
                   None \<Rightarrow> None
                 | Some dst \<Rightarrow>
                     if len = 0 then map_option (\<lambda>dst. (dst, op + literals, True)) (mem_set dst token (of_nat t))
                     else put_offset offset len dst (op + literals) cap token t)"

text \<open>How far a match goes on.\<close>

function match_length :: "u8 list \<Rightarrow> nat \<Rightarrow> nat \<Rightarrow> nat \<Rightarrow> nat \<Rightarrow> nat" where
  "match_length src ref ip lim len =
     (if ip + len < lim \<and> src ! (ref + len) = src ! (ip + len) then match_length src ref ip lim (len + 1) else len)"
  by auto
termination by (relation "measure (\<lambda>(src, ref, ip, lim, len). lim - (ip + len))") auto

declare match_length.simps [simp del]

record packing =
  pk_table :: "nat \<Rightarrow> nat"
  pk_ip :: nat
  pk_anchor :: nat
  pk_op :: nat
  pk_dst :: "u8 list"

text \<open>One turn of the loop at a place before the limit: the next state, or the destination when it is full.\<close>

definition pack_step :: "u8 list \<Rightarrow> nat \<Rightarrow> packing \<Rightarrow> (u8 list + packing) option" where
  "pack_step src cap k =
     (let limit = length src - MF_LIMIT; match_limit = length src - LAST_LITERALS; ip = pk_ip k;
          w = le32 src ip; hh = lz_hash w; ref = pk_table k hh;
          k = k\<lparr>pk_table := (pk_table k)(hh := ip + 1)\<rparr>
      in if ref = 0 \<or> 65535 < ip - (ref - 1) \<or> le32 src (ref - 1) \<noteq> w then Some (Inr (k\<lparr>pk_ip := ip + 1\<rparr>))
         else let ref = ref - 1; len = match_length src ref ip match_limit MIN_MATCH
           in case put_sequence src (pk_anchor k) ip (ip - ref) len (pk_dst k) (pk_op k) cap of
               None \<Rightarrow> None
             | Some (dst, op, False) \<Rightarrow> Some (Inl dst)
             | Some (dst, op, True) \<Rightarrow>
                 let ip = ip + len;
                     tab = (if ip - 2 < limit then (pk_table k)(lz_hash (le32 src (ip - 2)) := ip - 2 + 1) else pk_table k)
                 in Some (Inr \<lparr>pk_table = tab, pk_ip = ip, pk_anchor = ip, pk_op = op, pk_dst = dst\<rparr>))"

lemma match_length_le: "len \<le> match_length src ref ip lim len"
proof (induction src ref ip lim len rule: match_length.induct)
  case (1 src ref ip lim len)
  then show ?case by (subst match_length.simps) auto
qed

lemma pack_step_place: "pack_step src cap k = Some (Inr k') \<Longrightarrow> pk_ip k < pk_ip k'"
  using match_length_le [of MIN_MATCH src]
  by (auto simp: pack_step_def Let_def MIN_MATCH_def split: if_splits option.splits bool.splits) (meson less_le_trans zero_less_numeral)+

function pack_loop :: "u8 list \<Rightarrow> nat \<Rightarrow> packing \<Rightarrow> (u8 list + packing) option" where
  "pack_loop src cap k =
     (if pk_ip k < length src - MF_LIMIT then
        case pack_step src cap k of None \<Rightarrow> None | Some (Inl dst) \<Rightarrow> Some (Inl dst) | Some (Inr k) \<Rightarrow> pack_loop src cap k
      else Some (Inr k))"
  by auto
termination by (relation "measure (\<lambda>(src, cap, k). length src - pk_ip k)") (auto dest: pack_step_place)

declare pack_loop.simps [simp del]

definition lz4_compress :: "u8 list \<Rightarrow> u8 list \<Rightarrow> nat \<Rightarrow> lz_result" where
  "lz4_compress src dst cap =
     (let k = \<lparr>pk_table = \<lambda>_. 0, pk_ip = 0, pk_anchor = 0, pk_op = 0, pk_dst = dst\<rparr>
      in case (if MF_LIMIT + 1 \<le> length src then pack_loop src cap k else Some (Inr k)) of
          None \<Rightarrow> None
        | Some (Inl dst) \<Rightarrow> Some (dst, Inl LZ_ENOSPC)
        | Some (Inr k) \<Rightarrow>
            (case put_sequence src (pk_anchor k) (length src) 0 0 (pk_dst k) (pk_op k) cap of
               None \<Rightarrow> None
             | Some (dst, op, ok) \<Rightarrow> Some (dst, if ok then Inr op else Inl LZ_ENOSPC)))"

end
