(* ===== verification/Lz_Round.thy ===== *)
theory Lz_Round
  imports Lz_Proof
begin

text \<open>What a block decompresses to: the decoder takes off the sequences one by one, and \<open>lz4_compress\<close> writes a chain of them that covers its source.\<close>

section \<open>Taking a sequence off\<close>













section \<open>Chains of sequences\<close>





section \<open>The bound\<close>







section \<open>The compressor\<close>









section \<open>The property\<close>




end
