(* ===== verification/Calendar.thy ===== *)
theory Calendar
  imports Prelude "HOL-Library.Signed_Division"
begin

text \<open>
  The calendar of \<open>src/time.c\<close>: seconds since 1970 to a broken-down date and back. Integers are \<open>int\<close> with the truncating division of C; the
  bound \<open>MAX_DAYS\<close> keeps every value inside its machine type. The Gregorian calendar itself is the specification: the length of the months, and the
  day after a day.
\<close>

section \<open>The code\<close>


definition era_of :: "int \<Rightarrow> int \<Rightarrow> int" where
  "era_of len z = (if 0 \<le> z then z else z - (len - 1)) sdiv len"


definition days_from_civil :: "int \<Rightarrow> int \<Rightarrow> int \<Rightarrow> int" where
  "days_from_civil y m d =
     (let y = y - (if m \<le> 2 then 1 else 0);
          era = era_of 400 y;
          yoe = y - era * 400;
          doy = (153 * (if 2 < m then m - 3 else m + 9) + 2) sdiv 5 + d - 1;
          doe = yoe * 365 + yoe sdiv 4 - yoe sdiv 100 + doy
      in era * 146097 + doe - 719468)"


definition MAX_DAYS :: int where "MAX_DAYS = 2000000000"



section \<open>The Gregorian calendar\<close>

definition leap :: "int \<Rightarrow> bool" where
  "leap y \<longleftrightarrow> 4 dvd y \<and> (\<not> 100 dvd y \<or> 400 dvd y)"




section \<open>Division\<close>

lemma sdiv_nonneg: "0 \<le> a \<Longrightarrow> 0 < b \<Longrightarrow> a sdiv b = a div (b :: int)"
  by (simp add: signed_divide_int_def sgn_if)


lemma sdiv_neg: "a < 0 \<Longrightarrow> 0 < b \<Longrightarrow> a sdiv b = - ((- a) div (b :: int))"
  by (simp add: signed_divide_int_def sgn_if)

lemma era_of_div: "0 < len \<Longrightarrow> era_of len z = z div len"
proof -
  assume l: "0 < len"
  show ?thesis
  proof (cases "0 \<le> z")
    case False
    then have "era_of len z = - ((len - 1 - z) div len)" using l by (simp add: era_of_def sdiv_neg)
    moreover have "z div len = - ((len - 1 - z) div len)"
    proof -
      have e: "z = z div len * len + z mod len" "0 \<le> z mod len" "z mod len < len" using l by simp_all
      have "(len - 1 - z) div len = - (z div len)"
        by (rule int_div_pos_eq [of _ _ _ "len - 1 - z mod len"]) (use e in \<open>simp_all add: algebra_simps\<close>)
      then show ?thesis by simp
    qed
    ultimately show ?thesis by simp
  qed (use l in \<open>simp add: era_of_def sdiv_nonneg\<close>)
qed


lemma div_step: "0 < k \<Longrightarrow> (y + 1) div k = y div k + (if k dvd y + 1 then 1 else 0 :: int)"
proof -
  assume k: "0 < k"
  define q r where "q = y div k" and "r = y mod k"
  have y: "y = k * q + r" "0 \<le> r" "r < k" using k by (simp_all add: q_def r_def)
  show ?thesis
  proof (cases "r = k - 1")
    case True
    then have e: "y + 1 = (q + 1) * k" using y(1) by (simp add: algebra_simps)
    then have "k dvd y + 1" by simp
    moreover have "(y + 1) div k = q + 1" unfolding e using k by simp
    ultimately show ?thesis by (simp add: q_def)
  next
    case False
    have e: "y + 1 = k * q + (r + 1)" "0 \<le> r + 1" "r + 1 < k" using y False by simp_all
    have "(y + 1) div k = q" "(y + 1) mod k = r + 1" by (rule int_div_pos_eq [OF e], rule int_mod_pos_eq [OF e])
    moreover have "r + 1 \<noteq> 0" using y(2) by simp
    ultimately show ?thesis by (auto simp: q_def dvd_eq_mod_eq_0)
  qed
qed

section \<open>Days of the era\<close>

text \<open>The days before year \<open>y\<close> of an era of 400 years that begin in March; a day of the era belongs to one of them.\<close>

definition year_start :: "int \<Rightarrow> int" where
  "year_start y = 365 * y + y div 4 - y div 100"



lemma year_start_mono: "a \<le> b \<Longrightarrow> year_start a \<le> year_start b"
proof (induction rule: int_ge_induct)
  case (step b)
  then show ?case using div_step [of 4 b] div_step [of 100 b] by (simp add: year_start_def split: if_splits)
qed simp






section \<open>Days of the year\<close>

text \<open>The months from March on.\<close>

definition month_start :: "int \<Rightarrow> int" where
  "month_start mp = (153 * mp + 2) div 5"







section \<open>Dates and days\<close>

text \<open>The functions, with the divisions they do.\<close>

definition march_month :: "int \<Rightarrow> int" where
  "march_month m = (if 2 < m then m - 3 else m + 9)"

definition march_year :: "int \<Rightarrow> int \<Rightarrow> int" where
  "march_year y m = y - (if m \<le> 2 then 1 else 0)"


lemma days_from_civil_eq:
  assumes "1 \<le> m"
  shows "days_from_civil y m d = march_year y m div 400 * 146097 + year_start (march_year y m mod 400) + month_start (march_month m) + d - 719469"
proof -
  have mm: "0 \<le> march_month m" using assms by (simp add: march_month_def)
  define x where "x = march_year y m"
  have "x - x div 400 * 400 = x mod 400" by (simp add: minus_div_mult_eq_mod)
  moreover have "0 \<le> x mod 400" by simp
  ultimately show ?thesis using mm
    unfolding days_from_civil_def Let_def march_month_def [symmetric] march_year_def [symmetric] x_def [symmetric]
    by (simp add: era_of_div sdiv_nonneg year_start_def month_start_def)
qed





text \<open>A valid date comes back from its day.\<close>

lemma dvd_shift: "k dvd (400 :: int) \<Longrightarrow> k dvd y mod 400 + 1 \<longleftrightarrow> k dvd y + 1"
proof -
  assume "k dvd 400"
  then have "k dvd 400 * (y div 400)" by simp
  then have "k dvd (y mod 400 + 1) + 400 * (y div 400) \<longleftrightarrow> k dvd y mod 400 + 1" by (rule dvd_add_left_iff)
  moreover have "(y mod 400 + 1) + 400 * (y div 400) = y + 1" using div_mult_mod_eq [of y 400] by linarith
  ultimately show ?thesis by simp
qed

lemma leap_shift: "leap (y mod 400 + 1) \<longleftrightarrow> leap (y + 1)"
  unfolding leap_def by (simp add: dvd_shift)










section \<open>Seconds and fields\<close>


text \<open>No step of the two functions leaves the range of a 32-bit \<open>int\<close>, on the values \<open>gmtime_r\<close> and \<open>mktime\<close> call them with.\<close>

definition fits :: "int \<Rightarrow> bool" where
  "fits x \<longleftrightarrow> - (2 ^ 31) \<le> x \<and> x < 2 ^ 31"

lemma civil_from_days_fits:
  assumes "- MAX_DAYS \<le> z" "z \<le> MAX_DAYS"
  shows "fits (z + 719468)" "fits (z + 719468 - 146096)" "fits (era_of 146097 (z + 719468) * 146097)" "fits (era_of 146097 (z + 719468) * 400)"
proof -
  define era doe where "era = (z + 719468) div 146097" and "doe = (z + 719468) mod 146097"
  have d: "0 \<le> doe" "doe \<le> 146096" by (simp_all add: doe_def)
  have "z + 719468 = era * 146097 + doe" by (simp add: era_def doe_def)
  then show "fits (z + 719468)" "fits (z + 719468 - 146096)" "fits (era_of 146097 (z + 719468) * 146097)" "fits (era_of 146097 (z + 719468) * 400)"
    using assms d unfolding MAX_DAYS_def fits_def by (simp_all add: era_of_div era_def [symmetric])
qed

lemma days_from_civil_fits:
  assumes "- 5800000 \<le> y" "y \<le> 5800000" "1 \<le> m" "m \<le> 12"
  shows "fits (era_of 400 (march_year y m) * 146097)" "fits (days_from_civil y m 1 + 719468)" "fits (days_from_civil y m 1)"
proof -
  define Y where "Y = march_year y m"
  have Y: "- 5800001 \<le> Y" "Y \<le> 5800000" using assms(1,2) by (simp_all add: Y_def march_year_def)
  define era yoe where "era = Y div 400" and "yoe = Y mod 400"
  have e: "Y = era * 400 + yoe" "0 \<le> yoe" "yoe \<le> 399" by (simp_all add: era_def yoe_def)
  have b: "- 14501 \<le> era" "era \<le> 14500" using Y e by linarith+
  have mm: "0 \<le> march_month m" "march_month m \<le> 11" using assms(3,4) by (simp_all add: march_month_def)
  have s: "0 \<le> year_start yoe" "year_start yoe \<le> 145731"
    using year_start_mono [OF e(2)] year_start_mono [OF e(3)] by (simp_all add: year_start_def)
  have m: "0 \<le> month_start (march_month m)" "month_start (march_month m) \<le> 337" using mm unfolding month_start_def by linarith+
  have d: "days_from_civil y m 1 = era * 146097 + year_start yoe + month_start (march_month m) - 719468"
    unfolding days_from_civil_eq [OF assms(3)] Y_def [symmetric] era_def [symmetric] yoe_def [symmetric] by simp
  show "fits (era_of 400 (march_year y m) * 146097)" using b by (simp add: fits_def era_of_div Y_def [symmetric] era_def [symmetric])
  show "fits (days_from_civil y m 1 + 719468)" "fits (days_from_civil y m 1)" unfolding d fits_def using b s m by simp_all
qed













section \<open>The property\<close>





end
