(* ===== verification/Spec2Isabelle.thy ===== *)
theory Spec2Isabelle
  imports Prelude Bits Cqueue Spsc Ringbuf Vector Deque Heap_Sift Pqueue Iheap Hash Generic Bitset Gmap Hashmap Utf8
    Fs_Vol Fs_File Fs_Mount Fs_Path Fs_Check Fs_Image Fs_Dir Fs_Format Fs_Data Fs_Rw
    Slotmap Dsu Sort_Stable Qsort
    Memory Malloc Malloc_Class Malloc_Lists Malloc_Tiles Malloc_Ops Malloc_Calls Malloc_Spec Malloc_Realloc Malloc_Aligned Malloc_Check Allocator
    Lz Lz_Proof Lz_Round
    Calendar
begin

text \<open>
  Verification library of the Ceres standard library: C for the Ceres machine, a 32-bit little-endian machine with at most 2 GiB of memory (1 GiB
  below the devices). The library has the C standard headers (\<open>src/*.c\<close>) and, under \<open>src/ceres\<close>, containers, the file system CeresFS, drivers
  and helpers for programs. What is modelled is its core that computes: the containers, the sorts, hashes and encodings, the allocator and the
  file system. The parts interact by calls. The allocator is under every container; the vector is under the stack, the priority queue, the heap with
  handles and the slot map; the circular queue is under the ring buffer; the hash map is under the hash set and the string map;
  the block device is under the volumes, these under files and paths.

  \<^bold>\<open>How C is rendered.\<close> A \<open>struct\<close> is a record with a field for each of its members, an \<open>enum\<close> or a set of codes a datatype. A 32-bit value that
  wraps, or whose bits matter, is a \<open>32 word\<close>; a size or an index is a \<open>nat\<close> with the wrap-around written by \<open>add32\<close>, \<open>sub32\<close>
  and \<open>mul32\<close> (\<^theory_text>\<open>Prelude\<close>). A pointer into an array is an index; a pointer that is null is \<open>None\<close>. What C leaves
  undefined, or a read or a store outside its buffer, is the value \<open>None\<close> of the definition, so a theorem that an operation gives \<open>Some\<close> says it
  never happens. Errors are \<open>Inl\<close> of a sum, or the code the function returns. Whether \<open>malloc\<close> succeeds is a list of answers the
  operation consumes (\<open>allocs\<close>), so a theorem holds for every pattern of failures; the allocator itself is modelled apart, on bytes.
  Function pointers (comparators, hashes, visitors, devices) are functions; the contracts they have to meet are locales.

  \<^bold>\<open>Theories and sources\<close>, in the order they build on each other.
    \<^item> \<^theory_text>\<open>Prelude\<close>: words, wrap-around arithmetic, allocation answers, slots of elements and \<open>memmove\<close> on them, comparators and the locale
      \<open>total_cmp\<close> of those that are total preorders. \<^theory_text>\<open>Bits\<close>: \<open>ceres/bits.h\<close>, \<open>ceres/endian.h\<close>.
    \<^item> \<^theory_text>\<open>Cqueue\<close>, \<^theory_text>\<open>Spsc\<close>, \<^theory_text>\<open>Ringbuf\<close>: \<open>ds/cqueue.c\<close>, its use by one producer and one consumer at once, \<open>ds/ringbuf.c\<close>.
    \<^item> \<^theory_text>\<open>Vector\<close>, \<^theory_text>\<open>Deque\<close>: \<open>ds/vector.c\<close>, \<open>ds/stack.h\<close>, \<open>ds/deque.c\<close>.
    \<^item> \<^theory_text>\<open>Heap_Sift\<close>, \<^theory_text>\<open>Pqueue\<close>, \<^theory_text>\<open>Iheap\<close>: \<open>ds/heap_priv.h\<close>, \<open>ds/pqueue.c\<close>, \<open>ds/iheap.c\<close>.
    \<^item> \<^theory_text>\<open>Hash\<close>, \<^theory_text>\<open>Generic\<close>, \<^theory_text>\<open>Bitset\<close>, \<^theory_text>\<open>Gmap\<close>, \<^theory_text>\<open>Hashmap\<close>: \<open>hash.c\<close>, \<open>ds/generic.h\<close>, \<open>ds/bitset.c\<close> and
      \<open>ds/bloom.c\<close>, \<open>ds/gmap.c\<close>, \<open>ds/hashmap.c\<close> with \<open>ds/hset.h\<close>.
    \<^item> \<^theory_text>\<open>Slotmap\<close>, \<^theory_text>\<open>Dsu\<close>: \<open>ds/slotmap.h\<close>, \<open>ds/dsu.h\<close>. \<^theory_text>\<open>Sort_Stable\<close>, \<^theory_text>\<open>Qsort\<close>: \<open>ceres/sort.c\<close>, \<open>qsort.c\<close> and
      \<open>bsearch\<close> of \<open>stdlib.c\<close>. \<^theory_text>\<open>Utf8\<close>: \<open>ceres/utf8.c\<close>.
    \<^item> CeresFS, \<open>ceres/fs.c\<close>: \<^theory_text>\<open>Fs_Vol\<close> (device, caches, file allocation table, directory entries), \<^theory_text>\<open>Fs_File\<close> (descriptors),
      \<^theory_text>\<open>Fs_Mount\<close> (mount points, formatting, space), \<^theory_text>\<open>Fs_Path\<close> (names and everything that takes one), \<^theory_text>\<open>Fs_Check\<close> (\<open>fs_check\<close>) hold
      the code; \<^theory_text>\<open>Fs_Image\<close>, \<^theory_text>\<open>Fs_Dir\<close>, \<^theory_text>\<open>Fs_Format\<close>, \<^theory_text>\<open>Fs_Data\<close> and \<^theory_text>\<open>Fs_Rw\<close> what it does to the image of a volume.
    \<^item> The allocator, \<open>malloc.c\<close>: \<^theory_text>\<open>Memory\<close> (bytes and words), \<^theory_text>\<open>Malloc\<close> (every call) and \<^theory_text>\<open>Malloc_Check\<close> (\<open>heap_check\<close>,
      \<open>heap_stats\<close>) hold the code; \<^theory_text>\<open>Malloc_Class\<close> (size classes), \<^theory_text>\<open>Malloc_Lists\<close> (free lists), \<^theory_text>\<open>Malloc_Tiles\<close> (blocks in a row),
      \<^theory_text>\<open>Malloc_Ops\<close> and \<^theory_text>\<open>Malloc_Calls\<close> (the invariant, the internal steps), \<^theory_text>\<open>Malloc_Spec\<close>, \<^theory_text>\<open>Malloc_Realloc\<close>, \<^theory_text>\<open>Malloc_Aligned\<close>
      (what the calls promise), \<^theory_text>\<open>Allocator\<close> (programs that use them).
    \<^item> \<^theory_text>\<open>Lz\<close> (the code), \<^theory_text>\<open>Lz_Proof\<close>, \<^theory_text>\<open>Lz_Round\<close>: \<open>ceres/lz.c\<close>. \<^theory_text>\<open>Calendar\<close>: the calendar of \<open>time.c\<close>.

  \<^bold>\<open>Interfaces.\<close> \<open>total_cmp\<close>: what \<open>qsort\<close> and the heaps require of a comparator; met by the comparators of \<open>generic.h\<close>.
  \<open>key_hash\<close>: equal keys hash equally; met by the pairs of \<open>generic.h\<close> and of \<open>hashmap.c\<close>. \<open>sift_ops\<close>: what the sift macros
  require of their two parameters; met by the priority queue and by the heap with handles. \<open>bounded_fifo\<close>: what the users of a queue rely on. \<open>keyed_store\<close>:
  a table as a function from keys to values, over any sequence of operations; met by the hash map and the string map. \<open>allocator\<close>: fresh, aligned
  and separate arrays of bytes; met by \<open>malloc\<close> and by \<open>aligned_alloc\<close>.

  \<^bold>\<open>What the lemmas show.\<close> A container has a well-formedness predicate that every operation keeps and an abstraction (a list, a bag, a set, a map, a
  partition) on which every operation does what its name says, failures included. The hashes equal their definitions, the
  encodings are inverse, the sorts sort. In CeresFS the one-sector caches are invisible: each operation acts on the image of the
  volume, first as an array of links, then as arrays of entries, then as bytes of a file; formatting gives what mounting accepts, and what \<open>fs_check\<close> does
  on chains that are damaged. In the allocator the heap is a row of blocks with all free ones in the lists their sizes
  belong to; on this rest the promises of the calls, that every heap a program can reach passes \<open>heap_check\<close>, and that a double free is reported.

  \<^bold>\<open>Loops.\<close> Those with an evident bound are structural or have a measure; there is no fuel but the number of slots in the probes of \<^theory_text>\<open>Gmap\<close>,
  enough because the probe sequence of a table of 2^k slots meets every slot within 2^k steps. Loops that follow data which may be damaged (the chains and
  directories of CeresFS, the blocks and lists of \<open>heap_check\<close>, the parents of disjoint sets) are partial functions, \<open>None\<close> when
  they never end, and the theorems prove that they return from a well-formed state; a circular directory is an input on which they do not.

  \<^bold>\<open>Findings.\<close> \<open>gmap_init\<close> shifts by 32 above 2^31; a failed second reservation leaves a slot map that dereferences NULL later; \<open>fs_check\<close> and every
  search loop for ever on a directory whose chain is circular. The manifest has the rest.

  \<^bold>\<open>Not modelled.\<close> The drivers and all that draws, sounds or reads input: registers of devices. Floating-point mathematics and its conversion to text: their
  correctness is an error bound over IEEE arithmetic. Tasks, interrupts, faults, signals and \<open>setjmp\<close>: assembly and stack switches. The streams and
  the formatted input and output of \<open>stdio\<close>: variadic argument lists. JSON, INI, packs, saved games, and the containers of linked nodes (red-black
  tree, skip list, trie, intrusive lists), arenas and pools were not reached. Of \<open>malloc.c\<close> the debug build with canaries and
  \<open>heap_dump\<close>, of \<open>time.c\<close> the clocks and the text.
\<close>

end
